(* ===== verification/Prelude.thy ===== *)
theory Prelude
  imports Main "HOL-Library.Word"
begin

text \<open>
  Shared vocabulary of the development: the result type of code that can hit undefined
  behaviour or an out-of-bounds access, its sequencing operator, the characters the servers
  of this repository treat specially, and generic lemmas on lists that the component
  theories use.
\<close>

named_theorems res_simps "rewriting of the result monad"
named_theorems inv_intros "preservation of component invariants"

subsection \<open>Results that may be faults\<close>

text \<open>
  A fault is a point at which the C++ program has undefined behaviour. It carries what the
  program did: a store at a position outside the array, a string function applied to memory
  with no terminating NUL, a signed overflow, a dereference of a null or freed pointer.
\<close>

datatype fault =
    Bad_Store int
  | Bad_Load int
  | Bad_String nat
  | Int_Overflow int
  | Null_Deref
  | Freed_Deref nat
  | Div_By_Zero
  | Wild_Free

type_synonym 'a result = "fault + 'a"

definition bindR :: "'a result \<Rightarrow> ('a \<Rightarrow> 'b result) \<Rightarrow> 'b result" where
  "bindR m f = (case m of Inl e \<Rightarrow> Inl e | Inr x \<Rightarrow> f x)"

lemma bindR_Inl [simp, res_simps]: "bindR (Inl e) f = Inl e"
  by (simp add: bindR_def)

lemma bindR_Inr [simp, res_simps]: "bindR (Inr x) f = f x"
  by (simp add: bindR_def)

lemma bindR_eq_Inr: "bindR m f = Inr y \<longleftrightarrow> (\<exists>x. m = Inr x \<and> f x = Inr y)"
  by (cases m) auto

lemma bindR_eq_Inl: "bindR m f = Inl e \<longleftrightarrow> m = Inl e \<or> (\<exists>x. m = Inr x \<and> f x = Inl e)"
  by (cases m) auto

lemma bindR_InrE:
  "bindR m f = Inr y \<Longrightarrow> (\<And>x. m = Inr x \<Longrightarrow> f x = Inr y \<Longrightarrow> P) \<Longrightarrow> P"
  by (cases m) auto

lemma bindR_cong [fundef_cong]:
  "m = m' \<Longrightarrow> (\<And>x. m' = Inr x \<Longrightarrow> f x = g x) \<Longrightarrow> bindR m f = bindR m' g"
  by (cases m') auto

definition is_ok :: "'a result \<Rightarrow> bool" where
  "is_ok m = (case m of Inl _ \<Rightarrow> False | Inr _ \<Rightarrow> True)"

lemma is_ok_Inr [simp]: "is_ok (Inr x)"
  by (simp add: is_ok_def)

lemma is_ok_Inl [simp]: "\<not> is_ok (Inl e)"
  by (simp add: is_ok_def)

lemma is_ok_iff: "is_ok m \<longleftrightarrow> (\<exists>x. m = Inr x)"
  by (cases m) auto

subsection \<open>Characters\<close>

abbreviation NUL :: char where "NUL \<equiv> CHR 0x00"
abbreviation TAB :: char where "TAB \<equiv> CHR 0x09"
abbreviation LF :: char where "LF \<equiv> CHR 0x0A"
abbreviation CR :: char where "CR \<equiv> CHR 0x0D"
abbreviation SP :: char where "SP \<equiv> CHR 0x20"

abbreviation CRLF :: string where "CRLF \<equiv> [CR, LF]"

subsection \<open>Lists\<close>

lemma takeWhile_nth_stop:
  "length (takeWhile P xs) < length xs \<Longrightarrow> \<not> P (xs ! length (takeWhile P xs))"
  by (rule nth_length_takeWhile)

lemma drop_takeWhile_length: "drop (length (takeWhile P xs)) xs = dropWhile P xs"
  by (metis append_eq_conv_conj takeWhile_dropWhile_id)

lemma length_takeWhile_less_iff: "length (takeWhile P xs) < length xs \<longleftrightarrow> (\<exists>x \<in> set xs. \<not> P x)"
  by (induction xs) auto

lemma takeWhile_in_prefix:
  assumes "k < length (takeWhile P xs)"
  shows "P (xs ! k)"
  using assms by (metis nth_mem set_takeWhileD takeWhile_nth)

lemma takeWhile_update_stop:
  assumes "k \<le> length (takeWhile P xs)" and "k < length xs" and "\<not> P c"
  shows "takeWhile P (xs[k := c]) = take k xs"
  using assms
proof (induction xs arbitrary: k)
  case Nil
  then show ?case by simp
next
  case (Cons x xs)
  then show ?case by (cases k) (auto split: if_splits)
qed

lemma set_drop_nth: "i \<le> j \<Longrightarrow> j < length xs \<Longrightarrow> xs ! j \<in> set (drop i xs)"
  by (auto simp: set_conv_nth intro!: exI[of _ "j - i"])

lemma in_set_update_same: "x \<in> set xs \<Longrightarrow> x \<in> set (xs[j := x])"
proof -
  assume "x \<in> set xs"
  then obtain m where m: "m < length xs" "xs ! m = x" by (auto simp: in_set_conv_nth)
  then have "xs[j := x] ! m = x" by (cases "j = m") simp_all
  then show ?thesis using m(1) by (metis length_list_update nth_mem)
qed

text \<open>Summing over the threads of a system when one of them moves.\<close>

lemma sum_list_map_update:
  fixes f :: "'a \<Rightarrow> 'b::comm_monoid_add"
  assumes "i < length xs"
  shows "sum_list (map f (xs[i := y])) + f (xs ! i) = sum_list (map f xs) + f y"
  using assms
proof (induction xs arbitrary: i)
  case Nil
  then show ?case by simp
next
  case (Cons x xs)
  show ?case
  proof (cases i)
    case 0
    then show ?thesis by (simp add: ac_simps)
  next
    case (Suc j)
    then have "sum_list (map f (xs[j := y])) + f (xs ! j) = sum_list (map f xs) + f y"
      using Cons.IH[of j] Cons.prems by simp
    then show ?thesis using Suc by (simp add: add.assoc)
  qed
qed

lemma sum_list_map_zero: "(\<And>x. x \<in> set xs \<Longrightarrow> f x = 0) \<Longrightarrow> sum_list (map f xs) = (0::'b::comm_monoid_add)"
  by (induction xs) auto

end
