(* ===== verification/C_Strings.thy ===== *)
theory C_Strings
  imports Prelude
begin

text \<open>
  The part of the C standard library the servers use on character arrays: bounded loads and
  stores, C strings inside an array, and the functions of string.h, stdlib.h and stdio.h the
  sources call. An array is a \<^typ>\<open>char list\<close> of fixed length and a pointer into it is an index.
  A string function applied to memory that holds no terminating NUL is a fault, as the C
  standard leaves it undefined.
\<close>

subsection \<open>Arrays\<close>

definition store :: "char list \<Rightarrow> int \<Rightarrow> char \<Rightarrow> char list result" where
  "store b i c = (if 0 \<le> i \<and> i < int (length b) then Inr (b[nat i := c]) else Inl (Bad_Store i))"

text \<open>Copying a run of bytes into an array (\<open>recv\<close>, \<open>memcpy\<close>, \<open>vsnprintf\<close>).\<close>

definition blit :: "char list \<Rightarrow> nat \<Rightarrow> string \<Rightarrow> char list result" where
  "blit b i s =
     (if i + length s \<le> length b then Inr (take i b @ s @ drop (i + length s) b)
      else Inl (Bad_Store (int (length b))))"

lemma length_store: "store b i c = Inr b' \<Longrightarrow> length b' = length b"
  by (auto simp: store_def split: if_splits)

lemma store_nat [simp]: "i < length b \<Longrightarrow> store b (int i) c = Inr (b[i := c])"
  by (simp add: store_def)

lemma length_blit: "blit b i s = Inr b' \<Longrightarrow> length b' = length b"
  by (auto simp: blit_def split: if_splits)

lemma blit_ok: "i + length s \<le> length b \<Longrightarrow> blit b i s = Inr (take i b @ s @ drop (i + length s) b)"
  by (simp add: blit_def)

lemma take_blit: "blit b i s = Inr b' \<Longrightarrow> j \<le> i \<Longrightarrow> take j b' = take j b"
  by (auto simp: blit_def min_def split: if_splits)

lemma take_blit_end: "blit b i s = Inr b' \<Longrightarrow> take (i + length s) b' = take i b @ s"
  by (auto simp: blit_def split: if_splits)

subsection \<open>C strings\<close>

definition cstr :: "char list \<Rightarrow> nat \<Rightarrow> string result" where
  "cstr b i = (if NUL \<in> set (drop i b) then Inr (takeWhile (\<lambda>c. c \<noteq> NUL) (drop i b))
               else Inl (Bad_String i))"

text \<open>
  A C string at \<open>i\<close> is a NUL-free run followed by a NUL; the lemmas below follow it through
  the two things the parsers do to it: moving the pointer inside it and cutting it by storing
  a NUL.
\<close>

lemma cstr_iff: "cstr b i = Inr s \<longleftrightarrow> NUL \<notin> set s \<and> (\<exists>r. drop i b = s @ NUL # r)"
proof
  assume "cstr b i = Inr s"
  then have n: "NUL \<in> set (drop i b)" and s: "s = takeWhile (\<lambda>c. c \<noteq> NUL) (drop i b)"
    by (auto simp: cstr_def split: if_splits)
  obtain ys r where d: "drop i b = ys @ NUL # r" and "NUL \<notin> set ys"
    using split_list_first[OF n] by blast
  moreover from this have "s = ys"
    using s by (auto simp: takeWhile_append)
  ultimately show "NUL \<notin> set s \<and> (\<exists>r. drop i b = s @ NUL # r)" by blast
next
  assume "NUL \<notin> set s \<and> (\<exists>r. drop i b = s @ NUL # r)"
  then obtain r where "drop i b = s @ NUL # r" "NUL \<notin> set s" by blast
  then show "cstr b i = Inr s"
    by (auto simp: cstr_def takeWhile_append)
qed

lemma cstr_of_drop:
  "drop i b = t @ NUL # r \<Longrightarrow> cstr b i = Inr (takeWhile (\<lambda>c. c \<noteq> NUL) t)"
proof -
  assume "drop i b = t @ NUL # r"
  moreover have "takeWhile (\<lambda>c. c \<noteq> NUL) (t @ NUL # r) = takeWhile (\<lambda>c. c \<noteq> NUL) t"
    by (induction t) auto
  ultimately show ?thesis by (simp add: cstr_def)
qed

lemma cstr_bound: "cstr b i = Inr s \<Longrightarrow> i + length s < length b"
proof -
  assume "cstr b i = Inr s"
  then obtain r where "drop i b = s @ NUL # r" by (auto simp: cstr_iff)
  then have "length (drop i b) = length s + Suc (length r)" by simp
  then show ?thesis by simp
qed

lemma cstr_no_nul: "cstr b i = Inr s \<Longrightarrow> NUL \<notin> set s"
  by (simp add: cstr_iff)

lemma cstr_nth: "cstr b i = Inr s \<Longrightarrow> k < length s \<Longrightarrow> b ! (i + k) = s ! k"
proof -
  assume c: "cstr b i = Inr s" and k: "k < length s"
  then obtain r where r: "drop i b = s @ NUL # r" by (auto simp: cstr_iff)
  have "b ! (i + k) = drop i b ! k" using cstr_bound[OF c] by simp
  then show ?thesis using r k by (simp add: nth_append)
qed

lemma cstr_end: "cstr b i = Inr s \<Longrightarrow> b ! (i + length s) = NUL"
proof -
  assume c: "cstr b i = Inr s"
  then obtain r where r: "drop i b = s @ NUL # r" by (auto simp: cstr_iff)
  have "b ! (i + length s) = drop i b ! length s" using cstr_bound[OF c] by simp
  then show ?thesis using r by simp
qed

lemma cstr_hd: "cstr b i = Inr s \<Longrightarrow> x \<noteq> NUL \<Longrightarrow> b ! i = x \<longleftrightarrow> s \<noteq> [] \<and> hd s = x"
  using cstr_nth[of b i s 0] cstr_end[of b i s] by (cases s) auto

lemma cstr_drop:
  assumes "cstr b i = Inr s" and "k \<le> length s"
  shows "cstr b (i + k) = Inr (drop k s)"
proof -
  obtain r where "drop i b = s @ NUL # r" "NUL \<notin> set s" using assms(1) by (auto simp: cstr_iff)
  then have "drop (i + k) b = drop k s @ NUL # r"
    using assms(2) by (simp add: add.commute[of i k] flip: drop_drop)
  moreover have "NUL \<notin> set (drop k s)"
    using \<open>NUL \<notin> set s\<close> by (metis in_set_dropD)
  ultimately show ?thesis by (auto simp: cstr_iff)
qed

lemma cstr_cut:
  assumes "cstr b i = Inr s" and "k \<le> length s"
  shows "cstr (b[i + k := NUL]) i = Inr (take k s)"
proof -
  obtain r where r: "drop i b = s @ NUL # r" "NUL \<notin> set s" using assms(1) by (auto simp: cstr_iff)
  have "drop i (b[i + k := NUL]) = (s @ NUL # r)[k := NUL]"
    using r(1) by (simp add: drop_update_swap)
  also have "\<dots> = take k s @ NUL # drop (Suc k) (s @ NUL # r)"
    using assms(2) by (simp add: upd_conv_take_nth_drop)
  finally show ?thesis
    using r(2) by (auto simp: cstr_iff dest: in_set_takeD)
qed

lemma cstr_after_cut:
  assumes "cstr b i = Inr s" and "k < length s"
  shows "cstr (b[i + k := NUL]) (Suc (i + k)) = Inr (drop (Suc k) s)"
  using cstr_drop[OF assms(1), of "Suc k"] assms(2) by (auto simp: cstr_def split: if_splits)

lemma cstr_store_nul_ok:
  assumes "is_ok (cstr b i)"
  shows "is_ok (cstr (b[j := NUL]) i)"
proof -
  have n: "NUL \<in> set (drop i b)" using assms by (simp add: cstr_def split: if_splits)
  have "NUL \<in> set (drop i (b[j := NUL]))"
  proof (cases "j < i")
    case True
    then show ?thesis using n by simp
  next
    case False
    then show ?thesis using n by (simp add: drop_update_swap in_set_update_same)
  qed
  then show ?thesis by (simp add: cstr_def)
qed

lemma cstr_same_prefix:
  assumes "cstr b i = Inr s" and "take n b' = take n b" and "i + length s < n" and "length b' = length b"
  shows "cstr b' i = Inr s"
proof -
  obtain r where r: "drop i b = s @ NUL # r" and n: "NUL \<notin> set s"
    using assms(1) by (auto simp: cstr_iff)
  have "take (n - i) (drop i b') = take (n - i) (drop i b)"
    using assms(2) by (metis drop_take)
  also have "\<dots> = s @ NUL # take (n - i - Suc (length s)) r"
    using assms(3) by (simp add: r Suc_diff_Suc take_Cons')
  finally have "drop i b' = (s @ NUL # take (n - i - Suc (length s)) r) @ drop (n - i) (drop i b')"
    by (metis append_take_drop_id)
  then show ?thesis using n by (auto simp: cstr_iff)
qed

definition strpbrk :: "char list \<Rightarrow> nat \<Rightarrow> string \<Rightarrow> nat option result" where
  "strpbrk b i accept = bindR (cstr b i) (\<lambda>s.
     let k = length (takeWhile (\<lambda>c. c \<notin> set accept) s)
     in Inr (if k < length s then Some (i + k) else None))"

definition strspn :: "char list \<Rightarrow> nat \<Rightarrow> string \<Rightarrow> nat result" where
  "strspn b i accept = bindR (cstr b i) (\<lambda>s. Inr (length (takeWhile (\<lambda>c. c \<in> set accept) s)))"

definition strchr :: "char list \<Rightarrow> nat \<Rightarrow> char \<Rightarrow> nat option result" where
  "strchr b i c = strpbrk b i [c]"

definition to_lower :: "char \<Rightarrow> char" where
  "to_lower c = (let n = of_char c :: nat in if 65 \<le> n \<and> n \<le> 90 then char_of (n + 32) else c)"

definition same_case :: "string \<Rightarrow> string \<Rightarrow> bool" where
  "same_case s t \<longleftrightarrow> map to_lower s = map to_lower t"

text \<open>
  \<open>strcasecmp p lit == 0\<close>, and \<open>strncasecmp p lit n == 0\<close> and \<open>strncmp p lit n == 0\<close> with
  \<open>n\<close> the length of the literal, which is how the sources call them.
\<close>

definition strcaseeq :: "char list \<Rightarrow> nat \<Rightarrow> string \<Rightarrow> bool result" where
  "strcaseeq b i lit = bindR (cstr b i) (\<lambda>s. Inr (same_case s lit))"

definition strncaseeq :: "char list \<Rightarrow> nat \<Rightarrow> string \<Rightarrow> bool result" where
  "strncaseeq b i lit = bindR (cstr b i) (\<lambda>s. Inr (same_case (take (length lit) s) lit))"

subsection \<open>Decimal numbers\<close>

abbreviation is_digit :: "char \<Rightarrow> bool" where
  "is_digit c \<equiv> 48 \<le> (of_char c :: nat) \<and> (of_char c :: nat) \<le> 57"

definition is_space :: "char \<Rightarrow> bool" where
  "is_space c \<longleftrightarrow> c = SP \<or> (9 \<le> (of_char c :: nat) \<and> (of_char c :: nat) \<le> 13)"

definition digit_val :: "char \<Rightarrow> int" where
  "digit_val c = int (of_char c) - 48"

fun digits_val :: "int \<Rightarrow> string \<Rightarrow> int" where
  "digits_val acc [] = acc"
| "digits_val acc (c # cs) = (if is_digit c then digits_val (10 * acc + digit_val c) cs else acc)"

definition LONG_MAX :: int where "LONG_MAX = 2 ^ 63 - 1"
definition INT_MAX :: int where "INT_MAX = 2 ^ 31 - 1"

text \<open>\<open>atol\<close>: white space, an optional sign, digits; saturating as \<open>strtol\<close> does.\<close>

definition atol_str :: "string \<Rightarrow> int" where
  "atol_str s =
     (let t = dropWhile is_space s
      in case t of
           [] \<Rightarrow> 0
         | c # cs \<Rightarrow>
             if c = CHR ''-'' then max (- LONG_MAX - 1) (- digits_val 0 cs)
             else if c = CHR ''+'' then min LONG_MAX (digits_val 0 cs)
             else min LONG_MAX (digits_val 0 t))"

definition atol :: "char list \<Rightarrow> nat \<Rightarrow> int result" where
  "atol b i = bindR (cstr b i) (\<lambda>s. Inr (atol_str s))"

text \<open>Conversion of a \<open>long\<close> to \<open>int\<close>: the low 32 bits, read as two's complement.\<close>

definition to_int32 :: "int \<Rightarrow> int" where
  "to_int32 x = signed_take_bit 31 x"

text \<open>\<open>printf\<close>'s \<open>%d\<close>.\<close>

fun dec_nat :: "nat \<Rightarrow> string" where
  "dec_nat n = (if n < 10 then [char_of (48 + n)] else dec_nat (n div 10) @ [char_of (48 + n mod 10)])"

declare dec_nat.simps [simp del]

definition dec_int :: "int \<Rightarrow> string" where
  "dec_int x = (if x < 0 then CHR ''-'' # dec_nat (nat (- x)) else dec_nat (nat x))"

lemma of_char_digit: "d < 10 \<Longrightarrow> of_char (char_of (48 + d) :: char) = (48 + d :: nat)"
  by simp

lemma digits_val_append:
  "\<forall>c \<in> set xs. is_digit c \<Longrightarrow> digits_val acc (xs @ ys) = digits_val (digits_val acc xs) ys"
  by (induction xs arbitrary: acc) auto

lemma dec_nat_digits: "c \<in> set (dec_nat n) \<Longrightarrow> is_digit c"
proof (induction n rule: dec_nat.induct)
  case (1 n)
  show ?case
  proof (cases "n < 10")
    case True
    then show ?thesis using 1 by (auto simp: dec_nat.simps[of n] simp del: of_char_of)
        (auto simp: of_char_digit)
  next
    case False
    then have "c \<in> set (dec_nat (n div 10)) \<or> c = char_of (48 + n mod 10)"
      using "1.prems" by (auto simp: dec_nat.simps[of n])
    then show ?thesis using "1.IH"[OF False] of_char_digit[of "n mod 10"] by auto
  qed
qed

lemma dec_nat_not_Nil [simp]: "dec_nat n \<noteq> []"
  by (subst dec_nat.simps) simp

lemma digits_val_dec_nat: "digits_val 0 (dec_nat n) = int n"
proof (induction n rule: dec_nat.induct)
  case (1 n)
  show ?case
  proof (cases "n < 10")
    case True
    then show ?thesis
      by (subst dec_nat.simps) (simp add: digit_val_def of_char_digit del: of_char_of)
  next
    case False
    have "digits_val 0 (dec_nat n) = digits_val (int (n div 10)) [char_of (48 + n mod 10)]"
      using False "1.IH"[OF False]
      by (subst dec_nat.simps) (simp add: digits_val_append dec_nat_digits del: of_char_of)
    also have "\<dots> = 10 * int (n div 10) + int (n mod 10)"
      using of_char_digit[of "n mod 10"] by (simp add: digit_val_def del: of_char_of)
    also have "\<dots> = int n" by presburger
    finally show ?thesis .
  qed
qed

text \<open>Printing with \<open>%d\<close> and reading back with \<open>atol\<close> gives the number back.\<close>

lemma atol_dec_int:
  assumes "\<bar>x\<bar> \<le> LONG_MAX"
  shows "atol_str (dec_int x) = x"
proof (cases "x < 0")
  case True
  then show ?thesis
    using assms
    by (simp add: atol_str_def dec_int_def is_space_def digits_val_dec_nat)
next
  case False
  obtain c cs where d: "dec_nat (nat x) = c # cs" by (cases "dec_nat (nat x)") auto
  then have dc: "is_digit c" using dec_nat_digits[of c "nat x"] by simp
  then have "\<not> is_space c" "c \<noteq> CHR ''-''" "c \<noteq> CHR ''+''" by (auto simp: is_space_def)
  then have "atol_str (dec_int x) = min LONG_MAX (digits_val 0 (dec_nat (nat x)))"
    using False d by (simp add: atol_str_def dec_int_def)
  then show ?thesis using assms False by (simp add: digits_val_dec_nat)
qed

lemma to_int32_id: "- (2 ^ 31) \<le> x \<Longrightarrow> x < 2 ^ 31 \<Longrightarrow> to_int32 x = x"
  by (simp add: to_int32_def signed_take_bit_int_eq_self)

lemma to_int32_range: "- (2 ^ 31) \<le> to_int32 x \<and> to_int32 x < 2 ^ 31"
  using signed_take_bit_int_greater_eq_minus_exp[of 31 x] signed_take_bit_int_less_exp[of 31 x]
  by (simp add: to_int32_def)

subsection \<open>Bounded writes\<close>

text \<open>
  \<open>vsnprintf(b + i, n, ...)\<close> of the formatted text \<open>s\<close> writes at most \<open>n - 1\<close> characters
  and a NUL (nothing when \<open>n = 0\<close>) and returns the length of the whole text.
\<close>

definition vsnprintf :: "char list \<Rightarrow> nat \<Rightarrow> nat \<Rightarrow> string \<Rightarrow> (char list \<times> nat) result" where
  "vsnprintf b i n s =
     bindR (if n = 0 then Inr b else blit b i (take (n - 1) s @ [NUL])) (\<lambda>b'. Inr (b', length s))"

text \<open>\<open>strncpy\<close> copies at most \<open>n\<close> characters and pads with NULs up to \<open>n\<close>.\<close>

definition strncpy :: "char list \<Rightarrow> nat \<Rightarrow> string \<Rightarrow> nat \<Rightarrow> char list result" where
  "strncpy b i s n = blit b i (take n s @ replicate (n - length s) NUL)"

text \<open>\<open>strcpy\<close> copies the whole string and its NUL.\<close>

definition strcpy :: "char list \<Rightarrow> nat \<Rightarrow> string \<Rightarrow> char list result" where
  "strcpy b i s = blit b i (s @ [NUL])"

end
