(* ===== verification/Posix.thy ===== *)
theory Posix
  imports C_Strings
begin

text \<open>
  The operating system as the servers see it. Input that arrives on a descriptor is a script of
  events, consumed by \<open>recv\<close>; what the kernel accepts on output is a script of results, consumed
  by \<open>send\<close> and \<open>writev\<close>. The calls a program makes are recorded in order as \<open>sys_call\<close>s, so that
  a theorem can speak about what was sent, closed and re-armed.
\<close>

unbundle bit_operations_syntax

definition SIGINT :: nat where "SIGINT = 2"
definition SIGALRM :: nat where "SIGALRM = 14"
definition SIGTERM :: nat where "SIGTERM = 15"
definition SIGCHLD :: nat where "SIGCHLD = 17"

lemmas signal_defs = SIGINT_def SIGALRM_def SIGTERM_def SIGCHLD_def

datatype errno = EAGAIN | EINTR | ECONNRESET | ENOENT | OTHER_ERRNO

datatype recv_event = Data string | Eof | Err errno

datatype recv_ret = Bytes string | Closed | Failed errno

text \<open>
  \<open>recv(fd, p, n, 0)\<close> on a non-blocking descriptor: at most \<open>n\<close> of the bytes that are next; a
  chunk longer than that stays queued; nothing queued is \<open>EAGAIN\<close>. Asked for 0 bytes while data
  is queued it returns 0, which the callers cannot tell from an orderly shutdown.
\<close>

fun recv :: "nat \<Rightarrow> recv_event list \<Rightarrow> recv_ret \<times> recv_event list" where
  "recv n [] = (Failed EAGAIN, [])"
| "recv n (Eof # es) = (Closed, Eof # es)"
| "recv n (Err e # es) = (Failed e, es)"
| "recv n (Data d # es) =
     (if d = [] then recv n es
      else if n = 0 then (Closed, Data d # es)
      else if length d \<le> n then (Bytes d, es)
      else (Bytes (take n d), Data (drop n d) # es))"

text \<open>The bytes a script still holds, up to the first event that is not data.\<close>

fun pending :: "recv_event list \<Rightarrow> string" where
  "pending (Data d # es) = d @ pending es"
| "pending _ = []"

lemma recv_Bytes:
  "recv n es = (Bytes d, es') \<Longrightarrow> d \<noteq> [] \<and> length d \<le> n \<and> pending es = d @ pending es'"
  by (induction n es rule: recv.induct) (auto split: if_splits)

lemma recv_Failed: "recv n es = (Failed e, es') \<Longrightarrow> pending es = []"
  by (induction n es rule: recv.induct) (auto split: if_splits)

lemma recv_Closed: "recv n es = (Closed, es') \<Longrightarrow> pending es = [] \<or> n = 0"
  by (induction n es rule: recv.induct) (auto split: if_splits)

text \<open>A measure that every delivery decreases: the bytes and events left.\<close>

fun script_size :: "recv_event list \<Rightarrow> nat" where
  "script_size [] = 0"
| "script_size (Data d # es) = Suc (length d) + script_size es"
| "script_size (_ # es) = Suc (script_size es)"

lemma recv_map_Data:
  assumes "0 < n" and "concat ds \<noteq> []"
  shows "\<exists>d es'. recv n (map Data ds) = (Bytes d, es') \<and> length d \<le> n \<and> d \<noteq> []
    \<and> (\<exists>ds'. es' = map Data ds' \<and> concat ds = d @ concat ds')"
  using assms(2)
proof (induction ds)
  case Nil
  then show ?case by simp
next
  case (Cons d ds)
  consider (c1) "d = []" | (c2) "d \<noteq> []" "length d \<le> n" | (c3) "d \<noteq> []" "\<not> length d \<le> n" by blast
  then show ?case
  proof cases
    case c1
    then show ?thesis using Cons by simp
  next
    case c2
    then show ?thesis using assms(1) by auto
  next
    case c3
    then have "map Data (drop n d # ds) = Data (drop n d) # map Data ds" "concat (d # ds) = take n d @ concat (drop n d # ds)"
      by simp_all
    then show ?thesis using c3 assms(1)
      by (intro exI[of _ "take n d"] exI[of _ "Data (drop n d) # map Data ds"] conjI exI[of _ "drop n d # ds"]) auto
  qed
qed

lemma recv_Bytes_size: "recv n es = (Bytes d, es') \<Longrightarrow> script_size es' < script_size es"
  by (induction n es rule: recv.induct) (auto split: if_splits)

lemma recv_Failed_size: "recv n es = (Failed e, es') \<Longrightarrow> e \<noteq> EAGAIN \<Longrightarrow> script_size es' < script_size es"
  by (induction n es rule: recv.induct) (auto split: if_splits)

lemma recv_EAGAIN: "recv n es = (Failed EAGAIN, es') \<Longrightarrow> es' = [] \<or> Err EAGAIN \<in> set es"
  by (induction n es rule: recv.induct) (auto split: if_splits)

datatype send_event = Sent nat | Send_Err errno

datatype sys_call =
    Epoll_Add int "32 word"
  | Epoll_Mod int "32 word"
  | Epoll_Del int
  | Close int
  | Send int string
  | Munmap
  | Set_Nonblock int
  | Restore_Flags int
  | Setsockopt_Reuse int
  | Kill int nat
  | Exec string

definition EPOLLIN :: "32 word" where "EPOLLIN = 0x001"
definition EPOLLOUT :: "32 word" where "EPOLLOUT = 0x004"
definition EPOLLERR :: "32 word" where "EPOLLERR = 0x008"
definition EPOLLHUP :: "32 word" where "EPOLLHUP = 0x010"
definition EPOLLRDHUP :: "32 word" where "EPOLLRDHUP = 0x2000"
definition EPOLLONESHOT :: "32 word" where "EPOLLONESHOT = 0x40000000"
definition EPOLLET :: "32 word" where "EPOLLET = 0x80000000"

lemmas epoll_defs = EPOLLIN_def EPOLLOUT_def EPOLLERR_def EPOLLHUP_def EPOLLRDHUP_def
  EPOLLONESHOT_def EPOLLET_def

text \<open>The kernel's interest list: the events each open descriptor is registered for.\<close>

type_synonym interest = "int \<Rightarrow> 32 word option"

fun kernel_call :: "sys_call \<Rightarrow> interest \<Rightarrow> interest" where
  "kernel_call (Epoll_Add fd ev) k = k(fd \<mapsto> ev)"
| "kernel_call (Epoll_Mod fd ev) k = (if k fd = None then k else k(fd \<mapsto> ev))"
| "kernel_call (Epoll_Del fd) k = k(fd := None)"
| "kernel_call (Close fd) k = k(fd := None)"
| "kernel_call _ k = k"

definition kernel_calls :: "sys_call list \<Rightarrow> interest \<Rightarrow> interest" where
  "kernel_calls cs k = fold kernel_call cs k"

lemma kernel_calls_simps [simp]:
  "kernel_calls [] k = k"
  "kernel_calls (c # cs) k = kernel_calls cs (kernel_call c k)"
  "kernel_calls (cs @ ds) k = kernel_calls ds (kernel_calls cs k)"
  by (simp_all add: kernel_calls_def)

text \<open>\<open>S_IROTH\<close> and \<open>S_ISDIR\<close> of sys/stat.h.\<close>

record file_stat =
  st_mode :: "32 word"
  st_size :: int

definition S_IROTH :: "32 word" where "S_IROTH = 0x004"
definition S_IFMT :: "32 word" where "S_IFMT = 0xF000"
definition S_IFDIR :: "32 word" where "S_IFDIR = 0x4000"

definition S_ISDIR :: "32 word \<Rightarrow> bool" where
  "S_ISDIR m \<longleftrightarrow> m AND S_IFMT = S_IFDIR"

text \<open>
  The file system is a parameter: \<open>stat\<close>, and the contents \<open>open\<close> followed by \<open>mmap\<close> gives
  (\<open>None\<close> when the mapping fails).
\<close>

record fs_env =
  fs_stat :: "string \<Rightarrow> file_stat option"
  fs_map :: "string \<Rightarrow> string option"

end
