(* ===== verification/Http_Parse.thy ===== *)
theory Http_Parse
  imports Posix
begin

text \<open>
  The request side of class \<open>http_conn\<close> (85\_process\_pool\_thread\_pool/http\_conn.h): the
  connection object, the line splitter \<open>parse_line\<close>, the request line, header and content
  parsers, and the state machine \<open>process_read\<close> that drives them. The read buffer is an array
  of \<open>READ_BUF_SIZE\<close> characters that the parsers cut into C strings in place; \<open>_url\<close>,
  \<open>_version\<close> and \<open>_host\<close> are pointers into it, that is, indices.
\<close>

subsection \<open>The connection object\<close>

definition FILE_NAME_LEN :: nat where "FILE_NAME_LEN = 200"
definition READ_BUF_SIZE :: nat where "READ_BUF_SIZE = 2048"
definition WRITE_BUF_SIZE :: nat where "WRITE_BUF_SIZE = 1024"

lemmas size_defs = FILE_NAME_LEN_def READ_BUF_SIZE_def WRITE_BUF_SIZE_def

datatype METHOD = GET | POST | HEAD | PUT | DELETE | TRACE | OPTIONS | CONNECT | PATCH

datatype CHECK_STATE = CHECK_STATE_REQUEST_LINE | CHECK_STATE_HEADER | CHECK_STATE_CONTENT

datatype HTTP_CODE =
    NO_REQUEST | GET_REQUEST | BAD_REQUEST | NO_RESOURCE | FORBIDDEN_REQUEST | FILE_REQUEST
  | INTERNAL_ERROR | CLOSED_CONNECTION

datatype LINE_STATUS = LINE_OK | LINE_BAD | LINE_OPEN

text \<open>
  \<open>_file_addr\<close> is null, a mapping of a file's bytes, or \<open>MAP_FAILED\<close>, which is not null.
  An \<open>iovec\<close> points at the start of the write buffer or at the mapping.
\<close>

datatype file_ptr = Null_File | Mapped string | Map_Failed

datatype iov_base = Write_Buf | File_Addr

record http_conn =
  conn_fd :: int
  read_buf :: "char list"
  read_idx :: nat
  chk_idx :: nat
  start_line :: nat
  write_buf :: "char list"
  write_idx :: nat
  chk_state :: CHECK_STATE
  conn_method :: METHOD
  real_file :: "char list"
  url :: "nat option"
  version :: "nat option"
  host :: "nat option"
  content_length :: int
  linger :: bool
  file_addr :: file_ptr
  file_stat :: file_stat
  iov :: "(iov_base \<times> int) list"
  iov_cnt :: nat

definition doc_root :: string where "doc_root = ''/data/wwwroot/html''"

text \<open>The private \<open>init()\<close>: everything but the descriptor, the address and the file members.\<close>

definition init_conn :: "http_conn \<Rightarrow> http_conn" where
  "init_conn c = c\<lparr>
     chk_state := CHECK_STATE_REQUEST_LINE,
     linger := False,
     conn_method := GET,
     url := None,
     version := None,
     content_length := 0,
     host := None,
     start_line := 0,
     chk_idx := 0,
     read_idx := 0,
     write_idx := 0,
     read_buf := replicate READ_BUF_SIZE NUL,
     write_buf := replicate WRITE_BUF_SIZE NUL,
     real_file := replicate FILE_NAME_LEN NUL\<rparr>"

subsection \<open>Splitting the input into lines\<close>

text \<open>
  \<open>parse_line\<close>: advance \<open>_chk_idx\<close> to the end of the line, cut the line with NULs and say
  whether it is complete. The loop variable is the member \<open>_chk_idx\<close> itself.
\<close>

function parse_line :: "http_conn \<Rightarrow> (http_conn \<times> LINE_STATUS) result" where
  "parse_line c =
     (if chk_idx c < read_idx c then
        (if length (read_buf c) \<le> chk_idx c then Inl (Bad_Load (int (chk_idx c)))
         else if read_buf c ! chk_idx c = CR then
           (if chk_idx c + 1 = read_idx c then Inr (c, LINE_OPEN)
            else if length (read_buf c) \<le> chk_idx c + 1 then Inl (Bad_Load (int (chk_idx c) + 1))
            else if read_buf c ! (chk_idx c + 1) = LF then
              bindR (store (read_buf c) (int (chk_idx c)) NUL) (\<lambda>b.
              bindR (store b (int (chk_idx c + 1)) NUL) (\<lambda>b'.
                Inr (c\<lparr>read_buf := b', chk_idx := chk_idx c + 2\<rparr>, LINE_OK)))
            else Inr (c, LINE_BAD))
         else if read_buf c ! chk_idx c = LF then
           (if 1 < chk_idx c \<and> read_buf c ! (chk_idx c - 1) = CR then
              bindR (store (read_buf c) (int (chk_idx c - 1)) NUL) (\<lambda>b.
              bindR (store b (int (chk_idx c)) NUL) (\<lambda>b'.
                Inr (c\<lparr>read_buf := b', chk_idx := chk_idx c + 1\<rparr>, LINE_OK)))
            else Inr (c, LINE_BAD))
         else parse_line (c\<lparr>chk_idx := chk_idx c + 1\<rparr>))
      else Inr (c, LINE_OPEN))"
  by pat_completeness auto
termination
  by (relation "measure (\<lambda>c. read_idx c - chk_idx c)") auto

declare parse_line.simps [simp del]

definition get_line :: "http_conn \<Rightarrow> nat" where
  "get_line c = start_line c"

subsection \<open>The request line\<close>

text \<open>\<open>strpbrk\<close>, \<open>strspn\<close> and \<open>strchr\<close> run on the current contents of the buffer.\<close>

definition blanks :: string where "blanks = [SP, TAB]"

text \<open>
  The tail of the function, from \<open>strcasecmp(_version, ...)\<close> on: \<open>u\<close> is \<open>_url\<close> after the blanks
  before it were skipped.
\<close>

definition check_version_url :: "http_conn \<Rightarrow> nat \<Rightarrow> nat \<Rightarrow> (http_conn \<times> HTTP_CODE) result" where
  "check_version_url c u v =
     bindR (strcaseeq (read_buf c) v ''HTTP/1.1'') (\<lambda>ok.
     if \<not> ok then Inr (c, BAD_REQUEST) else
     bindR (strncaseeq (read_buf c) u ''http://'') (\<lambda>abs.
     bindR (if abs then strchr (read_buf c) (u + 7) CHR ''/'' else Inr (Some u)) (\<lambda>p.
     let c' = c\<lparr>url := p\<rparr> in
     case p of
       None \<Rightarrow> Inr (c', BAD_REQUEST)
     | Some q \<Rightarrow>
         if length (read_buf c) \<le> q then Inl (Bad_Load (int q))
         else if read_buf c ! q \<noteq> CHR ''/'' then Inr (c', BAD_REQUEST)
         else Inr (c'\<lparr>chk_state := CHECK_STATE_HEADER\<rparr>, NO_REQUEST))))"

definition parse_request_line :: "http_conn \<Rightarrow> nat \<Rightarrow> (http_conn \<times> HTTP_CODE) result" where
  "parse_request_line c txt =
     bindR (strpbrk (read_buf c) txt blanks) (\<lambda>p.
     case p of
       None \<Rightarrow> Inr (c\<lparr>url := None\<rparr>, BAD_REQUEST)
     | Some sp \<Rightarrow>
       bindR (store (read_buf c) (int sp) NUL) (\<lambda>b.
       let c1 = c\<lparr>read_buf := b, url := Some (sp + 1)\<rparr> in
       bindR (strcaseeq b txt ''GET'') (\<lambda>get.
       if \<not> get then Inr (c1, BAD_REQUEST) else
       bindR (strspn b (sp + 1) blanks) (\<lambda>n.
       let u = sp + 1 + n; c2 = c1\<lparr>conn_method := GET, url := Some u\<rparr> in
       bindR (strpbrk b u blanks) (\<lambda>q.
       case q of
         None \<Rightarrow> Inr (c2\<lparr>version := None\<rparr>, BAD_REQUEST)
       | Some sp2 \<Rightarrow>
         bindR (store b (int sp2) NUL) (\<lambda>b2.
         bindR (strspn b2 (sp2 + 1) blanks) (\<lambda>m.
         let v = sp2 + 1 + m in
         check_version_url (c2\<lparr>read_buf := b2, version := Some v\<rparr>) u v)))))))"

subsection \<open>Headers and content\<close>

text \<open>Does the header line at \<open>txt\<close> start with this name; where does its value start.\<close>

definition parse_headers :: "http_conn \<Rightarrow> nat \<Rightarrow> (http_conn \<times> HTTP_CODE) result" where
  "parse_headers c txt =
     (if length (read_buf c) \<le> txt then Inl (Bad_Load (int txt))
      else if read_buf c ! txt = NUL then
        (if content_length c \<noteq> 0 then Inr (c\<lparr>chk_state := CHECK_STATE_CONTENT\<rparr>, NO_REQUEST)
         else Inr (c, GET_REQUEST))
      else
        bindR (strncaseeq (read_buf c) txt ''Connection:'') (\<lambda>is_conn.
        if is_conn then
          bindR (strspn (read_buf c) (txt + 11) blanks) (\<lambda>n.
          bindR (strcaseeq (read_buf c) (txt + 11 + n) ''keep-alive'') (\<lambda>ka.
            Inr (if ka then c\<lparr>linger := True\<rparr> else c, NO_REQUEST)))
        else
        bindR (strncaseeq (read_buf c) txt ''Content-Length:'') (\<lambda>is_len.
        if is_len then
          bindR (strspn (read_buf c) (txt + 15) blanks) (\<lambda>n.
          bindR (atol (read_buf c) (txt + 15 + n)) (\<lambda>x.
            Inr (c\<lparr>content_length := to_int32 x\<rparr>, NO_REQUEST)))
        else
        bindR (strncaseeq (read_buf c) txt ''Host:'') (\<lambda>is_host.
        if is_host then
          bindR (strspn (read_buf c) (txt + 5) blanks) (\<lambda>n.
            Inr (c\<lparr>host := Some (txt + 5 + n)\<rparr>, NO_REQUEST))
        else Inr (c, NO_REQUEST)))))"

text \<open>
  \<open>_content_length + _chk_idx\<close> is an \<open>int\<close> addition; the store goes to
  \<open>txt[_content_length]\<close>, wherever that is.
\<close>

definition parse_content :: "http_conn \<Rightarrow> nat \<Rightarrow> (http_conn \<times> HTTP_CODE) result" where
  "parse_content c txt =
     (if INT_MAX < content_length c + int (chk_idx c) then Inl (Int_Overflow (content_length c))
      else if content_length c + int (chk_idx c) \<le> int (read_idx c) then
        bindR (store (read_buf c) (int txt + content_length c) NUL) (\<lambda>b.
          Inr (c\<lparr>read_buf := b\<rparr>, GET_REQUEST))
      else Inr (c, NO_REQUEST))"

subsection \<open>Resolving the file\<close>

definition mmap_file :: "fs_env \<Rightarrow> string \<Rightarrow> int \<Rightarrow> file_ptr" where
  "mmap_file env path n =
     (if n \<le> 0 then Map_Failed
      else case fs_map env path of None \<Rightarrow> Map_Failed | Some d \<Rightarrow> Mapped d)"

definition do_request :: "fs_env \<Rightarrow> http_conn \<Rightarrow> (http_conn \<times> HTTP_CODE) result" where
  "do_request env c =
     bindR (strcpy (real_file c) 0 doc_root) (\<lambda>r.
     let len = length doc_root in
     case url c of
       None \<Rightarrow> Inl Null_Deref
     | Some u \<Rightarrow>
       bindR (cstr (read_buf c) u) (\<lambda>s.
       bindR (strncpy r len s (FILE_NAME_LEN - len - 1)) (\<lambda>r'.
       let c1 = c\<lparr>real_file := r'\<rparr> in
       bindR (cstr r' 0) (\<lambda>path.
       case fs_stat env path of
         None \<Rightarrow> Inr (c1, NO_RESOURCE)
       | Some st \<Rightarrow>
         let c2 = c1\<lparr>file_stat := st\<rparr> in
         if st_mode st AND S_IROTH = 0 then Inr (c2, FORBIDDEN_REQUEST)
         else if S_ISDIR (st_mode st) then Inr (c2, BAD_REQUEST)
         else Inr (c2\<lparr>file_addr := mmap_file env path (st_size st)\<rparr>, FILE_REQUEST)))))"

subsection \<open>The state machine\<close>

text \<open>
  One iteration of the loop of \<open>process_read\<close> is \<open>next_line\<close>, the loop condition with its call
  of \<open>parse_line\<close>, and \<open>process_line\<close>, the switch over the state. The switch either returns a code
  or sets \<open>line_status\<close> for the next evaluation of the condition.
\<close>

datatype line_step = Done HTTP_CODE | Next LINE_STATUS

definition next_line :: "http_conn \<Rightarrow> LINE_STATUS \<Rightarrow> (http_conn \<times> LINE_STATUS) result" where
  "next_line c st =
     (if chk_state c = CHECK_STATE_CONTENT \<and> st = LINE_OK then Inr (c, LINE_OK) else parse_line c)"

definition finish :: "fs_env \<Rightarrow> http_conn \<Rightarrow> (http_conn \<times> line_step) result" where
  "finish env c = bindR (do_request env c) (\<lambda>(c', ret). Inr (c', Done ret))"

definition process_line :: "fs_env \<Rightarrow> http_conn \<Rightarrow> nat \<Rightarrow> (http_conn \<times> line_step) result" where
  "process_line env c txt =
     (case chk_state c of
        CHECK_STATE_REQUEST_LINE \<Rightarrow>
          bindR (parse_request_line c txt) (\<lambda>(c', ret).
            Inr (c', if ret = BAD_REQUEST then Done BAD_REQUEST else Next LINE_OK))
      | CHECK_STATE_HEADER \<Rightarrow>
          bindR (parse_headers c txt) (\<lambda>(c', ret).
            if ret = BAD_REQUEST then Inr (c', Done BAD_REQUEST)
            else if ret = GET_REQUEST then finish env c'
            else Inr (c', Next LINE_OK))
      | CHECK_STATE_CONTENT \<Rightarrow>
          bindR (parse_content c txt) (\<lambda>(c', ret).
            if ret = GET_REQUEST then finish env c' else Inr (c', Next LINE_OPEN)))"

lemma check_version_url_frame:
  "check_version_url c u v = Inr (c', r) \<Longrightarrow> chk_idx c' = chk_idx c \<and> read_idx c' = read_idx c
     \<and> start_line c' = start_line c \<and> read_buf c' = read_buf c"
  by (auto simp: check_version_url_def Let_def elim!: bindR_InrE
      split: option.split_asm if_split_asm)

lemma parse_request_line_frame:
  "parse_request_line c txt = Inr (c', r) \<Longrightarrow> chk_idx c' = chk_idx c \<and> read_idx c' = read_idx c
     \<and> start_line c' = start_line c"
  by (auto simp: parse_request_line_def Let_def elim!: bindR_InrE
      split: option.split_asm if_split_asm dest!: check_version_url_frame)

lemma parse_headers_frame:
  "parse_headers c txt = Inr (c', r) \<Longrightarrow> chk_idx c' = chk_idx c \<and> read_idx c' = read_idx c
     \<and> start_line c' = start_line c \<and> read_buf c' = read_buf c \<and> url c' = url c"
  by (auto simp: parse_headers_def bindR_eq_Inr split: if_splits)

lemma parse_content_frame:
  "parse_content c txt = Inr (c', r) \<Longrightarrow> chk_idx c' = chk_idx c \<and> read_idx c' = read_idx c
     \<and> start_line c' = start_line c \<and> url c' = url c"
  by (auto simp: parse_content_def bindR_eq_Inr split: if_splits)

lemma parse_line_frame:
  "parse_line c = Inr (c', st) \<Longrightarrow>
     c' = c\<lparr>read_buf := read_buf c', chk_idx := chk_idx c'\<rparr> \<and> chk_idx c \<le> chk_idx c'
     \<and> length (read_buf c') = length (read_buf c)
     \<and> (st = LINE_OK \<longrightarrow> chk_idx c < chk_idx c' \<and> chk_idx c < read_idx c)"
proof (induction c rule: parse_line.induct)
  case (1 c)
  show ?case
  proof (cases "chk_idx c < read_idx c \<and> chk_idx c < length (read_buf c)
      \<and> read_buf c ! chk_idx c \<noteq> CR \<and> read_buf c ! chk_idx c \<noteq> LF")
    case True
    then have "parse_line (c\<lparr>chk_idx := chk_idx c + 1\<rparr>) = Inr (c', st)"
      using "1.prems" by (subst (asm) parse_line.simps) simp
    from "1.IH"[OF _ _ _ _ this] True show ?thesis by auto
  next
    case False
    then show ?thesis
      using "1.prems"
      by (subst (asm) parse_line.simps)
        (auto simp: bindR_eq_Inr store_def split: if_splits)
  qed
qed

lemma process_line_Next:
  assumes "process_line env c txt = Inr (c', Next st)"
  shows "chk_idx c' = chk_idx c \<and> read_idx c' = read_idx c \<and> start_line c' = start_line c
     \<and> (if chk_state c = CHECK_STATE_CONTENT then st = LINE_OPEN else st = LINE_OK)"
  using assms
  by (auto simp: process_line_def finish_def bindR_eq_Inr split: CHECK_STATE.splits if_splits
      dest: parse_request_line_frame parse_headers_frame parse_content_frame)

text \<open>The line is printed with \<open>%s\<close> before the switch, which reads it up to its NUL.\<close>

function process_read_loop :: "fs_env \<Rightarrow> http_conn \<Rightarrow> LINE_STATUS \<Rightarrow> (http_conn \<times> HTTP_CODE) result" where
  "process_read_loop env c st =
     bindR (next_line c st) (\<lambda>(c1, st1).
     if st1 \<noteq> LINE_OK then Inr (c1, NO_REQUEST) else
     bindR (cstr (read_buf c1) (get_line c1)) (\<lambda>printed.
     bindR (process_line env (c1\<lparr>start_line := chk_idx c1\<rparr>) (get_line c1)) (\<lambda>(c2, s).
       case s of Done ret \<Rightarrow> Inr (c2, ret) | Next st2 \<Rightarrow> process_read_loop env c2 st2)))"
  by pat_completeness auto
termination
proof (relation "measures [\<lambda>(env, c, st). read_idx c - chk_idx c,
    \<lambda>(env, c, st). if chk_state c = CHECK_STATE_CONTENT \<and> st = LINE_OK then 1 else 0]", goal_cases)
  case 1
  show ?case by simp
next
  case (2 env c st p c1 st1 printed q c2 s st2)
  then have n: "next_line c st = Inr (c1, LINE_OK)"
    and pl: "process_line env (c1\<lparr>start_line := chk_idx c1\<rparr>) (get_line c1) = Inr (c2, Next st2)"
    by auto
  note f = process_line_Next[OF pl]
  show ?case
  proof (cases "chk_state c = CHECK_STATE_CONTENT \<and> st = LINE_OK")
    case True
    then have "c1 = c" using n by (simp add: next_line_def)
    then show ?thesis using f True by auto
  next
    case False
    then have pa: "parse_line c = Inr (c1, LINE_OK)" using n by (simp add: next_line_def split: if_splits)
    have "read_idx c1 = read_idx c" "chk_idx c < chk_idx c1" "chk_idx c < read_idx c"
      using parse_line_frame[OF pa] by (metis http_conn.ext_inject http_conn.surjective
          http_conn.update_convs(2) http_conn.update_convs(4), auto)
    then show ?thesis using f by auto
  qed
qed

declare process_read_loop.simps [simp del]

definition process_read :: "fs_env \<Rightarrow> http_conn \<Rightarrow> (http_conn \<times> HTTP_CODE) result" where
  "process_read env c = process_read_loop env c LINE_OK"

subsection \<open>A connection on which the theorems are instantiated\<close>

text \<open>A connection just after \<open>init\<close> that has received the text \<open>t\<close>.\<close>

definition sample_conn :: "string \<Rightarrow> http_conn" where
  "sample_conn t = \<lparr>conn_fd = 5, read_buf = t @ replicate (READ_BUF_SIZE - length t) NUL,
     read_idx = length t, chk_idx = 0, start_line = 0,
     write_buf = replicate WRITE_BUF_SIZE NUL, write_idx = 0,
     chk_state = CHECK_STATE_REQUEST_LINE, conn_method = GET,
     real_file = replicate FILE_NAME_LEN NUL, url = None, version = None, host = None,
     content_length = 0, linger = False, file_addr = Null_File,
     file_stat = \<lparr>st_mode = 0, st_size = 0\<rparr>, iov = [(Write_Buf, 0), (File_Addr, 0)], iov_cnt = 0\<rparr>"

text \<open>The same connection with its headers read and a message body announced.\<close>

definition sample_body_conn :: "int \<Rightarrow> http_conn" where
  "sample_body_conn n = (sample_conn ''/.'')\<lparr>read_buf := CHR ''/'' # replicate 2047 NUL,
     url := Some 0, chk_state := CHECK_STATE_CONTENT, content_length := n,
     read_idx := 2, chk_idx := 2, start_line := 2\<rparr>"

text \<open>A file system that holds one file of five bytes, readable by everyone.\<close>

definition sample_env :: fs_env where
  "sample_env = \<lparr>fs_stat = (\<lambda>p. if p = doc_root @ ''/a'' then Some \<lparr>st_mode = 0x81A4, st_size = 5\<rparr> else None),
     fs_map = (\<lambda>p. if p = doc_root @ ''/a'' then Some ''hello'' else None)\<rparr>"

end
