(* ===== verification/Http_Lines.thy ===== *)
theory Http_Lines
  imports Http_Parse
begin

text \<open>
  What the request parsers of \<open>http_conn\<close> compute, said on strings instead of on pointers: the
  line splitter, the request line, the headers and the file that is opened.
\<close>

subsection \<open>The line splitter\<close>

text \<open>
  The invariant of the read side: the indices are ordered and inside the buffer, and the part
  of the current line that was already scanned has no line end in it. \<open>parse_line\<close> may stop
  before a CR but never after one.
\<close>

definition line_inv :: "http_conn \<Rightarrow> bool" where
  "line_inv c \<longleftrightarrow>
     length (read_buf c) = READ_BUF_SIZE \<and> start_line c \<le> chk_idx c \<and> chk_idx c \<le> read_idx c
     \<and> read_idx c \<le> READ_BUF_SIZE
     \<and> (\<forall>i. start_line c \<le> i \<and> i < chk_idx c \<longrightarrow> read_buf c ! i \<noteq> CR \<and> read_buf c ! i \<noteq> LF)
     \<and> (start_line c = 0 \<or> read_buf c ! (start_line c - 1) \<noteq> CR)"

definition plain :: "char \<Rightarrow> bool" where
  "plain ch \<longleftrightarrow> ch \<noteq> CR \<and> ch \<noteq> LF"

text \<open>The bytes that are read but not yet scanned.\<close>

definition window :: "http_conn \<Rightarrow> string" where
  "window c = take (read_idx c - chk_idx c) (drop (chk_idx c) (read_buf c))"

definition cut2 :: "char list \<Rightarrow> nat \<Rightarrow> char list" where
  "cut2 b i = b[i := NUL, i + 1 := NUL]"

text \<open>
  The specification: let \<open>k\<close> be the number of plain characters at the front of the window. A
  CR LF after them is a complete line, nothing or a lone CR at the very end needs more input,
  anything else is a bad line.
\<close>

definition line_spec :: "http_conn \<Rightarrow> http_conn \<times> LINE_STATUS" where
  "line_spec c =
     (let w = window c; k = length (takeWhile plain w); i = chk_idx c + k
      in if k = length w \<or> (w ! k = CR \<and> k + 1 = length w) then (c\<lparr>chk_idx := i\<rparr>, LINE_OPEN)
         else if w ! k = CR \<and> w ! (k + 1) = LF
           then (c\<lparr>read_buf := cut2 (read_buf c) i, chk_idx := i + 2\<rparr>, LINE_OK)
         else (c\<lparr>chk_idx := i\<rparr>, LINE_BAD))"

lemma window_nth: "line_inv c \<Longrightarrow> k < read_idx c - chk_idx c \<Longrightarrow> window c ! k = read_buf c ! (chk_idx c + k)"
  by (auto simp: window_def line_inv_def)

lemma length_window: "line_inv c \<Longrightarrow> length (window c) = read_idx c - chk_idx c"
  by (auto simp: window_def line_inv_def)

lemma window_Cons:
  assumes "line_inv c" and "chk_idx c < read_idx c"
  shows "window c = read_buf c ! chk_idx c # window (c\<lparr>chk_idx := chk_idx c + 1\<rparr>)"
proof -
  have "drop (chk_idx c) (read_buf c) = read_buf c ! chk_idx c # drop (chk_idx c + 1) (read_buf c)"
    using assms by (simp add: line_inv_def Cons_nth_drop_Suc)
  moreover have "read_idx c - chk_idx c = Suc (read_idx c - (chk_idx c + 1))"
    using assms(2) by simp
  ultimately show ?thesis by (simp add: window_def)
qed

lemma line_inv_advance:
  assumes "line_inv c" and "chk_idx c < read_idx c" and "plain (read_buf c ! chk_idx c)"
  shows "line_inv (c\<lparr>chk_idx := chk_idx c + 1\<rparr>)"
  using assms unfolding line_inv_def plain_def by (auto simp: less_Suc_eq)

lemma line_inv_no_cr_before:
  assumes "line_inv c" and "0 < chk_idx c"
  shows "read_buf c ! (chk_idx c - 1) \<noteq> CR"
proof (cases "start_line c < chk_idx c")
  case True
  then have "start_line c \<le> chk_idx c - 1" "chk_idx c - 1 < chk_idx c" using assms(2) by auto
  then show ?thesis using assms(1) unfolding line_inv_def by blast
next
  case False
  then have "start_line c = chk_idx c" using assms(1) by (simp add: line_inv_def)
  then show ?thesis using assms by (auto simp: line_inv_def)
qed

lemma parse_line_spec_aux: "line_inv c \<Longrightarrow> parse_line c = Inr (line_spec c)"
proof (induction c rule: parse_line.induct)
  case (1 c)
  let ?ch = "read_buf c ! chk_idx c"
  have len: "length (read_buf c) = READ_BUF_SIZE" and ri: "read_idx c \<le> READ_BUF_SIZE"
    using "1.prems" by (auto simp: line_inv_def)
  consider (stop) "\<not> chk_idx c < read_idx c" | (scan) "chk_idx c < read_idx c" "plain ?ch"
    | (cr) "chk_idx c < read_idx c" "?ch = CR" | (lf) "chk_idx c < read_idx c" "?ch = LF"
    by (auto simp: plain_def)
  then show ?case
  proof cases
    case stop
    then show ?thesis
      using "1.prems" by (subst parse_line.simps) (auto simp: line_spec_def Let_def window_def line_inv_def)
  next
    case scan
    let ?c = "c\<lparr>chk_idx := chk_idx c + 1\<rparr>"
    have i: "line_inv ?c" using line_inv_advance "1.prems" scan by blast
    have "parse_line ?c = Inr (line_spec ?c)"
      by (rule "1.IH") (use scan len ri i in \<open>auto simp: plain_def\<close>)
    moreover have "parse_line c = parse_line ?c"
      using scan len ri by (subst parse_line.simps) (simp add: plain_def)
    moreover have "line_spec ?c = line_spec c"
      using scan by (simp add: line_spec_def window_Cons[OF "1.prems" scan(1)] Let_def)
    ultimately show ?thesis by simp
  next
    case cr
    note w = window_Cons[OF "1.prems" cr(1)] and lw = length_window[OF "1.prems"]
    show ?thesis
    proof (cases "chk_idx c + 1 = read_idx c")
      case True
      then show ?thesis using cr len ri lw
        by (subst parse_line.simps) (simp add: line_spec_def Let_def w plain_def)
    next
      case False
      then have "window c ! 1 = read_buf c ! (chk_idx c + 1)"
        using window_nth[OF "1.prems", of 1] cr by simp
      then show ?thesis using cr len ri lw False
        by (subst parse_line.simps)
          (auto simp: line_spec_def Let_def w plain_def cut2_def store_def nat_add_distrib)
    qed
  next
    case lf
    note w = window_Cons[OF "1.prems" lf(1)]
    show ?thesis
      using lf len ri line_inv_no_cr_before[OF "1.prems"]
      by (subst parse_line.simps) (auto simp: line_spec_def Let_def w plain_def)
  qed
qed

text \<open>
  On every state that satisfies the read-side invariant, \<open>parse_line\<close> runs without a memory
  fault and computes the specified split of the unscanned input: in particular the branch for a
  LF that is preceded by a CR is never taken, since the scan never moves past a CR alone.
\<close>

theorem parse_line_spec: "line_inv c \<Longrightarrow> parse_line c = Inr (line_spec c)"
  by (rule parse_line_spec_aux)

lemma line_inv_sample: "length t \<le> READ_BUF_SIZE \<Longrightarrow> line_inv (sample_conn t)"
  by (simp add: line_inv_def sample_conn_def)

theorem parse_line_spec_witness:
  "line_inv (sample_conn (''GET'' @ CRLF)) \<and>
   parse_line (sample_conn (''GET'' @ CRLF)) = Inr (line_spec (sample_conn (''GET'' @ CRLF))) \<and>
   snd (line_spec (sample_conn (''GET'' @ CRLF))) = LINE_OK"
proof -
  have i: "line_inv (sample_conn (''GET'' @ CRLF))" by (rule line_inv_sample) (simp add: READ_BUF_SIZE_def)
  have "window (sample_conn (''GET'' @ CRLF)) = ''GET'' @ CRLF" by (simp add: window_def sample_conn_def)
  then have "snd (line_spec (sample_conn (''GET'' @ CRLF))) = LINE_OK"
    by (simp add: line_spec_def plain_def Let_def)
  then show ?thesis using i parse_line_spec[OF i] by simp
qed

text \<open>After a complete line the text of the line is a C string that ends before \<open>_chk_idx\<close>.\<close>

definition line_text :: "http_conn \<Rightarrow> string" where
  "line_text c = takeWhile (\<lambda>ch. ch \<noteq> NUL)
     (take (chk_idx c + length (takeWhile plain (window c)) - start_line c)
       (drop (start_line c) (read_buf c)))"

lemma plain_prefix_nth:
  assumes "line_inv c" and "start_line c \<le> i" and "i < chk_idx c + length (takeWhile plain (window c))"
  shows "plain (read_buf c ! i)"
proof (cases "i < chk_idx c")
  case True
  then show ?thesis using assms by (auto simp: line_inv_def plain_def)
next
  case False
  let ?k = "i - chk_idx c"
  have k: "?k < length (takeWhile plain (window c))" using False assms(3) by simp
  have "length (takeWhile plain (window c)) \<le> length (window c)" by (rule length_takeWhile_le)
  then have "window c ! ?k = read_buf c ! i"
    using window_nth[OF assms(1), of ?k] k length_window[OF assms(1)] False by simp
  then show ?thesis using takeWhile_in_prefix[OF k] by simp
qed

lemma line_spec_bounds:
  assumes "line_inv c" and "line_spec c = (c', st)"
  shows "chk_idx c \<le> chk_idx c' \<and> chk_idx c' \<le> read_idx c \<and> read_idx c' = read_idx c
     \<and> start_line c' = start_line c \<and> length (read_buf c') = READ_BUF_SIZE"
  using assms length_window[OF assms(1)] length_takeWhile_le[of plain "window c"]
  by (auto simp: line_spec_def Let_def line_inv_def cut2_def split: if_splits)

lemma line_spec_open_bad_inv:
  assumes "line_inv c" and "line_spec c = (c', st)" and "st \<noteq> LINE_OK"
  shows "line_inv c' \<and> read_buf c' = read_buf c"
proof -
  have c': "c' = c\<lparr>chk_idx := chk_idx c + length (takeWhile plain (window c))\<rparr>"
    using assms(2,3) by (auto simp: line_spec_def Let_def split: if_splits)
  then show ?thesis
    using line_spec_bounds[OF assms(1,2)] plain_prefix_nth[OF assms(1)] assms(1)
    by (auto simp: line_inv_def plain_def)
qed

lemma line_spec_ok:
  assumes "line_inv c" and "line_spec c = (c', LINE_OK)"
  shows "line_inv (c'\<lparr>start_line := chk_idx c'\<rparr>)"
    and "cstr (read_buf c') (start_line c) = Inr (line_text c)"
    and "start_line c + length (line_text c) + 2 \<le> chk_idx c'"
    and "take (start_line c) (read_buf c') = take (start_line c) (read_buf c)"
proof -
  let ?k = "length (takeWhile plain (window c))"
  let ?i = "chk_idx c + ?k"
  have c': "c' = c\<lparr>read_buf := cut2 (read_buf c) ?i, chk_idx := ?i + 2\<rparr>"
    using assms(2) by (auto simp: line_spec_def Let_def split: if_splits)
  have i2: "?i + 2 \<le> read_idx c" using line_spec_bounds[OF assms] c' by simp
  have len: "length (read_buf c) = READ_BUF_SIZE" "read_idx c \<le> READ_BUF_SIZE" "start_line c \<le> chk_idx c"
    using assms(1) by (auto simp: line_inv_def)
  show "line_inv (c'\<lparr>start_line := chk_idx c'\<rparr>)"
    using i2 len by (auto simp: line_inv_def c' cut2_def nth_list_update)
  show "take (start_line c) (read_buf c') = take (start_line c) (read_buf c)"
    using len by (simp add: c' cut2_def)
  let ?n = "?i - start_line c"
  have d: "drop (start_line c) (read_buf c') = take ?n (drop (start_line c) (read_buf c)) @ NUL # NUL #
      drop (?i + 2) (read_buf c)"
  proof (rule nth_equalityI, goal_cases)
    case 1
    then show ?case using i2 len by (simp add: c' cut2_def)
  next
    case (2 j)
    then show ?case
      using i2 len
      by (auto simp: c' cut2_def nth_append nth_list_update nth_Cons' min_def
          intro!: arg_cong[where f = "(!) (read_buf c)"])
  qed
  show "cstr (read_buf c') (start_line c) = Inr (line_text c)"
    unfolding line_text_def using d by (rule cstr_of_drop)
  have "length (line_text c) \<le> ?n"
    unfolding line_text_def by (rule le_trans[OF length_takeWhile_le]) simp
  then show "start_line c + length (line_text c) + 2 \<le> chk_idx c'"
    using len by (simp add: c')
qed

end
