(* ===== verification/Http_Request.thy ===== *)
theory Http_Request
  imports Http_Lines
begin

text \<open>
  The request line and the headers of \<open>http_conn\<close>, specified on the text of the line. The
  parsers chase pointers through the buffer and cut it with NULs; the specifications split a
  string at blanks.
\<close>

abbreviation blank :: "char \<Rightarrow> bool" where "blank ch \<equiv> ch = SP \<or> ch = TAB"

lemma set_blanks [simp]: "ch \<in> set blanks \<longleftrightarrow> blank ch"
  by (auto simp: blanks_def)

subsection \<open>The request line as a string\<close>

definition req_method :: "string \<Rightarrow> string" where
  "req_method s = takeWhile (\<lambda>ch. \<not> blank ch) s"

definition req_rest :: "string \<Rightarrow> string" where
  "req_rest s = dropWhile blank (tl (dropWhile (\<lambda>ch. \<not> blank ch) s))"

definition req_target :: "string \<Rightarrow> string" where
  "req_target s = req_method (req_rest s)"

definition req_version :: "string \<Rightarrow> string" where
  "req_version s = req_rest (req_rest s)"

definition is_absolute :: "string \<Rightarrow> bool" where
  "is_absolute u \<longleftrightarrow> same_case (take 7 u) ''http://''"

definition target_path :: "string \<Rightarrow> string" where
  "target_path u = (if is_absolute u then dropWhile (\<lambda>ch. ch \<noteq> CHR ''/'') (drop 7 u) else u)"

definition has_blank :: "string \<Rightarrow> bool" where
  "has_blank s \<longleftrightarrow> (\<exists>ch \<in> set s. blank ch)"

definition valid_request_line :: "string \<Rightarrow> bool" where
  "valid_request_line s \<longleftrightarrow>
     has_blank s \<and> same_case (req_method s) ''GET'' \<and> has_blank (req_rest s)
     \<and> same_case (req_version s) ''HTTP/1.1''
     \<and> target_path (req_target s) \<noteq> [] \<and> hd (target_path (req_target s)) = CHR ''/''"

subsection \<open>Pointer steps as string steps\<close>

lemma req_method_less_iff: "length (req_method s) < length s \<longleftrightarrow> has_blank s"
  by (auto simp: req_method_def has_blank_def length_takeWhile_less_iff)

lemma strpbrk_blanks:
  assumes "cstr b i = Inr s"
  shows "strpbrk b i blanks =
    Inr (if has_blank s then Some (i + length (req_method s)) else None)"
  using assms by (simp add: strpbrk_def Let_def flip: req_method_less_iff) (simp add: req_method_def)

text \<open>One token: cut at the first blank, then skip the blanks after it.\<close>

lemma token_step:
  assumes "cstr b i = Inr s" and "has_blank s"
  shows "cstr (b[i + length (req_method s) := NUL]) i = Inr (req_method s)"
    and "\<exists>n. strspn (b[i + length (req_method s) := NUL]) (i + length (req_method s) + 1) blanks = Inr n
      \<and> cstr (b[i + length (req_method s) := NUL]) (i + length (req_method s) + 1 + n) = Inr (req_rest s)
      \<and> i + length (req_method s) + 1 + n + length (req_rest s) = i + length s"
proof -
  let ?k = "length (req_method s)"
  let ?b = "b[i + ?k := NUL]"
  let ?t = "drop (Suc ?k) s"
  let ?n = "length (takeWhile blank ?t)"
  have k: "?k < length s" using assms(2) by (simp add: req_method_less_iff)
  have "take ?k s = req_method s" by (simp add: req_method_def takeWhile_eq_take[symmetric])
  then show "cstr ?b i = Inr (req_method s)"
    using cstr_cut[OF assms(1), of ?k] k by simp
  have c: "cstr ?b (Suc (i + ?k)) = Inr ?t" by (rule cstr_after_cut[OF assms(1) k])
  have t: "?t = tl (dropWhile (\<lambda>ch. \<not> blank ch) s)"
    by (simp add: req_method_def drop_Suc flip: tl_drop drop_takeWhile_length)
  have "req_rest s = dropWhile blank ?t" by (simp only: req_rest_def t)
  then have r: "req_rest s = drop ?n ?t" by (simp only: drop_takeWhile_length)
  have "?n \<le> length ?t" by (rule length_takeWhile_le)
  then have "cstr ?b (Suc (i + ?k) + ?n) = Inr (req_rest s)"
    unfolding r by (rule cstr_drop[OF c])
  moreover have "strspn ?b (i + ?k + 1) blanks = Inr ?n" using c by (simp add: strspn_def)
  moreover have "i + ?k + 1 + ?n + length (req_rest s) = i + length s"
    using \<open>?n \<le> length ?t\<close> k by (simp add: r)
  ultimately show "\<exists>n. strspn ?b (i + ?k + 1) blanks = Inr n
      \<and> cstr ?b (i + ?k + 1 + n) = Inr (req_rest s) \<and> i + ?k + 1 + n + length (req_rest s) = i + length s"
    by (intro exI[of _ ?n]) simp
qed

lemma is_absolute_length: "is_absolute u \<Longrightarrow> 7 \<le> length u"
proof -
  assume "is_absolute u"
  then have "map to_lower (take 7 u) = map to_lower ''http://''" by (simp add: is_absolute_def same_case_def)
  from arg_cong[OF this, of length] show ?thesis by simp
qed

lemma target_pointer:
  assumes "cstr b i = Inr t"
  shows "\<exists>p. (if is_absolute t then strchr b (i + 7) CHR ''/'' else Inr (Some i)) = Inr p
    \<and> (case p of None \<Rightarrow> target_path t = []
       | Some q \<Rightarrow> i \<le> q \<and> q + length (target_path t) = i + length t \<and> cstr b q = Inr (target_path t))"
proof (cases "is_absolute t")
  case False
  then show ?thesis using assms by (simp add: target_path_def)
next
  case True
  let ?t = "drop 7 t"
  let ?k = "length (takeWhile (\<lambda>ch. ch \<noteq> CHR ''/'') ?t)"
  have len: "7 \<le> length t" using True by (rule is_absolute_length)
  have c: "cstr b (i + 7) = Inr ?t" by (rule cstr_drop[OF assms len])
  have k: "?k \<le> length ?t" by (rule length_takeWhile_le)
  have path: "target_path t = drop ?k ?t" using True by (simp only: target_path_def if_True drop_takeWhile_length)
  have d: "cstr b (i + 7 + ?k) = Inr (target_path t)"
    unfolding path by (rule cstr_drop[OF c k])
  have sc: "strchr b (i + 7) CHR ''/'' = Inr (if ?k < length ?t then Some (i + 7 + ?k) else None)"
    using c by (simp add: strchr_def strpbrk_def Let_def)
  show ?thesis
  proof (cases "?k < length ?t")
    case less: True
    have "i + 7 + ?k + length (target_path t) = i + length t"
      using len k by (simp add: path)
    then show ?thesis using True less sc d by simp
  next
    case False
    then show ?thesis using True sc path by simp
  qed
qed

lemma check_version_url_spec:
  assumes "cstr (read_buf c) u = Inr t" and "cstr (read_buf c) v = Inr w"
  defines "good \<equiv> same_case w ''HTTP/1.1'' \<and> target_path t \<noteq> [] \<and> hd (target_path t) = CHR ''/''"
  shows "\<exists>c'. check_version_url c u v = Inr (c', if good then NO_REQUEST else BAD_REQUEST)
    \<and> read_buf c' = read_buf c
    \<and> (if good then chk_state c' = CHECK_STATE_HEADER \<and> (\<exists>q. url c' = Some q \<and> u \<le> q
          \<and> q + length (target_path t) = u + length t \<and> cstr (read_buf c) q = Inr (target_path t))
       else chk_state c' = chk_state c)"
proof (cases "same_case w ''HTTP/1.1''")
  case False
  then show ?thesis using assms(2) by (simp add: check_version_url_def strcaseeq_def good_def)
next
  case True
  obtain p where p: "(if is_absolute t then strchr (read_buf c) (u + 7) CHR ''/'' else Inr (Some u)) = Inr p"
    and q: "case p of None \<Rightarrow> target_path t = []
       | Some q \<Rightarrow> u \<le> q \<and> q + length (target_path t) = u + length t \<and> cstr (read_buf c) q = Inr (target_path t)"
    using target_pointer[OF assms(1)] by blast
  have sv: "strcaseeq (read_buf c) v ''HTTP/1.1'' = Inr True"
    and su: "strncaseeq (read_buf c) u ''http://'' = Inr (is_absolute t)"
    using True assms by (simp_all add: strcaseeq_def strncaseeq_def is_absolute_def eval_nat_numeral)
  show ?thesis
  proof (cases p)
    case None
    then show ?thesis using p q sv su by (simp add: check_version_url_def good_def)
  next
    case (Some r)
    then have r: "u \<le> r" "r + length (target_path t) = u + length t"
      "cstr (read_buf c) r = Inr (target_path t)" using q by auto
    then have "r < length (read_buf c)" using cstr_bound by fastforce
    moreover have "read_buf c ! r = CHR ''/'' \<longleftrightarrow> target_path t \<noteq> [] \<and> hd (target_path t) = CHR ''/''"
      using cstr_hd[OF r(3)] by simp
    ultimately show ?thesis
      using p Some sv su r True by (auto simp: check_version_url_def good_def)
  qed
qed

lemma parse_request_line_spec_aux:
  assumes s: "cstr (read_buf c) txt = Inr s"
  shows "\<exists>c'. parse_request_line c txt = Inr (c', if valid_request_line s then NO_REQUEST else BAD_REQUEST)
    \<and> (\<forall>i. i < txt \<or> txt + length s \<le> i \<longrightarrow> read_buf c' ! i = read_buf c ! i)
    \<and> length (read_buf c') = length (read_buf c)
    \<and> (if valid_request_line s
       then chk_state c' = CHECK_STATE_HEADER \<and> (\<exists>u. url c' = Some u \<and> txt \<le> u
          \<and> u + length (target_path (req_target s)) < txt + length s
          \<and> cstr (read_buf c') u = Inr (target_path (req_target s)))
       else chk_state c' = chk_state c)"
proof (cases "has_blank s")
  case False
  then show ?thesis using strpbrk_blanks[OF s]
    by (simp add: parse_request_line_def valid_request_line_def)
next
  case True
  let ?k = "length (req_method s)"
  let ?b = "(read_buf c)[txt + ?k := NUL]"
  have k: "?k < length s" using True by (simp add: req_method_less_iff)
  note bound = cstr_bound[OF s]
  have st: "store (read_buf c) (int (txt + ?k)) NUL = Inr ?b" by (rule store_nat) (use bound k in simp)
  obtain n where cm: "cstr ?b txt = Inr (req_method s)" and n: "strspn ?b (txt + ?k + 1) blanks = Inr n"
    and cr: "cstr ?b (txt + ?k + 1 + n) = Inr (req_rest s)"
    and ln: "txt + ?k + 1 + n + length (req_rest s) = txt + length s"
    using token_step[OF s True] by blast
  define u where "u = txt + ?k + 1 + n"
  show ?thesis
  proof (cases "same_case (req_method s) ''GET'' \<and> has_blank (req_rest s)")
    case False
    then show ?thesis
      using strpbrk_blanks[OF s] strpbrk_blanks[OF cr] st n cm True k
      by (auto simp: parse_request_line_def valid_request_line_def strcaseeq_def Let_def)
  next
    case m: True
    let ?j = "length (req_target s)"
    let ?b2 = "?b[u + ?j := NUL]"
    have j: "?j < length (req_rest s)" using m by (simp add: req_target_def req_method_less_iff)
    have st2: "store ?b (int (u + ?j)) NUL = Inr ?b2"
      by (rule store_nat) (use bound j ln in \<open>simp add: u_def\<close>)
    obtain n2 where ct: "cstr ?b2 u = Inr (req_target s)" and n2: "strspn ?b2 (u + ?j + 1) blanks = Inr n2"
      and cv: "cstr ?b2 (u + ?j + 1 + n2) = Inr (req_version s)"
      using token_step[OF cr] m by (auto simp: req_target_def req_version_def u_def)
    define v where "v = u + ?j + 1 + n2"
    define c2 where "c2 = c\<lparr>conn_method := GET, url := Some u, read_buf := ?b2, version := Some v\<rparr>"
    have "parse_request_line c txt = check_version_url c2 u v"
      using strpbrk_blanks[OF s] strpbrk_blanks[OF cr] st n cm True m st2 n2
      by (simp add: parse_request_line_def strcaseeq_def Let_def u_def v_def c2_def req_target_def)
    moreover have "valid_request_line s \<longleftrightarrow> same_case (req_version s) ''HTTP/1.1''
        \<and> target_path (req_target s) \<noteq> [] \<and> hd (target_path (req_target s)) = CHR ''/''"
      using True m by (simp add: valid_request_line_def)
    moreover have "cstr (read_buf c2) u = Inr (req_target s)" "cstr (read_buf c2) v = Inr (req_version s)"
      using ct cv by (simp_all add: c2_def v_def)
    note check_version_url_spec[OF this]
    moreover have "\<forall>i. i < txt \<or> txt + length s \<le> i \<longrightarrow> read_buf c2 ! i = read_buf c ! i"
      using j k ln by (auto simp: c2_def u_def nth_list_update)
    moreover have "u + ?j < txt + length s" "txt \<le> u" using j ln by (auto simp: u_def)
    ultimately show ?thesis by (fastforce simp: c2_def)
  qed
qed

text \<open>
  Whatever bytes a request line consists of, parsing it stays inside the line and never
  faults; it is accepted exactly when the string is a valid request line (GET in any case, a
  target, HTTP/1.1 in any case, a path that starts with a slash after an optional http:// and
  host), and then \<open>_url\<close> points at the path of the target, as a C string that ends before the
  end of the line, and the machine is in the header state.
\<close>

theorem parse_request_line_spec:
  assumes "cstr (read_buf c) txt = Inr s"
  shows "\<exists>c'. parse_request_line c txt = Inr (c', if valid_request_line s then NO_REQUEST else BAD_REQUEST)
    \<and> (\<forall>i. i < txt \<or> txt + length s \<le> i \<longrightarrow> read_buf c' ! i = read_buf c ! i)
    \<and> length (read_buf c') = length (read_buf c)
    \<and> (if valid_request_line s
       then chk_state c' = CHECK_STATE_HEADER \<and> (\<exists>u. url c' = Some u \<and> txt \<le> u
          \<and> u + length (target_path (req_target s)) < txt + length s
          \<and> cstr (read_buf c') u = Inr (target_path (req_target s)))
       else chk_state c' = chk_state c)"
  by (rule parse_request_line_spec_aux[OF assms])

theorem parse_request_line_spec_witness:
  "\<exists>c'. parse_request_line ((sample_conn [])\<lparr>read_buf := ''get  HTTP://h/a?b HTTP/1.1'' @ [NUL]\<rparr>) 0
      = Inr (c', NO_REQUEST)
    \<and> chk_state c' = CHECK_STATE_HEADER \<and> (\<exists>u. url c' = Some u \<and> cstr (read_buf c') u = Inr ''/a?b'')"
proof -
  let ?s = "''get  HTTP://h/a?b HTTP/1.1''"
  let ?c = "(sample_conn [])\<lparr>read_buf := ?s @ [NUL]\<rparr>"
  have s: "cstr (read_buf ?c) 0 = Inr ?s" by (simp add: cstr_def)
  have v: "valid_request_line ?s" and t: "target_path (req_target ?s) = ''/a?b''"
    by code_simp+
  show ?thesis using parse_request_line_spec[OF s] v t by auto
qed

end
