(* ===== verification/Http_Safety.thy ===== *)
theory Http_Safety
  imports Http_Request
begin

text \<open>
  Memory safety of \<open>process_read\<close> and the invariant that holds between its calls, on inputs of any
  content and in any segmentation; and the one place where it is not safe, the store that
  terminates the message body at an index taken from the Content-Length header.
\<close>

subsection \<open>Headers\<close>

text \<open>What a header line does to the connection, as a function of its text.\<close>

definition header_name_is :: "string \<Rightarrow> string \<Rightarrow> bool" where
  "header_name_is s name \<longleftrightarrow> same_case (take (length name) s) name"

definition value_of :: "string \<Rightarrow> string \<Rightarrow> string" where
  "value_of s name = dropWhile blank (drop (length name) s)"

definition header_effect :: "http_conn \<Rightarrow> nat \<Rightarrow> string \<Rightarrow> http_conn \<times> HTTP_CODE" where
  "header_effect c txt s =
     (if s = [] then
        (if content_length c \<noteq> 0 then (c\<lparr>chk_state := CHECK_STATE_CONTENT\<rparr>, NO_REQUEST)
         else (c, GET_REQUEST))
      else if header_name_is s ''Connection:'' then
        (if same_case (value_of s ''Connection:'') ''keep-alive'' then c\<lparr>linger := True\<rparr> else c, NO_REQUEST)
      else if header_name_is s ''Content-Length:'' then
        (c\<lparr>content_length := to_int32 (atol_str (value_of s ''Content-Length:''))\<rparr>, NO_REQUEST)
      else if header_name_is s ''Host:'' then
        (c\<lparr>host := Some (txt + length s - length (value_of s ''Host:''))\<rparr>, NO_REQUEST)
      else (c, NO_REQUEST))"

lemma header_name_length: "header_name_is s name \<Longrightarrow> length name \<le> length s"
  by (auto simp: header_name_is_def same_case_def dest!: map_eq_imp_length_eq)

lemma header_field:
  assumes "cstr b txt = Inr s"
  shows "strncaseeq b txt name = Inr (header_name_is s name)"
    and "header_name_is s name \<Longrightarrow> length name = k \<Longrightarrow> \<exists>n. strspn b (txt + k) blanks = Inr n
      \<and> cstr b (txt + k + n) = Inr (value_of s name)
      \<and> txt + k + n = txt + length s - length (value_of s name)"
proof -
  show "strncaseeq b txt name = Inr (header_name_is s name)"
    using assms by (simp add: strncaseeq_def header_name_is_def)
  assume h: "header_name_is s name" and k: "length name = k"
  have l: "length name \<le> length s" using h by (rule header_name_length)
  let ?n = "length (takeWhile blank (drop (length name) s))"
  have c: "cstr b (txt + length name) = Inr (drop (length name) s)" by (rule cstr_drop[OF assms l])
  have v: "value_of s name = drop ?n (drop (length name) s)"
    by (simp only: value_of_def drop_takeWhile_length)
  have n: "?n \<le> length (drop (length name) s)" by (rule length_takeWhile_le)
  have "strspn b (txt + length name) blanks = Inr ?n" using c by (simp add: strspn_def)
  moreover have "cstr b (txt + length name + ?n) = Inr (value_of s name)"
    unfolding v by (rule cstr_drop[OF c n])
  moreover have "txt + length name + ?n = txt + length s - length (value_of s name)"
    using n l by (simp add: v)
  ultimately show "\<exists>n. strspn b (txt + k) blanks = Inr n
      \<and> cstr b (txt + k + n) = Inr (value_of s name)
      \<and> txt + k + n = txt + length s - length (value_of s name)" unfolding k by blast
qed

lemma parse_headers_effect:
  assumes s: "cstr (read_buf c) txt = Inr s"
  shows "parse_headers c txt = Inr (header_effect c txt s)"
proof (cases "s = []")
  case True
  then show ?thesis
    using cstr_end[OF s] cstr_bound[OF s] by (simp add: parse_headers_def header_effect_def)
next
  case False
  have nz: "read_buf c ! txt \<noteq> NUL"
    using cstr_nth[OF s, of 0] cstr_no_nul[OF s] False by (metis add_0_right length_greater_0_conv nth_mem)
  have b: "\<not> length (read_buf c) \<le> txt" using cstr_bound[OF s] by simp
  note hf = header_field[OF s]
  consider "header_name_is s ''Connection:''"
    | "\<not> header_name_is s ''Connection:''" "header_name_is s ''Content-Length:''"
    | "\<not> header_name_is s ''Connection:''" "\<not> header_name_is s ''Content-Length:''"
    by blast
  then show ?thesis
  proof cases
    case 1
    then show ?thesis using hf(2)[OF 1, of 11] nz b False
      by (auto simp: parse_headers_def header_effect_def hf(1) strcaseeq_def)
  next
    case 2
    then show ?thesis using hf(2)[OF 2(2), of 15] nz b False
      by (auto simp: parse_headers_def header_effect_def hf(1) atol_def)
  next
    case 3
    then show ?thesis using hf(2)[of "''Host:''" 5] nz b False
      by (auto simp: parse_headers_def header_effect_def hf(1))
  qed
qed

text \<open>
  A header line never makes the parser fault, and its effect is the one of its text: an
  empty line ends the headers (and starts the content when a length was announced), Connection,
  Content-Length and Host set their member, any other line is ignored.
\<close>

theorem parse_headers_spec:
  assumes "cstr (read_buf c) txt = Inr s"
  shows "parse_headers c txt = Inr (header_effect c txt s)"
  by (rule parse_headers_effect[OF assms])

theorem parse_headers_spec_witness:
  "\<exists>c'. parse_headers ((sample_conn [])\<lparr>read_buf := ''content-length:  -100'' @ [NUL]\<rparr>) 0
      = Inr (c', NO_REQUEST) \<and> content_length c' = -100"
proof -
  let ?s = "''content-length:  -100''"
  let ?c = "(sample_conn [])\<lparr>read_buf := ?s @ [NUL]\<rparr>"
  have s: "cstr (read_buf ?c) 0 = Inr ?s" by (simp add: cstr_def)
  have e: "\<not> header_name_is ?s ''Connection:'' \<and> header_name_is ?s ''Content-Length:'' \<and>
      atol_str (value_of ?s ''Content-Length:'') = -100" by code_simp
  have "to_int32 (-100) = -100" by (simp add: to_int32_id)
  then show ?thesis using e parse_headers_spec[OF s] by (simp add: header_effect_def)
qed

subsection \<open>The file of a request\<close>

definition request_path :: "string \<Rightarrow> string" where
  "request_path s = doc_root @ take (FILE_NAME_LEN - length doc_root - 1) s"

definition request_file :: "fs_env \<Rightarrow> http_conn \<Rightarrow> string \<Rightarrow> http_conn \<times> HTTP_CODE" where
  "request_file env c path =
     (case fs_stat env path of
        None \<Rightarrow> (c, NO_RESOURCE)
      | Some st \<Rightarrow>
          if st_mode st AND S_IROTH = 0 then (c\<lparr>file_stat := st\<rparr>, FORBIDDEN_REQUEST)
          else if S_ISDIR (st_mode st) then (c\<lparr>file_stat := st\<rparr>, BAD_REQUEST)
          else (c\<lparr>file_stat := st, file_addr := mmap_file env path (st_size st)\<rparr>, FILE_REQUEST))"

definition file_inv :: "http_conn \<Rightarrow> bool" where
  "file_inv c \<longleftrightarrow> length (real_file c) = FILE_NAME_LEN \<and> real_file c ! (FILE_NAME_LEN - 1) = NUL"

lemma length_doc_root: "length doc_root = 18"
  by (simp add: doc_root_def)

lemma doc_root_no_nul: "NUL \<notin> set doc_root"
  by (simp add: doc_root_def)

lemma drop_last_file: "file_inv c \<Longrightarrow> drop 199 (real_file c) = [NUL]"
  by (simp add: file_inv_def FILE_NAME_LEN_def Cons_nth_drop_Suc[symmetric])

lemma do_request_aux:
  assumes "url c = Some u" and s: "cstr (read_buf c) u = Inr s" and f: "file_inv c"
  shows "\<exists>r. do_request env c = Inr (request_file env (c\<lparr>real_file := r\<rparr>) (request_path s))
    \<and> cstr r 0 = Inr (request_path s) \<and> file_inv (c\<lparr>real_file := r\<rparr>)"
proof -
  let ?r1 = "doc_root @ NUL # drop 19 (real_file c)"
  let ?pad = "take 181 s @ replicate (181 - length s) NUL"
  let ?r = "doc_root @ ?pad @ [NUL]"
  have len: "length (real_file c) = 200" using f by (simp add: file_inv_def FILE_NAME_LEN_def)
  have lp: "length ?pad = 181" by simp
  have m: "min (length s) 181 + (181 - length s) = 181" by simp
  have b1: "strcpy (real_file c) 0 doc_root = Inr ?r1"
    using len by (simp add: strcpy_def blit_def length_doc_root)
  have b2: "strncpy ?r1 18 s 181 = Inr ?r"
    using len drop_last_file[OF f] by (simp add: strncpy_def blit_def length_doc_root m)
  have n: "FILE_NAME_LEN - length doc_root - 1 = 181" by (simp add: FILE_NAME_LEN_def length_doc_root)
  have p: "request_path s = doc_root @ take 181 s" by (simp only: request_path_def n)
  have "\<exists>q. ?r = request_path s @ NUL # q"
    by (cases "181 - length s") (auto simp: p)
  moreover have "NUL \<notin> set (request_path s)"
    using cstr_no_nul[OF s] doc_root_no_nul by (auto simp: p dest: in_set_takeD)
  ultimately have c: "cstr ?r 0 = Inr (request_path s)" by (auto simp: cstr_iff)
  have "do_request env c = Inr (request_file env (c\<lparr>real_file := ?r\<rparr>) (request_path s))"
    using assms(1) b1 b2 c s
    by (simp add: do_request_def length_doc_root FILE_NAME_LEN_def request_file_def Let_def split: option.split)
  moreover have "file_inv (c\<lparr>real_file := ?r\<rparr>)"
    using nth_append_length[of "doc_root @ ?pad" NUL "[]"] m
    by (simp add: file_inv_def FILE_NAME_LEN_def length_doc_root)
  ultimately show ?thesis using c by blast
qed

text \<open>
  With \<open>_url\<close> a C string, resolving the request never faults: \<open>_real_file\<close> becomes the
  document root followed by at most 181 characters of the URL, and the answer is 404, 403 or 400
  exactly when \<open>stat\<close> fails, others may not read the file or it is a directory; otherwise the
  file of that path is mapped. The URL is appended as it is, so it may hold \<open>..\<close> components.
\<close>

theorem do_request_spec:
  assumes "url c = Some u" and "cstr (read_buf c) u = Inr s" and "file_inv c"
  shows "\<exists>r. do_request env c = Inr (request_file env (c\<lparr>real_file := r\<rparr>) (request_path s))
    \<and> cstr r 0 = Inr (request_path s) \<and> file_inv (c\<lparr>real_file := r\<rparr>)"
  by (rule do_request_aux[OF assms])

theorem do_request_spec_witness:
  "\<exists>c'. do_request sample_env (sample_body_conn 0) = Inr (c', NO_RESOURCE)
    \<and> cstr (real_file c') 0 = Inr (doc_root @ ''/'')"
proof -
  have u: "url (sample_body_conn 0) = Some 0" by (simp add: sample_body_conn_def)
  have s: "cstr (read_buf (sample_body_conn 0)) 0 = Inr ''/''"
    by (auto simp: sample_body_conn_def cstr_iff intro!: exI[of _ "replicate 2046 NUL"] simp flip: replicate_Suc)
  have f: "file_inv (sample_body_conn 0)"
    by (simp add: sample_body_conn_def sample_conn_def file_inv_def FILE_NAME_LEN_def)
  have p: "request_path ''/'' = doc_root @ ''/''" by (simp add: request_path_def FILE_NAME_LEN_def length_doc_root)
  have "fs_stat sample_env (doc_root @ ''/'') = None" by (simp add: sample_env_def)
  then show ?thesis using do_request_spec[OF u s f, of sample_env] by (auto simp: p request_file_def)
qed

subsection \<open>The invariant of \<open>process_read\<close>\<close>

text \<open>
  Once the request line is accepted \<open>_url\<close> is a C string that lies wholly before the current
  line, so no later line can overwrite it.
\<close>

definition url_inv :: "http_conn \<Rightarrow> bool" where
  "url_inv c \<longleftrightarrow> (chk_state c \<noteq> CHECK_STATE_REQUEST_LINE \<longrightarrow>
     (\<exists>u s. url c = Some u \<and> cstr (read_buf c) u = Inr s \<and> u + length s < start_line c))"

definition http_inv :: "http_conn \<Rightarrow> bool" where
  "http_inv c \<longleftrightarrow> line_inv c \<and> url_inv c \<and> file_inv c"

text \<open>
  The faults that the message body can cause: a signed overflow and a store outside the buffer,
  from the unchecked Content-Length, and printing a body that no NUL ends within the buffer.
\<close>

definition body_fault :: "fault \<Rightarrow> bool" where
  "body_fault f \<longleftrightarrow> (\<exists>n. f = Int_Overflow n) \<or> (\<exists>i. f = Bad_Store i \<and> (i < 0 \<or> i = int READ_BUF_SIZE))
     \<or> (\<exists>i. f = Bad_String i)"

lemma request_file_frame:
  "request_file env c path = (c', r) \<Longrightarrow> r \<noteq> NO_REQUEST \<and> read_buf c' = read_buf c
     \<and> real_file c' = real_file c \<and> read_idx c' = read_idx c"
  by (auto simp: request_file_def Let_def split: option.splits if_splits)

lemma finish_ok:
  assumes "url c = Some u" and "is_ok (cstr (read_buf c) u)" and "file_inv c"
  shows "\<exists>c' r. finish env c = Inr (c', Done r) \<and> r \<noteq> NO_REQUEST"
proof -
  obtain s where "cstr (read_buf c) u = Inr s" using assms(2) by (auto simp: is_ok_iff)
  from do_request_aux[OF assms(1) this assms(3), of env]
  obtain r where "do_request env c = Inr (request_file env (c\<lparr>real_file := r\<rparr>) (request_path s))" by blast
  then show ?thesis
    by (cases "request_file env (c\<lparr>real_file := r\<rparr>) (request_path s)")
      (auto simp: finish_def dest: request_file_frame)
qed

lemma http_inv_of_buf:
  "http_inv c \<Longrightarrow> read_buf c' = read_buf c \<Longrightarrow> start_line c' = start_line c \<Longrightarrow> line_inv c' \<Longrightarrow>
   chk_state c' = chk_state c \<Longrightarrow> url c' = url c \<Longrightarrow> real_file c' = real_file c \<Longrightarrow> http_inv c'"
  by (simp add: http_inv_def url_inv_def file_inv_def)

text \<open>The loop condition: either more input is needed, or a line is there to be processed.\<close>

lemma next_line_inv:
  assumes inv: "http_inv c"
  obtains (wait) c1 st1 where "next_line c st = Inr (c1, st1)" "st1 \<noteq> LINE_OK" "http_inv c1"
    "chk_state c1 = chk_state c" "read_buf c1 = read_buf c" "st1 = LINE_BAD \<or> st1 = LINE_OPEN"
  | (line) c1 where "next_line c st = Inr (c1, LINE_OK)" "http_inv (c1\<lparr>start_line := chk_idx c1\<rparr>)"
    "chk_state c1 = chk_state c" "start_line c1 \<le> chk_idx c1"
    "chk_state c \<noteq> CHECK_STATE_CONTENT \<longrightarrow> is_ok (cstr (read_buf c1) (get_line c1))
       \<and> (\<forall>s. cstr (read_buf c1) (get_line c1) = Inr s \<longrightarrow> start_line c1 + length s + 2 \<le> chk_idx c1)"
proof (cases "chk_state c = CHECK_STATE_CONTENT \<and> st = LINE_OK")
  case True
  have "line_inv (c\<lparr>start_line := chk_idx c\<rparr>)"
    using inv line_inv_no_cr_before[of c] by (auto simp: http_inv_def line_inv_def)
  then have "http_inv (c\<lparr>start_line := chk_idx c\<rparr>)"
    using inv by (fastforce simp: http_inv_def url_inv_def file_inv_def line_inv_def)
  then show ?thesis using True inv line
    by (simp add: next_line_def http_inv_def line_inv_def)
next
  case False
  have li: "line_inv c" using inv by (simp add: http_inv_def)
  obtain c1 st1 where sp: "line_spec c = (c1, st1)" by fastforce
  have nl: "next_line c st = Inr (c1, st1)"
    using False parse_line_spec_aux[OF li] sp by (auto simp: next_line_def)
  have fr: "chk_state c1 = chk_state c" "url c1 = url c" "real_file c1 = real_file c"
    using sp by (auto simp: line_spec_def Let_def split: if_splits)
  show ?thesis
  proof (cases "st1 = LINE_OK")
    case False
    then have "st1 = LINE_BAD \<or> st1 = LINE_OPEN" by (cases st1) auto
    moreover have "http_inv c1"
      using line_spec_open_bad_inv[OF li sp False] line_spec_bounds[OF li sp] fr
      by (intro http_inv_of_buf[OF inv]) auto
    ultimately show ?thesis
      using wait[OF nl False] fr line_spec_open_bad_inv[OF li sp False] by blast
  next
    case True
    note ok = line_spec_ok[OF li sp[unfolded True]] and bd = line_spec_bounds[OF li sp]
    have len: "length (read_buf c1) = length (read_buf c)" using bd li by (simp add: line_inv_def)
    have "url_inv (c1\<lparr>start_line := chk_idx c1\<rparr>)"
      unfolding url_inv_def
    proof (intro impI)
      assume "chk_state (c1\<lparr>start_line := chk_idx c1\<rparr>) \<noteq> CHECK_STATE_REQUEST_LINE"
      then obtain u s where u: "url c = Some u" "cstr (read_buf c) u = Inr s" "u + length s < start_line c"
        using inv fr by (auto simp: http_inv_def url_inv_def)
      then have "cstr (read_buf c1) u = Inr s"
        by (intro cstr_same_prefix[OF u(2) ok(4) u(3) len])
      then show "\<exists>u s. url (c1\<lparr>start_line := chk_idx c1\<rparr>) = Some u
          \<and> cstr (read_buf (c1\<lparr>start_line := chk_idx c1\<rparr>)) u = Inr s
          \<and> u + length s < start_line (c1\<lparr>start_line := chk_idx c1\<rparr>)"
        using u fr li bd by (auto simp: line_inv_def)
    qed
    then have "http_inv (c1\<lparr>start_line := chk_idx c1\<rparr>)"
      using ok(1) inv fr by (simp add: http_inv_def file_inv_def)
    then show ?thesis
      using line[of c1] nl True fr ok(2,3) bd li
      by (auto simp: get_line_def line_inv_def)
  qed
qed

text \<open>The three states of the switch.\<close>

lemma request_line_step:
  assumes inv: "http_inv c" and st: "chk_state c = CHECK_STATE_REQUEST_LINE"
    and s: "cstr (read_buf c) txt = Inr s" and t: "txt + length s + 2 \<le> start_line c"
  obtains (bad) c' where "process_line env c txt = Inr (c', Done BAD_REQUEST)" "\<not> valid_request_line s"
  | (goon) c' where "process_line env c txt = Inr (c', Next LINE_OK)" "http_inv c'" "valid_request_line s"
      "chk_state c' = CHECK_STATE_HEADER"
proof -
  obtain c' where p: "parse_request_line c txt = Inr (c', if valid_request_line s then NO_REQUEST else BAD_REQUEST)"
    and same: "\<forall>i. i < txt \<or> txt + length s \<le> i \<longrightarrow> read_buf c' ! i = read_buf c ! i"
    and len: "length (read_buf c') = length (read_buf c)"
    and v: "if valid_request_line s
       then chk_state c' = CHECK_STATE_HEADER \<and> (\<exists>u. url c' = Some u \<and> txt \<le> u
          \<and> u + length (target_path (req_target s)) < txt + length s
          \<and> cstr (read_buf c') u = Inr (target_path (req_target s)))
       else chk_state c' = chk_state c"
    using parse_request_line_spec_aux[OF s] by blast
  show ?thesis
  proof (cases "valid_request_line s")
    case False
    then show ?thesis using bad[of c'] p st by (simp add: process_line_def)
  next
    case True
    note fr = parse_request_line_frame[OF p]
    have "real_file c' = real_file c"
      using p by (auto simp: parse_request_line_def check_version_url_def Let_def elim!: bindR_InrE
          split: option.split_asm if_split_asm)
    moreover have "line_inv c'"
      using inv fr len same t by (auto simp: http_inv_def line_inv_def)
    moreover have "url_inv c'" using v True fr t by (fastforce simp: url_inv_def)
    ultimately have "http_inv c'" using inv by (simp add: http_inv_def file_inv_def)
    then show ?thesis using goon[of c'] p st True v by (simp add: process_line_def)
  qed
qed

lemma header_effect_inv:
  assumes "http_inv c" and "chk_state c = CHECK_STATE_HEADER" and "header_effect c txt s = (c', r)"
  shows "http_inv c' \<and> r \<noteq> BAD_REQUEST \<and> url c' = url c \<and> read_buf c' = read_buf c
    \<and> chk_state c' \<noteq> CHECK_STATE_REQUEST_LINE"
  using assms
  by (auto simp: header_effect_def http_inv_def line_inv_def url_inv_def file_inv_def split: if_splits)

lemma header_step:
  assumes inv: "http_inv c" and st: "chk_state c = CHECK_STATE_HEADER"
    and s: "cstr (read_buf c) txt = Inr s"
  obtains (final) c' r where "process_line env c txt = Inr (c', Done r)" "r \<noteq> NO_REQUEST"
  | (goon) c' where "process_line env c txt = Inr (c', Next LINE_OK)" "http_inv c'"
      "header_effect c txt s = (c', NO_REQUEST)"
proof -
  obtain c' r where e: "header_effect c txt s = (c', r)" by fastforce
  note h = header_effect_inv[OF inv st e]
  have p: "process_line env c txt = (if r = GET_REQUEST then finish env c' else Inr (c', Next LINE_OK))"
    using st h e by (simp add: process_line_def parse_headers_effect[OF s])
  show ?thesis
  proof (cases "r = GET_REQUEST")
    case True
    obtain u where "url c' = Some u" "is_ok (cstr (read_buf c') u)" "file_inv c'"
      using h by (fastforce simp: http_inv_def url_inv_def)
    from finish_ok[OF this, of env] show ?thesis using final p True by auto
  next
    case False
    then have "r = NO_REQUEST" using e by (auto simp: header_effect_def split: if_splits)
    then show ?thesis using goon[of c'] p h e by simp
  qed
qed

lemma content_step:
  assumes inv: "http_inv c" and st: "chk_state c = CHECK_STATE_CONTENT" and t: "txt \<le> chk_idx c"
  obtains (fault) f where "process_line env c txt = Inl f" "body_fault f"
  | (final) c' r where "process_line env c txt = Inr (c', Done r)" "r \<noteq> NO_REQUEST"
  | (goon) "process_line env c txt = Inr (c, Next LINE_OPEN)"
proof -
  let ?i = "int txt + content_length c"
  consider (ovf) "INT_MAX < content_length c + int (chk_idx c)"
    | (more) "\<not> INT_MAX < content_length c + int (chk_idx c)" "int (read_idx c) < content_length c + int (chk_idx c)"
    | (oob) "\<not> INT_MAX < content_length c + int (chk_idx c)" "content_length c + int (chk_idx c) \<le> int (read_idx c)"
        "?i < 0 \<or> int (length (read_buf c)) \<le> ?i"
    | (all) "\<not> INT_MAX < content_length c + int (chk_idx c)" "content_length c + int (chk_idx c) \<le> int (read_idx c)"
        "0 \<le> ?i" "?i < int (length (read_buf c))"
    by linarith
  then show ?thesis
  proof cases
    case ovf
    then show ?thesis using fault st by (simp add: process_line_def parse_content_def body_fault_def)
  next
    case more
    then show ?thesis using goon st by (simp add: process_line_def parse_content_def)
  next
    case oob
    then have "?i < 0 \<or> ?i = int READ_BUF_SIZE"
      using inv t by (auto simp: http_inv_def line_inv_def)
    then have "body_fault (Bad_Store ?i)" by (simp add: body_fault_def)
    moreover have "store (read_buf c) ?i NUL = Inl (Bad_Store ?i)" using oob by (auto simp: store_def)
    then have "process_line env c txt = Inl (Bad_Store ?i)"
      using st oob by (simp add: process_line_def parse_content_def)
    ultimately show ?thesis using fault by blast
  next
    case all
    let ?c = "c\<lparr>read_buf := (read_buf c)[nat ?i := NUL]\<rparr>"
    obtain u where "url ?c = Some u" "is_ok (cstr (read_buf c) u)" "file_inv ?c"
      using inv st by (fastforce simp: http_inv_def url_inv_def file_inv_def)
    moreover from this have "is_ok (cstr (read_buf ?c) u)"
      using cstr_store_nul_ok[of "read_buf c" u "nat ?i"] by simp
    ultimately obtain c' r where "finish env ?c = Inr (c', Done r)" "r \<noteq> NO_REQUEST"
      using finish_ok[of ?c u env] by blast
    then show ?thesis
      using final[of c' r] st all by (simp add: process_line_def parse_content_def store_def)
  qed
qed

lemma process_line_cases:
  assumes li: "http_inv (c1\<lparr>start_line := chk_idx c1\<rparr>)"
    and le: "start_line c1 \<le> chk_idx c1"
    and tx: "chk_state c1 \<noteq> CHECK_STATE_CONTENT \<longrightarrow> is_ok (cstr (read_buf c1) (get_line c1))
       \<and> (\<forall>s. cstr (read_buf c1) (get_line c1) = Inr s \<longrightarrow> start_line c1 + length s + 2 \<le> chk_idx c1)"
  shows "(\<exists>f. process_line env (c1\<lparr>start_line := chk_idx c1\<rparr>) (get_line c1) = Inl f \<and> body_fault f)
    \<or> (\<exists>c2 r. process_line env (c1\<lparr>start_line := chk_idx c1\<rparr>) (get_line c1) = Inr (c2, Done r) \<and> r \<noteq> NO_REQUEST)
    \<or> (\<exists>c2 st. process_line env (c1\<lparr>start_line := chk_idx c1\<rparr>) (get_line c1) = Inr (c2, Next st) \<and> http_inv c2)"
proof (cases "chk_state c1")
  case CHECK_STATE_REQUEST_LINE
  then obtain s where s: "cstr (read_buf (c1\<lparr>start_line := chk_idx c1\<rparr>)) (get_line c1) = Inr s"
    "get_line c1 + length s + 2 \<le> start_line (c1\<lparr>start_line := chk_idx c1\<rparr>)"
    using tx by (auto simp: is_ok_iff get_line_def)
  show ?thesis
    by (rule request_line_step[OF li _ s, of env]) (auto simp: CHECK_STATE_REQUEST_LINE)
next
  case CHECK_STATE_HEADER
  then obtain s where s: "cstr (read_buf (c1\<lparr>start_line := chk_idx c1\<rparr>)) (get_line c1) = Inr s"
    using tx by (auto simp: is_ok_iff)
  show ?thesis
    by (rule header_step[OF li _ s, of env]) (auto simp: CHECK_STATE_HEADER)
next
  case CHECK_STATE_CONTENT
  have t: "get_line c1 \<le> chk_idx (c1\<lparr>start_line := chk_idx c1\<rparr>)" using le by (simp add: get_line_def)
  show ?thesis
    by (rule content_step[OF li _ t, of env]) (use CHECK_STATE_CONTENT li in auto)
qed

lemma process_read_loop_inv:
  assumes "http_inv c"
  shows "(\<forall>f. process_read_loop env c st = Inl f \<longrightarrow> body_fault f)
    \<and> (\<forall>c'. process_read_loop env c st = Inr (c', NO_REQUEST) \<longrightarrow> http_inv c')"
  using assms
proof (induction env c st rule: process_read_loop.induct)
  case (1 env c st)
  show ?case
  proof (rule next_line_inv[OF "1.prems", of st], goal_cases)
    case (1 c1 st1)
    then show ?case by (subst (1 2) process_read_loop.simps) simp
  next
    case (2 c1)
    note nl = 2
    let ?pl = "process_line env (c1\<lparr>start_line := chk_idx c1\<rparr>) (get_line c1)"
    show ?case
    proof (cases "cstr (read_buf c1) (get_line c1)")
      case (Inl f)
      then have "body_fault f" by (auto simp: cstr_def body_fault_def split: if_splits)
      then show ?thesis using Inl nl(1) by (subst (1 2) process_read_loop.simps) simp
    next
      case (Inr printed)
    have loop: "process_read_loop env c st = bindR ?pl (\<lambda>(c2, s).
        case s of Done ret \<Rightarrow> Inr (c2, ret) | Next st2 \<Rightarrow> process_read_loop env c2 st2)"
      using nl(1) Inr by (subst process_read_loop.simps) simp
    have "(\<exists>f. ?pl = Inl f \<and> body_fault f) \<or> (\<exists>c2 r. ?pl = Inr (c2, Done r) \<and> r \<noteq> NO_REQUEST)
      \<or> (\<exists>c2 st. ?pl = Inr (c2, Next st) \<and> http_inv c2)"
      by (rule process_line_cases) (use nl in simp_all)
    then consider (f) f where "?pl = Inl f" "body_fault f"
      | (d) c2 r where "?pl = Inr (c2, Done r)" "r \<noteq> NO_REQUEST"
      | (n) c2 st2 where "?pl = Inr (c2, Next st2)" "http_inv c2" by blast
    then show ?thesis
    proof cases
      case f
      then show ?thesis by (simp add: loop)
    next
      case d
      then show ?thesis by (simp add: loop)
    next
      case n
      have "(\<forall>f. process_read_loop env c2 st2 = Inl f \<longrightarrow> body_fault f)
        \<and> (\<forall>c'. process_read_loop env c2 st2 = Inr (c', NO_REQUEST) \<longrightarrow> http_inv c')"
        by (rule "1.IH"[OF nl(1) refl _ Inr n(1) refl refl n(2)]) simp
      then show ?thesis using n(1) by (simp add: loop)
    qed
    qed
  qed
qed


text \<open>
  When \<open>process_read\<close> asks for more input the invariant holds again, so the next call may
  start from the state it left.
\<close>

theorem process_read_keeps_inv:
  assumes "http_inv c" and "process_read env c = Inr (c', NO_REQUEST)"
  shows "http_inv c'"
  using process_read_loop_inv[OF assms(1), of env LINE_OK] assms(2) by (simp add: process_read_def)

lemma http_inv_sample: "length t \<le> READ_BUF_SIZE \<Longrightarrow> http_inv (sample_conn t)"
  using line_inv_sample[of t]
  by (simp add: http_inv_def url_inv_def file_inv_def sample_conn_def FILE_NAME_LEN_def)

lemma http_inv_sample_body: "http_inv (sample_body_conn n)"
proof -
  have "cstr (read_buf (sample_body_conn n)) 0 = Inr ''/''"
    by (auto simp: sample_body_conn_def cstr_iff intro!: exI[of _ "replicate 2046 NUL"] simp flip: replicate_Suc)
  then show ?thesis
    by (auto simp: http_inv_def url_inv_def file_inv_def line_inv_def sample_body_conn_def sample_conn_def
        FILE_NAME_LEN_def READ_BUF_SIZE_def)
qed

text \<open>A body whose announced length is negative: the store goes in front of the buffer.\<close>

lemma negative_length_aux:
  assumes "chk_state c = CHECK_STATE_CONTENT" and "content_length c < - int (start_line c)"
    and "is_ok (cstr (read_buf c) (start_line c))" and "chk_idx c \<le> read_idx c" and "chk_idx c < 2048"
  shows "process_read env c = Inl (Bad_Store (int (start_line c) + content_length c))"
proof -
  have "process_line env (c\<lparr>start_line := chk_idx c\<rparr>) (start_line c)
      = Inl (Bad_Store (int (start_line c) + content_length c))"
    using assms by (simp add: process_line_def parse_content_def store_def INT_MAX_def)
  then show ?thesis
    using assms(1,3) unfolding is_ok_iff
    by (elim exE) (simp add: process_read_def process_read_loop.simps next_line_def get_line_def)
qed

lemma sample_body_printed: "is_ok (cstr (read_buf (sample_body_conn n)) (start_line (sample_body_conn n)))"
proof -
  have "cstr (read_buf (sample_body_conn n)) 2 = Inr []"
    by (auto simp: cstr_iff sample_body_conn_def drop_Cons' intro!: exI[of _ "replicate 2045 NUL"]
        simp flip: replicate_Suc)
  then show ?thesis by (simp add: sample_body_conn_def)
qed


theorem process_read_keeps_inv_witness:
  "\<exists>c'. process_read sample_env (sample_conn []) = Inr (c', NO_REQUEST) \<and> http_inv c'"
proof -
  have i: "http_inv (sample_conn [])" by (rule http_inv_sample) simp
  have "parse_line (sample_conn []) = Inr (sample_conn [], LINE_OPEN)"
    by (simp add: parse_line.simps sample_conn_def)
  then have p: "process_read sample_env (sample_conn []) = Inr (sample_conn [], NO_REQUEST)"
    by (simp add: process_read_def process_read_loop.simps next_line_def sample_conn_def)
  show ?thesis using process_read_keeps_inv[OF i p] p by blast
qed

text \<open>
  The content length is not checked: with a negative one that reaches beyond the start of
  the body, \<open>process_read\<close> writes a NUL in front of the read buffer.
\<close>

theorem negative_length_stores_before_buffer:
  assumes "chk_state c = CHECK_STATE_CONTENT" and "content_length c < - int (start_line c)"
    and "is_ok (cstr (read_buf c) (start_line c))" and "chk_idx c \<le> read_idx c" and "chk_idx c < 2048"
  shows "process_read env c = Inl (Bad_Store (int (start_line c) + content_length c))"
  by (rule negative_length_aux[OF assms])

theorem negative_length_stores_before_buffer_witness:
  "process_read sample_env (sample_body_conn (-100)) = Inl (Bad_Store (-98))"
  by (subst negative_length_stores_before_buffer[OF _ _ sample_body_printed]) (simp_all add: sample_body_conn_def)

end
