(* ===== verification/Http_IO.thy ===== *)
theory Http_IO
  imports Http_Safety
begin

text \<open>
  The rest of class \<open>http_conn\<close> (85\_process\_pool\_thread\_pool/http\_conn.h): opening and closing
  a connection, the non-blocking \<open>read\<close> and \<open>write\<close>, building the response in the write buffer
  and \<open>process\<close>, which a worker thread runs. The static members \<open>_epfd\<close> and \<open>_user_cnt\<close> are not
  part of the object: the calls on the epoll descriptor are recorded, and the counter is passed
  and returned.
\<close>

subsection \<open>Opening and closing\<close>

definition add_fd2 :: "int \<Rightarrow> bool \<Rightarrow> sys_call list" where
  "add_fd2 fd one_shot =
     [Epoll_Add fd (EPOLLIN OR EPOLLET OR EPOLLRDHUP OR (if one_shot then EPOLLONESHOT else 0)),
      Set_Nonblock fd]"

definition remove_fd2 :: "int \<Rightarrow> sys_call list" where
  "remove_fd2 fd = [Epoll_Del fd, Close fd]"

definition mod_fd2 :: "int \<Rightarrow> 32 word \<Rightarrow> sys_call list" where
  "mod_fd2 fd ev = [Epoll_Mod fd (ev OR EPOLLET OR EPOLLONESHOT OR EPOLLRDHUP)]"

definition open_conn :: "int \<Rightarrow> http_conn \<Rightarrow> int \<Rightarrow> http_conn \<times> sys_call list \<times> int" where
  "open_conn fd c cnt =
     (init_conn (c\<lparr>conn_fd := fd\<rparr>), Setsockopt_Reuse fd # add_fd2 fd True, cnt + 1)"

definition close_conn :: "bool \<Rightarrow> http_conn \<Rightarrow> int \<Rightarrow> http_conn \<times> sys_call list \<times> int" where
  "close_conn real_close c cnt =
     (if real_close \<and> conn_fd c \<noteq> -1 then (c\<lparr>conn_fd := -1\<rparr>, remove_fd2 (conn_fd c), cnt - 1) else (c, [], cnt))"

subsection \<open>Reading\<close>

text \<open>The loop ends with \<open>EAGAIN\<close> (everything was read), an error, or a return value of 0.\<close>

function read_loop :: "http_conn \<Rightarrow> recv_event list \<Rightarrow> (http_conn \<times> recv_event list \<times> bool) result" where
  "read_loop c es =
     (case recv (READ_BUF_SIZE - read_idx c) es of
        (Bytes d, es') \<Rightarrow>
          bindR (blit (read_buf c) (read_idx c) d) (\<lambda>b.
            read_loop (c\<lparr>read_buf := b, read_idx := read_idx c + length d\<rparr>) es')
      | (Closed, es') \<Rightarrow> Inr (c, es', False)
      | (Failed e, es') \<Rightarrow> Inr (c, es', e = EAGAIN))"
  by pat_completeness auto
termination
  by (relation "measure (\<lambda>(c, es). script_size es)") (auto dest!: recv_Bytes_size[OF sym])

declare read_loop.simps [simp del]

definition read_conn :: "http_conn \<Rightarrow> recv_event list \<Rightarrow> (http_conn \<times> recv_event list \<times> bool) result" where
  "read_conn c es = (if READ_BUF_SIZE \<le> read_idx c then Inr (c, es, False) else read_loop c es)"

subsection \<open>Writing\<close>

text \<open>The bytes an entry of \<open>_iov\<close> points at; \<open>writev\<close> sends from the first entry on.\<close>

definition base_bytes :: "http_conn \<Rightarrow> iov_base \<Rightarrow> string" where
  "base_bytes c b =
     (case b of Write_Buf \<Rightarrow> write_buf c
      | File_Addr \<Rightarrow> (case file_addr c of Mapped d \<Rightarrow> d | _ \<Rightarrow> []))"

definition iov_bytes :: "http_conn \<Rightarrow> string" where
  "iov_bytes c = concat (map (\<lambda>(b, n). take (nat n) (base_bytes c b)) (take (iov_cnt c) (iov c)))"

definition unmap :: "http_conn \<Rightarrow> http_conn \<times> sys_call list" where
  "unmap c = (if file_addr c \<noteq> Null_File then (c\<lparr>file_addr := Null_File\<rparr>, [Munmap]) else (c, []))"

text \<open>
  The result is the connection, the calls made, and what \<open>write\<close> returns. The members \<open>_iov\<close> are
  not changed between two \<open>writev\<close> calls. A kernel that accepts nothing more answers \<open>EAGAIN\<close>.
\<close>

fun write_loop :: "http_conn \<Rightarrow> int \<Rightarrow> int \<Rightarrow> send_event list \<Rightarrow> http_conn \<times> sys_call list \<times> bool" where
  "write_loop c have_send to_send [] = (c, mod_fd2 (conn_fd c) EPOLLOUT, True)"
| "write_loop c have_send to_send (Send_Err e # rs) =
     (if e = EAGAIN then (c, mod_fd2 (conn_fd c) EPOLLOUT, True)
      else (let (c', k) = unmap c in (c', k, False)))"
| "write_loop c have_send to_send (Sent n # rs) =
     (let tmp = min n (length (iov_bytes c));
          out = Send (conn_fd c) (take tmp (iov_bytes c));
          to_send' = to_send - int tmp; have_send' = have_send + int tmp
      in if to_send' \<le> have_send' then
           (let (c', k) = unmap c
            in if linger c' then (init_conn c', out # k @ mod_fd2 (conn_fd c) EPOLLIN, True)
               else (c', out # k @ mod_fd2 (conn_fd c) EPOLLIN, False))
         else (let (c', k, r) = write_loop c have_send' to_send' rs in (c', out # k, r)))"

definition write_conn :: "http_conn \<Rightarrow> send_event list \<Rightarrow> http_conn \<times> sys_call list \<times> bool" where
  "write_conn c rs =
     (if write_idx c = 0 then (init_conn c, mod_fd2 (conn_fd c) EPOLLIN, True)
      else write_loop c 0 (int (write_idx c)) rs)"

subsection \<open>The response\<close>

definition ok_200_title :: string where "ok_200_title = ''ok''"
definition error_400_title :: string where "error_400_title = ''bad request''"
definition error_400_form :: string where
  "error_400_form = ''you request has bad syntax or is inherently impossible to satisfy.'' @ [LF]"
definition error_403_title :: string where "error_403_title = ''forbidden''"
definition error_403_form :: string where
  "error_403_form = ''you do not hav permission to get file from this server.'' @ [LF]"
definition error_404_title :: string where "error_404_title = ''not found''"
definition error_404_form :: string where
  "error_404_form = ''the requested file was not found on this server.'' @ [LF]"
definition error_500_title :: string where "error_500_title = ''internal error''"
definition error_500_form :: string where
  "error_500_form = ''there was an unusual problem serving the requested file.'' @ [LF]"

lemmas title_defs = ok_200_title_def error_400_title_def error_403_title_def error_404_title_def
  error_500_title_def
lemmas form_defs = error_400_form_def error_403_form_def error_404_form_def error_500_form_def

text \<open>\<open>add_response\<close>, given the text its format and arguments produce.\<close>

definition add_response :: "http_conn \<Rightarrow> string \<Rightarrow> (http_conn \<times> bool) result" where
  "add_response c s =
     (if WRITE_BUF_SIZE \<le> write_idx c then Inr (c, False)
      else bindR (vsnprintf (write_buf c) (write_idx c) (WRITE_BUF_SIZE - 1 - write_idx c) s) (\<lambda>(b, len).
        if WRITE_BUF_SIZE - 1 - write_idx c \<le> len then Inr (c\<lparr>write_buf := b\<rparr>, False)
        else Inr (c\<lparr>write_buf := b, write_idx := write_idx c + len\<rparr>, True)))"

definition status_line :: "int \<Rightarrow> string \<Rightarrow> string" where
  "status_line status title = ''HTTP/1.1 '' @ dec_int status @ '' '' @ title @ CRLF"

definition content_length_line :: "int \<Rightarrow> string" where
  "content_length_line n = ''Content-Length: '' @ dec_int n @ CRLF"

definition linger_line :: "bool \<Rightarrow> string" where
  "linger_line l = ''Connection: '' @ (if l then ''keep-alive'' else ''close'') @ CRLF"

definition add_status_line :: "http_conn \<Rightarrow> int \<Rightarrow> string \<Rightarrow> (http_conn \<times> bool) result" where
  "add_status_line c status title = add_response c (status_line status title)"

definition add_content :: "http_conn \<Rightarrow> string \<Rightarrow> (http_conn \<times> bool) result" where
  "add_content c content = add_response c content"

text \<open>\<open>add_headers\<close> takes an \<open>int\<close> and ignores what its three calls return.\<close>

definition add_headers :: "http_conn \<Rightarrow> int \<Rightarrow> (http_conn \<times> bool) result" where
  "add_headers c n =
     bindR (add_response c (content_length_line (to_int32 n))) (\<lambda>(c1, _).
     bindR (add_response c1 (linger_line (linger c1))) (\<lambda>(c2, _).
     bindR (add_response c2 CRLF) (\<lambda>(c3, _). Inr (c3, True))))"

definition write_only_iov :: "http_conn \<Rightarrow> http_conn" where
  "write_only_iov c = c\<lparr>iov := (iov c)[0 := (Write_Buf, int (write_idx c))], iov_cnt := 1\<rparr>"

definition error_response :: "http_conn \<Rightarrow> int \<Rightarrow> string \<Rightarrow> string \<Rightarrow> (http_conn \<times> bool) result" where
  "error_response c status title form =
     bindR (add_status_line c status title) (\<lambda>(c1, _).
     bindR (add_headers c1 (int (length form))) (\<lambda>(c2, _).
     bindR (add_content c2 form) (\<lambda>(c3, ok).
       if ok then Inr (write_only_iov c3, True) else Inr (c3, False))))"

definition ok_string :: string where "ok_string = ''<html><body></body></html>''"

text \<open>In the case of an empty file the switch falls through to \<open>default\<close>, which returns false.\<close>

definition process_write :: "http_conn \<Rightarrow> HTTP_CODE \<Rightarrow> (http_conn \<times> bool) result" where
  "process_write c ret =
     (case ret of
        INTERNAL_ERROR \<Rightarrow> error_response c 500 error_500_title error_500_form
      | BAD_REQUEST \<Rightarrow> error_response c 400 error_400_title error_400_form
      | NO_RESOURCE \<Rightarrow> error_response c 404 error_404_title error_404_form
      | FORBIDDEN_REQUEST \<Rightarrow> error_response c 403 error_403_title error_403_form
      | FILE_REQUEST \<Rightarrow>
          bindR (add_status_line c 200 ok_200_title) (\<lambda>(c1, _).
          if st_size (file_stat c1) \<noteq> 0 then
            bindR (add_headers c1 (st_size (file_stat c1))) (\<lambda>(c2, _).
              Inr (c2\<lparr>iov := [(Write_Buf, int (write_idx c2)), (File_Addr, st_size (file_stat c2))],
                      iov_cnt := 2\<rparr>, True))
          else
            bindR (add_headers c1 (int (length ok_string))) (\<lambda>(c2, _).
            bindR (add_content c2 ok_string) (\<lambda>(c3, _). Inr (c3, False))))
      | _ \<Rightarrow> Inr (c, False))"

subsection \<open>The work of a thread\<close>

definition process_conn :: "fs_env \<Rightarrow> http_conn \<Rightarrow> int \<Rightarrow> (http_conn \<times> sys_call list \<times> int) result" where
  "process_conn env c cnt =
     bindR (process_read env c) (\<lambda>(c1, ret).
     if ret = NO_REQUEST then Inr (c1, mod_fd2 (conn_fd c1) EPOLLIN, cnt)
     else bindR (process_write c1 ret) (\<lambda>(c2, w_ret).
       let (c3, k, cnt') = (if w_ret then (c2, [], cnt) else close_conn True c2 cnt)
       in Inr (c3, k @ mod_fd2 (conn_fd c3) EPOLLOUT, cnt')))"

end
