(* ===== verification/Http_Message.thy ===== *)
theory Http_Message
  imports Http_IO
begin

text \<open>
  Whole requests: what \<open>process_read\<close> does with a request line, any number of header lines and
  the empty line, and what it does with a line that is not well formed.
\<close>

subsection \<open>One line at a time\<close>

definition clean_line :: "string \<Rightarrow> bool" where
  "clean_line l \<longleftrightarrow> (\<forall>ch \<in> set l. plain ch \<and> ch \<noteq> NUL)"

text \<open>The connection is at the start of a line and the unscanned input is \<open>w\<close>.\<close>

definition at_line :: "http_conn \<Rightarrow> string \<Rightarrow> bool" where
  "at_line c w \<longleftrightarrow> http_inv c \<and> start_line c = chk_idx c \<and> window c = w"

text \<open>The members that looking for a line end does not touch.\<close>

definition out_part :: "http_conn \<Rightarrow> char list \<times> nat \<times> (iov_base \<times> int) list \<times> int" where
  "out_part c = (write_buf c, write_idx c, iov c, conn_fd c)"

definition same_request :: "http_conn \<Rightarrow> http_conn \<Rightarrow> bool" where
  "same_request c c' \<longleftrightarrow> chk_state c' = chk_state c \<and> linger c' = linger c
     \<and> content_length c' = content_length c \<and> url c' = url c \<and> out_part c' = out_part c"

lemma takeWhile_plain_line: "clean_line l \<Longrightarrow> takeWhile plain (l @ CR # w) = l"
  unfolding clean_line_def by (induction l) (auto simp: plain_def)

lemma line_text_at_line:
  assumes "at_line c (l @ CRLF @ w)" and "clean_line l"
  shows "line_text c = l"
proof -
  have k: "length (takeWhile plain (window c)) = length l"
    using assms takeWhile_plain_line[of l "LF # w"] by (simp add: at_line_def)
  have w: "window c = l @ CRLF @ w" and n: "length (window c) = read_idx c - chk_idx c"
    using assms(1) length_window[of c] by (auto simp: at_line_def http_inv_def)
  then have "length l \<le> read_idx c - chk_idx c" by simp
  then have "take (length l) (drop (chk_idx c) (read_buf c)) = take (length l) (window c)"
    by (simp only: window_def take_take min_absorb1)
  also have "\<dots> = l" by (simp add: w)
  finally have t: "take (length l) (drop (chk_idx c) (read_buf c)) = l" .
  have "start_line c = chk_idx c" using assms(1) by (simp add: at_line_def)
  then have "line_text c = takeWhile (\<lambda>ch. ch \<noteq> NUL) l" by (simp add: line_text_def k t)
  also have "\<dots> = l" using assms(2) by (simp add: clean_line_def takeWhile_eq_all_conv)
  finally show ?thesis .
qed

lemma next_line_ok:
  assumes a: "at_line c (l @ CRLF @ w)" and l: "clean_line l"
    and st: "chk_state c \<noteq> CHECK_STATE_CONTENT"
  obtains c1 where "next_line c LINE_OK = Inr (c1, LINE_OK)"
    "at_line (c1\<lparr>start_line := chk_idx c1\<rparr>) w" "get_line c1 = start_line c"
    "cstr (read_buf c1) (start_line c) = Inr l" "start_line c + length l + 2 \<le> chk_idx c1"
    "same_request c (c1\<lparr>start_line := chk_idx c1\<rparr>)"
proof -
  have li: "line_inv c" and inv: "http_inv c" and win: "window c = l @ CRLF @ w"
    using a by (auto simp: at_line_def http_inv_def)
  let ?k = "length l" and ?i = "chk_idx c + length l"
  define c1 where "c1 = c\<lparr>read_buf := cut2 (read_buf c) ?i, chk_idx := ?i + 2\<rparr>"
  have sp: "line_spec c = (c1, LINE_OK)"
    using takeWhile_plain_line[OF l, of "LF # w"] win
    by (simp add: line_spec_def Let_def c1_def nth_append)
  have nl: "next_line c LINE_OK = Inr (c1, LINE_OK)"
    using st parse_line_spec_aux[OF li] sp by (simp add: next_line_def)
  note ok = line_spec_ok[OF li sp]
  have "http_inv (c1\<lparr>start_line := chk_idx c1\<rparr>)"
    using next_line_inv[OF inv, of LINE_OK] nl by auto
  moreover have "window (c1\<lparr>start_line := chk_idx c1\<rparr>) = w"
  proof -
    have "read_idx c - chk_idx c = ?k + 2 + length w" using length_window[OF li] win by simp
    then have r: "read_idx c - (?i + 2) = length w" by simp
    have "window (c1\<lparr>start_line := chk_idx c1\<rparr>) = take (length w) (drop (?i + 2) (read_buf c))"
      by (simp add: window_def c1_def cut2_def r del: add_2_eq_Suc')
    also have "\<dots> = drop (?k + 2) (window c)"
      using \<open>read_idx c - chk_idx c = _\<close> by (simp add: window_def drop_take add.commute)
    finally show ?thesis by (simp add: win)
  qed
  ultimately have "at_line (c1\<lparr>start_line := chk_idx c1\<rparr>) w" by (simp add: at_line_def)
  then show ?thesis
    using that[of c1] nl ok(2,3) line_text_at_line[OF a l] 
    by (simp add: get_line_def c1_def same_request_def out_part_def)
qed

lemma window_eq:
  "read_buf c' = read_buf c \<Longrightarrow> read_idx c' = read_idx c \<Longrightarrow> chk_idx c' = chk_idx c \<Longrightarrow> window c' = window c"
  by (simp add: window_def)

subsection \<open>The headers\<close>

text \<open>What a header line does to \<open>_linger\<close> and \<open>_content_length\<close>.\<close>

fun hdr_step :: "string \<Rightarrow> bool \<times> int \<Rightarrow> bool \<times> int" where
  "hdr_step h (l, n) =
     (if header_name_is h ''Connection:''
      then (same_case (value_of h ''Connection:'') ''keep-alive'' \<or> l, n)
      else if header_name_is h ''Content-Length:''
      then (l, to_int32 (atol_str (value_of h ''Content-Length:'')))
      else (l, n))"

declare hdr_step.simps [simp del]

definition url_is :: "http_conn \<Rightarrow> string \<Rightarrow> bool" where
  "url_is c s \<longleftrightarrow> (\<exists>u. url c = Some u \<and> cstr (read_buf c) u = Inr s \<and> u + length s < start_line c)"

lemma header_effect_hdr_step:
  assumes "h \<noteq> []"
  shows "\<exists>c'. header_effect c t h = (c', NO_REQUEST)
    \<and> (linger c', content_length c') = hdr_step h (linger c, content_length c)
    \<and> read_buf c' = read_buf c \<and> read_idx c' = read_idx c \<and> chk_idx c' = chk_idx c
    \<and> start_line c' = start_line c \<and> url c' = url c \<and> chk_state c' = chk_state c \<and> out_part c' = out_part c"
  using assms by (simp add: header_effect_def out_part_def hdr_step.simps)

lemma url_is_same_prefix:
  assumes "url_is c s" and "take (start_line c) b = take (start_line c) (read_buf c)"
    and "length b = length (read_buf c)" and "url c' = url c" and "read_buf c' = b"
    and "start_line c \<le> start_line c'"
  shows "url_is c' s"
  using assms cstr_same_prefix[of "read_buf c" _ s "start_line c" b] by (fastforce simp: url_is_def)

lemma next_line_prefix:
  assumes "http_inv c" and "next_line c LINE_OK = Inr (c1, LINE_OK)" and "chk_state c \<noteq> CHECK_STATE_CONTENT"
  shows "take (start_line c) (read_buf c1) = take (start_line c) (read_buf c)
    \<and> length (read_buf c1) = length (read_buf c) \<and> start_line c \<le> chk_idx c1"
proof -
  have li: "line_inv c" using assms(1) by (simp add: http_inv_def)
  have sp: "line_spec c = (c1, LINE_OK)"
    using assms(2,3) parse_line_spec_aux[OF li] by (simp add: next_line_def)
  show ?thesis
    using line_spec_ok(4)[OF li sp] line_spec_bounds[OF li sp] li by (auto simp: line_inv_def)
qed

lemma loop_line:
  assumes "next_line c LINE_OK = Inr (c1, LINE_OK)" and "cstr (read_buf c1) (get_line c1) = Inr s"
  shows "process_read_loop env c LINE_OK =
    bindR (process_line env (c1\<lparr>start_line := chk_idx c1\<rparr>) (get_line c1)) (\<lambda>(c2, s).
      case s of Done ret \<Rightarrow> Inr (c2, ret) | Next st2 \<Rightarrow> process_read_loop env c2 st2)"
  using assms by (subst process_read_loop.simps) simp

lemma headers_run:
  assumes "at_line c (concat (map (\<lambda>h. h @ CRLF) hs) @ CRLF @ w)"
    and "chk_state c = CHECK_STATE_HEADER" and "\<forall>h \<in> set hs. clean_line h \<and> h \<noteq> []"
    and "fold hdr_step hs (linger c, content_length c) = (lg, 0)" and "url_is c s"
  shows "\<exists>c3. process_read_loop env c LINE_OK = Inr (request_file env c3 (request_path s))
    \<and> linger c3 = lg \<and> out_part c3 = out_part c \<and> cstr (real_file c3) 0 = Inr (request_path s)"
  using assms
proof (induction hs arbitrary: c)
  case Nil
  have cl: "clean_line []" by (simp add: clean_line_def)
  have a: "at_line c ([] @ CRLF @ w)" using Nil.prems(1) by simp
  obtain c1 where nl: "next_line c LINE_OK = Inr (c1, LINE_OK)"
    and al: "at_line (c1\<lparr>start_line := chk_idx c1\<rparr>) w" and g: "get_line c1 = start_line c"
    and s0: "cstr (read_buf c1) (start_line c) = Inr []"
    and sr: "same_request c (c1\<lparr>start_line := chk_idx c1\<rparr>)"
    by (rule next_line_ok[OF a cl]) (use Nil.prems(2) in auto)
  have s1: "cstr (read_buf c1) (get_line c1) = Inr []" using s0 g by simp
  let ?c = "c1\<lparr>start_line := chk_idx c1\<rparr>"
  have inv: "http_inv c" using Nil.prems(1) by (simp add: at_line_def)
  have f: "chk_state ?c = CHECK_STATE_HEADER" "content_length ?c = 0" "linger ?c = lg" "url ?c = url c"
    "out_part ?c = out_part c"
    using sr Nil.prems(2,4) by (simp_all add: same_request_def)
  have u: "url_is ?c s"
    by (rule url_is_same_prefix[OF Nil.prems(5), of "read_buf c1"])
      (use next_line_prefix[OF inv nl] Nil.prems(2) f in auto)
  then obtain p where p: "url ?c = Some p" "cstr (read_buf ?c) p = Inr s" by (auto simp: url_is_def)
  have fi: "file_inv ?c" using al by (simp add: at_line_def http_inv_def)
  have "parse_headers ?c (start_line c) = Inr (?c, GET_REQUEST)"
    using parse_headers_effect[of ?c "start_line c" "[]"] s0 f by (simp add: header_effect_def)
  then have pl: "process_line env ?c (get_line c1) = finish env ?c"
    using f g by (simp add: process_line_def)
  show ?case
    using do_request_aux[OF p fi, of env] f
    by (cases "do_request env ?c") (auto simp: loop_line[OF nl s1] pl finish_def out_part_def)
next
  case (Cons h hs)
  let ?w = "concat (map (\<lambda>h. h @ CRLF) hs) @ CRLF @ w"
  have cl: "clean_line h" "h \<noteq> []" using Cons.prems(3) by auto
  have a: "at_line c (h @ CRLF @ ?w)" using Cons.prems(1) by simp
  obtain c1 where nl: "next_line c LINE_OK = Inr (c1, LINE_OK)"
    and al: "at_line (c1\<lparr>start_line := chk_idx c1\<rparr>) ?w" and g: "get_line c1 = start_line c"
    and s0: "cstr (read_buf c1) (start_line c) = Inr h"
    and sr: "same_request c (c1\<lparr>start_line := chk_idx c1\<rparr>)"
    by (rule next_line_ok[OF a cl(1)]) (use Cons.prems(2) in auto)
  have s1: "cstr (read_buf c1) (get_line c1) = Inr h" using s0 g by simp
  let ?c = "c1\<lparr>start_line := chk_idx c1\<rparr>"
  have inv: "http_inv c" using Cons.prems(1) by (simp add: at_line_def)
  have st: "chk_state ?c = CHECK_STATE_HEADER" using sr Cons.prems(2) by (simp add: same_request_def)
  have u: "url_is ?c s"
    by (rule url_is_same_prefix[OF Cons.prems(5), of "read_buf c1"])
      (use next_line_prefix[OF inv nl] Cons.prems(2) sr in \<open>auto simp: same_request_def\<close>)
  obtain c2 where e: "header_effect ?c (start_line c) h = (c2, NO_REQUEST)"
    and h: "(linger c2, content_length c2) = hdr_step h (linger ?c, content_length ?c)"
    and f: "read_buf c2 = read_buf ?c" "read_idx c2 = read_idx ?c" "chk_idx c2 = chk_idx ?c"
      "start_line c2 = start_line ?c" "url c2 = url ?c" "chk_state c2 = chk_state ?c" "out_part c2 = out_part ?c"
    using header_effect_hdr_step[OF cl(2), of ?c "start_line c"] by blast
  have "parse_headers ?c (start_line c) = Inr (c2, NO_REQUEST)"
    using parse_headers_effect[of ?c "start_line c" h] s0 e by simp
  then have pl: "process_line env ?c (get_line c1) = Inr (c2, Next LINE_OK)"
    using st g by (simp add: process_line_def)
  have "http_inv c2" using header_effect_inv[OF _ st e] al by (simp add: at_line_def)
  then have "at_line c2 ?w" using al f window_eq[of c2 ?c] by (simp add: at_line_def)
  moreover have "url_is c2 s" using u f by (simp add: url_is_def)
  moreover have "fold hdr_step hs (linger c2, content_length c2) = (lg, 0)"
    using Cons.prems(4) h sr by (simp add: same_request_def)
  ultimately obtain c3 where "process_read_loop env c2 LINE_OK = Inr (request_file env c3 (request_path s))"
    "linger c3 = lg" "out_part c3 = out_part c2" "cstr (real_file c3) 0 = Inr (request_path s)"
    using Cons.IH[of c2] Cons.prems(3) st f by auto
  then show ?case
    using sr f by (auto simp: loop_line[OF nl s1] pl same_request_def)
qed

lemma parse_request_line_out:
  "parse_request_line c t = Inr (c', r) \<Longrightarrow> out_part c' = out_part c \<and> linger c' = linger c
     \<and> content_length c' = content_length c"
  by (auto simp: parse_request_line_def check_version_url_def out_part_def Let_def elim!: bindR_InrE
      split: option.split_asm if_split_asm)

lemma process_read_request_aux:
  assumes "at_line c (l @ CRLF @ concat (map (\<lambda>h. h @ CRLF) hs) @ CRLF @ w)"
    and "chk_state c = CHECK_STATE_REQUEST_LINE"
    and "clean_line l" and "valid_request_line l"
    and "\<forall>h \<in> set hs. clean_line h \<and> h \<noteq> []"
    and "fold hdr_step hs (linger c, content_length c) = (lg, 0)"
  shows "\<exists>c3. process_read env c = Inr (request_file env c3 (request_path (target_path (req_target l)))) \<and> linger c3 = lg
    \<and> out_part c3 = out_part c \<and> cstr (real_file c3) 0 = Inr (request_path (target_path (req_target l)))"
proof -
  define path where "path = request_path (target_path (req_target l))"
  let ?w = "concat (map (\<lambda>h. h @ CRLF) hs) @ CRLF @ w"
  obtain c1 where nl: "next_line c LINE_OK = Inr (c1, LINE_OK)"
    and al: "at_line (c1\<lparr>start_line := chk_idx c1\<rparr>) ?w" and g: "get_line c1 = start_line c"
    and s0: "cstr (read_buf c1) (start_line c) = Inr l" and t: "start_line c + length l + 2 \<le> chk_idx c1"
    and sr: "same_request c (c1\<lparr>start_line := chk_idx c1\<rparr>)"
    by (rule next_line_ok[OF assms(1,3)]) (use assms(2) in auto)
  have s1: "cstr (read_buf c1) (get_line c1) = Inr l" using s0 g by simp
  let ?c = "c1\<lparr>start_line := chk_idx c1\<rparr>"
  obtain c2 where p: "parse_request_line ?c (start_line c) = Inr (c2, NO_REQUEST)"
    and v: "chk_state c2 = CHECK_STATE_HEADER" "\<exists>u. url c2 = Some u \<and> start_line c \<le> u
      \<and> u + length (target_path (req_target l)) < start_line c + length l
      \<and> cstr (read_buf c2) u = Inr (target_path (req_target l))"
    and same: "\<forall>i. i < start_line c \<or> start_line c + length l \<le> i \<longrightarrow> read_buf c2 ! i = read_buf c1 ! i"
    and len: "length (read_buf c2) = length (read_buf c1)"
    using parse_request_line_spec_aux[of ?c "start_line c" l] s0 assms(4) by auto
  note fr = parse_request_line_frame[OF p] and o = parse_request_line_out[OF p]
  have pl: "process_line env ?c (get_line c1) = Inr (c2, Next LINE_OK)"
    using p g sr assms(2) by (simp add: process_line_def same_request_def)
  have inv: "http_inv c2"
    by (rule request_line_step[of ?c "start_line c" l env])
      (use al sr assms(2,4) s0 t pl g in \<open>auto simp: at_line_def same_request_def\<close>)
  have "window c2 = window ?c"
  proof -
    have "drop (chk_idx c1) (read_buf c2) = drop (chk_idx c1) (read_buf c1)"
      using same len t by (intro nth_equalityI) auto
    then show ?thesis using fr by (simp add: window_def)
  qed
  then have "at_line c2 ?w" using inv al fr by (simp add: at_line_def)
  moreover have "url_is c2 (target_path (req_target l))"
    using v(2) fr t by (fastforce simp: url_is_def)
  moreover have "fold hdr_step hs (linger c2, content_length c2) = (lg, 0)"
    using assms(6) o sr by (simp add: same_request_def)
  ultimately obtain c3 where "process_read_loop env c2 LINE_OK = Inr (request_file env c3 path)"
    "linger c3 = lg" "out_part c3 = out_part c2" "cstr (real_file c3) 0 = Inr path"
    using headers_run[of c2 hs w lg "target_path (req_target l)" env] v(1) assms(5)
    by (auto simp: path_def)
  then show ?thesis
    using sr o by (auto simp: process_read_def loop_line[OF nl s1] pl same_request_def path_def)
qed

text \<open>
  A complete request, in one piece: a valid request line, any number of non-empty header
  lines and the empty line. If the headers announce no body, \<open>process_read\<close> resolves the path of
  the target under the document root and returns what the file system says about it, with
  \<open>_linger\<close> set as the Connection headers ask; bytes after the empty line are not looked at.
\<close>

theorem process_read_request:
  assumes "at_line c (l @ CRLF @ concat (map (\<lambda>h. h @ CRLF) hs) @ CRLF @ w)"
    and "chk_state c = CHECK_STATE_REQUEST_LINE"
    and "clean_line l" and "valid_request_line l"
    and "\<forall>h \<in> set hs. clean_line h \<and> h \<noteq> []"
    and "fold hdr_step hs (linger c, content_length c) = (lg, 0)"
  shows "\<exists>c3. process_read env c = Inr (request_file env c3 (request_path (target_path (req_target l)))) \<and> linger c3 = lg
    \<and> out_part c3 = out_part c \<and> cstr (real_file c3) 0 = Inr (request_path (target_path (req_target l)))"
  by (rule process_read_request_aux[OF assms])

lemma at_line_sample: "length t \<le> READ_BUF_SIZE \<Longrightarrow> at_line (sample_conn t) t"
  using http_inv_sample[of t] by (simp add: at_line_def window_def sample_conn_def)

theorem process_read_request_witness:
  "\<exists>c. process_read sample_env (sample_conn (''GET /a HTTP/1.1'' @ CRLF @ ''Connection: keep-alive'' @ CRLF @ CRLF))
      = Inr (c, FILE_REQUEST) \<and> linger c \<and> file_addr c = Mapped ''hello''"
proof -
  let ?l = "''GET /a HTTP/1.1''" and ?h = "''Connection: keep-alive''"
  let ?t = "?l @ CRLF @ concat (map (\<lambda>h. h @ CRLF) [?h]) @ CRLF @ []"
  have a: "at_line (sample_conn ?t) ?t" by (rule at_line_sample) (simp add: READ_BUF_SIZE_def)
  have st: "chk_state (sample_conn ?t) = CHECK_STATE_REQUEST_LINE" by (simp add: sample_conn_def)
  have l: "clean_line ?l" by code_simp
  have v: "valid_request_line ?l" by code_simp
  have h: "\<forall>h \<in> set [?h]. clean_line h \<and> h \<noteq> []" by code_simp
  have "fold hdr_step [?h] (False, 0) = (True, 0)" by code_simp
  then have f: "fold hdr_step [?h] (linger (sample_conn ?t), content_length (sample_conn ?t)) = (True, 0)"
    by (simp add: sample_conn_def)
  have p: "request_path (target_path (req_target ?l)) = doc_root @ ''/a''" by code_simp
  have "S_ISDIR 0x81A4 = False" "(0x81A4 :: 32 word) AND S_IROTH \<noteq> 0" by code_simp+
  then have "request_file sample_env c (doc_root @ ''/a'') =
      (c\<lparr>file_stat := \<lparr>st_mode = 0x81A4, st_size = 5\<rparr>, file_addr := Mapped ''hello''\<rparr>, FILE_REQUEST)" for c
    by (simp add: request_file_def sample_env_def mmap_file_def)
  then show ?thesis
    using process_read_request[OF a st l v h f, of sample_env] unfolding p by auto
qed

end
