(* ===== verification/Http_Reply.thy ===== *)
theory Http_Reply
  imports Http_Message
begin

text \<open>
  The input and output sides of \<open>http_conn\<close>: \<open>read\<close> appends exactly the bytes that arrived and keeps
  the parser's invariant, \<open>process_write\<close> builds the response, \<open>write\<close> sends it, and \<open>process\<close>
  ties them together. The last part shows what the accounting of \<open>write\<close> gets wrong.
\<close>

subsection \<open>Reading\<close>

text \<open>The connection after the bytes \<open>d\<close> were received.\<close>

definition receive :: "http_conn \<Rightarrow> string \<Rightarrow> http_conn" where
  "receive c d = c\<lparr>read_buf := take (read_idx c) (read_buf c) @ d @ drop (read_idx c + length d) (read_buf c),
     read_idx := read_idx c + length d\<rparr>"

lemma receive_Nil [simp]: "receive c [] = c"
  by (simp add: receive_def)

lemma receive_receive:
  assumes "read_idx c + length d \<le> length (read_buf c)"
  shows "receive (receive c d) d' = receive c (d @ d')"
proof -
  have "min (length (read_buf c)) (read_idx c) = read_idx c" using assms by simp
  then show ?thesis by (simp add: receive_def add.assoc add.commute add.left_commute)
qed

lemma receive_same [simp]:
  "chk_idx (receive c d) = chk_idx c" "start_line (receive c d) = start_line c"
  "chk_state (receive c d) = chk_state c" "url (receive c d) = url c"
  "read_idx (receive c d) = read_idx c + length d" "real_file (receive c d) = real_file c"
  "write_idx (receive c d) = write_idx c" "conn_fd (receive c d) = conn_fd c"
  by (simp_all add: receive_def)

lemma take_receive:
  "j \<le> read_idx c \<Longrightarrow> read_idx c \<le> length (read_buf c) \<Longrightarrow> take j (read_buf (receive c d)) = take j (read_buf c)"
  by (simp add: receive_def min_def)

lemma length_receive:
  "read_idx c + length d \<le> length (read_buf c) \<Longrightarrow> length (read_buf (receive c d)) = length (read_buf c)"
  by (simp add: receive_def)

lemma receive_inv [inv_intros]:
  assumes inv: "http_inv c" and fits: "read_idx c + length d \<le> READ_BUF_SIZE"
  shows "http_inv (receive c d)"
proof -
  have li: "line_inv c" using inv by (simp add: http_inv_def)
  then have b: "length (read_buf c) = READ_BUF_SIZE" "start_line c \<le> chk_idx c" "chk_idx c \<le> read_idx c"
    by (auto simp: line_inv_def)
  have len: "length (read_buf (receive c d)) = length (read_buf c)"
    using length_receive fits b by simp
  have same: "read_buf (receive c d) ! i = read_buf c ! i" if "i < read_idx c" for i
    using that b fits by (simp add: receive_def nth_append)
  have "line_inv (receive c d)"
    using li same fits len by (auto simp: line_inv_def)
  moreover have "url_inv (receive c d)"
    unfolding url_inv_def
  proof (intro impI)
    assume "chk_state (receive c d) \<noteq> CHECK_STATE_REQUEST_LINE"
    then obtain u s where u: "url c = Some u" "cstr (read_buf c) u = Inr s" "u + length s < start_line c"
      using inv by (auto simp: http_inv_def url_inv_def)
    have "cstr (read_buf (receive c d)) u = Inr s"
      using cstr_same_prefix[OF u(2) take_receive u(3) len] b fits by simp
    then show "\<exists>u s. url (receive c d) = Some u \<and> cstr (read_buf (receive c d)) u = Inr s
        \<and> u + length s < start_line (receive c d)"
      using u by auto
  qed
  ultimately show ?thesis using inv by (simp add: http_inv_def file_inv_def)
qed

lemma window_receive:
  assumes "line_inv c" and "read_idx c + length d \<le> READ_BUF_SIZE"
  shows "window (receive c d) = window c @ d"
  using assms by (auto simp: window_def receive_def line_inv_def drop_take)

lemma read_loop_spec:
  assumes "length (read_buf c) = READ_BUF_SIZE" and "read_idx c \<le> READ_BUF_SIZE"
  shows "\<exists>d r es' ok. read_loop c es = Inr (receive c d, es', ok) \<and> pending es = d @ r
    \<and> read_idx c + length d \<le> READ_BUF_SIZE
    \<and> (r \<noteq> [] \<longrightarrow> \<not> ok \<and> read_idx c + length d = READ_BUF_SIZE)"
  using assms
proof (induction c es rule: read_loop.induct)
  case (1 c es)
  obtain v es1 where rc: "recv (READ_BUF_SIZE - read_idx c) es = (v, es1)" by fastforce
  show ?case
  proof (cases v)
    case (Bytes d)
    note rb = recv_Bytes[OF rc[unfolded Bytes]]
    have fit: "read_idx c + length d \<le> READ_BUF_SIZE" using rb "1.prems" by linarith
    have bl: "blit (read_buf c) (read_idx c) d = Inr (read_buf (receive c d))"
      using fit "1.prems" by (simp add: blit_def receive_def)
    have upd: "c\<lparr>read_buf := read_buf (receive c d), read_idx := read_idx c + length d\<rparr> = receive c d"
      by (simp add: receive_def)
    obtain d' r es' ok where "read_loop (receive c d) es1 = Inr (receive (receive c d) d', es', ok)"
      "pending es1 = d' @ r" "read_idx c + length d + length d' \<le> READ_BUF_SIZE"
      "r \<noteq> [] \<longrightarrow> \<not> ok \<and> read_idx c + length d + length d' = READ_BUF_SIZE"
      using "1.IH"[OF rc[symmetric] Bytes bl] fit "1.prems" length_receive[of c d] unfolding upd by auto
    moreover have "read_loop c es = read_loop (receive c d) es1"
      using rc Bytes bl upd by (subst read_loop.simps) simp
    moreover have "receive (receive c d) d' = receive c (d @ d')"
      using receive_receive fit "1.prems" by simp
    ultimately show ?thesis
      using rb by (intro exI[of _ "d @ d'"] exI[of _ r] exI[of _ es'] exI[of _ ok]) (auto simp: add.assoc)
  next
    case Closed
    then have "read_loop c es = Inr (receive c [], es1, False)"
      using rc by (subst read_loop.simps) simp
    then show ?thesis
      using recv_Closed[OF rc[unfolded Closed]] "1.prems"
      by (intro exI[of _ "[]"] exI[of _ "pending es"] exI[of _ es1] exI[of _ False]) auto
  next
    case (Failed e)
    then have "read_loop c es = Inr (receive c [], es1, e = EAGAIN)"
      using rc by (subst read_loop.simps) simp
    then show ?thesis
      using recv_Failed[OF rc[unfolded Failed]] "1.prems"
      by (intro exI[of _ "[]"] exI[of _ "pending es"] exI[of _ es1] exI[of _ "e = EAGAIN"]) auto
  qed
qed

lemma read_conn_spec_aux:
  assumes inv: "http_inv c"
  shows "\<exists>d r es' ok. read_conn c es = Inr (receive c d, es', ok) \<and> pending es = d @ r
    \<and> read_idx c + length d \<le> READ_BUF_SIZE \<and> http_inv (receive c d) \<and> window (receive c d) = window c @ d
    \<and> (r \<noteq> [] \<longrightarrow> \<not> ok \<and> read_idx c + length d = READ_BUF_SIZE)"
proof -
  have li: "line_inv c" using inv by (simp add: http_inv_def)
  show ?thesis
  proof (cases "READ_BUF_SIZE \<le> read_idx c")
    case True
    then show ?thesis using inv li
      by (intro exI[of _ "[]"] exI[of _ "pending es"] exI[of _ es] exI[of _ False])
        (auto simp: read_conn_def line_inv_def)
  next
    case False
    then have b: "length (read_buf c) = READ_BUF_SIZE" "read_idx c \<le> READ_BUF_SIZE"
      using li by (simp_all add: line_inv_def)
    obtain d r es' ok where "read_loop c es = Inr (receive c d, es', ok)" "pending es = d @ r"
      "read_idx c + length d \<le> READ_BUF_SIZE"
      "r \<noteq> [] \<longrightarrow> \<not> ok \<and> read_idx c + length d = READ_BUF_SIZE"
      using read_loop_spec[OF b, of es] by blast
    then show ?thesis
      using False receive_inv[OF inv] window_receive[OF li]
      by (intro exI[of _ d] exI[of _ r] exI[of _ es'] exI[of _ ok]) (simp add: read_conn_def)
  qed
qed

text \<open>
  The non-blocking \<open>read\<close> never stores outside the buffer, appends a prefix of the bytes that
  are waiting to the unscanned input and keeps the invariant of the parser; it leaves bytes
  behind only when the buffer is full, and then it returns false, so that the caller closes.
\<close>

theorem read_conn_spec:
  assumes "http_inv c"
  shows "\<exists>d r es' ok. read_conn c es = Inr (receive c d, es', ok) \<and> pending es = d @ r
    \<and> read_idx c + length d \<le> READ_BUF_SIZE \<and> http_inv (receive c d) \<and> window (receive c d) = window c @ d
    \<and> (r \<noteq> [] \<longrightarrow> \<not> ok \<and> read_idx c + length d = READ_BUF_SIZE)"
  by (rule read_conn_spec_aux[OF assms])

theorem read_conn_spec_witness:
  "\<exists>c' es'. read_conn (sample_conn ''GE'') [Data ''T /a'', Data '' HTT''] = Inr (c', es', True)
    \<and> window c' = ''GET /a HTT'' \<and> http_inv c'"
proof -
  have i: "http_inv (sample_conn ''GE'')" by (rule http_inv_sample) (simp add: READ_BUF_SIZE_def)
  have w: "window (sample_conn ''GE'') = ''GE''" by (simp add: window_def sample_conn_def)
  let ?es = "[Data ''T /a'', Data '' HTT'']"
  obtain d r es' ok where p: "read_conn (sample_conn ''GE'') ?es = Inr (receive (sample_conn ''GE'') d, es', ok)"
    "''T /a HTT'' = d @ r" "http_inv (receive (sample_conn ''GE'') d)"
    "window (receive (sample_conn ''GE'') d) = ''GE'' @ d"
    "r \<noteq> [] \<longrightarrow> \<not> ok \<and> read_idx (sample_conn ''GE'') + length d = READ_BUF_SIZE"
    using read_conn_spec[OF i, of ?es] w by auto
  have "length d \<le> 9" using arg_cong[OF p(2), of length] by simp
  then have r: "r = []" using p(5) by (auto simp: sample_conn_def READ_BUF_SIZE_def)
  have ok: "ok"
  proof (rule ccontr)
    assume "\<not> ok"
    then show False
      using p(1) by (simp add: read_conn_def sample_conn_def READ_BUF_SIZE_def read_loop.simps blit_def)
  qed
  show ?thesis using p r ok by (intro exI) auto
qed

subsection \<open>The response\<close>

text \<open>The invariant of the write side, and the text that is in the write buffer.\<close>

definition reply_inv :: "http_conn \<Rightarrow> bool" where
  "reply_inv c \<longleftrightarrow> length (write_buf c) = WRITE_BUF_SIZE \<and> write_idx c \<le> WRITE_BUF_SIZE - 2 \<and> length (iov c) = 2"

definition written :: "http_conn \<Rightarrow> string" where
  "written c = take (write_idx c) (write_buf c)"

text \<open>The members that composing a response reads and does not change.\<close>

definition reply_frame :: "http_conn \<Rightarrow> int \<times> bool \<times> file_stat \<times> file_ptr \<times> nat" where
  "reply_frame c = (conn_fd c, linger c, file_stat c, file_addr c, length (iov c))"

definition fits :: "http_conn \<Rightarrow> string \<Rightarrow> bool" where
  "fits c s \<longleftrightarrow> write_idx c + length s < WRITE_BUF_SIZE - 1"

lemma add_response_spec:
  assumes "reply_inv c"
  shows "\<exists>c'. add_response c s = Inr (c', fits c s) \<and> reply_inv c' \<and> reply_frame c' = reply_frame c
    \<and> written c' = (if fits c s then written c @ s else written c)
    \<and> write_idx c' = (if fits c s then write_idx c + length s else write_idx c)"
proof -
  let ?n = "WRITE_BUF_SIZE - 1 - write_idx c"
  have w: "length (write_buf c) = 1024" "write_idx c \<le> 1022"
    using assms by (auto simp: reply_inv_def WRITE_BUF_SIZE_def)
  let ?s = "take (?n - 1) s @ [NUL]"
  have f: "write_idx c + length ?s \<le> length (write_buf c)" using w by (simp add: WRITE_BUF_SIZE_def)
  let ?b = "take (write_idx c) (write_buf c) @ ?s @ drop (write_idx c + length ?s) (write_buf c)"
  have v: "vsnprintf (write_buf c) (write_idx c) ?n s = Inr (?b, length s)"
    using w blit_ok[OF f] by (simp add: vsnprintf_def WRITE_BUF_SIZE_def)
  have l: "length ?b = 1024" using f w by simp
  have t: "take (write_idx c) ?b = written c" using w by (simp add: written_def)
  show ?thesis
  proof (cases "fits c s")
    case True
    then have "?n - 1 \<ge> length s" "\<not> ?n \<le> length s" using w by (auto simp: fits_def WRITE_BUF_SIZE_def)
    moreover from this have "take (write_idx c + length s) ?b = written c @ s"
      using w by (simp add: written_def)
    ultimately show ?thesis
      using True w l v assms
      by (simp add: add_response_def WRITE_BUF_SIZE_def reply_inv_def reply_frame_def written_def fits_def)
  next
    case False
    then have "?n \<le> length s" by (auto simp: fits_def WRITE_BUF_SIZE_def)
    then show ?thesis
      using False w l v t assms
      by (simp add: add_response_def WRITE_BUF_SIZE_def reply_inv_def reply_frame_def written_def)
  qed
qed

definition headers_text :: "bool \<Rightarrow> int \<Rightarrow> string" where
  "headers_text l n = content_length_line (to_int32 n) @ linger_line l @ CRLF"

lemma reply_frame_linger: "reply_frame c' = reply_frame c \<Longrightarrow> linger c' = linger c"
  by (simp add: reply_frame_def)

lemma add_headers_spec:
  assumes "reply_inv c" and "fits c (headers_text (linger c) n)"
  shows "\<exists>c'. add_headers c n = Inr (c', True) \<and> reply_inv c' \<and> reply_frame c' = reply_frame c
    \<and> written c' = written c @ headers_text (linger c) n
    \<and> write_idx c' = write_idx c + length (headers_text (linger c) n)"
proof -
  have f1: "fits c (content_length_line (to_int32 n))"
    using assms(2) by (simp add: fits_def headers_text_def)
  obtain c1 where c1: "add_response c (content_length_line (to_int32 n)) = Inr (c1, True)" "reply_inv c1"
    "reply_frame c1 = reply_frame c" "written c1 = written c @ content_length_line (to_int32 n)"
    "write_idx c1 = write_idx c + length (content_length_line (to_int32 n))"
    using add_response_spec[OF assms(1), of "content_length_line (to_int32 n)"] f1 by auto
  have l1: "linger c1 = linger c" using c1(3) by (rule reply_frame_linger)
  have f2: "fits c1 (linger_line (linger c1))"
    using assms(2) c1(5) l1 by (simp add: fits_def headers_text_def)
  obtain c2 where c2: "add_response c1 (linger_line (linger c1)) = Inr (c2, True)" "reply_inv c2"
    "reply_frame c2 = reply_frame c1" "written c2 = written c1 @ linger_line (linger c1)"
    "write_idx c2 = write_idx c1 + length (linger_line (linger c1))"
    using add_response_spec[OF c1(2), of "linger_line (linger c1)"] f2 by auto
  have f3: "fits c2 CRLF" using assms(2) c1(5) c2(5) l1 by (simp add: fits_def headers_text_def)
  obtain c3 where c3: "add_response c2 CRLF = Inr (c3, True)" "reply_inv c3"
    "reply_frame c3 = reply_frame c2" "written c3 = written c2 @ CRLF" "write_idx c3 = write_idx c2 + length CRLF"
    using add_response_spec[OF c2(2), of CRLF] f3 by auto
  show ?thesis
    using c1 c2 c3 l1 by (intro exI[of _ c3]) (simp add: add_headers_def headers_text_def)
qed

text \<open>The three parts of a response that carries its body in the write buffer.\<close>

definition page :: "int \<Rightarrow> string \<Rightarrow> bool \<Rightarrow> string \<Rightarrow> string" where
  "page status title l form = status_line status title @ headers_text l (int (length form)) @ form"

lemma head_spec:
  assumes "reply_inv c" and "fits c (status_line status title @ headers_text (linger c) n)"
  obtains c1 c2 where "add_status_line c status title = Inr (c1, True)" "reply_frame c1 = reply_frame c"
    "add_headers c1 n = Inr (c2, True)" "reply_inv c2" "reply_frame c2 = reply_frame c"
    "written c2 = written c @ status_line status title @ headers_text (linger c) n"
    "write_idx c2 = write_idx c + length (status_line status title @ headers_text (linger c) n)"
proof -
  have f1: "fits c (status_line status title)" using assms(2) by (simp add: fits_def)
  obtain c1 where c1: "add_status_line c status title = Inr (c1, True)" "reply_inv c1"
    "reply_frame c1 = reply_frame c" "written c1 = written c @ status_line status title"
    "write_idx c1 = write_idx c + length (status_line status title)"
    using add_response_spec[OF assms(1), of "status_line status title"] f1 by (auto simp: add_status_line_def)
  have l1: "linger c1 = linger c" using c1(3) by (rule reply_frame_linger)
  have f2: "fits c1 (headers_text (linger c1) n)"
    using assms(2) c1(5) l1 by (simp add: fits_def)
  show ?thesis
    using add_headers_spec[OF c1(2) f2] c1 l1 by (auto intro: that)
qed

lemma iov_bytes_write_only:
  assumes "reply_inv c"
  shows "iov_bytes (write_only_iov c) = written c"
proof -
  obtain a b where "iov c = [a, b]" using assms by (auto simp: reply_inv_def numeral_2_eq_2 length_Suc_conv)
  then show ?thesis by (simp add: iov_bytes_def write_only_iov_def base_bytes_def written_def)
qed

lemma error_response_spec:
  assumes "reply_inv c" and "fits c (page status title (linger c) form)"
  shows "\<exists>c'. error_response c status title form = Inr (c', True) \<and> reply_inv c'
    \<and> reply_frame c' = reply_frame c \<and> iov_bytes c' = written c @ page status title (linger c) form
    \<and> write_idx c' = write_idx c + length (page status title (linger c) form)"
proof -
  have "fits c (status_line status title @ headers_text (linger c) (int (length form)))"
    using assms(2) by (simp add: fits_def page_def)
  then obtain c1 c2 where c: "add_status_line c status title = Inr (c1, True)"
    "add_headers c1 (int (length form)) = Inr (c2, True)" "reply_inv c2" "reply_frame c2 = reply_frame c"
    "written c2 = written c @ status_line status title @ headers_text (linger c) (int (length form))"
    "write_idx c2 = write_idx c + length (status_line status title @ headers_text (linger c) (int (length form)))"
    using head_spec[OF assms(1)] by metis
  have f: "fits c2 form" using assms(2) c(6) by (simp add: fits_def page_def)
  obtain c3 where c3: "add_content c2 form = Inr (c3, True)" "reply_inv c3" "reply_frame c3 = reply_frame c2"
    "written c3 = written c2 @ form" "write_idx c3 = write_idx c2 + length form"
    using add_response_spec[OF c(3), of form] f by (auto simp: add_content_def)
  have "reply_inv (write_only_iov c3)" using c3(2) by (simp add: reply_inv_def write_only_iov_def)
  moreover have "reply_frame (write_only_iov c3) = reply_frame c3"
    by (simp add: reply_frame_def write_only_iov_def)
  moreover have "write_idx (write_only_iov c3) = write_idx c3" by (simp add: write_only_iov_def)
  ultimately show ?thesis
    using c c3 iov_bytes_write_only[OF c3(2)]
    by (intro exI[of _ "write_only_iov c3"]) (simp add: error_response_def page_def)
qed

text \<open>The page of each error code.\<close>

fun error_page :: "HTTP_CODE \<Rightarrow> bool \<Rightarrow> string" where
  "error_page INTERNAL_ERROR l = page 500 error_500_title l error_500_form"
| "error_page BAD_REQUEST l = page 400 error_400_title l error_400_form"
| "error_page NO_RESOURCE l = page 404 error_404_title l error_404_form"
| "error_page FORBIDDEN_REQUEST l = page 403 error_403_title l error_403_form"
| "error_page _ l = []"

lemma length_dec_nat: "n < 10 ^ k \<Longrightarrow> 0 < k \<Longrightarrow> length (dec_nat n) \<le> k"
proof (induction k arbitrary: n)
  case 0
  then show ?case by simp
next
  case (Suc k)
  show ?case
  proof (cases "n < 10")
    case True
    then show ?thesis by (subst dec_nat.simps) simp
  next
    case False
    then have "0 < k" using Suc.prems(1) by (cases k) auto
    moreover have "n div 10 < 10 ^ k" using Suc.prems(1) by (simp add: less_mult_imp_div_less)
    ultimately show ?thesis using Suc.IH[of "n div 10"] False by (subst dec_nat.simps) simp
  qed
qed

lemma length_dec_int32: "length (dec_int (to_int32 n)) \<le> 11"
proof -
  have "nat (- to_int32 n) < 10 ^ 10" "nat (to_int32 n) < 10 ^ 10"
    using to_int32_range[of n] by auto
  then show ?thesis using length_dec_nat[of "nat (- to_int32 n)" 10] length_dec_nat[of "nat (to_int32 n)" 10] by (simp add: dec_int_def)
qed

lemma length_headers_text: "length (headers_text l n) \<le> 60"
  using length_dec_int32[of n] by (simp add: headers_text_def content_length_line_def linger_line_def)

lemma length_error_page: "length (error_page ret l) < 200"
proof -
  have p: "length (page status title l form) \<le> 85 + length title + length form"
    if "to_int32 status = status" for status title form
    using length_headers_text[of l "int (length form)"] length_dec_int32[of status] that
    by (simp add: page_def status_line_def)
  have i: "to_int32 500 = 500" "to_int32 400 = 400" "to_int32 404 = 404" "to_int32 403 = 403"
    by (simp_all add: to_int32_id)
  have n: "length error_500_title + length error_500_form \<le> 110"
    "length error_400_title + length error_400_form \<le> 110"
    "length error_404_title + length error_404_form \<le> 110"
    "length error_403_title + length error_403_form \<le> 110"
    by (simp_all add: title_defs form_defs)
  show ?thesis
    using n p[OF i(1), of error_500_title error_500_form] p[OF i(2), of error_400_title error_400_form]
      p[OF i(3), of error_404_title error_404_form] p[OF i(4), of error_403_title error_403_form]
    by (cases ret) simp_all
qed

lemma process_write_error_code:
  assumes "ret \<in> {INTERNAL_ERROR, BAD_REQUEST, NO_RESOURCE, FORBIDDEN_REQUEST}"
  shows "\<exists>status title form. error_page ret l = page status title l form
    \<and> process_write c ret = error_response c status title form"
proof -
  note pw = process_write_def
  consider "ret = INTERNAL_ERROR" | "ret = BAD_REQUEST" | "ret = NO_RESOURCE" | "ret = FORBIDDEN_REQUEST"
    using assms by blast
  then show ?thesis
  proof cases
    case 1
    show ?thesis unfolding 1 error_page.simps pw HTTP_CODE.case by (intro exI conjI) (rule refl)+
  next
    case 2
    show ?thesis unfolding 2 error_page.simps pw HTTP_CODE.case by (intro exI conjI) (rule refl)+
  next
    case 3
    show ?thesis unfolding 3 error_page.simps pw HTTP_CODE.case by (intro exI conjI) (rule refl)+
  next
    case 4
    show ?thesis unfolding 4 error_page.simps pw HTTP_CODE.case by (intro exI conjI) (rule refl)+
  qed
qed

lemma process_write_error_aux:
  assumes "reply_inv c" and "write_idx c = 0"
    and "ret \<in> {INTERNAL_ERROR, BAD_REQUEST, NO_RESOURCE, FORBIDDEN_REQUEST}"
  shows "\<exists>c'. process_write c ret = Inr (c', True) \<and> iov_bytes c' = error_page ret (linger c)
    \<and> reply_inv c' \<and> reply_frame c' = reply_frame c \<and> write_idx c' = length (error_page ret (linger c))"
proof -
  have f: "fits c (error_page ret (linger c))"
    using assms(2) length_error_page[of ret "linger c"] by (simp add: fits_def WRITE_BUF_SIZE_def)
  have w: "written c = []" using assms(2) by (simp add: written_def)
  from process_write_error_code[OF assms(3), of "linger c" c] show ?thesis
  proof (elim exE conjE)
    fix status title form
    assume p: "error_page ret (linger c) = page status title (linger c) form"
      "process_write c ret = error_response c status title form"
    show ?thesis
      using f w assms(2) error_response_spec[OF assms(1), of status title form] unfolding p by auto
  qed
qed

text \<open>
  For each of the four error codes the response is exactly the status line, the length of the
  page, the Connection header that repeats what the request asked for, an empty line and the
  page; all of it fits the write buffer.
\<close>

theorem process_write_error:
  assumes "reply_inv c" and "write_idx c = 0"
    and "ret \<in> {INTERNAL_ERROR, BAD_REQUEST, NO_RESOURCE, FORBIDDEN_REQUEST}"
  shows "\<exists>c'. process_write c ret = Inr (c', True) \<and> iov_bytes c' = error_page ret (linger c)
    \<and> reply_inv c' \<and> reply_frame c' = reply_frame c \<and> write_idx c' = length (error_page ret (linger c))"
  by (rule process_write_error_aux[OF assms])

lemma reply_inv_sample [simp]: "reply_inv (sample_conn t)" "write_idx (sample_conn t) = 0"
  by (simp_all add: reply_inv_def sample_conn_def WRITE_BUF_SIZE_def)

theorem process_write_error_witness:
  "\<exists>c'. process_write (sample_conn []) NO_RESOURCE = Inr (c', True) \<and> iov_bytes c' =
     ''HTTP/1.1 404 not found'' @ CRLF @ ''Content-Length: 49'' @ CRLF @ ''Connection: close'' @ CRLF @ CRLF
     @ ''the requested file was not found on this server.'' @ [LF]"
proof -
  have "error_page NO_RESOURCE False = ''HTTP/1.1 404 not found'' @ CRLF @ ''Content-Length: 49'' @ CRLF
      @ ''Connection: close'' @ CRLF @ CRLF @ ''the requested file was not found on this server.'' @ [LF]"
    by code_simp
  moreover have "linger (sample_conn []) = False" by (simp add: sample_conn_def)
  ultimately show ?thesis using process_write_error[of "sample_conn []" NO_RESOURCE] by auto
qed

subsection \<open>Serving a file\<close>

definition file_head :: "bool \<Rightarrow> int \<Rightarrow> string" where
  "file_head l n = status_line 200 ok_200_title @ headers_text l n"

lemma length_file_head: "length (file_head l n) < 100"
proof -
  have "length (status_line 200 ok_200_title) < 20" by code_simp
  then show ?thesis using length_headers_text[of l n] by (simp add: file_head_def)
qed

lemma process_write_file_aux:
  assumes "reply_inv c" and "write_idx c = 0" and "file_addr c = Mapped d"
    and "st_size (file_stat c) = int (length d)" and "d \<noteq> []"
  shows "\<exists>c'. process_write c FILE_REQUEST = Inr (c', True)
    \<and> iov_bytes c' = file_head (linger c) (int (length d)) @ d
    \<and> reply_inv c' \<and> reply_frame c' = reply_frame c
    \<and> write_idx c' = length (file_head (linger c) (int (length d)))"
proof -
  have "fits c (status_line 200 ok_200_title @ headers_text (linger c) (int (length d)))"
    using assms(2) length_file_head[of "linger c" "int (length d)"]
    by (simp add: fits_def file_head_def WRITE_BUF_SIZE_def)
  then obtain c1 c2 where c: "add_status_line c 200 ok_200_title = Inr (c1, True)" "reply_frame c1 = reply_frame c"
    "add_headers c1 (int (length d)) = Inr (c2, True)" "reply_inv c2" "reply_frame c2 = reply_frame c"
    "written c2 = written c @ file_head (linger c) (int (length d))"
    "write_idx c2 = write_idx c + length (file_head (linger c) (int (length d)))"
    using head_spec[OF assms(1)] by (metis file_head_def)
  let ?c = "c2\<lparr>iov := [(Write_Buf, int (write_idx c2)), (File_Addr, st_size (file_stat c2))], iov_cnt := 2\<rparr>"
  have s: "file_stat c1 = file_stat c" "file_stat c2 = file_stat c" "file_addr c2 = Mapped d" "length (iov c2) = 2"
    using c(2,4,5) assms(3) by (auto simp: reply_frame_def reply_inv_def)
  have "iov_bytes ?c = written c2 @ d"
    using s assms(4) by (simp add: iov_bytes_def base_bytes_def written_def)
  moreover have "written c = []" using assms(2) by (simp add: written_def)
  moreover have "process_write c FILE_REQUEST = Inr (?c, True)"
    using c s assms(4,5) by (simp add: process_write_def)
  moreover have "reply_frame ?c = reply_frame c" "reply_inv ?c" "write_idx ?c = write_idx c2"
    using c(4,5) s(4) by (simp_all add: reply_frame_def reply_inv_def)
  ultimately show ?thesis using c(6,7) assms(2) by (intro exI[of _ ?c]) simp
qed

text \<open>
  A file that is not empty is answered with the head (status line, its length, Connection) and
  then its bytes. The length goes through an \<open>int\<close> parameter, so it is the size modulo \<open>2 ^ 32\<close>.
\<close>

theorem process_write_file:
  assumes "reply_inv c" and "write_idx c = 0" and "file_addr c = Mapped d"
    and "st_size (file_stat c) = int (length d)" and "d \<noteq> []"
  shows "\<exists>c'. process_write c FILE_REQUEST = Inr (c', True)
    \<and> iov_bytes c' = file_head (linger c) (int (length d)) @ d
    \<and> reply_inv c' \<and> reply_frame c' = reply_frame c
    \<and> write_idx c' = length (file_head (linger c) (int (length d)))"
  by (rule process_write_file_aux[OF assms])

theorem process_write_file_witness:
  "\<exists>c'. process_write ((sample_conn [])\<lparr>file_addr := Mapped ''hello'', file_stat := \<lparr>st_mode = 0x81A4, st_size = 5\<rparr>\<rparr>)
      FILE_REQUEST = Inr (c', True)
    \<and> iov_bytes c' = ''HTTP/1.1 200 ok'' @ CRLF @ ''Content-Length: 5'' @ CRLF @ ''Connection: close'' @ CRLF @ CRLF
      @ ''hello''"
proof -
  let ?c = "(sample_conn [])\<lparr>file_addr := Mapped ''hello'', file_stat := \<lparr>st_mode = 0x81A4, st_size = 5\<rparr>\<rparr>"
  have "reply_inv ?c" "write_idx ?c = 0" using reply_inv_sample[of "[]"] by (simp_all add: reply_inv_def)
  note t = process_write_file[OF this, of "''hello''"]
  have "file_head False 5 = ''HTTP/1.1 200 ok'' @ CRLF @ ''Content-Length: 5'' @ CRLF @ ''Connection: close'' @ CRLF @ CRLF"
    by code_simp
  moreover have "linger ?c = False" by (simp add: sample_conn_def)
  ultimately show ?thesis using t by auto
qed

subsection \<open>The empty file\<close>

lemma process_write_empty_aux:
  assumes "reply_inv c" and "write_idx c = 0" and "st_size (file_stat c) = 0"
  shows "\<exists>c'. process_write c FILE_REQUEST = Inr (c', False)
    \<and> written c' = page 200 ok_200_title (linger c) ok_string \<and> reply_frame c' = reply_frame c \<and> reply_inv c'"
proof -
  let ?n = "int (length ok_string)"
  have l: "length (file_head (linger c) ?n) < 100" by (rule length_file_head)
  have o: "length ok_string = 26" by (simp add: ok_string_def)
  have "fits c (status_line 200 ok_200_title @ headers_text (linger c) ?n)"
    using assms(2) l by (simp add: fits_def file_head_def WRITE_BUF_SIZE_def)
  then obtain c1 c2 where c: "add_status_line c 200 ok_200_title = Inr (c1, True)" "reply_frame c1 = reply_frame c"
    "add_headers c1 ?n = Inr (c2, True)" "reply_inv c2" "reply_frame c2 = reply_frame c"
    "written c2 = written c @ status_line 200 ok_200_title @ headers_text (linger c) ?n"
    "write_idx c2 = write_idx c + length (status_line 200 ok_200_title @ headers_text (linger c) ?n)"
    using head_spec[OF assms(1)] by metis
  have "fits c2 ok_string"
    using c(7) assms(2) l o by (simp add: fits_def file_head_def WRITE_BUF_SIZE_def)
  then obtain c3 where c3: "add_content c2 ok_string = Inr (c3, True)" "reply_frame c3 = reply_frame c2"
    "written c3 = written c2 @ ok_string" "reply_inv c3"
    using add_response_spec[OF c(4), of ok_string] by (auto simp: add_content_def)
  have "st_size (file_stat c1) = 0" using c(2) assms(3) by (simp add: reply_frame_def)
  moreover have "written c = []" using assms(2) by (simp add: written_def)
  ultimately show ?thesis
    using c c3 by (intro exI[of _ c3]) (simp add: process_write_def page_def)
qed

text \<open>
  An empty file is not answered: the page with \<open>ok_string\<close> is composed in the write buffer, but
  the case falls through to \<open>default\<close>, so \<open>process_write\<close> returns false and the caller closes.
\<close>

theorem process_write_empty_file:
  assumes "reply_inv c" and "write_idx c = 0" and "st_size (file_stat c) = 0"
  shows "\<exists>c'. process_write c FILE_REQUEST = Inr (c', False)
    \<and> written c' = page 200 ok_200_title (linger c) ok_string \<and> reply_frame c' = reply_frame c"
  using process_write_empty_aux[OF assms] by blast

theorem process_write_empty_file_witness:
  "\<exists>c'. process_write (sample_conn []) FILE_REQUEST = Inr (c', False)"
proof -
  have "st_size (file_stat (sample_conn [])) = 0" by (simp add: sample_conn_def)
  then show ?thesis using process_write_empty_file[of "sample_conn []"] by auto
qed

subsection \<open>Sending\<close>

lemma unmap_simps [simp]:
  "linger (fst (unmap c)) = linger c" "conn_fd (fst (unmap c)) = conn_fd c"
  by (simp_all add: unmap_def)

text \<open>What goes out on the wire, and the segments it goes out in.\<close>

fun sent_segments :: "sys_call list \<Rightarrow> string list" where
  "sent_segments [] = []"
| "sent_segments (Send fd d # ks) = d # sent_segments ks"
| "sent_segments (_ # ks) = sent_segments ks"

lemma sent_segments_append: "sent_segments (ks @ ls) = sent_segments ks @ sent_segments ls"
  by (induction ks rule: sent_segments.induct) auto

lemma sent_segments_calls [simp]:
  "sent_segments (snd (unmap c)) = []" "sent_segments (mod_fd2 fd ev) = []" "sent_segments (remove_fd2 fd) = []"
  by (simp_all add: unmap_def mod_fd2_def remove_fd2_def)

text \<open>
  When the kernel takes \<open>n\<close> bytes of the response at once and \<open>n\<close> is at least half of
  \<open>_write_idx\<close>, \<open>write\<close> regards the response as sent: it unmaps the file, asks for more requests and
  keeps the connection exactly when \<open>_linger\<close> is set. With \<open>n\<close> the length of the response this is
  the intended case; with a smaller \<open>n\<close> the rest is lost, since the bytes of the file are not counted
  and the test compares what is left with what was sent.
\<close>

theorem write_conn_sent:
  assumes "0 < write_idx c" and "n \<le> length (iov_bytes c)" and "write_idx c \<le> 2 * n"
  shows "\<exists>c' k. write_conn c (Sent n # rs) =
      (c', Send (conn_fd c) (take n (iov_bytes c)) # k @ mod_fd2 (conn_fd c) EPOLLIN, linger c)
    \<and> (linger c \<longrightarrow> c' = init_conn (fst (unmap c))) \<and> k = snd (unmap c)"
  using assms by (cases "unmap c") (auto simp: write_conn_def Let_def unmap_def split: if_splits)

theorem write_conn_sent_witness:
  "let c = (sample_conn [])\<lparr>write_buf := ''0123456789'', write_idx := 10, iov := [(Write_Buf, 10), (File_Addr, 0)], iov_cnt := 1\<rparr>
   in \<exists>c' k. write_conn c [Sent 5] = (c', Send 5 ''01234'' # k @ mod_fd2 5 EPOLLIN, False)"
proof -
  let ?c = "(sample_conn [])\<lparr>write_buf := ''0123456789'', write_idx := 10, iov := [(Write_Buf, 10), (File_Addr, 0)], iov_cnt := 1\<rparr>"
  have i: "iov_bytes ?c = ''0123456789''" by (simp add: iov_bytes_def base_bytes_def)
  have "conn_fd ?c = 5" "linger ?c = False" by (simp_all add: sample_conn_def)
  then show ?thesis using write_conn_sent[of ?c 5 "[]"] unfolding i by (auto simp: Let_def)
qed

lemma write_loop_segments:
  "write_loop c h t rs = (c', k, ok) \<Longrightarrow> \<forall>d \<in> set (sent_segments k). \<exists>n. d = take n (iov_bytes c)"
proof (induction c h t rs arbitrary: c' k ok rule: write_loop.induct)
  case (1 c h t)
  then show ?case by auto
next
  case (2 c h t e rs)
  then show ?case using sent_segments_calls(1)[of c] by (auto split: if_splits simp: mod_fd2_def unmap_def)
next
  case (3 c h t n rs)
  let ?m = "min n (length (iov_bytes c))"
  show ?case
  proof (cases "t - int ?m \<le> h + int ?m")
    case True
    obtain c1 k1 where u: "unmap c = (c1, k1)" by fastforce
    have "sent_segments k1 = []" using sent_segments_calls(1)[of c] u by simp
    then have "sent_segments k = [take ?m (iov_bytes c)]"
      using "3.prems" True by (auto simp: Let_def sent_segments_append u split: if_splits)
    then show ?thesis by auto
  next
    case False
    obtain c1 k1 ok1 where r: "write_loop c (h + int ?m) (t - int ?m) rs = (c1, k1, ok1)"
      by (metis prod_cases3)
    then have "k = Send (conn_fd c) (take ?m (iov_bytes c)) # k1"
      using "3.prems" False by (simp add: Let_def)
    then show ?thesis using "3.IH"[OF refl refl refl refl False r] by auto
  qed
qed

text \<open>
  Every \<open>writev\<close> starts at the beginning of the response, because \<open>_iov\<close> is not advanced: each
  segment that is sent is a prefix of the whole response, so a second segment repeats the bytes of
  the first. (With the first \<open>writev\<close> taking less than half the head there is a second one.)
\<close>

theorem write_conn_segments:
  assumes "write_conn c rs = (c', k, ok)"
  shows "\<forall>d \<in> set (sent_segments k). \<exists>n. d = take n (iov_bytes c)"
  using assms write_loop_segments[of c 0 "int (write_idx c)" rs] by (auto simp: write_conn_def split: if_splits)

theorem write_conn_segments_witness:
  "let c = (sample_conn [])\<lparr>write_buf := ''0123456789'', write_idx := 10, iov := [(Write_Buf, 10), (File_Addr, 0)], iov_cnt := 1\<rparr>
   in \<exists>c' k ok. write_conn c [Sent 4, Sent 3] = (c', k, ok) \<and> sent_segments k = [''0123'', ''012'']
      \<and> (\<forall>d \<in> set (sent_segments k). \<exists>n. d = take n ''0123456789'')"
proof -
  define c where "c = (sample_conn [])\<lparr>write_buf := ''0123456789'', write_idx := 10, iov := [(Write_Buf, 10), (File_Addr, 0)], iov_cnt := 1\<rparr>"
  have i: "iov_bytes c = ''0123456789''" by (simp add: iov_bytes_def base_bytes_def c_def)
  obtain c' k ok where w: "write_conn c [Sent 4, Sent 3] = (c', k, ok)" by (metis prod_cases3)
  have "unmap c = (c, [])" "write_idx c = 10" by (simp_all add: unmap_def sample_conn_def c_def)
  then have "sent_segments k = [''0123'', ''012'']"
    using w i by (auto simp: write_conn_def Let_def mod_fd2_def split: if_splits)
  then show ?thesis using w write_conn_segments[OF w] unfolding i Let_def c_def[symmetric] by blast
qed

end
