(* ===== verification/Http_Process.thy ===== *)
theory Http_Process
  imports Http_Reply
begin

text \<open>
  \<open>process\<close>, which a worker thread runs on a connection: from the bytes of a request to the bytes
  of the response. The last parts follow input that is never answered: a malformed line, and a
  message body that arrives in two segments.
\<close>

subsection \<open>What parsing does not touch\<close>

lemma parse_line_out: "parse_line c = Inr (c', st) \<Longrightarrow> out_part c' = out_part c"
proof -
  assume "parse_line c = Inr (c', st)"
  then have "c' = c\<lparr>read_buf := read_buf c', chk_idx := chk_idx c'\<rparr>" using parse_line_frame by blast
  then have "out_part c' = out_part (c\<lparr>read_buf := read_buf c', chk_idx := chk_idx c'\<rparr>)" by simp
  then show ?thesis by (simp add: out_part_def)
qed

lemma parse_headers_out: "parse_headers c t = Inr (c', r) \<Longrightarrow> out_part c' = out_part c"
  by (auto simp: parse_headers_def out_part_def bindR_eq_Inr split: if_splits)

lemma parse_content_out: "parse_content c t = Inr (c', r) \<Longrightarrow> out_part c' = out_part c"
  by (auto simp: parse_content_def out_part_def elim!: bindR_InrE split: if_split_asm)

lemma do_request_out: "do_request env c = Inr (c', r) \<Longrightarrow> out_part c' = out_part c"
  by (auto simp: do_request_def out_part_def Let_def elim!: bindR_InrE split: option.split_asm if_split_asm)

lemma process_line_out: "process_line env c t = Inr (c', s) \<Longrightarrow> out_part c' = out_part c"
  using parse_request_line_out
  by (auto simp: process_line_def finish_def elim!: bindR_InrE split: CHECK_STATE.split_asm if_split_asm
      dest!: parse_headers_out parse_content_out do_request_out)

lemma process_read_loop_out: "process_read_loop env c st = Inr (c', r) \<Longrightarrow> out_part c' = out_part c"
proof (induction env c st rule: process_read_loop.induct)
  case (1 env c st)
  obtain c1 st1 where nl: "next_line c st = Inr (c1, st1)"
    using "1.prems" by (subst (asm) process_read_loop.simps) (auto elim: bindR_InrE)
  have o1: "out_part c1 = out_part c"
    using nl parse_line_out by (auto simp: next_line_def split: if_splits)
  show ?case
  proof (cases "st1 = LINE_OK")
    case False
    then show ?thesis using "1.prems" nl o1 by (subst (asm) process_read_loop.simps) simp
  next
    case True
    obtain p c2 s where p: "cstr (read_buf c1) (get_line c1) = Inr p"
      and pl: "process_line env (c1\<lparr>start_line := chk_idx c1\<rparr>) (get_line c1) = Inr (c2, s)"
      using "1.prems" nl True by (subst (asm) process_read_loop.simps) (auto elim!: bindR_InrE)
    have o2: "out_part c2 = out_part c" using process_line_out[OF pl] o1 by (simp add: out_part_def)
    show ?thesis
    proof (cases s)
      case (Done ret)
      then show ?thesis using "1.prems" nl True p pl o2 by (subst (asm) process_read_loop.simps) simp
    next
      case (Next st2)
      then have "process_read_loop env c2 st2 = Inr (c', r)"
        using "1.prems" nl True p pl by (subst (asm) process_read_loop.simps) simp
      then show ?thesis using "1.IH"[OF nl refl _ p pl refl Next] True o2 by simp
    qed
  qed
qed

lemma process_read_out: "process_read env c = Inr (c', r) \<Longrightarrow> out_part c' = out_part c"
  by (simp add: process_read_def process_read_loop_out)

lemma out_part_reply_inv:
  "out_part c' = out_part c \<Longrightarrow> reply_inv c \<Longrightarrow> reply_inv c' \<and> write_idx c' = write_idx c \<and> conn_fd c' = conn_fd c"
  by (simp add: out_part_def reply_inv_def)

subsection \<open>From request to response\<close>

lemma process_conn_file_aux:
  assumes "at_line c (l @ CRLF @ concat (map (\<lambda>h. h @ CRLF) hs) @ CRLF @ w)"
    and "chk_state c = CHECK_STATE_REQUEST_LINE" and "clean_line l" and "valid_request_line l"
    and "\<forall>h \<in> set hs. clean_line h \<and> h \<noteq> []"
    and "fold hdr_step hs (linger c, content_length c) = (lg, 0)"
    and "reply_inv c" and "write_idx c = 0"
    and "fs_stat env path = Some st" and "st_mode st AND S_IROTH \<noteq> 0" and "\<not> S_ISDIR (st_mode st)"
    and "fs_map env path = Some d" and "st_size st = int (length d)" and "d \<noteq> []"
    and "path = request_path (target_path (req_target l))"
  shows "\<exists>c'. process_conn env c cnt = Inr (c', mod_fd2 (conn_fd c) EPOLLOUT, cnt)
    \<and> iov_bytes c' = file_head lg (int (length d)) @ d \<and> linger c' = lg \<and> reply_inv c'"
proof -
  obtain c3 where r: "process_read env c = Inr (request_file env c3 path)" and lg: "linger c3 = lg"
    and o: "out_part c3 = out_part c"
    using process_read_request_aux[OF assms(1-6), of env] assms(15) by auto
  let ?c = "c3\<lparr>file_stat := st, file_addr := Mapped d\<rparr>"
  have rf: "request_file env c3 path = (?c, FILE_REQUEST)"
    using assms(9-14) by (simp add: request_file_def mmap_file_def)
  have "out_part ?c = out_part c" using o by (simp add: out_part_def)
  then have ri: "reply_inv ?c" "write_idx ?c = 0" "conn_fd ?c = conn_fd c"
    using out_part_reply_inv assms(7,8) by metis+
  obtain c' where w: "process_write ?c FILE_REQUEST = Inr (c', True)"
    "iov_bytes c' = file_head (linger ?c) (int (length d)) @ d" "reply_inv c'" "reply_frame c' = reply_frame ?c"
    using process_write_file_aux[OF ri(1,2), of d] assms(13,14) by auto
  have "conn_fd c' = conn_fd c" "linger c' = lg" using w(4) ri(3) lg by (simp_all add: reply_frame_def)
  then show ?thesis using r rf w lg by (intro exI[of _ c']) (simp add: process_conn_def)
qed

text \<open>
  C1. The whole path of a good request: a connection that has received a complete GET request
  for a readable regular file of the document root answers with the head and the bytes of that
  file, keeps the connection open exactly as the Connection header asks, and re-arms the
  descriptor for output, once.
\<close>

theorem process_conn_file:
  assumes "at_line c (l @ CRLF @ concat (map (\<lambda>h. h @ CRLF) hs) @ CRLF @ w)"
    and "chk_state c = CHECK_STATE_REQUEST_LINE" and "clean_line l" and "valid_request_line l"
    and "\<forall>h \<in> set hs. clean_line h \<and> h \<noteq> []"
    and "fold hdr_step hs (linger c, content_length c) = (lg, 0)"
    and "reply_inv c" and "write_idx c = 0"
    and "fs_stat env path = Some st" and "st_mode st AND S_IROTH \<noteq> 0" and "\<not> S_ISDIR (st_mode st)"
    and "fs_map env path = Some d" and "st_size st = int (length d)" and "d \<noteq> []"
    and "path = request_path (target_path (req_target l))"
  shows "\<exists>c'. process_conn env c cnt = Inr (c', mod_fd2 (conn_fd c) EPOLLOUT, cnt)
    \<and> iov_bytes c' = file_head lg (int (length d)) @ d \<and> linger c' = lg \<and> reply_inv c'"
  by (rule process_conn_file_aux[OF assms])

theorem process_conn_file_witness:
  "\<exists>c'. process_conn sample_env (sample_conn (''GET /a HTTP/1.1'' @ CRLF @ CRLF)) 3
      = Inr (c', mod_fd2 5 EPOLLOUT, 3)
    \<and> iov_bytes c' = ''HTTP/1.1 200 ok'' @ CRLF @ ''Content-Length: 5'' @ CRLF @ ''Connection: close'' @ CRLF @ CRLF
      @ ''hello''"
proof -
  let ?l = "''GET /a HTTP/1.1''"
  let ?t = "?l @ CRLF @ concat (map (\<lambda>h. h @ CRLF) []) @ CRLF @ []"
  let ?c = "sample_conn ?t"
  have a: "at_line ?c ?t" by (rule at_line_sample) (simp add: READ_BUF_SIZE_def)
  have st: "chk_state ?c = CHECK_STATE_REQUEST_LINE" by (simp add: sample_conn_def)
  have l: "clean_line ?l" "valid_request_line ?l" by code_simp+
  have h: "\<forall>h \<in> set []. clean_line h \<and> h \<noteq> []" by simp
  have f: "fold hdr_step [] (linger ?c, content_length ?c) = (False, 0)" by (simp add: sample_conn_def)
  have p: "doc_root @ ''/a'' = request_path (target_path (req_target ?l))" by code_simp
  have m: "\<not> S_ISDIR 0x81A4" "(0x81A4 :: 32 word) AND S_IROTH \<noteq> 0" by code_simp+
  have e: "fs_stat sample_env (doc_root @ ''/a'') = Some \<lparr>st_mode = 0x81A4, st_size = 5\<rparr>"
    "fs_map sample_env (doc_root @ ''/a'') = Some ''hello''" by (simp_all add: sample_env_def)
  have "file_head False 5 = ''HTTP/1.1 200 ok'' @ CRLF @ ''Content-Length: 5'' @ CRLF @ ''Connection: close'' @ CRLF @ CRLF"
    by code_simp
  moreover have "conn_fd ?c = 5" by (simp add: sample_conn_def)
  ultimately show ?thesis
    using process_conn_file[OF a st l h f reply_inv_sample e(1) _ _ e(2) _ _ p, of 3] m by auto
qed

subsection \<open>Errors and the empty file\<close>

text \<open>
  What \<open>process\<close> does with the result of the parser: more input is awaited, an error page is
  put in the write buffer and the descriptor is armed for output, or, for an empty file, the
  connection is closed; in that last case the descriptor, by then -1, is armed all the same.
\<close>

theorem process_conn_outcome:
  assumes "process_read env c = Inr (c1, ret)" and "reply_inv c" and "write_idx c = 0" and "conn_fd c \<noteq> -1"
  shows "(ret = NO_REQUEST \<longrightarrow> process_conn env c cnt = Inr (c1, mod_fd2 (conn_fd c) EPOLLIN, cnt))
    \<and> (ret \<in> {INTERNAL_ERROR, BAD_REQUEST, NO_RESOURCE, FORBIDDEN_REQUEST} \<longrightarrow>
      (\<exists>c'. process_conn env c cnt = Inr (c', mod_fd2 (conn_fd c) EPOLLOUT, cnt)
        \<and> iov_bytes c' = error_page ret (linger c1)))
    \<and> (ret = FILE_REQUEST \<and> st_size (file_stat c1) = 0 \<longrightarrow>
      (\<exists>c'. process_conn env c cnt = Inr (c', remove_fd2 (conn_fd c) @ mod_fd2 (-1) EPOLLOUT, cnt - 1)
        \<and> conn_fd c' = -1))"
proof -
  have o: "reply_inv c1" "write_idx c1 = 0" "conn_fd c1 = conn_fd c"
    using out_part_reply_inv process_read_out[OF assms(1)] assms(2,3) by metis+
  have "process_conn env c cnt = Inr (c1, mod_fd2 (conn_fd c) EPOLLIN, cnt)" if "ret = NO_REQUEST"
    using assms(1) o that by (simp add: process_conn_def)
  moreover have "\<exists>c'. process_conn env c cnt = Inr (c', mod_fd2 (conn_fd c) EPOLLOUT, cnt)
        \<and> iov_bytes c' = error_page ret (linger c1)"
    if r: "ret \<in> {INTERNAL_ERROR, BAD_REQUEST, NO_RESOURCE, FORBIDDEN_REQUEST}"
  proof -
    obtain c' where "process_write c1 ret = Inr (c', True)" "iov_bytes c' = error_page ret (linger c1)"
      "reply_frame c' = reply_frame c1"
      using process_write_error_aux[OF o(1,2) r] by blast
    then show ?thesis using assms(1) r o by (intro exI[of _ c']) (auto simp: process_conn_def reply_frame_def)
  qed
  moreover have "\<exists>c'. process_conn env c cnt = Inr (c', remove_fd2 (conn_fd c) @ mod_fd2 (-1) EPOLLOUT, cnt - 1)
        \<and> conn_fd c' = -1"
    if r: "ret = FILE_REQUEST" "st_size (file_stat c1) = 0"
  proof -
    obtain c' where "process_write c1 FILE_REQUEST = Inr (c', False)" "reply_frame c' = reply_frame c1"
      using process_write_empty_aux[OF o(1,2) r(2)] by blast
    then show ?thesis using assms(1,4) r o
      by (intro exI[of _ "c'\<lparr>conn_fd := -1\<rparr>"]) (auto simp: process_conn_def reply_frame_def close_conn_def)
  qed
  ultimately show ?thesis by blast
qed

theorem process_conn_outcome_witness:
  "process_conn sample_env (sample_conn []) 3 = Inr (sample_conn [], mod_fd2 5 EPOLLIN, 3)"
proof -
  have "parse_line (sample_conn []) = Inr (sample_conn [], LINE_OPEN)"
    by (simp add: parse_line.simps sample_conn_def)
  then have p: "process_read sample_env (sample_conn []) = Inr (sample_conn [], NO_REQUEST)"
    by (simp add: process_read_def process_read_loop.simps next_line_def sample_conn_def)
  have "conn_fd (sample_conn []) = 5" by (simp add: sample_conn_def)
  then show ?thesis using process_conn_outcome[OF p reply_inv_sample, of 3] by simp
qed

text \<open>
  The Content-Length header the server writes is read back by its own header parser as the
  number of bytes of the page, for every page of less than \<open>2 ^ 31\<close> bytes.
\<close>

theorem content_length_roundtrip:
  assumes "0 \<le> n" and "n < 2 ^ 31" and "cstr (read_buf c) t = Inr h"
    and "content_length_line n = h @ CRLF"
  shows "parse_headers c t = Inr (c\<lparr>content_length := n\<rparr>, NO_REQUEST)"
proof -
  have h: "h = ''Content-Length: '' @ dec_int n" using assms(4) by (simp add: content_length_line_def)
  obtain d ds where d: "dec_int n = d # ds" using assms(1) by (cases "dec_nat (nat n)") (auto simp: dec_int_def)
  have "is_digit d" using dec_nat_digits[of d "nat n"] d assms(1) by (simp add: dec_int_def)
  then have b: "\<not> blank d" by auto
  have "\<not> header_name_is h ''Connection:''" "header_name_is h ''Content-Length:''"
    by (simp_all add: h header_name_is_def same_case_def to_lower_def)
  moreover have "value_of h ''Content-Length:'' = dec_int n"
    using b by (simp add: h value_of_def d)
  moreover have "to_int32 (atol_str (dec_int n)) = n"
    using assms(1,2) by (subst atol_dec_int) (simp_all add: LONG_MAX_def to_int32_id)
  ultimately show ?thesis using parse_headers_effect[OF assms(3)] h by (simp add: header_effect_def)
qed

theorem content_length_roundtrip_witness:
  "parse_headers ((sample_conn [])\<lparr>read_buf := ''Content-Length: 49'' @ [NUL]\<rparr>) 0
     = Inr ((sample_conn [])\<lparr>read_buf := ''Content-Length: 49'' @ [NUL], content_length := 49\<rparr>, NO_REQUEST)"
proof -
  let ?c = "(sample_conn [])\<lparr>read_buf := ''Content-Length: 49'' @ [NUL]\<rparr>"
  have s: "cstr (read_buf ?c) 0 = Inr ''Content-Length: 49''" by (simp add: cstr_def)
  have "content_length_line 49 = ''Content-Length: 49'' @ CRLF" by code_simp
  from content_length_roundtrip[OF _ _ s this] show ?thesis by simp
qed

subsection \<open>A malformed line\<close>

definition bad_text :: "string \<Rightarrow> bool" where
  "bad_text w \<longleftrightarrow> (let k = length (takeWhile plain w) in
     k < length w \<and> (w ! k = CR \<longrightarrow> k + 1 < length w \<and> w ! (k + 1) \<noteq> LF))"

lemma takeWhile_append_stop:
  "length (takeWhile P xs) < length xs \<Longrightarrow> takeWhile P (xs @ ys) = takeWhile P xs"
  by (induction xs) auto

lemma bad_text_append: "bad_text w \<Longrightarrow> bad_text (w @ d)"
  by (auto simp: bad_text_def Let_def takeWhile_append_stop nth_append)

lemma bad_text_drop: "bad_text w \<Longrightarrow> bad_text (drop (length (takeWhile plain w)) w)"
proof -
  assume b: "bad_text w"
  let ?k = "length (takeWhile plain w)"
  have k: "?k < length w" using b by (simp add: bad_text_def Let_def)
  then have d: "drop ?k w = w ! ?k # drop (?k + 1) w" by (simp add: Cons_nth_drop_Suc)
  have "\<not> plain (w ! ?k)" by (rule takeWhile_nth_stop[OF k])
  then have "takeWhile plain (drop ?k w) = []" by (simp add: d)
  then show ?thesis using b k by (auto simp: bad_text_def Let_def)
qed

lemma line_spec_bad:
  assumes "bad_text (window c)"
  shows "line_spec c = (c\<lparr>chk_idx := chk_idx c + length (takeWhile plain (window c))\<rparr>, LINE_BAD)"
  using assms by (auto simp: line_spec_def bad_text_def Let_def)

lemma process_read_bad:
  assumes "http_inv c" and "chk_state c \<noteq> CHECK_STATE_CONTENT" and "bad_text (window c)"
  shows "process_read env c = Inr (c\<lparr>chk_idx := chk_idx c + length (takeWhile plain (window c))\<rparr>, NO_REQUEST)"
  using assms parse_line_spec_aux[of c]
  by (simp add: process_read_def process_read_loop.simps[of env c] next_line_def http_inv_def line_spec_bad)

lemma window_advance:
  assumes "line_inv c" and "k \<le> length (window c)"
  shows "window (c\<lparr>chk_idx := chk_idx c + k\<rparr>) = drop k (window c)"
  using assms by (simp add: window_def drop_take add.commute)

lemma bad_line_aux:
  assumes inv: "http_inv c" and st: "chk_state c \<noteq> CHECK_STATE_CONTENT" and bad: "bad_text (window c)"
  obtains c1 where "process_read env c = Inr (c1, NO_REQUEST)" "http_inv c1" "read_idx c1 = read_idx c"
    "chk_state c1 = chk_state c" "window c1 \<noteq> []" "bad_text (window c1)" "takeWhile plain (window c1) = []"
proof -
  let ?k = "length (takeWhile plain (window c))"
  let ?c = "c\<lparr>chk_idx := chk_idx c + ?k\<rparr>"
  have li: "line_inv c" using inv by (simp add: http_inv_def)
  have k: "?k < length (window c)" using bad by (simp add: bad_text_def Let_def)
  have w: "window ?c = drop ?k (window c)" using window_advance[OF li] k by simp
  have p: "process_read env c = Inr (?c, NO_REQUEST)" by (rule process_read_bad[OF assms])
  then have "http_inv ?c" using process_read_loop_inv[OF inv, of env LINE_OK] by (simp add: process_read_def)
  moreover have "takeWhile plain (window ?c) = []"
    using takeWhile_nth_stop[OF k] k by (simp add: w Cons_nth_drop_Suc[symmetric])
  ultimately show ?thesis using that[OF p] w k bad_text_drop[OF bad] by simp
qed

text \<open>
  A line with a lone CR or a lone LF is never answered: \<open>process_read\<close> stops in front of it and
  asks for more input, and after any further bytes it stops at the same place again.
\<close>

theorem bad_line_never_answered:
  assumes "http_inv c" and "chk_state c \<noteq> CHECK_STATE_CONTENT" and "bad_text (window c)"
  shows "\<exists>c1. process_read env c = Inr (c1, NO_REQUEST)
    \<and> (\<forall>d. read_idx c + length d \<le> READ_BUF_SIZE \<longrightarrow>
         process_read env (receive c1 d) = Inr (receive c1 d, NO_REQUEST))"
proof -
  obtain c1 where c1: "process_read env c = Inr (c1, NO_REQUEST)" "http_inv c1" "read_idx c1 = read_idx c"
    "chk_state c1 = chk_state c" "window c1 \<noteq> []" "bad_text (window c1)" "takeWhile plain (window c1) = []"
    by (rule bad_line_aux[OF assms])
  have "process_read env (receive c1 d) = Inr (receive c1 d, NO_REQUEST)"
    if d: "read_idx c + length d \<le> READ_BUF_SIZE" for d
  proof -
    have w: "window (receive c1 d) = window c1 @ d"
      using window_receive[of c1 d] c1(2,3) d by (simp add: http_inv_def)
    then have t: "takeWhile plain (window (receive c1 d)) = []"
      using c1(5,7) takeWhile_append_stop[of plain "window c1" d] by simp
    have "http_inv (receive c1 d)" using receive_inv[OF c1(2)] c1(3) d by simp
    moreover have "bad_text (window (receive c1 d))" using bad_text_append[OF c1(6)] w by simp
    ultimately show ?thesis using process_read_bad[of "receive c1 d" env] c1(4) assms(2) t by simp
  qed
  then show ?thesis using c1(1) by blast
qed

theorem bad_line_never_answered_witness:
  "\<exists>c1. process_read sample_env (sample_conn (''GET / HTTP/1.1'' @ [LF])) = Inr (c1, NO_REQUEST)
    \<and> process_read sample_env (receive c1 (CRLF @ CRLF)) = Inr (receive c1 (CRLF @ CRLF), NO_REQUEST)"
proof -
  let ?c = "sample_conn (''GET / HTTP/1.1'' @ [LF])"
  have i: "http_inv ?c" by (rule http_inv_sample) (simp add: READ_BUF_SIZE_def)
  have st: "chk_state ?c \<noteq> CHECK_STATE_CONTENT" by (simp add: sample_conn_def)
  have w: "window ?c = ''GET / HTTP/1.1'' @ [LF]" by (simp add: window_def sample_conn_def)
  have "bad_text (''GET / HTTP/1.1'' @ [LF])" by code_simp
  then have b: "bad_text (window ?c)" unfolding w .
  show ?thesis using bad_line_never_answered[OF i st b, of sample_env]
    by (auto simp: sample_conn_def READ_BUF_SIZE_def)
qed

subsection \<open>The message body\<close>

text \<open>\<open>process_read\<close> in the content state, up to the switch.\<close>

lemma process_read_content:
  assumes "chk_state c = CHECK_STATE_CONTENT" and "is_ok (cstr (read_buf c) (start_line c))"
  shows "process_read env c =
    bindR (process_line env (c\<lparr>start_line := chk_idx c\<rparr>) (start_line c)) (\<lambda>(c2, s).
      case s of Done ret \<Rightarrow> Inr (c2, ret) | Next st2 \<Rightarrow> process_read_loop env c2 st2)"
  using assms unfolding is_ok_iff
  by (elim exE) (simp add: process_read_def process_read_loop.simps[of env c] next_line_def get_line_def)

lemma content_wait:
  assumes inv: "http_inv c" and st: "chk_state c = CHECK_STATE_CONTENT"
    and p: "is_ok (cstr (read_buf c) (start_line c))" and pl: "\<forall>ch \<in> set (window c). plain ch"
    and n: "int (length (window c)) < content_length c" "content_length c \<le> INT_MAX - int READ_BUF_SIZE"
  shows "process_read env c = Inr (c\<lparr>start_line := chk_idx c, chk_idx := read_idx c\<rparr>, NO_REQUEST)"
proof -
  let ?c = "c\<lparr>start_line := chk_idx c\<rparr>"
  have li: "line_inv c" using inv by (simp add: http_inv_def)
  then have len: "length (window c) = read_idx c - chk_idx c" "chk_idx c \<le> read_idx c" "read_idx c \<le> READ_BUF_SIZE"
    using length_window by (auto simp: line_inv_def)
  have "process_line env ?c (start_line c) = Inr (?c, Next LINE_OPEN)"
    using st n len by (simp add: process_line_def parse_content_def)
  then have r: "process_read env c = process_read_loop env ?c LINE_OPEN"
    using process_read_content[OF st p] by simp
  have l2: "line_inv ?c" using li line_inv_no_cr_before[OF li] by (auto simp: line_inv_def)
  have w: "window ?c = window c" by (simp add: window_def)
  have "takeWhile plain (window c) = window c" using pl by (simp add: takeWhile_eq_all_conv)
  then have "length (takeWhile plain (window c)) = length (window c)" by (rule arg_cong)
  then have "line_spec ?c = (?c\<lparr>chk_idx := read_idx c\<rparr>, LINE_OPEN)"
    using len by (simp add: line_spec_def Let_def w)
  then show ?thesis
    using r parse_line_spec_aux[OF l2] by (simp add: process_read_loop.simps[of env ?c] next_line_def)
qed

text \<open>
  A message body that arrives in two segments is not recognised: after the first segment
  \<open>_chk_idx\<close> has moved to the end of the input, and the test for completeness counts
  \<open>_content_length\<close> from there, so a second segment that completes the body still leaves
  \<open>process_read\<close> waiting.
\<close>

theorem split_body_waits:
  assumes "http_inv c" and "chk_state c = CHECK_STATE_CONTENT" and "window c \<noteq> []"
    and "content_length c = int (length (window c) + length d)" and "d \<noteq> []"
    and "\<forall>ch \<in> set (window c @ d). plain ch"
    and "read_idx c + length d < READ_BUF_SIZE" and "\<forall>i. read_idx c \<le> i \<and> i < READ_BUF_SIZE \<longrightarrow> read_buf c ! i = NUL"
  shows "\<exists>c1 c2. process_read env c = Inr (c1, NO_REQUEST)
    \<and> process_read env (receive c1 d) = Inr (c2, NO_REQUEST)"
proof -
  have li: "line_inv c" using assms(1) by (simp add: http_inv_def)
  then have len: "length (window c) = read_idx c - chk_idx c" "chk_idx c \<le> read_idx c" "start_line c \<le> chk_idx c"
    "length (read_buf c) = READ_BUF_SIZE" using length_window by (auto simp: line_inv_def)
  let ?c = "c\<lparr>start_line := chk_idx c, chk_idx := read_idx c\<rparr>"
  have nul: "NUL \<in> set (drop j (read_buf c))" if "j \<le> read_idx c" for j
    using set_drop_nth[of j "READ_BUF_SIZE - 1" "read_buf c"] that assms(7,8) len by simp
  have p: "is_ok (cstr (read_buf c) (start_line c))"
    using nul[of "start_line c"] len by (simp add: cstr_def)
  have bound: "content_length c \<le> INT_MAX - int READ_BUF_SIZE"
    using assms(4,7) len by (simp add: INT_MAX_def READ_BUF_SIZE_def)
  have 1: "process_read env c = Inr (?c, NO_REQUEST)"
    by (rule content_wait[OF assms(1,2) p]) (use assms(4-6) bound in auto)
  then have i1: "http_inv ?c" using process_read_loop_inv[OF assms(1), of env LINE_OK] by (simp add: process_read_def)
  have w1: "window ?c = []" by (simp add: window_def)
  let ?r = "receive ?c d"
  have i2: "http_inv ?r" using receive_inv[OF i1] assms(7) by simp
  have w2: "window ?r = d" using window_receive[of ?c d] i1 w1 assms(7) by (simp add: http_inv_def)
  have "read_buf ?r ! (READ_BUF_SIZE - 1) = NUL"
    using assms(7,8) len by (auto simp: receive_def nth_append)
  then have "NUL \<in> set (drop (start_line ?r) (read_buf ?r))"
    using set_drop_nth[of "start_line ?r" "READ_BUF_SIZE - 1" "read_buf ?r"] assms(7) len length_receive[of ?c d]
    by simp
  then have p2: "is_ok (cstr (read_buf ?r) (start_line ?r))" by (simp add: cstr_def)
  have cl: "content_length ?r = content_length c" "chk_state ?r = CHECK_STATE_CONTENT"
    using assms(2) by (simp_all add: receive_def)
  have "0 < length (window c)" using assms(3) by simp
  then have "process_read env ?r = Inr (?r\<lparr>start_line := chk_idx ?r, chk_idx := read_idx ?r\<rparr>, NO_REQUEST)"
    using content_wait[OF i2 cl(2) p2, of env] w2 cl(1) assms(4,6) bound by simp
  then show ?thesis using 1 by blast
qed

theorem split_body_waits_witness:
  "\<exists>c1 c2. process_read sample_env (receive (sample_body_conn 4) ''ab'') = Inr (c1, NO_REQUEST)
    \<and> process_read sample_env (receive c1 ''cd'') = Inr (c2, NO_REQUEST)"
proof -
  let ?c = "receive (sample_body_conn 4) ''ab''"
  have s: "read_idx (sample_body_conn 4) = 2" "chk_state (sample_body_conn 4) = CHECK_STATE_CONTENT"
    "content_length (sample_body_conn 4) = 4" by (simp_all add: sample_body_conn_def)
  have i: "http_inv ?c" using receive_inv[OF http_inv_sample_body, of 4 "''ab''"] s by (simp add: READ_BUF_SIZE_def)
  have w: "window ?c = ''ab''" by (simp add: window_def receive_def sample_body_conn_def)
  have z: "\<forall>i. read_idx ?c \<le> i \<and> i < READ_BUF_SIZE \<longrightarrow> read_buf ?c ! i = NUL"
    by (auto simp: receive_def sample_body_conn_def READ_BUF_SIZE_def nth_Cons' nth_append)
  have "content_length ?c = int (length (window ?c) + length ''cd'')" using s w by (simp add: receive_def)
  then show ?thesis
    using split_body_waits[OF i _ _ _ _ _ _ z, of "''cd''" sample_env] s w
    by (simp add: plain_def READ_BUF_SIZE_def)
qed

end
