(* ===== verification/Locks.thy ===== *)
theory Locks
  imports Prelude
begin

text \<open>
  The synchronisation objects of 85\_process\_pool\_thread\_pool/locker.h (and its copies mutex\_lock.h,
  sem\_lock.h and cond\_lock.h in 84\_multi\_threading): a counting semaphore, a mutex and a
  condition variable that owns its mutex. Threads are numbered; an operation that would block
  is \<open>None\<close>. Two locales hold what a program that uses them correctly gets: exclusion from a
  mutex and first-in first-out order from a queue.
\<close>

subsection \<open>The semaphore and the mutex\<close>

definition sem_init :: nat where "sem_init = 0"

definition sem_wait :: "nat \<Rightarrow> nat option" where
  "sem_wait n = (if n = 0 then None else Some (n - 1))"

definition sem_post :: "nat \<Rightarrow> nat" where
  "sem_post n = n + 1"

type_synonym mutex = "nat option"

definition mutex_init :: mutex where "mutex_init = None"

definition mutex_lock :: "nat \<Rightarrow> mutex \<Rightarrow> mutex option" where
  "mutex_lock t m = (if m = None then Some (Some t) else None)"

text \<open>Unlocking a mutex that the thread does not hold is undefined; here it is never enabled.\<close>

definition mutex_unlock :: "nat \<Rightarrow> mutex \<Rightarrow> mutex option" where
  "mutex_unlock t m = (if m = Some t then Some None else None)"

lemma sem_wait_Some [simp]: "sem_wait n = Some k \<longleftrightarrow> n = Suc k"
  by (auto simp: sem_wait_def)

lemma sem_wait_None [simp]: "sem_wait n = None \<longleftrightarrow> n = 0"
  by (auto simp: sem_wait_def)

lemma mutex_lock_Some [simp]: "mutex_lock t m = Some m' \<longleftrightarrow> m = None \<and> m' = Some t"
  by (auto simp: mutex_lock_def)

lemma mutex_lock_None [simp]: "mutex_lock t m = None \<longleftrightarrow> m \<noteq> None"
  by (auto simp: mutex_lock_def)

lemma mutex_unlock_Some [simp]: "mutex_unlock t m = Some m' \<longleftrightarrow> m = Some t \<and> m' = None"
  by (auto simp: mutex_unlock_def)

lemma mutex_unlock_None [simp]: "mutex_unlock t m = None \<longleftrightarrow> m \<noteq> Some t"
  by (auto simp: mutex_unlock_def)

subsection \<open>What correct users get\<close>

text \<open>
  Threads whose steps enter and leave a section only together with locking and unlocking: the
  thread inside the section is the owner of the mutex, so there is at most one.
\<close>

locale mutex_users =
  fixes start :: "'s \<Rightarrow> bool" and step :: "'s \<Rightarrow> 's \<Rightarrow> bool"
    and owner :: "'s \<Rightarrow> mutex" and inside :: "'s \<Rightarrow> nat \<Rightarrow> bool"
  assumes start_outside: "start s \<Longrightarrow> owner s = None \<and> \<not> inside s t"
    and step_section: "step s s' \<Longrightarrow>
      (\<forall>t. inside s t = (owner s = Some t)) \<Longrightarrow> (\<forall>t. inside s' t = (owner s' = Some t))"
begin

lemma owner_inside: "step\<^sup>*\<^sup>* s0 s \<Longrightarrow> start s0 \<Longrightarrow> inside s t = (owner s = Some t)"
proof -
  assume "step\<^sup>*\<^sup>* s0 s" and "start s0"
  then have "\<forall>t. inside s t = (owner s = Some t)"
  proof (induction rule: rtranclp_induct)
    case base
    then show ?case using start_outside by auto
  next
    case (step s s')
    then show ?case using step_section by blast
  qed
  then show ?thesis by blast
qed

lemma exclusion: "step\<^sup>*\<^sup>* s0 s \<Longrightarrow> start s0 \<Longrightarrow> inside s t \<Longrightarrow> inside s u \<Longrightarrow> t = u"
  using owner_inside by fastforce

end

text \<open>A queue that is only appended to at the back and taken from at the front.\<close>

locale fifo_queue =
  fixes start :: "'s \<Rightarrow> bool" and step :: "'s \<Rightarrow> 's \<Rightarrow> bool"
    and queued :: "'s \<Rightarrow> 'a list" and pushed :: "'s \<Rightarrow> 'a list" and popped :: "'s \<Rightarrow> 'a list"
  assumes start_queue: "start s \<Longrightarrow> pushed s = popped s @ queued s"
    and step_queue: "step s s' \<Longrightarrow>
      (queued s' = queued s \<and> pushed s' = pushed s \<and> popped s' = popped s)
      \<or> (\<exists>x. queued s' = queued s @ [x] \<and> pushed s' = pushed s @ [x] \<and> popped s' = popped s)
      \<or> (\<exists>x. queued s = x # queued s' \<and> pushed s' = pushed s \<and> popped s' = popped s @ [x])"
begin

lemma fifo: "step\<^sup>*\<^sup>* s0 s \<Longrightarrow> start s0 \<Longrightarrow> pushed s = popped s @ queued s"
proof (induction rule: rtranclp_induct)
  case base
  then show ?case by (rule start_queue)
next
  case (step s s')
  then show ?case using step_queue[OF step.hyps(2)] by auto
qed

end

subsection \<open>The condition variable\<close>

text \<open>
  \<open>cond_lock\<close> locks its own mutex only around \<open>pthread_cond_wait\<close>, and \<open>signal\<close> takes no lock. The
  state is the mutex, the threads blocked in the wait and the threads woken that have to lock
  the mutex again.
\<close>

datatype cl_pc = Cl_Out | Cl_Locking | Cl_Locked | Cl_Waiting | Cl_Woken | Cl_Unlocking

record cond_lock =
  cl_mutex :: mutex
  cl_pc :: "nat \<Rightarrow> cl_pc"

text \<open>The next operation of a thread inside \<open>wait\<close>.\<close>

definition cl_wait :: "nat \<Rightarrow> cond_lock \<Rightarrow> cond_lock option" where
  "cl_wait t s =
     (case cl_pc s t of
        Cl_Out \<Rightarrow> Some (s\<lparr>cl_pc := (cl_pc s)(t := Cl_Locking)\<rparr>)
      | Cl_Locking \<Rightarrow>
          map_option (\<lambda>m. s\<lparr>cl_mutex := m, cl_pc := (cl_pc s)(t := Cl_Locked)\<rparr>) (mutex_lock t (cl_mutex s))
      | Cl_Locked \<Rightarrow>
          map_option (\<lambda>m. s\<lparr>cl_mutex := m, cl_pc := (cl_pc s)(t := Cl_Waiting)\<rparr>) (mutex_unlock t (cl_mutex s))
      | Cl_Waiting \<Rightarrow> None
      | Cl_Woken \<Rightarrow>
          map_option (\<lambda>m. s\<lparr>cl_mutex := m, cl_pc := (cl_pc s)(t := Cl_Unlocking)\<rparr>) (mutex_lock t (cl_mutex s))
      | Cl_Unlocking \<Rightarrow>
          map_option (\<lambda>m. s\<lparr>cl_mutex := m, cl_pc := (cl_pc s)(t := Cl_Out)\<rparr>) (mutex_unlock t (cl_mutex s)))"

text \<open>\<open>signal\<close> wakes one of the waiting threads, \<open>w\<close>, if there is any.\<close>

definition cl_signal :: "nat \<Rightarrow> cond_lock \<Rightarrow> cond_lock" where
  "cl_signal w s = (if cl_pc s w = Cl_Waiting then s\<lparr>cl_pc := (cl_pc s)(w := Cl_Woken)\<rparr> else s)"

inductive cl_step :: "cond_lock \<Rightarrow> cond_lock \<Rightarrow> bool" where
  wait: "cl_wait t s = Some s' \<Longrightarrow> cl_step s s'"
| signal: "cl_pc s w = Cl_Waiting \<Longrightarrow> cl_step s (cl_signal w s)"
| signal_none: "\<forall>w. cl_pc s w \<noteq> Cl_Waiting \<Longrightarrow> cl_step s s"

definition cl_start :: "cond_lock \<Rightarrow> bool" where
  "cl_start s \<longleftrightarrow> cl_mutex s = mutex_init \<and> cl_pc s = (\<lambda>_. Cl_Out)"

definition cl_inside :: "cond_lock \<Rightarrow> nat \<Rightarrow> bool" where
  "cl_inside s t \<longleftrightarrow> cl_pc s t \<in> {Cl_Locked, Cl_Unlocking}"

inductive_cases cl_stepE: "cl_step s s'"

interpretation cl: mutex_users cl_start cl_step cl_mutex cl_inside
proof (unfold_locales, goal_cases)
  case (1 s t)
  then show ?case by (simp add: cl_start_def mutex_init_def cl_inside_def)
next
  case (2 s s')
  from 2(1) show ?case
  proof (rule cl_stepE, goal_cases)
    case (1 t)
    then show ?case using 2(2)
      by (cases "cl_pc s t") (auto simp: cl_wait_def cl_inside_def split: if_splits)
  next
    case (2 w)
    then show ?case
      using \<open>\<forall>t. cl_inside s t = (cl_mutex s = Some t)\<close> \<open>\<forall>t. cl_inside s t = (cl_mutex s = Some t)\<close>[THEN spec, of w]
      by (auto simp: cl_signal_def cl_inside_def)
  next
    case 3
    then show ?case using \<open>\<forall>t. cl_inside s t = (cl_mutex s = Some t)\<close> by simp
  qed
qed

text \<open>
  The mutex of \<open>cond_lock\<close> does its job around the wait: whatever the interleaving of waiting
  and signalling threads, at most one of them is between a lock and the following unlock.
\<close>

theorem cond_lock_exclusion:
  assumes "cl_step\<^sup>*\<^sup>* s0 s" and "cl_start s0" and "cl_inside s t" and "cl_inside s u"
  shows "t = u"
  by (rule cl.exclusion[OF assms])

lemma cl_wait_steps:
  assumes "cl_wait t s = Some s1" and "cl_wait t s1 = Some s2"
  shows "cl_step\<^sup>*\<^sup>* s s2"
  using assms by (meson cl_step.wait rtranclp.rtrancl_refl rtranclp.rtrancl_into_rtrancl)

theorem cond_lock_exclusion_witness:
  "\<exists>s. cl_step\<^sup>*\<^sup>* \<lparr>cl_mutex = None, cl_pc = (\<lambda>_. Cl_Out)\<rparr> s \<and> cl_inside s 1 \<and> (\<forall>u. cl_inside s u \<longrightarrow> u = 1)"
proof -
  let ?init = "\<lparr>cl_mutex = None, cl_pc = (\<lambda>_. Cl_Out)\<rparr>"
  let ?s = "\<lparr>cl_mutex = Some 1, cl_pc = (\<lambda>_. Cl_Out)(1 := Cl_Locked)\<rparr>"
  have r: "cl_step\<^sup>*\<^sup>* ?init ?s"
    by (rule cl_wait_steps[where t = 1 and ?s1.0 = "\<lparr>cl_mutex = None, cl_pc = (\<lambda>_. Cl_Out)(1 := Cl_Locking)\<rparr>"])
      (simp_all add: cl_wait_def mutex_lock_def)
  have st: "cl_start ?init" by (simp add: cl_start_def mutex_init_def)
  have i: "cl_inside ?s 1" by (simp add: cl_inside_def)
  show ?thesis using cond_lock_exclusion[OF r st _ i] r i by blast
qed

text \<open>
  A signal that comes before the wait is lost: \<open>cond_lock\<close> keeps no flag next to the condition
  variable, so a thread that enters \<open>wait\<close> after the only \<open>signal\<close> goes through its lock and
  blocks in the wait, where none of its own steps is enabled.
\<close>

theorem cond_lock_signal_lost:
  assumes "cl_mutex s = None" and "cl_pc s t = Cl_Out" and "\<forall>w. cl_pc s w \<noteq> Cl_Waiting"
  shows "\<exists>s1 s2 s3. cl_wait t (cl_signal w s) = Some s1 \<and> cl_wait t s1 = Some s2 \<and> cl_wait t s2 = Some s3
    \<and> cl_wait t s3 = None \<and> cl_mutex s3 = None \<and> cl_pc s3 t = Cl_Waiting"
  using assms by (simp add: cl_signal_def cl_wait_def mutex_lock_def mutex_unlock_def)

theorem cond_lock_signal_lost_witness:
  "\<exists>s1 s2 s3. cl_wait 1 (cl_signal 1 \<lparr>cl_mutex = None, cl_pc = (\<lambda>_. Cl_Out)\<rparr>) = Some s1
    \<and> cl_wait 1 s1 = Some s2 \<and> cl_wait 1 s2 = Some s3 \<and> cl_wait 1 s3 = None"
  using cond_lock_signal_lost[of "\<lparr>cl_mutex = None, cl_pc = (\<lambda>_. Cl_Out)\<rparr>" 1 1] by auto

end
