(* ===== verification/Thread_Pool.thy ===== *)
theory Thread_Pool
  imports Locks "HOL-Library.Multiset"
begin

text \<open>
  The template \<open>thread_pool\<close> (85\_process\_pool\_thread\_pool/thread\_pool.h): threads that call
  \<open>append\<close> and worker threads that run \<open>run\<close>, interleaved at the granularity of the lock, queue
  and semaphore operations. A request is a pointer, possibly null. Each thread has a program
  counter that names its next operation; ghost lists record what was appended, taken and run.
\<close>

subsection \<open>The state and the steps\<close>

datatype 'a tp_pc =
    P_Idle
  | P_Lock "'a option"
  | P_Size "'a option"
  | P_Full
  | P_Pushed
  | P_Post
  | P_Ret bool
  | W_Stop
  | W_Wait
  | W_Lock
  | W_Front
  | W_Empty
  | W_Got "'a option"
  | W_Run 'a
  | W_Exit

record 'a thread_pool =
  tp_queue :: "'a option list"
  tp_lock :: mutex
  tp_sem :: nat
  tp_stop :: bool
  tp_pcs :: "'a tp_pc list"
  tp_pushed :: "'a option list"
  tp_popped :: "'a option list"
  tp_run :: "'a list"

text \<open>The constructor: the counts must be positive, or it throws.\<close>

definition tp_new :: "int \<Rightarrow> int \<Rightarrow> nat \<Rightarrow> 'a thread_pool option" where
  "tp_new thread_num max_request producers =
     (if thread_num \<le> 0 \<or> max_request \<le> 0 then None
      else Some \<lparr>tp_queue = [], tp_lock = mutex_init, tp_sem = sem_init, tp_stop = False,
        tp_pcs = replicate (nat thread_num) W_Stop @ replicate producers P_Idle,
        tp_pushed = [], tp_popped = [], tp_run = []\<rparr>)"

text \<open>The test of \<open>append\<close>: a request is refused when more than \<open>_max_request\<close> wait already.\<close>

definition queue_refuses :: "nat \<Rightarrow> 'a list \<Rightarrow> bool" where
  "queue_refuses max_request q \<longleftrightarrow> length q > max_request"

text \<open>\<open>append\<close> without its locking: the queue after the call, and what it returns.\<close>

definition tp_append :: "nat \<Rightarrow> 'a list \<Rightarrow> 'a \<Rightarrow> 'a list \<times> bool" where
  "tp_append max_request q r = (if queue_refuses max_request q then (q, False) else (q @ [r], True))"

abbreviation goto :: "nat \<Rightarrow> 'a tp_pc \<Rightarrow> 'a thread_pool \<Rightarrow> 'a thread_pool" where
  "goto t pc s \<equiv> s\<lparr>tp_pcs := (tp_pcs s)[t := pc]\<rparr>"

text \<open>The next operation of thread \<open>t\<close>, \<open>None\<close> when it blocks or has none.\<close>

definition tp_act :: "nat \<Rightarrow> nat \<Rightarrow> 'a thread_pool \<Rightarrow> 'a thread_pool option" where
  "tp_act max_request t s =
     (if length (tp_pcs s) \<le> t then None else
      case tp_pcs s ! t of
        P_Idle \<Rightarrow> None
      | P_Lock r \<Rightarrow> map_option (\<lambda>m. goto t (P_Size r) (s\<lparr>tp_lock := m\<rparr>)) (mutex_lock t (tp_lock s))
      | P_Size r \<Rightarrow>
          Some (if queue_refuses max_request (tp_queue s) then goto t P_Full s
                else goto t P_Pushed (s\<lparr>tp_queue := tp_queue s @ [r], tp_pushed := tp_pushed s @ [r]\<rparr>))
      | P_Full \<Rightarrow> map_option (\<lambda>m. goto t (P_Ret False) (s\<lparr>tp_lock := m\<rparr>)) (mutex_unlock t (tp_lock s))
      | P_Pushed \<Rightarrow> map_option (\<lambda>m. goto t P_Post (s\<lparr>tp_lock := m\<rparr>)) (mutex_unlock t (tp_lock s))
      | P_Post \<Rightarrow> Some (goto t (P_Ret True) (s\<lparr>tp_sem := sem_post (tp_sem s)\<rparr>))
      | P_Ret _ \<Rightarrow> None
      | W_Stop \<Rightarrow> Some (goto t (if tp_stop s then W_Exit else W_Wait) s)
      | W_Wait \<Rightarrow> map_option (\<lambda>n. goto t W_Lock (s\<lparr>tp_sem := n\<rparr>)) (sem_wait (tp_sem s))
      | W_Lock \<Rightarrow> map_option (\<lambda>m. goto t W_Front (s\<lparr>tp_lock := m\<rparr>)) (mutex_lock t (tp_lock s))
      | W_Front \<Rightarrow>
          (case tp_queue s of
             [] \<Rightarrow> Some (goto t W_Empty s)
           | r # q \<Rightarrow> Some (goto t (W_Got r) (s\<lparr>tp_queue := q, tp_popped := tp_popped s @ [r]\<rparr>)))
      | W_Empty \<Rightarrow> map_option (\<lambda>m. goto t W_Stop (s\<lparr>tp_lock := m\<rparr>)) (mutex_unlock t (tp_lock s))
      | W_Got r \<Rightarrow>
          map_option (\<lambda>m. goto t (case r of None \<Rightarrow> W_Stop | Some x \<Rightarrow> W_Run x) (s\<lparr>tp_lock := m\<rparr>))
            (mutex_unlock t (tp_lock s))
      | W_Run x \<Rightarrow> Some (goto t W_Stop (s\<lparr>tp_run := tp_run s @ [x]\<rparr>))
      | W_Exit \<Rightarrow> None)"

text \<open>A call of \<open>append\<close> by a thread that is in no call, and the destructor setting \<open>_stop\<close>.\<close>

definition tp_call :: "nat \<Rightarrow> 'a option \<Rightarrow> 'a thread_pool \<Rightarrow> 'a thread_pool" where
  "tp_call t r s = goto t (P_Lock r) s"

inductive tp_step :: "nat \<Rightarrow> 'a thread_pool \<Rightarrow> 'a thread_pool \<Rightarrow> bool" for max_request where
  act: "tp_act max_request t s = Some s' \<Longrightarrow> tp_step max_request s s'"
| call: "t < length (tp_pcs s) \<Longrightarrow> tp_pcs s ! t = P_Idle \<or> (\<exists>b. tp_pcs s ! t = P_Ret b) \<Longrightarrow>
    tp_step max_request s (tp_call t r s)"
| destroy: "tp_step max_request s (s\<lparr>tp_stop := True\<rparr>)"

inductive_cases tp_stepE: "tp_step max_request s s'"

definition tp_start :: "'a thread_pool \<Rightarrow> bool" where
  "tp_start s \<longleftrightarrow> tp_queue s = [] \<and> tp_lock s = mutex_init \<and> tp_sem s = sem_init \<and> tp_pushed s = []
     \<and> tp_popped s = [] \<and> tp_run s = [] \<and> set (tp_pcs s) \<subseteq> {W_Stop, P_Idle}"

lemma tp_new_start: "tp_new n m k = Some s \<Longrightarrow> tp_start s"
  by (auto simp: tp_new_def tp_start_def split: if_splits)

subsection \<open>Mutual exclusion and order\<close>

fun in_section :: "'a tp_pc \<Rightarrow> bool" where
  "in_section (P_Size r) = True"
| "in_section P_Full = True"
| "in_section P_Pushed = True"
| "in_section W_Front = True"
| "in_section W_Empty = True"
| "in_section (W_Got r) = True"
| "in_section _ = False"

definition tp_inside :: "'a thread_pool \<Rightarrow> nat \<Rightarrow> bool" where
  "tp_inside s t \<longleftrightarrow> t < length (tp_pcs s) \<and> in_section (tp_pcs s ! t)"

text \<open>What one operation does to the lock and to the program counter of its thread.\<close>

lemma tp_act_lock:
  assumes "tp_act m t s = Some s'"
  shows "t < length (tp_pcs s) \<and> tp_pcs s' = (tp_pcs s)[t := tp_pcs s' ! t]
    \<and> ((tp_lock s' = tp_lock s \<and> in_section (tp_pcs s' ! t) = in_section (tp_pcs s ! t))
      \<or> (tp_lock s = None \<and> tp_lock s' = Some t \<and> in_section (tp_pcs s' ! t))
      \<or> (tp_lock s = Some t \<and> tp_lock s' = None \<and> \<not> in_section (tp_pcs s' ! t)))"
proof -
  have "t < length (tp_pcs s)" using assms by (auto simp: tp_act_def split: if_splits)
  then show ?thesis
    using assms
    by (cases "tp_pcs s ! t") (auto simp: tp_act_def split: if_splits list.splits option.splits)
qed

lemma tp_act_section:
  assumes "tp_act m t s = Some s'" and "\<forall>u. tp_inside s u = (tp_lock s = Some u)"
  shows "tp_inside s' u = (tp_lock s' = Some u)"
proof (cases "u = t")
  case True
  then show ?thesis
    using tp_act_lock[OF assms(1)] assms(2)[rule_format, of t]
    by (metis length_list_update option.distinct(1) tp_inside_def)
next
  case False
  then have "tp_inside s' u = tp_inside s u"
    using tp_act_lock[OF assms(1)] by (metis length_list_update nth_list_update_neq tp_inside_def)
  then show ?thesis
    using tp_act_lock[OF assms(1)] assms(2)[rule_format, of u] False by auto
qed

interpretation tp: mutex_users tp_start "tp_step m" tp_lock tp_inside
proof (unfold_locales, goal_cases)
  case (1 s t)
  then show ?case
    by (auto simp: tp_start_def tp_inside_def mutex_init_def dest!: nth_mem)
next
  case inv: (2 s s')
  from inv(1) show ?case
  proof (rule tp_stepE, goal_cases)
    case (1 t)
    then show ?case using tp_act_section inv(2) by blast
  next
    case (2 t r)
    then have o: "\<not> in_section (tp_pcs s ! t)" by auto
    show ?case
    proof
      fix u
      show "tp_inside s' u = (tp_lock s' = Some u)"
        using 2 o inv(2)[rule_format, of u] inv(2)[rule_format, of t]
        by (cases "u = t") (auto simp: tp_call_def tp_inside_def)
    qed
  next
    case 3
    then show ?case using inv(2) by (simp add: tp_inside_def)
  qed
qed

interpretation tq: fifo_queue tp_start "tp_step m" tp_queue tp_pushed tp_popped
proof (unfold_locales, goal_cases)
  case (1 s)
  then show ?case by (simp add: tp_start_def)
next
  case (2 s s')
  then show ?case
  proof (rule tp_stepE, goal_cases)
    case (1 t)
    then show ?case
      by (auto simp: tp_act_def split: if_splits tp_pc.splits list.splits)
  qed (auto simp: tp_call_def)
qed

subsection \<open>The semaphore counts the queue\<close>

text \<open>
  A request that is in the queue is accounted for by the semaphore, by its producer that still has
  to post, or by a worker that has already been let through and has not taken one yet.
\<close>

fun token :: "'a tp_pc \<Rightarrow> nat" where
  "token P_Pushed = 1"
| "token P_Post = 1"
| "token W_Lock = 1"
| "token W_Front = 1"
| "token _ = 0"

definition tp_tokens :: "'a thread_pool \<Rightarrow> nat" where
  "tp_tokens s = tp_sem s + sum_list (map token (tp_pcs s))"

definition tp_inv :: "nat \<Rightarrow> 'a thread_pool \<Rightarrow> bool" where
  "tp_inv m s \<longleftrightarrow> length (tp_queue s) = tp_tokens s \<and> length (tp_queue s) \<le> m + 1 \<and> W_Empty \<notin> set (tp_pcs s)"

lemma W_Empty_update [simp]: "W_Empty \<notin> set xs \<Longrightarrow> pc \<noteq> W_Empty \<Longrightarrow> W_Empty \<notin> set (xs[t := pc])"
  using set_update_subset_insert[of xs t pc] by auto

lemma tp_act_tokens:
  assumes "tp_act m t s = Some s'" and "tp_pcs s ! t = W_Front \<longrightarrow> tp_queue s \<noteq> []" and "tp_pcs s ! t \<noteq> W_Empty"
  shows "length (tp_queue s') + tp_tokens s = length (tp_queue s) + tp_tokens s'"
proof -
  have t: "t < length (tp_pcs s)" using assms(1) by (auto simp: tp_act_def split: if_splits)
  note upd = sum_list_map_update[OF t, of token "tp_pcs s' ! t"]
  show ?thesis
    using assms t upd
    by (cases "tp_pcs s ! t")
      (auto simp: tp_act_def tp_tokens_def sem_post_def split: if_splits list.splits option.splits)
qed

lemma tp_act_bound:
  assumes "tp_act m t s = Some s'" and "tp_pcs s ! t = W_Front \<longrightarrow> tp_queue s \<noteq> []"
    and "length (tp_queue s) \<le> m + 1" and "W_Empty \<notin> set (tp_pcs s)"
  shows "length (tp_queue s') \<le> m + 1 \<and> W_Empty \<notin> set (tp_pcs s')"
  using assms
  by (cases "tp_pcs s ! t")
    (auto simp: tp_act_def queue_refuses_def split: if_splits list.splits option.splits)

lemma tp_act_inv:
  assumes "tp_act m t s = Some s'" and inv: "tp_inv m s"
  shows "tp_inv m s'"
proof -
  have t: "t < length (tp_pcs s)" using assms(1) by (auto simp: tp_act_def split: if_splits)
  then have e: "tp_pcs s ! t \<noteq> W_Empty" using inv by (metis nth_mem tp_inv_def)
  have le: "token (tp_pcs s ! t) \<le> sum_list (map token (tp_pcs s))"
    using t by (metis elem_le_sum_list length_map nth_map)
  have front: "tp_pcs s ! t = W_Front \<longrightarrow> tp_queue s \<noteq> []"
  proof
    assume "tp_pcs s ! t = W_Front"
    then have "1 \<le> tp_tokens s" using le by (simp add: tp_tokens_def)
    then show "tp_queue s \<noteq> []" using inv by (auto simp: tp_inv_def)
  qed
  show ?thesis
    using tp_act_tokens[OF assms(1) front e] tp_act_bound[OF assms(1) front] inv by (simp add: tp_inv_def)
qed

lemma tp_step_inv [inv_intros]: "tp_step m s s' \<Longrightarrow> tp_inv m s \<Longrightarrow> tp_inv m s'"
proof (erule tp_stepE, goal_cases)
  case (1 t)
  then show ?case using tp_act_inv by blast
next
  case (2 t r)
  then have "token (tp_pcs s ! t) = 0" by auto
  then show ?case
    using 2 sum_list_map_update[of t "tp_pcs s" token "P_Lock r"]
    by (auto simp: tp_inv_def tp_tokens_def tp_call_def)
next
  case 3
  then show ?case by (simp add: tp_inv_def tp_tokens_def)
qed

lemma tp_start_inv: "tp_start s \<Longrightarrow> tp_inv m s"
proof -
  assume s: "tp_start s"
  have "sum_list (map token (tp_pcs s)) = 0"
    by (rule sum_list_map_zero) (use s in \<open>auto simp: tp_start_def\<close>)
  then show ?thesis using s by (auto simp: tp_start_def tp_inv_def tp_tokens_def sem_init_def)
qed

lemma tp_reach_inv: "(tp_step m)\<^sup>*\<^sup>* s0 s \<Longrightarrow> tp_start s0 \<Longrightarrow> tp_inv m s"
  by (induction rule: rtranclp_induct) (auto intro: tp_start_inv tp_step_inv)

subsection \<open>Every request once\<close>

fun held :: "'a tp_pc \<Rightarrow> 'a multiset" where
  "held (W_Got (Some x)) = {#x#}"
| "held (W_Run x) = {#x#}"
| "held _ = {#}"

definition requests :: "'a option list \<Rightarrow> 'a multiset" where
  "requests rs = mset (concat (map (\<lambda>r. case r of None \<Rightarrow> [] | Some x \<Rightarrow> [x]) rs))"

lemma requests_simps [simp]:
  "requests [] = {#}" "requests (rs @ qs) = requests rs + requests qs"
  "requests [None] = {#}" "requests [Some x] = {#x#}"
  by (simp_all add: requests_def)

lemma requests_one [simp]: "requests [r] = held (W_Got r)"
  by (cases r) simp_all

definition tp_once :: "'a thread_pool \<Rightarrow> bool" where
  "tp_once s \<longleftrightarrow> requests (tp_popped s) = mset (tp_run s) + sum_list (map held (tp_pcs s))"

lemma tp_act_once:
  assumes "tp_act m t s = Some s'" and "tp_once s"
  shows "tp_once s'"
proof -
  have t: "t < length (tp_pcs s)" using assms(1) by (auto simp: tp_act_def split: if_splits)
  note upd = sum_list_map_update[OF t, of held "tp_pcs s' ! t"]
  show ?thesis
    using assms t upd
    by (cases "tp_pcs s ! t")
      (auto simp: tp_act_def tp_once_def ac_simps split: if_splits list.splits option.splits)
qed

lemma tp_step_once: "tp_step m s s' \<Longrightarrow> tp_once s \<Longrightarrow> tp_once s'"
proof (erule tp_stepE, goal_cases)
  case (1 t)
  then show ?case using tp_act_once by blast
next
  case (2 t r)
  then have "held (tp_pcs s ! t) = {#}" by auto
  then show ?case
    using 2 sum_list_map_update[of t "tp_pcs s" held "P_Lock r"] by (auto simp: tp_once_def tp_call_def)
next
  case 3
  then show ?case by (simp add: tp_once_def)
qed

lemma tp_start_once: "tp_start s \<Longrightarrow> tp_once s"
proof -
  assume s: "tp_start s"
  have "sum_list (map held (tp_pcs s)) = 0"
    by (rule sum_list_map_zero) (use s in \<open>auto simp: tp_start_def\<close>)
  then show ?thesis using s by (simp add: tp_start_def tp_once_def)
qed

lemma tp_reach_once: "(tp_step m)\<^sup>*\<^sup>* s0 s \<Longrightarrow> tp_start s0 \<Longrightarrow> tp_once s"
  by (induction rule: rtranclp_induct) (auto intro: tp_start_once tp_step_once)

subsection \<open>The properties of the pool\<close>

text \<open>A pool with one worker and one producer on which the theorems are instantiated.\<close>

definition tp_sample :: "nat thread_pool" where
  "tp_sample = \<lparr>tp_queue = [], tp_lock = None, tp_sem = 0, tp_stop = False,
     tp_pcs = [W_Stop, P_Idle], tp_pushed = [], tp_popped = [], tp_run = []\<rparr>"

lemma tp_sample_start: "tp_start tp_sample"
  by (simp add: tp_start_def tp_sample_def mutex_init_def sem_init_def)

text \<open>A whole call of \<open>append\<close> that runs alone, while there is room.\<close>

lemma append_alone:
  assumes "t < length (tp_pcs s)" and "tp_pcs s ! t = P_Idle \<or> (\<exists>b. tp_pcs s ! t = P_Ret b)"
    and "tp_lock s = None" and "length (tp_queue s) \<le> m"
  shows "(tp_step m)\<^sup>*\<^sup>* s (s\<lparr>tp_queue := tp_queue s @ [r], tp_sem := tp_sem s + 1,
     tp_pushed := tp_pushed s @ [r], tp_pcs := (tp_pcs s)[t := P_Ret True]\<rparr>)"
proof -
  let ?s1 = "tp_call t r s"
  let ?s2 = "goto t (P_Size r) (s\<lparr>tp_lock := Some t\<rparr>)"
  let ?s3 = "goto t P_Pushed (s\<lparr>tp_queue := tp_queue s @ [r], tp_lock := Some t, tp_pushed := tp_pushed s @ [r]\<rparr>)"
  let ?s4 = "goto t P_Post (s\<lparr>tp_queue := tp_queue s @ [r], tp_pushed := tp_pushed s @ [r]\<rparr>)"
  let ?s5 = "goto t (P_Ret True) (s\<lparr>tp_queue := tp_queue s @ [r], tp_sem := tp_sem s + 1, tp_pushed := tp_pushed s @ [r]\<rparr>)"
  have "tp_step m s ?s1" using assms(1,2) by (rule tp_step.call)
  moreover have "tp_step m ?s1 ?s2"
    by (rule tp_step.act[of _ t]) (use assms in \<open>simp add: tp_act_def tp_call_def mutex_lock_def\<close>)
  moreover have "tp_step m ?s2 ?s3"
    by (rule tp_step.act[of _ t]) (use assms in \<open>simp add: tp_act_def queue_refuses_def\<close>)
  moreover have "tp_step m ?s3 ?s4"
    by (rule tp_step.act[of _ t]) (use assms in \<open>simp add: tp_act_def mutex_unlock_def\<close>)
  moreover have "tp_step m ?s4 ?s5"
    by (rule tp_step.act[of _ t]) (use assms in \<open>simp add: tp_act_def sem_post_def\<close>)
  ultimately have "(tp_step m)\<^sup>*\<^sup>* s ?s5"
    by (meson converse_rtranclp_into_rtranclp rtranclp.rtrancl_refl)
  then show ?thesis by simp
qed

text \<open>
  The queue lock excludes: in every reachable state of the pool at most one thread, producer
  or worker, is between \<open>lock\<close> and \<open>unlock\<close>.
\<close>

theorem pool_exclusion:
  assumes "(tp_step m)\<^sup>*\<^sup>* s0 s" and "tp_start s0" and "tp_inside s t" and "tp_inside s u"
  shows "t = u"
  by (rule tp.exclusion[OF assms])

theorem pool_exclusion_witness:
  "\<exists>s. (tp_step 3)\<^sup>*\<^sup>* tp_sample s \<and> tp_inside s 1 \<and> (\<forall>u. tp_inside s u \<longrightarrow> u = 1)"
proof -
  let ?s1 = "tp_call 1 (Some 7) tp_sample" and ?s2 = "goto 1 (P_Size (Some 7)) (tp_sample\<lparr>tp_lock := Some 1\<rparr>)"
  have "tp_step 3 tp_sample ?s1" by (rule tp_step.call) (simp_all add: tp_sample_def)
  moreover have "tp_step 3 ?s1 ?s2"
    by (rule tp_step.act[of _ 1]) (simp add: tp_act_def tp_call_def tp_sample_def mutex_lock_def)
  ultimately have r: "(tp_step 3)\<^sup>*\<^sup>* tp_sample ?s2" by simp
  have i: "tp_inside ?s2 1" by (simp add: tp_inside_def tp_sample_def)
  show ?thesis using pool_exclusion[OF r tp_sample_start _ i] r i by blast
qed

text \<open>
  First in, first out: whatever the interleaving, the requests that workers have taken followed
  by those in the queue are the requests that were accepted, in the order of their \<open>append\<close>.
\<close>

theorem pool_fifo:
  assumes "(tp_step m)\<^sup>*\<^sup>* s0 s" and "tp_start s0"
  shows "tp_pushed s = tp_popped s @ tp_queue s"
  by (rule tq.fifo[OF assms])

theorem pool_fifo_witness:
  "\<exists>s. (tp_step 3)\<^sup>*\<^sup>* tp_sample s \<and> tp_pushed s = [Some 7] \<and> tp_popped s @ tp_queue s = [Some 7]"
proof -
  let ?s = "tp_sample\<lparr>tp_queue := [Some 7], tp_pushed := [Some 7], tp_sem := 1, tp_pcs := [W_Stop, P_Ret True]\<rparr>"
  have r: "(tp_step 3)\<^sup>*\<^sup>* tp_sample ?s"
    using append_alone[of 1 tp_sample 3 "Some 7"] by (simp add: tp_sample_def)
  then show ?thesis using pool_fifo[OF r tp_sample_start] by (intro exI[of _ ?s]) simp
qed

text \<open>
  C34. The semaphore and the threads in flight account for exactly the requests in the queue. So a
  worker that was let through always finds a request (the branch for an empty queue is dead) and
  the queue never holds more than \<open>_max_request + 1\<close> requests.
\<close>

theorem pool_tokens:
  assumes "(tp_step m)\<^sup>*\<^sup>* s0 s" and "tp_start s0"
  shows "length (tp_queue s) = tp_sem s + sum_list (map token (tp_pcs s))
    \<and> W_Empty \<notin> set (tp_pcs s) \<and> length (tp_queue s) \<le> m + 1"
  using tp_reach_inv[OF assms] by (simp add: tp_inv_def tp_tokens_def)

theorem pool_tokens_witness:
  "\<exists>s. (tp_step 3)\<^sup>*\<^sup>* tp_sample s \<and> length (tp_queue s) = 1 \<and> tp_sem s + sum_list (map token (tp_pcs s)) = 1"
proof -
  let ?s = "tp_sample\<lparr>tp_queue := [Some 7], tp_pushed := [Some 7], tp_sem := 1, tp_pcs := [W_Stop, P_Ret True]\<rparr>"
  have r: "(tp_step 3)\<^sup>*\<^sup>* tp_sample ?s"
    using append_alone[of 1 tp_sample 3 "Some 7"] by (simp add: tp_sample_def)
  then show ?thesis using pool_tokens[OF r tp_sample_start] by (intro exI[of _ ?s]) simp
qed



lemma tp_act_enabled:
  assumes "t < length (tp_pcs s)" and "tp_act m t s = None" and "tp_inside s t = (tp_lock s = Some t)"
  shows "(tp_pcs s ! t = P_Idle \<or> (\<exists>b. tp_pcs s ! t = P_Ret b) \<or> tp_pcs s ! t = W_Exit
      \<or> (tp_pcs s ! t = W_Wait \<and> tp_sem s = 0))
    \<or> (\<exists>r. tp_pcs s ! t = P_Lock r \<or> tp_pcs s ! t = W_Lock) \<and> tp_lock s \<noteq> None"
  using assms
  by (cases "tp_pcs s ! t") (auto simp: tp_act_def tp_inside_def split: if_splits list.splits option.splits)

text \<open>
  C33. No request is forgotten: when no thread of the pool can move and at least one worker is
  waiting for the semaphore, the queue is empty; so a non-empty queue always has a thread that can
  move, a worker among them unless all have left after the destructor ran.
\<close>

theorem pool_no_lost_request:
  assumes "(tp_step m)\<^sup>*\<^sup>* s0 s" and "tp_start s0" and "\<forall>t. tp_act m t s = None"
    and "W_Wait \<in> set (tp_pcs s)"
  shows "tp_queue s = []"
proof -
  have own: "tp_inside s t = (tp_lock s = Some t)" for t by (rule tp.owner_inside[OF assms(1,2)])
  have free: "tp_lock s = None"
  proof (rule ccontr)
    assume "tp_lock s \<noteq> None"
    then obtain t where t: "tp_lock s = Some t" by blast
    then have i: "t < length (tp_pcs s)" "in_section (tp_pcs s ! t)" using own by (auto simp: tp_inside_def)
    show False using tp_act_enabled[OF i(1) _ own] assms(3) i(2) by fastforce
  qed
  have quiet: "token pc = 0 \<and> (pc = W_Wait \<longrightarrow> tp_sem s = 0)" if "pc \<in> set (tp_pcs s)" for pc
  proof -
    obtain t where t: "t < length (tp_pcs s)" "tp_pcs s ! t = pc" using \<open>pc \<in> _\<close> by (auto simp: in_set_conv_nth)
    show ?thesis using tp_act_enabled[OF t(1) assms(3)[rule_format] own] free t(2) by auto
  qed
  then have "sum_list (map token (tp_pcs s)) = 0" by (simp add: sum_list_map_zero)
  moreover have "tp_sem s = 0" using quiet assms(4) by blast
  moreover have "length (tp_queue s) = tp_tokens s" using tp_reach_inv[OF assms(1,2)] by (simp add: tp_inv_def)
  ultimately have "length (tp_queue s) = 0" by (simp only: tp_tokens_def)
  then show ?thesis by simp
qed

theorem pool_no_lost_request_witness:
  "\<exists>s. (tp_step 3)\<^sup>*\<^sup>* tp_sample s \<and> (\<forall>t. tp_act 3 t s = None) \<and> W_Wait \<in> set (tp_pcs s) \<and> tp_queue s = []"
proof -
  let ?s = "goto 0 W_Wait tp_sample"
  have "tp_step 3 tp_sample ?s" by (rule tp_step.act[of _ 0]) (simp add: tp_act_def tp_sample_def)
  then have r: "(tp_step 3)\<^sup>*\<^sup>* tp_sample ?s" by blast
  have n: "\<forall>t. tp_act 3 t ?s = None"
    by (auto simp: tp_act_def tp_sample_def nth_Cons' less_Suc_eq)
  have w: "W_Wait \<in> set (tp_pcs ?s)" by (simp add: tp_sample_def)
  show ?thesis using pool_no_lost_request[OF r tp_sample_start n w] r n w by blast
qed

text \<open>
  The test \<open>_queue.size() > _max_request\<close> lets one request too many in: a run in which the
  workers do not move fills the queue with \<open>_max_request + 1\<close> requests.
\<close>

theorem pool_one_over_limit:
  assumes "tp_new 1 (int m) 1 = Some s0"
  shows "\<exists>s. (tp_step m)\<^sup>*\<^sup>* s0 s \<and> length (tp_queue s) = m + 1"
proof -
  have "k \<le> m + 1 \<Longrightarrow> \<exists>s. (tp_step m)\<^sup>*\<^sup>* s0 s \<and> length (tp_queue s) = k \<and> tp_lock s = None
      \<and> length (tp_pcs s) = 2 \<and> (tp_pcs s ! 1 = P_Idle \<or> (\<exists>b. tp_pcs s ! 1 = P_Ret b))" for k
  proof (induction k)
    case 0
    show ?case
      using assms by (intro exI[of _ s0]) (auto simp: tp_new_def mutex_init_def split: if_splits)
  next
    case (Suc k)
    then obtain s where s: "(tp_step m)\<^sup>*\<^sup>* s0 s" "length (tp_queue s) = k" "tp_lock s = None"
      "length (tp_pcs s) = 2" "tp_pcs s ! 1 = P_Idle \<or> (\<exists>b. tp_pcs s ! 1 = P_Ret b)" by auto
    let ?s = "s\<lparr>tp_queue := tp_queue s @ [None], tp_sem := tp_sem s + 1,
       tp_pushed := tp_pushed s @ [None], tp_pcs := (tp_pcs s)[1 := P_Ret True]\<rparr>"
    have "(tp_step m)\<^sup>*\<^sup>* s ?s"
      by (rule append_alone) (use s Suc.prems in auto)
    then have "(tp_step m)\<^sup>*\<^sup>* s0 ?s" using s(1) by (rule rtranclp_trans[rotated])
    then show ?case using s(2-4) by (intro exI[of _ ?s]) auto
  qed
  from this[of "m + 1"] show ?thesis by auto
qed

theorem pool_one_over_limit_witness:
  "\<exists>s0 s. tp_new 1 1 1 = Some s0 \<and> (tp_step 1)\<^sup>*\<^sup>* s0 s \<and> length (tp_queue (s :: nat thread_pool)) = 2"
proof -
  obtain s0 :: "nat thread_pool" where s0: "tp_new 1 (int 1) 1 = Some s0" by (simp add: tp_new_def)
  show ?thesis using pool_one_over_limit[OF s0] s0 by auto
qed

end
