(* ===== verification/Http_Server.thy ===== *)
theory Http_Server
  imports Http_Process Thread_Pool
begin

text \<open>
  \<open>http_conn_test\<close> of 85\_process\_pool\_thread\_pool/main.cpp: the event loop that accepts, reads and
  writes, and the worker threads that process what was read. The kernel's part is the interest
  registered for each descriptor: an event is delivered only for what is registered, and delivering
  it disables the descriptor until it is armed again (\<open>EPOLLONESHOT\<close>). Since a descriptor in the
  queue is disabled, a worker has its connection to itself and its work is one step.
\<close>

subsection \<open>The masks\<close>

definition IN_MASK :: "32 word" where "IN_MASK = EPOLLIN OR EPOLLET OR EPOLLONESHOT OR EPOLLRDHUP"
definition OUT_MASK :: "32 word" where "OUT_MASK = EPOLLOUT OR EPOLLET OR EPOLLONESHOT OR EPOLLRDHUP"

lemma mask_bits: "IN_MASK AND EPOLLOUT = 0" "OUT_MASK AND EPOLLIN = 0" "IN_MASK \<noteq> 0" "OUT_MASK \<noteq> 0"
  "IN_MASK \<noteq> OUT_MASK"
  by (simp_all add: IN_MASK_def OUT_MASK_def epoll_defs)

lemma kernel_mod_fd2:
  "kernel_calls (mod_fd2 fd EPOLLIN) k = (if k fd = None then k else k(fd \<mapsto> IN_MASK))"
  "kernel_calls (mod_fd2 fd EPOLLOUT) k = (if k fd = None then k else k(fd \<mapsto> OUT_MASK))"
  by (simp_all add: mod_fd2_def IN_MASK_def OUT_MASK_def)

lemma kernel_add_fd2: "kernel_calls (add_fd2 fd True) k = k(fd \<mapsto> IN_MASK)"
  by (simp add: add_fd2_def IN_MASK_def ac_simps)

lemma kernel_remove_fd2: "kernel_calls (remove_fd2 fd) k = k(fd := None)"
  by (simp add: remove_fd2_def)

lemma kernel_unmap [simp]: "kernel_calls (snd (unmap c)) k = k"
  by (simp add: unmap_def)

subsection \<open>The server\<close>

definition MAX_FD :: int where "MAX_FD = 65536"

record http_server =
  users :: "int \<Rightarrow> http_conn"
  user_cnt :: int
  tasks :: "int list"
  interest :: interest

text \<open>A new connection, or the message for one too many.\<close>

definition show_error :: "int \<Rightarrow> string \<Rightarrow> sys_call list" where
  "show_error fd msg = [Send fd msg, Close fd]"

definition on_accept :: "int \<Rightarrow> http_server \<Rightarrow> http_server \<times> sys_call list" where
  "on_accept cfd sv =
     (if cfd < 0 then (sv, [])
      else if MAX_FD \<le> user_cnt sv then (sv, show_error cfd ''internal server busy'')
      else (let (c, k, n) = open_conn cfd (users sv cfd) (user_cnt sv)
            in (sv\<lparr>users := (users sv)(cfd := c), user_cnt := n\<rparr>, k)))"

definition close_user :: "int \<Rightarrow> http_server \<Rightarrow> http_server \<times> sys_call list" where
  "close_user fd sv =
     (let (c, k, n) = close_conn True (users sv fd) (user_cnt sv)
      in (sv\<lparr>users := (users sv)(fd := c), user_cnt := n\<rparr>, k))"

text \<open>An event of a connection; what \<open>append\<close> returns is ignored.\<close>

definition on_event ::
  "int \<Rightarrow> 32 word \<Rightarrow> recv_event list \<Rightarrow> send_event list \<Rightarrow> http_server \<Rightarrow> (http_server \<times> sys_call list) result"
where
  "on_event fd ev rs ss sv =
     (if ev AND (EPOLLRDHUP OR EPOLLHUP OR EPOLLERR) \<noteq> 0 then Inr (close_user fd sv)
      else if ev AND EPOLLIN \<noteq> 0 then
        bindR (read_conn (users sv fd) rs) (\<lambda>(c, _, ok).
          let sv' = sv\<lparr>users := (users sv)(fd := c)\<rparr>
          in if ok then Inr (sv'\<lparr>tasks := fst (tp_append 10000 (tasks sv') fd)\<rparr>, [])
             else Inr (close_user fd sv'))
      else if ev AND EPOLLOUT \<noteq> 0 then
        (let (c, k, ok) = write_conn (users sv fd) ss;
             sv' = sv\<lparr>users := (users sv)(fd := c)\<rparr>
         in if ok then Inr (sv', k)
            else (let (sv'', k') = close_user fd sv' in Inr (sv'', k @ k')))
      else Inr (sv, []))"

text \<open>A worker takes the first task and runs \<open>process\<close> on its connection.\<close>

definition on_work :: "fs_env \<Rightarrow> http_server \<Rightarrow> (http_server \<times> sys_call list) result" where
  "on_work env sv =
     (case tasks sv of
        [] \<Rightarrow> Inr (sv, [])
      | fd # rest \<Rightarrow>
          bindR (process_conn env (users sv fd) (user_cnt sv)) (\<lambda>(c, k, n).
            Inr (sv\<lparr>users := (users sv)(fd := c), user_cnt := n, tasks := rest\<rparr>, k)))"

text \<open>
  The steps. \<open>accept\<close> returns a descriptor that is not in use, and the process may have at most
  \<open>MAX_FD\<close> descriptors, the size of the array \<open>users\<close>.
\<close>

abbreviation after :: "http_server \<times> sys_call list \<Rightarrow> http_server" where
  "after r \<equiv> (fst r)\<lparr>interest := kernel_calls (snd r) (interest (fst r))\<rparr>"

definition reportable :: "32 word \<Rightarrow> 32 word" where
  "reportable m = (m AND (EPOLLIN OR EPOLLOUT OR EPOLLRDHUP)) OR EPOLLHUP OR EPOLLERR"

definition deliverable :: "32 word \<Rightarrow> 32 word \<Rightarrow> bool" where
  "deliverable ev m \<longleftrightarrow> ev \<noteq> 0 \<and> m \<noteq> 0 \<and> ev AND NOT (reportable m) = 0"

inductive sv_step :: "fs_env \<Rightarrow> http_server \<Rightarrow> http_server \<Rightarrow> bool" for env where
  accept: "interest sv cfd = None \<Longrightarrow> cfd < MAX_FD \<Longrightarrow> sv_step env sv (after (on_accept cfd sv))"
| event: "interest sv fd = Some m \<Longrightarrow> deliverable ev m \<Longrightarrow>
    on_event fd ev rs ss (sv\<lparr>interest := (interest sv)(fd \<mapsto> 0)\<rparr>) = Inr r \<Longrightarrow> sv_step env sv (after r)"
| work: "tasks sv \<noteq> [] \<Longrightarrow> on_work env sv = Inr r \<Longrightarrow> sv_step env sv (after r)"

inductive_cases sv_stepE: "sv_step env sv sv'"

lemma word_mask_split:
  fixes ev :: "32 word"
  assumes "ev AND NOT (a OR b) = 0"
  shows "ev = (ev AND a) OR (ev AND b)"
proof -
  have "ev = (ev AND (a OR b)) OR (ev AND NOT (a OR b))" by (rule bit_word_eqI) (auto simp: bit_simps)
  then have "ev = ev AND (a OR b)" using assms by simp
  then show ?thesis by (simp add: bit.conj_disj_distrib)
qed

abbreviation "ERR_BITS \<equiv> EPOLLRDHUP OR EPOLLHUP OR EPOLLERR"

lemma deliverable_IN: "deliverable ev IN_MASK \<Longrightarrow> ev AND ERR_BITS = 0 \<Longrightarrow> ev AND EPOLLIN \<noteq> 0"
proof
  assume d: "deliverable ev IN_MASK" and e: "ev AND ERR_BITS = 0" and i: "ev AND EPOLLIN = 0"
  have "reportable IN_MASK = EPOLLIN OR ERR_BITS" by (simp add: reportable_def IN_MASK_def epoll_defs)
  then have "ev = (ev AND EPOLLIN) OR (ev AND ERR_BITS)"
    using d word_mask_split by (simp add: deliverable_def)
  then show False using d e i by (simp add: deliverable_def)
qed

lemma deliverable_OUT:
  assumes d: "deliverable ev OUT_MASK" and e: "ev AND ERR_BITS = 0"
  shows "ev AND EPOLLIN = 0 \<and> ev AND EPOLLOUT \<noteq> 0"
proof -
  have "reportable OUT_MASK = EPOLLOUT OR ERR_BITS" by (simp add: reportable_def OUT_MASK_def epoll_defs)
  then have ev: "ev = (ev AND EPOLLOUT) OR (ev AND ERR_BITS)"
    using d word_mask_split by (simp add: deliverable_def)
  then have "ev AND EPOLLOUT = ev" using e by simp
  moreover have "EPOLLOUT AND EPOLLIN = 0" by (simp add: epoll_defs)
  ultimately have "ev AND EPOLLIN = 0" by (metis and.assoc and_zero_eq)
  then show ?thesis using ev e d by (auto simp: deliverable_def)
qed

subsection \<open>The connection objects\<close>

definition conn_ready :: "http_conn \<Rightarrow> bool" where
  "conn_ready c \<longleftrightarrow> http_inv c \<and> reply_inv c \<and> write_idx c = 0"

lemma init_conn_ready: "length (iov c) = 2 \<Longrightarrow> conn_ready (init_conn c)"
  by (simp add: conn_ready_def http_inv_def line_inv_def url_inv_def file_inv_def reply_inv_def init_conn_def
      size_defs)

lemma init_conn_same [simp]:
  "conn_fd (init_conn c) = conn_fd c" "iov (init_conn c) = iov c" "file_addr (init_conn c) = file_addr c"
  by (simp_all add: init_conn_def)

lemma unmap_same [simp]: "iov (fst (unmap c)) = iov c" "reply_inv (fst (unmap c)) = reply_inv c"
  by (simp_all add: unmap_def reply_inv_def)

lemma receive_ready:
  "conn_ready c \<Longrightarrow> read_idx c + length d \<le> READ_BUF_SIZE \<Longrightarrow> conn_ready (receive c d)"
  using receive_inv[of c d] by (simp add: conn_ready_def reply_inv_def receive_def)

text \<open>What \<open>write\<close> leaves behind, and what it arms.\<close>

lemma write_loop_result:
  assumes "write_loop c h t ss = (c', k, ok)" and "reply_inv c" and "kk (conn_fd c) = Some m"
  shows "conn_fd c' = conn_fd c \<and> reply_inv c'
    \<and> (ok \<longrightarrow> kernel_calls k kk = kk(conn_fd c \<mapsto> OUT_MASK)
         \<or> (kernel_calls k kk = kk(conn_fd c \<mapsto> IN_MASK) \<and> conn_ready c'))
    \<and> (\<not> ok \<longrightarrow> (\<exists>m. kernel_calls k kk = kk(conn_fd c \<mapsto> m)))"
  using assms
proof (induction c h t ss arbitrary: c' k ok rule: write_loop.induct)
  case (1 c h t)
  then show ?case by (auto simp: kernel_mod_fd2)
next
  case (2 c h t e rs)
  obtain c1 k1 where u: "unmap c = (c1, k1)" by fastforce
  then have "conn_fd c1 = conn_fd c" "reply_inv c1 = reply_inv c" "kernel_calls k1 kk = kk"
    using unmap_simps(2)[of c] unmap_same(2)[of c] kernel_unmap[of c kk] by auto
  then show ?case
    using "2.prems" u
    by (auto simp: kernel_mod_fd2 fun_upd_idem split: if_splits intro!: exI[of _ m])
next
  case (3 c h t n rs)
  let ?m = "min n (length (iov_bytes c))"
  obtain c1 k1 where u: "unmap c = (c1, k1)" by fastforce
  then have f: "conn_fd c1 = conn_fd c" "reply_inv c1 = reply_inv c" "\<And>kk. kernel_calls k1 kk = kk"
    "iov c1 = iov c"
    using unmap_simps(2)[of c] unmap_same[of c] kernel_unmap[of c] by auto
  have r: "conn_ready (init_conn c1)" using "3.prems"(2) f(4) by (intro init_conn_ready) (simp add: reply_inv_def)
  show ?case
  proof (cases "t - int ?m \<le> h + int ?m")
    case True
    then show ?thesis
      using "3.prems" u f r
      by (auto simp: Let_def kernel_mod_fd2 conn_ready_def split: if_splits)
        (auto simp: fun_upd_def intro!: exI[of _ IN_MASK])
  next
    case False
    obtain c2 k2 ok2 where w: "write_loop c (h + int ?m) (t - int ?m) rs = (c2, k2, ok2)" by (metis prod_cases3)
    then have "c' = c2" "k = Send (conn_fd c) (take ?m (iov_bytes c)) # k2" "ok = ok2"
      using "3.prems"(1) False by (auto simp: Let_def)
    then show ?thesis using "3.IH"[OF refl refl refl refl False w "3.prems"(2,3)] by simp
  qed
qed

lemma write_conn_result:
  assumes "write_conn c ss = (c', k, ok)" and "reply_inv c" and "kk (conn_fd c) = Some m"
  shows "conn_fd c' = conn_fd c \<and> reply_inv c'
    \<and> (ok \<longrightarrow> kernel_calls k kk = kk(conn_fd c \<mapsto> OUT_MASK)
         \<or> (kernel_calls k kk = kk(conn_fd c \<mapsto> IN_MASK) \<and> conn_ready c'))
    \<and> (\<not> ok \<longrightarrow> (\<exists>m. kernel_calls k kk = kk(conn_fd c \<mapsto> m)))"
proof (cases "write_idx c = 0")
  case True
  have "conn_ready (init_conn c)" using assms(2) by (intro init_conn_ready) (simp add: reply_inv_def)
  then show ?thesis using assms True by (auto simp: write_conn_def kernel_mod_fd2 conn_ready_def)
next
  case False
  then have "write_loop c 0 (int (write_idx c)) ss = (c', k, ok)" using assms(1) by (simp add: write_conn_def)
  then show ?thesis using write_loop_result assms(2,3) by blast
qed

lemma process_write_result:
  assumes "reply_inv c" and "write_idx c = 0"
  shows "\<exists>c' w. process_write c ret = Inr (c', w) \<and> reply_inv c' \<and> conn_fd c' = conn_fd c"
proof -
  have fd: "conn_fd c' = conn_fd c" if "reply_frame c' = reply_frame c" for c' using that by (simp add: reply_frame_def)
  consider (c1) "ret \<in> {INTERNAL_ERROR, BAD_REQUEST, NO_RESOURCE, FORBIDDEN_REQUEST}"
    | (c2) "ret = FILE_REQUEST" | (c3) "ret \<in> {NO_REQUEST, GET_REQUEST, CLOSED_CONNECTION}"
    by (cases ret) auto
  then show ?thesis
  proof cases
    case c1
    then show ?thesis using process_write_error_aux[OF assms] fd by blast
  next
    case c3
    then show ?thesis using assms by (auto simp: process_write_def)
  next
    case c2
    show ?thesis
    proof (cases "st_size (file_stat c) = 0")
      case True
      then show ?thesis using process_write_empty_aux[OF assms] fd c2 by blast
    next
      case False
      let ?n = "st_size (file_stat c)"
      have "fits c (status_line 200 ok_200_title @ headers_text (linger c) ?n)"
        using assms(2) length_file_head[of "linger c" ?n] by (simp add: fits_def file_head_def WRITE_BUF_SIZE_def)
      then obtain c1 c2 where c: "add_status_line c 200 ok_200_title = Inr (c1, True)"
        "reply_frame c1 = reply_frame c" "add_headers c1 ?n = Inr (c2, True)" "reply_inv c2"
        "reply_frame c2 = reply_frame c"
        using head_spec[OF assms(1)] by metis
      have "file_stat c1 = file_stat c" using c(2) by (simp add: reply_frame_def)
      moreover have "reply_inv (c2\<lparr>iov := [a, b], iov_cnt := 2\<rparr>)" for a b using c(4) by (simp add: reply_inv_def)
      ultimately show ?thesis using c False c2 fd[OF c(5)] by (auto simp: process_write_def)
    qed
  qed
qed

lemma process_read_result:
  assumes "conn_ready c"
  shows "(\<forall>f. process_read env c = Inl f \<longrightarrow> body_fault f)
    \<and> (\<forall>c1 ret. process_read env c = Inr (c1, ret) \<longrightarrow> reply_inv c1 \<and> write_idx c1 = 0
       \<and> conn_fd c1 = conn_fd c \<and> (ret = NO_REQUEST \<longrightarrow> conn_ready c1))"
proof -
  have i: "http_inv c" "reply_inv c" "write_idx c = 0" using assms by (auto simp: conn_ready_def)
  note l = process_read_loop_inv[OF i(1), of env LINE_OK, folded process_read_def]
  have "reply_inv c1 \<and> write_idx c1 = 0 \<and> conn_fd c1 = conn_fd c"
    if "process_read env c = Inr (c1, ret)" for c1 ret
    using out_part_reply_inv[OF process_read_out[OF that] i(2)] i(3) by simp
  then show ?thesis using l unfolding conn_ready_def by blast
qed

lemma process_conn_result:
  assumes r: "conn_ready c" and fd: "0 \<le> conn_fd c" and kk: "kk (conn_fd c) = Some m" "kk (-1) = None"
  shows "(\<forall>f. process_conn env c cnt = Inl f \<longrightarrow> body_fault f)
    \<and> (\<forall>c' k n. process_conn env c cnt = Inr (c', k, n) \<longrightarrow> reply_inv c'
       \<and> (n = cnt \<and> conn_fd c' = conn_fd c \<and> (kernel_calls k kk = kk(conn_fd c \<mapsto> OUT_MASK)
             \<or> (kernel_calls k kk = kk(conn_fd c \<mapsto> IN_MASK) \<and> conn_ready c'))
         \<or> n = cnt - 1 \<and> kernel_calls k kk = kk(conn_fd c := None)))"
proof (cases "process_read env c")
  case (Inl f)
  then show ?thesis using process_read_result[OF r, of env] by (auto simp: process_conn_def)
next
  case (Inr p)
  obtain c1 ret where p: "p = (c1, ret)" by fastforce
  have o: "reply_inv c1" "write_idx c1 = 0" "conn_fd c1 = conn_fd c" "ret = NO_REQUEST \<longrightarrow> conn_ready c1"
    using process_read_result[OF r, of env] Inr p by auto
  show ?thesis
  proof (cases "ret = NO_REQUEST")
    case True
    have pc: "process_conn env c cnt = Inr (c1, mod_fd2 (conn_fd c) EPOLLIN, cnt)"
      using Inr p True o(3) by (simp add: process_conn_def)
    have "kernel_calls (mod_fd2 (conn_fd c) EPOLLIN) kk = kk(conn_fd c \<mapsto> IN_MASK)" using kk by (simp add: kernel_mod_fd2)
    then show ?thesis using o True unfolding pc by simp
  next
    case False
    obtain c2 w where w: "process_write c1 ret = Inr (c2, w)" "reply_inv c2" "conn_fd c2 = conn_fd c"
      using process_write_result[OF o(1,2), of ret] o(3) by auto
    show ?thesis
    proof (cases w)
      case True
      have pc: "process_conn env c cnt = Inr (c2, mod_fd2 (conn_fd c) EPOLLOUT, cnt)"
        using Inr p False w True by (simp add: process_conn_def)
      have "kernel_calls (mod_fd2 (conn_fd c) EPOLLOUT) kk = kk(conn_fd c \<mapsto> OUT_MASK)" using kk by (simp add: kernel_mod_fd2)
      then show ?thesis using w unfolding pc by simp
    next
      case f: False
      have pc: "process_conn env c cnt = Inr (c2\<lparr>conn_fd := -1\<rparr>, remove_fd2 (conn_fd c) @ mod_fd2 (-1) EPOLLOUT, cnt - 1)"
        using Inr p False w f fd by (simp add: process_conn_def close_conn_def)
      have "reply_inv (c2\<lparr>conn_fd := -1\<rparr>)" using w(2) by (simp add: reply_inv_def)
      moreover have "kernel_calls (remove_fd2 (conn_fd c) @ mod_fd2 (-1) EPOLLOUT) kk = kk(conn_fd c := None)"
        using kk(2) fd by (simp add: kernel_remove_fd2 kernel_mod_fd2)
      ultimately show ?thesis unfolding pc by simp
    qed
  qed
qed

subsection \<open>The invariant of the server\<close>

text \<open>
  A registered descriptor belongs to its connection object; it waits for input, waits for output,
  or is disabled with a request that was read. What is in the queue is registered and disabled.
\<close>

definition user_ok :: "http_server \<Rightarrow> int \<Rightarrow> bool" where
  "user_ok sv fd \<longleftrightarrow> length (iov (users sv fd)) = 2 \<and>
     (case interest sv fd of
        None \<Rightarrow> fd \<notin> set (tasks sv)
      | Some m \<Rightarrow> 0 \<le> fd \<and> conn_fd (users sv fd) = fd \<and> reply_inv (users sv fd)
          \<and> (m = IN_MASK \<and> conn_ready (users sv fd) \<and> fd \<notin> set (tasks sv)
             \<or> m = OUT_MASK \<and> fd \<notin> set (tasks sv)
             \<or> m = 0 \<and> conn_ready (users sv fd)))"

definition sv_inv :: "http_server \<Rightarrow> bool" where
  "sv_inv sv \<longleftrightarrow> (\<forall>fd. user_ok sv fd) \<and> distinct (tasks sv) \<and> finite (dom (interest sv))
     \<and> user_cnt sv = int (card (dom (interest sv)))"

lemma sv_inv_update:
  assumes inv: "sv_inv sv" and ts: "\<forall>g. g \<noteq> fd \<longrightarrow> (g \<in> set ts) = (g \<in> set (tasks sv))" "distinct ts"
    and n: "n = int (card (dom ((interest sv)(fd := x))))"
    and ok: "user_ok (sv\<lparr>users := (users sv)(fd := c), user_cnt := n, tasks := ts, interest := (interest sv)(fd := x)\<rparr>) fd"
  shows "sv_inv (sv\<lparr>users := (users sv)(fd := c), user_cnt := n, tasks := ts, interest := (interest sv)(fd := x)\<rparr>)"
proof -
  let ?sv = "sv\<lparr>users := (users sv)(fd := c), user_cnt := n, tasks := ts, interest := (interest sv)(fd := x)\<rparr>"
  have "user_ok ?sv g" for g
  proof (cases "g = fd")
    case False
    then have "user_ok sv g" "(g \<in> set ts) = (g \<in> set (tasks sv))" using inv ts(1) by (simp_all add: sv_inv_def)
    then show ?thesis using False by (simp add: user_ok_def split: option.splits)
  qed (use ok in simp)
  moreover have "finite (dom (interest ?sv))" using inv by (cases x) (simp_all add: sv_inv_def)
  ultimately show ?thesis using ts(2) n by (simp add: sv_inv_def)
qed

lemma card_dom_same: "k fd = Some m \<Longrightarrow> dom (k(fd \<mapsto> m')) = dom k"
  by auto

lemma card_dom_less: "finite (dom k) \<Longrightarrow> k fd = Some m \<Longrightarrow> int (card (dom (k(fd := None)))) = int (card (dom k)) - 1"
proof -
  assume f: "finite (dom k)" and m: "k fd = Some m"
  have "0 < card (dom k)" using f m by (auto simp: card_gt_0_iff)
  then show ?thesis using f m by (simp add: card_Diff_singleton domI)
qed

lemma sv_inv_user:
  assumes "sv_inv sv" and "interest sv fd = Some m"
  shows "0 \<le> fd" "conn_fd (users sv fd) = fd" "reply_inv (users sv fd)" "length (iov (users sv fd)) = 2"
    "m \<noteq> 0 \<Longrightarrow> fd \<notin> set (tasks sv)" "m \<noteq> OUT_MASK \<Longrightarrow> conn_ready (users sv fd)"
    "m = IN_MASK \<or> m = OUT_MASK \<or> m = 0"
  using assms by (auto simp: sv_inv_def user_ok_def dest!: spec[of _ fd])

lemma sv_inv_tasks: "sv_inv sv \<Longrightarrow> fd \<in> set (tasks sv) \<Longrightarrow> interest sv fd = Some 0"
  using mask_bits by (fastforce simp: sv_inv_def user_ok_def split: option.splits dest!: spec[of _ fd])

text \<open>Closing a connection that is registered and not in the queue.\<close>

lemma close_user_inv:
  assumes inv: "sv_inv sv" and m: "interest sv fd = Some m" and nt: "fd \<notin> set (tasks sv)"
    and c: "conn_fd c = fd" "length (iov c) = 2" and "sv1 = sv\<lparr>users := (users sv)(fd := c), interest := (interest sv)(fd \<mapsto> m')\<rparr>"
  shows "sv_inv (after (close_user fd sv1))"
proof -
  have fd: "0 \<le> fd" using sv_inv_user(1)[OF inv m] .
  have "after (close_user fd sv1) = sv\<lparr>users := (users sv)(fd := c\<lparr>conn_fd := -1\<rparr>), user_cnt := user_cnt sv - 1,
      tasks := tasks sv, interest := (interest sv)(fd := None)\<rparr>"
    using c fd by (simp add: assms(6) close_user_def close_conn_def kernel_remove_fd2)
  moreover have "user_cnt sv - 1 = int (card (dom ((interest sv)(fd := None))))"
    using inv m card_dom_less[of "interest sv" fd m] by (simp add: sv_inv_def)
  ultimately show ?thesis
    using sv_inv_update[OF inv _ _ _, of fd "tasks sv" "user_cnt sv - 1" None "c\<lparr>conn_fd := -1\<rparr>"] inv nt c
    by (simp add: user_ok_def sv_inv_def)
qed

lemma on_accept_inv:
  assumes inv: "sv_inv sv" and k: "interest sv cfd = None"
  shows "sv_inv (after (on_accept cfd sv))"
proof -
  consider "cfd < 0" | "0 \<le> cfd" "MAX_FD \<le> user_cnt sv" | "0 \<le> cfd" "user_cnt sv < MAX_FD" by linarith
  then show ?thesis
  proof cases
    case 1
    then show ?thesis using inv by (simp add: on_accept_def)
  next
    case 2
    then have "after (on_accept cfd sv) = sv" using k by (simp add: on_accept_def show_error_def fun_upd_idem)
    then show ?thesis using inv by simp
  next
    case 3
    have u: "length (iov (users sv cfd)) = 2" "cfd \<notin> set (tasks sv)" "distinct (tasks sv)"
      using inv k by (auto simp: sv_inv_def user_ok_def dest!: spec[of _ cfd])
    let ?c = "init_conn ((users sv cfd)\<lparr>conn_fd := cfd\<rparr>)"
    have "conn_ready ?c" by (rule init_conn_ready) (simp add: u)
    then have ok: "conn_ready ?c" "reply_inv ?c" by (auto simp: conn_ready_def)
    have e: "after (on_accept cfd sv) = sv\<lparr>users := (users sv)(cfd := ?c), user_cnt := user_cnt sv + 1,
        tasks := tasks sv, interest := (interest sv)(cfd \<mapsto> IN_MASK)\<rparr>"
      using 3 by (simp add: on_accept_def open_conn_def kernel_add_fd2)
    have n: "user_cnt sv + 1 = int (card (dom ((interest sv)(cfd \<mapsto> IN_MASK))))"
      using inv k by (simp add: sv_inv_def domIff)
    show ?thesis unfolding e
      by (rule sv_inv_update[OF inv _ u(3) n]) (use u ok 3 in \<open>simp_all add: user_ok_def\<close>)
  qed
qed

lemma on_event_inv:
  assumes inv: "sv_inv sv" and m: "interest sv fd = Some m" and d: "deliverable ev m"
  shows "\<exists>r. on_event fd ev rs ss (sv\<lparr>interest := (interest sv)(fd \<mapsto> 0)\<rparr>) = Inr r \<and> sv_inv (after r)"
proof -
  note u = sv_inv_user[OF inv m]
  have m0: "m \<noteq> 0" using d by (simp add: deliverable_def)
  have nt: "fd \<notin> set (tasks sv)" by (rule u(5)[OF m0])
  let ?sv = "sv\<lparr>interest := (interest sv)(fd \<mapsto> 0)\<rparr>"
  note close = close_user_inv[OF inv m nt]
  consider (err) "ev AND ERR_BITS \<noteq> 0"
    | (rd) "ev AND ERR_BITS = 0" "m = IN_MASK" | (wr) "ev AND ERR_BITS = 0" "m = OUT_MASK"
    using u(7) m0 by blast
  then show ?thesis
  proof cases
    case err
    have "sv_inv (after (close_user fd ?sv))"
      by (rule close[of "users sv fd" _ 0]) (simp_all add: u)
    then show ?thesis using err by (simp add: on_event_def)
  next
    case rd
    have r: "conn_ready (users sv fd)" using u(6) rd(2) mask_bits by simp
    then have hi: "http_inv (users sv fd)" by (simp add: conn_ready_def)
    obtain x es' ok where x: "read_conn (users sv fd) rs = Inr (receive (users sv fd) x, es', ok)"
      "read_idx (users sv fd) + length x \<le> READ_BUF_SIZE"
      using read_conn_spec_aux[OF hi, of rs] by blast
    let ?c = "receive (users sv fd) x"
    have cr: "conn_ready ?c" using receive_ready[OF r x(2)] .
    have ci: "conn_fd ?c = fd" "length (iov ?c) = 2" using u(2,4) by (simp_all add: receive_def)
    have i: "ev AND EPOLLIN \<noteq> 0" using deliverable_IN d rd by blast
    show ?thesis
    proof (cases ok)
      case True
      let ?ts = "fst (tp_append 10000 (tasks sv) fd)"
      have ts: "?ts = tasks sv \<or> ?ts = tasks sv @ [fd]" by (simp add: tp_append_def)
      have e: "on_event fd ev rs ss ?sv = Inr (?sv\<lparr>users := (users sv)(fd := ?c), tasks := ?ts\<rparr>, [])"
        using rd i x True by (simp add: on_event_def)
      have dm: "dom ((interest sv)(fd \<mapsto> 0)) = dom (interest sv)" using m by (rule card_dom_same)
      have "sv_inv (sv\<lparr>users := (users sv)(fd := ?c), user_cnt := user_cnt sv, tasks := ?ts,
          interest := (interest sv)(fd \<mapsto> 0)\<rparr>)"
      proof (rule sv_inv_update[OF inv])
        show "\<forall>g. g \<noteq> fd \<longrightarrow> (g \<in> set ?ts) = (g \<in> set (tasks sv))" using ts by auto
        show "distinct ?ts" using ts nt inv by (auto simp: sv_inv_def)
        show "user_cnt sv = int (card (dom ((interest sv)(fd \<mapsto> 0))))" using inv unfolding dm by (simp add: sv_inv_def)
        show "user_ok (sv\<lparr>users := (users sv)(fd := ?c), user_cnt := user_cnt sv, tasks := ?ts,
            interest := (interest sv)(fd \<mapsto> 0)\<rparr>) fd"
          using u(1) ci(2) cr by (simp add: user_ok_def conn_ready_def u(2))
      qed
      then show ?thesis using e by simp
    next
      case False
      have "sv_inv (after (close_user fd (?sv\<lparr>users := (users sv)(fd := ?c)\<rparr>)))"
        by (rule close[of ?c _ 0]) (use ci u(2) in simp_all)
      then show ?thesis using rd i x False by (simp add: on_event_def)
    qed
  next
    case wr
    obtain c k ok where w: "write_conn (users sv fd) ss = (c, k, ok)" by (metis prod_cases3)
    let ?kk = "(interest sv)(fd \<mapsto> 0)"
    have wr_res: "conn_fd c = fd" "reply_inv c"
      "ok \<longrightarrow> kernel_calls k ?kk = (interest sv)(fd \<mapsto> OUT_MASK)
         \<or> (kernel_calls k ?kk = (interest sv)(fd \<mapsto> IN_MASK) \<and> conn_ready c)"
      "\<not> ok \<longrightarrow> (\<exists>m. kernel_calls k ?kk = (interest sv)(fd \<mapsto> m))"
      using write_conn_result[OF w u(3), of ?kk 0] u(2) by auto
    have i: "ev AND EPOLLIN = 0" "ev AND EPOLLOUT \<noteq> 0" using deliverable_OUT d wr by auto
    have l: "length (iov c) = 2" using wr_res(2) by (simp add: reply_inv_def)
    show ?thesis
    proof (cases ok)
      case True
      then obtain x where x: "kernel_calls k ?kk = (interest sv)(fd \<mapsto> x)" "x = OUT_MASK \<or> (x = IN_MASK \<and> conn_ready c)"
        using wr_res(3) by blast
      have dm: "dom ((interest sv)(fd \<mapsto> x)) = dom (interest sv)" using m by (rule card_dom_same)
      have "sv_inv (sv\<lparr>users := (users sv)(fd := c), user_cnt := user_cnt sv, tasks := tasks sv,
          interest := (interest sv)(fd \<mapsto> x)\<rparr>)"
      proof (rule sv_inv_update[OF inv])
        show "distinct (tasks sv)" using inv by (simp add: sv_inv_def)
        show "user_cnt sv = int (card (dom ((interest sv)(fd \<mapsto> x))))" using inv unfolding dm by (simp add: sv_inv_def)
        show "user_ok (sv\<lparr>users := (users sv)(fd := c), user_cnt := user_cnt sv, tasks := tasks sv,
            interest := (interest sv)(fd \<mapsto> x)\<rparr>) fd"
          using u(1) wr_res(1,2) l x(2) nt by (auto simp: user_ok_def)
      qed simp
      then show ?thesis using wr i w True x(1) by (simp add: on_event_def)
    next
      case False
      then obtain x where x: "kernel_calls k ?kk = (interest sv)(fd \<mapsto> x)" using wr_res(4) by blast
      have "sv_inv (after (close_user fd (sv\<lparr>users := (users sv)(fd := c), interest := (interest sv)(fd \<mapsto> x)\<rparr>)))"
        by (rule close[of c _ x]) (simp_all add: wr_res(1) l)
      then show ?thesis using wr i w False x by (simp add: on_event_def close_user_def Let_def split: prod.splits)
    qed
  qed
qed

lemma on_work_inv:
  assumes inv: "sv_inv sv" and ne: "tasks sv \<noteq> []"
  shows "(\<forall>f. on_work env sv = Inl f \<longrightarrow> body_fault f) \<and> (\<forall>r. on_work env sv = Inr r \<longrightarrow> sv_inv (after r))"
proof -
  obtain fd rest where t: "tasks sv = fd # rest" using ne by (cases "tasks sv") auto
  have m: "interest sv fd = Some 0" by (rule sv_inv_tasks[OF inv]) (simp add: t)
  note u = sv_inv_user[OF inv m]
  have cr: "conn_ready (users sv fd)" using u(6) mask_bits(4) by simp
  have dt: "distinct rest" "fd \<notin> set rest" using inv t by (auto simp: sv_inv_def)
  have neg: "interest sv (-1) = None" using sv_inv_user(1)[OF inv, of "-1"] by (cases "interest sv (-1)") auto
  note pc = process_conn_result[where c = "users sv fd" and kk = "interest sv" and m = 0 and env = env
      and cnt = "user_cnt sv", unfolded u(2), OF cr u(1) m neg]
  have "sv_inv (after r)" if r: "on_work env sv = Inr r" for r
  proof -
    obtain c k n where p: "process_conn env (users sv fd) (user_cnt sv) = Inr (c, k, n)"
      and r': "r = (sv\<lparr>users := (users sv)(fd := c), user_cnt := n, tasks := rest\<rparr>, k)"
      using r t by (auto simp: on_work_def elim!: bindR_InrE)
    have ri: "reply_inv c" and cs: "n = user_cnt sv \<and> conn_fd c = fd \<and> (kernel_calls k (interest sv) = (interest sv)(fd \<mapsto> OUT_MASK)
             \<or> (kernel_calls k (interest sv) = (interest sv)(fd \<mapsto> IN_MASK) \<and> conn_ready c))
         \<or> n = user_cnt sv - 1 \<and> kernel_calls k (interest sv) = (interest sv)(fd := None)"
      using pc p by blast+
    then obtain x where x: "kernel_calls k (interest sv) = (interest sv)(fd := x)"
      "(x = None \<and> n = user_cnt sv - 1) \<or> ((x = Some OUT_MASK \<or> (x = Some IN_MASK \<and> conn_ready c)) \<and> n = user_cnt sv \<and> conn_fd c = fd)"
      by blast
    have "n = int (card (dom ((interest sv)(fd := x))))"
    proof (cases x)
      case None
      then show ?thesis using x(2) inv m card_dom_less[of "interest sv" fd 0] by (simp add: sv_inv_def)
    next
      case (Some y)
      then show ?thesis using x(2) inv unfolding Some card_dom_same[of "interest sv" fd 0 y, OF m] by (auto simp: sv_inv_def)
    qed
    then have "sv_inv (sv\<lparr>users := (users sv)(fd := c), user_cnt := n, tasks := rest, interest := (interest sv)(fd := x)\<rparr>)"
    proof (rule sv_inv_update[OF inv, rotated 2])
      show "user_ok (sv\<lparr>users := (users sv)(fd := c), user_cnt := n, tasks := rest, interest := (interest sv)(fd := x)\<rparr>) fd"
        using x(2) ri dt(2) u(1) by (auto simp: user_ok_def reply_inv_def)
    qed (use t dt in auto)
    then show ?thesis using r' x(1) by simp
  qed
  moreover have "body_fault f" if "on_work env sv = Inl f" for f
    using that pc t by (auto simp: on_work_def bindR_eq_Inl)
  ultimately show ?thesis by blast
qed

lemma sv_step_inv [inv_intros]: "sv_step env sv sv' \<Longrightarrow> sv_inv sv \<Longrightarrow> sv_inv sv'"
proof (erule sv_stepE, goal_cases)
  case (1 cfd)
  then show ?case using on_accept_inv by simp
next
  case (2 fd m ev rs ss r)
  then show ?case using on_event_inv[of sv fd m ev rs ss] by auto
next
  case (3 r)
  then show ?case using on_work_inv by simp
qed

subsection \<open>The properties of the server\<close>

definition sv_start :: "http_server \<Rightarrow> bool" where
  "sv_start sv \<longleftrightarrow> (\<forall>fd. length (iov (users sv fd)) = 2) \<and> user_cnt sv = 0 \<and> tasks sv = [] \<and> interest sv = (\<lambda>_. None)"

lemma sv_start_inv: "sv_start sv \<Longrightarrow> sv_inv sv"
  by (simp add: sv_start_def sv_inv_def user_ok_def)

lemma sv_reach_inv: "(sv_step env)\<^sup>*\<^sup>* sv0 sv \<Longrightarrow> sv_inv sv0 \<Longrightarrow> sv_inv sv"
  by (induction rule: rtranclp_induct) (auto intro: sv_step_inv)

definition sv_sample :: http_server where
  "sv_sample = \<lparr>users = (\<lambda>fd. sample_conn []), user_cnt = 0, tasks = [], interest = (\<lambda>_. None)\<rparr>"

lemma sv_sample_start: "sv_start sv_sample"
  by (simp add: sv_start_def sv_sample_def sample_conn_def)





subsection \<open>The full queue\<close>

definition stranded :: "http_server \<Rightarrow> int \<Rightarrow> bool" where
  "stranded sv fd \<longleftrightarrow> interest sv fd = Some 0 \<and> fd \<notin> set (tasks sv)"

lemma close_user_other:
  assumes "conn_fd (users sv g) = g" and "g \<noteq> fd"
  shows "interest (after (close_user g sv)) fd = interest sv fd \<and> tasks (after (close_user g sv)) = tasks sv"
  using assms by (simp add: close_user_def close_conn_def kernel_remove_fd2)

lemma on_event_other:
  assumes inv: "sv_inv sv" and m: "interest sv g = Some m" and d: "deliverable ev m" and ne: "g \<noteq> fd"
    and e: "on_event g ev rs ss (sv\<lparr>interest := (interest sv)(g \<mapsto> 0)\<rparr>) = Inr r"
  shows "interest (after r) fd = interest sv fd \<and> (fd \<in> set (tasks (after r)) \<longleftrightarrow> fd \<in> set (tasks sv))"
proof -
  note u = sv_inv_user[OF inv m]
  let ?sv = "sv\<lparr>interest := (interest sv)(g \<mapsto> 0)\<rparr>"
  consider (err) "ev AND ERR_BITS \<noteq> 0" | (rd) "ev AND ERR_BITS = 0" "ev AND EPOLLIN \<noteq> 0"
    | (wr) "ev AND ERR_BITS = 0" "ev AND EPOLLIN = 0" "ev AND EPOLLOUT \<noteq> 0"
    | (no) "ev AND ERR_BITS = 0" "ev AND EPOLLIN = 0" "ev AND EPOLLOUT = 0" by blast
  then show ?thesis
  proof cases
    case err
    then have "r = close_user g ?sv" using e by (simp add: on_event_def)
    then show ?thesis using close_user_other[of ?sv g fd] u(2) ne by simp
  next
    case no
    then show ?thesis using e ne by (auto simp: on_event_def)
  next
    case rd
    obtain c es ok where c: "read_conn (users sv g) rs = Inr (c, es, ok)"
      and r: "r = (if ok then (?sv\<lparr>users := (users sv)(g := c), tasks := fst (tp_append 10000 (tasks sv) g)\<rparr>, [])
                   else close_user g (?sv\<lparr>users := (users sv)(g := c)\<rparr>))"
      using e rd by (auto simp: on_event_def Let_def elim!: bindR_InrE split: if_splits)
    show ?thesis
    proof (cases ok)
      case True
      then show ?thesis using r ne by (simp add: tp_append_def)
    next
      case False
      have "m = IN_MASK"
        using u(7) d rd deliverable_OUT by (auto simp: deliverable_def)
      then have "http_inv (users sv g)" using u(6) mask_bits(5) by (simp add: conn_ready_def)
      then obtain x where "c = receive (users sv g) x" using read_conn_spec_aux[of "users sv g" rs] c by auto
      then have "conn_fd c = g" using u(2) by simp
      then show ?thesis using False r close_user_other[of "?sv\<lparr>users := (users sv)(g := c)\<rparr>" g fd] ne by simp
    qed
  next
    case wr
    obtain c k ok where w: "write_conn (users sv g) ss = (c, k, ok)" by (metis prod_cases3)
    have f: "conn_fd c = g" "(\<exists>x. kernel_calls k ((interest sv)(g \<mapsto> 0)) = (interest sv)(g := x))"
      using write_conn_result[OF w u(3), of "(interest sv)(g \<mapsto> 0)" 0] u(2) by (cases ok, auto)
    have r: "r = (if ok then (?sv\<lparr>users := (users sv)(g := c)\<rparr>, k)
        else (?sv\<lparr>users := (users sv)(g := c\<lparr>conn_fd := -1\<rparr>), user_cnt := user_cnt sv - 1\<rparr>, k @ remove_fd2 g))"
      using e wr w f(1) u(1) by (auto simp: on_event_def close_user_def close_conn_def)
    obtain x where "kernel_calls k ((interest sv)(g \<mapsto> 0)) = (interest sv)(g := x)" using f(2) by blast
    then show ?thesis using r ne by (simp add: kernel_remove_fd2)
  qed
qed

lemma on_work_other:
  assumes inv: "sv_inv sv" and ne: "tasks sv \<noteq> []" and s: "fd \<notin> set (tasks sv)" and r: "on_work env sv = Inr r"
    and reg: "interest sv fd = Some m"
  shows "interest (after r) fd = interest sv fd \<and> fd \<notin> set (tasks (after r))"
proof -
  obtain g rest where t: "tasks sv = g # rest" using ne by (cases "tasks sv") auto
  have m: "interest sv g = Some 0" by (rule sv_inv_tasks[OF inv]) (simp add: t)
  note u = sv_inv_user[OF inv m]
  have cr: "conn_ready (users sv g)" using u(6) mask_bits(4) by simp
  have neg: "interest sv (-1) = None" using sv_inv_user(1)[OF inv, of "-1"] by (cases "interest sv (-1)") auto
  note pc = process_conn_result[where c = "users sv g" and kk = "interest sv" and m = 0 and env = env
      and cnt = "user_cnt sv", unfolded u(2), OF cr u(1) m neg]
  obtain c k n where p: "process_conn env (users sv g) (user_cnt sv) = Inr (c, k, n)"
    and r': "r = (sv\<lparr>users := (users sv)(g := c), user_cnt := n, tasks := rest\<rparr>, k)"
    using r t by (auto simp: on_work_def elim!: bindR_InrE)
  have "\<exists>x. kernel_calls k (interest sv) = (interest sv)(g := x)" using pc p by blast
  then show ?thesis using r' s t by auto
qed

lemma stranded_step:
  assumes "sv_step env sv sv'" and inv: "sv_inv sv" and s: "stranded sv fd"
  shows "stranded sv' fd"
  using assms(1)
proof (rule sv_stepE, goal_cases)
  case (1 cfd)
  then have "cfd \<noteq> fd" using s by (auto simp: stranded_def)
  then show ?case using 1 s
    by (auto simp: stranded_def on_accept_def show_error_def open_conn_def kernel_add_fd2 Let_def)
next
  case (2 g m ev rs ss r)
  then have "g \<noteq> fd" using s by (auto simp: stranded_def deliverable_def)
  then show ?case using on_event_other[OF inv 2(2,3) _ 2(4)] 2(1) s by (simp add: stranded_def)
next
  case (3 r)
  then show ?case using on_work_other[OF inv, of fd env r] s by (simp add: stranded_def)
qed

text \<open>
  The result of \<open>append\<close> is ignored: when the queue is full, the connection whose request was
  just read is open and counted, disabled in the kernel and not in the queue, and it stays so
  whatever the server does afterwards; the client gets no answer and is never closed.
\<close>

theorem full_queue_strands:
  assumes "sv_inv sv" and "interest sv fd = Some IN_MASK" and "10000 < length (tasks sv)"
    and "read_conn (users sv fd) rs = Inr (c, es, True)"
    and "on_event fd EPOLLIN rs ss (sv\<lparr>interest := (interest sv)(fd \<mapsto> 0)\<rparr>) = Inr r"
    and "(sv_step env)\<^sup>*\<^sup>* (after r) sv2"
  shows "interest sv2 fd = Some 0 \<and> fd \<notin> set (tasks sv2)"
proof -
  have nt: "fd \<notin> set (tasks sv)" using sv_inv_user(5)[OF assms(1,2)] mask_bits(3) by simp
  have b: "EPOLLIN AND ERR_BITS = 0" "EPOLLIN AND EPOLLIN \<noteq> 0" by (simp_all add: epoll_defs)
  have d: "deliverable EPOLLIN IN_MASK" by (simp add: deliverable_def reportable_def IN_MASK_def epoll_defs)
  have "r = (sv\<lparr>interest := (interest sv)(fd \<mapsto> 0), users := (users sv)(fd := c)\<rparr>, [])"
    using assms(3-5) b by (simp add: on_event_def tp_append_def queue_refuses_def)
  then have s: "stranded (after r) fd" using nt by (simp add: stranded_def)
  have i: "sv_inv (after r)" using on_event_inv[OF assms(1,2) d, of rs ss] assms(5) by simp
  have "sv_inv sv2 \<and> stranded sv2 fd"
    using assms(6) by (induction rule: rtranclp_induct) (use i s stranded_step sv_step_inv in blast)+
  then show ?thesis by (simp add: stranded_def)
qed

text \<open>A server with a full queue: connections 6 to 10006 are queued, connection 5 has new input.\<close>

definition sv_full :: http_server where
  "sv_full = \<lparr>users = (\<lambda>fd. (sample_conn [])\<lparr>conn_fd := fd\<rparr>), user_cnt = 10002,
     tasks = [6..10006],
     interest = (\<lambda>fd. if fd = 5 then Some IN_MASK else if 6 \<le> fd \<and> fd \<le> 10006 then Some 0 else None)\<rparr>"

lemma sv_full_inv: "sv_inv sv_full"
proof -
  have ready: "conn_ready ((sample_conn [])\<lparr>conn_fd := fd\<rparr>)" for fd
    using http_inv_sample[of "[]"] reply_inv_sample[of "[]"]
    by (simp add: conn_ready_def http_inv_def line_inv_def url_inv_def file_inv_def reply_inv_def)
  then have "reply_inv ((sample_conn [])\<lparr>conn_fd := fd\<rparr>)" for fd by (simp add: conn_ready_def)
  then have "user_ok sv_full fd" for fd
    using ready by (auto simp: user_ok_def sv_full_def sample_conn_def[of "[]"] simp del: upto_rec_numeral)
  moreover have "dom (interest sv_full) = {5..10006}" by (auto simp: sv_full_def split: if_splits simp del: upto_rec_numeral)
  ultimately show ?thesis by (simp add: sv_inv_def) (simp add: sv_full_def del: upto_rec_numeral)
qed

theorem full_queue_strands_witness:
  "\<exists>r. on_event 5 EPOLLIN [Data ''GET''] [] (sv_full\<lparr>interest := (interest sv_full)(5 \<mapsto> 0)\<rparr>) = Inr r
    \<and> (\<forall>sv2. (sv_step sample_env)\<^sup>*\<^sup>* (after r) sv2 \<longrightarrow> interest sv2 5 = Some 0 \<and> 5 \<notin> set (tasks sv2))"
proof -
  have m: "interest sv_full 5 = Some IN_MASK" by (simp add: sv_full_def del: upto_rec_numeral)
  have d: "deliverable EPOLLIN IN_MASK" by (simp add: deliverable_def reportable_def IN_MASK_def epoll_defs)
  obtain r where r: "on_event 5 EPOLLIN [Data ''GET''] [] (sv_full\<lparr>interest := (interest sv_full)(5 \<mapsto> 0)\<rparr>) = Inr r"
    using on_event_inv[OF sv_full_inv m d] by blast
  have "\<exists>c es. read_conn (users sv_full 5) [Data ''GET''] = Inr (c, es, True)"
    by (simp add: sv_full_def read_conn_def sample_conn_def READ_BUF_SIZE_def read_loop.simps blit_def
        del: upto_rec_numeral)
  moreover have "10000 < length (tasks sv_full)" by (simp add: sv_full_def del: upto_rec_numeral)
  ultimately show ?thesis using full_queue_strands[OF sv_full_inv m _ _ r] r by blast
qed

end
