(* ===== verification/Cv_Pool.thy ===== *)
theory Cv_Pool
  imports Locks
begin

text \<open>
  Class \<open>ThreadPool\<close> of 04\_thread/main.cpp: workers that wait on a condition variable for tasks,
  \<open>pool_add_worker\<close>, and the destructor that sets \<open>shutdown\<close>, wakes everyone and joins the
  workers. The steps are the lock, condition and list operations of the source; waiting on the
  condition releases the mutex and blocks in one step.
\<close>

subsection \<open>The state and the steps\<close>

datatype 'a cv_pc =
    K_Lock
  | K_Test
  | K_Wait
  | K_Waiting
  | K_Woken
  | K_Exit
  | K_Pop
  | K_Unlock 'a
  | K_Run 'a
  | K_Gone
  | C_Idle
  | C_Lock 'a
  | C_Push 'a
  | C_Unlock
  | C_Signal
  | D_Start
  | D_Broadcast
  | D_Join nat
  | D_Done

record 'a cv_pool =
  cv_workers :: "'a list"
  cv_size :: int
  cv_lock :: mutex
  cv_shutdown :: bool
  cv_threads :: nat
  cv_pcs :: "'a cv_pc list"
  cv_pushed :: "'a list"
  cv_popped :: "'a list"

text \<open>\<open>pool_init\<close>: \<open>n\<close> workers; then \<open>k\<close> threads that add tasks and the one that will destroy the pool.\<close>

definition pool_init :: "nat \<Rightarrow> nat \<Rightarrow> 'a cv_pool" where
  "pool_init n k = \<lparr>cv_workers = [], cv_size = 0, cv_lock = mutex_init, cv_shutdown = False,
     cv_threads = n, cv_pcs = replicate n K_Lock @ replicate k C_Idle @ [D_Start],
     cv_pushed = [], cv_popped = []\<rparr>"

abbreviation cv_goto :: "nat \<Rightarrow> 'a cv_pc \<Rightarrow> 'a cv_pool \<Rightarrow> 'a cv_pool" where
  "cv_goto t pc s \<equiv> s\<lparr>cv_pcs := (cv_pcs s)[t := pc]\<rparr>"

definition is_waiting :: "'a cv_pool \<Rightarrow> nat \<Rightarrow> bool" where
  "is_waiting s w \<longleftrightarrow> w < length (cv_pcs s) \<and> cv_pcs s ! w = K_Waiting"

definition wake_all :: "'a cv_pc list \<Rightarrow> 'a cv_pc list" where
  "wake_all pcs = map (\<lambda>pc. case pc of K_Waiting \<Rightarrow> K_Woken | _ \<Rightarrow> pc) pcs"

text \<open>The worker loop \<open>thread_routine\<close>.\<close>

definition thread_routine :: "nat \<Rightarrow> 'a cv_pool \<Rightarrow> 'a cv_pool option" where
  "thread_routine t s =
     (case cv_pcs s ! t of
        K_Lock \<Rightarrow> map_option (\<lambda>m. cv_goto t K_Test (s\<lparr>cv_lock := m\<rparr>)) (mutex_lock t (cv_lock s))
      | K_Test \<Rightarrow>
          Some (cv_goto t (if cv_size s = 0 \<and> \<not> cv_shutdown s then K_Wait
                           else if cv_shutdown s then K_Exit else K_Pop) s)
      | K_Wait \<Rightarrow> map_option (\<lambda>m. cv_goto t K_Waiting (s\<lparr>cv_lock := m\<rparr>)) (mutex_unlock t (cv_lock s))
      | K_Woken \<Rightarrow> map_option (\<lambda>m. cv_goto t K_Test (s\<lparr>cv_lock := m\<rparr>)) (mutex_lock t (cv_lock s))
      | K_Exit \<Rightarrow> map_option (\<lambda>m. cv_goto t K_Gone (s\<lparr>cv_lock := m\<rparr>)) (mutex_unlock t (cv_lock s))
      | K_Pop \<Rightarrow>
          (case cv_workers s of
             [] \<Rightarrow> None
           | x # xs \<Rightarrow> Some (cv_goto t (K_Unlock x)
               (s\<lparr>cv_workers := xs, cv_size := cv_size s - 1, cv_popped := cv_popped s @ [x]\<rparr>)))
      | K_Unlock x \<Rightarrow> map_option (\<lambda>m. cv_goto t (K_Run x) (s\<lparr>cv_lock := m\<rparr>)) (mutex_unlock t (cv_lock s))
      | K_Run x \<Rightarrow> Some (cv_goto t K_Lock s)
      | _ \<Rightarrow> None)"

text \<open>
  \<open>pool_add_worker\<close>. The signal wakes the waiting thread \<open>w\<close>; it wakes nobody only if nobody
  waits.
\<close>

definition pool_add_worker :: "nat \<Rightarrow> nat \<Rightarrow> 'a cv_pool \<Rightarrow> 'a cv_pool option" where
  "pool_add_worker w t s =
     (case cv_pcs s ! t of
        C_Lock x \<Rightarrow> map_option (\<lambda>m. cv_goto t (C_Push x) (s\<lparr>cv_lock := m\<rparr>)) (mutex_lock t (cv_lock s))
      | C_Push x \<Rightarrow>
          Some (cv_goto t C_Unlock (s\<lparr>cv_workers := cv_workers s @ [x], cv_size := cv_size s + 1,
            cv_pushed := cv_pushed s @ [x]\<rparr>))
      | C_Unlock \<Rightarrow> map_option (\<lambda>m. cv_goto t C_Signal (s\<lparr>cv_lock := m\<rparr>)) (mutex_unlock t (cv_lock s))
      | C_Signal \<Rightarrow>
          (if is_waiting s w then Some (cv_goto t C_Idle (cv_goto w K_Woken s))
           else if K_Waiting \<in> set (cv_pcs s) then None
           else Some (cv_goto t C_Idle s))
      | _ \<Rightarrow> None)"

text \<open>The destructor, which sets \<open>shutdown\<close> without holding the lock.\<close>

definition pool_destroy :: "nat \<Rightarrow> 'a cv_pool \<Rightarrow> 'a cv_pool option" where
  "pool_destroy t s =
     (case cv_pcs s ! t of
        D_Start \<Rightarrow> Some (if cv_shutdown s then cv_goto t D_Done s
                         else cv_goto t D_Broadcast (s\<lparr>cv_shutdown := True\<rparr>))
      | D_Broadcast \<Rightarrow> Some (cv_goto t (D_Join 0) (s\<lparr>cv_pcs := wake_all (cv_pcs s)\<rparr>))
      | D_Join i \<Rightarrow>
          (if cv_threads s \<le> i then Some (cv_goto t D_Done s)
           else if cv_pcs s ! i = K_Gone then Some (cv_goto t (D_Join (i + 1)) s)
           else None)
      | _ \<Rightarrow> None)"

text \<open>The threads take turns: the next operation of \<open>t\<close>, whichever function it is in.\<close>

definition cv_act :: "nat \<Rightarrow> nat \<Rightarrow> 'a cv_pool \<Rightarrow> 'a cv_pool \<Rightarrow> bool" where
  "cv_act w t s s' \<longleftrightarrow> t < length (cv_pcs s)
     \<and> (thread_routine t s = Some s' \<or> pool_add_worker w t s = Some s' \<or> pool_destroy t s = Some s')"

lemmas cv_ops = thread_routine_def pool_add_worker_def pool_destroy_def

inductive cv_step :: "'a cv_pool \<Rightarrow> 'a cv_pool \<Rightarrow> bool" where
  act: "cv_act w t s s' \<Longrightarrow> cv_step s s'"
| call: "t < length (cv_pcs s) \<Longrightarrow> cv_pcs s ! t = C_Idle \<Longrightarrow> cv_step s (cv_goto t (C_Lock x) s)"

inductive_cases cv_stepE: "cv_step s s'"

definition cv_start :: "'a cv_pool \<Rightarrow> bool" where
  "cv_start s \<longleftrightarrow> (\<exists>n k. 0 < n \<and> s = pool_init n k)"

subsection \<open>The mutex and the queue\<close>

fun cv_section :: "'a cv_pc \<Rightarrow> bool" where
  "cv_section K_Test = True"
| "cv_section K_Wait = True"
| "cv_section K_Exit = True"
| "cv_section K_Pop = True"
| "cv_section (K_Unlock x) = True"
| "cv_section (C_Push x) = True"
| "cv_section C_Unlock = True"
| "cv_section _ = False"

definition cv_inside :: "'a cv_pool \<Rightarrow> nat \<Rightarrow> bool" where
  "cv_inside s t \<longleftrightarrow> t < length (cv_pcs s) \<and> cv_section (cv_pcs s ! t)"

text \<open>Waking threads moves them between two places outside the section.\<close>

definition woken :: "'a cv_pc \<Rightarrow> 'a cv_pc \<Rightarrow> bool" where
  "woken pc pc' \<longleftrightarrow> pc' = pc \<or> (pc = K_Waiting \<and> pc' = K_Woken)"

lemma length_wake_all [simp]: "length (wake_all pcs) = length pcs"
  by (simp add: wake_all_def)

lemma nth_wake_all [simp]:
  "u < length pcs \<Longrightarrow> wake_all pcs ! u = (if pcs ! u = K_Waiting then K_Woken else pcs ! u)"
  by (auto simp: wake_all_def split: cv_pc.splits)

lemma cv_act_others:
  assumes "cv_act w t s s'"
  shows "t < length (cv_pcs s) \<and> length (cv_pcs s') = length (cv_pcs s)
    \<and> (\<forall>u. u < length (cv_pcs s) \<longrightarrow> u \<noteq> t \<longrightarrow> woken (cv_pcs s ! u) (cv_pcs s' ! u))"
  using assms unfolding cv_act_def
  by (cases "cv_pcs s ! t"; elim conjE disjE)
    (auto simp: cv_ops woken_def is_waiting_def nth_list_update split: if_splits list.splits)

lemma cv_act_lock:
  assumes "cv_act w t s s'"
  shows "(cv_lock s' = cv_lock s \<and> cv_section (cv_pcs s' ! t) = cv_section (cv_pcs s ! t))
      \<or> (cv_lock s = None \<and> cv_lock s' = Some t \<and> cv_section (cv_pcs s' ! t))
      \<or> (cv_lock s = Some t \<and> cv_lock s' = None \<and> \<not> cv_section (cv_pcs s' ! t))"
  using assms unfolding cv_act_def
  by (cases "cv_pcs s ! t"; elim conjE disjE)
    (auto simp: cv_ops is_waiting_def nth_list_update split: if_splits list.splits)

lemma woken_section: "woken pc pc' \<Longrightarrow> cv_section pc' = cv_section pc"
  by (auto simp: woken_def)

lemma cv_act_section:
  assumes "cv_act w t s s'" and "\<forall>u. cv_inside s u = (cv_lock s = Some u)"
  shows "cv_inside s' u = (cv_lock s' = Some u)"
proof (cases "u = t")
  case True
  then show ?thesis
    using cv_act_lock[OF assms(1)] cv_act_others[OF assms(1)] assms(2)[rule_format, of t]
    by (auto simp: cv_inside_def)
next
  case False
  then have "cv_inside s' u = cv_inside s u"
    using cv_act_others[OF assms(1)] woken_section by (auto simp: cv_inside_def)
  then show ?thesis
    using cv_act_lock[OF assms(1)] assms(2)[rule_format, of u] False by auto
qed

interpretation cv: mutex_users cv_start cv_step cv_lock cv_inside
proof (unfold_locales, goal_cases)
  case (1 s t)
  then show ?case
    by (auto simp: cv_start_def pool_init_def cv_inside_def mutex_init_def nth_append nth_Cons' split: if_splits)
next
  case inv: (2 s s')
  from inv(1) show ?case
  proof (rule cv_stepE, goal_cases)
    case (1 w t)
    then show ?case using cv_act_section inv(2) by blast
  next
    case (2 t x)
    show ?case
    proof
      fix u
      show "cv_inside s' u = (cv_lock s' = Some u)"
        using 2 inv(2)[rule_format, of u] inv(2)[rule_format, of t]
        by (cases "u = t") (auto simp: cv_inside_def)
    qed
  qed
qed

interpretation cq: fifo_queue cv_start cv_step cv_workers cv_pushed cv_popped
proof (unfold_locales, goal_cases)
  case (1 s)
  then show ?case by (auto simp: cv_start_def pool_init_def)
next
  case (2 s s')
  then show ?case
  proof (rule cv_stepE, goal_cases)
    case (1 w t)
    then show ?case unfolding cv_act_def
      by (cases "cv_pcs s ! t"; elim conjE disjE) (auto simp: cv_ops split: if_splits list.splits)
  qed auto
qed

subsection \<open>The list, its size and the decisions taken under the lock\<close>

text \<open>
  \<open>cur_queue_size\<close> is the length of the list; a worker about to pop has something to pop, one about
  to wait has nothing, and only a destroyed pool loses workers. Thread 0 is a worker.
\<close>

fun is_worker :: "'a cv_pc \<Rightarrow> bool" where
  "is_worker K_Lock = True"
| "is_worker K_Test = True"
| "is_worker K_Wait = True"
| "is_worker K_Waiting = True"
| "is_worker K_Woken = True"
| "is_worker K_Exit = True"
| "is_worker K_Pop = True"
| "is_worker (K_Unlock x) = True"
| "is_worker (K_Run x) = True"
| "is_worker K_Gone = True"
| "is_worker _ = False"

definition cv_size_ok :: "'a cv_pool \<Rightarrow> bool" where
  "cv_size_ok s \<longleftrightarrow> cv_size s = int (length (cv_workers s))"

definition decided :: "'a cv_pool \<Rightarrow> 'a cv_pc \<Rightarrow> bool" where
  "decided s pc \<longleftrightarrow> (pc = K_Pop \<longrightarrow> cv_workers s \<noteq> []) \<and> (pc = K_Wait \<longrightarrow> cv_workers s = [])
     \<and> (pc = K_Exit \<or> pc = K_Gone \<longrightarrow> cv_shutdown s)"

definition cv_inv :: "'a cv_pool \<Rightarrow> bool" where
  "cv_inv s \<longleftrightarrow> cv_size_ok s \<and> (\<forall>t < length (cv_pcs s). decided s (cv_pcs s ! t))
     \<and> cv_pcs s \<noteq> [] \<and> is_worker (cv_pcs s ! 0)"

lemma cv_act_size: "cv_act w t s s' \<Longrightarrow> cv_size_ok s \<Longrightarrow> cv_size_ok s'"
  unfolding cv_act_def
  by (cases "cv_pcs s ! t"; elim conjE disjE) (auto simp: cv_ops cv_size_ok_def split: if_splits list.splits)

lemma cv_act_self:
  assumes "cv_act w t s s'" and "cv_size_ok s" and "decided s (cv_pcs s ! t)"
  shows "decided s' (cv_pcs s' ! t) \<and> is_worker (cv_pcs s' ! t) = is_worker (cv_pcs s ! t)"
  using assms unfolding cv_act_def
  by (cases "cv_pcs s ! t"; elim conjE disjE)
    (auto simp: cv_ops decided_def cv_size_ok_def is_waiting_def nth_list_update split: if_splits list.splits)

text \<open>A thread that holds the lock is not disturbed: the list changes only inside the section.\<close>

lemma cv_act_shared:
  assumes "cv_act w t s s'"
  shows "(cv_workers s' = cv_workers s \<or> cv_section (cv_pcs s ! t)) \<and> (cv_shutdown s \<longrightarrow> cv_shutdown s')
    \<and> cv_threads s' = cv_threads s"
  using assms unfolding cv_act_def
  by (cases "cv_pcs s ! t"; elim conjE disjE) (auto simp: cv_ops split: if_splits list.splits)

lemma woken_worker: "woken pc pc' \<Longrightarrow> is_worker pc' = is_worker pc"
  by (auto simp: woken_def)

lemma cv_act_inv:
  assumes a: "cv_act w t s s'" and inv: "cv_inv s" and own: "\<forall>u. cv_inside s u = (cv_lock s = Some u)"
  shows "cv_inv s'"
proof -
  have t: "t < length (cv_pcs s)" and len: "length (cv_pcs s') = length (cv_pcs s)"
    and oth: "\<forall>u. u < length (cv_pcs s) \<longrightarrow> u \<noteq> t \<longrightarrow> woken (cv_pcs s ! u) (cv_pcs s' ! u)"
    using cv_act_others[OF a] by auto
  have d: "decided s (cv_pcs s ! u)" if "u < length (cv_pcs s)" for u using inv that by (simp add: cv_inv_def)
  have sz: "cv_size_ok s" using inv by (simp add: cv_inv_def)
  have "decided s' (cv_pcs s' ! u)" if u: "u < length (cv_pcs s)" for u
  proof (cases "u = t")
    case True
    then show ?thesis using cv_act_self[OF a sz d[OF t]] by simp
  next
    case False
    note w = oth[rule_format, OF u False] and sh = cv_act_shared[OF a]
    show ?thesis
    proof (cases "cv_section (cv_pcs s ! u)")
      case True
      then have "cv_lock s = Some u" using own u by (auto simp: cv_inside_def)
      then have "\<not> cv_section (cv_pcs s ! t)" using own[rule_format, of t] t False by (auto simp: cv_inside_def)
      then show ?thesis using sh w d[OF u] True by (auto simp: decided_def woken_def)
    next
      case False
      then show ?thesis using sh w d[OF u] by (auto simp: decided_def woken_def)
    qed
  qed
  moreover have "is_worker (cv_pcs s' ! 0)"
    using cv_act_self[OF a sz d[OF t]] oth woken_worker inv t by (cases "t = 0") (auto simp: cv_inv_def)
  moreover have "cv_pcs s' \<noteq> []" using len inv by (auto simp: cv_inv_def)
  ultimately show ?thesis using cv_act_size[OF a sz] len by (simp add: cv_inv_def)
qed

lemma cv_reach_inv: "cv_step\<^sup>*\<^sup>* s0 s \<Longrightarrow> cv_start s0 \<Longrightarrow> cv_inv s"
proof (induction rule: rtranclp_induct)
  case base
  then obtain n k where s0: "0 < n" "s0 = pool_init n k" by (auto simp: cv_start_def)
  have "set (cv_pcs s0) \<subseteq> {K_Lock, C_Idle, D_Start}" by (auto simp: s0 pool_init_def)
  then have "\<forall>t < length (cv_pcs s0). cv_pcs s0 ! t \<in> {K_Lock, C_Idle, D_Start}" by (meson nth_mem subsetD)
  then have "\<forall>t < length (cv_pcs s0). decided s0 (cv_pcs s0 ! t)" by (fastforce simp: decided_def)
  then show ?case using s0(1) by (simp add: s0 cv_inv_def pool_init_def cv_size_ok_def nth_append)
next
  case (step s s')
  have own: "\<forall>u. cv_inside s u = (cv_lock s = Some u)"
    using cv.owner_inside[OF step.hyps(1) step.prems] by blast
  have inv: "cv_inv s" by (rule step.IH[OF step.prems])
  from step.hyps(2) show ?case
  proof (rule cv_stepE, goal_cases)
    case (1 w t)
    then show ?case using cv_act_inv inv own by blast
  next
    case (2 t x)
    then have "t \<noteq> 0" using inv by (metis cv_inv_def is_worker.simps(11))
    then show ?case using 2 inv
      by (auto simp: cv_inv_def cv_size_ok_def decided_def nth_list_update)
  qed
qed

subsection \<open>Who will look at the list\<close>

text \<open>
  A thread is attentive when it will test the list or wake somebody who does before it blocks for
  good. A list that is not empty always has such a thread, until the pool is destroyed.
\<close>

fun attentive :: "'a cv_pc \<Rightarrow> bool" where
  "attentive K_Lock = True"
| "attentive K_Test = True"
| "attentive K_Woken = True"
| "attentive K_Pop = True"
| "attentive (K_Unlock x) = True"
| "attentive (K_Run x) = True"
| "attentive C_Unlock = True"
| "attentive C_Signal = True"
| "attentive _ = False"

definition cv_attended :: "'a cv_pool \<Rightarrow> bool" where
  "cv_attended s \<longleftrightarrow> cv_workers s = [] \<or> cv_shutdown s \<or> (\<exists>t < length (cv_pcs s). attentive (cv_pcs s ! t))"

lemma woken_attentive: "woken pc pc' \<Longrightarrow> attentive pc \<Longrightarrow> attentive pc'"
  by (auto simp: woken_def)

lemma cv_act_attentive:
  assumes "cv_act w t s s'" and "cv_size_ok s" and "decided s (cv_pcs s ! t)"
    and "attentive (cv_pcs s ! t) \<or> cv_workers s = []"
  shows "attentive (cv_pcs s' ! t) \<or> cv_workers s' = [] \<or> cv_shutdown s'
    \<or> (cv_pcs s ! t = C_Signal \<and> (is_waiting s w \<and> attentive (cv_pcs s' ! w) \<or> K_Waiting \<notin> set (cv_pcs s)))"
  using assms unfolding cv_act_def
  by (cases "cv_pcs s ! t"; elim conjE disjE)
    (auto simp: cv_ops decided_def cv_size_ok_def is_waiting_def nth_list_update split: if_splits list.splits)

lemma cv_act_attended:
  assumes a: "cv_act w t s s'" and inv: "cv_inv s" and att: "cv_attended s"
  shows "cv_attended s'"
proof -
  note o = cv_act_others[OF a]
  have t: "t < length (cv_pcs s)" and len: "length (cv_pcs s') = length (cv_pcs s)" using o by auto
  have d: "decided s (cv_pcs s ! u)" if "u < length (cv_pcs s)" for u using inv that by (simp add: cv_inv_def)
  have sz: "cv_size_ok s" using inv by (simp add: cv_inv_def)
  show ?thesis
  proof (cases "attentive (cv_pcs s ! t) \<or> cv_workers s = []")
    case False
    then consider "cv_shutdown s" | u where "u < length (cv_pcs s)" "u \<noteq> t" "attentive (cv_pcs s ! u)"
      using att by (auto simp: cv_attended_def)
    then show ?thesis
    proof cases
      case 1
      then show ?thesis using cv_act_shared[OF a] by (simp add: cv_attended_def)
    next
      case 2
      then have "attentive (cv_pcs s' ! u)" using o woken_attentive by blast
      then show ?thesis using 2 len by (auto simp: cv_attended_def)
    qed
  next
    case True
    from cv_act_attentive[OF a sz d[OF t] True] consider
        "attentive (cv_pcs s' ! t)" | "cv_workers s' = [] \<or> cv_shutdown s'"
      | "is_waiting s w" "attentive (cv_pcs s' ! w)"
      | "cv_pcs s ! t = C_Signal" "K_Waiting \<notin> set (cv_pcs s)" by blast
    then show ?thesis
    proof cases
      case 1
      then show ?thesis using t len by (auto simp: cv_attended_def)
    next
      case 2
      then show ?thesis by (auto simp: cv_attended_def)
    next
      case 3
      then show ?thesis using len by (auto simp: cv_attended_def is_waiting_def)
    next
      case 4
      have z: "0 < length (cv_pcs s)" "is_worker (cv_pcs s ! 0)" using inv by (auto simp: cv_inv_def)
      then have nw: "cv_pcs s ! 0 \<noteq> K_Waiting" "(0::nat) \<noteq> t"
        using 4 nth_mem[of 0 "cv_pcs s"] by (auto simp del: nth_mem, cases t, auto)
      then have same: "cv_pcs s' ! 0 = cv_pcs s ! 0" using o z by (auto simp: woken_def)
      have wk: "cv_workers s' = cv_workers s" using cv_act_shared[OF a] 4 by simp
      show ?thesis
      proof (cases "attentive (cv_pcs s ! 0)")
        case True
        then have "attentive (cv_pcs s' ! 0)" using same by simp
        then show ?thesis using z(1) len unfolding cv_attended_def by (intro disjI2 exI[of _ 0]) simp
      next
        case False
        then have "cv_workers s = [] \<or> cv_shutdown s"
          using z nw d[OF z(1)] by (cases "cv_pcs s ! 0") (auto simp: decided_def)
        then show ?thesis using wk cv_act_shared[OF a] by (auto simp: cv_attended_def)
      qed
    qed
  qed
qed

lemma cv_reach_attended: "cv_step\<^sup>*\<^sup>* s0 s \<Longrightarrow> cv_start s0 \<Longrightarrow> cv_attended s"
proof (induction rule: rtranclp_induct)
  case base
  then show ?case by (auto simp: cv_start_def pool_init_def cv_attended_def)
next
  case (step s s')
  have inv: "cv_inv s" by (rule cv_reach_inv[OF step.hyps(1) step.prems])
  from step.hyps(2) show ?case
  proof (rule cv_stepE, goal_cases)
    case (1 w t)
    then show ?case using cv_act_attended inv step.IH step.prems by blast
  next
    case (2 t x)
    then show ?case using step.IH step.prems
      by (auto simp: cv_attended_def nth_list_update intro: exI)
        (metis attentive.simps(13) length_list_update nth_list_update_neq)
  qed
qed

subsection \<open>The properties of the pool\<close>

lemma cv_sample_start: "cv_start (pool_init 1 1 :: nat cv_pool)"
  unfolding cv_start_def by (intro exI[of _ 1] conjI) simp_all

lemma cv_run:
  assumes "cv_step\<^sup>*\<^sup>* s0 s" and "cv_act w t s s'"
  shows "cv_step\<^sup>*\<^sup>* s0 s'"
  using assms cv_step.act by (meson rtranclp.rtrancl_into_rtrancl)

text \<open>
  In every reachable state at most one thread is inside the section that \<open>queue_lock\<close> guards,
  the tasks taken followed by the tasks in the list are the tasks added in their order,
  \<open>cur_queue_size\<close> is the length of the list, and a worker that is about to call \<open>front\<close> finds the
  list non-empty.
\<close>

theorem cv_pool_consistent:
  assumes "cv_step\<^sup>*\<^sup>* s0 s" and "cv_start s0"
  shows "(cv_inside s t \<longrightarrow> cv_inside s u \<longrightarrow> t = u) \<and> cv_pushed s = cv_popped s @ cv_workers s
    \<and> cv_size s = int (length (cv_workers s))
    \<and> (t < length (cv_pcs s) \<longrightarrow> cv_pcs s ! t = K_Pop \<longrightarrow> cv_workers s \<noteq> [])"
  using cv.exclusion[OF assms] cq.fifo[OF assms] cv_reach_inv[OF assms]
  by (auto simp: cv_inv_def cv_size_ok_def decided_def)

theorem cv_pool_consistent_witness:
  "\<exists>s. cv_step\<^sup>*\<^sup>* (pool_init 1 1 :: nat cv_pool) s \<and> cv_inside s 0 \<and> cv_pushed s = cv_popped s @ cv_workers s
    \<and> cv_size s = int (length (cv_workers s))"
proof -
  let ?s = "cv_goto 0 K_Test ((pool_init 1 1 :: nat cv_pool)\<lparr>cv_lock := Some 0\<rparr>)"
  have "cv_act 0 0 (pool_init 1 1) ?s" by (simp add: cv_act_def thread_routine_def pool_init_def mutex_init_def mutex_lock_def)
  then have r: "cv_step\<^sup>*\<^sup>* (pool_init 1 1) ?s" by (rule cv_run[OF rtranclp.rtrancl_refl])
  have "cv_inside ?s 0" by (simp add: cv_inside_def pool_init_def)
  then show ?thesis using cv_pool_consistent[OF r cv_sample_start, of 0 0] r by blast
qed

lemma cv_section_enabled:
  assumes "t < length (cv_pcs s)" and "cv_section (cv_pcs s ! t)" and "cv_lock s = Some t"
    and "decided s (cv_pcs s ! t)"
  shows "\<exists>s'. cv_act 0 t s s'"
  using assms unfolding cv_act_def
  by (cases "cv_pcs s ! t") (auto simp: cv_ops decided_def neq_Nil_conv)

lemma cv_attentive_enabled:
  assumes "t < length (cv_pcs s)" and "attentive (cv_pcs s ! t)" and "cv_lock s = None"
    and "cv_section (cv_pcs s ! t) \<longrightarrow> cv_lock s = Some t"
  shows "\<exists>w s'. cv_act w t s s'"
proof (cases "cv_pcs s ! t = C_Signal \<and> K_Waiting \<in> set (cv_pcs s)")
  case True
  then obtain w where "w < length (cv_pcs s)" "cv_pcs s ! w = K_Waiting" by (auto simp: in_set_conv_nth)
  then show ?thesis using True assms(1)
    by (intro exI[of _ w]) (auto simp: cv_act_def pool_add_worker_def is_waiting_def)
next
  case False
  then show ?thesis
    using assms unfolding cv_act_def
    by (cases "cv_pcs s ! t") (auto simp: cv_ops is_waiting_def)
qed

text \<open>
  C40. As long as the pool is not destroyed no task is forgotten: when no worker and no thread
  that adds tasks can move, the list is empty.
\<close>

theorem cv_pool_no_lost_task:
  assumes "cv_step\<^sup>*\<^sup>* s0 s" and "cv_start s0" and "\<not> cv_shutdown s" and "\<forall>w t s'. cv_pcs s ! t \<noteq> D_Start \<longrightarrow> \<not> cv_act w t s s'"
  shows "cv_workers s = []"
proof (rule ccontr)
  assume "cv_workers s \<noteq> []"
  then obtain t where t: "t < length (cv_pcs s)" "attentive (cv_pcs s ! t)"
    using cv_reach_attended[OF assms(1,2)] assms(3) by (auto simp: cv_attended_def)
  have own: "cv_inside s u = (cv_lock s = Some u)" for u by (rule cv.owner_inside[OF assms(1,2)])
  have inv: "cv_inv s" by (rule cv_reach_inv[OF assms(1,2)])
  show False
  proof (cases "cv_lock s")
    case None
    have "cv_section (cv_pcs s ! t) \<longrightarrow> cv_lock s = Some t" using own[of t] t(1) by (auto simp: cv_inside_def)
    moreover have "cv_pcs s ! t \<noteq> D_Start" using t(2) by auto
    ultimately show False using cv_attentive_enabled[OF t None] assms(4) by blast
  next
    case (Some u)
    then have u: "u < length (cv_pcs s)" "cv_section (cv_pcs s ! u)" using own[of u] by (auto simp: cv_inside_def)
    then have "decided s (cv_pcs s ! u)" using inv by (simp add: cv_inv_def)
    moreover have "cv_pcs s ! u \<noteq> D_Start" using u(2) by auto
    ultimately show False using cv_section_enabled[OF u Some] assms(4) by blast
  qed
qed

definition cv_stuck_sample :: "nat cv_pool" where
  "cv_stuck_sample = \<lparr>cv_workers = [], cv_size = 0, cv_lock = None, cv_shutdown = True, cv_threads = 1,
     cv_pcs = [K_Waiting, D_Join 0], cv_pushed = [], cv_popped = []\<rparr>"

text \<open>
  The destructor can hang. It sets \<open>shutdown\<close> and broadcasts without holding \<open>queue_lock\<close>; when
  a worker has tested its condition and not yet started to wait, the broadcast finds nobody, the
  worker then waits for ever and the destructor joins it for ever.
\<close>

theorem cv_pool_destructor_hangs:
  "\<exists>s. cv_step\<^sup>*\<^sup>* (pool_init 1 0 :: nat cv_pool) s \<and> cv_pcs s = [K_Waiting, D_Join 0]
    \<and> (\<nexists>s'. cv_step s s')"
proof -
  let ?i = "pool_init 1 0 :: nat cv_pool"
  let ?a = "?i\<lparr>cv_lock := Some 0, cv_pcs := [K_Test, D_Start]\<rparr>"
  let ?b = "?i\<lparr>cv_lock := Some 0, cv_pcs := [K_Wait, D_Start]\<rparr>"
  let ?c = "?i\<lparr>cv_lock := Some 0, cv_shutdown := True, cv_pcs := [K_Wait, D_Broadcast]\<rparr>"
  let ?d = "?i\<lparr>cv_lock := Some 0, cv_shutdown := True, cv_pcs := [K_Wait, D_Join 0]\<rparr>"
  have "cv_act 0 0 ?i ?a" "cv_act 0 0 ?a ?b" "cv_act 0 1 ?b ?c" "cv_act 0 1 ?c ?d"
    "cv_act 0 0 ?d cv_stuck_sample"
    by (simp_all add: cv_act_def cv_ops pool_init_def mutex_init_def mutex_lock_def mutex_unlock_def wake_all_def
        cv_stuck_sample_def)
  then have r: "cv_step\<^sup>*\<^sup>* ?i cv_stuck_sample"
    by (meson cv_run rtranclp.rtrancl_refl)
  have "\<nexists>s'. cv_step cv_stuck_sample s'"
  proof
    assume "\<exists>s'. cv_step cv_stuck_sample s'"
    then obtain s' where "cv_step cv_stuck_sample s'" by blast
    then show False
      by (rule cv_stepE) (auto simp: cv_act_def cv_ops cv_stuck_sample_def less_Suc_eq)
  qed
  then show ?thesis using r by (intro exI[of _ cv_stuck_sample]) (simp add: cv_stuck_sample_def)
qed

theorem cv_pool_no_lost_task_witness:
  "\<exists>s. cv_step\<^sup>*\<^sup>* (pool_init 1 0 :: nat cv_pool) s \<and> cv_pcs s = [K_Waiting, D_Start] \<and> cv_workers s = []"
proof -
  let ?i = "pool_init 1 0 :: nat cv_pool"
  let ?a = "?i\<lparr>cv_lock := Some 0, cv_pcs := [K_Test, D_Start]\<rparr>"
  let ?b = "?i\<lparr>cv_lock := Some 0, cv_pcs := [K_Wait, D_Start]\<rparr>"
  let ?c = "?i\<lparr>cv_lock := None, cv_pcs := [K_Waiting, D_Start]\<rparr>"
  have st: "cv_start ?i" unfolding cv_start_def by (intro exI[of _ 1] exI[of _ 0]) simp
  have "cv_act 0 0 ?i ?a" "cv_act 0 0 ?a ?b" "cv_act 0 0 ?b ?c"
    by (simp_all add: cv_act_def cv_ops pool_init_def mutex_init_def mutex_lock_def mutex_unlock_def)
  then have r: "cv_step\<^sup>*\<^sup>* ?i ?c" by (meson cv_run rtranclp.rtrancl_refl)
  have n: "\<forall>w t s'. cv_pcs ?c ! t \<noteq> D_Start \<longrightarrow> \<not> cv_act w t ?c s'"
    by (auto simp: cv_act_def cv_ops less_Suc_eq)
  show ?thesis using cv_pool_no_lost_task[OF r st _ n] r by (intro exI[of _ ?c]) (simp add: pool_init_def)
qed

end
