(* ===== verification/Timer_Spec.thy ===== *)
theory Timer_Spec
  imports Prelude "HOL-Library.Multiset"
begin

text \<open>
  What the timer containers of 81\_timer/main.cpp promise. A container holds entries, an identity
  and a deadline each; a tick at time \<open>now\<close> fires exactly the entries whose deadline has come. The
  sorted list and the heap have this contract, as the locale \<open>deadline_queue\<close>; a sequence of
  operations then has one outcome, whichever container runs it. The wheel counts ticks instead of
  seconds, the locale \<open>tick_counter\<close>.
\<close>

subsection \<open>The specification\<close>

datatype timer_op = Add_Timer nat int | Del_Timer nat | Tick_At int

type_synonym entries = "(nat \<times> int) multiset"

definition overdue :: "int \<Rightarrow> entries \<Rightarrow> entries" where
  "overdue now M = filter_mset (\<lambda>(a, e). e \<le> now) M"

definition waiting :: "int \<Rightarrow> entries \<Rightarrow> entries" where
  "waiting now M = filter_mset (\<lambda>(a, e). now < e) M"

lemma waiting_overdue: "waiting now M + overdue now M = M"
proof -
  have "waiting now M = filter_mset (\<lambda>p. \<not> (case p of (a, e) \<Rightarrow> e \<le> now)) M"
    unfolding waiting_def by (rule filter_mset_cong) auto
  then show ?thesis by (simp add: overdue_def add.commute)
qed

text \<open>The entries after an operation, and the identities that fire.\<close>

fun spec_op :: "timer_op \<Rightarrow> entries \<Rightarrow> entries \<times> nat multiset" where
  "spec_op (Add_Timer a e) M = (add_mset (a, e) M, {#})"
| "spec_op (Del_Timer a) M = (filter_mset (\<lambda>p. fst p \<noteq> a) M, {#})"
| "spec_op (Tick_At now) M = (waiting now M, image_mset fst (overdue now M))"

fun spec_run :: "timer_op list \<Rightarrow> entries \<Rightarrow> entries \<times> nat multiset list" where
  "spec_run [] M = (M, [])"
| "spec_run (op # ops) M =
     (let (M1, f) = spec_op op M; (M2, fs) = spec_run ops M1 in (M2, f # fs))"

text \<open>
  Every allocation has an identity of its own: an address that \<open>new\<close> returns a second time counts
  as a new one. \<open>U\<close> holds the identities used so far. A timer is deleted while it waits.
\<close>

fun valid_ops :: "timer_op list \<Rightarrow> nat set \<Rightarrow> entries \<Rightarrow> bool" where
  "valid_ops [] U M \<longleftrightarrow> True"
| "valid_ops (op # ops) U M \<longleftrightarrow>
     (case op of
        Add_Timer a e \<Rightarrow> a \<notin> U \<and> valid_ops ops (insert a U) (fst (spec_op op M))
      | Del_Timer a \<Rightarrow> a \<in> fst ` set_mset M \<and> valid_ops ops U (fst (spec_op op M))
      | Tick_At now \<Rightarrow> valid_ops ops U (fst (spec_op op M)))"

text \<open>No entry is lost: what was there or was added has fired, was deleted, or still waits.\<close>

lemma spec_tick_complete:
  "spec_op (Tick_At now) M = (M', f) \<Longrightarrow>
     f + image_mset fst M' = image_mset fst M \<and> (\<forall>(a, e) \<in> set_mset M'. now < e)"
proof -
  assume "spec_op (Tick_At now) M = (M', f)"
  then have e: "M' = waiting now M" "f = image_mset fst (overdue now M)" by auto
  have "f + image_mset fst M' = image_mset fst (waiting now M + overdue now M)"
    by (simp add: e add.commute)
  then show ?thesis by (simp add: waiting_overdue e) (auto simp: waiting_def)
qed

subsection \<open>The contract of a container\<close>

text \<open>\<open>known s\<close> holds the identities of the objects the container still points to.\<close>

locale deadline_queue =
  fixes ok :: "'s \<Rightarrow> bool" and entries :: "'s \<Rightarrow> entries" and known :: "'s \<Rightarrow> nat set"
    and add :: "nat \<Rightarrow> int \<Rightarrow> 's \<Rightarrow> 's result"
    and del :: "nat \<Rightarrow> 's \<Rightarrow> 's result"
    and tick :: "int \<Rightarrow> 's \<Rightarrow> ('s \<times> nat list) result"
  assumes add_law: "ok s \<Longrightarrow> a \<notin> known s \<Longrightarrow>
      \<exists>s'. add a e s = Inr s' \<and> ok s' \<and> entries s' = add_mset (a, e) (entries s) \<and> known s' \<subseteq> insert a (known s)"
    and del_law: "ok s \<Longrightarrow> a \<in> fst ` set_mset (entries s) \<Longrightarrow>
      \<exists>s'. del a s = Inr s' \<and> ok s' \<and> entries s' = filter_mset (\<lambda>p. fst p \<noteq> a) (entries s)
        \<and> known s' \<subseteq> known s"
    and tick_law: "ok s \<Longrightarrow>
      \<exists>s' f. tick now s = Inr (s', f) \<and> ok s' \<and> entries s' = waiting now (entries s)
        \<and> mset f = image_mset fst (overdue now (entries s)) \<and> known s' \<subseteq> known s"
begin

definition do_op :: "timer_op \<Rightarrow> 's \<Rightarrow> ('s \<times> nat list) result" where
  "do_op op s =
     (case op of
        Add_Timer a e \<Rightarrow> bindR (add a e s) (\<lambda>s'. Inr (s', []))
      | Del_Timer a \<Rightarrow> bindR (del a s) (\<lambda>s'. Inr (s', []))
      | Tick_At now \<Rightarrow> tick now s)"

primrec run :: "timer_op list \<Rightarrow> 's \<Rightarrow> ('s \<times> nat list list) result" where
  "run [] s = Inr (s, [])"
| "run (op # ops) s = bindR (do_op op s) (\<lambda>(s1, f). bindR (run ops s1) (\<lambda>(s2, fs). Inr (s2, f # fs)))"

lemma do_op_refines:
  assumes "ok s" and "valid_ops (op # ops) U (entries s)" and "known s \<subseteq> U"
  shows "\<exists>s' f U'. do_op op s = Inr (s', f) \<and> ok s' \<and> spec_op op (entries s) = (entries s', mset f)
    \<and> known s' \<subseteq> U' \<and> valid_ops ops U' (entries s')"
proof (cases op)
  case (Add_Timer a e)
  with assms have a: "a \<notin> U" "valid_ops ops (insert a U) (add_mset (a, e) (entries s))" by auto
  then obtain s' where s': "add a e s = Inr s'" "ok s'" "entries s' = add_mset (a, e) (entries s)"
    "known s' \<subseteq> insert a (known s)"
    using add_law[OF assms(1), of a e] assms(3) by blast
  then have "known s' \<subseteq> insert a U" "valid_ops ops (insert a U) (entries s')" using a(2) assms(3) by auto
  then show ?thesis using s' Add_Timer by (auto simp: do_op_def)
next
  case (Del_Timer a)
  with assms have a: "a \<in> fst ` set_mset (entries s)"
    "valid_ops ops U (filter_mset (\<lambda>p. fst p \<noteq> a) (entries s))" by auto
  obtain s' where s': "del a s = Inr s'" "ok s'" "entries s' = filter_mset (\<lambda>p. fst p \<noteq> a) (entries s)"
    "known s' \<subseteq> known s"
    using del_law[OF assms(1) a(1)] by blast
  then have "known s' \<subseteq> U" "valid_ops ops U (entries s')" using a(2) assms(3) by auto
  then show ?thesis using s' Del_Timer by (auto simp: do_op_def)
next
  case (Tick_At now)
  with assms have a: "valid_ops ops U (waiting now (entries s))" by simp
  obtain s' f where s': "tick now s = Inr (s', f)" "ok s'" "entries s' = waiting now (entries s)"
    "mset f = image_mset fst (overdue now (entries s))" "known s' \<subseteq> known s"
    using tick_law[OF assms(1), of now] by blast
  then have "known s' \<subseteq> U" "valid_ops ops U (entries s')" using a assms(3) by auto
  then show ?thesis using s' Tick_At by (auto simp: do_op_def)
qed

lemma run_refines:
  assumes "ok s" and "valid_ops ops U (entries s)" and "known s \<subseteq> U"
  shows "\<exists>s' fs. run ops s = Inr (s', fs) \<and> ok s' \<and> spec_run ops (entries s) = (entries s', map mset fs)"
  using assms
proof (induction ops arbitrary: s U)
  case Nil
  then show ?case by simp
next
  case (Cons op ops)
  obtain s1 f U1 where s1: "do_op op s = Inr (s1, f)" "ok s1" "spec_op op (entries s) = (entries s1, mset f)"
    and u: "known s1 \<subseteq> U1" "valid_ops ops U1 (entries s1)"
    using do_op_refines[OF Cons.prems] by blast
  then show ?case using Cons.IH[OF s1(2) u(2,1)] by auto
qed

end

subsection \<open>Counting ticks\<close>

text \<open>
  Each timer knows how many ticks pass before the one that fires it: a tick fires the timers at
  0 and takes one off the others.
\<close>

locale tick_counter =
  fixes ok :: "'s \<Rightarrow> bool" and due :: "'s \<Rightarrow> nat \<Rightarrow> nat option"
    and tick :: "'s \<Rightarrow> ('s \<times> nat list) result"
  assumes tick_due: "ok s \<Longrightarrow>
      \<exists>s' f. tick s = Inr (s', f) \<and> ok s' \<and> distinct f \<and> set f = {a. due s a = Some 0}
        \<and> (\<forall>a. due s' a = (case due s a of Some (Suc n) \<Rightarrow> Some n | _ \<Rightarrow> None))"
begin

primrec ticks :: "nat \<Rightarrow> 's \<Rightarrow> ('s \<times> nat list) result" where
  "ticks 0 s = Inr (s, [])"
| "ticks (Suc n) s = bindR (ticks n s) (\<lambda>(s1, _). tick s1)"

text \<open>\<open>ticks n\<close> returns what the last of \<open>n\<close> ticks fires.\<close>

lemma ticks_due:
  assumes "ok s"
  shows "\<exists>s' f. ticks n s = Inr (s', f) \<and> ok s'
    \<and> (\<forall>a. due s' a = (case due s a of Some d \<Rightarrow> if n \<le> d then Some (d - n) else None | None \<Rightarrow> None))"
proof (induction n)
  case 0
  then show ?case using assms by (auto split: option.splits)
next
  case (Suc n)
  then obtain s1 f1 where s1: "ticks n s = Inr (s1, f1)" "ok s1"
    "\<forall>a. due s1 a = (case due s a of Some d \<Rightarrow> if n \<le> d then Some (d - n) else None | None \<Rightarrow> None)"
    by auto
  obtain s2 f2 where s2: "tick s1 = Inr (s2, f2)" "ok s2"
    "\<forall>a. due s2 a = (case due s1 a of Some (Suc n) \<Rightarrow> Some n | _ \<Rightarrow> None)"
    using tick_due[OF s1(2)] by blast
  have "due s2 a = (case due s a of Some d \<Rightarrow> if Suc n \<le> d then Some (d - Suc n) else None | None \<Rightarrow> None)" for a
    using s1(3)[rule_format, of a] s2(3)[rule_format, of a]
    by (auto split: option.splits nat.splits if_splits)
  then show ?case using s1(1) s2(1,2) by auto
qed

lemma fires_exactly:
  assumes "ok s" and "due s a = Some d"
  shows "\<exists>s' f. ticks (Suc n) s = Inr (s', f) \<and> (a \<in> set f \<longleftrightarrow> n = d)"
proof -
  obtain s1 f1 where s1: "ticks n s = Inr (s1, f1)" "ok s1" "due s1 a = (if n \<le> d then Some (d - n) else None)"
    using ticks_due[OF assms(1), of n] assms(2) by auto
  obtain s2 f2 where "tick s1 = Inr (s2, f2)" "set f2 = {a. due s1 a = Some 0}"
    using tick_due[OF s1(2)] by blast
  then show ?thesis using s1 by (auto split: if_splits)
qed

end

end
