(* ===== verification/Timer_List.thy ===== *)
theory Timer_List
  imports Timer_Spec
begin

text \<open>
  The ascending timer list of 81\_timer/main.cpp: \<open>util_timer\<close> objects on the heap, found by their
  address, and \<open>sort_timer_list\<close>, a list of pointers to them that is sorted again after every
  change. A freed object is absent from the heap; using a pointer to it is a fault.
\<close>

subsection \<open>The class \<open>sort_timer_list\<close>\<close>

record util_timer =
  expire :: int
  timer_data :: int

record sort_timer_list =
  timers :: "nat \<Rightarrow> util_timer option"
  time_list :: "nat list"

definition deref_timer :: "(nat \<Rightarrow> 'a option) \<Rightarrow> nat \<Rightarrow> 'a result" where
  "deref_timer h a = (case h a of None \<Rightarrow> Inl (Freed_Deref a) | Some t \<Rightarrow> Inr t)"

text \<open>\<open>std::list::sort\<close> is stable; with two or more elements it compares each of them.\<close>

definition expire_of :: "(nat \<Rightarrow> util_timer option) \<Rightarrow> nat \<Rightarrow> int" where
  "expire_of h a = (case h a of None \<Rightarrow> 0 | Some t \<Rightarrow> expire t)"

definition sort_flush :: "sort_timer_list \<Rightarrow> sort_timer_list result" where
  "sort_flush s =
     (case filter (\<lambda>a. timers s a = None) (time_list s) of
        a # _ \<Rightarrow> if 2 \<le> length (time_list s) then Inl (Freed_Deref a) else Inr s
      | [] \<Rightarrow> Inr (s\<lparr>time_list := sort_key (expire_of (timers s)) (time_list s)\<rparr>))"

definition add_timer :: "nat \<Rightarrow> sort_timer_list \<Rightarrow> sort_timer_list result" where
  "add_timer a s = sort_flush (s\<lparr>time_list := time_list s @ [a]\<rparr>)"

text \<open>The found pointer is the argument itself, so the assignment of \<open>expire\<close> changes nothing.\<close>

definition adjust_timer :: "nat \<Rightarrow> sort_timer_list \<Rightarrow> sort_timer_list result" where
  "adjust_timer a s =
     (if a \<in> set (time_list s) then
        bindR (deref_timer (timers s) a) (\<lambda>t. sort_flush (s\<lparr>timers := (timers s)(a \<mapsto> t\<lparr>expire := expire t\<rparr>)\<rparr>))
      else sort_flush (s\<lparr>time_list := time_list s @ [a]\<rparr>))"

definition del_timer :: "nat \<Rightarrow> sort_timer_list \<Rightarrow> sort_timer_list" where
  "del_timer a s = s\<lparr>time_list := removeAll a (time_list s)\<rparr>"

text \<open>
  \<open>tick\<close> at time \<open>now\<close>; the result has the addresses whose callback ran, in order, with the data
  the callback was given.
\<close>

fun tick_list :: "int \<Rightarrow> (nat \<Rightarrow> util_timer option) \<Rightarrow> nat list \<Rightarrow>
    ((nat \<Rightarrow> util_timer option) \<times> nat list \<times> (nat \<times> int) list) result"
where
  "tick_list now h [] = Inr (h, [], [])"
| "tick_list now h (a # as) =
     bindR (deref_timer h a) (\<lambda>t.
       if now < expire t then Inr (h, a # as, [])
       else bindR (tick_list now (h(a := None)) as) (\<lambda>(h', as', fired). Inr (h', as', (a, timer_data t) # fired)))"

definition list_tick :: "int \<Rightarrow> sort_timer_list \<Rightarrow> (sort_timer_list \<times> (nat \<times> int) list) result" where
  "list_tick now s =
     bindR (tick_list now (timers s) (time_list s)) (\<lambda>(h, as, fired).
       Inr (\<lparr>timers = h, time_list = as\<rparr>, fired))"

subsection \<open>The invariant\<close>

definition list_inv :: "sort_timer_list \<Rightarrow> bool" where
  "list_inv s \<longleftrightarrow> distinct (time_list s) \<and> (\<forall>a \<in> set (time_list s). timers s a \<noteq> None)
     \<and> sorted (map (expire_of (timers s)) (time_list s))"

definition list_entries :: "sort_timer_list \<Rightarrow> entries" where
  "list_entries s = mset (map (\<lambda>a. (a, expire_of (timers s) a)) (time_list s))"

lemma fst_list_entries [simp]: "fst ` set_mset (list_entries s) = set (time_list s)"
  by (force simp: list_entries_def)

text \<open>Sorting establishes the invariant whatever the order was, as long as the pointers are good.\<close>

lemma sort_flush_ok:
  assumes "distinct (time_list s)" and "\<forall>a \<in> set (time_list s). timers s a \<noteq> None"
  shows "\<exists>s'. sort_flush s = Inr s' \<and> list_inv s' \<and> timers s' = timers s
    \<and> mset (time_list s') = mset (time_list s)"
proof -
  have "filter (\<lambda>a. timers s a = None) (time_list s) = []" using assms(2) by (simp add: filter_empty_conv)
  then show ?thesis using assms by (simp add: sort_flush_def list_inv_def)
qed

lemma list_entries_mset:
  "timers s' = timers s \<Longrightarrow> mset (time_list s') = mset (time_list s) \<Longrightarrow> list_entries s' = list_entries s"
  by (simp add: list_entries_def)

text \<open>An object that no pointer of the list refers to may change.\<close>

lemma list_upd:
  assumes "a \<notin> set (time_list s)"
  shows "list_inv (s\<lparr>timers := (timers s)(a := v)\<rparr>) = list_inv s"
    and "list_entries (s\<lparr>timers := (timers s)(a := v)\<rparr>) = list_entries s"
proof -
  let ?s = "s\<lparr>timers := (timers s)(a := v)\<rparr>"
  have same: "map (expire_of (timers ?s)) (time_list s) = map (expire_of (timers s)) (time_list s)"
    "map (\<lambda>a. (a, expire_of (timers ?s) a)) (time_list s) = map (\<lambda>a. (a, expire_of (timers s) a)) (time_list s)"
    using assms by (auto simp: expire_of_def)
  have l: "time_list ?s = time_list s" by simp
  show "list_inv ?s = list_inv s" unfolding list_inv_def l same(1) using assms by auto
  show "list_entries ?s = list_entries s" unfolding list_entries_def l same(2) by (rule refl)
qed

lemma add_timer_ok:
  assumes "list_inv s" and "a \<notin> set (time_list s)" and "timers s a \<noteq> None"
  shows "\<exists>s'. add_timer a s = Inr s' \<and> list_inv s' \<and> timers s' = timers s
    \<and> list_entries s' = add_mset (a, expire_of (timers s) a) (list_entries s)"
proof -
  let ?s = "s\<lparr>time_list := time_list s @ [a]\<rparr>"
  obtain s' where "sort_flush ?s = Inr s'" "list_inv s'" "timers s' = timers s"
    "mset (time_list s') = mset (time_list ?s)"
    using sort_flush_ok[of ?s] assms by (auto simp: list_inv_def)
  then show ?thesis using list_entries_mset[of s' ?s] by (simp add: add_timer_def list_entries_def)
qed

text \<open>After its deadline was changed through the pointer, adjusting a timer sorts the list again.\<close>

lemma adjust_timer_ok:
  assumes "distinct (time_list s)" and "\<forall>b \<in> set (time_list s). timers s b \<noteq> None" and "a \<in> set (time_list s)"
  shows "\<exists>s'. adjust_timer a s = Inr s' \<and> list_inv s' \<and> timers s' = timers s
    \<and> mset (time_list s') = mset (time_list s)"
proof -
  obtain t where t: "timers s a = Some t" using assms(2,3) by auto
  have same: "(timers s)(a \<mapsto> t\<lparr>expire := expire t\<rparr>) = timers s" using t by auto
  show ?thesis
    using sort_flush_ok[OF assms(1,2)] assms(3) t same by (simp add: adjust_timer_def deref_timer_def)
qed

lemma del_timer_inv: "list_inv s \<Longrightarrow> list_inv (del_timer a s)"
  by (auto simp: list_inv_def del_timer_def removeAll_filter_not_eq sorted_filter)

lemma del_timer_entries: "list_entries (del_timer a s) = filter_mset (\<lambda>p. fst p \<noteq> a) (list_entries s)"
proof -
  have "map (\<lambda>b. (b, expire_of (timers s) b)) (removeAll a (time_list s))
      = filter (\<lambda>p. fst p \<noteq> a) (map (\<lambda>b. (b, expire_of (timers s) b)) (time_list s))"
    by (simp add: removeAll_filter_not_eq filter_map o_def eq_commute)
  then show ?thesis by (simp add: list_entries_def del_timer_def mset_filter)
qed

subsection \<open>The tick\<close>

lemma tick_list_spec:
  assumes "distinct as" and "\<forall>a \<in> set as. h a \<noteq> None" and "sorted (map (expire_of h) as)"
  shows "tick_list now h as = Inr (\<lambda>a. if a \<in> set as \<and> expire_of h a \<le> now then None else h a,
     filter (\<lambda>a. now < expire_of h a) as,
     map (\<lambda>a. (a, timer_data (the (h a)))) (filter (\<lambda>a. expire_of h a \<le> now) as))"
  using assms
proof (induction as arbitrary: h)
  case Nil
  then show ?case by simp
next
  case (Cons a as)
  obtain t where t: "h a = Some t" using Cons.prems(2) by auto
  have e: "expire_of h a = expire t" by (simp add: expire_of_def t)
  show ?case
  proof (cases "now < expire t")
    case True
    then have "\<forall>b \<in> set as. now < expire_of h b" using Cons.prems(3) e by force
    then have f: "filter (\<lambda>b. now < expire_of h b) as = as" "filter (\<lambda>b. expire_of h b \<le> now) as = []"
      "(\<lambda>b. if b \<in> set (a # as) \<and> expire_of h b \<le> now then None else h b) = h"
      using True e by (auto simp: filter_id_conv filter_empty_conv fun_eq_iff)
    show ?thesis using True t e by (simp add: deref_timer_def f[simplified])
  next
    case False
    let ?h = "h(a := None)"
    have same: "expire_of ?h b = expire_of h b" if "b \<in> set as" for b
      using that Cons.prems(1) by (auto simp: expire_of_def)
    have map_same: "map (expire_of ?h) as = map (expire_of h) as" using same by simp
    have "tick_list now ?h as = Inr (\<lambda>b. if b \<in> set as \<and> expire_of ?h b \<le> now then None else ?h b,
       filter (\<lambda>b. now < expire_of ?h b) as,
       map (\<lambda>b. (b, timer_data (the (?h b)))) (filter (\<lambda>b. expire_of ?h b \<le> now) as))"
    proof (rule Cons.IH)
      show "sorted (map (expire_of ?h) as)" unfolding map_same using Cons.prems(3) by simp
    qed (use Cons.prems in auto)
    moreover have "filter (\<lambda>b. now < expire_of ?h b) as = filter (\<lambda>b. now < expire_of h b) as"
      "filter (\<lambda>b. expire_of ?h b \<le> now) as = filter (\<lambda>b. expire_of h b \<le> now) as"
      using same by (auto intro: filter_cong)
    moreover have "map (\<lambda>b. (b, timer_data (the (?h b)))) (filter (\<lambda>b. expire_of h b \<le> now) as)
        = map (\<lambda>b. (b, timer_data (the (h b)))) (filter (\<lambda>b. expire_of h b \<le> now) as)"
      using Cons.prems(1) by auto
    moreover have "(\<lambda>b. if b \<in> set as \<and> expire_of ?h b \<le> now then None else ?h b)
        = (\<lambda>b. if b \<in> set (a # as) \<and> expire_of h b \<le> now then None else h b)"
      using same False e by (auto simp: fun_eq_iff)
    ultimately show ?thesis using False t e by (simp add: deref_timer_def)
  qed
qed

lemma list_tick_spec:
  assumes "list_inv s"
  shows "list_tick now s = Inr (\<lparr>timers = (\<lambda>a. if a \<in> set (time_list s) \<and> expire_of (timers s) a \<le> now then None else timers s a),
       time_list = filter (\<lambda>a. now < expire_of (timers s) a) (time_list s)\<rparr>,
     map (\<lambda>a. (a, timer_data (the (timers s a)))) (filter (\<lambda>a. expire_of (timers s) a \<le> now) (time_list s)))"
  using tick_list_spec[of "time_list s" "timers s" now] assms by (simp add: list_tick_def list_inv_def)

lemma list_tick_inv:
  assumes "list_inv s" and "list_tick now s = Inr (s', fired)"
  shows "list_inv s' \<and> list_entries s' = waiting now (list_entries s)
    \<and> mset (map fst fired) = image_mset fst (overdue now (list_entries s))"
proof -
  let ?as = "filter (\<lambda>a. now < expire_of (timers s) a) (time_list s)"
  have s': "timers s' = (\<lambda>a. if a \<in> set (time_list s) \<and> expire_of (timers s) a \<le> now then None else timers s a)"
    "time_list s' = ?as"
    "map fst fired = filter (\<lambda>a. expire_of (timers s) a \<le> now) (time_list s)"
    using assms by (auto simp: list_tick_spec o_def)
  have keep: "timers s' a = timers s a \<and> expire_of (timers s') a = expire_of (timers s) a" if "a \<in> set ?as" for a
    using that by (auto simp: s'(1) expire_of_def)
  have m: "map (expire_of (timers s')) ?as = map (expire_of (timers s)) ?as"
    "map (\<lambda>a. (a, expire_of (timers s') a)) ?as = map (\<lambda>a. (a, expire_of (timers s) a)) ?as"
    using keep by auto
  have "list_inv s'"
    using assms(1) keep unfolding list_inv_def s'(2) m(1) by (auto simp: sorted_filter)
  moreover have "list_entries s' = waiting now (list_entries s)"
    by (simp add: list_entries_def s'(2) m(2) waiting_def filter_mset_image_mset)
  moreover have "mset (map fst fired) = image_mset fst (overdue now (list_entries s))"
    by (simp add: s'(3) list_entries_def overdue_def filter_mset_image_mset image_mset.compositionality o_def)
  ultimately show ?thesis by blast
qed

subsection \<open>The contract\<close>

text \<open>A new timer object and its insertion, as the server does it.\<close>

definition list_new :: "nat \<Rightarrow> int \<Rightarrow> sort_timer_list \<Rightarrow> sort_timer_list result" where
  "list_new a e s = add_timer a (s\<lparr>timers := (timers s)(a \<mapsto> \<lparr>expire = e, timer_data = int a\<rparr>)\<rparr>)"

definition list_fired :: "int \<Rightarrow> sort_timer_list \<Rightarrow> (sort_timer_list \<times> nat list) result" where
  "list_fired now s = bindR (list_tick now s) (\<lambda>(s', f). Inr (s', map fst f))"

interpretation lq: deadline_queue list_inv list_entries "\<lambda>s. set (time_list s)"
  list_new "\<lambda>a s. Inr (del_timer a s)" list_fired
proof (unfold_locales, goal_cases)
  case (1 s a e)
  let ?s = "s\<lparr>timers := (timers s)(a \<mapsto> \<lparr>expire = e, timer_data = int a\<rparr>)\<rparr>"
  have a: "a \<notin> set (time_list s)" using 1(2) by simp
  then have "list_inv ?s" using list_upd(1) 1(1) by blast
  then obtain s' where s': "add_timer a ?s = Inr s'" "list_inv s'"
    "list_entries s' = add_mset (a, expire_of (timers ?s) a) (list_entries ?s)"
    using add_timer_ok[of ?s a] a by auto
  have "list_entries ?s = list_entries s" by (rule list_upd(2)[OF a])
  then have e: "list_entries s' = add_mset (a, e) (list_entries s)" using s'(3) by (simp add: expire_of_def)
  from arg_cong[OF e, of "\<lambda>M. fst ` set_mset M"] have "set (time_list s') = insert a (set (time_list s))" by simp
  then show ?case using s' e by (auto simp: list_new_def)
next
  case (2 s a)
  then show ?case by (auto simp: del_timer_inv del_timer_entries) (simp add: del_timer_def)
next
  case (3 s now)
  obtain s' f where t: "list_tick now s = Inr (s', f)" using list_tick_spec[OF 3] by blast
  then have i: "list_inv s'" "list_entries s' = waiting now (list_entries s)"
    "mset (map fst f) = image_mset fst (overdue now (list_entries s))"
    using list_tick_inv[OF 3] by auto
  have "fst ` set_mset (list_entries s') \<subseteq> fst ` set_mset (list_entries s)"
    unfolding i(2) waiting_def by (intro image_mono) auto
  then have "set (time_list s') \<subseteq> set (time_list s)" by (simp only: fst_list_entries)
  then show ?case using t i by (simp add: list_fired_def)
qed

definition list_empty :: sort_timer_list where
  "list_empty = \<lparr>timers = (\<lambda>_. None), time_list = []\<rparr>"

lemma list_empty_inv [simp]: "list_inv list_empty" "list_entries list_empty = {#}" "time_list list_empty = []"
  by (simp_all add: list_empty_def list_inv_def list_entries_def)

text \<open>
  A tick of the sorted list runs the callbacks of exactly the timers whose time has come, in
  the order of their deadlines, frees exactly these, and leaves the others; no freed timer is
  touched.
\<close>

theorem list_tick_exact:
  assumes "list_inv s"
  shows "\<exists>s' fired. list_tick now s = Inr (s', fired)
    \<and> map fst fired = filter (\<lambda>a. expire_of (timers s) a \<le> now) (time_list s)
    \<and> time_list s' = filter (\<lambda>a. now < expire_of (timers s) a) (time_list s)
    \<and> (\<forall>a. timers s' a = (if a \<in> set (map fst fired) then None else timers s a))
    \<and> list_inv s'"
proof -
  obtain s' fired where t: "list_tick now s = Inr (s', fired)"
    "s' = \<lparr>timers = (\<lambda>a. if a \<in> set (time_list s) \<and> expire_of (timers s) a \<le> now then None else timers s a),
       time_list = filter (\<lambda>a. now < expire_of (timers s) a) (time_list s)\<rparr>"
    "fired = map (\<lambda>a. (a, timer_data (the (timers s a)))) (filter (\<lambda>a. expire_of (timers s) a \<le> now) (time_list s))"
    using list_tick_spec[OF assms] by blast
  have "map fst fired = filter (\<lambda>a. expire_of (timers s) a \<le> now) (time_list s)" by (simp add: t(3) o_def)
  moreover from arg_cong[OF this, of set]
  have "fst ` set fired = {a \<in> set (time_list s). expire_of (timers s) a \<le> now}" by simp
  ultimately show ?thesis using t(1,2) list_tick_inv[OF assms t(1)] by auto
qed

theorem list_tick_exact_witness:
  "let s = \<lparr>timers = [7 \<mapsto> \<lparr>expire = 20, timer_data = 5\<rparr>, 8 \<mapsto> \<lparr>expire = 10, timer_data = 6\<rparr>], time_list = [8, 7]\<rparr>
   in \<exists>s' fired. list_tick 15 s = Inr (s', fired) \<and> map fst fired = [8] \<and> time_list s' = [7]"
proof -
  let ?s = "\<lparr>timers = [7 \<mapsto> \<lparr>expire = 20, timer_data = 5\<rparr>, 8 \<mapsto> \<lparr>expire = 10, timer_data = 6\<rparr>], time_list = [8, 7]\<rparr>"
  have "list_inv ?s" by (simp add: list_inv_def expire_of_def)
  from list_tick_exact[OF this, of 15] show ?thesis by (auto simp: expire_of_def Let_def)
qed

end
