(* ===== verification/Timer_Heap.thy ===== *)
theory Timer_Heap
  imports Timer_List
begin

text \<open>
  The heap of timers of 81\_timer/main.cpp: \<open>mh_timer\<close> objects and the \<open>priority_queue\<close> of
  pointers to them. A deleted timer is only marked and stays in the queue until it is on top. The
  queue is kept in the order in which its elements come to the top; which of two equal deadlines
  is first is not specified by the library, and no theorem depends on it.
\<close>

subsection \<open>The class \<open>min_heap_timer\<close>\<close>

record mh_timer =
  mh_expire :: int
  has_callback :: bool
  deleted :: bool

record min_heap_timer =
  mh_timers :: "nat \<Rightarrow> mh_timer option"
  min_heap :: "nat list"

definition new_mh_timer :: "int \<Rightarrow> int \<Rightarrow> mh_timer" where
  "new_mh_timer now delay = \<lparr>mh_expire = now + delay, has_callback = True, deleted = False\<rparr>"

definition mh_key :: "(nat \<Rightarrow> mh_timer option) \<Rightarrow> nat \<Rightarrow> int" where
  "mh_key h a = (case h a of None \<Rightarrow> 0 | Some t \<Rightarrow> mh_expire t)"

definition mh_timer_compare :: "(nat \<Rightarrow> mh_timer option) \<Rightarrow> nat \<Rightarrow> nat \<Rightarrow> bool" where
  "mh_timer_compare h a b \<longleftrightarrow> mh_key h a > mh_key h b"

text \<open>The pointer argument is \<open>None\<close> for NULL.\<close>

definition mh_add_timer :: "nat option \<Rightarrow> min_heap_timer \<Rightarrow> min_heap_timer result" where
  "mh_add_timer ap s =
     (case ap of None \<Rightarrow> Inr s
      | Some a \<Rightarrow> bindR (deref_timer (mh_timers s) a) (\<lambda>_.
          Inr (s\<lparr>min_heap := insort_key (mh_key (mh_timers s)) a (min_heap s)\<rparr>)))"

definition mh_del_timer :: "nat option \<Rightarrow> min_heap_timer \<Rightarrow> min_heap_timer result" where
  "mh_del_timer ap s =
     (case ap of None \<Rightarrow> Inr s
      | Some a \<Rightarrow> bindR (deref_timer (mh_timers s) a) (\<lambda>t.
          Inr (s\<lparr>mh_timers := (mh_timers s)(a \<mapsto> t\<lparr>deleted := True\<rparr>)\<rparr>)))"

text \<open>The loop that \<open>top\<close> and \<open>pop_timer\<close> share: free the marked timers on top.\<close>

fun purge :: "(nat \<Rightarrow> mh_timer option) \<Rightarrow> nat list \<Rightarrow> ((nat \<Rightarrow> mh_timer option) \<times> nat list) result" where
  "purge h [] = Inr (h, [])"
| "purge h (a # as) = bindR (deref_timer h a) (\<lambda>t.
     if deleted t then purge (h(a := None)) as else Inr (h, a # as))"

definition mh_top :: "min_heap_timer \<Rightarrow> (min_heap_timer \<times> nat option) result" where
  "mh_top s = bindR (purge (mh_timers s) (min_heap s)) (\<lambda>(h, as).
     Inr (\<lparr>mh_timers = h, min_heap = as\<rparr>, case as of [] \<Rightarrow> None | a # _ \<Rightarrow> Some a))"

definition pop_timer :: "min_heap_timer \<Rightarrow> min_heap_timer result" where
  "pop_timer s = bindR (purge (mh_timers s) (min_heap s)) (\<lambda>(h, as).
     Inr (case as of [] \<Rightarrow> \<lparr>mh_timers = h, min_heap = []\<rparr>
          | a # as' \<Rightarrow> \<lparr>mh_timers = h(a := None), min_heap = as'\<rparr>))"

fun tick_heap :: "int \<Rightarrow> (nat \<Rightarrow> mh_timer option) \<Rightarrow> nat list \<Rightarrow>
    ((nat \<Rightarrow> mh_timer option) \<times> nat list \<times> nat list) result"
where
  "tick_heap now h [] = Inr (h, [], [])"
| "tick_heap now h (a # as) = bindR (deref_timer h a) (\<lambda>t.
     if deleted t then tick_heap now (h(a := None)) as
     else if mh_expire t > now then Inr (h, a # as, [])
     else bindR (tick_heap now (h(a := None)) as) (\<lambda>(h', as', fired).
            Inr (h', as', if has_callback t then a # fired else fired)))"

definition heap_tick :: "int \<Rightarrow> min_heap_timer \<Rightarrow> (min_heap_timer \<times> nat list) result" where
  "heap_tick now s = bindR (tick_heap now (mh_timers s) (min_heap s)) (\<lambda>(h, as, fired).
     Inr (\<lparr>mh_timers = h, min_heap = as\<rparr>, fired))"

subsection \<open>The invariant\<close>

definition heap_ok :: "(nat \<Rightarrow> mh_timer option) \<Rightarrow> nat list \<Rightarrow> bool" where
  "heap_ok h as \<longleftrightarrow> distinct as \<and> (\<forall>a \<in> set as. \<exists>t. h a = Some t \<and> has_callback t) \<and> sorted (map (mh_key h) as)"

definition alive :: "(nat \<Rightarrow> mh_timer option) \<Rightarrow> nat \<Rightarrow> bool" where
  "alive h a \<longleftrightarrow> (case h a of None \<Rightarrow> False | Some t \<Rightarrow> \<not> deleted t)"

definition live :: "(nat \<Rightarrow> mh_timer option) \<Rightarrow> nat list \<Rightarrow> entries" where
  "live h as = mset (map (\<lambda>a. (a, mh_key h a)) (filter (alive h) as))"

abbreviation heap_inv :: "min_heap_timer \<Rightarrow> bool" where
  "heap_inv s \<equiv> heap_ok (mh_timers s) (min_heap s)"

abbreviation heap_entries :: "min_heap_timer \<Rightarrow> entries" where
  "heap_entries s \<equiv> live (mh_timers s) (min_heap s)"

lemma live_cong: "(\<And>a. a \<in> set as \<Longrightarrow> g a = h a) \<Longrightarrow> live g as = live h as"
proof -
  assume same: "\<And>a. a \<in> set as \<Longrightarrow> g a = h a"
  then have "filter (alive g) as = filter (alive h) as" by (intro filter_cong) (auto simp: alive_def)
  moreover have "map (\<lambda>a. (a, mh_key g a)) (filter (alive h) as) = map (\<lambda>a. (a, mh_key h a)) (filter (alive h) as)"
    using same by (auto simp: mh_key_def)
  ultimately show ?thesis unfolding live_def by (simp only:)
qed

lemma heap_ok_cong: "(\<And>a. a \<in> set as \<Longrightarrow> g a = h a) \<Longrightarrow> heap_ok g as = heap_ok h as"
proof -
  assume same: "\<And>a. a \<in> set as \<Longrightarrow> g a = h a"
  then have e: "map (mh_key g) as = map (mh_key h) as" by (simp add: mh_key_def)
  show ?thesis using same unfolding heap_ok_def e by simp
qed

lemma heap_ok_upd: "a \<notin> set as \<Longrightarrow> heap_ok (h(a := v)) as = heap_ok h as"
  by (rule heap_ok_cong) auto

lemma live_upd: "a \<notin> set as \<Longrightarrow> live (h(a := v)) as = live h as"
  by (rule live_cong) auto

lemma live_Cons: "live h (a # as) = (if alive h a then add_mset (a, mh_key h a) (live h as) else live h as)"
  by (simp add: live_def)

lemma live_Nil [simp]: "live h [] = {#}"
  by (simp add: live_def)

lemma heap_ok_Nil [simp]: "heap_ok h []"
  by (simp add: heap_ok_def)

lemma heap_ok_tail:
  assumes "heap_ok h (a # as)"
  shows "heap_ok (h(a := None)) as" and "live (h(a := None)) as = live h as"
  using assms heap_ok_upd[of a as h None] live_upd[of a as h None] by (auto simp: heap_ok_def)

lemma heap_ok_head:
  assumes "heap_ok h (a # as)"
  obtains t where "h a = Some t" "has_callback t" "mh_key h a = mh_expire t" "alive h a = (\<not> deleted t)"
    "\<And>b. b \<in> set as \<Longrightarrow> mh_expire t \<le> mh_key h b"
  using assms by (fastforce simp: heap_ok_def mh_key_def alive_def)

lemma fst_live_subset: "fst ` set_mset (live h as) \<subseteq> set as"
  by (auto simp: live_def)

subsection \<open>The operations\<close>

lemma mh_add_timer_ok:
  assumes "heap_inv s" and "mh_timers s a = Some t" and "a \<notin> set (min_heap s)"
    and "has_callback t" and "\<not> deleted t"
  shows "\<exists>s'. mh_add_timer (Some a) s = Inr s' \<and> heap_inv s' \<and> mh_timers s' = mh_timers s
    \<and> heap_entries s' = add_mset (a, mh_expire t) (heap_entries s) \<and> set (min_heap s') = insert a (set (min_heap s))"
  using assms
  by (auto simp: mh_add_timer_def deref_timer_def heap_ok_def live_def set_insort_key distinct_insort
      sorted_insort_key mh_key_def alive_def)

lemma mh_del_timer_ok:
  assumes "heap_inv s" and "a \<in> set (min_heap s)"
  shows "\<exists>s'. mh_del_timer (Some a) s = Inr s' \<and> heap_inv s' \<and> min_heap s' = min_heap s
    \<and> heap_entries s' = filter_mset (\<lambda>p. fst p \<noteq> a) (heap_entries s)"
proof -
  obtain t where t: "mh_timers s a = Some t" "has_callback t" using assms by (auto simp: heap_ok_def)
  let ?h = "(mh_timers s)(a \<mapsto> t\<lparr>deleted := True\<rparr>)"
  have key: "mh_key ?h = mh_key (mh_timers s)" using t by (auto simp: mh_key_def fun_eq_iff)
  have "filter (alive ?h) (min_heap s) = filter (\<lambda>b. b \<noteq> a) (filter (alive (mh_timers s)) (min_heap s))"
    unfolding filter_filter by (rule filter_cong) (auto simp: alive_def)
  then have "live ?h (min_heap s) = filter_mset (\<lambda>p. fst p \<noteq> a) (heap_entries s)"
    by (simp add: live_def key filter_mset_image_mset filter_filter_mset conj_commute)
  moreover have "heap_ok ?h (min_heap s)"
    using assms(1) t unfolding heap_ok_def key by auto
  ultimately show ?thesis using t by (simp add: mh_del_timer_def deref_timer_def)
qed

lemma purge_spec:
  assumes "heap_ok h as"
  shows "\<exists>h' as'. purge h as = Inr (h', as') \<and> heap_ok h' as' \<and> live h' as' = live h as
    \<and> set as' \<subseteq> set as \<and> (as' \<noteq> [] \<longrightarrow> alive h' (hd as'))"
  using assms
proof (induction as arbitrary: h)
  case Nil
  then show ?case by simp
next
  case (Cons a as)
  obtain t where t: "h a = Some t" "alive h a = (\<not> deleted t)" using heap_ok_head[OF Cons.prems] by blast
  show ?case
  proof (cases "deleted t")
    case True
    obtain h' as' where r: "purge (h(a := None)) as = Inr (h', as')" "heap_ok h' as'"
      "live h' as' = live h as" "set as' \<subseteq> set as" "as' \<noteq> [] \<longrightarrow> alive h' (hd as')"
      using Cons.IH[OF heap_ok_tail(1)[OF Cons.prems]] unfolding heap_ok_tail(2)[OF Cons.prems] by blast
    have "purge h (a # as) = Inr (h', as')" using t True by (simp add: deref_timer_def r(1))
    moreover have "live h (a # as) = live h as" using t True by (simp add: live_Cons)
    ultimately show ?thesis using r by auto
  next
    case False
    then show ?thesis using t Cons.prems by (simp add: deref_timer_def)
  qed
qed

lemma tick_heap_spec:
  assumes "heap_ok h as"
  shows "\<exists>h' as' fired. tick_heap now h as = Inr (h', as', fired) \<and> heap_ok h' as'
    \<and> live h' as' = waiting now (live h as) \<and> mset fired = image_mset fst (overdue now (live h as))
    \<and> set as' \<subseteq> set as"
  using assms
proof (induction as arbitrary: h)
  case Nil
  then show ?case by (simp add: waiting_def overdue_def)
next
  case (Cons a as)
  obtain t where t: "h a = Some t" "has_callback t" "mh_key h a = mh_expire t" "alive h a = (\<not> deleted t)"
    "\<And>b. b \<in> set as \<Longrightarrow> mh_expire t \<le> mh_key h b"
    by (rule heap_ok_head[OF Cons.prems]) blast
  note tail = heap_ok_tail[OF Cons.prems]
  obtain h' as' f where r: "tick_heap now (h(a := None)) as = Inr (h', as', f)" "heap_ok h' as'"
    "live h' as' = waiting now (live h as)" "mset f = image_mset fst (overdue now (live h as))" "set as' \<subseteq> set as"
    using Cons.IH[OF tail(1)] unfolding tail(2) by blast
  consider (c1) "deleted t" | (c2) "\<not> deleted t" "mh_expire t > now" | (c3) "\<not> deleted t" "mh_expire t \<le> now"
    by linarith
  then show ?case
  proof cases
    case c1
    then show ?thesis using r t by (auto simp: deref_timer_def live_Cons)
  next
    case c2
    have "now < mh_key h b" if "b \<in> set (a # as)" for b using that t(3) t(5)[of b] c2(2) by force
    then have "waiting now (live h (a # as)) = live h (a # as)" "overdue now (live h (a # as)) = {#}"
      unfolding live_def waiting_def overdue_def
      by (fastforce simp: filter_mset_eq_conv)+
    then show ?thesis using t c2 Cons.prems by (simp add: deref_timer_def)
  next
    case c3
    then show ?thesis using r t by (auto simp: deref_timer_def live_Cons waiting_def overdue_def)
  qed
qed

subsection \<open>The contract\<close>

definition heap_new :: "nat \<Rightarrow> int \<Rightarrow> min_heap_timer \<Rightarrow> min_heap_timer result" where
  "heap_new a e s = mh_add_timer (Some a) (s\<lparr>mh_timers := (mh_timers s)(a \<mapsto> new_mh_timer e 0)\<rparr>)"

interpretation hq: deadline_queue heap_inv heap_entries "\<lambda>s. set (min_heap s)"
  heap_new "\<lambda>a. mh_del_timer (Some a)" heap_tick
proof (unfold_locales, goal_cases)
  case (1 s a e)
  let ?s = "s\<lparr>mh_timers := (mh_timers s)(a \<mapsto> new_mh_timer e 0)\<rparr>"
  have "heap_inv ?s" "heap_entries ?s = heap_entries s"
    using 1 by (simp_all add: heap_ok_upd live_upd)
  then show ?case
    using mh_add_timer_ok[of ?s a "new_mh_timer e 0"] 1(2) by (auto simp: heap_new_def new_mh_timer_def)
next
  case (2 s a)
  then have "a \<in> set (min_heap s)" using fst_live_subset by blast
  from mh_del_timer_ok[OF 2(1) this] show ?case by auto
next
  case (3 s now)
  obtain h as f where "tick_heap now (mh_timers s) (min_heap s) = Inr (h, as, f)" "heap_ok h as"
    "live h as = waiting now (heap_entries s)" "mset f = image_mset fst (overdue now (heap_entries s))"
    "set as \<subseteq> set (min_heap s)"
    using tick_heap_spec[OF 3] by blast
  then show ?case by (simp add: heap_tick_def)
qed

definition heap_empty :: min_heap_timer where
  "heap_empty = \<lparr>mh_timers = (\<lambda>_. None), min_heap = []\<rparr>"

lemma heap_empty_inv [simp]: "heap_inv heap_empty" "heap_entries heap_empty = {#}" "min_heap heap_empty = []"
  by (simp_all add: heap_empty_def)

text \<open>
  C4. The sorted list and the heap are interchangeable. Whatever sequence of insertions, deletions
  and ticks is run on empty containers, neither meets a freed timer, at every step they fire the
  same timers, and in the end they hold the same entries, those of the specification.
\<close>

theorem list_heap_equivalent:
  assumes "valid_ops ops {} {#}"
  shows "\<exists>s fs h gs. lq.run ops list_empty = Inr (s, fs) \<and> hq.run ops heap_empty = Inr (h, gs)
    \<and> map mset fs = map mset gs \<and> list_entries s = heap_entries h
    \<and> spec_run ops {#} = (list_entries s, map mset fs)"
proof -
  obtain s fs where "lq.run ops list_empty = Inr (s, fs)" "spec_run ops {#} = (list_entries s, map mset fs)"
    using lq.run_refines[of list_empty ops "{}"] assms by auto
  moreover obtain h gs where "hq.run ops heap_empty = Inr (h, gs)" "spec_run ops {#} = (heap_entries h, map mset gs)"
    using hq.run_refines[of heap_empty ops "{}"] assms by auto
  ultimately show ?thesis by auto
qed

theorem list_heap_equivalent_witness:
  "\<exists>s fs h gs. lq.run [Add_Timer 1 20, Add_Timer 2 10, Add_Timer 3 15, Del_Timer 3, Tick_At 12] list_empty = Inr (s, fs)
    \<and> hq.run [Add_Timer 1 20, Add_Timer 2 10, Add_Timer 3 15, Del_Timer 3, Tick_At 12] heap_empty = Inr (h, gs)
    \<and> map mset fs = map mset gs \<and> list_entries s = heap_entries h
    \<and> map mset fs = [{#}, {#}, {#}, {#}, {#2#}]"
  using list_heap_equivalent[of "[Add_Timer 1 20, Add_Timer 2 10, Add_Timer 3 15, Del_Timer 3, Tick_At 12]"]
  by (auto simp: waiting_def overdue_def)

text \<open>
  \<open>top\<close> and \<open>pop_timer\<close> skip the timers that were deleted: \<open>top\<close> returns NULL when no timer is
  left and otherwise an undeleted timer with the earliest deadline of all, and \<open>pop_timer\<close> takes
  out just this one.
\<close>

theorem mh_top_least:
  assumes "heap_inv s"
  shows "\<exists>s' r. mh_top s = Inr (s', r) \<and> heap_inv s' \<and> heap_entries s' = heap_entries s
    \<and> (r = None \<longleftrightarrow> heap_entries s = {#})
    \<and> (\<forall>a. r = Some a \<longrightarrow> (\<exists>e. (a, e) \<in># heap_entries s \<and> (\<forall>(b, e') \<in># heap_entries s. e \<le> e')
          \<and> (\<exists>s''. pop_timer s = Inr s'' \<and> heap_inv s'' \<and> heap_entries s = add_mset (a, e) (heap_entries s''))))"
proof -
  obtain h as where p: "purge (mh_timers s) (min_heap s) = Inr (h, as)" "heap_ok h as"
    "live h as = heap_entries s" "as \<noteq> [] \<longrightarrow> alive h (hd as)"
    using purge_spec[OF assms] by blast
  show ?thesis
  proof (cases as)
    case Nil
    then show ?thesis using p by (simp add: mh_top_def)
  next
    case (Cons a as')
    obtain t where t: "h a = Some t" "mh_key h a = mh_expire t"
      "\<And>b. b \<in> set as' \<Longrightarrow> mh_expire t \<le> mh_key h b"
      using heap_ok_head p(2) unfolding Cons by blast
    have l: "heap_entries s = add_mset (a, mh_expire t) (live h as')"
      using p(3,4) t by (simp add: Cons live_Cons)
    have "\<forall>(b, e') \<in># heap_entries s. mh_expire t \<le> e'" unfolding l using t(3) by (auto simp: live_def)
    moreover have "pop_timer s = Inr \<lparr>mh_timers = h(a := None), min_heap = as'\<rparr>"
      using p(1) by (simp add: pop_timer_def Cons)
    moreover note heap_ok_tail[OF p(2)[unfolded Cons]]
    ultimately show ?thesis using p l by (auto simp: mh_top_def Cons)
  qed
qed

theorem mh_top_least_witness:
  "\<exists>s' r. mh_top \<lparr>mh_timers = [1 \<mapsto> \<lparr>mh_expire = 5, has_callback = True, deleted = True\<rparr>,
        2 \<mapsto> new_mh_timer 4 3], min_heap = [1, 2]\<rparr> = Inr (s', r) \<and> r \<noteq> None"
  using mh_top_least[of "\<lparr>mh_timers = [1 \<mapsto> \<lparr>mh_expire = 5, has_callback = True, deleted = True\<rparr>,
        2 \<mapsto> new_mh_timer 4 3], min_heap = [1, 2]\<rparr>"]
  by (auto simp: heap_ok_def new_mh_timer_def mh_key_def live_def alive_def)

end
