(* ===== verification/Time_Wheel.thy ===== *)
theory Time_Wheel
  imports Timer_List
begin

text \<open>
  The time wheel of 81\_timer/main.cpp: 60 slots, each a list of pointers to \<open>tw_timer\<close> objects, a
  current slot, and a tick that handles the current slot and moves to the next one.
\<close>

subsection \<open>The class \<open>time_wheel\<close>\<close>

record tw_timer =
  circle_num :: int
  time_slot :: int

record time_wheel =
  tw_timers :: "nat \<Rightarrow> tw_timer option"
  slots :: "nat list list"
  cur_slot :: int

definition wheel_N :: int where
  "wheel_N = 60"

definition wheel_si :: int where
  "wheel_si = 1"

definition new_wheel :: time_wheel where
  "new_wheel = \<lparr>tw_timers = (\<lambda>_. None), slots = replicate (nat wheel_N) [], cur_slot = 0\<rparr>"

text \<open>\<open>a\<close> is the address \<open>new\<close> returns; the result has the new timer, or NULL.\<close>

definition tw_add_timer :: "nat \<Rightarrow> int \<Rightarrow> time_wheel \<Rightarrow> time_wheel \<times> nat option" where
  "tw_add_timer a timeout s =
     (if timeout < 0 then (s, None)
      else let tick_num = (if timeout < wheel_si then 1 else timeout div wheel_si);
               circle = tick_num div wheel_N;
               slot = (cur_slot s + tick_num mod wheel_N) mod wheel_N
           in (s\<lparr>tw_timers := (tw_timers s)(a \<mapsto> \<lparr>circle_num = circle, time_slot = slot\<rparr>),
                 slots := (slots s)[nat slot := slots s ! nat slot @ [a]]\<rparr>, Some a))"

definition tw_del_timer :: "nat option \<Rightarrow> time_wheel \<Rightarrow> time_wheel result" where
  "tw_del_timer ap s =
     (case ap of None \<Rightarrow> Inr s
      | Some a \<Rightarrow> bindR (deref_timer (tw_timers s) a) (\<lambda>t.
          Inr (s\<lparr>slots := (slots s)[nat (time_slot t) := removeAll a (slots s ! nat (time_slot t))]\<rparr>)))"

text \<open>The loop over the current slot: the objects after it, the pointers kept, the timers run.\<close>

fun slot_loop :: "(nat \<Rightarrow> tw_timer option) \<Rightarrow> nat list \<Rightarrow> ((nat \<Rightarrow> tw_timer option) \<times> nat list \<times> nat list) result" where
  "slot_loop h [] = Inr (h, [], [])"
| "slot_loop h (a # as) = bindR (deref_timer h a) (\<lambda>t.
     if circle_num t > 0 then
       bindR (slot_loop (h(a \<mapsto> t\<lparr>circle_num := circle_num t - 1\<rparr>)) as) (\<lambda>(h', as', f). Inr (h', a # as', f))
     else
       bindR (slot_loop (h(a := None)) as) (\<lambda>(h', as', f). Inr (h', as', a # f)))"

definition wheel_tick :: "time_wheel \<Rightarrow> (time_wheel \<times> nat list) result" where
  "wheel_tick s =
     bindR (slot_loop (tw_timers s) (slots s ! nat (cur_slot s))) (\<lambda>(h, as, f).
       Inr (\<lparr>tw_timers = h, slots = (slots s)[nat (cur_slot s) := as],
             cur_slot = (cur_slot s + 1) mod wheel_N\<rparr>, f))"

subsection \<open>The invariant\<close>

text \<open>Every pointer of a slot is an object that knows the slot, and no pointer is stored twice.\<close>

definition in_slot :: "time_wheel \<Rightarrow> nat \<Rightarrow> nat \<Rightarrow> bool" where
  "in_slot s j a \<longleftrightarrow> j < length (slots s) \<and> a \<in> set (slots s ! j)"

definition wheel_inv :: "time_wheel \<Rightarrow> bool" where
  "wheel_inv s \<longleftrightarrow> length (slots s) = 60 \<and> 0 \<le> cur_slot s \<and> cur_slot s < 60
     \<and> (\<forall>j < 60. distinct (slots s ! j)
          \<and> (\<forall>a \<in> set (slots s ! j). \<exists>t. tw_timers s a = Some t \<and> time_slot t = int j \<and> 0 \<le> circle_num t))"

text \<open>The ticks that pass before the one that runs a timer.\<close>

definition due_ticks :: "time_wheel \<Rightarrow> nat \<Rightarrow> nat option" where
  "due_ticks s a =
     (case tw_timers s a of
        None \<Rightarrow> None
      | Some t \<Rightarrow> if in_slot s (nat (time_slot t)) a
                  then Some (nat ((time_slot t - cur_slot s) mod 60 + 60 * circle_num t)) else None)"

lemma wheel_invD:
  assumes "wheel_inv s" and "j < 60" and "a \<in> set (slots s ! j)"
  obtains t where "tw_timers s a = Some t" "time_slot t = int j" "0 \<le> circle_num t"
  using assms unfolding wheel_inv_def by blast

lemma due_ticks_slot:
  assumes "wheel_inv s" and "j < 60" and "a \<in> set (slots s ! j)" and "tw_timers s a = Some t"
  shows "due_ticks s a = Some (nat ((int j - cur_slot s) mod 60 + 60 * circle_num t))"
proof -
  have "time_slot t = int j" using wheel_invD[OF assms(1-3)] assms(4) by force
  then show ?thesis using assms by (simp add: due_ticks_def in_slot_def wheel_inv_def)
qed

lemma due_ticks_Some:
  assumes "wheel_inv s" and "due_ticks s a = Some d"
  obtains j t where "j < 60" "a \<in> set (slots s ! j)" "tw_timers s a = Some t" "time_slot t = int j"
    "0 \<le> circle_num t" "d = nat ((int j - cur_slot s) mod 60 + 60 * circle_num t)"
proof -
  obtain t where t: "tw_timers s a = Some t" "in_slot s (nat (time_slot t)) a"
    using assms(2) by (auto simp: due_ticks_def split: option.splits if_splits)
  then have j: "nat (time_slot t) < 60" "a \<in> set (slots s ! nat (time_slot t))"
    using assms(1) by (auto simp: in_slot_def wheel_inv_def)
  have "time_slot t = int (nat (time_slot t)) \<and> 0 \<le> circle_num t"
    using wheel_invD[OF assms(1) j] t(1) by force
  then show ?thesis using that[OF j t(1)] due_ticks_slot[OF assms(1) j t(1)] assms(2) by simp
qed

text \<open>No timer is in two slots, so whether a timer waits depends on its own slot only.\<close>

lemma due_ticks_None:
  assumes "wheel_inv s" and "\<And>j. j < 60 \<Longrightarrow> a \<notin> set (slots s ! j)"
  shows "due_ticks s a = None"
proof (cases "due_ticks s a")
  case (Some d)
  then show ?thesis using due_ticks_Some[OF assms(1) Some] assms(2) by blast
qed

lemma due_ticks_eq:
  assumes "wheel_inv s" and "wheel_inv s'" and "cur_slot s' = cur_slot s"
    and "\<And>j. j < 60 \<Longrightarrow> a \<in> set (slots s' ! j) \<longleftrightarrow> a \<in> set (slots s ! j)"
    and "tw_timers s' a = tw_timers s a"
  shows "due_ticks s' a = due_ticks s a"
proof (cases "\<exists>j < 60. a \<in> set (slots s ! j)")
  case True
  then obtain j where j: "j < 60" "a \<in> set (slots s ! j)" by blast
  obtain t where t: "tw_timers s a = Some t" using wheel_invD[OF assms(1) j] by blast
  show ?thesis
    using due_ticks_slot[OF assms(1) j t] due_ticks_slot[OF assms(2) j(1)] assms(3-5) j t by simp
next
  case False
  then show ?thesis using due_ticks_None[OF assms(1)] due_ticks_None[OF assms(2)] assms(4) by simp
qed

subsection \<open>The tick\<close>

lemma slot_loop_spec:
  assumes "distinct as" and "\<forall>a \<in> set as. h a \<noteq> None"
  shows "slot_loop h as = Inr
    (\<lambda>a. if a \<in> set as then (if circle_num (the (h a)) > 0
            then Some ((the (h a))\<lparr>circle_num := circle_num (the (h a)) - 1\<rparr>) else None) else h a,
     filter (\<lambda>a. circle_num (the (h a)) > 0) as,
     filter (\<lambda>a. \<not> circle_num (the (h a)) > 0) as)"
  using assms
proof (induction as arbitrary: h)
  case Nil
  then show ?case by simp
next
  case (Cons a as)
  obtain t where t: "h a = Some t" using Cons.prems(2) by auto
  have a: "a \<notin> set as" and d: "distinct as" using Cons.prems(1) by auto
  have IH: "slot_loop (h(a := v)) as = Inr
    (\<lambda>b. if b \<in> set as then (if circle_num (the (h b)) > 0
            then Some ((the (h b))\<lparr>circle_num := circle_num (the (h b)) - 1\<rparr>) else None) else (h(a := v)) b,
     filter (\<lambda>b. circle_num (the (h b)) > 0) as,
     filter (\<lambda>b. \<not> circle_num (the (h b)) > 0) as)" for v
  proof -
    have "\<forall>b \<in> set as. (h(a := v)) b \<noteq> None" using Cons.prems(2) a by auto
    note r = Cons.IH[OF d this]
    have same: "(h(a := v)) b = h b" if "b \<in> set as" for b using that a by auto
    have f: "filter (\<lambda>b. circle_num (the ((h(a := v)) b)) > 0) as = filter (\<lambda>b. circle_num (the (h b)) > 0) as"
      "filter (\<lambda>b. \<not> circle_num (the ((h(a := v)) b)) > 0) as = filter (\<lambda>b. \<not> circle_num (the (h b)) > 0) as"
      by (intro filter_cong refl, simp only: same)+
    show ?thesis unfolding r f using same by (auto simp: fun_eq_iff)
  qed
  show ?case using t a by (auto simp: deref_timer_def IH fun_eq_iff)
qed

lemma wheel_tick_spec:
  assumes "wheel_inv s"
  shows "\<exists>s' f. wheel_tick s = Inr (s', f) \<and> wheel_inv s' \<and> distinct f
    \<and> f = filter (\<lambda>a. circle_num (the (tw_timers s a)) \<le> 0) (slots s ! nat (cur_slot s))
    \<and> cur_slot s' = (cur_slot s + 1) mod 60
    \<and> slots s' = (slots s)[nat (cur_slot s) := filter (\<lambda>a. circle_num (the (tw_timers s a)) > 0) (slots s ! nat (cur_slot s))]
    \<and> (\<forall>a. tw_timers s' a = (if a \<in> set (slots s ! nat (cur_slot s))
           then (if circle_num (the (tw_timers s a)) > 0
                 then Some ((the (tw_timers s a))\<lparr>circle_num := circle_num (the (tw_timers s a)) - 1\<rparr>) else None)
           else tw_timers s a))"
proof -
  let ?c = "nat (cur_slot s)"
  have c: "?c < 60" "int ?c = cur_slot s" using assms by (auto simp: wheel_inv_def)
  have as: "distinct (slots s ! ?c)" "\<forall>a \<in> set (slots s ! ?c). tw_timers s a \<noteq> None"
    using assms c by (auto simp: wheel_inv_def)
  let ?s = "\<lparr>tw_timers = (\<lambda>a. if a \<in> set (slots s ! ?c) then (if circle_num (the (tw_timers s a)) > 0
            then Some ((the (tw_timers s a))\<lparr>circle_num := circle_num (the (tw_timers s a)) - 1\<rparr>) else None)
            else tw_timers s a),
     slots = (slots s)[?c := filter (\<lambda>a. circle_num (the (tw_timers s a)) > 0) (slots s ! ?c)],
     cur_slot = (cur_slot s + 1) mod wheel_N\<rparr>"
  have t: "wheel_tick s = Inr (?s, filter (\<lambda>a. \<not> circle_num (the (tw_timers s a)) > 0) (slots s ! ?c))"
    unfolding wheel_tick_def slot_loop_spec[OF as] by simp
  have elem: "a \<in> set (slots s ! ?c) \<longrightarrow> circle_num (the (tw_timers s a)) > 0"
    if "a \<in> set (slots ?s ! j)" and j: "j < 60" for a j
  proof (cases "j = ?c")
    case True
    then show ?thesis using that assms by (simp add: wheel_inv_def)
  next
    case False
    then have a: "a \<in> set (slots s ! j)" using that by simp
    have "a \<notin> set (slots s ! ?c)"
    proof
      assume b: "a \<in> set (slots s ! ?c)"
      obtain t where "tw_timers s a = Some t" "time_slot t = int j" by (rule wheel_invD[OF assms j a])
      moreover obtain t' where "tw_timers s a = Some t'" "time_slot t' = int ?c" by (rule wheel_invD[OF assms c(1) b])
      ultimately have "int j = int ?c" by simp
      then have "j = ?c" by (simp only: of_nat_eq_iff)
      then show False using False by simp
    qed
    then show ?thesis by simp
  qed
  have old: "a \<in> set (slots s ! j)" if "a \<in> set (slots ?s ! j)" "j < 60" for a j
    using that assms by (cases "j = ?c") (auto simp: wheel_inv_def)
  have "wheel_inv ?s"
    unfolding wheel_inv_def
  proof (intro conjI allI impI ballI)
    fix j :: nat assume j: "j < 60"
    show "distinct (slots ?s ! j)" using assms j by (cases "j = ?c") (auto simp: wheel_inv_def)
    fix a assume a: "a \<in> set (slots ?s ! j)"
    obtain t where t: "tw_timers s a = Some t" "time_slot t = int j" "0 \<le> circle_num t"
      by (rule wheel_invD[OF assms j old[OF a j]])
    show "\<exists>t. tw_timers ?s a = Some t \<and> time_slot t = int j \<and> 0 \<le> circle_num t"
      using t elem[OF a j] by auto
  qed (use assms in \<open>auto simp: wheel_inv_def wheel_N_def\<close>)
  then show ?thesis using t as(1) by (auto simp: wheel_N_def not_less)
qed

lemma mod_60: "- 60 < x \<Longrightarrow> x < 60 \<Longrightarrow> x mod 60 = (if x < 0 then x + 60 else x)" for x :: int
  using mod_add_self2[of x 60] by (auto simp del: mod_add_self2)

lemma wheel_fired_due:
  assumes "wheel_inv s"
  shows "a \<in> set (slots s ! nat (cur_slot s)) \<and> circle_num (the (tw_timers s a)) \<le> 0 \<longleftrightarrow> due_ticks s a = Some 0"
proof
  assume a: "a \<in> set (slots s ! nat (cur_slot s)) \<and> circle_num (the (tw_timers s a)) \<le> 0"
  have c: "nat (cur_slot s) < 60" "int (nat (cur_slot s)) = cur_slot s" using assms by (auto simp: wheel_inv_def)
  obtain t where "tw_timers s a = Some t" "0 \<le> circle_num t" using wheel_invD[OF assms c(1)] a by blast
  then show "due_ticks s a = Some 0" using due_ticks_slot[OF assms c(1)] a c(2) by auto
next
  assume d: "due_ticks s a = Some 0"
  obtain j t where j: "j < 60" "a \<in> set (slots s ! j)" "tw_timers s a = Some t" "0 \<le> circle_num t"
    "0 = nat ((int j - cur_slot s) mod 60 + 60 * circle_num t)"
    by (rule due_ticks_Some[OF assms d])
  have m: "0 \<le> (int j - cur_slot s) mod 60" by simp
  then have "(int j - cur_slot s) mod 60 = 0" "circle_num t = 0" using j(4,5) by linarith+
  moreover have "- 60 < int j - cur_slot s" "int j - cur_slot s < 60" using assms j(1) by (auto simp: wheel_inv_def)
  ultimately have "int j = cur_slot s" by (simp add: mod_60 split: if_splits)
  then have "nat (cur_slot s) = j" by simp
  then show "a \<in> set (slots s ! nat (cur_slot s)) \<and> circle_num (the (tw_timers s a)) \<le> 0"
    using j \<open>circle_num t = 0\<close> by simp
qed

text \<open>One tick takes one off the count of every timer that stays.\<close>

lemma slot_distance:
  assumes "0 \<le> (c::int)" and "c < 60" and "0 \<le> j" and "j < 60"
  shows "(j - (c + 1) mod 60) mod 60 = (if j = c then 59 else (j - c) mod 60 - 1)"
    and "j \<noteq> c \<Longrightarrow> 1 \<le> (j - c) mod 60"
proof -
  have c: "(c + 1) mod 60 = (if c = 59 then 0 else c + 1)" using assms by auto
  have "(j - (c + 1) mod 60) mod 60 = (if j = c then 59 else if j < c then j - c + 59 else j - c - 1)"
    unfolding c using assms by (simp add: mod_60)
  moreover have d: "(j - c) mod 60 = (if j < c then j - c + 60 else j - c)" using assms by (simp add: mod_60)
  ultimately show "(j - (c + 1) mod 60) mod 60 = (if j = c then 59 else (j - c) mod 60 - 1)" by simp
  show "1 \<le> (j - c) mod 60" if "j \<noteq> c" unfolding d using that assms by simp
qed

lemma wheel_tick_due:
  assumes "wheel_inv s" and "wheel_tick s = Inr (s', f)"
  shows "due_ticks s' a = (case due_ticks s a of Some (Suc n) \<Rightarrow> Some n | _ \<Rightarrow> None)"
proof -
  let ?c = "nat (cur_slot s)"
  have c: "?c < 60" "int ?c = cur_slot s" "0 \<le> cur_slot s" "cur_slot s < 60"
    using assms(1) by (auto simp: wheel_inv_def)
  have s': "wheel_inv s'" "cur_slot s' = (cur_slot s + 1) mod 60"
    "slots s' = (slots s)[?c := filter (\<lambda>a. circle_num (the (tw_timers s a)) > 0) (slots s ! ?c)]"
    "\<And>a. tw_timers s' a = (if a \<in> set (slots s ! ?c)
           then (if circle_num (the (tw_timers s a)) > 0
                 then Some ((the (tw_timers s a))\<lparr>circle_num := circle_num (the (tw_timers s a)) - 1\<rparr>) else None)
           else tw_timers s a)"
    using wheel_tick_spec[OF assms(1)] assms(2) by auto
  have len: "length (slots s) = 60" using assms(1) by (simp add: wheel_inv_def)
  show ?thesis
  proof (cases "due_ticks s a")
    case None
    have out: "a \<notin> set (slots s ! j)" if j: "j < 60" for j
    proof
      assume a: "a \<in> set (slots s ! j)"
      obtain t where "tw_timers s a = Some t" by (rule wheel_invD[OF assms(1) j a])
      then show False using due_ticks_slot[OF assms(1) j a] None by simp
    qed
    have "a \<notin> set (slots s' ! j)" if "j < 60" for j
      using that out[OF that] out[OF c(1)] len c(1) unfolding s'(3) by (cases "j = ?c") auto
    then show ?thesis using due_ticks_None[OF s'(1)] None by simp
  next
    case (Some d)
    obtain j t where j: "j < 60" "a \<in> set (slots s ! j)" "tw_timers s a = Some t" "time_slot t = int j"
      "0 \<le> circle_num t" "d = nat ((int j - cur_slot s) mod 60 + 60 * circle_num t)"
      by (rule due_ticks_Some[OF assms(1) Some])
    show ?thesis
    proof (cases "j = ?c")
      case False
      have "a \<notin> set (slots s ! ?c)"
      proof
        assume "a \<in> set (slots s ! ?c)"
        then obtain t' where "tw_timers s a = Some t'" "time_slot t' = int ?c" by (rule wheel_invD[OF assms(1) c(1)])
        then have "int j = int ?c" using j(3,4) by simp
        then have "j = ?c" by (simp only: of_nat_eq_iff)
        then show False using False by simp
      qed
      then have t': "tw_timers s' a = Some t" "a \<in> set (slots s' ! j)" using j(2,3) False s'(3,4) by auto
      have ne: "int j \<noteq> cur_slot s" using False c(2) by simp
      have "due_ticks s' a = Some (nat ((int j - cur_slot s) mod 60 - 1 + 60 * circle_num t))"
        unfolding due_ticks_slot[OF s'(1) j(1) t'(2,1)] s'(2)
        using slot_distance(1)[OF c(3,4), of "int j"] j(1) ne by simp
      moreover have "1 \<le> (int j - cur_slot s) mod 60" using slot_distance(2)[OF c(3,4), of "int j"] j(1) ne by simp
      ultimately show ?thesis using Some j(5,6) by (auto split: nat.splits)
    next
      case True
      show ?thesis
      proof (cases "circle_num t > 0")
        case pos: True
        then have t': "tw_timers s' a = Some (t\<lparr>circle_num := circle_num t - 1\<rparr>)" "a \<in> set (slots s' ! j)"
          using True j(2,3) len c(1) unfolding s'(3,4) by auto
        have "due_ticks s' a = Some (nat (59 + 60 * (circle_num t - 1)))"
          unfolding due_ticks_slot[OF s'(1) j(1) t'(2,1)] s'(2)
          using slot_distance(1)[OF c(3,4), of "int j"] j(1) True c(2) by simp
        then show ?thesis using Some pos True c(2) j(6) by (auto split: nat.splits)
      next
        case False
        then have "tw_timers s' a = None" using True j(2,3) unfolding s'(4) by simp
        then have "due_ticks s' a = None" by (simp add: due_ticks_def)
        then show ?thesis using Some False True c(2) j(5,6) by simp
      qed
    qed
  qed
qed

interpretation tw: tick_counter wheel_inv due_ticks wheel_tick
proof (unfold_locales, goal_cases)
  case (1 s)
  obtain s' f where s': "wheel_tick s = Inr (s', f)" "wheel_inv s'" "distinct f"
    "f = filter (\<lambda>a. circle_num (the (tw_timers s a)) \<le> 0) (slots s ! nat (cur_slot s))"
    using wheel_tick_spec[OF 1] by blast
  then show ?case using wheel_tick_due[OF 1 s'(1)] wheel_fired_due[OF 1] by (auto simp: set_eq_iff)
qed

subsection \<open>Adding and deleting\<close>

lemma new_wheel_inv [simp]: "wheel_inv new_wheel"
  by (simp add: wheel_inv_def new_wheel_def wheel_N_def)

lemma tw_add_timer_inv:
  assumes "wheel_inv s" and "tw_timers s a = None" and "0 \<le> timeout"
  shows "\<exists>s'. tw_add_timer a timeout s = (s', Some a) \<and> wheel_inv s' \<and> cur_slot s' = cur_slot s
    \<and> due_ticks s' a = Some (nat (max 1 timeout)) \<and> (\<forall>b. b \<noteq> a \<longrightarrow> due_ticks s' b = due_ticks s b)"
proof -
  define n where "n = max 1 timeout"
  define circle where "circle = n div 60"
  define j0 where "j0 = (cur_slot s + n mod 60) mod 60"
  define slot where "slot = nat j0"
  let ?t = "\<lparr>circle_num = circle, time_slot = j0\<rparr>"
  let ?s = "s\<lparr>tw_timers := (tw_timers s)(a \<mapsto> ?t), slots := (slots s)[slot := slots s ! slot @ [a]]\<rparr>"
  have n: "(if timeout < wheel_si then 1 else timeout div wheel_si) = n" by (auto simp: wheel_si_def n_def)
  have r: "tw_add_timer a timeout s = (?s, Some a)"
    using assms(3) unfolding tw_add_timer_def n Let_def wheel_N_def circle_def slot_def j0_def by simp
  have c0: "0 \<le> circle" by (simp add: circle_def n_def pos_imp_zdiv_nonneg_iff)
  have slot: "slot < 60" "int slot = j0" by (simp_all add: slot_def j0_def)
  have sum: "(j0 - cur_slot s) mod 60 + 60 * circle = n" unfolding circle_def j0_def by (simp add: mod_simps)
  have len: "length (slots s) = 60" using assms(1) by (simp add: wheel_inv_def)
  have fresh: "a \<notin> set (slots s ! j)" if "j < 60" for j
    using assms(1,2) that unfolding wheel_inv_def by fastforce
  have sl: "slots ?s ! j = (if j = slot then slots s ! j @ [a] else slots s ! j)" if "j < 60" for j
    using that len by simp
  have inv: "wheel_inv ?s"
    unfolding wheel_inv_def
  proof (intro conjI allI impI ballI)
    fix j :: nat assume j: "j < 60"
    show "distinct (slots ?s ! j)" using assms(1) j fresh[OF j] unfolding sl[OF j] by (auto simp: wheel_inv_def)
    fix b assume b: "b \<in> set (slots ?s ! j)"
    show "\<exists>t. tw_timers ?s b = Some t \<and> time_slot t = int j \<and> 0 \<le> circle_num t"
    proof (cases "b = a")
      case True
      then have "j = slot" using b fresh[OF j] unfolding sl[OF j] by (auto split: if_splits)
      then show ?thesis using True slot(2) c0 by simp
    next
      case False
      then have "b \<in> set (slots s ! j)" using b unfolding sl[OF j] by (auto split: if_splits)
      then obtain t where "tw_timers s b = Some t" "time_slot t = int j" "0 \<le> circle_num t"
        by (rule wheel_invD[OF assms(1) j])
      then show ?thesis using False by simp
    qed
  qed (use assms(1) in \<open>auto simp: wheel_inv_def\<close>)
  have "a \<in> set (slots ?s ! slot)" unfolding sl[OF slot(1)] by simp
  from due_ticks_slot[OF inv slot(1) this, of ?t]
  have "due_ticks ?s a = Some (nat (max 1 timeout))" using sum slot(2) by (simp add: n_def)
  moreover have "due_ticks ?s b = due_ticks s b" if "b \<noteq> a" for b
    by (rule due_ticks_eq[OF assms(1) inv]) (use that sl in auto)
  ultimately show ?thesis using r inv by auto
qed

lemma tw_del_timer_inv:
  assumes "wheel_inv s" and "due_ticks s a = Some d"
  shows "\<exists>s'. tw_del_timer (Some a) s = Inr s' \<and> wheel_inv s' \<and> due_ticks s' a = None
    \<and> (\<forall>b. b \<noteq> a \<longrightarrow> due_ticks s' b = due_ticks s b)"
proof -
  obtain j t where j: "j < 60" "a \<in> set (slots s ! j)" "tw_timers s a = Some t" "time_slot t = int j"
    by (rule due_ticks_Some[OF assms])
  let ?s = "s\<lparr>slots := (slots s)[j := removeAll a (slots s ! j)]\<rparr>"
  have r: "tw_del_timer (Some a) s = Inr ?s" using j by (simp add: tw_del_timer_def deref_timer_def)
  have len: "length (slots s) = 60" using assms(1) by (simp add: wheel_inv_def)
  have other: "a \<notin> set (slots s ! i)" if i: "i < 60" and "i \<noteq> j" for i
  proof
    assume "a \<in> set (slots s ! i)"
    then obtain t' where "tw_timers s a = Some t'" "time_slot t' = int i" by (rule wheel_invD[OF assms(1) i])
    then show False using j(3,4) \<open>i \<noteq> j\<close> by simp
  qed
  have sl: "slots ?s ! i = removeAll a (slots s ! i)" if "i < 60" for i
    using that len other[OF that] by (cases "i = j") auto
  have inv: "wheel_inv ?s"
    unfolding wheel_inv_def
  proof (intro conjI allI impI ballI)
    fix i :: nat assume i: "i < 60"
    show "distinct (slots ?s ! i)" using assms(1) i unfolding sl[OF i] by (simp add: wheel_inv_def distinct_removeAll)
    fix b assume "b \<in> set (slots ?s ! i)"
    then have "b \<in> set (slots s ! i)" unfolding sl[OF i] by simp
    then obtain t where "tw_timers s b = Some t" "time_slot t = int i" "0 \<le> circle_num t"
      by (rule wheel_invD[OF assms(1) i])
    then show "\<exists>t. tw_timers ?s b = Some t \<and> time_slot t = int i \<and> 0 \<le> circle_num t" by simp
  qed (use assms(1) in \<open>auto simp: wheel_inv_def\<close>)
  have "due_ticks ?s a = None" by (rule due_ticks_None[OF inv]) (use sl in simp)
  moreover have "due_ticks ?s b = due_ticks s b" if "b \<noteq> a" for b
    by (rule due_ticks_eq[OF assms(1) inv]) (use that sl in auto)
  ultimately show ?thesis using r inv by auto
qed

text \<open>
  C13. A timer that is added to the wheel with a timeout of \<open>t\<close> slots, \<open>t = 0\<close> counting as 1, runs
  at the tick after the next \<open>t\<close> ones and at no other: never early, and at most one interval late.
  Adding it moves no other timer; a timer that is deleted before does not run at all.
\<close>

theorem wheel_fires_on_time:
  assumes "wheel_inv s" and "tw_timers s a = None" and "0 \<le> timeout"
  shows "\<exists>s' s''. tw_add_timer a timeout s = (s', Some a) \<and> wheel_inv s'
    \<and> (\<forall>n. \<exists>sn f. tw.ticks (Suc n) s' = Inr (sn, f) \<and> (a \<in> set f \<longleftrightarrow> n = nat (max 1 timeout)))
    \<and> (\<forall>b. b \<noteq> a \<longrightarrow> due_ticks s' b = due_ticks s b)
    \<and> tw_del_timer (Some a) s' = Inr s''
    \<and> (\<forall>n. \<exists>sn f. tw.ticks n s'' = Inr (sn, f) \<and> due_ticks sn a = None)"
proof -
  obtain s' where s': "tw_add_timer a timeout s = (s', Some a)" "wheel_inv s'"
    "due_ticks s' a = Some (nat (max 1 timeout))" "\<forall>b. b \<noteq> a \<longrightarrow> due_ticks s' b = due_ticks s b"
    using tw_add_timer_inv[OF assms] by blast
  moreover obtain s'' where s'': "tw_del_timer (Some a) s' = Inr s''" "wheel_inv s''" "due_ticks s'' a = None"
    using tw_del_timer_inv[OF s'(2,3)] by blast
  moreover have "\<exists>sn f. tw.ticks (Suc n) s' = Inr (sn, f) \<and> (a \<in> set f \<longleftrightarrow> n = nat (max 1 timeout))" for n
    by (rule tw.fires_exactly[OF s'(2,3)])
  moreover have "\<exists>sn f. tw.ticks n s'' = Inr (sn, f) \<and> due_ticks sn a = None" for n
    using tw.ticks_due[OF s''(2), of n] s''(3) by fastforce
  ultimately show ?thesis by blast
qed

theorem wheel_fires_on_time_witness:
  "\<exists>s' f. tw.ticks 63 (fst (tw_add_timer 7 62 new_wheel)) = Inr (s', f) \<and> 7 \<in> set f"
proof -
  have tw_fresh: "tw_timers new_wheel 7 = None" "(0::int) \<le> 62" by (simp_all add: new_wheel_def)
  obtain s' sn f where "tw_add_timer 7 62 new_wheel = (s', Some 7)" "tw.ticks (Suc 62) s' = Inr (sn, f)"
    "7 \<in> set f \<longleftrightarrow> (62::nat) = nat (max 1 62)"
    using wheel_fires_on_time[OF new_wheel_inv, of 7 62] tw_fresh by blast
  then show ?thesis by simp
qed

end
