(* ===== verification/Timeout_Server.thy ===== *)
theory Timeout_Server
  imports Posix Timer_List
begin

text \<open>
  \<open>timeout_server_test\<close> of 81\_timer/main.cpp: the server that closes idle connections. Every
  connection has a timer 15 seconds away in the sorted list; data moves it, and a tick, run after
  the events when \<open>SIGALRM\<close> came through the pipe, closes the connections whose time has come.
\<close>

subsection \<open>State\<close>

definition TIMESLOT :: int where "TIMESLOT = 5"
definition MAX_USERS :: int where "MAX_USERS = 65535"
definition MAX_EVENTS :: nat where "MAX_EVENTS = 1024"

record timeout_client =
  client_sock :: int
  client_buf :: string
  client_timer :: "nat option"

text \<open>
  \<open>events\<close> is the array \<open>evs\<close>, which lives as long as the server; \<open>None\<close> is an entry that no
  \<open>epoll_wait\<close> has filled. \<open>alarm_at\<close> is when the next \<open>SIGALRM\<close> comes.
\<close>

record timeout_server =
  s_time_list :: sort_timer_list
  clients :: "int \<Rightarrow> timeout_client"
  epoll_set :: interest
  events :: "nat \<Rightarrow> (int \<times> 32 word) option"
  ts_stop :: bool
  ts_timeout :: bool
  alarm_at :: int

text \<open>What the system gives an event: the accepted descriptor, the data, the time, the new object.\<close>

record event_reply =
  r_accept :: int
  r_recv :: recv_ret
  r_now :: int
  r_new :: nat

subsection \<open>Operations\<close>

definition addfd :: "int \<Rightarrow> sys_call list" where
  "addfd fd = [Epoll_Add fd (EPOLLIN OR EPOLLET), Set_Nonblock fd]"

definition calls :: "sys_call list \<Rightarrow> timeout_server \<Rightarrow> timeout_server" where
  "calls cs s = s\<lparr>epoll_set := kernel_calls cs (epoll_set s)\<rparr>"

definition time_callback :: "timeout_client \<Rightarrow> timeout_server \<Rightarrow> timeout_server" where
  "time_callback data s = calls [Epoll_Del (client_sock data), Close (client_sock data)] s"

text \<open>The byte a handler writes to the pipe, and what the loop does with the bytes it reads.\<close>

definition sig_handler :: "nat \<Rightarrow> char list \<Rightarrow> char list" where
  "sig_handler sig pipe = pipe @ [char_of sig]"

fun on_signals :: "char list \<Rightarrow> timeout_server \<Rightarrow> timeout_server" where
  "on_signals [] s = s"
| "on_signals (c # cs) s =
     on_signals cs (if c = char_of SIGALRM then s\<lparr>ts_timeout := True\<rparr>
                    else if c = char_of SIGTERM then s\<lparr>ts_stop := True\<rparr> else s)"

definition on_new_client :: "int \<Rightarrow> int \<Rightarrow> nat \<Rightarrow> timeout_server \<Rightarrow> timeout_server result" where
  "on_new_client cfd now a s =
     (if cfd < 0 \<or> MAX_USERS \<le> cfd then Inl (Bad_Store cfd)
      else let s1 = calls (addfd cfd) s;
               c = (clients s cfd)\<lparr>client_sock := cfd, client_timer := Some a\<rparr>;
               l = s_time_list s;
               l1 = l\<lparr>timers := (timers l)(a \<mapsto> \<lparr>expire = now + 3 * TIMESLOT, timer_data = cfd\<rparr>)\<rparr>
           in bindR (add_timer a l1) (\<lambda>l2.
                Inr (s1\<lparr>clients := (clients s)(cfd := c), s_time_list := l2\<rparr>)))"

definition drop_client :: "int \<Rightarrow> timeout_server \<Rightarrow> timeout_server" where
  "drop_client fd s =
     (let s1 = time_callback (clients s fd) s
      in case client_timer (clients s fd) of
           None \<Rightarrow> s1
         | Some a \<Rightarrow> s1\<lparr>s_time_list := del_timer a (s_time_list s1)\<rparr>)"

definition on_data :: "int \<Rightarrow> string \<Rightarrow> int \<Rightarrow> timeout_server \<Rightarrow> timeout_server result" where
  "on_data fd d now s =
     (case client_timer (clients s fd) of
        None \<Rightarrow> Inl Null_Deref
      | Some a \<Rightarrow> bindR (deref_timer (timers (s_time_list s)) a) (\<lambda>t.
          let l = s_time_list s;
              l1 = l\<lparr>timers := (timers l)(a \<mapsto> t\<lparr>expire := now + 3 * TIMESLOT\<rparr>)\<rparr>
          in bindR (adjust_timer a l1) (\<lambda>l2.
               Inr (s\<lparr>clients := (clients s)(fd := (clients s fd)\<lparr>client_buf := d\<rparr>), s_time_list := l2\<rparr>))))"

text \<open>
  One event. The second component of the result is the variable \<open>ret\<close>, which holds the number of
  events and which both calls of \<open>recv\<close> overwrite.
\<close>

definition recv_value :: "recv_ret \<Rightarrow> int" where
  "recv_value r = (case r of Bytes d \<Rightarrow> int (length d) | Closed \<Rightarrow> 0 | Failed e \<Rightarrow> -1)"

definition ts_event ::
  "int \<Rightarrow> int \<Rightarrow> int \<Rightarrow> 32 word \<Rightarrow> event_reply \<Rightarrow> int \<Rightarrow> timeout_server \<Rightarrow> (timeout_server \<times> int) result"
where
  "ts_event sock sigfd fd ev r ret s =
     (if fd = sock then bindR (on_new_client (r_accept r) (r_now r) (r_new r) s) (\<lambda>s'. Inr (s', ret))
      else if fd = sigfd \<and> ev AND EPOLLIN \<noteq> 0 then
        Inr (case r_recv r of Bytes d \<Rightarrow> on_signals d s | _ \<Rightarrow> s, recv_value (r_recv r))
      else if ev AND EPOLLIN \<noteq> 0 then
        (if fd < 0 \<or> MAX_USERS \<le> fd then Inl (Bad_Store fd)
         else bindR (case r_recv r of
             Failed e \<Rightarrow> Inr (if e \<noteq> EAGAIN then drop_client fd s else s)
           | Closed \<Rightarrow> Inr (drop_client fd s)
           | Bytes d \<Rightarrow> on_data fd d (r_now r) s) (\<lambda>s'. Inr (s', recv_value (r_recv r))))
      else Inr (s, ret))"

text \<open>The loop over the events; \<open>rs i\<close> is what the system gives the event at index \<open>i\<close>.\<close>

function ts_loop :: "int \<Rightarrow> int \<Rightarrow> (nat \<Rightarrow> event_reply) \<Rightarrow> nat \<Rightarrow> int \<Rightarrow> timeout_server \<Rightarrow> timeout_server result" where
  "ts_loop sock sigfd rs i ret s =
     (if int i < ret then
        (if MAX_EVENTS \<le> i then Inl (Bad_Load (int i))
         else case events s i of
           None \<Rightarrow> Inl (Bad_Load (int i))
         | Some (fd, ev) \<Rightarrow> bindR (ts_event sock sigfd fd ev (rs i) ret s) (\<lambda>(s', ret').
             ts_loop sock sigfd rs (Suc i) ret' s'))
      else Inr s)"
  by pat_completeness auto
termination
  by (relation "measure (\<lambda>(sock, sigfd, rs, i, ret, s). MAX_EVENTS - i)") auto

declare ts_loop.simps [simp del]

fun run_callbacks :: "(nat \<times> int) list \<Rightarrow> timeout_server \<Rightarrow> timeout_server" where
  "run_callbacks [] s = s"
| "run_callbacks ((a, cfd) # fs) s = run_callbacks fs (time_callback (clients s cfd) s)"

definition timer_handler :: "int \<Rightarrow> timeout_server \<Rightarrow> timeout_server result" where
  "timer_handler now s =
     bindR (list_tick now (s_time_list s)) (\<lambda>(l, fired).
       Inr ((run_callbacks fired s)\<lparr>s_time_list := l, alarm_at := now + TIMESLOT\<rparr>))"

text \<open>
  A turn of the outer loop: what \<open>epoll_wait\<close> reports (\<open>Inl\<close> an error), then the events, then the
  timers. The flag of the result is false when the loop is left.
\<close>

definition ts_turn ::
  "int \<Rightarrow> int \<Rightarrow> errno + (int \<times> 32 word) list \<Rightarrow> (nat \<Rightarrow> event_reply) \<Rightarrow> int \<Rightarrow> timeout_server
     \<Rightarrow> (timeout_server \<times> bool) result"
where
  "ts_turn sock sigfd w rs now s =
     (case w of
        Inl e \<Rightarrow>
          if e \<noteq> EINTR then Inr (s, False)
          else if ts_timeout s then bindR (timer_handler now s) (\<lambda>s'. Inr (s'\<lparr>ts_timeout := False\<rparr>, \<not> ts_stop s))
          else Inr (s, \<not> ts_stop s)
      | Inr es \<Rightarrow>
          bindR (ts_loop sock sigfd rs 0 (int (length es))
                   (s\<lparr>events := (\<lambda>i. if i < length es then Some (es ! i) else events s i)\<rparr>)) (\<lambda>s1.
            if ts_timeout s1 then
              bindR (timer_handler now s1) (\<lambda>s2. Inr (s2\<lparr>ts_timeout := False\<rparr>, \<not> ts_stop s2))
            else Inr (s1, \<not> ts_stop s1)))"

subsection \<open>Connections and their timers\<close>

text \<open>
  The open connections \<open>F\<close> and the list: every connection has one timer in the list and every
  timer of the list is that of its connection.
\<close>

definition timer_for :: "sort_timer_list \<Rightarrow> nat \<Rightarrow> int \<Rightarrow> bool" where
  "timer_for l a fd \<longleftrightarrow> a \<in> set (time_list l) \<and> (\<exists>t. timers l a = Some t \<and> timer_data t = fd)"

definition linked :: "sort_timer_list \<Rightarrow> (int \<Rightarrow> timeout_client) \<Rightarrow> int set \<Rightarrow> bool" where
  "linked l c F \<longleftrightarrow> list_inv l
     \<and> (\<forall>fd \<in> F. 0 \<le> fd \<and> fd < MAX_USERS \<and> client_sock (c fd) = fd
          \<and> (\<exists>a. client_timer (c fd) = Some a \<and> timer_for l a fd))
     \<and> (\<forall>a \<in> set (time_list l). \<exists>fd \<in> F. timer_for l a fd \<and> client_timer (c fd) = Some a)"

definition open_clients :: "int \<Rightarrow> int \<Rightarrow> timeout_server \<Rightarrow> int set" where
  "open_clients sock sigfd s = {fd. epoll_set s fd \<noteq> None} - {sock, sigfd}"

definition ts_inv :: "int \<Rightarrow> int \<Rightarrow> timeout_server \<Rightarrow> bool" where
  "ts_inv sock sigfd s \<longleftrightarrow> linked (s_time_list s) (clients s) (open_clients sock sigfd s)
     \<and> epoll_set s sock \<noteq> None \<and> epoll_set s sigfd \<noteq> None"

text \<open>When a connection is closed for being idle.\<close>

definition deadline :: "timeout_server \<Rightarrow> int \<Rightarrow> int" where
  "deadline s fd = (case client_timer (clients s fd) of None \<Rightarrow> 0 | Some a \<Rightarrow> expire_of (timers (s_time_list s)) a)"

lemma timer_for_inj: "timer_for l a fd \<Longrightarrow> timer_for l a fd' \<Longrightarrow> fd = fd'"
  by (auto simp: timer_for_def)

lemma linkedD:
  assumes "linked l c F" and "fd \<in> F"
  obtains a t where "client_timer (c fd) = Some a" "a \<in> set (time_list l)" "timers l a = Some t" "timer_data t = fd"
    "client_sock (c fd) = fd" "0 \<le> fd" "fd < MAX_USERS"
  using assms unfolding linked_def timer_for_def by blast

lemma linked_list_inv: "linked l c F \<Longrightarrow> list_inv l"
  by (simp add: linked_def)

lemma linked_timer_for:
  assumes "linked l c F" and "timer_for l a fd"
  shows "fd \<in> F \<and> client_timer (c fd) = Some a"
proof -
  have "a \<in> set (time_list l)" using assms(2) by (simp add: timer_for_def)
  then obtain g where g: "g \<in> F" "timer_for l a g" "client_timer (c g) = Some a"
    using assms(1) unfolding linked_def by blast
  then show ?thesis using timer_for_inj[OF assms(2) g(2)] by simp
qed

lemma linked_cong:
  assumes "linked l c F" and "\<And>fd. fd \<in> F \<Longrightarrow> client_timer (c' fd) = client_timer (c fd) \<and> client_sock (c' fd) = client_sock (c fd)"
    and "list_inv l'" and "set (time_list l') = set (time_list l)"
    and "\<And>a. a \<in> set (time_list l) \<Longrightarrow> map_option timer_data (timers l' a) = map_option timer_data (timers l a)"
  shows "linked l' c' F"
proof -
  have "timer_for l' a fd = timer_for l a fd" for a fd
    using assms(4) assms(5)[of a] by (auto simp: timer_for_def map_option_case split: option.splits)
  then show ?thesis using assms(1-4) unfolding linked_def by auto
qed

lemma linked_add:
  assumes "linked l c F" and "fd \<notin> F" and "0 \<le> fd" and "fd < MAX_USERS" and "a \<notin> set (time_list l)"
    and "client_timer cl = Some a" and "client_sock cl = fd"
    and "list_inv l'" and "set (time_list l') = insert a (set (time_list l))"
    and "timers l' = (timers l)(a \<mapsto> t)" and "timer_data t = fd"
  shows "linked l' (c(fd := cl)) (insert fd F)"
proof -
  have old: "timer_for l' b g \<longleftrightarrow> timer_for l b g" if "b \<noteq> a" for b g
    using that assms(9,10) by (auto simp: timer_for_def)
  have new: "timer_for l' a fd" using assms(9-11) by (simp add: timer_for_def)
  have own: "\<exists>b. client_timer ((c(fd := cl)) g) = Some b \<and> timer_for l' b g" if g: "g \<in> insert fd F" for g
  proof (cases "g = fd")
    case True
    then show ?thesis using new assms(6) by simp
  next
    case False
    then obtain b where b: "client_timer (c g) = Some b" "timer_for l b g"
      using g assms(1) unfolding linked_def by blast
    then have "b \<noteq> a" using assms(5) by (auto simp: timer_for_def)
    then show ?thesis using b old False by simp
  qed
  have from_list: "\<exists>g \<in> insert fd F. timer_for l' b g \<and> client_timer ((c(fd := cl)) g) = Some b"
    if b: "b \<in> set (time_list l')" for b
  proof (cases "b = a")
    case True
    then show ?thesis using new assms(6) by simp
  next
    case False
    then obtain g where "g \<in> F" "timer_for l b g" "client_timer (c g) = Some b"
      using b assms(1,9) unfolding linked_def by blast
    then show ?thesis using old[OF False] assms(2) by auto
  qed
  have range: "0 \<le> g \<and> g < MAX_USERS \<and> client_sock ((c(fd := cl)) g) = g" if "g \<in> insert fd F" for g
    using that assms(1,3,4,7) unfolding linked_def by auto
  show ?thesis unfolding linked_def using own from_list range assms(8) by blast
qed

lemma linked_remove:
  assumes "linked l c F" and "list_inv l'"
    and "\<And>a fd. timer_for l a fd \<Longrightarrow> a \<in> set (time_list l') \<longleftrightarrow> fd \<in> F'" and "F' \<subseteq> F"
    and "set (time_list l') \<subseteq> set (time_list l)"
    and "\<And>a. a \<in> set (time_list l') \<Longrightarrow> timers l' a = timers l a"
  shows "linked l' c F'"
proof -
  have same: "timer_for l' a fd \<longleftrightarrow> timer_for l a fd" if "a \<in> set (time_list l')" for a fd
    using that assms(5,6) by (auto simp: timer_for_def)
  have own: "\<exists>a. client_timer (c fd) = Some a \<and> timer_for l' a fd" if fd: "fd \<in> F'" for fd
  proof -
    obtain a where a: "client_timer (c fd) = Some a" "timer_for l a fd"
      using fd assms(1,4) unfolding linked_def by blast
    then show ?thesis using same assms(3) fd by blast
  qed
  have from_list: "\<exists>fd \<in> F'. timer_for l' a fd \<and> client_timer (c fd) = Some a" if a: "a \<in> set (time_list l')" for a
  proof -
    obtain fd where "timer_for l a fd" "client_timer (c fd) = Some a"
      using a assms(1,5) unfolding linked_def by blast
    then show ?thesis using same[OF a] assms(3)[of a fd] a by blast
  qed
  show ?thesis unfolding linked_def using own from_list assms(1,2,4) unfolding linked_def by blast
qed

subsection \<open>Every event keeps the invariant\<close>

lemma open_clients_calls [simp]:
  "s_time_list (calls cs s) = s_time_list s" "clients (calls cs s) = clients s"
  "epoll_set (calls cs s) = kernel_calls cs (epoll_set s)"
  by (simp_all add: calls_def)

lemma on_new_client_inv:
  assumes "ts_inv sock sigfd s" and "0 \<le> cfd" and "cfd < MAX_USERS" and "epoll_set s cfd = None"
    and "timers (s_time_list s) a = None"
  shows "\<exists>s'. on_new_client cfd now a s = Inr s' \<and> ts_inv sock sigfd s'
    \<and> open_clients sock sigfd s' = insert cfd (open_clients sock sigfd s) \<and> deadline s' cfd = now + 15
    \<and> (\<forall>fd \<in> open_clients sock sigfd s. deadline s' fd = deadline s fd)"
proof -
  let ?l = "s_time_list s"
  let ?t = "\<lparr>expire = now + 3 * TIMESLOT, timer_data = cfd\<rparr>"
  let ?l1 = "?l\<lparr>timers := (timers ?l)(a \<mapsto> ?t)\<rparr>"
  have ln: "linked ?l (clients s) (open_clients sock sigfd s)" using assms(1) by (simp add: ts_inv_def)
  have a: "a \<notin> set (time_list ?l)" using linked_list_inv[OF ln] assms(5) by (auto simp: list_inv_def)
  have "list_inv ?l1" using linked_list_inv[OF ln] list_upd(1)[OF a] by blast
  then obtain l2 where l2: "add_timer a ?l1 = Inr l2" "list_inv l2" "timers l2 = timers ?l1"
    "list_entries l2 = add_mset (a, expire_of (timers ?l1) a) (list_entries ?l1)"
    using add_timer_ok[of ?l1 a] a by auto
  from arg_cong[OF l2(4), of "\<lambda>M. fst ` set_mset M"]
  have set2: "set (time_list l2) = insert a (set (time_list ?l))" by simp
  let ?c = "(clients s cfd)\<lparr>client_sock := cfd, client_timer := Some a\<rparr>"
  let ?s = "(calls (addfd cfd) s)\<lparr>clients := (clients s)(cfd := ?c), s_time_list := l2\<rparr>"
  have r: "on_new_client cfd now a s = Inr ?s" using assms(2,3) l2(1) by (simp add: on_new_client_def)
  have ne: "cfd \<noteq> sock" "cfd \<noteq> sigfd" using assms(1,4) by (auto simp: ts_inv_def)
  have cl: "open_clients sock sigfd ?s = insert cfd (open_clients sock sigfd s)"
    using ne by (auto simp: open_clients_def addfd_def)
  have out: "cfd \<notin> open_clients sock sigfd s" using assms(4) by (simp add: open_clients_def)
  have "linked l2 ((clients s)(cfd := ?c)) (insert cfd (open_clients sock sigfd s))"
    by (rule linked_add[OF ln out assms(2,3) a _ _ l2(2) set2, where t = ?t]) (simp_all add: l2(3))
  then have "ts_inv sock sigfd ?s" using cl assms(1) ne by (auto simp: ts_inv_def addfd_def)
  moreover have "deadline ?s cfd = now + 15"
    by (simp add: deadline_def l2(3) expire_of_def TIMESLOT_def)
  moreover have "deadline ?s fd = deadline s fd" if fd: "fd \<in> open_clients sock sigfd s" for fd
  proof -
    obtain b where b: "client_timer (clients s fd) = Some b" "b \<in> set (time_list ?l)"
      using linkedD[OF ln fd] by metis
    moreover have "b \<noteq> a" using b(2) a by blast
    ultimately show ?thesis using fd out by (auto simp: deadline_def l2(3) expire_of_def)
  qed
  ultimately show ?thesis using r cl by blast
qed

lemma drop_client_inv:
  assumes "ts_inv sock sigfd s" and "fd \<in> open_clients sock sigfd s"
  shows "ts_inv sock sigfd (drop_client fd s)"
    and "open_clients sock sigfd (drop_client fd s) = open_clients sock sigfd s - {fd}"
    and "deadline (drop_client fd s) = deadline s"
proof -
  let ?l = "s_time_list s"
  have ln: "linked ?l (clients s) (open_clients sock sigfd s)" using assms(1) by (simp add: ts_inv_def)
  obtain a t where a: "client_timer (clients s fd) = Some a" "a \<in> set (time_list ?l)" "timers ?l a = Some t"
    "timer_data t = fd" "client_sock (clients s fd) = fd"
    by (rule linkedD[OF ln assms(2)])
  have d: "drop_client fd s = (calls [Epoll_Del fd, Close fd] s)\<lparr>s_time_list := del_timer a ?l\<rparr>"
    by (simp add: drop_client_def time_callback_def a)
  have ne: "fd \<noteq> sock" "fd \<noteq> sigfd" using assms(2) by (auto simp: open_clients_def)
  show cl: "open_clients sock sigfd (drop_client fd s) = open_clients sock sigfd s - {fd}"
    by (auto simp: d open_clients_def)
  have "linked (del_timer a ?l) (clients s) (open_clients sock sigfd s - {fd})"
  proof (rule linked_remove[OF ln])
    show "list_inv (del_timer a ?l)" by (rule del_timer_inv[OF linked_list_inv[OF ln]])
    fix b g assume b: "timer_for ?l b g"
    have "g \<in> open_clients sock sigfd s \<and> client_timer (clients s g) = Some b"
      by (rule linked_timer_for[OF ln b])
    then show "b \<in> set (time_list (del_timer a ?l)) \<longleftrightarrow> g \<in> open_clients sock sigfd s - {fd}"
      using b a by (auto simp: del_timer_def timer_for_def)
  qed (auto simp: del_timer_def)
  then show "ts_inv sock sigfd (drop_client fd s)" using assms(1) ne cl by (auto simp: ts_inv_def d)
  show "deadline (drop_client fd s) = deadline s"
    by (auto simp: deadline_def d del_timer_def fun_eq_iff split: option.split)
qed

lemma on_data_inv:
  assumes "ts_inv sock sigfd s" and "fd \<in> open_clients sock sigfd s"
  shows "\<exists>s'. on_data fd d now s = Inr s' \<and> ts_inv sock sigfd s' \<and> epoll_set s' = epoll_set s
    \<and> (\<forall>g \<in> open_clients sock sigfd s. deadline s' g = (if g = fd then now + 15 else deadline s g))"
proof -
  let ?l = "s_time_list s"
  have ln: "linked ?l (clients s) (open_clients sock sigfd s)" using assms(1) by (simp add: ts_inv_def)
  obtain a t where a: "client_timer (clients s fd) = Some a" "a \<in> set (time_list ?l)" "timers ?l a = Some t"
    "timer_data t = fd" "client_sock (clients s fd) = fd"
    by (rule linkedD[OF ln assms(2)])
  let ?l1 = "?l\<lparr>timers := (timers ?l)(a \<mapsto> t\<lparr>expire := now + 3 * TIMESLOT\<rparr>)\<rparr>"
  have "distinct (time_list ?l1)" "\<forall>b \<in> set (time_list ?l1). timers ?l1 b \<noteq> None" "a \<in> set (time_list ?l1)"
    using linked_list_inv[OF ln] a(2) by (auto simp: list_inv_def)
  from adjust_timer_ok[OF this] obtain l2 where l2: "adjust_timer a ?l1 = Inr l2" "list_inv l2"
    "timers l2 = timers ?l1" "mset (time_list l2) = mset (time_list ?l1)" by blast
  let ?s = "s\<lparr>clients := (clients s)(fd := (clients s fd)\<lparr>client_buf := d\<rparr>), s_time_list := l2\<rparr>"
  have r: "on_data fd d now s = Inr ?s" using a l2(1) by (simp add: on_data_def deref_timer_def)
  have set2: "set (time_list l2) = set (time_list ?l)" using arg_cong[OF l2(4), of set_mset] by simp
  have data: "map_option timer_data (timers l2 b) = map_option timer_data (timers ?l b)" for b
    using a(3) by (simp add: l2(3))
  have "linked l2 ((clients s)(fd := (clients s fd)\<lparr>client_buf := d\<rparr>)) (open_clients sock sigfd s)"
    by (rule linked_cong[OF ln _ l2(2) set2 data]) simp
  then have "ts_inv sock sigfd ?s" using assms(1) by (simp add: ts_inv_def open_clients_def)
  moreover have "deadline ?s g = (if g = fd then now + 15 else deadline s g)" if g: "g \<in> open_clients sock sigfd s" for g
  proof (cases "g = fd")
    case True
    then show ?thesis using a by (simp add: deadline_def l2(3) expire_of_def TIMESLOT_def)
  next
    case False
    obtain b t' where b: "client_timer (clients s g) = Some b" "timers ?l b = Some t'" "timer_data t' = g"
      by (rule linkedD[OF ln g])
    then have "b \<noteq> a" using a(3,4) False by auto
    then show ?thesis using b(1) False by (simp add: deadline_def l2(3) expire_of_def)
  qed
  ultimately show ?thesis using r by auto
qed

lemma on_signals_frame:
  "s_time_list (on_signals cs s) = s_time_list s" "clients (on_signals cs s) = clients s"
  "epoll_set (on_signals cs s) = epoll_set s" "alarm_at (on_signals cs s) = alarm_at s"
  by (induction cs arbitrary: s) auto

lemma on_signals_inv:
  "ts_inv sock sigfd (on_signals cs s) = ts_inv sock sigfd s"
  "open_clients sock sigfd (on_signals cs s) = open_clients sock sigfd s" "deadline (on_signals cs s) = deadline s"
  by (auto simp: ts_inv_def open_clients_def deadline_def on_signals_frame fun_eq_iff split: option.split)

text \<open>The signals that were read set the flags: SIGALRM runs the timers, SIGTERM stops the server.\<close>

lemma on_signals_flags:
  "ts_timeout (on_signals cs s) \<longleftrightarrow> ts_timeout s \<or> char_of SIGALRM \<in> set cs"
  "ts_stop (on_signals cs s) \<longleftrightarrow> ts_stop s \<or> char_of SIGTERM \<in> set cs"
  by (induction cs arbitrary: s) (auto simp: SIGALRM_def SIGTERM_def)

definition closes :: "recv_ret \<Rightarrow> bool" where
  "closes r \<longleftrightarrow> (case r of Closed \<Rightarrow> True | Failed e \<Rightarrow> e \<noteq> EAGAIN | Bytes d \<Rightarrow> False)"

definition brings_data :: "recv_ret \<Rightarrow> bool" where
  "brings_data r \<longleftrightarrow> (case r of Bytes d \<Rightarrow> True | _ \<Rightarrow> False)"

text \<open>
  C11. One event of the server, as long as it belongs to a descriptor that is open and \<open>accept\<close>
  returns a new one: no freed timer is touched, every open connection keeps exactly one timer in
  the list, the connection is closed when its peer has closed it or failed, and data gives its
  connection 15 seconds from now and leaves the deadlines of the others alone.
\<close>

theorem timeout_event_keeps_timers:
  assumes "ts_inv sock sigfd s" and "epoll_set s fd \<noteq> None"
    and "fd = sock \<longrightarrow> 0 \<le> r_accept r \<and> r_accept r < MAX_USERS \<and> epoll_set s (r_accept r) = None
           \<and> timers (s_time_list s) (r_new r) = None"
  shows "\<exists>s' ret'. ts_event sock sigfd fd ev r ret s = Inr (s', ret') \<and> ts_inv sock sigfd s'
    \<and> open_clients sock sigfd s' =
        (if fd = sock then insert (r_accept r) (open_clients sock sigfd s)
         else if fd \<noteq> sigfd \<and> ev AND EPOLLIN \<noteq> 0 \<and> closes (r_recv r) then open_clients sock sigfd s - {fd}
         else open_clients sock sigfd s)
    \<and> (\<forall>g \<in> open_clients sock sigfd s'. deadline s' g =
        (if fd = sock \<and> g = r_accept r \<or> fd \<noteq> sock \<and> g = fd \<and> ev AND EPOLLIN \<noteq> 0 \<and> brings_data (r_recv r)
         then r_now r + 15 else deadline s g))"
proof -
  consider (c1) "fd = sock" | (c2) "fd \<noteq> sock" "ev AND EPOLLIN = 0"
    | (c3) "fd \<noteq> sock" "fd = sigfd" "ev AND EPOLLIN \<noteq> 0"
    | (c4) "fd \<noteq> sock" "fd \<noteq> sigfd" "ev AND EPOLLIN \<noteq> 0" by blast
  then show ?thesis
  proof cases
    case c1
    then have r: "0 \<le> r_accept r" "r_accept r < MAX_USERS" "epoll_set s (r_accept r) = None"
      "timers (s_time_list s) (r_new r) = None" using assms(3) by auto
    show ?thesis using on_new_client_inv[OF assms(1) r, of "r_now r"] c1 r(3)
      by (auto simp: ts_event_def open_clients_def)
  next
    case c2
    then show ?thesis using assms(1) by (simp add: ts_event_def)
  next
    case c3
    have "sigfd \<notin> open_clients sock sigfd s" by (simp add: open_clients_def)
    then show ?thesis using assms(1) c3
      by (auto simp: ts_event_def on_signals_inv split: recv_ret.split)
  next
    case c4
    then have fd: "fd \<in> open_clients sock sigfd s" using assms(2) by (simp add: open_clients_def)
    have "linked (s_time_list s) (clients s) (open_clients sock sigfd s)" using assms(1) by (simp add: ts_inv_def)
    then have range: "0 \<le> fd" "fd < MAX_USERS" using linkedD[OF _ fd] by blast+
    show ?thesis
    proof (cases "r_recv r")
      case (Bytes d)
      obtain s' where s': "on_data fd d (r_now r) s = Inr s'" "ts_inv sock sigfd s'" "epoll_set s' = epoll_set s"
        "\<forall>g \<in> open_clients sock sigfd s. deadline s' g = (if g = fd then r_now r + 15 else deadline s g)"
        using on_data_inv[OF assms(1) fd] by blast
      then have "open_clients sock sigfd s' = open_clients sock sigfd s" by (simp add: open_clients_def)
      then show ?thesis using s' c4 range Bytes
        by (auto simp: ts_event_def closes_def brings_data_def recv_value_def)
    next
      case Closed
      then show ?thesis using drop_client_inv[OF assms(1) fd] c4 range
        by (auto simp: ts_event_def closes_def brings_data_def recv_value_def)
    next
      case (Failed e)
      then show ?thesis using drop_client_inv[OF assms(1) fd] assms(1) c4 range
        by (auto simp: ts_event_def closes_def brings_data_def recv_value_def)
    qed
  qed
qed

subsection \<open>The timers\<close>

lemma run_callbacks_frame:
  "s_time_list (run_callbacks fs s) = s_time_list s" "clients (run_callbacks fs s) = clients s"
  by (induction fs s rule: run_callbacks.induct) (auto simp: time_callback_def)

lemma run_callbacks_flags: "ts_stop (run_callbacks fs s) = ts_stop s" "ts_timeout (run_callbacks fs s) = ts_timeout s"
  by (induction fs s rule: run_callbacks.induct) (auto simp: time_callback_def calls_def)

lemma run_callbacks_epoll:
  assumes "\<forall>fd \<in> snd ` set fs. client_sock (clients s fd) = fd"
  shows "epoll_set (run_callbacks fs s) fd = (if fd \<in> snd ` set fs then None else epoll_set s fd)"
  using assms
proof (induction fs s rule: run_callbacks.induct)
  case (1 s)
  then show ?case by simp
next
  case (2 a cfd fs s)
  then have "epoll_set (run_callbacks fs (time_callback (clients s cfd) s)) fd
    = (if fd \<in> snd ` set fs then None else epoll_set (time_callback (clients s cfd) s) fd)"
    by (simp add: time_callback_def)
  then show ?case using 2(2) by (auto simp: time_callback_def)
qed

lemma timer_handler_spec:
  assumes "ts_inv sock sigfd s"
  shows "\<exists>s'. timer_handler now s = Inr s' \<and> ts_inv sock sigfd s' \<and> alarm_at s' = now + 5
    \<and> open_clients sock sigfd s' = {fd \<in> open_clients sock sigfd s. now < deadline s fd}
    \<and> (\<forall>fd \<in> open_clients sock sigfd s'. deadline s' fd = deadline s fd)"
proof -
  let ?l = "s_time_list s" and ?F = "open_clients sock sigfd s"
  have ln: "linked ?l (clients s) ?F" using assms by (simp add: ts_inv_def)
  define l where "l = \<lparr>timers = (\<lambda>a. if a \<in> set (time_list ?l) \<and> expire_of (timers ?l) a \<le> now then None else timers ?l a),
    time_list = filter (\<lambda>a. now < expire_of (timers ?l) a) (time_list ?l)\<rparr>"
  define fired where "fired = map (\<lambda>a. (a, timer_data (the (timers ?l a))))
    (filter (\<lambda>a. expire_of (timers ?l) a \<le> now) (time_list ?l))"
  have t: "list_tick now ?l = Inr (l, fired)"
    unfolding l_def fired_def by (rule list_tick_spec[OF linked_list_inv[OF ln]])
  have l: "timers l a = (if a \<in> set (time_list ?l) \<and> expire_of (timers ?l) a \<le> now then None else timers ?l a)"
    "time_list l = filter (\<lambda>a. now < expire_of (timers ?l) a) (time_list ?l)" for a
    by (simp_all add: l_def)
  note f = fired_def
  have fired: "snd ` set fired = {fd \<in> ?F. deadline s fd \<le> now}"
  proof (intro set_eqI iffI)
    fix fd assume "fd \<in> snd ` set fired"
    then obtain a where a: "a \<in> set (time_list ?l)" "expire_of (timers ?l) a \<le> now" "fd = timer_data (the (timers ?l a))"
      unfolding f by auto
    then have "timer_for ?l a fd" using linked_list_inv[OF ln] by (auto simp: timer_for_def list_inv_def)
    then show "fd \<in> {fd \<in> ?F. deadline s fd \<le> now}" using linked_timer_for[OF ln] a(2) by (auto simp: deadline_def)
  next
    fix fd assume fd: "fd \<in> {fd \<in> ?F. deadline s fd \<le> now}"
    then obtain a t where "client_timer (clients s fd) = Some a" "a \<in> set (time_list ?l)" "timers ?l a = Some t" "timer_data t = fd"
      using linkedD[OF ln] by blast
    then show "fd \<in> snd ` set fired" unfolding f using fd by (force simp: deadline_def)
  qed
  let ?s = "(run_callbacks fired s)\<lparr>s_time_list := l, alarm_at := now + TIMESLOT\<rparr>"
  have sock: "\<forall>fd \<in> snd ` set fired. client_sock (clients s fd) = fd"
    unfolding fired using linkedD[OF ln] by blast
  have ep: "epoll_set ?s fd = (if fd \<in> ?F \<and> deadline s fd \<le> now then None else epoll_set s fd)" for fd
    using run_callbacks_epoll[OF sock, of fd] unfolding fired by auto
  have cl: "open_clients sock sigfd ?s = {fd \<in> ?F. now < deadline s fd}"
    unfolding open_clients_def ep by (auto simp: open_clients_def)
  have dl: "deadline ?s fd = deadline s fd" if "fd \<in> {fd \<in> ?F. now < deadline s fd}" for fd
    using that by (auto simp: deadline_def run_callbacks_frame l(1) expire_of_def split: option.splits if_splits)
  have "linked l (clients s) {fd \<in> ?F. now < deadline s fd}"
  proof (rule linked_remove[OF ln])
    show "list_inv l" using list_tick_inv[OF linked_list_inv[OF ln] t] by simp
    fix a fd assume a: "timer_for ?l a fd"
    then have "fd \<in> ?F" "client_timer (clients s fd) = Some a" using linked_timer_for[OF ln] by blast+
    then show "a \<in> set (time_list l) \<longleftrightarrow> fd \<in> {fd \<in> ?F. now < deadline s fd}"
      using a unfolding l(2) by (auto simp: deadline_def timer_for_def)
  qed (auto simp: l)
  moreover have "epoll_set ?s sock \<noteq> None" "epoll_set ?s sigfd \<noteq> None"
    unfolding ep using assms by (simp_all add: ts_inv_def open_clients_def)
  ultimately have "ts_inv sock sigfd ?s" unfolding ts_inv_def cl by (simp add: run_callbacks_frame)
  moreover have "timer_handler now s = Inr ?s" by (simp add: timer_handler_def t)
  ultimately show ?thesis using cl dl by (auto simp: TIMESLOT_def)
qed

text \<open>
  C12. The timer handler closes exactly the connections whose deadline has come, keeps the deadlines
  of the others and the invariant, and sets the next alarm: after it no open connection is overdue.
\<close>

theorem timer_handler_closes_idle:
  assumes "ts_inv sock sigfd s"
  shows "\<exists>s'. timer_handler now s = Inr s' \<and> ts_inv sock sigfd s' \<and> alarm_at s' = now + 5
    \<and> open_clients sock sigfd s' = {fd \<in> open_clients sock sigfd s. now < deadline s fd}
    \<and> (\<forall>fd \<in> open_clients sock sigfd s'. deadline s' fd = deadline s fd)"
  by (rule timer_handler_spec[OF assms])

subsection \<open>The loop bound\<close>

lemma ts_loop_done: "ret \<le> int i \<Longrightarrow> ts_loop sock sigfd rs i ret s = Inr s"
  by (subst ts_loop.simps) simp

text \<open>
  Reading from a connection or the pipe replaces the number of events. Whatever number \<open>ret\<close> of
  events \<open>epoll_wait\<close> reported, after an event at index \<open>i\<close> that read at most \<open>i + 1\<close> bytes the
  remaining events are dropped, although they are edge-triggered and not reported again; after one
  that read more the loop goes on to the next entry of the array, even one that was never written.
\<close>

theorem ts_loop_bound_lost:
  assumes "int i < ret" and "i < MAX_EVENTS" and "events s i = Some (fd, ev)" and "fd \<noteq> sock"
    and "ev AND EPOLLIN \<noteq> 0" and "ts_event sock sigfd fd ev (rs i) ret s = Inr (s', ret')"
  shows "ret' = recv_value (r_recv (rs i))
    \<and> (ret' \<le> int i + 1 \<longrightarrow> ts_loop sock sigfd rs i ret s = Inr s')
    \<and> (int i + 1 < ret' \<longrightarrow> events s' (Suc i) = None \<longrightarrow>
         ts_loop sock sigfd rs i ret s = Inl (Bad_Load (int (Suc i))))"
proof -
  have r: "ret' = recv_value (r_recv (rs i))"
    using assms(4-6) by (auto simp: ts_event_def elim!: bindR_InrE split: if_splits)
  have "ts_loop sock sigfd rs i ret s = ts_loop sock sigfd rs (Suc i) ret' s'"
    using assms by (subst ts_loop.simps) simp
  moreover have "ts_loop sock sigfd rs (Suc i) ret' s' = Inl (Bad_Load (int (Suc i)))"
    if "int i + 1 < ret'" "events s' (Suc i) = None"
    using that by (subst ts_loop.simps) auto
  ultimately show ?thesis using r ts_loop_done[of ret' "Suc i"] by simp
qed

definition ts_demo :: timeout_server where
  "ts_demo = \<lparr>s_time_list = list_empty, clients = (\<lambda>_. \<lparr>client_sock = 0, client_buf = [], client_timer = None\<rparr>),
     epoll_set = [3 \<mapsto> EPOLLIN OR EPOLLET, 5 \<mapsto> EPOLLIN OR EPOLLET],
     events = (\<lambda>i. if i = 0 then Some (5, EPOLLIN) else if i = 1 then Some (3, EPOLLIN) else None),
     ts_stop = False, ts_timeout = False, alarm_at = 5\<rparr>"

text \<open>The alarm arrives together with a connection: the connection is not accepted.\<close>

theorem ts_loop_bound_lost_witness:
  "ts_loop 3 5 (\<lambda>i. \<lparr>r_accept = 7, r_recv = Bytes [char_of SIGALRM], r_now = 100, r_new = 1\<rparr>) 0 2 ts_demo
     = Inr (ts_demo\<lparr>ts_timeout := True\<rparr>)"
  using ts_loop_bound_lost[of 0 2 ts_demo 5 EPOLLIN 3 5
      "\<lambda>i. \<lparr>r_accept = 7, r_recv = Bytes [char_of SIGALRM], r_now = 100, r_new = 1\<rparr>"
      "ts_demo\<lparr>ts_timeout := True\<rparr>" 1]
  by (simp add: ts_demo_def MAX_EVENTS_def EPOLLIN_def ts_event_def recv_value_def)

theorem timeout_event_keeps_timers_witness:
  "\<exists>s'. ts_event 3 5 3 EPOLLIN \<lparr>r_accept = 7, r_recv = Closed, r_now = 100, r_new = 1\<rparr> 1 ts_demo = Inr s'
     \<and> ts_inv 3 5 (fst s') \<and> deadline (fst s') 7 = 115"
proof -
  have "ts_inv 3 5 ts_demo"
    by (auto simp: ts_inv_def linked_def ts_demo_def open_clients_def list_empty_def list_inv_def split: if_splits)
  moreover have "epoll_set ts_demo 3 \<noteq> None" "epoll_set ts_demo 7 = None" "timers (s_time_list ts_demo) 1 = None"
    by (simp_all add: ts_demo_def list_empty_def)
  ultimately show ?thesis
    using timeout_event_keeps_timers[of 3 5 ts_demo 3
        "\<lparr>r_accept = 7, r_recv = Closed, r_now = 100, r_new = 1\<rparr>" EPOLLIN 1]
    by (auto simp: MAX_USERS_def)
qed

theorem timer_handler_closes_idle_witness:
  "\<exists>s'. timer_handler 20 ts_demo = Inr s' \<and> open_clients 3 5 s' = {} \<and> alarm_at s' = 25"
proof -
  have "ts_inv 3 5 ts_demo"
    by (auto simp: ts_inv_def linked_def ts_demo_def open_clients_def list_empty_def list_inv_def split: if_splits)
  moreover have "open_clients 3 5 ts_demo = {}" by (auto simp: ts_demo_def open_clients_def split: if_splits)
  ultimately show ?thesis using timer_handler_closes_idle[of 3 5 ts_demo 20] by auto
qed

subsection \<open>The whole server\<close>

text \<open>
  The set-up registers the listening socket and the reading end of the pipe and sets the first
  alarm; when the loop is left, the sockets are closed and the list of users is gone.
\<close>

definition ts_start :: "int \<Rightarrow> int \<Rightarrow> int \<Rightarrow> int \<Rightarrow> (int \<Rightarrow> timeout_client) \<Rightarrow> timeout_server" where
  "ts_start sock p0 p1 now users =
     calls (addfd sock @ [Set_Nonblock p1] @ addfd p0)
       \<lparr>s_time_list = list_empty, clients = users, epoll_set = Map.empty, events = (\<lambda>_. None),
        ts_stop = False, ts_timeout = False, alarm_at = now + TIMESLOT\<rparr>"

fun ts_serve ::
  "int \<Rightarrow> int \<Rightarrow> int \<Rightarrow> ((errno + (int \<times> 32 word) list) \<times> (nat \<Rightarrow> event_reply) \<times> int) list \<Rightarrow> timeout_server
     \<Rightarrow> (timeout_server \<times> bool) result"
where
  "ts_serve sock p0 p1 [] s = Inr (s, True)"
| "ts_serve sock p0 p1 ((w, rs, now) # ts) s =
     bindR (ts_turn sock p0 w rs now s) (\<lambda>(s', run).
       if run then ts_serve sock p0 p1 ts s' else Inr (calls [Close sock, Close p1, Close p0] s', False))"

lemma ts_start_inv:
  assumes "sock \<noteq> p0"
  shows "ts_inv sock p0 (ts_start sock p0 p1 now users)" "open_clients sock p0 (ts_start sock p0 p1 now users) = {}"
  using assms
  by (auto simp: ts_start_def ts_inv_def linked_def open_clients_def list_empty_def list_inv_def addfd_def calls_def
      split: if_splits)

text \<open>A turn that only accepts, or in which no event came, runs the timers when the alarm did.\<close>

lemma ts_turn_alarm:
  assumes "ts_inv sock sigfd s" and "ts_timeout s"
  shows "\<exists>s'. ts_turn sock sigfd (Inl EINTR) rs now s = Inr (s', \<not> ts_stop s') \<and> ts_inv sock sigfd s' \<and> \<not> ts_timeout s'
    \<and> open_clients sock sigfd s' = {fd \<in> open_clients sock sigfd s. now < deadline s fd}"
proof -
  obtain s1 where s1: "timer_handler now s = Inr s1" "ts_inv sock sigfd s1"
    "open_clients sock sigfd s1 = {fd \<in> open_clients sock sigfd s. now < deadline s fd}"
    using timer_handler_spec[OF assms(1), of now] by blast
  have "ts_stop s1 = ts_stop s"
    using s1(1) by (auto simp: timer_handler_def run_callbacks_flags elim!: bindR_InrE)
  then show ?thesis using s1 assms(2) by (auto simp: ts_turn_def ts_inv_def open_clients_def)
qed

end
