(* ===== verification/Timeout_Io.thy ===== *)
theory Timeout_Io
  imports Posix
begin

text \<open>
  \<open>io_timeout_handler\<close> of 81\_timer/main.cpp: the remaining time that is passed to \<open>epoll_wait\<close>.
\<close>

subsection \<open>The remaining time of \<open>epoll_wait\<close>\<close>

definition IO_TIMEOUT :: int where
  "IO_TIMEOUT = 5000"

text \<open>
  The assignment to the \<open>int\<close> keeps the low 32 bits of the 64-bit difference. One turn of the loop: \<open>w\<close> is an error of \<open>epoll_wait\<close> or the number of events; the result is the
  next timeout, or \<open>None\<close> when the loop is left.
\<close>

definition io_turn :: "int \<Rightarrow> int \<Rightarrow> int \<Rightarrow> errno + nat \<Rightarrow> int option" where
  "io_turn timeout start ende w =
     (case w of
        Inl e \<Rightarrow> if e \<noteq> EINTR then None
                 else (let t = to_int32 (timeout - (ende - start) * 1000) in Some (if t \<le> 0 then IO_TIMEOUT else t))
      | Inr n \<Rightarrow> if n = 0 then Some IO_TIMEOUT
                 else (let t = to_int32 (timeout - (ende - start) * 1000) in Some (if t \<le> 0 then IO_TIMEOUT else t)))"

fun io_timeout_handler :: "int \<Rightarrow> (int \<times> int \<times> (errno + nat)) list \<Rightarrow> int option" where
  "io_timeout_handler timeout [] = Some timeout"
| "io_timeout_handler timeout ((start, ende, w) # ts) =
     (case io_turn timeout start ende w of None \<Rightarrow> None | Some t \<Rightarrow> io_timeout_handler t ts)"

lemma io_turn_event:
  assumes "0 < timeout" and "timeout \<le> IO_TIMEOUT" and "start \<le> ende" and "ende - start \<le> 2147483" and "n \<noteq> 0"
  shows "io_turn timeout start ende (Inr n) =
    Some (if (ende - start) * 1000 < timeout then timeout - (ende - start) * 1000 else IO_TIMEOUT)"
proof -
  have "to_int32 (timeout - (ende - start) * 1000) = timeout - (ende - start) * 1000"
    using assms by (intro to_int32_id) (auto simp: IO_TIMEOUT_def)
  then show ?thesis using assms by (simp add: io_turn_def Let_def)
qed

text \<open>
  As long as the clock does not go back, a timeout that starts in the range of 1 to 5000
  milliseconds stays in it, whatever events, interruptions and time-outs occur.
\<close>

theorem io_timeout_range:
  assumes "0 < timeout" and "timeout \<le> IO_TIMEOUT"
    and "\<forall>(start, ende, w) \<in> set ts. start \<le> ende \<and> ende - start \<le> 2147483"
    and "io_timeout_handler timeout ts = Some t"
  shows "0 < t \<and> t \<le> IO_TIMEOUT"
  using assms
proof (induction ts arbitrary: timeout)
  case Nil
  then show ?case by simp
next
  case (Cons x ts)
  obtain start ende w where x: "x = (start, ende, w)" by (cases x)
  have d: "start \<le> ende" "ende - start \<le> 2147483" using Cons.prems(3) x by auto
  have e: "to_int32 (timeout - (ende - start) * 1000) = timeout - (ende - start) * 1000"
    using Cons.prems(1,2) d by (intro to_int32_id) (auto simp: IO_TIMEOUT_def)
  obtain t' where t': "io_turn timeout start ende w = Some t'" "io_timeout_handler t' ts = Some t"
    using Cons.prems(4) x by (auto split: option.splits)
  have "0 < t' \<and> t' \<le> IO_TIMEOUT"
    using t'(1) e Cons.prems(1,2) d
    by (auto simp: io_turn_def Let_def IO_TIMEOUT_def split: sum.splits if_splits)
  then show ?case using Cons.IH[of t'] Cons.prems(3) t'(2) by auto
qed

theorem io_timeout_range_witness:
  "\<exists>t. io_timeout_handler 5000 [(10, 12, Inr 3), (12, 14, Inl EINTR), (14, 16, Inr 1)] = Some t \<and> t \<le> IO_TIMEOUT"
proof -
  have "io_timeout_handler 5000 [(10, 12, Inr 3), (12, 14, Inl EINTR), (14, 16, Inr 1)] = Some 5000"
    by (simp add: io_turn_def to_int32_id IO_TIMEOUT_def Let_def)
  with io_timeout_range[OF _ _ _ this] show ?thesis by (auto simp: IO_TIMEOUT_def)
qed

text \<open>A clock that is set back makes the next wait longer than the period.\<close>

lemma io_turn_clock_back: "io_turn 5000 100 90 (Inr 1) = Some 15000"
  by (simp add: io_turn_def to_int32_id)

end
