(* ===== verification/C_Io.thy ===== *)
theory C_Io
  imports Posix "HOL-Library.Sublist"
begin

text \<open>
  More of the C library, for the small servers and clients: searching and joining C strings,
  reading a line of the standard input, and sockets that block. A blocking call on a script that is
  used up does not return.
\<close>

subsection \<open>Strings\<close>

text \<open>\<open>strstr\<close>: the first place where the pattern begins.\<close>

fun find_sub :: "string \<Rightarrow> string \<Rightarrow> nat option" where
  "find_sub p [] = (if p = [] then Some 0 else None)"
| "find_sub p (c # cs) = (if prefix p (c # cs) then Some 0 else map_option Suc (find_sub p cs))"

definition strstr :: "char list \<Rightarrow> nat \<Rightarrow> string \<Rightarrow> nat option result" where
  "strstr b i p = bindR (cstr b i) (\<lambda>s. Inr (map_option ((+) i) (find_sub p s)))"

text \<open>\<open>strncmp p lit n == 0\<close> with \<open>n\<close> the length of the literal, and \<open>strcat\<close>.\<close>

definition strneq :: "char list \<Rightarrow> nat \<Rightarrow> string \<Rightarrow> bool result" where
  "strneq b i lit = bindR (cstr b i) (\<lambda>s. Inr (take (length lit) s = lit))"

definition strcat :: "char list \<Rightarrow> string \<Rightarrow> char list result" where
  "strcat b s = bindR (cstr b 0) (\<lambda>t. blit b (length t) (s @ [NUL]))"

text \<open>The assignment \<open>buf[strlen(buf) - 1] = 0\<close>, which the clients use to drop the line feed.\<close>

definition chop_newline :: "char list \<Rightarrow> char list result" where
  "chop_newline b = bindR (cstr b 0) (\<lambda>s. store b (int (length s) - 1) NUL)"

text \<open>
  \<open>fgets(b, n, stdin)\<close> takes at most \<open>n - 1\<close> characters, up to and with the first line feed; at the
  end of the input it leaves the array alone.
\<close>

definition line_length :: "string \<Rightarrow> nat" where
  "line_length inp = (let k = length (takeWhile (\<lambda>c. c \<noteq> LF) inp) in if k < length inp then Suc k else k)"

definition fgets :: "char list \<Rightarrow> nat \<Rightarrow> string \<Rightarrow> (char list \<times> string) result" where
  "fgets b n inp =
     (if inp = [] then Inr (b, [])
      else let k = min (n - 1) (line_length inp)
           in bindR (blit b 0 (take k inp @ [NUL])) (\<lambda>b'. Inr (b', drop k inp)))"

lemma find_sub_prefix: "prefix p s \<Longrightarrow> find_sub p s = Some 0"
  by (cases s) auto

lemma find_sub_self [simp]: "find_sub p (p @ t) = Some 0"
  by (simp add: find_sub_prefix)

lemma find_sub_Some: "find_sub p s = Some k \<Longrightarrow> k + length p \<le> length s \<and> take (length p) (drop k s) = p"
proof (induction p s arbitrary: k rule: find_sub.induct)
  case (1 p)
  then show ?case by (auto split: if_splits)
next
  case (2 p c cs)
  show ?case
  proof (cases "prefix p (c # cs)")
    case True
    then obtain zs where "c # cs = p @ zs" by (auto simp: prefix_def)
    moreover have "k = 0" using 2(2) True by simp
    ultimately show ?thesis using arg_cong[of "c # cs" "p @ zs" length] by simp
  next
    case False
    then obtain j where "find_sub p cs = Some j" "k = Suc j" using 2(2) by auto
    then show ?thesis using 2(1)[OF False] by auto
  qed
qed

lemma find_sub_prefix_of:
  assumes "find_sub p s = Some k"
  shows "find_sub p (s @ t) = Some k"
  using assms
proof (induction p s arbitrary: k rule: find_sub.induct)
  case (1 p)
  then show ?case by (simp add: find_sub_prefix split: if_splits)
next
  case (2 p c cs)
  show ?case
  proof (cases "prefix p (c # cs)")
    case True
    then have "prefix p ((c # cs) @ t)" by (rule prefix_prefix)
    then show ?thesis using True 2(2) by (simp add: find_sub_prefix)
  next
    case False
    then obtain j where j: "find_sub p cs = Some j" "k = Suc j" using 2(2) by auto
    have "k + length p \<le> length (c # cs)" using find_sub_Some[OF 2(2)] by simp
    then have "\<not> prefix p ((c # cs) @ t)"
      using False prefix_length_prefix[of p "(c # cs) @ t" "c # cs"] by auto
    then show ?thesis using 2(1)[OF False j(1)] j(2) by simp
  qed
qed

lemma find_sub_append: "find_sub p s = None \<Longrightarrow> \<exists>k \<le> length s. find_sub p (s @ p @ t) = Some k"
proof (induction s)
  case Nil
  then show ?case by simp
next
  case (Cons c s)
  then have "find_sub p s = None" by (auto split: if_splits)
  then obtain k where "k \<le> length s" "find_sub p (s @ p @ t) = Some k" using Cons.IH by blast
  then show ?case by auto
qed

subsection \<open>Lines\<close>

lemma line_length_line: "LF \<notin> set l \<Longrightarrow> line_length (l @ LF # rest) = Suc (length l)"
  by (simp add: line_length_def takeWhile_append)

lemma cstr_blit:
  assumes "blit b i (s @ [NUL]) = Inr b'" and "NUL \<notin> set s"
  shows "cstr b' i = Inr s"
proof -
  have "b' = take i b @ (s @ [NUL]) @ drop (i + length (s @ [NUL])) b" "i \<le> length b"
    using assms(1) by (auto simp: blit_def split: if_splits)
  then have "drop i b' = s @ NUL # drop (i + length (s @ [NUL])) b" by simp
  then show ?thesis using assms(2) by (auto simp: cstr_iff)
qed

text \<open>A line that fits is read whole, and dropping its line feed leaves the line.\<close>

lemma fgets_line:
  assumes "LF \<notin> set l" and "NUL \<notin> set l" and "length l + 2 \<le> n" and "n \<le> length b"
  shows "\<exists>b'. fgets b n (l @ LF # rest) = Inr (b', rest) \<and> length b' = length b \<and> cstr b' 0 = Inr (l @ [LF])"
proof -
  have k: "min (n - 1) (line_length (l @ LF # rest)) = Suc (length l)"
    using assms(1,3) by (simp add: line_length_line)
  have "blit b 0 ((l @ [LF]) @ [NUL]) = Inr ((l @ [LF]) @ [NUL] @ drop (length l + 2) b)"
    using assms(3,4) by (simp add: blit_ok)
  moreover from cstr_blit[OF this] have "cstr ((l @ [LF]) @ [NUL] @ drop (length l + 2) b) 0 = Inr (l @ [LF])"
    using assms(2) by simp
  ultimately show ?thesis using assms(3,4) by (simp only: fgets_def k Let_def) simp
qed

lemma chop_newline_line:
  assumes "cstr b 0 = Inr (l @ [LF])"
  shows "\<exists>b'. chop_newline b = Inr b' \<and> length b' = length b \<and> cstr b' 0 = Inr l"
proof -
  have "length l + 1 < length b" using cstr_bound[OF assms] by simp
  moreover have "cstr (b[length l := NUL]) 0 = Inr l" using cstr_cut[OF assms, of "length l"] by simp
  ultimately show ?thesis using assms by (simp add: chop_newline_def)
qed

lemma strcat_ok:
  assumes "cstr b 0 = Inr t" and "NUL \<notin> set s" and "length t + length s < length b"
  shows "\<exists>b'. strcat b s = Inr b' \<and> length b' = length b \<and> cstr b' 0 = Inr (t @ s)"
proof -
  obtain r where r: "b = t @ NUL # r" "NUL \<notin> set t" using assms(1) by (auto simp: cstr_iff)
  have "blit b (length t) (s @ [NUL]) = Inr (take (length t) b @ (s @ [NUL]) @ drop (length t + length (s @ [NUL])) b)"
    using assms(3) by (simp add: blit_ok)
  moreover have "cstr (take (length t) b @ (s @ [NUL]) @ drop (length t + length (s @ [NUL])) b) 0 = Inr (t @ s)"
    using r assms(2) by (auto simp: cstr_iff)
  ultimately show ?thesis using assms(1,3) by (simp add: strcat_def)
qed

text \<open>The store that ends what was received: after it the array holds the received text.\<close>

lemma recv_terminate:
  assumes "length d < length b" and "NUL \<notin> set d"
  shows "\<exists>b1 b2. blit b 0 d = Inr b1 \<and> store b1 (int (length d)) NUL = Inr b2 \<and> length b2 = length b
    \<and> cstr b2 0 = Inr d"
proof -
  have "(d @ drop (length d) b)[length d := NUL] = d @ NUL # drop (Suc (length d)) b"
    using assms(1) by (simp add: list_update_append upd_conv_take_nth_drop)
  then show ?thesis using assms by (auto simp: blit_ok cstr_iff)
qed

subsection \<open>Blocking sockets\<close>

datatype brecv_ret = Got string | Shut | Fails errno | Blocks

fun brecv :: "nat \<Rightarrow> recv_event list \<Rightarrow> brecv_ret \<times> recv_event list" where
  "brecv n [] = (Blocks, [])"
| "brecv n (Eof # es) = (Shut, Eof # es)"
| "brecv n (Err e # es) = (Fails e, es)"
| "brecv n (Data d # es) =
     (if d = [] then brecv n es
      else if n = 0 then (Got [], Data d # es)
      else if length d \<le> n then (Got d, es)
      else (Got (take n d), Data (drop n d) # es))"

lemma brecv_Got: "brecv n es = (Got d, es') \<Longrightarrow> 0 < n \<Longrightarrow> d \<noteq> [] \<and> length d \<le> n \<and> script_size es' < script_size es"
  by (induction n es rule: brecv.induct) (auto split: if_splits)

lemma brecv_Got_size: "brecv n es = (Got d, es') \<Longrightarrow> d \<noteq> [] \<Longrightarrow> script_size es' < script_size es"
  by (induction n es rule: brecv.induct) (auto split: if_splits)

lemma brecv_Fails: "brecv n es = (Fails e, es') \<Longrightarrow> script_size es' < script_size es"
  by (induction n es rule: brecv.induct) (auto split: if_splits)

lemma brecv_Shut: "brecv n es = (Shut, es') \<Longrightarrow> brecv n es' = (Shut, es') \<and> (\<exists>es''. es' = Eof # es'')"
  by (induction n es rule: brecv.induct) (auto split: if_splits)

lemma brecv_map_Data:
  assumes "0 < n"
  shows "concat ds = [] \<and> brecv n (map Data ds) = (Blocks, [])
    \<or> (\<exists>d ds'. brecv n (map Data ds) = (Got d, map Data ds') \<and> d \<noteq> [] \<and> concat ds = d @ concat ds')"
proof (induction ds)
  case Nil
  then show ?case by simp
next
  case (Cons d ds)
  consider (c1) "d = []" | (c2) "d \<noteq> []" "length d \<le> n" | (c3) "d \<noteq> []" "\<not> length d \<le> n" by blast
  then show ?case
  proof cases
    case c1
    then show ?thesis using Cons by auto
  next
    case c2
    then show ?thesis using assms by (intro disjI2 exI[of _ d] exI[of _ ds]) simp
  next
    case c3
    then show ?thesis using assms by (intro disjI2 exI[of _ "take n d"] exI[of _ "drop n d # ds"]) auto
  qed
qed

subsection \<open>Numbers on a pipe or a socket\<close>

text \<open>The four bytes of an \<open>int\<close>; reading fewer leaves the upper bytes of the variable 0.\<close>

definition int_bytes :: "int \<Rightarrow> string" where
  "int_bytes n = map (\<lambda>k. char_of (nat (n div 256 ^ k mod 256))) [0..<4]"

fun bytes_int :: "string \<Rightarrow> int" where
  "bytes_int [] = 0"
| "bytes_int (c # cs) = int (of_char c) + 256 * bytes_int cs"

text \<open>The same four bytes read as a signed \<open>int\<close>.\<close>

definition int_range :: "int \<Rightarrow> bool" where
  "int_range x \<longleftrightarrow> - (2 ^ 31) \<le> x \<and> x < 2 ^ 31"

definition bytes_sint :: "string \<Rightarrow> int" where
  "bytes_sint s = (if bytes_int s < 2 ^ 31 then bytes_int s else bytes_int s - 2 ^ 32)"

lemma length_int_bytes [simp]: "length (int_bytes n) = 4"
  by (simp add: int_bytes_def)

lemma bytes_int_mod: "bytes_int (int_bytes n) = n mod 2 ^ 32"
proof -
  have c: "int (of_char (char_of (nat (m mod 256)) :: char)) = m mod 256" for m :: int
    by (simp add: of_char_of nat_less_iff)
  have step: "n mod (256 * m) = n mod 256 + 256 * (n div 256 mod m)" if "0 < m" for m n :: int
    using that by (simp add: zmod_zmult2_eq)
  have "[0..<4] = [0, 1, 2, 3::nat]" by (simp add: upt_rec)
  then have "bytes_int (int_bytes n)
      = n mod 256 + 256 * (n div 256 mod 256 + 256 * (n div 256 ^ 2 mod 256 + 256 * (n div 256 ^ 3 mod 256)))"
    by (simp add: int_bytes_def c)
  also have "n div 256 ^ 2 mod 256 + 256 * (n div 256 ^ 3 mod 256) = n div 256 ^ 2 mod (256 * 256)"
    by (subst step) (simp_all flip: zdiv_zmult2_eq)
  also have "n div 256 mod 256 + 256 * (n div 256 ^ 2 mod (256 * 256)) = n div 256 mod (256 * (256 * 256))"
    by (subst step[of "256 * 256"]) (simp_all flip: zdiv_zmult2_eq)
  also have "n mod 256 + 256 * (n div 256 mod (256 * (256 * 256))) = n mod (256 * (256 * (256 * 256)))"
    by (subst step[of "256 * (256 * 256)"]) simp_all
  finally show ?thesis by simp
qed

lemma bytes_int_bytes: "0 \<le> n \<Longrightarrow> n < 2 ^ 31 \<Longrightarrow> bytes_int (int_bytes n) = n"
  by (simp add: bytes_int_mod)

lemma bytes_sint_bytes: "int_range n \<Longrightarrow> bytes_sint (int_bytes n) = n"
proof (cases "0 \<le> n")
  case False
  moreover assume "int_range n"
  ultimately have "n mod 2 ^ 32 = n + 2 ^ 32"
    by (intro int_mod_pos_eq[of _ _ "- 1"]) (simp_all add: int_range_def)
  then show ?thesis using False \<open>int_range n\<close> by (simp add: bytes_sint_def bytes_int_mod int_range_def)
qed (simp add: bytes_sint_def bytes_int_mod int_range_def)

text \<open>The decimal text of an \<open>int\<close>.\<close>

lemma dec_nat_length: "n < 10 ^ k \<Longrightarrow> 0 < k \<Longrightarrow> length (dec_nat n) \<le> k"
proof (induction n arbitrary: k rule: dec_nat.induct)
  case (1 n)
  show ?case
  proof (cases "n < 10")
    case True
    then show ?thesis using 1(3) by (subst dec_nat.simps) simp
  next
    case False
    obtain j where k: "k = Suc j" using 1(3) by (cases k) auto
    then have j: "k = Suc j" "0 < j" using 1(2) False by (cases j; simp)+
    then have "n div 10 < 10 ^ j" using 1(2) by (simp add: less_mult_imp_div_less)
    then show ?thesis using 1(1)[OF False _ j(2)] False j(1) by (subst dec_nat.simps) simp
  qed
qed

lemma dec_int_length: "int_range i \<Longrightarrow> length (dec_int i) \<le> 11"
proof -
  assume "int_range i"
  then have "nat i < 10 ^ 10" "nat (- i) < 10 ^ 10" by (auto simp: int_range_def)
  then have "length (dec_nat (nat i)) \<le> 10" "length (dec_nat (nat (- i))) \<le> 10" by (auto intro: dec_nat_length)
  then show ?thesis by (simp add: dec_int_def)
qed

lemma dec_int_no_nul: "NUL \<notin> set (dec_int i)"
  using dec_nat_digits[of NUL] by (auto simp: dec_int_def)

end
