(* ===== verification/File_Transfer.thy ===== *)
theory File_Transfer
  imports C_Io
begin

text \<open>
  The TCP file server and its client, 09\_server\_model/file\_server.h and file\_client.h. A command
  is one message of at most 256 bytes; a file travels in pieces of 32 bytes and ends with the
  message \<open>**OVER**\<close>. The socket from each side is a script of segments, the file system a map.
\<close>

subsection \<open>Files\<close>

record file_system =
  contents :: "string \<Rightarrow> string option"
  denied :: "string \<Rightarrow> bool"

definition open_read :: "file_system \<Rightarrow> string \<Rightarrow> errno + string" where
  "open_read fs f =
     (if denied fs f then Inl OTHER_ERRNO
      else case contents fs f of None \<Rightarrow> Inl ENOENT | Some c \<Rightarrow> Inr c)"

text \<open>\<open>open\<close> with \<open>O_CREAT | O_TRUNC\<close>, then the bytes that are written.\<close>

definition write_file :: "string \<Rightarrow> string \<Rightarrow> file_system \<Rightarrow> file_system" where
  "write_file f c fs = fs\<lparr>contents := (contents fs)(f \<mapsto> c)\<rparr>"

definition OVER :: string where
  "OVER = ''**OVER**''"

abbreviation zeros :: "nat \<Rightarrow> char list" where
  "zeros n \<equiv> replicate n NUL"

text \<open>The pieces \<open>read(file, buf, n)\<close> gives.\<close>

fun chunks :: "nat \<Rightarrow> string \<Rightarrow> string list" where
  "chunks n s = (if s = [] \<or> n = 0 then [] else take n s # chunks n (drop n s))"

declare chunks.simps [simp del]

subsection \<open>The server\<close>

fun list_names :: "char list \<Rightarrow> string list \<Rightarrow> string list result" where
  "list_names b [] = bindR (strcpy b 0 OVER) (\<lambda>b1. bindR (cstr b1 0) (\<lambda>t. Inr [t]))"
| "list_names b (n # ns) =
     (if n \<noteq> [] \<and> hd n = CHR ''.'' then list_names b ns
      else bindR (strcpy b 0 n) (\<lambda>b1. bindR (strcat b1 CRLF) (\<lambda>b2. bindR (cstr b2 0) (\<lambda>t.
             bindR (list_names b2 ns) (\<lambda>ts. Inr (t # ts))))))"

text \<open>\<open>None\<close> is a directory that cannot be opened. The result is the messages that are sent.\<close>

definition file_list :: "string list option \<Rightarrow> string list result" where
  "file_list dir = (case dir of None \<Rightarrow> Inr [] | Some ns \<Rightarrow> list_names (zeros 32) ns)"

definition file_get :: "file_system \<Rightarrow> string \<Rightarrow> string list" where
  "file_get fs f =
     (case open_read fs f of
        Inl e \<Rightarrow> if e = ENOENT then [''NO_EXIST''] else []
      | Inr c \<Rightarrow> chunks 32 c @ [OVER])"

text \<open>
  Receiving a file, the same loop on both sides: the array keeps what earlier pieces left behind
  the new one. The result has what was written, the rest of the script and why the loop ended.
\<close>

datatype loop_end = Marker | Peer_Closed | Waiting

function receive_loop :: "char list \<Rightarrow> string \<Rightarrow> recv_event list \<Rightarrow> (string \<times> recv_event list \<times> loop_end) result" where
  "receive_loop b out es =
     (case brecv 32 es of
        (Got d, es') \<Rightarrow>
          bindR (blit b 0 d) (\<lambda>b1. bindR (strstr b1 0 OVER) (\<lambda>ch.
            case ch of
              Some k \<Rightarrow> Inr (out @ take k b1, es', Marker)
            | None \<Rightarrow> receive_loop b1 (out @ take (length d) b1) es'))
      | (Blocks, es') \<Rightarrow> Inr (out, es', Waiting)
      | (_, es') \<Rightarrow> Inr (out, es', Peer_Closed))"
  by pat_completeness auto
termination
  by (relation "measure (\<lambda>(b, out, es). script_size es)") (auto dest!: brecv_Got[OF sym])

declare receive_loop.simps [simp del]

definition file_put :: "file_system \<Rightarrow> string \<Rightarrow> recv_event list \<Rightarrow> (file_system \<times> recv_event list \<times> loop_end) result" where
  "file_put fs f es =
     (if denied fs f then Inr (fs, es, Peer_Closed)
      else bindR (receive_loop (zeros 32) [] es) (\<lambda>(out, es', e). Inr (write_file f out fs, es', e)))"

lemma brecv_size: "0 < n \<Longrightarrow> brecv n es = (r, es') \<Longrightarrow> script_size es' \<le> script_size es"
  by (induction n es rule: brecv.induct) (auto split: if_splits)

lemma receive_loop_size: "receive_loop b out es = Inr (out', es', e) \<Longrightarrow> script_size es' \<le> script_size es"
proof (induction b out es rule: receive_loop.induct)
  case (1 b out es)
  obtain r es1 where r: "brecv 32 es = (r, es1)" by (cases "brecv 32 es")
  have s: "script_size es1 \<le> script_size es" by (rule brecv_size[OF _ r]) simp
  show ?case
  proof (cases r)
    case (Got d)
    then obtain b1 ch where b: "blit b 0 d = Inr b1" "strstr b1 0 OVER = Inr ch"
      using 1(2) r by (subst (asm) receive_loop.simps) (auto elim!: bindR_InrE)
    show ?thesis
    proof (cases ch)
      case (Some k)
      then show ?thesis using 1(2) r Got b s by (subst (asm) receive_loop.simps) auto
    next
      case None
      then have "receive_loop b1 (out @ take (length d) b1) es1 = Inr (out', es', e)"
        using 1(2) r Got b by (subst (asm) receive_loop.simps) auto
      with 1(1)[OF r[symmetric] Got b None] s show ?thesis by simp
    qed
  qed (use 1(2) r s in \<open>subst (asm) receive_loop.simps, auto\<close>)+
qed

lemma file_put_size: "file_put fs f es = Inr (fs', es', e) \<Longrightarrow> script_size es' \<le> script_size es"
  by (auto simp: file_put_def split: if_splits elim!: bindR_InrE dest: receive_loop_size)

text \<open>
  The loop of a connection: the file system, the messages sent, and whether the client has closed
  (otherwise the server waits in a \<open>recv\<close>).
\<close>

function file_serve ::
  "string list option \<Rightarrow> char list \<Rightarrow> file_system \<Rightarrow> string list \<Rightarrow> recv_event list
     \<Rightarrow> (file_system \<times> string list \<times> bool) result"
where
  "file_serve dir b fs sent es =
     (case brecv 256 es of
        (Fails e, es') \<Rightarrow> file_serve dir b fs sent es'
      | (Shut, es') \<Rightarrow> Inr (fs, sent, True)
      | (Blocks, es') \<Rightarrow> Inr (fs, sent, False)
      | (Got d, es') \<Rightarrow>
          bindR (blit b 0 d) (\<lambda>b0. bindR (store b0 (int (length d)) NUL) (\<lambda>b1. bindR (cstr b1 0) (\<lambda>_.
            if b1 ! 0 = CHR ''L'' then
              bindR (file_list dir) (\<lambda>ms. file_serve dir b1 fs (sent @ ms) es')
            else if b1 ! 0 = CHR ''G'' then
              bindR (cstr b1 2) (\<lambda>f. file_serve dir b1 fs (sent @ file_get fs f) es')
            else if b1 ! 0 = CHR ''P'' then
              bindR (cstr b1 2) (\<lambda>f. bindR (file_put fs f es') (\<lambda>(fs', es'', e).
                file_serve dir b1 fs' sent es''))
            else file_serve dir b1 fs sent es'))))"
  by pat_completeness auto
termination
  by (relation "measure (\<lambda>(dir, b, fs, sent, es). script_size es)")
     (auto dest!: brecv_Got[OF sym] brecv_Fails[OF sym] file_put_size)

declare file_serve.simps [simp del]

subsection \<open>The client\<close>

text \<open>
  \<open>do_list\<close> prints what arrives; \<open>printf\<close> of the array reads it as a string. The result has the
  texts printed.
\<close>

function list_loop :: "char list \<Rightarrow> recv_event list \<Rightarrow> (string list \<times> recv_event list \<times> loop_end) result" where
  "list_loop b es =
     (case brecv 32 es of
        (Got d, es') \<Rightarrow>
          bindR (blit b 0 d) (\<lambda>b1. bindR (strstr b1 0 OVER) (\<lambda>ch.
            case ch of
              Some k \<Rightarrow> Inr ([], es', Marker)
            | None \<Rightarrow> bindR (cstr b1 0) (\<lambda>t. bindR (list_loop b1 es') (\<lambda>(ts, es'', e). Inr (t # ts, es'', e)))))
      | (Blocks, es') \<Rightarrow> Inr ([], es', Waiting)
      | (_, es') \<Rightarrow> Inr ([], es', Peer_Closed))"
  by pat_completeness auto
termination
  by (relation "measure (\<lambda>(b, es). script_size es)") (auto dest!: brecv_Got[OF sym])

declare list_loop.simps [simp del]

definition do_list :: "recv_event list \<Rightarrow> (string list \<times> string list \<times> recv_event list \<times> loop_end) result" where
  "do_list es =
     bindR (strcpy (zeros 32) 0 ''L'') (\<lambda>b. bindR (cstr b 0) (\<lambda>m.
       bindR (list_loop b es) (\<lambda>(ts, es', e). Inr ([m], ts, es', e))))"

text \<open>
  \<open>do_get\<close> sends the command from the array that then receives; the first \<open>recv\<close> may bring
  nothing (\<open>d\<close> is empty) and the array still holds the command. The result has the message sent.
\<close>

definition do_get :: "file_system \<Rightarrow> string \<Rightarrow> recv_event list
    \<Rightarrow> (file_system \<times> string list \<times> recv_event list \<times> loop_end) result" where
  "do_get fs f es =
     bindR (strcpy (zeros 32) 0 (''G '' @ f)) (\<lambda>b. bindR (cstr b 0) (\<lambda>m.
       case brecv 32 es of
         (Blocks, es') \<Rightarrow> Inr (fs, [m], es', Waiting)
       | (r, es') \<Rightarrow>
           let d = (case r of Got d \<Rightarrow> d | _ \<Rightarrow> []) in
           bindR (blit b 0 d) (\<lambda>b1. bindR (strstr b1 0 ''NO_EXIST'') (\<lambda>ne.
             if ne \<noteq> None then Inr (fs, [m], es', Marker)
             else if denied fs f then Inr (fs, [m], es', Peer_Closed)
             else bindR (strstr b1 0 OVER) (\<lambda>ch. case ch of
                 Some k \<Rightarrow> Inr (write_file f (take k b1) fs, [m], es', Marker)
               | None \<Rightarrow> bindR (receive_loop b1 (take (length d) b1) es') (\<lambda>(out, es'', e).
                   Inr (write_file f out fs, [m], es'', e)))))))"

definition do_put :: "file_system \<Rightarrow> string \<Rightarrow> string list result" where
  "do_put fs f =
     (case open_read fs f of
        Inl e \<Rightarrow> Inr []
      | Inr c \<Rightarrow> bindR (strcpy (zeros 32) 0 (''P '' @ f)) (\<lambda>b. bindR (cstr b 0) (\<lambda>m.
          Inr (m # chunks 32 c @ [OVER]))))"

text \<open>
  The command line of the client. The tests of the sources exclude each other. A waiting transfer
  leaves the client stuck in it.
\<close>

datatype client_status = Running | Exited | Stuck

definition after_loop :: "loop_end \<Rightarrow> client_status" where
  "after_loop e = (if e = Waiting then Stuck else Running)"

definition client_command :: "char list \<Rightarrow> file_system \<Rightarrow> recv_event list
    \<Rightarrow> (file_system \<times> string list \<times> recv_event list \<times> client_status) result" where
  "client_command b fs es =
     bindR (strneq b 0 ''list'') (\<lambda>l. bindR (strneq b 0 ''get'') (\<lambda>g.
     bindR (strneq b 0 ''put'') (\<lambda>p. bindR (strneq b 0 ''exit'') (\<lambda>x.
       if l then bindR (do_list es) (\<lambda>(ms, ts, es', e). Inr (fs, ms, es', after_loop e))
       else if g then bindR (cstr b 4) (\<lambda>f. bindR (do_get fs f es) (\<lambda>(fs', ms, es', e).
              Inr (fs', ms, es', after_loop e)))
       else if p then bindR (cstr b 4) (\<lambda>f. bindR (do_put fs f) (\<lambda>ms. Inr (fs, ms, es, Running)))
       else Inr (fs, [], es, if x then Exited else Running)))))"

definition strlen :: "char list \<Rightarrow> nat" where
  "strlen b = length (takeWhile (\<lambda>c. c \<noteq> NUL) b)"

lemma strlen_cstr: "cstr b 0 = Inr s \<Longrightarrow> strlen b = length s"
  by (simp add: strlen_def cstr_def split: if_splits)

lemma chop_strlen: "chop_newline b = Inr b' \<Longrightarrow> strlen b' < strlen b"
proof -
  assume "chop_newline b = Inr b'"
  then obtain s where s: "cstr b 0 = Inr s" "store b (int (length s) - 1) NUL = Inr b'"
    by (auto simp: chop_newline_def elim: bindR_InrE)
  then have k: "0 < length s" "b' = b[length s - 1 := NUL]"
    by (auto simp: store_def nat_diff_distrib' split: if_splits)
  have "cstr b' 0 = Inr (take (length s - 1) s)"
    using cstr_cut[OF s(1), of "length s - 1"] k(2) by simp
  then show ?thesis using strlen_cstr[OF s(1)] strlen_cstr[of b'] k(1) by simp
qed

lemma fgets_shorter:
  assumes "fgets b n inp = Inr (b', inp')" and "1 < n"
  shows "inp = [] \<and> inp' = [] \<and> b' = b \<or> length inp' < length inp"
proof (cases "inp = []")
  case True
  then show ?thesis using assms by (simp add: fgets_def)
next
  case False
  then have "0 < line_length inp" by (cases inp) (auto simp: line_length_def Let_def)
  then have "length (drop (min (n - 1) (line_length inp)) inp) < length inp" using False assms(2) by simp
  then show ?thesis using assms(1) False by (auto simp: fgets_def Let_def elim!: bindR_InrE)
qed

lemma client_measure:
  assumes "fgets b 256 inp = Inr (b0, inp')" and "chop_newline b0 = Inr b1"
  shows "length inp' < length inp \<or> length inp' = length inp \<and> strlen b1 < strlen b"
  using fgets_shorter[OF assms(1)] chop_strlen[OF assms(2)] by auto

function file_client :: "char list \<Rightarrow> string \<Rightarrow> file_system \<Rightarrow> string list \<Rightarrow> recv_event list
    \<Rightarrow> (file_system \<times> string list \<times> client_status) result" where
  "file_client b inp fs sent es =
     bindR (fgets b 256 inp) (\<lambda>(b0, inp'). bindR (chop_newline b0) (\<lambda>b1.
       bindR (client_command b1 fs es) (\<lambda>(fs', ms, es', st).
         if st = Running then file_client b1 inp' fs' (sent @ ms) es' else Inr (fs', sent @ ms, st))))"
  by pat_completeness auto
termination
  by (relation "measures [\<lambda>(b, inp, fs, sent, es). length inp, \<lambda>(b, inp, fs, sent, es). strlen b]")
     (auto dest: client_measure)

declare file_client.simps [simp del]

subsection \<open>The listing\<close>

definition visible :: "string list \<Rightarrow> string list" where
  "visible ns = filter (\<lambda>n. \<not> (n \<noteq> [] \<and> hd n = CHR ''.'')) ns"

lemma list_names_step:
  assumes "length b = 32" and "NUL \<notin> set n"
  shows "if length n \<le> 29
    then \<exists>b1 b2. strcpy b 0 n = Inr b1 \<and> strcat b1 CRLF = Inr b2 \<and> cstr b2 0 = Inr (n @ CRLF) \<and> length b2 = 32
    else bindR (strcpy b 0 n) (\<lambda>b1. strcat b1 CRLF) = Inl (Bad_Store 32)"
proof (cases "length n \<le> 31")
  case True
  then obtain b1 where b1: "strcpy b 0 n = Inr b1" "length b1 = 32"
    using assms(1) by (simp add: strcpy_def blit_ok)
  have c: "cstr b1 0 = Inr n" using cstr_blit[of b 0 n b1] b1(1) assms(2) by (simp add: strcpy_def)
  show ?thesis
  proof (cases "length n \<le> 29")
    case True
    then show ?thesis using strcat_ok[OF c, of CRLF] b1 by auto
  next
    case False
    then show ?thesis using b1 c by (simp add: strcat_def blit_def)
  qed
next
  case False
  then show ?thesis using assms(1) by (simp add: strcpy_def blit_def)
qed

lemma list_names_spec:
  assumes "length b = 32" and "\<forall>n \<in> set ns. NUL \<notin> set n"
  shows "list_names b ns =
    (if \<forall>n \<in> set (visible ns). length n \<le> 29 then Inr (map (\<lambda>n. n @ CRLF) (visible ns) @ [OVER])
     else Inl (Bad_Store 32))"
  using assms
proof (induction ns arbitrary: b)
  case Nil
  then have "strcpy b 0 OVER = Inr (OVER @ [NUL] @ drop 9 b)"
    by (simp add: strcpy_def blit_ok OVER_def eval_nat_numeral)
  moreover have "cstr (OVER @ [NUL] @ drop 9 b) 0 = Inr OVER" by (simp add: cstr_def OVER_def)
  ultimately show ?case by (simp add: visible_def)
next
  case (Cons n ns)
  note step = list_names_step[OF Cons.prems(1), of n]
  show ?case
  proof (cases "n \<noteq> [] \<and> hd n = CHR ''.''")
    case True
    then have "visible (n # ns) = visible ns" by (simp add: visible_def)
    then show ?thesis using Cons.IH[OF Cons.prems(1)] Cons.prems(2) True by simp
  next
    case False
    then have v: "visible (n # ns) = n # visible ns" by (simp add: visible_def)
    show ?thesis
    proof (cases "length n \<le> 29")
      case True
      then obtain b1 b2 where "strcpy b 0 n = Inr b1" "strcat b1 CRLF = Inr b2" "cstr b2 0 = Inr (n @ CRLF)" "length b2 = 32"
        using step Cons.prems(2) by auto
      then show ?thesis using False True v Cons.IH[of b2] Cons.prems(2) by auto
    next
      case len: False
      then have "bindR (strcpy b 0 n) (\<lambda>b1. strcat b1 CRLF) = Inl (Bad_Store 32)" using step Cons.prems(2) by simp
      then have "bindR (strcpy b 0 n) (\<lambda>b1. bindR (strcat b1 CRLF) f) = Inl (Bad_Store 32)" for f :: "_ \<Rightarrow> string list result"
        by (auto simp: bindR_def split: sum.splits)
      then show ?thesis using False len v by (auto simp del: bindR_Inr)
    qed
  qed
qed

text \<open>
  The listing sends the name of every file that is not hidden, in the order of the directory,
  each with a line end, and then the end marker, as long as all names have at most 29 characters;
  the first longer name is written past the end of the array of 32 bytes.
\<close>

theorem file_list_exact:
  assumes "\<forall>n \<in> set ns. NUL \<notin> set n"
  shows "file_list (Some ns) =
    (if \<forall>n \<in> set (visible ns). length n \<le> 29 then Inr (map (\<lambda>n. n @ CRLF) (visible ns) @ [OVER])
     else Inl (Bad_Store 32))"
  using list_names_spec[of "zeros 32" ns] assms by (simp add: file_list_def)

theorem file_list_exact_witness:
  "file_list (Some [''.git'', ''a.txt'', ''b'']) = Inr [''a.txt'' @ CRLF, ''b'' @ CRLF, OVER]
   \<and> file_list (Some [''.'', replicate 30 CHR ''x'']) = Inl (Bad_Store 32)"
  using file_list_exact[of "[''.git'', ''a.txt'', ''b'']"] file_list_exact[of "[''.'', replicate 30 CHR ''x'']"]
  by (simp add: visible_def)

subsection \<open>The transfer\<close>

lemma concat_chunks: "0 < n \<Longrightarrow> concat (chunks n s) = s"
  by (induction n s rule: chunks.induct) (subst chunks.simps, auto)

lemma chunks_small: "s \<noteq> [] \<Longrightarrow> length s \<le> n \<Longrightarrow> chunks n s = [s]"
  by (cases s; subst chunks.simps) (auto simp: chunks.simps[of n "[]"])

lemma chunks_Nil [simp]: "chunks n [] = []"
  by (simp add: chunks.simps)

text \<open>An array that holds none of the characters of the marker cannot show the marker.\<close>

lemma find_sub_absent: "x \<in> set p \<Longrightarrow> x \<notin> set s \<Longrightarrow> find_sub p s = None"
  by (induction p s rule: find_sub.induct) (auto simp: prefix_def Cons_eq_append_conv)

definition quiet :: "string \<Rightarrow> bool" where
  "quiet s \<longleftrightarrow> CHR ''*'' \<notin> set s \<and> CHR ''_'' \<notin> set s"

lemma quiet_append [simp]: "quiet (s @ t) \<longleftrightarrow> quiet s \<and> quiet t"
  by (auto simp: quiet_def)

lemma quiet_zeros [simp]: "quiet (zeros n)"
  by (simp add: quiet_def)

lemma quiet_take_drop: "quiet s \<Longrightarrow> quiet (take n s) \<and> quiet (drop n s)"
  by (auto simp: quiet_def dest: in_set_takeD in_set_dropD)

lemma quiet_takeWhile: "quiet s \<Longrightarrow> quiet (takeWhile P s)"
  by (auto simp: quiet_def dest: set_takeWhileD)

text \<open>The array after a piece of at most 31 bytes: it ends with a NUL, so the search stays inside.\<close>

definition buf_ok :: "char list \<Rightarrow> bool" where
  "buf_ok b \<longleftrightarrow> length b = 32 \<and> last b = NUL \<and> quiet b"

lemma buf_ok_zeros [simp]: "buf_ok (zeros 32)"
  by (simp add: buf_ok_def)

lemma buf_nul: "length b = 32 \<Longrightarrow> last b = NUL \<Longrightarrow> NUL \<in> set b"
  using last_in_set[of b] by (cases b) auto

lemma last_after: "length d < length b \<Longrightarrow> last (d @ drop (length d) b) = last b"
  by (simp add: last_append)

lemma piece_quiet:
  assumes "buf_ok b" and "length d \<le> 31" and "quiet d"
  shows "\<exists>b1. blit b 0 d = Inr b1 \<and> buf_ok b1 \<and> take (length d) b1 = d \<and> strstr b1 0 OVER = Inr None
    \<and> strstr b1 0 ''NO_EXIST'' = Inr None"
proof -
  let ?b = "d @ drop (length d) b"
  have b: "length b = 32" "last b = NUL" "quiet b" using assms(1) by (auto simp: buf_ok_def)
  have ok: "buf_ok ?b"
    using assms(2,3) b quiet_take_drop[OF b(3)] last_after[of d b] by (simp add: buf_ok_def)
  then have c: "cstr ?b 0 = Inr (takeWhile (\<lambda>c. c \<noteq> NUL) ?b)"
    using buf_nul[of ?b] by (simp add: cstr_def buf_ok_def)
  have "quiet (takeWhile (\<lambda>c. c \<noteq> NUL) ?b)"
    by (rule quiet_takeWhile) (use ok in \<open>simp only: buf_ok_def\<close>)
  then have "find_sub OVER (takeWhile (\<lambda>c. c \<noteq> NUL) ?b) = None"
    "find_sub ''NO_EXIST'' (takeWhile (\<lambda>c. c \<noteq> NUL) ?b) = None"
    using find_sub_absent[of "CHR ''*''" OVER] find_sub_absent[of "CHR ''_''" "''NO_EXIST''"]
    unfolding quiet_def OVER_def by simp_all
  then show ?thesis using ok b assms(2) c by (simp add: blit_ok strstr_def)
qed

lemma piece_marker:
  assumes "buf_ok b"
  shows "\<exists>b1. blit b 0 OVER = Inr b1 \<and> strstr b1 0 OVER = Inr (Some 0) \<and> strstr b1 0 ''NO_EXIST'' = Inr None"
proof -
  let ?b = "OVER @ drop 8 b"
  have b: "length b = 32" "last b = NUL" "quiet b" using assms by (auto simp: buf_ok_def)
  have nul: "NUL \<in> set ?b" using buf_nul[of ?b] last_after[of OVER b] b by (simp add: OVER_def)
  have t: "takeWhile (\<lambda>c. c \<noteq> NUL) ?b = OVER @ takeWhile (\<lambda>c. c \<noteq> NUL) (drop 8 b)"
    by (simp add: OVER_def)
  have "CHR ''_'' \<notin> set (takeWhile (\<lambda>c. c \<noteq> NUL) ?b)"
    using b(3) unfolding t by (auto simp: OVER_def quiet_def dest: set_takeWhileD in_set_dropD)
  then have "find_sub ''NO_EXIST'' (takeWhile (\<lambda>c. c \<noteq> NUL) ?b) = None"
    by (intro find_sub_absent[of "CHR ''_''"]) auto
  then show ?thesis using b(1) nul unfolding strstr_def
    by (simp add: blit_ok cstr_def OVER_def eval_nat_numeral flip: t[unfolded OVER_def])
qed

lemma brecv_Data: "d \<noteq> [] \<Longrightarrow> length d \<le> n \<Longrightarrow> brecv n (Data d # es) = (Got d, es)"
  by (cases d) auto

text \<open>Pieces that arrive as they were sent, each of at most 31 bytes, are put together again.\<close>

lemma receive_pieces:
  assumes "buf_ok b" and "\<forall>d \<in> set ds. d \<noteq> [] \<and> length d \<le> 31 \<and> quiet d"
  shows "receive_loop b out (map Data ds @ Data OVER # es) = Inr (out @ concat ds, es, Marker)"
  using assms
proof (induction ds arbitrary: b out)
  case Nil
  have "brecv 32 (Data OVER # es) = (Got OVER, es)" by (simp add: OVER_def)
  then show ?case using piece_marker[OF Nil(1)] by (subst receive_loop.simps) auto
next
  case (Cons d ds)
  obtain b1 where b1: "blit b 0 d = Inr b1" "buf_ok b1" "take (length d) b1 = d" "strstr b1 0 OVER = Inr None"
    using piece_quiet[of b d] Cons.prems by auto
  have r: "brecv 32 (map Data (d # ds) @ Data OVER # es) = (Got d, map Data ds @ Data OVER # es)"
    using Cons.prems(2) by simp
  have "receive_loop b out (map Data (d # ds) @ Data OVER # es)
      = receive_loop b1 (out @ d) (map Data ds @ Data OVER # es)"
    by (subst receive_loop.simps) (simp only: r b1 prod.case brecv_ret.case bindR_Inr option.case)
  then show ?case using Cons.IH[OF b1(2)] Cons.prems(2) by simp
qed

lemma command_parsed:
  assumes "length b = 256" and "length f \<le> 253" and "NUL \<notin> set f" and "c \<noteq> NUL"
  shows "\<exists>b0 b1. blit b 0 (c # SP # f) = Inr b0 \<and> store b0 (int (length (c # SP # f))) NUL = Inr b1
    \<and> cstr b1 0 = Inr (c # SP # f) \<and> b1 ! 0 = c \<and> cstr b1 2 = Inr f \<and> length b1 = 256"
proof -
  obtain b0 b1 where b: "blit b 0 (c # SP # f) = Inr b0" "store b0 (int (length (c # SP # f))) NUL = Inr b1"
    "length b1 = length b" "cstr b1 0 = Inr (c # SP # f)"
    using recv_terminate[of "c # SP # f" b] assms by auto
  moreover have "b1 ! 0 = c" using cstr_nth[OF b(4), of 0] by simp
  moreover have "cstr b1 2 = Inr f" using cstr_drop[OF b(4), of 2] by (simp add: eval_nat_numeral)
  ultimately show ?thesis using assms(1) by auto
qed

lemma serve_command:
  assumes "length b = 256" and "length f \<le> 253" and "NUL \<notin> set f" and "c \<in> {CHR ''G'', CHR ''P''}"
  shows "\<exists>b1. length b1 = 256 \<and> file_serve dir b fs sent (Data (c # SP # f) # es) =
    (if c = CHR ''G'' then file_serve dir b1 fs (sent @ file_get fs f) es
     else bindR (file_put fs f es) (\<lambda>(fs', es', e). file_serve dir b1 fs' sent es'))"
proof -
  have c: "c \<noteq> NUL" using assms(4) by auto
  obtain b0 b1 where b: "blit b 0 (c # SP # f) = Inr b0" "store b0 (int (length (c # SP # f))) NUL = Inr b1"
    "cstr b1 0 = Inr (c # SP # f)" "b1 ! 0 = c" "cstr b1 2 = Inr f" "length b1 = 256"
    using command_parsed[OF assms(1-3) c] by blast
  have r: "brecv 256 (Data (c # SP # f) # es) = (Got (c # SP # f), es)" using assms(2) by simp
  have "file_serve dir b fs sent (Data (c # SP # f) # es) =
    (if c = CHR ''G'' then file_serve dir b1 fs (sent @ file_get fs f) es
     else bindR (file_put fs f es) (\<lambda>(fs', es', e). file_serve dir b1 fs' sent es'))"
    using assms(4) by (subst file_serve.simps) (auto simp only: r b prod.case brecv_ret.case bindR_Inr; simp)
  then show ?thesis using b(6) by blast
qed

lemma serve_waits: "file_serve dir b fs sent [] = Inr (fs, sent, False)"
  by (subst file_serve.simps) simp

lemma client_message:
  assumes "length f \<le> 29" and "NUL \<notin> set f" and "c \<noteq> NUL"
  shows "\<exists>b. strcpy (zeros 32) 0 (c # SP # f) = Inr b \<and> cstr b 0 = Inr (c # SP # f) \<and> length b = 32
    \<and> (quiet f \<and> c \<notin> {CHR ''*'', CHR ''_''} \<longrightarrow> buf_ok b)"
proof -
  let ?b = "(c # SP # f @ [NUL]) @ zeros (29 - length f)"
  have s: "strcpy (zeros 32) 0 (c # SP # f) = Inr ?b" using assms(1) by (simp add: strcpy_def blit_ok)
  moreover have "cstr ?b 0 = Inr (c # SP # f)" using assms(2,3) by (auto simp: cstr_iff)
  moreover have "last ?b = NUL" by (cases "29 - length f") (auto simp: last_append)
  ultimately show ?thesis using assms(1) by (auto simp: buf_ok_def quiet_def)
qed

text \<open>
  C14. A file of fewer than 32 bytes, of which neither the name nor the text has the characters
  \<open>*\<close> and \<open>_\<close>, survives the way to the server and back when every message arrives as it was sent:
  the server stores what the client put, and a client that gets it has the same file.
\<close>

theorem file_put_get_roundtrip:
  assumes "open_read cfs f = Inr c" and "length c < 32" and "quiet c"
    and "length f \<le> 29" and "NUL \<notin> set f" and "quiet f"
    and "\<not> denied sfs f" and "\<not> denied rfs f"
  shows "\<exists>ms. do_put cfs f = Inr ms
    \<and> file_serve dir (zeros 256) sfs [] (map Data ms) = Inr (write_file f c sfs, [], False)
    \<and> do_get rfs f (map Data (file_get (write_file f c sfs) f)) = Inr (write_file f c rfs, [''G '' @ f], [], Marker)"
proof -
  let ?ds = "chunks 32 c"
  have ds: "\<forall>d \<in> set ?ds. d \<noteq> [] \<and> length d \<le> 31 \<and> quiet d"
    using chunks_small[of c 32] assms(2,3) by (cases "c = []") auto
  obtain b where b: "strcpy (zeros 32) 0 (''P '' @ f) = Inr b" "cstr b 0 = Inr (''P '' @ f)"
    using client_message[OF assms(4,5), of "CHR ''P''"] by auto
  have put: "do_put cfs f = Inr ((''P '' @ f) # ?ds @ [OVER])"
    using assms(1) b by (simp add: do_put_def)
  have "file_put sfs f (map Data ?ds @ [Data OVER]) = Inr (write_file f c sfs, [], Marker)"
    using receive_pieces[OF buf_ok_zeros ds, of "[]" "[]"] concat_chunks[of 32 c] assms(7)
    by (simp add: file_put_def)
  then have serve: "file_serve dir (zeros 256) sfs [] (map Data ((''P '' @ f) # ?ds @ [OVER]))
      = Inr (write_file f c sfs, [], False)"
    using serve_command[of "zeros 256" f "CHR ''P''" dir sfs "[]" "map Data ?ds @ [Data OVER]"] assms(4,5)
    by (auto simp: serve_waits)
  obtain g where g: "strcpy (zeros 32) 0 (''G '' @ f) = Inr g" "cstr g 0 = Inr (''G '' @ f)" "buf_ok g"
    using client_message[OF assms(4,5), of "CHR ''G''"] assms(6) by auto
  have sent: "file_get (write_file f c sfs) f = ?ds @ [OVER]"
    using assms(7) by (simp add: file_get_def open_read_def write_file_def)
  have get: "do_get rfs f (map Data (?ds @ [OVER])) = Inr (write_file f c rfs, [''G '' @ f], [], Marker)"
  proof (cases "c = []")
    case True
    have OVER_short: "length OVER \<le> 32" "OVER \<noteq> []" by (simp_all add: OVER_def)
    then have r: "brecv 32 [Data OVER] = (Got OVER, [])" by simp
    obtain b1 where "blit g 0 OVER = Inr b1" "strstr b1 0 OVER = Inr (Some 0)" "strstr b1 0 ''NO_EXIST'' = Inr None"
      using piece_marker[OF g(3)] by blast
    then show ?thesis using True g(1,2) assms(8) OVER_short by (simp add: do_get_def r Let_def)
  next
    case False
    then have one: "?ds = [c]" using chunks_small[of c 32] assms(2) by simp
    have r: "brecv 32 (map Data (?ds @ [OVER])) = (Got c, [Data OVER])" using False assms(2) by (simp add: one)
    obtain b1 where b1: "blit g 0 c = Inr b1" "buf_ok b1" "take (length c) b1 = c" "strstr b1 0 OVER = Inr None"
      "strstr b1 0 ''NO_EXIST'' = Inr None"
      using piece_quiet[OF g(3), of c] assms(2,3) by auto
    have "receive_loop b1 c [Data OVER] = Inr (c, [], Marker)"
      using receive_pieces[OF b1(2), of "[]" c "[]"] by simp
    then show ?thesis unfolding do_get_def r using g(1,2) b1 assms(8) by (simp add: Let_def)
  qed
  show ?thesis using put serve get unfolding sent by blast
qed

definition demo_fs :: file_system where
  "demo_fs = \<lparr>contents = [''a.txt'' \<mapsto> ''hello''], denied = (\<lambda>_. False)\<rparr>"

theorem file_put_get_roundtrip_witness:
  "\<exists>ms. do_put demo_fs ''a.txt'' = Inr ms
    \<and> file_serve None (zeros 256) (demo_fs\<lparr>contents := Map.empty\<rparr>) [] (map Data ms) = Inr (demo_fs, [], False)"
  using file_put_get_roundtrip[of demo_fs "''a.txt''" "''hello''" "demo_fs\<lparr>contents := Map.empty\<rparr>" demo_fs None]
  by (auto simp: demo_fs_def open_read_def write_file_def quiet_def)

text \<open>
  A file whose first 32 bytes have no NUL cannot be uploaded: the first piece fills the array of
  the server and the search for the marker runs off its end.
\<close>

theorem file_put_large_faults:
  assumes "open_read cfs f = Inr c" and "32 \<le> length c" and "NUL \<notin> set (take 32 c)"
    and "length f \<le> 29" and "NUL \<notin> set f" and "\<not> denied sfs f"
  shows "\<exists>ms. do_put cfs f = Inr ms
    \<and> file_serve dir (zeros 256) sfs [] (map Data ms) = Inl (Bad_String 0)"
proof -
  let ?r = "map Data (chunks 32 (drop 32 c) @ [OVER])"
  have ch: "chunks 32 c = take 32 c # chunks 32 (drop 32 c)"
    using assms(2) by (subst chunks.simps) auto
  obtain b where b: "strcpy (zeros 32) 0 (''P '' @ f) = Inr b" "cstr b 0 = Inr (''P '' @ f)"
    using client_message[OF assms(4,5), of "CHR ''P''"] by auto
  have put: "do_put cfs f = Inr ((''P '' @ f) # take 32 c # chunks 32 (drop 32 c) @ [OVER])"
    using assms(1) b by (simp add: do_put_def ch)
  have r: "brecv 32 (Data (take 32 c) # ?r) = (Got (take 32 c), ?r)" using assms(2) by auto
  have "blit (zeros 32) 0 (take 32 c) = Inr (take 32 c)" using assms(2) by (simp add: blit_ok)
  moreover have "strstr (take 32 c) 0 OVER = Inl (Bad_String 0)" using assms(3) by (simp add: strstr_def cstr_def)
  ultimately have "receive_loop (zeros 32) [] (Data (take 32 c) # ?r) = Inl (Bad_String 0)"
    by (subst receive_loop.simps) (simp only: r prod.case brecv_ret.case bindR_Inr bindR_Inl)
  then have "file_put sfs f (Data (take 32 c) # ?r) = Inl (Bad_String 0)" using assms(6) by (simp add: file_put_def)
  then have "file_serve dir (zeros 256) sfs [] (map Data ((''P '' @ f) # take 32 c # chunks 32 (drop 32 c) @ [OVER]))
      = Inl (Bad_String 0)"
    using serve_command[of "zeros 256" f "CHR ''P''" dir sfs "[]" "Data (take 32 c) # ?r"] assms(4,5) by auto
  then show ?thesis using put by blast
qed

theorem file_put_large_faults_witness:
  "\<exists>ms. do_put (demo_fs\<lparr>contents := [''b'' \<mapsto> replicate 40 CHR ''x'']\<rparr>) ''b'' = Inr ms
    \<and> file_serve None (zeros 256) demo_fs [] (map Data ms) = Inl (Bad_String 0)"
  using file_put_large_faults[of "demo_fs\<lparr>contents := [''b'' \<mapsto> replicate 40 CHR ''x'']\<rparr>" "''b''"
      "replicate 40 CHR ''x''" demo_fs None]
  by (simp add: demo_fs_def open_read_def)

subsection \<open>The end of the client's input\<close>

definition no_command :: "string \<Rightarrow> bool" where
  "no_command s \<longleftrightarrow> (\<forall>c \<in> {''list'', ''get'', ''put'', ''exit''}. take (length c) s \<noteq> c)"

lemma no_command_take: "no_command s \<Longrightarrow> no_command (take n s)"
proof (unfold no_command_def, intro ballI notI)
  fix c assume s: "\<forall>c \<in> {''list'', ''get'', ''put'', ''exit''}. take (length c) s \<noteq> c"
    and c: "c \<in> {''list'', ''get'', ''put'', ''exit''}" "take (length c) (take n s) = c"
  have "length c \<le> n" using arg_cong[OF c(2), of length] by simp
  then have "take (length c) s = c" using c(2) by (simp add: min_absorb1)
  then show False using s c(1) by blast
qed

lemma no_command_runs: "cstr b 0 = Inr s \<Longrightarrow> no_command s \<Longrightarrow> client_command b fs es = Inr (fs, [], es, Running)"
  by (simp add: client_command_def strneq_def no_command_def)

text \<open>
  At the end of its input the client does not stop: the array keeps its text, one character is
  cut off at every turn, and when nothing is left the next one is cut off in front of the array.
\<close>

theorem file_client_at_eof:
  assumes "cstr b 0 = Inr s" and "no_command s"
  shows "file_client b [] fs sent es = Inl (Bad_Store (-1))"
  using assms
proof (induction "length s" arbitrary: b s)
  case 0
  then show ?case by (subst file_client.simps) (simp add: fgets_def chop_newline_def store_def)
next
  case (Suc n)
  let ?b = "b[n := NUL]"
  have len: "length s = Suc n" using Suc.hyps(2) by simp
  have "length s < length b" using cstr_bound[OF Suc.prems(1)] by simp
  then have ch: "chop_newline b = Inr ?b"
    using Suc.prems(1) by (simp add: chop_newline_def len)
  have c: "cstr ?b 0 = Inr (take n s)"
    using cstr_cut[OF Suc.prems(1), of n] len by simp
  have nc: "no_command (take n s)" by (rule no_command_take[OF Suc.prems(2)])
  have "file_client b [] fs sent es = file_client ?b [] fs sent es"
    by (subst file_client.simps) (simp add: fgets_def ch no_command_runs[OF c nc])
  then show ?case using Suc.hyps(1)[OF _ c nc] len by simp
qed

theorem file_client_at_eof_witness:
  "file_client (''help'' @ zeros 252) [] demo_fs [] [] = Inl (Bad_Store (-1))"
  using file_client_at_eof[of "''help'' @ zeros 252" "''help''" demo_fs "[]" "[]"]
  by (simp add: no_command_def cstr_def)

subsection \<open>Messages that run together\<close>

text \<open>
  The stream does not keep the borders of messages: when the command of an upload arrives
  together with the first bytes of the file, these bytes become part of the file's name.
\<close>

theorem file_command_swallows_data:
  assumes "length (f @ c) \<le> 253" and "NUL \<notin> set (f @ c)" and "quiet c'" and "c' \<noteq> []" and "length c' \<le> 31"
    and "\<not> denied sfs (f @ c)"
  shows "file_serve dir (zeros 256) sfs [] [Data (''P '' @ f @ c), Data c', Data OVER]
    = Inr (write_file (f @ c) c' sfs, [], False)"
proof -
  have "receive_loop (zeros 32) [] [Data c', Data OVER] = Inr (c', [], Marker)"
    using receive_pieces[OF buf_ok_zeros, of "[c']" "[]" "[]"] assms(3-5) by simp
  then have "file_put sfs (f @ c) [Data c', Data OVER] = Inr (write_file (f @ c) c' sfs, [], Marker)"
    using assms(6) by (simp add: file_put_def)
  then show ?thesis
    using serve_command[of "zeros 256" "f @ c" "CHR ''P''" dir sfs "[]" "[Data c', Data OVER]"] assms(1,2)
    by (auto simp: serve_waits)
qed

theorem file_command_swallows_data_witness:
  "file_serve None (zeros 256) demo_fs [] [Data (''P '' @ ''a.txt'' @ ''hello''), Data ''world'', Data OVER]
    = Inr (write_file ''a.txthello'' ''world'' demo_fs, [], False)"
  using file_command_swallows_data[of "''a.txt''" "''hello''" "''world''" demo_fs None]
  by (simp add: demo_fs_def quiet_def)

text \<open>The client prints what an earlier, longer name left in the array.\<close>

lemma listing_leftovers:
  "list_loop (zeros 32) [Data (''abcdef'' @ CRLF), Data (''x'' @ CRLF), Data OVER]
    = Inr ([''abcdef'' @ CRLF, ''x'' @ CRLF @ ''def'' @ CRLF], [], Marker)"
proof -
  have "list_loop b (Data d # es) = bindR (blit b 0 d) (\<lambda>b1. bindR (strstr b1 0 OVER) (\<lambda>ch.
            case ch of
              Some k \<Rightarrow> Inr ([], es, Marker)
            | None \<Rightarrow> bindR (cstr b1 0) (\<lambda>t. bindR (list_loop b1 es) (\<lambda>(ts, es'', e). Inr (t # ts, es'', e)))))"
    if "d \<noteq> []" "length d \<le> 32" for b d es
    using that by (subst list_loop.simps) simp
  then show ?thesis
    by (simp add: blit_def strstr_def cstr_def OVER_def numeral_eq_Suc)
qed

end
