(* ===== verification/Udp_Room.thy ===== *)
theory Udp_Room
  imports File_Transfer
begin

text \<open>
  The chat room over UDP, 09\_server\_model/udp\_room\_server.h, udp\_room\_client.h and udp\_msg.h. A
  datagram is a whole \<open>MSG\<close>, whose arrays are what the sender put there. The server keeps the
  clients that have logged in.
\<close>

subsection \<open>The server\<close>

definition LOGIN :: int where "LOGIN = 1"
definition CHAT :: int where "CHAT = 2"
definition QUIT :: int where "QUIT = 3"

record MSG =
  msg_type :: int
  msg_name :: "char list"
  msg_text :: "char list"

record Client =
  peer_addr :: nat
  peer_name :: "char list"

type_synonym datagrams = "(nat \<times> MSG) list"

text \<open>\<open>sendto\<close> every client, or every client with another name.\<close>

definition send_all :: "MSG \<Rightarrow> Client list \<Rightarrow> datagrams" where
  "send_all m cs = map (\<lambda>c. (peer_addr c, m)) cs"

fun send_others :: "MSG \<Rightarrow> Client list \<Rightarrow> datagrams result" where
  "send_others m [] = Inr []"
| "send_others m (c # cs) =
     bindR (cstr (msg_name m) 0) (\<lambda>n. bindR (cstr (peer_name c) 0) (\<lambda>k.
       bindR (send_others m cs) (\<lambda>out. Inr (if n = k then out else (peer_addr c, m) # out))))"

definition do_login :: "MSG \<Rightarrow> nat \<Rightarrow> Client list \<Rightarrow> (Client list \<times> datagrams) result" where
  "do_login m a cs =
     bindR (cstr (msg_name m) 0) (\<lambda>n. bindR (strcpy (msg_text m) 0 (n @ '' login'' @ [LF])) (\<lambda>t.
       bindR (strcpy (zeros 32) 0 n) (\<lambda>k.
         Inr (cs @ [\<lparr>peer_addr = a, peer_name = k\<rparr>], send_all (m\<lparr>msg_text := t\<rparr>) cs))))"

definition do_chat :: "MSG \<Rightarrow> nat \<Rightarrow> Client list \<Rightarrow> (Client list \<times> datagrams) result" where
  "do_chat m a cs =
     bindR (cstr (msg_name m) 0) (\<lambda>n. bindR (cstr (msg_text m) 0) (\<lambda>t.
       bindR (strcpy (zeros 1024) 0 (n @ '' : '' @ t @ [LF])) (\<lambda>buf. bindR (cstr buf 0) (\<lambda>s.
         bindR (strcpy (msg_text m) 0 s) (\<lambda>t'.
           bindR (send_others (m\<lparr>msg_text := t'\<rparr>) cs) (\<lambda>out. Inr (cs, out)))))))"

text \<open>\<open>remove_if\<close> takes out the clients for which \<open>strcmp\<close> is not 0.\<close>

fun remove_if_other :: "string \<Rightarrow> Client list \<Rightarrow> Client list result" where
  "remove_if_other n [] = Inr []"
| "remove_if_other n (c # cs) =
     bindR (cstr (peer_name c) 0) (\<lambda>k. bindR (remove_if_other n cs) (\<lambda>cs'.
       Inr (if k \<noteq> n then cs' else c # cs')))"

definition do_quit :: "MSG \<Rightarrow> nat \<Rightarrow> Client list \<Rightarrow> (Client list \<times> datagrams) result" where
  "do_quit m a cs =
     bindR (cstr (msg_name m) 0) (\<lambda>n. bindR (strcpy (msg_text m) 0 (n @ '' quit'' @ [LF])) (\<lambda>t.
       bindR (send_others (m\<lparr>msg_text := t\<rparr>) cs) (\<lambda>out.
         bindR (remove_if_other n cs) (\<lambda>cs'. Inr (cs', out)))))"

text \<open>A datagram is printed first, then handled by its type.\<close>

definition on_message :: "MSG \<Rightarrow> nat \<Rightarrow> Client list \<Rightarrow> (Client list \<times> datagrams) result" where
  "on_message m a cs =
     bindR (cstr (msg_name m) 0) (\<lambda>_. bindR (cstr (msg_text m) 0) (\<lambda>_.
       if msg_type m = LOGIN then do_login m a cs
       else if msg_type m = CHAT then do_chat m a cs
       else if msg_type m = QUIT then do_quit m a cs
       else Inr (cs, [])))"

fun room_run :: "(MSG \<times> nat) list \<Rightarrow> Client list \<Rightarrow> (Client list \<times> datagrams list) result" where
  "room_run [] cs = Inr (cs, [])"
| "room_run ((m, a) # ms) cs =
     bindR (on_message m a cs) (\<lambda>(cs1, out). bindR (room_run ms cs1) (\<lambda>(cs2, outs). Inr (cs2, out # outs)))"

text \<open>The child process sends each line of the standard input under the name \<open>server\<close>.\<close>

function system_lines :: "char list \<Rightarrow> char list \<Rightarrow> string \<Rightarrow> MSG list \<Rightarrow> MSG list result" where
  "system_lines name text inp sent =
     bindR (fgets text 1024 inp) (\<lambda>(t0, inp'). bindR (chop_newline t0) (\<lambda>t1.
       system_lines name t1 inp' (sent @ [\<lparr>msg_type = CHAT, msg_name = name, msg_text = t1\<rparr>])))"
  by pat_completeness auto
termination
  by (relation "measures [\<lambda>(name, text, inp, sent). length inp, \<lambda>(name, text, inp, sent). strlen text]")
     (auto dest!: fgets_shorter chop_strlen)

declare system_lines.simps [simp del]

subsection \<open>The client\<close>

text \<open>
  The process that sends: \<open>None\<close> in the result is a client that is still reading; otherwise it has
  quit. The arrays start as what the stack holds.
\<close>

function room_lines :: "char list \<Rightarrow> char list \<Rightarrow> string \<Rightarrow> MSG list \<Rightarrow> MSG list result" where
  "room_lines name text inp sent =
     bindR (fgets text 1024 inp) (\<lambda>(t0, inp'). bindR (chop_newline t0) (\<lambda>t1. bindR (strneq t1 0 ''quit'') (\<lambda>q.
       if q then Inr (sent @ [\<lparr>msg_type = QUIT, msg_name = name, msg_text = t1\<rparr>])
       else room_lines name t1 inp' (sent @ [\<lparr>msg_type = CHAT, msg_name = name, msg_text = t1\<rparr>]))))"
  by pat_completeness auto
termination
  by (relation "measures [\<lambda>(name, text, inp, sent). length inp, \<lambda>(name, text, inp, sent). strlen text]")
     (auto dest!: fgets_shorter chop_strlen)

declare room_lines.simps [simp del]

definition room_client :: "char list \<Rightarrow> char list \<Rightarrow> string \<Rightarrow> MSG list result" where
  "room_client name text inp =
     bindR (fgets name 32 inp) (\<lambda>(n0, inp'). bindR (chop_newline n0) (\<lambda>n1.
       room_lines n1 text inp' [\<lparr>msg_type = LOGIN, msg_name = n1, msg_text = text\<rparr>]))"

subsection \<open>What the room is for\<close>

datatype room_event = Enter string | Say string string | Leave string

type_synonym room = "(nat \<times> string) list"

fun spec_event :: "room_event \<Rightarrow> nat \<Rightarrow> room \<Rightarrow> room \<times> (nat \<times> string) list" where
  "spec_event (Enter n) a r = (r @ [(a, n)], map (\<lambda>p. (fst p, n @ '' login'' @ [LF])) r)"
| "spec_event (Say n t) a r = (r, map (\<lambda>p. (fst p, n @ '' : '' @ t @ [LF])) (filter (\<lambda>p. snd p \<noteq> n) r))"
| "spec_event (Leave n) a r =
     (filter (\<lambda>p. snd p \<noteq> n) r, map (\<lambda>p. (fst p, n @ '' quit'' @ [LF])) (filter (\<lambda>p. snd p \<noteq> n) r))"

fun spec_room :: "(room_event \<times> nat) list \<Rightarrow> room \<Rightarrow> room \<times> (nat \<times> string) list list" where
  "spec_room [] r = (r, [])"
| "spec_room ((e, a) # es) r =
     (let (r1, out) = spec_event e a r; (r2, outs) = spec_room es r1 in (r2, out # outs))"

text \<open>A client list and datagrams of the server, as the room sees them.\<close>

definition str :: "char list \<Rightarrow> string" where
  "str b = (case cstr b 0 of Inl _ \<Rightarrow> [] | Inr s \<Rightarrow> s)"

definition room_ok :: "Client list \<Rightarrow> bool" where
  "room_ok cs \<longleftrightarrow> (\<forall>c \<in> set cs. is_ok (cstr (peer_name c) 0))"

definition abs_room :: "Client list \<Rightarrow> room" where
  "abs_room cs = map (\<lambda>c. (peer_addr c, str (peer_name c))) cs"

definition abs_out :: "datagrams \<Rightarrow> (nat \<times> string) list" where
  "abs_out ds = map (\<lambda>p. (fst p, str (msg_text (snd p)))) ds"

text \<open>A datagram as the client of the repository sends it, short enough for the buffers.\<close>

definition denotes :: "MSG \<Rightarrow> room_event \<Rightarrow> bool" where
  "denotes m e \<longleftrightarrow> length (msg_name m) = 32 \<and> length (msg_text m) = 1024
     \<and> is_ok (cstr (msg_name m) 0) \<and> is_ok (cstr (msg_text m) 0)
     \<and> (case e of
          Enter n \<Rightarrow> msg_type m = LOGIN \<and> n = str (msg_name m)
        | Say n t \<Rightarrow> msg_type m = CHAT \<and> n = str (msg_name m) \<and> t = str (msg_text m) \<and> length n + length t \<le> 1019
        | Leave n \<Rightarrow> msg_type m = QUIT \<and> n = str (msg_name m))"

subsection \<open>The server implements the room, but for leaving it\<close>

lemma str_cstr: "cstr b 0 = Inr s \<Longrightarrow> str b = s"
  by (simp add: str_def)

lemma is_ok_str: "is_ok (cstr b 0) \<Longrightarrow> cstr b 0 = Inr (str b) \<and> NUL \<notin> set (str b)"
  using cstr_no_nul[of b 0 "str b"] by (auto simp: is_ok_iff str_def)

lemma strcpy_str:
  assumes "NUL \<notin> set s" and "length s < length b"
  shows "\<exists>b'. strcpy b 0 s = Inr b' \<and> length b' = length b \<and> cstr b' 0 = Inr s"
proof -
  have "strcpy b 0 s = Inr ((s @ [NUL]) @ drop (Suc (length s)) b)" using assms(2) by (simp add: strcpy_def blit_ok)
  moreover have "cstr ((s @ [NUL]) @ drop (Suc (length s)) b) 0 = Inr s" using assms(1) by (auto simp: cstr_iff)
  ultimately show ?thesis using assms(2) by simp
qed

lemma send_others_spec:
  assumes "room_ok cs" and "cstr (msg_name m) 0 = Inr n"
  shows "\<exists>out. send_others m cs = Inr out
    \<and> out = map (\<lambda>p. (fst p, m)) (filter (\<lambda>p. snd p \<noteq> n) (abs_room cs))"
  using assms
proof (induction cs)
  case Nil
  then show ?case by (simp add: abs_room_def)
next
  case (Cons c cs)
  then have "cstr (peer_name c) 0 = Inr (str (peer_name c))" "room_ok cs"
    using is_ok_str by (auto simp: room_ok_def)
  then show ?case using Cons by (auto simp: abs_room_def)
qed

lemma abs_out_map: "abs_out (map (\<lambda>p. (fst p, m)) r) = map (\<lambda>p. (fst p, str (msg_text m))) r"
  by (simp add: abs_out_def)

lemma remove_if_other_spec:
  assumes "room_ok cs"
  shows "\<exists>cs'. remove_if_other n cs = Inr cs' \<and> room_ok cs' \<and> abs_room cs' = filter (\<lambda>p. snd p = n) (abs_room cs)"
  using assms
proof (induction cs)
  case Nil
  then show ?case by (simp add: abs_room_def room_ok_def)
next
  case (Cons c cs)
  then have "cstr (peer_name c) 0 = Inr (str (peer_name c))" "room_ok cs"
    using is_ok_str by (auto simp: room_ok_def)
  then show ?case using Cons by (auto simp: abs_room_def room_ok_def)
qed

lemma denotes_name:
  assumes "denotes m e"
  shows "cstr (msg_name m) 0 = Inr (str (msg_name m))" "NUL \<notin> set (str (msg_name m))" "length (str (msg_name m)) < 32"
    "cstr (msg_text m) 0 = Inr (str (msg_text m))" "NUL \<notin> set (str (msg_text m))"
proof -
  have ok: "is_ok (cstr (msg_name m) 0)" "is_ok (cstr (msg_text m) 0)" "length (msg_name m) = 32"
    using assms by (auto simp: denotes_def)
  note n = is_ok_str[OF ok(1)] is_ok_str[OF ok(2)]
  then show "cstr (msg_name m) 0 = Inr (str (msg_name m))" "NUL \<notin> set (str (msg_name m))"
    "cstr (msg_text m) 0 = Inr (str (msg_text m))" "NUL \<notin> set (str (msg_text m))" by simp_all
  show "length (str (msg_name m)) < 32" using cstr_bound[of "msg_name m" 0 "str (msg_name m)"] n ok(3) by simp
qed

lemma enter_implements:
  assumes "room_ok cs" and "denotes m (Enter n)"
  shows "\<exists>cs' out. on_message m a cs = Inr (cs', out) \<and> room_ok cs'
    \<and> spec_event (Enter n) a (abs_room cs) = (abs_room cs', abs_out out)"
proof -
  note d = denotes_name[OF assms(2)]
  have n: "n = str (msg_name m)" "msg_type m = LOGIN" "length (msg_text m) = 1024"
    using assms(2) by (auto simp: denotes_def)
  obtain t where t: "strcpy (msg_text m) 0 (n @ '' login'' @ [LF]) = Inr t" "cstr t 0 = Inr (n @ '' login'' @ [LF])"
    using strcpy_str[of "n @ '' login'' @ [LF]" "msg_text m"] d(2,3) n by auto
  obtain k where k: "strcpy (zeros 32) 0 n = Inr k" "cstr k 0 = Inr n"
    using strcpy_str[of n "zeros 32"] d(2,3) n(1) by auto
  have "on_message m a cs = Inr (cs @ [\<lparr>peer_addr = a, peer_name = k\<rparr>], send_all (m\<lparr>msg_text := t\<rparr>) cs)"
    using d(1,4) n(1,2) t(1) k(1) by (simp add: on_message_def do_login_def)
  moreover have "room_ok (cs @ [\<lparr>peer_addr = a, peer_name = k\<rparr>])" using assms(1) k(2) by (auto simp: room_ok_def)
  ultimately show ?thesis
    using str_cstr[OF k(2)] str_cstr[OF t(2)] by (simp add: abs_room_def abs_out_def send_all_def o_def)
qed

lemma say_implements:
  assumes "room_ok cs" and "denotes m (Say n t)"
  shows "\<exists>cs' out. on_message m a cs = Inr (cs', out) \<and> room_ok cs'
    \<and> spec_event (Say n t) a (abs_room cs) = (abs_room cs', abs_out out)"
proof -
  note d = denotes_name[OF assms(2)]
  let ?s = "n @ '' : '' @ t @ [LF]"
  have n: "n = str (msg_name m)" "t = str (msg_text m)" "msg_type m = CHAT" "length n + length t \<le> 1019"
    "length (msg_text m) = 1024"
    using assms(2) by (auto simp: denotes_def)
  have s: "NUL \<notin> set ?s" "length ?s < 1024" using d n by auto
  obtain buf where buf: "strcpy (zeros 1024) 0 ?s = Inr buf" "cstr buf 0 = Inr ?s"
    using strcpy_str[OF s(1), of "zeros 1024"] s(2) by auto
  obtain t' where t': "strcpy (msg_text m) 0 ?s = Inr t'" "cstr t' 0 = Inr ?s"
    using strcpy_str[OF s(1), of "msg_text m"] s(2) n(5) by auto
  let ?m = "m\<lparr>msg_text := t'\<rparr>"
  have "cstr (msg_name ?m) 0 = Inr n" using d(1) n(1) by simp
  then obtain out where out: "send_others ?m cs = Inr out"
    "out = map (\<lambda>p. (fst p, ?m)) (filter (\<lambda>p. snd p \<noteq> n) (abs_room cs))"
    using send_others_spec[OF assms(1)] by blast
  have "on_message m a cs = Inr (cs, out)"
    using d(1,4) n buf t'(1) out(1) by (simp add: on_message_def do_chat_def LOGIN_def CHAT_def)
  then show ?thesis using assms(1) str_cstr[OF t'(2)] unfolding out(2) by (simp add: abs_out_map)
qed

text \<open>
  C5. The server implements the room as long as nobody leaves it. For every sequence of datagrams of
  logins and of messages whose name and text together have at most 1019 characters, the server
  returns, its list is the room of those who have logged in, in order, and each datagram is
  forwarded with the right text to exactly those the room says: a login to all who were there
  before, a message to all with another name.
\<close>

theorem room_refines:
  assumes "room_ok cs" and "length ms = length es" and "\<forall>i < length ms. denotes (fst (ms ! i)) (fst (es ! i))"
    and "map snd ms = map snd es" and "\<forall>(e, a) \<in> set es. \<forall>n. e \<noteq> Leave n"
  shows "\<exists>cs' outs. room_run ms cs = Inr (cs', outs) \<and> room_ok cs'
    \<and> spec_room es (abs_room cs) = (abs_room cs', map abs_out outs)"
  using assms
proof (induction ms arbitrary: cs es)
  case Nil
  then show ?case by simp
next
  case (Cons p ms)
  obtain m a e es' where s: "p = (m, a)" "es = (e, a) # es'"
    using Cons.prems(2,4) by (cases p; cases es) auto
  have d: "denotes m e" using Cons.prems(3) s by force
  have rest: "length ms = length es'" "\<forall>i < length ms. denotes (fst (ms ! i)) (fst (es' ! i))"
    "map snd ms = map snd es'" "\<forall>(e, a) \<in> set es'. \<forall>n. e \<noteq> Leave n"
    using Cons.prems(2-5) s by (auto 0 3)
  have "\<exists>cs1 out. on_message m a cs = Inr (cs1, out) \<and> room_ok cs1
    \<and> spec_event e a (abs_room cs) = (abs_room cs1, abs_out out)"
  proof (cases e)
    case (Enter n)
    then show ?thesis using enter_implements[OF Cons.prems(1)] d by blast
  next
    case (Say n t)
    then show ?thesis using say_implements[OF Cons.prems(1)] d by blast
  next
    case (Leave n)
    then show ?thesis using Cons.prems(5) s by auto
  qed
  then obtain cs1 out where one: "on_message m a cs = Inr (cs1, out)" "room_ok cs1"
    "spec_event e a (abs_room cs) = (abs_room cs1, abs_out out)" by blast
  obtain cs' outs where "room_run ms cs1 = Inr (cs', outs)" "room_ok cs'"
    "spec_room es' (abs_room cs1) = (abs_room cs', map abs_out outs)"
    using Cons.IH[OF one(2) rest] by blast
  then show ?case using one s by simp
qed

text \<open>
  Leaving the room removes everyone else. A quit message is forwarded to all with another name,
  as it should be, but the clients that stay in the list afterwards are exactly those with the name
  of the one that left.
\<close>

theorem quit_removes_the_others:
  assumes "room_ok cs" and "denotes m (Leave n)"
  shows "\<exists>cs' out. on_message m a cs = Inr (cs', out)
    \<and> abs_out out = snd (spec_event (Leave n) a (abs_room cs))
    \<and> abs_room cs' = filter (\<lambda>p. snd p = n) (abs_room cs)
    \<and> set (abs_room cs') \<inter> set (fst (spec_event (Leave n) a (abs_room cs))) = {}"
proof -
  note d = denotes_name[OF assms(2)]
  have n: "n = str (msg_name m)" "msg_type m = QUIT" "length (msg_text m) = 1024"
    using assms(2) by (auto simp: denotes_def)
  obtain t where t: "strcpy (msg_text m) 0 (n @ '' quit'' @ [LF]) = Inr t" "cstr t 0 = Inr (n @ '' quit'' @ [LF])"
    using strcpy_str[of "n @ '' quit'' @ [LF]" "msg_text m"] d(2,3) n by auto
  let ?m = "m\<lparr>msg_text := t\<rparr>"
  have "cstr (msg_name ?m) 0 = Inr n" using d(1) n(1) by simp
  then obtain out where out: "send_others ?m cs = Inr out"
    "out = map (\<lambda>p. (fst p, ?m)) (filter (\<lambda>p. snd p \<noteq> n) (abs_room cs))"
    using send_others_spec[OF assms(1)] by blast
  obtain cs' where cs': "remove_if_other n cs = Inr cs'" "abs_room cs' = filter (\<lambda>p. snd p = n) (abs_room cs)"
    using remove_if_other_spec[OF assms(1)] by blast
  have "on_message m a cs = Inr (cs', out)"
    using d(1,4) n t(1) out(1) cs'(1) by (simp add: on_message_def do_quit_def LOGIN_def CHAT_def QUIT_def)
  then show ?thesis using cs'(2) str_cstr[OF t(2)] unfolding out(2) by (auto simp: abs_out_map)
qed

text \<open>
  A chat message whose name and text have 1020 characters or more together overflows the buffer
  in which the server composes the text.
\<close>

theorem chat_overflow:
  assumes "cstr (msg_name m) 0 = Inr n" and "cstr (msg_text m) 0 = Inr t" and "msg_type m = CHAT"
    and "1020 \<le> length n + length t"
  shows "on_message m a cs = Inl (Bad_Store 1024)"
  using assms by (simp add: on_message_def do_chat_def LOGIN_def CHAT_def strcpy_def blit_def)

definition demo_msg :: "int \<Rightarrow> string \<Rightarrow> string \<Rightarrow> MSG" where
  "demo_msg k n t = \<lparr>msg_type = k, msg_name = n @ zeros (32 - length n), msg_text = t @ zeros (1024 - length t)\<rparr>"

lemma cstr_padded: "NUL \<notin> set s \<Longrightarrow> 0 < k \<Longrightarrow> cstr (s @ zeros k) 0 = Inr s"
  by (cases k) (auto simp: cstr_iff)

lemma demo_msg_denotes:
  assumes "NUL \<notin> set n" and "NUL \<notin> set t" and "length n < 32" and "length t < 900"
  shows "denotes (demo_msg LOGIN n t) (Enter n)" and "denotes (demo_msg CHAT n t) (Say n t)"
    and "denotes (demo_msg QUIT n t) (Leave n)"
  using assms cstr_padded[of n "32 - length n"] cstr_padded[of t "1024 - length t"]
  by (simp_all add: denotes_def demo_msg_def str_def)

theorem room_refines_witness:
  "\<exists>cs outs. room_run [(demo_msg LOGIN ''ann'' '''', 1), (demo_msg LOGIN ''bob'' '''', 2), (demo_msg CHAT ''bob'' ''hi'', 2)] []
      = Inr (cs, outs) \<and> abs_room cs = [(1, ''ann''), (2, ''bob'')]
    \<and> map abs_out outs = [[], [(1, ''bob login'' @ [LF])], [(1, ''bob : hi'' @ [LF])]]"
proof -
  let ?ms = "[(demo_msg LOGIN ''ann'' '''', 1), (demo_msg LOGIN ''bob'' '''', 2), (demo_msg CHAT ''bob'' ''hi'', 2)]"
  let ?es = "[(Enter ''ann'', 1), (Enter ''bob'', 2), (Say ''bob'' ''hi'', 2)]"
  have d: "\<forall>i < length ?ms. denotes (fst (?ms ! i)) (fst (?es ! i))"
    using demo_msg_denotes[of "''ann''" "[]"] demo_msg_denotes[of "''bob''" "[]"] demo_msg_denotes[of "''bob''" "''hi''"]
    by (auto simp: less_Suc_eq_0_disj)
  have e: "abs_room [] = []" "room_ok []" by (simp_all add: abs_room_def room_ok_def)
  obtain cs outs where r: "room_run ?ms [] = Inr (cs, outs)" "spec_room ?es [] = (abs_room cs, map abs_out outs)"
    using room_refines[OF e(2) _ d] unfolding e(1) by auto
  have "spec_room ?es [] = ([(1, ''ann''), (2, ''bob'')], [[], [(1, ''bob login'' @ [LF])], [(1, ''bob : hi'' @ [LF])]])"
    by simp
  then show ?thesis using r by (intro exI[of _ cs] exI[of _ outs]) simp
qed

theorem quit_removes_the_others_witness:
  "\<exists>cs' out. on_message (demo_msg QUIT ''bob'' '''') 2
     [\<lparr>peer_addr = 1, peer_name = ''ann'' @ zeros 29\<rparr>, \<lparr>peer_addr = 2, peer_name = ''bob'' @ zeros 29\<rparr>] = Inr (cs', out)
     \<and> abs_room cs' = [(2, ''bob'')]"
proof -
  have "denotes (demo_msg QUIT ''bob'' '''') (Leave ''bob'')" using demo_msg_denotes(3)[of "''bob''" "[]"] by simp
  moreover have "cstr (''ann'' @ zeros 29) 0 = Inr ''ann''" "cstr (''bob'' @ zeros 29) 0 = Inr ''bob''"
    by (rule cstr_padded; simp)+
  ultimately show ?thesis
    using quit_removes_the_others[of "[\<lparr>peer_addr = 1, peer_name = ''ann'' @ zeros 29\<rparr>, \<lparr>peer_addr = 2, peer_name = ''bob'' @ zeros 29\<rparr>]"
        "demo_msg QUIT ''bob'' ''''" "''bob''" 2]
    by (auto simp: room_ok_def abs_room_def str_def)
qed

theorem chat_overflow_witness:
  "on_message (demo_msg CHAT ''ann'' (replicate 1020 CHR ''x'')) 1 [] = Inl (Bad_Store 1024)"
proof (rule chat_overflow)
  show "cstr (msg_name (demo_msg CHAT ''ann'' (replicate 1020 CHR ''x''))) 0 = Inr ''ann''"
    unfolding demo_msg_def MSG.simps by (rule cstr_padded) simp_all
  show "cstr (msg_text (demo_msg CHAT ''ann'' (replicate 1020 CHR ''x''))) 0 = Inr (replicate 1020 CHR ''x'')"
    unfolding demo_msg_def MSG.simps by (rule cstr_padded) simp_all
qed (simp_all add: demo_msg_def)

subsection \<open>The client's messages\<close>

definition chat_line :: "string \<Rightarrow> bool" where
  "chat_line l \<longleftrightarrow> LF \<notin> set l \<and> NUL \<notin> set l \<and> length l \<le> 1022"

lemma line_read:
  assumes "LF \<notin> set l" and "NUL \<notin> set l" and "length l + 2 \<le> length b"
  shows "\<exists>b0 b1. fgets b (length b) (l @ LF # rest) = Inr (b0, rest) \<and> chop_newline b0 = Inr b1
    \<and> length b1 = length b \<and> cstr b1 0 = Inr l"
proof -
  obtain b0 where b0: "fgets b (length b) (l @ LF # rest) = Inr (b0, rest)" "length b0 = length b"
    "cstr b0 0 = Inr (l @ [LF])"
    using fgets_line[OF assms] by auto
  then show ?thesis using chop_newline_line[OF b0(3)] by auto
qed

lemma room_lines_spec:
  assumes "length tx = 1024" and "\<forall>l \<in> set ls. chat_line l \<and> \<not> prefix ''quit'' l" and "chat_line q" and "prefix ''quit'' q"
  shows "\<exists>ms. room_lines name tx (concat (map (\<lambda>l. l @ [LF]) ls) @ q @ LF # rest) sent = Inr (sent @ ms)
    \<and> map msg_type ms = replicate (length ls) CHAT @ [QUIT] \<and> (\<forall>m \<in> set ms. msg_name m = name)
    \<and> map (\<lambda>m. str (msg_text m)) ms = ls @ [q]"
  using assms
proof (induction ls arbitrary: tx sent)
  case Nil
  obtain t0 t1 where t: "fgets tx 1024 (q @ LF # rest) = Inr (t0, rest)" "chop_newline t0 = Inr t1" "cstr t1 0 = Inr q"
    using line_read[of q tx rest] Nil by (auto simp: chat_line_def)
  have "take 4 q = ''quit''" using Nil(4) by (auto simp: prefix_def)
  then have "strneq t1 0 ''quit'' = Inr True" using t(3) by (simp add: strneq_def eval_nat_numeral)
  then have r: "room_lines name tx (q @ LF # rest) sent
      = Inr (sent @ [\<lparr>msg_type = QUIT, msg_name = name, msg_text = t1\<rparr>])"
    using t(1,2) by (subst room_lines.simps) simp
  show ?case
    by (intro exI[of _ "[\<lparr>msg_type = QUIT, msg_name = name, msg_text = t1\<rparr>]"])
       (use r str_cstr[OF t(3)] in simp)
next
  case (Cons l ls)
  let ?rest = "concat (map (\<lambda>l. l @ [LF]) ls) @ q @ LF # rest"
  have l: "LF \<notin> set l" "NUL \<notin> set l" "length l + 2 \<le> length tx" "\<not> prefix ''quit'' l"
    using Cons.prems(1,2) by (auto simp: chat_line_def)
  obtain t0 t1 where t: "fgets tx 1024 (l @ LF # ?rest) = Inr (t0, ?rest)" "chop_newline t0 = Inr t1"
    "length t1 = 1024" "cstr t1 0 = Inr l"
    using line_read[OF l(1-3), of ?rest] Cons.prems(1) by auto
  have "take 4 l \<noteq> ''quit''" using l(4) by (metis append_take_drop_id prefixI)
  then have q: "strneq t1 0 ''quit'' = Inr False" using t(4) by (simp add: strneq_def eval_nat_numeral)
  let ?m = "\<lparr>msg_type = CHAT, msg_name = name, msg_text = t1\<rparr>"
  have step: "room_lines name tx (concat (map (\<lambda>l. l @ [LF]) (l # ls)) @ q @ LF # rest) sent
      = room_lines name t1 ?rest (sent @ [?m])"
    using t(1,2) q by (subst room_lines.simps) simp
  obtain ms where ms: "room_lines name t1 ?rest (sent @ [?m]) = Inr ((sent @ [?m]) @ ms)"
    "map msg_type ms = replicate (length ls) CHAT @ [QUIT]" "\<forall>m \<in> set ms. msg_name m = name"
    "map (\<lambda>m. str (msg_text m)) ms = ls @ [q]"
    using Cons.IH[OF t(3), of "sent @ [?m]"] Cons.prems by auto
  then show ?case unfolding step by (intro exI[of _ "?m # ms"]) (use ms str_cstr[OF t(4)] in simp)
qed

text \<open>
  What a user types reaches the room: for a name of at most 30 characters, lines of at most 1022
  that do not begin with \<open>quit\<close>, and a line that does, the client sends a login, one chat message
  for every line with exactly its tx, and a quit message, all under the name.
\<close>

theorem room_client_messages:
  assumes "length name = 32" and "length tx = 1024" and "LF \<notin> set n" and "NUL \<notin> set n" and "length n \<le> 30"
    and "\<forall>l \<in> set ls. chat_line l \<and> \<not> prefix ''quit'' l" and "chat_line q" and "prefix ''quit'' q"
  shows "\<exists>ms. room_client name tx (n @ LF # concat (map (\<lambda>l. l @ [LF]) ls) @ q @ LF # rest) = Inr ms
    \<and> map msg_type ms = LOGIN # replicate (length ls) CHAT @ [QUIT]
    \<and> (\<forall>m \<in> set ms. str (msg_name m) = n)
    \<and> map (\<lambda>m. str (msg_text m)) (tl ms) = ls @ [q]"
proof -
  let ?rest = "concat (map (\<lambda>l. l @ [LF]) ls) @ q @ LF # rest"
  have "length n + 2 \<le> length name" using assms(1,5) by simp
  from line_read[OF assms(3,4) this, of ?rest]
  obtain n0 n1 where n1: "fgets name 32 (n @ LF # ?rest) = Inr (n0, ?rest)" "chop_newline n0 = Inr n1" "cstr n1 0 = Inr n"
    using assms(1) by auto
  let ?m = "\<lparr>msg_type = LOGIN, msg_name = n1, msg_text = tx\<rparr>"
  obtain ms where ms: "room_lines n1 tx ?rest [?m] = Inr ([?m] @ ms)"
    "map msg_type ms = replicate (length ls) CHAT @ [QUIT]" "\<forall>m \<in> set ms. msg_name m = n1"
    "map (\<lambda>m. str (msg_text m)) ms = ls @ [q]"
    using room_lines_spec[OF assms(2,6-8), of n1 rest "[?m]"] by blast
  have "room_client name tx (n @ LF # ?rest) = Inr (?m # ms)"
    using n1(1,2) ms(1) by (simp add: room_client_def)
  then show ?thesis using ms(2-4) str_cstr[OF n1(3)] by (intro exI[of _ "?m # ms"]) auto
qed

theorem room_client_messages_witness:
  "\<exists>ms. room_client (zeros 32) (zeros 1024) (''ann'' @ LF # ''hello'' @ LF # ''quit'' @ [LF]) = Inr ms
    \<and> map msg_type ms = [LOGIN, CHAT, QUIT]"
  using room_client_messages[of "zeros 32" "zeros 1024" "''ann''" "[''hello'']" "''quit''" "[]"]
  by (auto simp: chat_line_def)

end
