(* ===== verification/Cgi_Conn.thy ===== *)
theory Cgi_Conn
  imports C_Io
begin

text \<open>
  Class \<open>cgi_conn\<close> of 85\_process\_pool\_thread\_pool/cgi\_conn.h: a connection that reads the name of a
  program up to the first CRLF and runs it with the socket as its output.
\<close>

subsection \<open>The class\<close>

definition BUFFER_SIZE :: nat where "BUFFER_SIZE = 1024"

record cgi_conn =
  cgi_fd :: int
  cgi_buf :: "char list"
  cgi_idx :: nat

definition remove_fd :: "int \<Rightarrow> sys_call list" where
  "remove_fd fd = [Epoll_Del fd, Close fd]"

definition cgi_init :: "int \<Rightarrow> cgi_conn \<Rightarrow> cgi_conn" where
  "cgi_init fd c = c\<lparr>cgi_fd := fd, cgi_buf := replicate BUFFER_SIZE NUL, cgi_idx := 0\<rparr>"

text \<open>The search for CRLF from \<open>i\<close> on; \<open>n\<close> when there is none among the first \<open>n\<close> bytes.\<close>

function scan_crlf :: "char list \<Rightarrow> nat \<Rightarrow> nat \<Rightarrow> nat" where
  "scan_crlf b i n =
     (if i < n then (if 1 \<le> i \<and> b ! (i - 1) = CR \<and> b ! i = LF then i else scan_crlf b (Suc i) n) else i)"
  by pat_completeness auto
termination
  by (relation "measure (\<lambda>(b, i, n). n - i)") auto

declare scan_crlf.simps [simp del]

text \<open>
  \<open>access\<close> is the test for the program, \<open>forked\<close> what \<open>fork\<close> returns in the parent. The parent
  closes the connection; a child executes the program named by the buffer.
\<close>

definition cgi_run :: "(string \<Rightarrow> bool) \<Rightarrow> int \<Rightarrow> nat \<Rightarrow> cgi_conn \<Rightarrow> (cgi_conn \<times> sys_call list) result" where
  "cgi_run access forked i c =
     bindR (store (cgi_buf c) (int i - 1) NUL) (\<lambda>b. bindR (cstr b 0) (\<lambda>f.
       Inr (c\<lparr>cgi_buf := b\<rparr>,
            if \<not> access f then remove_fd (cgi_fd c)
            else if forked = -1 then remove_fd (cgi_fd c)
            else Exec f # remove_fd (cgi_fd c))))"

function cgi_process :: "(string \<Rightarrow> bool) \<Rightarrow> int \<Rightarrow> recv_event list \<Rightarrow> cgi_conn
    \<Rightarrow> (cgi_conn \<times> recv_event list \<times> sys_call list) result"
where
  "cgi_process access forked es c =
     (case recv (BUFFER_SIZE - 1 - cgi_idx c) es of
        (Failed e, es') \<Rightarrow> Inr (c, es', if e \<noteq> EAGAIN then remove_fd (cgi_fd c) else [])
      | (Closed, es') \<Rightarrow> Inr (c, es', remove_fd (cgi_fd c))
      | (Bytes d, es') \<Rightarrow>
          bindR (blit (cgi_buf c) (cgi_idx c) d) (\<lambda>b. bindR (cstr b 0) (\<lambda>_.
            if scan_crlf b (cgi_idx c) (cgi_idx c + length d) = cgi_idx c + length d
            then cgi_process access forked es' (c\<lparr>cgi_buf := b, cgi_idx := cgi_idx c + length d\<rparr>)
            else bindR (cgi_run access forked (scan_crlf b (cgi_idx c) (cgi_idx c + length d))
                          (c\<lparr>cgi_buf := b, cgi_idx := cgi_idx c + length d\<rparr>)) (\<lambda>(c', k). Inr (c', es', k)))))"
  by pat_completeness auto
termination
  by (relation "measure (\<lambda>(access, forked, es, c). script_size es)") (auto dest!: recv_Bytes_size[OF sym])

declare cgi_process.simps [simp del]

subsection \<open>The search\<close>

text \<open>The places where a CRLF ends.\<close>

definition crlf_at :: "char list \<Rightarrow> nat \<Rightarrow> bool" where
  "crlf_at b k \<longleftrightarrow> 1 \<le> k \<and> b ! (k - 1) = CR \<and> b ! k = LF"

lemma scan_crlf_none: "i \<le> n \<Longrightarrow> (\<And>k. i \<le> k \<Longrightarrow> k < n \<Longrightarrow> \<not> crlf_at b k) \<Longrightarrow> scan_crlf b i n = n"
proof (induction "n - i" arbitrary: i)
  case 0
  then show ?case by (subst scan_crlf.simps) simp
next
  case (Suc m)
  have "\<not> crlf_at b i" using Suc.prems Suc.hyps(2) by simp
  then have "scan_crlf b i n = scan_crlf b (Suc i) n"
    using Suc.hyps(2) by (subst scan_crlf.simps) (auto simp: crlf_at_def)
  then show ?case using Suc.hyps(1)[of "Suc i"] Suc.hyps(2) Suc.prems by simp
qed

lemma scan_crlf_first:
  "i \<le> m \<Longrightarrow> m < n \<Longrightarrow> crlf_at b m \<Longrightarrow> (\<And>k. i \<le> k \<Longrightarrow> k < m \<Longrightarrow> \<not> crlf_at b k) \<Longrightarrow> scan_crlf b i n = m"
proof (induction "m - i" arbitrary: i)
  case 0
  then show ?case by (subst scan_crlf.simps) (auto simp: crlf_at_def)
next
  case (Suc j)
  have "\<not> crlf_at b i" using Suc.prems Suc.hyps(2) by simp
  then have "scan_crlf b i n = scan_crlf b (Suc i) n"
    using Suc.hyps(2) Suc.prems(2) by (subst scan_crlf.simps) (auto simp: crlf_at_def)
  then show ?case using Suc.hyps(1)[of "Suc i"] Suc.hyps(2) Suc.prems by simp
qed

lemma scan_crlf_bound: "scan_crlf b i n \<noteq> n \<Longrightarrow> i \<le> n \<Longrightarrow> \<exists>j. scan_crlf b i n = Suc j \<and> Suc j < n"
proof (induction "n - i" arbitrary: i)
  case 0
  then show ?case by (subst (asm) scan_crlf.simps) simp
next
  case (Suc m)
  show ?case
  proof (cases "1 \<le> i \<and> b ! (i - 1) = CR \<and> b ! i = LF")
    case True
    then show ?thesis using Suc.hyps(2) by (subst scan_crlf.simps) (auto intro!: exI[of _ "i - 1"])
  next
    case False
    then have "scan_crlf b i n = scan_crlf b (Suc i) n" using Suc.hyps(2) by (subst scan_crlf.simps) auto
    then show ?thesis using Suc.hyps(1)[of "Suc i"] Suc.hyps(2) Suc.prems by simp
  qed
qed

lemma find_sub_CRLF:
  "case find_sub CRLF s of
     None \<Rightarrow> (\<forall>k < length s. \<not> crlf_at s k)
   | Some j \<Rightarrow> Suc j < length s \<and> crlf_at s (Suc j) \<and> (\<forall>k \<le> j. \<not> crlf_at s k)"
proof (induction s)
  case Nil
  then show ?case by simp
next
  case (Cons c s)
  have p: "prefix CRLF (c # s) \<longleftrightarrow> c = CR \<and> s \<noteq> [] \<and> s ! 0 = LF" by (cases s) (auto simp: prefix_def)
  have e: "crlf_at (c # s) (Suc k) \<longleftrightarrow> (if k = 0 then c = CR \<and> s ! 0 = LF else crlf_at s k)" for k
    by (cases k) (simp_all add: crlf_at_def)
  have z: "\<not> crlf_at t 0" for t by (simp add: crlf_at_def)
  show ?case
  proof (cases "prefix CRLF (c # s)")
    case True
    then show ?thesis using p e[of 0] z by (cases s) auto
  next
    case False
    show ?thesis
    proof (cases "find_sub CRLF s")
      case None
      then have n: "\<forall>k < length s. \<not> crlf_at s k" using Cons by simp
      have "\<not> crlf_at (c # s) k" if "k < length (c # s)" for k
        using n that False p e[of "k - 1"] z by (cases k) (auto split: if_splits)
      then show ?thesis using None False by auto
    next
      case (Some j)
      then have n: "Suc j < length s" "crlf_at s (Suc j)" "\<forall>k \<le> j. \<not> crlf_at s k" using Cons by simp_all
      have "\<not> crlf_at (c # s) k" if "k \<le> Suc j" for k
        using n that False p e[of "k - 1"] z by (cases k) (auto split: if_splits)
      then show ?thesis using Some False n(1,2) e[of "Suc j"] by auto
    qed
  qed
qed

lemma crlf_at_take: "k < n \<Longrightarrow> crlf_at (take n b) k \<longleftrightarrow> crlf_at b k"
  by (auto simp: crlf_at_def)

text \<open>What was received has no CRLF up to here; then the search finds the first one of all.\<close>

lemma scan_crlf_find:
  assumes "find_sub CRLF (take i b) = None" and "i \<le> n" and "n \<le> length b"
  shows "scan_crlf b i n = (case find_sub CRLF (take n b) of None \<Rightarrow> n | Some k \<Rightarrow> Suc k)"
proof -
  have old: "\<not> crlf_at b k" if "k < i" for k
    using find_sub_CRLF[of "take i b"] assms that crlf_at_take[of k i b] by simp
  show ?thesis
  proof (cases "find_sub CRLF (take n b)")
    case None
    have "\<not> crlf_at b k" if "k < n" for k
      using find_sub_CRLF[of "take n b"] None assms(3) that crlf_at_take[of k n b] by simp
    then show ?thesis using None assms(2) by (simp add: scan_crlf_none)
  next
    case (Some j)
    have "Suc j < length (take n b) \<and> crlf_at (take n b) (Suc j) \<and> (\<forall>k \<le> j. \<not> crlf_at (take n b) k)"
      using find_sub_CRLF[of "take n b"] unfolding Some by simp
    then have j: "Suc j < n" "crlf_at b (Suc j)" "\<forall>k \<le> j. \<not> crlf_at b k"
      using assms(3) crlf_at_take[of _ n b] by auto
    have "i \<le> Suc j" using old j(2) by (meson not_less)
    then show ?thesis using Some j by (simp add: scan_crlf_first[of i "Suc j"] less_Suc_eq_le)
  qed
qed

subsection \<open>A request\<close>

text \<open>
  The object between two calls of \<open>process\<close>: the bytes received so far, fewer than 1024 and with no
  CRLF among them, and NULs behind them.
\<close>

definition cgi_inv :: "cgi_conn \<Rightarrow> bool" where
  "cgi_inv c \<longleftrightarrow> length (cgi_buf c) = BUFFER_SIZE \<and> cgi_idx c < BUFFER_SIZE
     \<and> (\<forall>k. cgi_idx c \<le> k \<longrightarrow> k < BUFFER_SIZE \<longrightarrow> cgi_buf c ! k = NUL)"

definition received :: "cgi_conn \<Rightarrow> string" where
  "received c = take (cgi_idx c) (cgi_buf c)"

lemma cgi_init_inv [simp]: "cgi_inv (cgi_init fd c)" "received (cgi_init fd c) = []" "cgi_fd (cgi_init fd c) = fd"
  by (simp_all add: cgi_inv_def cgi_init_def received_def BUFFER_SIZE_def)

lemma cgi_inv_str: "cgi_inv c \<Longrightarrow> cstr (cgi_buf c) 0 = Inr (takeWhile (\<lambda>x. x \<noteq> NUL) (received c))"
proof -
  assume c: "cgi_inv c"
  then have "cgi_buf c = received c @ drop (cgi_idx c) (cgi_buf c)" by (simp add: received_def)
  moreover have "drop (cgi_idx c) (cgi_buf c) = NUL # drop (Suc (cgi_idx c)) (cgi_buf c)"
    using c by (subst Cons_nth_drop_Suc[symmetric]) (auto simp: cgi_inv_def)
  ultimately have "drop 0 (cgi_buf c) = received c @ NUL # drop (Suc (cgi_idx c)) (cgi_buf c)" by simp
  then show ?thesis by (rule cstr_of_drop)
qed

text \<open>A piece that arrives is put behind the others.\<close>

lemma cgi_receive:
  assumes "cgi_inv c" and "length d \<le> BUFFER_SIZE - 1 - cgi_idx c" and "blit (cgi_buf c) (cgi_idx c) d = Inr b"
  defines "c' \<equiv> c\<lparr>cgi_buf := b, cgi_idx := cgi_idx c + length d\<rparr>"
  shows "cgi_inv c'" and "received c' = received c @ d" and "take (cgi_idx c) b = received c"
    and "cgi_idx c + length d < length b"
proof -
  have c: "length (cgi_buf c) = BUFFER_SIZE" "cgi_idx c < BUFFER_SIZE"
    "\<forall>k. cgi_idx c \<le> k \<longrightarrow> k < BUFFER_SIZE \<longrightarrow> cgi_buf c ! k = NUL" using assms(1) by (auto simp: cgi_inv_def)
  have b: "b = take (cgi_idx c) (cgi_buf c) @ d @ drop (cgi_idx c + length d) (cgi_buf c)"
    using assms(3) by (auto simp: blit_def split: if_splits)
  have len: "length b = BUFFER_SIZE" using length_blit[OF assms(3)] c(1) by simp
  have n: "cgi_idx c + length d < BUFFER_SIZE" using assms(2) c(2) by simp
  then show "cgi_idx c + length d < length b" using len by simp
  have tail: "b ! k = NUL" if "cgi_idx c + length d \<le> k" "k < BUFFER_SIZE" for k
  proof -
    have "\<not> k - cgi_idx c < length d" "cgi_idx c \<le> k" using that(1) by linarith+
    then show ?thesis using that c unfolding b by (simp add: nth_append)
  qed
  then show "cgi_inv c'" using len n by (simp add: cgi_inv_def c'_def)
  show "received c' = received c @ d" using c n unfolding c'_def received_def by (simp add: b)
  show "take (cgi_idx c) b = received c" using c unfolding received_def b by simp
qed

lemma cgi_init_buffer_nonneg: "cgi_inv c \<Longrightarrow> length (received c) = cgi_idx c"
  by (auto simp: cgi_inv_def received_def)

text \<open>What is run when the first CRLF is at \<open>k\<close>.\<close>

lemma cgi_run_spec:
  assumes "cgi_inv c" and "find_sub CRLF (received c) = Some k"
  shows "\<exists>c'. cgi_run access forked (Suc k) c = Inr (c',
     let f = takeWhile (\<lambda>x. x \<noteq> NUL) (take k (received c))
     in (if access f \<and> forked \<noteq> -1 then [Exec f] else []) @ remove_fd (cgi_fd c))"
proof -
  have k: "Suc k < length (received c)"
    using find_sub_CRLF[of "received c"] assms(2) by simp
  let ?b = "(cgi_buf c)[k := NUL]"
  have len: "k < length (cgi_buf c)" "k < cgi_idx c" using k assms(1) by (auto simp: received_def)
  have "drop 0 ?b = take k (cgi_buf c) @ NUL # drop (Suc k) (cgi_buf c)"
    using len by (simp add: upd_conv_take_nth_drop)
  moreover have "take k (cgi_buf c) = take k (received c)" using len by (simp add: received_def min_def)
  ultimately have "cstr ?b 0 = Inr (takeWhile (\<lambda>x. x \<noteq> NUL) (take k (received c)))"
    using cstr_of_drop[of 0 ?b "take k (received c)"] by simp
  then show ?thesis using len(1) by (auto simp: cgi_run_def Let_def)
qed

text \<open>
  C30. However the bytes of a request are cut into segments, also between CR and LF, \<open>process\<close>
  executes the program that is named by the bytes before the first CRLF, if it exists, and closes
  the connection; the CRLF has to be among the first 1023 bytes.
\<close>

theorem cgi_process_request:
  assumes "cgi_inv c" and "find_sub CRLF (received c) = None"
    and "find_sub CRLF (received c @ concat ds) = Some k" and "k + 2 \<le> 1023"
  shows "\<exists>c' es. cgi_process access forked (map Data ds) c = Inr (c', es,
     let f = takeWhile (\<lambda>x. x \<noteq> NUL) (take k (received c @ concat ds))
     in (if access f \<and> forked \<noteq> -1 then [Exec f] else []) @ remove_fd (cgi_fd c))"
  using assms
proof (induction "script_size (map Data ds)" arbitrary: ds c rule: less_induct)
  case less
  have total: "Suc k < length (received c @ concat ds)"
    using find_sub_CRLF[of "received c @ concat ds"] less.prems(3) by simp
  have idx: "length (received c) = cgi_idx c" by (rule cgi_init_buffer_nonneg[OF less.prems(1)])
  have "cgi_idx c < 1023"
  proof (rule ccontr)
    assume "\<not> cgi_idx c < 1023"
    then have "Suc k < length (received c)" using less.prems(4) idx by simp
    moreover have "crlf_at (received c @ concat ds) (Suc k)"
      using find_sub_CRLF[of "received c @ concat ds"] less.prems(3) by simp
    ultimately have "crlf_at (received c) (Suc k)" by (simp add: crlf_at_def nth_append)
    then show False using find_sub_CRLF[of "received c"] less.prems(2) \<open>Suc k < length (received c)\<close> by simp
  qed
  then have room: "0 < BUFFER_SIZE - 1 - cgi_idx c" by (simp add: BUFFER_SIZE_def)
  have "concat ds \<noteq> []"
  proof
    assume e: "concat ds = []"
    show False using less.prems(2,3) unfolding e by simp
  qed
  then obtain d es' where r: "recv (BUFFER_SIZE - 1 - cgi_idx c) (map Data ds) = (Bytes d, es')"
    and d: "length d \<le> BUFFER_SIZE - 1 - cgi_idx c" "d \<noteq> []"
    and es': "\<exists>ds'. es' = map Data ds' \<and> concat ds = d @ concat ds'"
    using recv_map_Data[OF room] by blast
  obtain ds' where ds': "es' = map Data ds'" "concat ds = d @ concat ds'" using es' by blast
  have "cgi_idx c + length d \<le> length (cgi_buf c)" using d(1) less.prems(1) by (auto simp: cgi_inv_def)
  then obtain b where b: "blit (cgi_buf c) (cgi_idx c) d = Inr b" by (simp add: blit_def)
  let ?c = "c\<lparr>cgi_buf := b, cgi_idx := cgi_idx c + length d\<rparr>"
  note rec = cgi_receive[OF less.prems(1) d(1) b]
  have str: "is_ok (cstr b 0)" using cgi_inv_str[OF rec(1)] by simp
  have rd: "take (cgi_idx c + length d) b = received c @ d" using rec(2) by (simp add: received_def)
  have scan: "scan_crlf b (cgi_idx c) (cgi_idx c + length d)
      = (case find_sub CRLF (received c @ d) of None \<Rightarrow> cgi_idx c + length d | Some k \<Rightarrow> Suc k)"
    using scan_crlf_find[of "cgi_idx c" b "cgi_idx c + length d"] rec(3,4) less.prems(2) rd by simp
  show ?case
  proof (cases "find_sub CRLF (received c @ d)")
    case None
    have "cgi_process access forked (map Data ds) c = cgi_process access forked (map Data ds') ?c"
      using b str scan None by (subst cgi_process.simps) (auto simp: r[simplified] ds'(1) is_ok_iff)
    moreover have "\<exists>c' es. cgi_process access forked (map Data ds') ?c = Inr (c', es,
       let f = takeWhile (\<lambda>x. x \<noteq> NUL) (take k (received ?c @ concat ds'))
       in (if access f \<and> forked \<noteq> -1 then [Exec f] else []) @ remove_fd (cgi_fd ?c))"
    proof (rule less.hyps)
      show "script_size (map Data ds') < script_size (map Data ds)"
        using recv_Bytes_size[OF r] ds'(1) by simp
      show "cgi_inv ?c" by (rule rec(1))
      show "find_sub CRLF (received ?c) = None" using None rec(2) by simp
      show "find_sub CRLF (received ?c @ concat ds') = Some k" using less.prems(3) ds'(2) rec(2) by simp
    qed (rule less.prems(4))
    ultimately show ?thesis using rec(2) ds'(2) by simp
  next
    case (Some j)
    then have j: "j = k" using find_sub_prefix_of[of CRLF "received c @ d" j "concat ds'"] less.prems(3) ds'(2) by simp
    have lt: "Suc j < length (received c @ d)" using find_sub_CRLF[of "received c @ d"] Some by simp
    obtain c' where c': "cgi_run access forked (Suc j) ?c = Inr (c',
       let f = takeWhile (\<lambda>x. x \<noteq> NUL) (take j (received ?c))
       in (if access f \<and> forked \<noteq> -1 then [Exec f] else []) @ remove_fd (cgi_fd ?c))"
      using cgi_run_spec[OF rec(1), of j access forked] Some rec(2) by auto
    have "cgi_process access forked (map Data ds) c = bindR (cgi_run access forked (Suc j) ?c) (\<lambda>(c', k). Inr (c', es', k))"
      using b str scan Some lt idx by (subst cgi_process.simps) (auto simp: r[simplified] is_ok_iff)
    moreover have "take j (received c @ concat ds) = take j (received ?c)"
      using lt ds'(2) rec(2) by simp
    ultimately show ?thesis using c' j by (auto simp: Let_def)
  qed
qed

theorem cgi_process_request_witness:
  "\<exists>c' es. cgi_process (\<lambda>f. f = ''./date'') 7 (map Data [''./da'', ''te'' @ [CR], [LF] @ ''x'']) (cgi_init 5 \<lparr>cgi_fd = -1, cgi_buf = [], cgi_idx = 0\<rparr>)
     = Inr (c', es, [Exec ''./date'', Epoll_Del 5, Close 5])"
proof -
  have "find_sub CRLF (received (cgi_init 5 \<lparr>cgi_fd = -1, cgi_buf = [], cgi_idx = 0\<rparr>) @ concat [''./da'', ''te'' @ [CR], [LF] @ ''x'']) = Some 6"
    by (simp add: prefix_def)
  then show ?thesis
    using cgi_process_request[of "cgi_init 5 \<lparr>cgi_fd = -1, cgi_buf = [], cgi_idx = 0\<rparr>" "[''./da'', ''te'' @ [CR], [LF] @ ''x'']" 6 "\<lambda>f. f = ''./date''" 7]
    by (auto simp: remove_fd_def Let_def)
qed

lemma cgi_process_keeps_aux:
  "cgi_inv c \<Longrightarrow> \<exists>c' es' k. cgi_process access forked es c = Inr (c', es', k) \<and> cgi_inv c' \<and> cgi_fd c' = cgi_fd c
     \<and> (\<forall>x \<in> set k. (\<exists>f. x = Exec f \<and> access f) \<or> x \<in> set (remove_fd (cgi_fd c)))"
proof (induction access forked es c rule: cgi_process.induct)
  case (1 access forked es c)
  obtain r es' where r: "recv (BUFFER_SIZE - 1 - cgi_idx c) es = (r, es')" by (cases "recv (BUFFER_SIZE - 1 - cgi_idx c) es")
  show ?case
  proof (cases r)
    case Closed
    then show ?thesis using r 1(2) by (subst cgi_process.simps) auto
  next
    case (Failed e)
    then show ?thesis using r 1(2) by (subst cgi_process.simps) auto
  next
    case (Bytes d)
    have d: "length d \<le> BUFFER_SIZE - 1 - cgi_idx c" using recv_Bytes r Bytes by blast
    then have "cgi_idx c + length d \<le> length (cgi_buf c)" using 1(2) by (auto simp: cgi_inv_def)
    then obtain b where b: "blit (cgi_buf c) (cgi_idx c) d = Inr b" by (simp add: blit_def)
    let ?n = "cgi_idx c + length d" and ?c = "c\<lparr>cgi_buf := b, cgi_idx := cgi_idx c + length d\<rparr>"
    note rec = cgi_receive[OF 1(2) d b]
    obtain t where t: "cstr b 0 = Inr t" using cgi_inv_str[OF rec(1)] by auto
    show ?thesis
    proof (cases "scan_crlf b (cgi_idx c) ?n = ?n")
      case True
      then have "cgi_process access forked es c = cgi_process access forked es' ?c"
        using b t by (subst cgi_process.simps) (simp add: r[simplified] Bytes)
      then show ?thesis using 1(1)[OF r[symmetric] Bytes b t True rec(1)] by simp
    next
      case False
      obtain i where i: "scan_crlf b (cgi_idx c) ?n = Suc i" "Suc i < ?n"
        using scan_crlf_bound[OF False] by auto
      have len: "i < length b" using i(2) rec(4) by simp
      have "\<exists>f. cstr (b[i := NUL]) 0 = Inr f" using cstr_store_nul_ok[of b 0 i] t by (auto simp: is_ok_iff)
      then obtain f where f: "cstr (b[i := NUL]) 0 = Inr f" by blast
      let ?k = "if \<not> access f then remove_fd (cgi_fd c) else if forked = -1 then remove_fd (cgi_fd c)
            else Exec f # remove_fd (cgi_fd c)"
      have "cgi_run access forked (Suc i) ?c = Inr (?c\<lparr>cgi_buf := b[i := NUL]\<rparr>, ?k)"
        using f len by (simp add: cgi_run_def)
      then have "cgi_process access forked es c = Inr (?c\<lparr>cgi_buf := b[i := NUL]\<rparr>, es', ?k)"
        using b t False i(1) by (subst cgi_process.simps) (simp add: r[simplified] Bytes)
      moreover have "cgi_inv (?c\<lparr>cgi_buf := b[i := NUL]\<rparr>)"
        using rec(1) i(2) by (auto simp: cgi_inv_def nth_list_update)
      ultimately show ?thesis by auto
    qed
  qed
qed

text \<open>
  \<open>process\<close> returns on every input without an access outside the buffer, keeps the connection's
  invariant, and does nothing but run a program that exists and close its own connection.
\<close>

theorem cgi_process_safe:
  assumes "cgi_inv c"
  shows "\<exists>c' es' k. cgi_process access forked es c = Inr (c', es', k) \<and> cgi_inv c' \<and> cgi_fd c' = cgi_fd c
     \<and> (\<forall>x \<in> set k. (\<exists>f. x = Exec f \<and> access f) \<or> x \<in> set (remove_fd (cgi_fd c)))"
  by (rule cgi_process_keeps_aux[OF assms])

theorem cgi_process_safe_witness:
  "\<exists>c' es' k. cgi_process (\<lambda>_. True) 7 [Data (replicate 2000 CHR ''a''), Eof] (cgi_init 5 \<lparr>cgi_fd = -1, cgi_buf = [], cgi_idx = 0\<rparr>) = Inr (c', es', k) \<and> cgi_inv c'"
  using cgi_process_safe[of "cgi_init 5 \<lparr>cgi_fd = -1, cgi_buf = [], cgi_idx = 0\<rparr>" "\<lambda>_. True" 7 "[Data (replicate 2000 CHR ''a''), Eof]"] by auto

text \<open>A full buffer looks like the end of the stream: the connection is closed.\<close>

lemma cgi_full_buffer:
  "cgi_idx c = 1023 \<Longrightarrow> d \<noteq> [] \<Longrightarrow>
    cgi_process access forked (Data d # es) c = Inr (c, Data d # es, remove_fd (cgi_fd c))"
  by (subst cgi_process.simps) (simp add: BUFFER_SIZE_def)

end
