(* ===== verification/Process_Pool.thy ===== *)
theory Process_Pool
  imports Cgi_Conn "HOL-Library.Multiset"
begin

text \<open>
  The template \<open>process_pool\<close> of 85\_process\_pool\_thread\_pool/process\_pool.h: the processes that the
  constructor forks, the parent that hands connections out in turn and looks after its children,
  and the event loop of a child. The template's parameter is a pair of functions, \<open>init\<close> and
  \<open>process\<close>.
\<close>

subsection \<open>Creating the processes\<close>

record sub_process =
  sub_pid :: int
  sub_pipe :: "int \<times> int"

record process_pool =
  listen_fd :: int
  sub_processes :: "sub_process list"
  pool_idx :: int
  pool_stop :: bool

definition new_sub_process :: sub_process where
  "new_sub_process = \<lparr>sub_pid = -1, sub_pipe = (0, 0)\<rparr>"

text \<open>
  The loop of the constructor from child \<open>i\<close> on: \<open>pipes\<close> are the descriptors of the socket pairs,
  \<open>forks\<close> what \<open>fork\<close> returns. The result has the calls that close one end.
\<close>

fun fork_loop :: "int \<Rightarrow> (int \<times> int) list \<Rightarrow> int list \<Rightarrow> sub_process list \<times> int \<times> sys_call list" where
  "fork_loop i ((p0, p1) # ps) (pid # pids) =
     (if pid > 0 then (let (subs, idx, k) = fork_loop (i + 1) ps pids
                       in (\<lparr>sub_pid = pid, sub_pipe = (p0, p1)\<rparr> # subs, idx, Close p1 # k))
      else (\<lparr>sub_pid = pid, sub_pipe = (p0, p1)\<rparr> # map (\<lambda>_. new_sub_process) ps, i, [Close p0]))"
| "fork_loop i ps pids = (map (\<lambda>_. new_sub_process) ps, -1, [])"

definition new_process_pool :: "int \<Rightarrow> (int \<times> int) list \<Rightarrow> int list \<Rightarrow> process_pool \<times> sys_call list" where
  "new_process_pool fd pipes forks =
     (let (subs, idx, k) = fork_loop 0 pipes forks
      in (\<lparr>listen_fd = fd, sub_processes = subs, pool_idx = idx, pool_stop = False\<rparr>, k))"

text \<open>\<open>run\<close> takes the branch of the child when the index is set.\<close>

definition runs_child :: "process_pool \<Rightarrow> bool" where
  "runs_child p \<longleftrightarrow> pool_idx p \<noteq> -1"

subsection \<open>The parent\<close>

definition pid_at :: "sub_process list \<Rightarrow> nat \<Rightarrow> int" where
  "pid_at subs i = sub_pid (subs ! i)"

text \<open>The loop that looks for a child that is alive, from \<open>start\<close> on and at most once around.\<close>

function pick_child :: "sub_process list \<Rightarrow> nat \<Rightarrow> nat \<Rightarrow> nat result" where
  "pick_child subs start ix =
     (if length subs \<le> ix \<or> length subs \<le> start then Inl (Bad_Load (int ix))
      else if pid_at subs ix \<noteq> -1 then Inr ix
      else if (ix + 1) mod length subs = start then Inr start
      else pick_child subs start ((ix + 1) mod length subs))"
  by pat_completeness auto

lemma pick_distance:
  fixes ix n start :: nat
  assumes "ix < n" and "start < n" and "Suc ix mod n \<noteq> start"
  shows "(start + n - Suc (Suc ix mod n)) mod n < (start + n - Suc ix) mod n"
proof (cases "Suc ix = n")
  case True
  then have pos: "0 < start" using assms(3) by simp
  then have "start + n - Suc 0 = n + (start - 1)" by simp
  then have "(start + n - Suc 0) mod n = start - 1" using assms(2) by (simp only: mod_add_self1) simp
  moreover have "(start + n - n) mod n = start" using assms(2) by simp
  ultimately show ?thesis using True pos by simp
next
  case False
  then have m: "Suc ix mod n = Suc ix" using assms(1) by simp
  show ?thesis
  proof (cases "ix < start")
    case True
    then have lt: "Suc ix < start" using m assms(3) by simp
    then have e: "start + n - Suc (Suc ix) = n + (start - Suc (Suc ix))" "start + n - Suc ix = n + (start - Suc ix)" by simp_all
    have "(start + n - Suc (Suc ix)) mod n = start - Suc (Suc ix)" "(start + n - Suc ix) mod n = start - Suc ix"
      unfolding e using assms(2) by (simp_all only: mod_add_self1) simp_all
    then show ?thesis unfolding m using lt by simp
  next
    case c: False
    then show ?thesis unfolding m using assms(1,2) False by simp
  qed
qed

termination pick_child
  by (relation "measure (\<lambda>(subs, start, ix). (start + length subs - Suc ix) mod length subs)")
     (auto simp: not_le intro!: pick_distance)

declare pick_child.simps [simp del]

text \<open>
  A connection: the state with the counter, the calls, and whether the loop over the events is left
  because no child is alive. The message is an \<open>int\<close> with value 1.
\<close>

definition NEW_CONN :: string where
  "NEW_CONN = [CHR 0x01, NUL, NUL, NUL]"

definition on_connection :: "process_pool \<Rightarrow> nat \<Rightarrow> (process_pool \<times> nat \<times> sys_call list \<times> bool) result" where
  "on_connection p cnt =
     bindR (pick_child (sub_processes p) cnt cnt) (\<lambda>ix.
       if pid_at (sub_processes p) ix = -1 then Inr (p\<lparr>pool_stop := True\<rparr>, cnt, [], True)
       else Inr (p, (ix + 1) mod length (sub_processes p), [Send (fst (sub_pipe (sub_processes p ! ix))) NEW_CONN], False))"

text \<open>\<open>waitpid\<close> has returned \<open>pid\<close>: close the pipe of this child and forget its pid.\<close>

fun reap_scan :: "int \<Rightarrow> sub_process list \<Rightarrow> sub_process list \<times> sys_call list" where
  "reap_scan pid [] = ([], [])"
| "reap_scan pid (s # ss) =
     (let (ss', k) = reap_scan pid ss
      in if sub_pid s = pid then (s\<lparr>sub_pid := -1\<rparr> # ss', Close (fst (sub_pipe s)) # k) else (s # ss', k))"

fun reap_loop :: "int list \<Rightarrow> sub_process list \<Rightarrow> sub_process list \<times> sys_call list" where
  "reap_loop [] ss = (ss, [])"
| "reap_loop (pid # pids) ss =
     (let (ss1, k1) = reap_scan pid ss; (ss2, k2) = reap_loop pids ss1 in (ss2, k1 @ k2))"

definition on_sigchld :: "int list \<Rightarrow> process_pool \<Rightarrow> process_pool \<times> sys_call list" where
  "on_sigchld pids p =
     (let (ss, k) = reap_loop pids (sub_processes p)
      in (p\<lparr>sub_processes := ss, pool_stop := (\<forall>s \<in> set ss. sub_pid s = -1)\<rparr>, k))"

definition on_sigterm :: "process_pool \<Rightarrow> sys_call list" where
  "on_sigterm p = map (\<lambda>s. Kill (sub_pid s) SIGTERM) (filter (\<lambda>s. sub_pid s \<noteq> -1) (sub_processes p))"

text \<open>The bytes of the signal pipe; \<open>ws\<close> has what \<open>waitpid\<close> returns for each \<open>SIGCHLD\<close>.\<close>

fun parent_signals :: "char list \<Rightarrow> int list list \<Rightarrow> process_pool \<Rightarrow> process_pool \<times> sys_call list" where
  "parent_signals [] ws p = (p, [])"
| "parent_signals (c # cs) ws p =
     (if c = char_of SIGCHLD then
        (let (p1, k1) = on_sigchld (case ws of [] \<Rightarrow> [] | w # _ \<Rightarrow> w) p;
             (p2, k2) = parent_signals cs (tl ws) p1 in (p2, k1 @ k2))
      else if c = char_of SIGTERM \<or> c = char_of SIGINT then
        (let (p2, k2) = parent_signals cs ws p in (p2, on_sigterm p @ k2))
      else parent_signals cs ws p)"

text \<open>
  The loop over the events of the parent: the descriptor, its events, what \<open>recv\<close> on the signal
  pipe gives and what \<open>waitpid\<close> returns then.
\<close>

type_synonym parent_event = "int \<times> 32 word \<times> recv_ret \<times> int list list"

fun parent_events :: "int \<Rightarrow> parent_event list \<Rightarrow> process_pool \<Rightarrow> nat \<Rightarrow> (process_pool \<times> nat \<times> sys_call list) result" where
  "parent_events sigfd [] p cnt = Inr (p, cnt, [])"
| "parent_events sigfd ((fd, ev, r, ws) # es) p cnt =
     (if fd = listen_fd p then
        bindR (on_connection p cnt) (\<lambda>(p1, cnt1, k1, brk).
          if brk then Inr (p1, cnt1, k1)
          else bindR (parent_events sigfd es p1 cnt1) (\<lambda>(p2, cnt2, k2). Inr (p2, cnt2, k1 @ k2)))
      else if fd = sigfd \<and> ev AND EPOLLIN \<noteq> 0 then
        (case r of
           Bytes d \<Rightarrow>
             (let (p1, k1) = parent_signals d ws p
              in bindR (parent_events sigfd es p1 cnt) (\<lambda>(p2, cnt2, k2). Inr (p2, cnt2, k1 @ k2)))
         | _ \<Rightarrow> parent_events sigfd es p cnt)
      else parent_events sigfd es p cnt)"

fun run_parent :: "int \<Rightarrow> (errno + parent_event list) list \<Rightarrow> process_pool \<Rightarrow> nat \<Rightarrow> (process_pool \<times> sys_call list \<times> bool) result" where
  "run_parent sigfd [] p cnt = Inr (p, [], \<not> pool_stop p)"
| "run_parent sigfd (w # ws) p cnt =
     (if pool_stop p then Inr (p, [], False)
      else case w of
        Inl e \<Rightarrow> if e \<noteq> EINTR then Inr (p, [], False) else run_parent sigfd ws p cnt
      | Inr es \<Rightarrow> bindR (parent_events sigfd es p cnt) (\<lambda>(p1, cnt1, k1).
          bindR (run_parent sigfd ws p1 cnt1) (\<lambda>(p2, k2, r). Inr (p2, k1 @ k2, r))))"

subsection \<open>Handing out connections\<close>

text \<open>The \<open>k\<close>th child in turn from \<open>start\<close> on is dead.\<close>

definition dead_at :: "sub_process list \<Rightarrow> nat \<Rightarrow> nat \<Rightarrow> bool" where
  "dead_at subs start k \<longleftrightarrow> pid_at subs ((start + k) mod length subs) = -1"

lemma pick_child_from:
  assumes "start < length subs" and "k < length subs" and "\<forall>j < k. dead_at subs start j"
  shows "(\<exists>m < length subs. \<not> dead_at subs start m \<and> (\<forall>j < m. dead_at subs start j)
      \<and> pick_child subs start ((start + k) mod length subs) = Inr ((start + m) mod length subs))
    \<or> (\<forall>j < length subs. dead_at subs start j)
      \<and> pick_child subs start ((start + k) mod length subs) = Inr start"
  using assms(2,3)
proof (induction "length subs - k" arbitrary: k rule: less_induct)
  case less
  let ?n = "length subs" and ?ix = "(start + k) mod length subs"
  have ix: "?ix < ?n" using assms(1) by (intro mod_less_divisor) linarith
  show ?case
  proof (cases "dead_at subs start k")
    case False
    then have "pick_child subs start ?ix = Inr ?ix"
      using ix assms(1) by (subst pick_child.simps) (simp add: not_le dead_at_def)
    then show ?thesis using less.prems False by blast
  next
    case dead: True
    have succ: "(?ix + 1) mod ?n = (start + Suc k) mod ?n" by (simp add: mod_simps)
    have pid: "pid_at subs ?ix = -1" using dead by (simp add: dead_at_def)
    have all: "\<forall>j < Suc k. dead_at subs start j" using less.prems(2) dead by (auto simp: less_Suc_eq)
    show ?thesis
    proof (cases "Suc k = ?n")
      case True
      then have "(?ix + 1) mod ?n = start" using succ assms(1) by simp
      then have "pick_child subs start ?ix = Inr start" using pid ix assms(1)
        by (subst pick_child.simps) (simp add: not_le)
      moreover have "\<forall>j < ?n. dead_at subs start j" using all unfolding True .
      ultimately show ?thesis by blast
    next
      case False
      then have k: "Suc k < ?n" using less.prems(1) by simp
      have "(start + Suc k) mod ?n \<noteq> start"
      proof (cases "start + Suc k < ?n")
        case True
        then show ?thesis by simp
      next
        case False
        have "(start + Suc k) mod ?n = (start + Suc k - ?n) mod ?n" using False by (simp only: le_mod_geq not_less)
        also have "\<dots> = start + Suc k - ?n" using assms(1) k by (intro mod_less) linarith
        also have "\<dots> \<noteq> start" using False k by linarith
        finally show ?thesis .
      qed
      then have step: "pick_child subs start ?ix = pick_child subs start ((start + Suc k) mod ?n)"
        using pid ix assms(1) succ by (subst pick_child.simps) (simp add: not_le)
      show ?thesis unfolding step by (rule less.hyps[OF _ k all]) (use less.prems(1) in simp)
    qed
  qed
qed

text \<open>
  C9. A new connection goes to the first child that is alive, counted in turn from the one after the
  last: one message is written to the pipe of this child and to no other, and the turn moves on. Only
  when all children are gone the parent stops.
\<close>

theorem connection_dispatched:
  assumes "cnt < length (sub_processes p)"
  shows "(\<exists>k < length (sub_processes p). \<not> dead_at (sub_processes p) cnt k
        \<and> (\<forall>j < k. dead_at (sub_processes p) cnt j)
        \<and> (let ix = (cnt + k) mod length (sub_processes p) in
            on_connection p cnt = Inr (p, (ix + 1) mod length (sub_processes p),
              [Send (fst (sub_pipe (sub_processes p ! ix))) NEW_CONN], False)))
    \<or> (\<forall>j < length (sub_processes p). dead_at (sub_processes p) cnt j)
        \<and> on_connection p cnt = Inr (p\<lparr>pool_stop := True\<rparr>, cnt, [], True)"
proof -
  let ?s = "sub_processes p"
  have e: "(cnt + 0) mod length ?s = cnt" using assms by simp
  have pos: "0 < length ?s" using assms by linarith
  from pick_child_from[OF assms pos, unfolded e] consider
    (c1) m where "m < length ?s" "\<not> dead_at ?s cnt m" "\<forall>j < m. dead_at ?s cnt j"
        "pick_child ?s cnt cnt = Inr ((cnt + m) mod length ?s)"
    | (c2) "\<forall>j < length ?s. dead_at ?s cnt j" "pick_child ?s cnt cnt = Inr cnt" by auto
  then show ?thesis
  proof cases
    case c1
    then show ?thesis by (intro disjI1 exI[of _ m]) (simp add: on_connection_def dead_at_def Let_def)
  next
    case c2
    then have "dead_at ?s cnt 0" using pos by blast
    then have "pid_at ?s cnt = -1" unfolding dead_at_def e .
    then show ?thesis using c2 by (simp add: on_connection_def)
  qed
qed

definition demo_pool :: process_pool where
  "demo_pool = \<lparr>listen_fd = 3,
     sub_processes = [\<lparr>sub_pid = 100, sub_pipe = (4, 5)\<rparr>, \<lparr>sub_pid = -1, sub_pipe = (6, 7)\<rparr>, \<lparr>sub_pid = 102, sub_pipe = (8, 9)\<rparr>],
     pool_idx = -1, pool_stop = False\<rparr>"

theorem connection_dispatched_witness:
  "on_connection demo_pool 1 = Inr (demo_pool, 0, [Send 8 NEW_CONN], False)"
proof -
  have s: "length (sub_processes demo_pool) = 3" by (simp add: demo_pool_def)
  have d: "dead_at (sub_processes demo_pool) 1 0" "\<not> dead_at (sub_processes demo_pool) 1 1"
    "\<not> dead_at (sub_processes demo_pool) 1 2"
    by (simp_all add: demo_pool_def dead_at_def pid_at_def)
  have p: "fst (sub_pipe (sub_processes demo_pool ! 2)) = 8" by (simp add: demo_pool_def)
  have "(\<exists>k < 3. \<not> dead_at (sub_processes demo_pool) 1 k \<and> (\<forall>j < k. dead_at (sub_processes demo_pool) 1 j)
      \<and> (let ix = (1 + k) mod 3 in on_connection demo_pool 1 = Inr (demo_pool, (ix + 1) mod 3,
       [Send (fst (sub_pipe (sub_processes demo_pool ! ix))) NEW_CONN], False)))
    \<or> (\<forall>j < 3. dead_at (sub_processes demo_pool) 1 j) \<and> on_connection demo_pool 1 = Inr (demo_pool\<lparr>pool_stop := True\<rparr>, 1, [], True)"
    using connection_dispatched[of 1 demo_pool] unfolding s by simp
  then obtain k where k: "k < 3" "\<not> dead_at (sub_processes demo_pool) 1 k" "\<forall>j < k. dead_at (sub_processes demo_pool) 1 j"
    "let ix = (1 + k) mod 3 in on_connection demo_pool 1 = Inr (demo_pool, (ix + 1) mod 3,
       [Send (fst (sub_pipe (sub_processes demo_pool ! ix))) NEW_CONN], False)"
    using d(2) by force
  have "k \<noteq> 0" using k(2) d(1) by metis
  moreover have "\<not> 1 < k" using k(3) d(2) by blast
  ultimately have "k = 1" by simp
  then show ?thesis using k(4) by (simp add: p[unfolded numeral_2_eq_2])
qed

text \<open>While all children live, consecutive connections go to consecutive children.\<close>

lemma connections_in_turn:
  assumes "\<forall>s \<in> set (sub_processes p). sub_pid s \<noteq> -1" and "cnt < length (sub_processes p)"
  shows "parent_events sigfd (replicate m (listen_fd p, ev, r, ws)) p cnt =
    Inr (p, (cnt + m) mod length (sub_processes p),
         map (\<lambda>i. Send (fst (sub_pipe (sub_processes p ! ((cnt + i) mod length (sub_processes p))))) NEW_CONN) [0..<m])"
  using assms(2)
proof (induction m arbitrary: cnt)
  case 0
  then show ?case by simp
next
  case (Suc m)
  let ?s = "sub_processes p"
  have alive: "pid_at ?s cnt \<noteq> -1" using assms(1) Suc.prems by (simp add: pid_at_def)
  have "pick_child ?s cnt cnt = Inr cnt" using alive Suc.prems by (subst pick_child.simps) (simp add: not_le)
  then have on: "on_connection p cnt = Inr (p, Suc cnt mod length ?s, [Send (fst (sub_pipe (?s ! cnt))) NEW_CONN], False)"
    using alive by (simp add: on_connection_def)
  have lt: "Suc cnt mod length ?s < length ?s" using Suc.prems by (intro mod_less_divisor) linarith
  have shift: "(Suc cnt mod length ?s + i) mod length ?s = (cnt + Suc i) mod length ?s" for i
    by (simp add: mod_simps)
  have "map (\<lambda>i. Send (fst (sub_pipe (?s ! ((cnt + i) mod length ?s)))) NEW_CONN) [0..<Suc m]
      = Send (fst (sub_pipe (?s ! cnt))) NEW_CONN #
        map (\<lambda>i. Send (fst (sub_pipe (?s ! ((cnt + Suc i) mod length ?s)))) NEW_CONN) [0..<m]"
    using Suc.prems by (simp only: map_upt_Suc) (simp add: mod_less)
  then show ?case using on Suc.IH[OF lt] unfolding shift by simp
qed

subsection \<open>Looking after the children\<close>

lemma reap_scan_spec:
  "reap_scan pid ss = (map (\<lambda>s. if sub_pid s = pid then s\<lparr>sub_pid := -1\<rparr> else s) ss,
     map (\<lambda>s. Close (fst (sub_pipe s))) (filter (\<lambda>s. sub_pid s = pid) ss))"
  by (induction ss) (auto simp: Let_def)

lemma reap_loop_spec:
  assumes "-1 \<notin> set pids"
  shows "fst (reap_loop pids ss) = map (\<lambda>s. if sub_pid s \<in> set pids then s\<lparr>sub_pid := -1\<rparr> else s) ss
    \<and> mset (snd (reap_loop pids ss)) = mset (map (\<lambda>s. Close (fst (sub_pipe s))) (filter (\<lambda>s. sub_pid s \<in> set pids) ss))"
  using assms
proof (induction pids arbitrary: ss)
  case Nil
  then show ?case by simp
next
  case (Cons pid pids)
  let ?ss = "map (\<lambda>s. if sub_pid s = pid then s\<lparr>sub_pid := -1\<rparr> else s) ss"
  have IH: "fst (reap_loop pids ?ss) = map (\<lambda>s. if sub_pid s \<in> set pids then s\<lparr>sub_pid := -1\<rparr> else s) ?ss"
    "mset (snd (reap_loop pids ?ss)) = mset (map (\<lambda>s. Close (fst (sub_pipe s))) (filter (\<lambda>s. sub_pid s \<in> set pids) ?ss))"
    using Cons.IH[of ?ss] Cons.prems by auto
  have f: "reap_loop (pid # pids) ss = (fst (reap_loop pids ?ss),
      map (\<lambda>s. Close (fst (sub_pipe s))) (filter (\<lambda>s. sub_pid s = pid) ss) @ snd (reap_loop pids ?ss))"
    by (simp add: reap_scan_spec Let_def split: prod.splits)
  have "map (\<lambda>s. if sub_pid s \<in> set pids then s\<lparr>sub_pid := -1\<rparr> else s) ?ss
      = map (\<lambda>s. if sub_pid s \<in> set (pid # pids) then s\<lparr>sub_pid := -1\<rparr> else s) ss"
    using Cons.prems by auto
  moreover have "mset (map (\<lambda>s. Close (fst (sub_pipe s))) (filter (\<lambda>s. sub_pid s = pid) ss))
      + mset (map (\<lambda>s. Close (fst (sub_pipe s))) (filter (\<lambda>s. sub_pid s \<in> set pids) ?ss))
      = mset (map (\<lambda>s. Close (fst (sub_pipe s))) (filter (\<lambda>s. sub_pid s \<in> set (pid # pids)) ss))"
    using Cons.prems by (induction ss) auto
  ultimately show ?case unfolding f using IH by simp
qed

lemma sigchld_reaps_aux:
  assumes "-1 \<notin> set pids" and "on_sigchld pids p = (p', k)"
  shows "sub_processes p' = map (\<lambda>s. if sub_pid s \<in> set pids then s\<lparr>sub_pid := -1\<rparr> else s) (sub_processes p)
    \<and> mset k = mset (map (\<lambda>s. Close (fst (sub_pipe s))) (filter (\<lambda>s. sub_pid s \<in> set pids) (sub_processes p)))
    \<and> (pool_stop p' \<longleftrightarrow> (\<forall>s \<in> set (sub_processes p). sub_pid s \<in> insert (-1) (set pids)))"
proof -
  have "sub_processes p' = fst (reap_loop pids (sub_processes p))" "k = snd (reap_loop pids (sub_processes p))"
    "pool_stop p' \<longleftrightarrow> (\<forall>s \<in> set (fst (reap_loop pids (sub_processes p))). sub_pid s = -1)"
    using assms(2) by (auto simp: on_sigchld_def Let_def split: prod.splits)
  then show ?thesis using reap_loop_spec[OF assms(1)] by auto
qed

text \<open>
  After \<open>SIGCHLD\<close>, for whatever children \<open>waitpid\<close> reports: exactly these are forgotten, the
  parent's end of each of their pipes is closed once and no other, and the parent stops exactly when
  no child is left.
\<close>

theorem sigchld_reaps:
  assumes "-1 \<notin> set pids" and "on_sigchld pids p = (p', k)"
  shows "sub_processes p' = map (\<lambda>s. if sub_pid s \<in> set pids then s\<lparr>sub_pid := -1\<rparr> else s) (sub_processes p)
    \<and> mset k = mset (map (\<lambda>s. Close (fst (sub_pipe s))) (filter (\<lambda>s. sub_pid s \<in> set pids) (sub_processes p)))
    \<and> (pool_stop p' \<longleftrightarrow> (\<forall>s \<in> set (sub_processes p). sub_pid s \<in> insert (-1) (set pids)))"
  by (rule sigchld_reaps_aux[OF assms])

theorem sigchld_reaps_witness:
  "pool_stop (fst (on_sigchld [102, 100] demo_pool)) \<and> \<not> pool_stop (fst (on_sigchld [102] demo_pool))"
  using sigchld_reaps[of "[102, 100]" demo_pool "fst (on_sigchld [102, 100] demo_pool)" "snd (on_sigchld [102, 100] demo_pool)"]
    sigchld_reaps[of "[102]" demo_pool "fst (on_sigchld [102] demo_pool)" "snd (on_sigchld [102] demo_pool)"]
  by (simp add: demo_pool_def)



subsection \<open>The constructor\<close>

lemma fork_loop_parent:
  assumes "length forks = length pipes" and "\<forall>pid \<in> set forks. pid > 0"
  shows "fork_loop i pipes forks = (map2 (\<lambda>pid q. \<lparr>sub_pid = pid, sub_pipe = q\<rparr>) forks pipes, -1, map (\<lambda>q. Close (snd q)) pipes)"
  using assms
proof (induction i pipes forks rule: fork_loop.induct)
  case (1 i p0 p1 ps pid pids)
  then show ?case by simp
qed auto

lemma map2_subs:
  assumes "length forks = length pipes"
  shows "map sub_pid (map2 (\<lambda>pid q. \<lparr>sub_pid = pid, sub_pipe = q\<rparr>) forks pipes) = forks"
    and "map sub_pipe (map2 (\<lambda>pid q. \<lparr>sub_pid = pid, sub_pipe = q\<rparr>) forks pipes) = pipes"
  using assms by (induction forks pipes rule: list_induct2) auto

lemma fork_loop_child:
  assumes "length forks = length pipes" and "k < length forks" and "\<forall>j < k. forks ! j > 0" and "forks ! k \<le> 0"
  shows "\<exists>subs. fork_loop i pipes forks = (subs, i + int k,
      map (\<lambda>q. Close (snd q)) (take k pipes) @ [Close (fst (pipes ! k))])
    \<and> length subs = length pipes \<and> sub_pipe (subs ! k) = pipes ! k"
  using assms
proof (induction i pipes forks arbitrary: k rule: fork_loop.induct)
  case (1 i p0 p1 ps pid pids)
  show ?case
  proof (cases k)
    case 0
    then show ?thesis using 1(2-5) by simp
  next
    case (Suc m)
    then have pos: "pid > 0" using 1(4) by auto
    have "\<forall>j < m. pids ! j > 0" using 1(4) Suc by auto
    then obtain subs where "fork_loop (i + 1) ps pids = (subs, i + 1 + int m,
        map (\<lambda>q. Close (snd q)) (take m ps) @ [Close (fst (ps ! m))])" "length subs = length ps" "sub_pipe (subs ! m) = ps ! m"
      using 1(1)[OF pos, of m] 1(2,3,5) Suc by auto
    then show ?thesis using pos Suc by simp
  qed
qed auto

text \<open>
  The constructor: when every \<open>fork\<close> succeeds, the parent knows each child and keeps the first
  end of each pipe; in the \<open>k\<close>th child the index is \<open>k\<close> and the other end is kept. A \<open>fork\<close> that fails
  is taken for the child: the only process there is runs the event loop of a child, and its parent's
  end of the pipe is closed.
\<close>

theorem constructor_roles:
  assumes "length forks = length pipes"
  shows "((\<forall>pid \<in> set forks. pid > 0) \<longrightarrow>
      (\<exists>p. new_process_pool fd pipes forks = (p, map (\<lambda>q. Close (snd q)) pipes) \<and> \<not> runs_child p
        \<and> map sub_pid (sub_processes p) = forks \<and> map sub_pipe (sub_processes p) = pipes))
    \<and> (\<forall>k < length forks. (\<forall>j < k. forks ! j > 0) \<and> forks ! k \<in> {0, -1} \<longrightarrow>
      (\<exists>p. new_process_pool fd pipes forks = (p, map (\<lambda>q. Close (snd q)) (take k pipes) @ [Close (fst (pipes ! k))])
        \<and> runs_child p \<and> pool_idx p = int k))"
proof (intro conjI impI allI)
  assume "\<forall>pid \<in> set forks. pid > 0"
  then show "\<exists>p. new_process_pool fd pipes forks = (p, map (\<lambda>q. Close (snd q)) pipes) \<and> \<not> runs_child p
        \<and> map sub_pid (sub_processes p) = forks \<and> map sub_pipe (sub_processes p) = pipes"
    using fork_loop_parent[OF assms, of 0] map2_subs[OF assms]
    by (simp add: new_process_pool_def runs_child_def)
next
  fix k assume k: "k < length forks" "(\<forall>j < k. forks ! j > 0) \<and> forks ! k \<in> {0, -1}"
  then have "forks ! k \<le> 0" by auto
  then show "\<exists>p. new_process_pool fd pipes forks = (p, map (\<lambda>q. Close (snd q)) (take k pipes) @ [Close (fst (pipes ! k))])
        \<and> runs_child p \<and> pool_idx p = int k"
    using fork_loop_child[OF assms k(1), of 0] k(2) by (auto simp: new_process_pool_def runs_child_def)
qed

theorem constructor_roles_witness:
  "\<exists>p. new_process_pool 3 [(4, 5), (6, 7)] [100, -1] = (p, [Close 5, Close 6]) \<and> runs_child p"
proof -
  have "\<forall>j < (1::nat). [100, -1::int] ! j > 0" by simp
  then show ?thesis
    using conjunct2[OF constructor_roles[of "[100, -1]" "[(4, 5), (6, 7)]" 3], rule_format, of 1] by auto
qed

subsection \<open>The child\<close>

definition USER_PER_PROCESS :: int where "USER_PER_PROCESS = 65536"

record 'u pool_child =
  child_users :: "int \<Rightarrow> 'u"
  child_interest :: interest
  child_stop :: bool

text \<open>
  What the system gives an event of the child: the result of \<open>recv\<close> on a pipe, of \<open>accept\<close>, and the
  input of the connection. \<open>accept\<close> returns a descriptor or -1.
\<close>

record child_reply =
  c_recv :: recv_ret
  c_accept :: int
  c_input :: "recv_event list"

definition add_fd :: "int \<Rightarrow> sys_call list" where
  "add_fd fd = [Epoll_Add fd (EPOLLIN OR EPOLLET), Set_Nonblock fd]"

definition setup_sig_pipe :: "int \<Rightarrow> int \<Rightarrow> sys_call list" where
  "setup_sig_pipe r w = Set_Nonblock w # add_fd r"

fun child_signals :: "char list \<Rightarrow> bool \<Rightarrow> bool" where
  "child_signals [] stop = stop"
| "child_signals (c # cs) stop =
     child_signals cs (if c = char_of SIGTERM \<or> c = char_of SIGINT then True else stop)"

text \<open>The test \<open>events | EPOLLIN\<close> of the last branch is an OR and never 0.\<close>

definition child_event ::
  "(int \<Rightarrow> 'u \<Rightarrow> 'u) \<Rightarrow> (recv_event list \<Rightarrow> 'u \<Rightarrow> ('u \<times> recv_event list \<times> sys_call list) result)
     \<Rightarrow> int \<Rightarrow> int \<Rightarrow> int \<Rightarrow> 32 word \<Rightarrow> child_reply \<Rightarrow> 'u pool_child \<Rightarrow> ('u pool_child \<times> sys_call list) result"
where
  "child_event init process pipefd sigfd fd ev r s =
     (if fd = pipefd \<and> ev AND EPOLLIN \<noteq> 0 then
        (if (case c_recv r of Failed e \<Rightarrow> e \<noteq> EAGAIN | Closed \<Rightarrow> True | Bytes d \<Rightarrow> False) then Inr (s, [])
         else if c_accept r < 0 then Inr (s, [])
         else if USER_PER_PROCESS \<le> c_accept r then Inl (Bad_Store (c_accept r))
         else let cfd = c_accept r in
           Inr (s\<lparr>child_users := (child_users s)(cfd := init cfd (child_users s cfd)),
                  child_interest := kernel_calls (add_fd cfd) (child_interest s)\<rparr>, add_fd cfd))
      else if fd = sigfd \<and> ev AND EPOLLIN \<noteq> 0 then
        Inr (case c_recv r of Bytes d \<Rightarrow> s\<lparr>child_stop := child_signals d (child_stop s)\<rparr> | _ \<Rightarrow> s, [])
      else if ev OR EPOLLIN \<noteq> 0 then
        (if fd < 0 \<or> USER_PER_PROCESS \<le> fd then Inl (Bad_Store fd)
         else bindR (process (c_input r) (child_users s fd)) (\<lambda>(u, _, k).
           Inr (s\<lparr>child_users := (child_users s)(fd := u), child_interest := kernel_calls k (child_interest s)\<rparr>, k)))
      else Inr (s, []))"

fun child_events ::
  "(int \<Rightarrow> 'u \<Rightarrow> 'u) \<Rightarrow> (recv_event list \<Rightarrow> 'u \<Rightarrow> ('u \<times> recv_event list \<times> sys_call list) result)
     \<Rightarrow> int \<Rightarrow> int \<Rightarrow> (int \<times> 32 word \<times> child_reply) list \<Rightarrow> 'u pool_child \<Rightarrow> ('u pool_child \<times> sys_call list) result"
where
  "child_events init process pipefd sigfd [] s = Inr (s, [])"
| "child_events init process pipefd sigfd ((fd, ev, r) # es) s =
     bindR (child_event init process pipefd sigfd fd ev r s) (\<lambda>(s1, k1).
       bindR (child_events init process pipefd sigfd es s1) (\<lambda>(s2, k2). Inr (s2, k1 @ k2)))"

fun run_child ::
  "(int \<Rightarrow> 'u \<Rightarrow> 'u) \<Rightarrow> (recv_event list \<Rightarrow> 'u \<Rightarrow> ('u \<times> recv_event list \<times> sys_call list) result)
     \<Rightarrow> int \<Rightarrow> int \<Rightarrow> (errno + (int \<times> 32 word \<times> child_reply) list) list \<Rightarrow> 'u pool_child
     \<Rightarrow> ('u pool_child \<times> sys_call list \<times> bool) result"
where
  "run_child init process pipefd sigfd [] s = Inr (s, [], \<not> child_stop s)"
| "run_child init process pipefd sigfd (w # ws) s =
     (if child_stop s then Inr (s, [Close pipefd], False)
      else case w of
        Inl e \<Rightarrow> if e \<noteq> EINTR then Inr (s, [Close pipefd], False)
                 else run_child init process pipefd sigfd ws s
      | Inr es \<Rightarrow> bindR (child_events init process pipefd sigfd es s) (\<lambda>(s1, k1).
          bindR (run_child init process pipefd sigfd ws s1) (\<lambda>(s2, k2, r). Inr (s2, k1 @ k2, r))))"

text \<open>
  What the template requires of its parameter: \<open>init\<close> makes a good connection of any object, and
  \<open>process\<close> returns, keeps it good, and closes no descriptor but its own.
\<close>

locale pool_user =
  fixes ok :: "'u \<Rightarrow> bool" and own :: "'u \<Rightarrow> int"
    and init :: "int \<Rightarrow> 'u \<Rightarrow> 'u"
    and process :: "recv_event list \<Rightarrow> 'u \<Rightarrow> ('u \<times> recv_event list \<times> sys_call list) result"
  assumes init_law: "ok (init fd u) \<and> own (init fd u) = fd"
    and process_law: "ok u \<Longrightarrow> \<exists>u' es' k. process es u = Inr (u', es', k) \<and> ok u' \<and> own u' = own u
      \<and> (\<forall>x \<in> set k. (\<exists>f. x = Exec f) \<or> x = Epoll_Del (own u) \<or> x = Close (own u))"
begin

definition users_ok :: "int \<Rightarrow> int \<Rightarrow> 'u pool_child \<Rightarrow> bool" where
  "users_ok pipefd sigfd s \<longleftrightarrow>
     (\<forall>fd. child_interest s fd \<noteq> None \<and> fd \<noteq> pipefd \<and> fd \<noteq> sigfd \<longrightarrow>
        0 \<le> fd \<and> fd < USER_PER_PROCESS \<and> ok (child_users s fd) \<and> own (child_users s fd) = fd)"

lemma kernel_own:
  assumes "\<forall>x \<in> set k. (\<exists>f. x = Exec f) \<or> x = Epoll_Del fd \<or> x = Close fd"
  shows "kernel_calls k i g = (if g = fd \<and> kernel_calls k i fd = None then None else i g)"
  using assms
proof (induction k arbitrary: i)
  case Nil
  then show ?case by simp
next
  case (Cons x k)
  then have IH: "kernel_calls k j g = (if g = fd \<and> kernel_calls k j fd = None then None else j g)" for j by simp
  consider f where "x = Exec f" | "x = Epoll_Del fd" | "x = Close fd" using Cons.prems by auto
  then show ?case using IH[of i] IH[of "i(fd := None)"] by cases auto
qed

lemma child_event_ok:
  assumes "users_ok pipefd sigfd s" and "child_interest s fd \<noteq> None"
    and "fd = pipefd \<Longrightarrow> ev AND EPOLLIN \<noteq> 0" and "fd = sigfd \<Longrightarrow> ev AND EPOLLIN \<noteq> 0"
    and "c_accept r < USER_PER_PROCESS"
  shows "\<exists>s' k. child_event init process pipefd sigfd fd ev r s = Inr (s', k) \<and> users_ok pipefd sigfd s'
    \<and> (\<forall>g. g \<noteq> fd \<and> child_interest s g \<noteq> None \<longrightarrow> child_interest s' g \<noteq> None)"
proof -
  consider (c1) "fd = pipefd" | (c2) "fd \<noteq> pipefd" "fd = sigfd" | (c3) "fd \<noteq> pipefd" "fd \<noteq> sigfd" by blast
  then show ?thesis
  proof cases
    case c1
    have "users_ok pipefd sigfd (s\<lparr>child_users := (child_users s)(c_accept r := init (c_accept r) (child_users s (c_accept r))),
                  child_interest := kernel_calls (add_fd (c_accept r)) (child_interest s)\<rparr>)" if "0 \<le> c_accept r"
      using assms(1,5) init_law that by (auto simp: users_ok_def add_fd_def)
    then show ?thesis using c1 assms(1,3,5) by (auto simp: child_event_def Let_def not_less add_fd_def)
  next
    case c2
    then show ?thesis using assms(1,4) by (auto simp: child_event_def users_ok_def split: recv_ret.splits)
  next
    case c3
    then have fd: "0 \<le> fd" "fd < USER_PER_PROCESS" "ok (child_users s fd)" "own (child_users s fd) = fd"
      using assms(1,2) by (auto simp: users_ok_def)
    obtain u' es' k where p: "process (c_input r) (child_users s fd) = Inr (u', es', k)" "ok u'" "own u' = fd"
      and k: "\<forall>x \<in> set k. (\<exists>f. x = Exec f) \<or> x = Epoll_Del fd \<or> x = Close fd"
      using process_law[OF fd(3), of "c_input r"] fd(4) by auto
    have "child_interest s g \<noteq> None" if "kernel_calls k (child_interest s) g \<noteq> None" for g
      using that kernel_own[OF k, of "child_interest s" g] by (auto split: if_splits)
    then have "users_ok pipefd sigfd (s\<lparr>child_users := (child_users s)(fd := u'),
        child_interest := kernel_calls k (child_interest s)\<rparr>)"
      using assms(1) fd(1,2) p(2,3) unfolding users_ok_def by auto
    moreover have "ev OR EPOLLIN \<noteq> 0"
    proof
      assume "ev OR EPOLLIN = 0"
      then have "bit (ev OR EPOLLIN) 0 = bit (0 :: 32 word) 0" by simp
      then show False by (simp add: bit_or_iff EPOLLIN_def)
    qed
    moreover have "kernel_calls k (child_interest s) g = child_interest s g" if "g \<noteq> fd" for g
      using kernel_own[OF k, of "child_interest s" g] that by simp
    ultimately show ?thesis using c3 fd(1,2) p(1) by (auto simp: child_event_def)
  qed
qed

lemma child_events_ok:
  assumes "users_ok pipefd sigfd s" and "distinct (map fst es)"
    and "\<forall>(fd, ev, r) \<in> set es. child_interest s fd \<noteq> None \<and> c_accept r < USER_PER_PROCESS
          \<and> (fd = pipefd \<or> fd = sigfd \<longrightarrow> ev AND EPOLLIN \<noteq> 0)"
  shows "\<exists>s' k. child_events init process pipefd sigfd es s = Inr (s', k) \<and> users_ok pipefd sigfd s'"
  using assms
proof (induction es arbitrary: s)
  case Nil
  then show ?case by simp
next
  case (Cons e es)
  obtain fd ev r where e: "e = (fd, ev, r)" by (cases e)
  have one: "\<exists>s' k. child_event init process pipefd sigfd fd ev r s = Inr (s', k) \<and> users_ok pipefd sigfd s'
    \<and> (\<forall>g. g \<noteq> fd \<and> child_interest s g \<noteq> None \<longrightarrow> child_interest s' g \<noteq> None)"
    by (rule child_event_ok) (use Cons.prems e in auto)
  then obtain s1 k1 where s1: "child_event init process pipefd sigfd fd ev r s = Inr (s1, k1)" "users_ok pipefd sigfd s1"
    "\<forall>g. g \<noteq> fd \<and> child_interest s g \<noteq> None \<longrightarrow> child_interest s1 g \<noteq> None" by blast
  have "\<forall>(g, ev, r) \<in> set es. child_interest s1 g \<noteq> None \<and> c_accept r < USER_PER_PROCESS
          \<and> (g = pipefd \<or> g = sigfd \<longrightarrow> ev AND EPOLLIN \<noteq> 0)"
    using Cons.prems(2,3) s1(3) e by (fastforce simp: image_iff)
  then show ?case using Cons.IH[OF s1(2)] Cons.prems(2) s1(1) e by auto
qed

end

interpretation cu: pool_user cgi_inv cgi_fd cgi_init "cgi_process access forked" for access forked
proof (unfold_locales, goal_cases)
  case (1 fd u)
  then show ?case by simp
next
  case (2 u es)
  obtain c' es' k where p: "cgi_process access forked es u = Inr (c', es', k)" "cgi_inv c'" "cgi_fd c' = cgi_fd u"
    and k: "\<forall>x \<in> set k. (\<exists>f. x = Exec f \<and> access f) \<or> x \<in> set (remove_fd (cgi_fd u))"
    using cgi_process_keeps_aux[OF 2, of access forked es] by blast
  have "\<forall>x \<in> set k. (\<exists>f. x = Exec f) \<or> x = Epoll_Del (cgi_fd u) \<or> x = Close (cgi_fd u)"
    using k by (fastforce simp: remove_fd_def)
  then show ?case using p by blast
qed

text \<open>
  A child of the pool with the connections of class \<open>cgi_conn\<close>: whatever events \<open>epoll_wait\<close>
  reports, each for a descriptor that is registered and none twice, all are handled without a fault,
  and every registered connection is still an initialised object that owns its descriptor.
\<close>

theorem cgi_child_safe:
  assumes "\<forall>fd. child_interest s fd \<noteq> None \<and> fd \<noteq> pipefd \<and> fd \<noteq> sigfd \<longrightarrow>
        0 \<le> fd \<and> fd < USER_PER_PROCESS \<and> cgi_inv (child_users s fd) \<and> cgi_fd (child_users s fd) = fd"
    and "distinct (map fst es)"
    and "\<forall>(fd, ev, r) \<in> set es. child_interest s fd \<noteq> None \<and> c_accept r < USER_PER_PROCESS
          \<and> (fd = pipefd \<or> fd = sigfd \<longrightarrow> ev AND EPOLLIN \<noteq> 0)"
  shows "\<exists>s' k. child_events cgi_init (cgi_process access forked) pipefd sigfd es s = Inr (s', k)
    \<and> (\<forall>fd. child_interest s' fd \<noteq> None \<and> fd \<noteq> pipefd \<and> fd \<noteq> sigfd \<longrightarrow>
        0 \<le> fd \<and> fd < USER_PER_PROCESS \<and> cgi_inv (child_users s' fd) \<and> cgi_fd (child_users s' fd) = fd)"
  using cu.child_events_ok[OF _ assms(2,3)] assms(1) unfolding cu.users_ok_def by blast

theorem cgi_child_safe_witness:
  "\<exists>s' k. child_events cgi_init (cgi_process (\<lambda>_. True) 7) 4 5
     [(4, EPOLLIN, \<lparr>c_recv = Bytes NEW_CONN, c_accept = 9, c_input = []\<rparr>)]
     \<lparr>child_users = \<lambda>_. \<lparr>cgi_fd = 0, cgi_buf = [], cgi_idx = 0\<rparr>, child_interest = [4 \<mapsto> 1, 5 \<mapsto> 1], child_stop = False\<rparr>
     = Inr (s', k)"
proof -
  let ?s = "\<lparr>child_users = \<lambda>_. \<lparr>cgi_fd = 0, cgi_buf = [], cgi_idx = 0\<rparr>,
      child_interest = [4 \<mapsto> 1, 5 \<mapsto> 1], child_stop = False\<rparr>"
  let ?es = "[(4, EPOLLIN, \<lparr>c_recv = Bytes NEW_CONN, c_accept = 9, c_input = []\<rparr>)]"
  have u: "\<forall>fd. child_interest ?s fd \<noteq> None \<and> fd \<noteq> 4 \<and> fd \<noteq> 5 \<longrightarrow>
        0 \<le> fd \<and> fd < USER_PER_PROCESS \<and> cgi_inv (child_users ?s fd) \<and> cgi_fd (child_users ?s fd) = fd"
    by auto
  have d: "distinct (map fst ?es)" by simp
  have e: "\<forall>(fd, ev, r) \<in> set ?es. child_interest ?s fd \<noteq> None \<and> c_accept r < USER_PER_PROCESS
          \<and> (fd = 4 \<or> fd = 5 \<longrightarrow> ev AND EPOLLIN \<noteq> 0)"
    by (simp add: EPOLLIN_def USER_PER_PROCESS_def)
  show ?thesis using cgi_child_safe[OF u d e, of "\<lambda>_. True" 7] by blast
qed

text \<open>
  The last branch takes every event: one on the pipe that is not readable makes the child use an
  object that no connection was put into.
\<close>

lemma child_other_event:
  "ev AND EPOLLIN = 0 \<Longrightarrow> 0 \<le> pipefd \<Longrightarrow> pipefd < USER_PER_PROCESS \<Longrightarrow> ev OR EPOLLIN \<noteq> 0 \<Longrightarrow>
    child_event init process pipefd sigfd pipefd ev r s =
      bindR (process (c_input r) (child_users s pipefd)) (\<lambda>(u, _, k).
        Inr (s\<lparr>child_users := (child_users s)(pipefd := u), child_interest := kernel_calls k (child_interest s)\<rparr>, k))"
  by (simp add: child_event_def)

end
