(* ===== verification/Epoll_Modes.thy ===== *)
theory Epoll_Modes
  imports Posix
begin

text \<open>
  The event handlers of 79\_io\_reuse/main.cpp: reading a connection level-triggered, edge-triggered
  and from a thread that is armed once; the echo server for TCP and UDP; and the connection that
  does not block.
\<close>

subsection \<open>Registration\<close>

definition addfd_mode :: "int \<Rightarrow> bool \<Rightarrow> sys_call list" where
  "addfd_mode fd enable_et =
     [Epoll_Add fd (if enable_et then EPOLLIN OR EPOLLET else EPOLLIN), Set_Nonblock fd]"

definition addfd2 :: "int \<Rightarrow> bool \<Rightarrow> sys_call list" where
  "addfd2 fd oneshot =
     [Epoll_Add fd (if oneshot then EPOLLIN OR EPOLLET OR EPOLLONESHOT else EPOLLIN OR EPOLLET), Set_Nonblock fd]"

definition reset_oneshot :: "int \<Rightarrow> sys_call list" where
  "reset_oneshot fd = [Epoll_Mod fd (EPOLLIN OR EPOLLET OR EPOLLONESHOT)]"

subsection \<open>Level-triggered and edge-triggered reading\<close>

text \<open>
  One event of a connection, level-triggered: what is printed, the rest of the input, and the calls.
  The array of 10 bytes is cleared before each call, so the text is what was received.
\<close>

definition lt_event :: "int \<Rightarrow> recv_event list \<Rightarrow> string list \<times> recv_event list \<times> sys_call list" where
  "lt_event fd es =
     (case recv 9 es of
        (Bytes d, es') \<Rightarrow> ([d], es', [])
      | (_, es') \<Rightarrow> ([], es', [Close fd]))"

text \<open>
  \<open>epoll_wait\<close> reports a connection again as long as something can be read and it is open: the end
  of the stream counts, a script that is used up does not.
\<close>

fun readable :: "recv_event list \<Rightarrow> bool" where
  "readable [] = False"
| "readable (Data d # es) = (d \<noteq> [] \<or> readable es)"
| "readable (e # es) = True"

function lt_run :: "int \<Rightarrow> recv_event list \<Rightarrow> string list \<times> sys_call list" where
  "lt_run fd es =
     (if readable es then
        (case recv 9 es of
           (Bytes d, es') \<Rightarrow> (let (ps, k) = lt_run fd es' in (d # ps, k))
         | (_, es') \<Rightarrow> ([], [Close fd]))
      else ([], []))"
  by pat_completeness auto
termination
  by (relation "measure (\<lambda>(fd, es). script_size es)") (auto dest!: recv_Bytes_size[OF sym])

declare lt_run.simps [simp del]

text \<open>
  Edge-triggered, one event has to read everything. At the end of the stream the descriptor is
  closed and read once more, which fails and closes it a second time.
\<close>

function et_loop :: "int \<Rightarrow> recv_event list \<Rightarrow> string list \<times> recv_event list \<times> sys_call list" where
  "et_loop fd es =
     (case recv 9 es of
        (Failed e, es') \<Rightarrow> ([], es', if e = EAGAIN then [] else [Close fd])
      | (Closed, es') \<Rightarrow> ([], es', [Close fd, Close fd])
      | (Bytes d, es') \<Rightarrow> (let (ps, es'', k) = et_loop fd es' in (d # ps, es'', k)))"
  by pat_completeness auto
termination
  by (relation "measure (\<lambda>(fd, es). script_size es)") (auto dest!: recv_Bytes_size[OF sym])

declare et_loop.simps [simp del]

lemma lt_step: "recv 9 es = (r, es') \<Longrightarrow> lt_run fd es =
    (if readable es then (case r of Bytes d \<Rightarrow> (d # fst (lt_run fd es'), snd (lt_run fd es')) | _ \<Rightarrow> ([], [Close fd])) else ([], []))"
  by (subst lt_run.simps) (simp add: split_beta split: recv_ret.split)

lemma et_step: "recv 9 es = (r, es') \<Longrightarrow> et_loop fd es =
    (case r of
       Failed e \<Rightarrow> ([], es', if e = EAGAIN then [] else [Close fd])
     | Closed \<Rightarrow> ([], es', [Close fd, Close fd])
     | Bytes d \<Rightarrow> (d # fst (et_loop fd es'), fst (snd (et_loop fd es')), snd (snd (et_loop fd es'))))"
  by (subst et_loop.simps) (simp add: split_beta split: recv_ret.split)

text \<open>The handlers over all events: the calls, and what was printed.\<close>

type_synonym conn_event = "int \<times> 32 word \<times> int \<times> recv_event list"

definition epoll_lt_test :: "int \<Rightarrow> conn_event list \<Rightarrow> (string list \<times> sys_call list) list" where
  "epoll_lt_test listenfd evs =
     map (\<lambda>(fd, ev, cfd, es).
       if fd = listenfd then ([], addfd_mode cfd False)
       else if ev AND EPOLLIN \<noteq> 0 then (let (ps, es', k) = lt_event fd es in (ps, k))
       else ([], [])) evs"

definition epoll_et_test :: "int \<Rightarrow> conn_event list \<Rightarrow> (string list \<times> sys_call list) list" where
  "epoll_et_test listenfd evs =
     map (\<lambda>(fd, ev, cfd, es).
       if fd = listenfd then ([], addfd_mode cfd True)
       else if ev AND EPOLLIN \<noteq> 0 then (let (ps, es', k) = et_loop fd es in (ps, k))
       else ([], [])) evs"

lemma recv_not_readable: "0 < n \<Longrightarrow> \<not> readable es \<Longrightarrow> \<exists>es'. recv n es = (Failed EAGAIN, es')"
  by (induction n es rule: recv.induct) auto

lemma recv_data_pieces:
  "0 < n \<Longrightarrow> recv n es = (Failed EAGAIN, es') \<Longrightarrow> Err EAGAIN \<notin> set es \<Longrightarrow> \<not> readable es"
  by (induction n es rule: recv.induct) (auto split: if_splits)

lemma recv_set: "recv n es = (r, es') \<Longrightarrow> Err e \<in> set es' \<Longrightarrow> Err e \<in> set es"
  by (induction n es rule: recv.induct) (auto split: if_splits)

lemma et_lt_aux:
  assumes "Err EAGAIN \<notin> set es"
  shows "fst (et_loop fd es) = fst (lt_run fd es) \<and> set (snd (snd (et_loop fd es))) = set (snd (lt_run fd es))"
  using assms
proof (induction fd es rule: et_loop.induct)
  case (1 fd es)
  obtain r es' where r: "recv 9 es = (r, es')" by (cases "recv 9 es")
  show ?case
  proof (cases "readable es")
    case False
    then have r': "recv 9 es = (Failed EAGAIN, es')" using recv_not_readable[of 9 es] r by auto
    show ?thesis using False by (simp add: et_step[OF r'] lt_step[OF r'])
  next
    case True
    show ?thesis
    proof (cases r)
      case (Bytes d)
      have "Err EAGAIN \<notin> set es'" using recv_set[OF r, of EAGAIN] 1(2) by blast
      then have "fst (et_loop fd es') = fst (lt_run fd es') \<and> set (snd (snd (et_loop fd es'))) = set (snd (lt_run fd es'))"
        using 1(1)[OF r[symmetric] Bytes] by simp
      then show ?thesis using Bytes True by (simp add: et_step[OF r] lt_step[OF r])
    next
      case Closed
      then show ?thesis using True by (simp add: et_step[OF r] lt_step[OF r])
    next
      case (Failed e)
      have "e \<noteq> EAGAIN" using recv_data_pieces[of 9 es es'] r Failed 1(2) True by auto
      then show ?thesis using Failed True by (simp add: et_step[OF r] lt_step[OF r])
    qed
  qed
qed

text \<open>
  Edge-triggered reading is as good as level-triggered reading: the one event reads and prints
  exactly the pieces that the repeated events of the other mode do, all bytes that are there, and
  closes the connection in the same cases.
\<close>

theorem et_equals_lt:
  assumes "Err EAGAIN \<notin> set es"
  shows "fst (et_loop fd es) = fst (lt_run fd es) \<and> concat (fst (et_loop fd es)) = pending es
    \<and> (snd (snd (et_loop fd es)) = [] \<longleftrightarrow> snd (lt_run fd es) = [])"
proof -
  have "concat (fst (et_loop fd es)) = pending es"
  proof (induction fd es rule: et_loop.induct)
    case (1 fd es)
    obtain r es' where r: "recv 9 es = (r, es')" by (cases "recv 9 es")
    show ?case
    proof (cases r)
      case (Bytes d)
      then show ?thesis using 1[OF r[symmetric] Bytes] r recv_Bytes[of 9 es d es'] by (simp add: et_step[OF r])
    next
      case Closed
      then show ?thesis using r recv_Closed[of 9 es es'] by (simp add: et_step[OF r])
    next
      case (Failed e)
      then show ?thesis using r recv_Failed[of 9 es e es'] by (simp add: et_step[OF r])
    qed
  qed
  then show ?thesis using et_lt_aux[OF assms, of fd] by (metis set_empty)
qed

theorem et_equals_lt_witness:
  "fst (et_loop 7 [Data ''hello, world'', Data ''!'', Eof]) = fst (lt_run 7 [Data ''hello, world'', Data ''!'', Eof])
   \<and> concat (fst (et_loop 7 [Data ''hello, world'', Data ''!'', Eof])) = ''hello, world!''"
proof -
  have "Err EAGAIN \<notin> set [Data ''hello, world'', Data ''!'', Eof]" by simp
  note e = et_equals_lt[OF this, of 7]
  show ?thesis by (intro conjI, rule conjunct1[OF e], rule trans[OF conjunct1[OF conjunct2[OF e]]]) simp
qed

text \<open>The end of the stream closes the descriptor twice.\<close>

lemma et_closes_twice: "pending es = [] \<Longrightarrow> et_loop fd (Eof # es) = ([], Eof # es, [Close fd, Close fd])"
  by (subst et_loop.simps) simp

subsection \<open>A thread per event\<close>

text \<open>
  The worker of \<open>epolloneshot_test\<close>: it reads until nothing is left, then arms the descriptor
  again. Its array is not cleared, so the text that is printed is the string in the array. The loop
  does not end at an error other than \<open>EAGAIN\<close>.
\<close>

function worker :: "int \<Rightarrow> char list \<Rightarrow> recv_event list \<Rightarrow> (string list \<times> recv_event list \<times> sys_call list) result" where
  "worker fd b es =
     (case recv 1023 es of
        (Closed, es') \<Rightarrow> Inr ([], es', [Close fd])
      | (Failed e, es') \<Rightarrow> if e = EAGAIN then Inr ([], es', reset_oneshot fd) else worker fd b es'
      | (Bytes d, es') \<Rightarrow>
          bindR (blit b 0 d) (\<lambda>b'. bindR (cstr b' 0) (\<lambda>t.
            bindR (worker fd b' es') (\<lambda>(ps, es'', k). Inr (t # ps, es'', k)))))"
  by pat_completeness auto
termination
  by (relation "measure (\<lambda>(fd, b, es). script_size es)")
     (auto dest!: recv_Bytes_size[OF sym] dest: recv_Failed_size[OF sym])

declare worker.simps [simp del]

lemma recv_worker_data:
  assumes "length b = 1024" and "last b = NUL" and "length d \<le> 1023"
  shows "\<exists>b' t. blit b 0 d = Inr b' \<and> cstr b' 0 = Inr t \<and> length b' = 1024 \<and> last b' = NUL"
proof -
  let ?b = "d @ drop (length d) b"
  have l: "last ?b = NUL" "length ?b = 1024" using assms by (simp_all add: last_append)
  then have "NUL \<in> set ?b" using last_in_set[of ?b] by (cases ?b) auto
  then show ?thesis using l assms by (simp add: blit_ok cstr_def)
qed

lemma worker_spec:
  assumes "length b = 1024" and "last b = NUL"
  shows "\<exists>ps es' k. worker fd b es = Inr (ps, es', k)
    \<and> (k = [Close fd] \<or> k = reset_oneshot fd \<and> (es' = [] \<or> Err EAGAIN \<in> set es))"
  using assms
proof (induction fd b es rule: worker.induct)
  case (1 fd b es)
  obtain r es' where r: "recv 1023 es = (r, es')" by (cases "recv 1023 es")
  show ?case
  proof (cases r)
    case Closed
    then show ?thesis using r by (subst worker.simps) simp
  next
    case (Failed e)
    show ?thesis
    proof (cases "e = EAGAIN")
      case True
      have "es' = [] \<or> Err EAGAIN \<in> set es" using recv_EAGAIN[of 1023 es es'] r Failed True by auto
      then show ?thesis using r Failed True by (subst worker.simps) simp
    next
      case False
      then have "worker fd b es = worker fd b es'" using r Failed by (subst worker.simps) simp
      moreover obtain ps es'' k where "worker fd b es' = Inr (ps, es'', k)"
        "k = [Close fd] \<or> k = reset_oneshot fd \<and> (es'' = [] \<or> Err EAGAIN \<in> set es')"
        using 1(2)[OF r[symmetric] Failed False 1(3,4)] by blast
      ultimately show ?thesis using recv_set[OF r, of EAGAIN] by auto
    qed
  next
    case (Bytes d)
    have "length d \<le> 1023" using recv_Bytes r Bytes by blast
    from recv_worker_data[OF 1(3,4) this] obtain b' t where b': "blit b 0 d = Inr b'" "cstr b' 0 = Inr t"
      "length b' = 1024" "last b' = NUL" by blast
    obtain ps es'' k where w: "worker fd b' es' = Inr (ps, es'', k)"
      "k = [Close fd] \<or> k = reset_oneshot fd \<and> (es'' = [] \<or> Err EAGAIN \<in> set es')"
      using 1(1)[OF r[symmetric] Bytes b'] by blast
    have "worker fd b es = Inr (t # ps, es'', k)" using r Bytes b' w(1) by (subst worker.simps) simp
    then show ?thesis using w(2) recv_set[OF r, of EAGAIN] by auto
  qed
qed

text \<open>
  A worker thread returns, without a fault, for every input that ends, and either closes the
  connection or arms it again; it arms it only after everything that had arrived was read.
\<close>

theorem worker_rearms_drained:
  assumes "length b = 1024" and "last b = NUL" and "Err EAGAIN \<notin> set es"
  shows "\<exists>ps es' k. worker fd b es = Inr (ps, es', k)
    \<and> (k = [Close fd] \<or> k = reset_oneshot fd \<and> es' = [])"
  using worker_spec[OF assms(1,2), of fd es] assms(3) by blast

theorem worker_rearms_drained_witness:
  "\<exists>ps es' k. worker 7 (replicate 1024 NUL) [Data ''abc'', Err ECONNRESET, Data ''d''] = Inr (ps, es', k)
     \<and> (k = [Close 7] \<or> k = reset_oneshot 7 \<and> es' = [])"
  using worker_rearms_drained[of "replicate 1024 NUL" "[Data ''abc'', Err ECONNRESET, Data ''d'']" 7] by simp

subsection \<open>Echo over TCP and UDP\<close>

text \<open>
  The branch for a connection: the return value is compared with \<open>EAGAIN\<close>, not \<open>errno\<close>, and -1 is
  never equal to it, so every error closes. The first component of the result is \<open>ret\<close>.
\<close>

definition EAGAIN_VALUE :: int where "EAGAIN_VALUE = 11"

function tcp_echo :: "int \<Rightarrow> recv_event list \<Rightarrow> int \<times> sys_call list" where
  "tcp_echo fd es =
     (case recv 1023 es of
        (Failed e, es') \<Rightarrow> (-1, if -1 = EAGAIN_VALUE then [] else [Close fd])
      | (Closed, es') \<Rightarrow> (-1, [Close fd, Close fd])
      | (Bytes d, es') \<Rightarrow> (let (ret, k) = tcp_echo fd es' in (ret, Send fd d # k)))"
  by pat_completeness auto
termination
  by (relation "measure (\<lambda>(fd, es). script_size es)") (auto dest!: recv_Bytes_size[OF sym])

declare tcp_echo.simps [simp del]

text \<open>A datagram that was received, or an error; what is sent back is the string in the array.\<close>

definition udp_echo :: "int \<Rightarrow> string option \<Rightarrow> int \<times> sys_call list" where
  "udp_echo fd dgram =
     (case dgram of
        None \<Rightarrow> (-1, [])
      | Some d \<Rightarrow> let r = take 1023 d in
          (int (length r), if r = [] then [] else [Send fd (takeWhile (\<lambda>c. c \<noteq> NUL) r)]))"

text \<open>
  The loop over the events, with \<open>ret\<close> as its bound: the descriptor, its events, what \<open>accept\<close>
  returns, the datagram and the input of the connection. \<open>None\<close> is an entry that was not written.
\<close>

type_synonym echo_event = "int \<times> 32 word \<times> int \<times> string option \<times> recv_event list"

function echo_loop :: "int \<Rightarrow> int \<Rightarrow> (nat \<Rightarrow> echo_event option) \<Rightarrow> nat \<Rightarrow> int \<Rightarrow> sys_call list result" where
  "echo_loop tcp udp evs i ret =
     (if int i < ret then
        (if 1024 \<le> i then Inl (Bad_Load (int i))
         else case evs i of
           None \<Rightarrow> Inl (Bad_Load (int i))
         | Some (fd, ev, cfd, dgram, es) \<Rightarrow>
             (let (ret', k) = (if fd = tcp then (ret, addfd2 cfd False)
                               else if fd = udp then udp_echo fd dgram
                               else if ev AND EPOLLIN \<noteq> 0 then tcp_echo fd es
                               else (ret, []))
              in bindR (echo_loop tcp udp evs (Suc i) ret') (\<lambda>k'. Inr (k @ k'))))
      else Inr [])"
  by pat_completeness auto
termination
  by (relation "measure (\<lambda>(tcp, udp, evs, i, ret). 1024 - i)") auto

declare echo_loop.simps [simp del]

lemma tcp_echo_step: "recv 1023 es = (r, es') \<Longrightarrow> tcp_echo fd es =
    (case r of
       Failed e \<Rightarrow> (-1, [Close fd])
     | Closed \<Rightarrow> (-1, [Close fd, Close fd])
     | Bytes d \<Rightarrow> (fst (tcp_echo fd es'), Send fd d # snd (tcp_echo fd es')))"
  by (subst tcp_echo.simps) (simp add: split_beta EAGAIN_VALUE_def split: recv_ret.split)

lemma tcp_echo_spec:
  "fst (tcp_echo fd es) = -1 \<and> (\<exists>ds k. snd (tcp_echo fd es) = map (Send fd) ds @ Close fd # k
      \<and> set k \<subseteq> {Close fd} \<and> concat ds = pending es)"
proof (induction fd es rule: tcp_echo.induct)
  case (1 fd es)
  obtain r es' where r: "recv 1023 es = (r, es')" by (cases "recv 1023 es")
  show ?case
  proof (cases r)
    case (Bytes d)
    obtain ds k where IH: "fst (tcp_echo fd es') = -1" "snd (tcp_echo fd es') = map (Send fd) ds @ Close fd # k"
      "set k \<subseteq> {Close fd}" "concat ds = pending es'"
      using 1[OF r[symmetric] Bytes] by blast
    have "pending es = concat (d # ds)" using recv_Bytes[of 1023 es d es'] r Bytes IH(4) by simp
    then show ?thesis using IH tcp_echo_step[OF r, of fd] Bytes
      by (intro conjI exI[of _ "d # ds"] exI[of _ k]) simp_all
  next
    case Closed
    then show ?thesis using tcp_echo_step[OF r, of fd] r recv_Closed[of 1023 es es']
      by (intro conjI exI[of _ "[]"] exI[of _ "[Close fd]"]) simp_all
  next
    case (Failed e)
    then show ?thesis using tcp_echo_step[OF r, of fd] r recv_Failed[of 1023 es e es']
      by (intro conjI exI[of _ "[]"] exI[of _ "[]"]) simp_all
  qed
qed

text \<open>
  The echo server answers a client once. What had arrived is sent back whole, but then the
  connection is always closed, since the test for \<open>EAGAIN\<close> looks at the wrong variable, and the
  number of events is overwritten with -1, so that the events behind it are dropped.
\<close>

theorem tcp_echo_closes:
  assumes "int i < ret" and "i < 1024" and "evs i = Some (fd, ev, cfd, dgram, es)"
    and "fd \<noteq> tcp" and "fd \<noteq> udp" and "ev AND EPOLLIN \<noteq> 0"
  shows "\<exists>ds k. echo_loop tcp udp evs i ret = Inr (map (Send fd) ds @ Close fd # k)
    \<and> concat ds = pending es \<and> set k \<subseteq> {Close fd}"
proof -
  obtain ds k where e: "fst (tcp_echo fd es) = -1" "snd (tcp_echo fd es) = map (Send fd) ds @ Close fd # k"
    "set k \<subseteq> {Close fd}" "concat ds = pending es"
    using tcp_echo_spec by blast
  have "echo_loop tcp udp evs (Suc i) (-1) = Inr []" by (subst echo_loop.simps) simp
  then have "echo_loop tcp udp evs i ret = Inr (snd (tcp_echo fd es))"
    using assms e(1) by (subst echo_loop.simps) (simp add: split_beta)
  then show ?thesis using e by auto
qed

theorem tcp_echo_closes_witness:
  "\<exists>ds k. echo_loop 3 4 (\<lambda>i. Some (if i = 0 then 7 else 8, EPOLLIN, -1, None, [Data ''hi''])) 0 2
     = Inr (map (Send 7) ds @ Close 7 # k) \<and> concat ds = ''hi'' \<and> set k \<subseteq> {Close 7}"
proof -
  have "\<exists>ds k. echo_loop 3 4 (\<lambda>i. Some (if i = 0 then 7 else 8, EPOLLIN, -1, None, [Data ''hi''])) 0 2
     = Inr (map (Send 7) ds @ Close 7 # k) \<and> concat ds = pending [Data ''hi''] \<and> set k \<subseteq> {Close 7}"
    by (rule tcp_echo_closes[where ev = EPOLLIN]) (simp_all, simp add: EPOLLIN_def)
  then show ?thesis by simp
qed

subsection \<open>Connecting without blocking\<close>

text \<open>
  What the system does during \<open>unblock_connect\<close>: the result of \<open>connect\<close>, the descriptors that
  become writable before the time is over (\<open>None\<close> when \<open>select\<close> fails), and \<open>SO_ERROR\<close> (\<open>None\<close> when
  \<open>getsockopt\<close> fails).
\<close>

datatype connect_ret = Connected | In_Progress | Connect_Error

record connect_env =
  ce_connect :: connect_ret
  ce_writable :: "int set option"
  ce_error :: "int option"

text \<open>\<open>select\<close> leaves of a set the descriptors that are ready; the set that is passed is empty.\<close>

definition select_set :: "int set \<Rightarrow> int set \<Rightarrow> int set" where
  "select_set fds ready = fds \<inter> ready"

definition unblock_connect :: "int \<Rightarrow> connect_env \<Rightarrow> int \<times> sys_call list" where
  "unblock_connect sock env =
     (case ce_connect env of
        Connected \<Rightarrow> (sock, [Set_Nonblock sock, Restore_Flags sock])
      | Connect_Error \<Rightarrow> (-1, [Set_Nonblock sock])
      | In_Progress \<Rightarrow>
          (case ce_writable env of
             None \<Rightarrow> (-1, [Set_Nonblock sock, Close sock])
           | Some ready \<Rightarrow>
               let write_fd = select_set {} ready in
               if sock \<notin> write_fd then (-1, [Set_Nonblock sock, Close sock])
               else (case ce_error env of
                   None \<Rightarrow> (-1, [Set_Nonblock sock, Close sock])
                 | Some e \<Rightarrow> if e \<noteq> 0 then (-1, [Set_Nonblock sock, Close sock])
                             else (sock, [Set_Nonblock sock, Restore_Flags sock]))))"

text \<open>The blocking variant with a send timeout, \<open>connect_timeout\<close> of 81\_timer/main.cpp.\<close>

definition connect_timeout :: "int \<Rightarrow> connect_env \<Rightarrow> int \<times> sys_call list" where
  "connect_timeout sock env =
     (case ce_connect env of Connected \<Rightarrow> (sock, []) | In_Progress \<Rightarrow> (-1, []) | Connect_Error \<Rightarrow> (-1, []))"

text \<open>
  \<open>unblock_connect\<close> succeeds only when \<open>connect\<close> does at once: the socket is never put into the
  set that \<open>select\<close> waits for, so a connection that is in progress always counts as failed, even
  when it is made. A \<open>connect\<close> that fails at once leaves the socket open.
\<close>

theorem unblock_connect_outcome:
  assumes "0 \<le> sock"
  shows "(fst (unblock_connect sock env) = sock \<longleftrightarrow> ce_connect env = Connected)
    \<and> (ce_connect env = In_Progress \<longrightarrow> unblock_connect sock env = (-1, [Set_Nonblock sock, Close sock]))
    \<and> (ce_connect env = Connect_Error \<longrightarrow> fst (unblock_connect sock env) = -1
         \<and> Close sock \<notin> set (snd (unblock_connect sock env)))"
  using assms by (auto simp: unblock_connect_def select_set_def split: connect_ret.splits option.splits)

theorem unblock_connect_outcome_witness:
  "unblock_connect 5 \<lparr>ce_connect = In_Progress, ce_writable = Some {5}, ce_error = Some 0\<rparr>
     = (-1, [Set_Nonblock 5, Close 5])"
  using unblock_connect_outcome[of 5 "\<lparr>ce_connect = In_Progress, ce_writable = Some {5}, ce_error = Some 0\<rparr>"] by simp

end
