(* ===== verification/Poll_Chat.thy ===== *)
theory Poll_Chat
  imports C_Io
begin

text \<open>
  The chat room over TCP of 79\_io\_reuse/main.cpp: \<open>chat_room_server\<close>, a loop over an array of six
  \<open>pollfd\<close>, the listening socket first. What one user sends is written to the others from the
  sender's own buffer, when they can be written.
\<close>

subsection \<open>State\<close>

definition POLLIN :: "16 word" where "POLLIN = 0x001"
definition POLLOUT :: "16 word" where "POLLOUT = 0x004"
definition POLLERR :: "16 word" where "POLLERR = 0x008"
definition POLLHUP :: "16 word" where "POLLHUP = 0x010"
definition POLLNVAL :: "16 word" where "POLLNVAL = 0x020"
definition POLLRDHUP :: "16 word" where "POLLRDHUP = 0x2000"

lemmas poll_defs = POLLIN_def POLLOUT_def POLLERR_def POLLHUP_def POLLNVAL_def POLLRDHUP_def

record pollfd =
  poll_fd :: int
  poll_events :: "16 word"
  poll_revents :: "16 word"

text \<open>
  \<open>write_buf\<close> points to the buffer of a user, is NULL, or was never set (the array of users is not
  initialised). The buffer is cleared before data is received into it, so it is a string.
\<close>

datatype buf_ptr = Unset | Null | Buf_Of int

record chat_user =
  chat_buf :: string
  write_buf :: buf_ptr

record chat_server =
  fds :: "pollfd list"
  user_cnt :: int
  chat_users :: "int \<Rightarrow> chat_user"

record chat_reply =
  rp_accept :: int
  rp_recv :: recv_ret

definition new_pollfd :: "int \<Rightarrow> pollfd" where
  "new_pollfd cfd = \<lparr>poll_fd = cfd, poll_events = POLLIN OR POLLRDHUP OR POLLERR, poll_revents = 0\<rparr>"

definition chat_start :: "int \<Rightarrow> (int \<Rightarrow> chat_user) \<Rightarrow> chat_server" where
  "chat_start sock us =
     \<lparr>fds = \<lparr>poll_fd = sock, poll_events = POLLIN OR POLLERR, poll_revents = 0\<rparr>
             # replicate 5 \<lparr>poll_fd = -1, poll_events = 0, poll_revents = 0\<rparr>,
      user_cnt = 0, chat_users = us\<rparr>"

subsection \<open>The loop over the array\<close>

definition fd_at :: "chat_server \<Rightarrow> int \<Rightarrow> pollfd" where
  "fd_at s i = fds s ! nat i"

definition set_fd :: "int \<Rightarrow> pollfd \<Rightarrow> chat_server \<Rightarrow> chat_server" where
  "set_fd i p s = s\<lparr>fds := (fds s)[nat i := p]\<rparr>"

definition set_user :: "int \<Rightarrow> chat_user \<Rightarrow> chat_server \<Rightarrow> chat_server" where
  "set_user fd u s = s\<lparr>chat_users := (chat_users s)(fd := u)\<rparr>"

text \<open>The last user takes the place of the one at \<open>i\<close>.\<close>

definition remove_user :: "int \<Rightarrow> chat_server \<Rightarrow> chat_server" where
  "remove_user i s =
     (set_fd i (fd_at s (user_cnt s))
        (set_user (poll_fd (fd_at s i)) (chat_users s (poll_fd (fd_at s (user_cnt s)))) s))
       \<lparr>user_cnt := user_cnt s - 1\<rparr>"

text \<open>Every user with another descriptor is to be written from the buffer of \<open>fd\<close>.\<close>

fun notify :: "int \<Rightarrow> int list \<Rightarrow> chat_server \<Rightarrow> chat_server" where
  "notify fd [] s = s"
| "notify fd (j # js) s =
     (let p = fd_at s j in
      if poll_fd p = fd then notify fd js s
      else notify fd js
        (set_user (poll_fd p) ((chat_users s (poll_fd p))\<lparr>write_buf := Buf_Of fd\<rparr>)
          (set_fd j (p\<lparr>poll_events := (poll_events p OR NOT POLLIN) OR POLLOUT\<rparr>) s)))"

text \<open>One turn of the loop at \<open>i\<close>: the state, the calls, and the index of the next turn.\<close>

definition chat_step :: "int \<Rightarrow> int \<Rightarrow> chat_reply \<Rightarrow> chat_server \<Rightarrow> (chat_server \<times> sys_call list \<times> int) result" where
  "chat_step sock i r s =
     (let p = fd_at s i; fd = poll_fd p; ev = poll_revents p in
      if fd = sock \<and> ev AND POLLIN \<noteq> 0 then
        (let cfd = rp_accept r in
         if cfd < 0 then Inr (s, [], i + 1)
         else if 5 \<le> user_cnt s then Inr (s, [Send sock (''too many users'' @ [LF]), Close cfd], i + 1)
         else if 65535 \<le> cfd then Inl (Bad_Store cfd)
         else Inr (set_fd (user_cnt s + 1) (new_pollfd cfd) (s\<lparr>user_cnt := user_cnt s + 1\<rparr>), [Set_Nonblock cfd], i + 1))
      else if ev AND POLLERR \<noteq> 0 then Inr (s, [], i + 1)
      else if ev AND POLLRDHUP \<noteq> 0 then Inr (remove_user i s, [Close fd], i)
      else if ev AND POLLIN \<noteq> 0 then
        (case rp_recv r of
           Failed e \<Rightarrow>
             (let s1 = set_user fd ((chat_users s fd)\<lparr>chat_buf := []\<rparr>) s in
              if e \<noteq> EAGAIN then Inr (remove_user i s1, [Close fd], i) else Inr (s1, [], i + 1))
         | Closed \<Rightarrow> Inr (set_user fd ((chat_users s fd)\<lparr>chat_buf := []\<rparr>) s, [], i + 1)
         | Bytes d \<Rightarrow>
             Inr (notify fd [1..user_cnt s] (set_user fd ((chat_users s fd)\<lparr>chat_buf := d\<rparr>) s), [], i + 1))
      else if ev AND POLLOUT \<noteq> 0 then
        (case write_buf (chat_users s fd) of
           Unset \<Rightarrow> Inl (Bad_Load fd)
         | Null \<Rightarrow> Inr (s, [], i + 1)
         | Buf_Of g \<Rightarrow>
             Inr (set_fd i (p\<lparr>poll_events := (poll_events p OR NOT POLLOUT) OR POLLIN\<rparr>)
                    (set_user fd ((chat_users s fd)\<lparr>write_buf := Null\<rparr>) s),
                  [Send fd (takeWhile (\<lambda>c. c \<noteq> NUL) (chat_buf (chat_users s g)))], i + 1))
      else Inr (s, [], i + 1))"

lemma notify_frame [simp]: "user_cnt (notify fd js s) = user_cnt s"
  by (induction fd js s rule: notify.induct) (auto simp: set_user_def set_fd_def Let_def)

lemma chat_step_progress:
  "chat_step sock i r s = Inr (s', k, i') \<Longrightarrow>
     i' = i + 1 \<or> i' = i \<and> user_cnt s' = user_cnt s - 1"
  by (auto simp: chat_step_def Let_def remove_user_def set_user_def set_fd_def
      split: if_splits recv_ret.splits buf_ptr.splits)

text \<open>The whole pass; \<open>rs t\<close> is what the system gives the \<open>t\<close>th turn.\<close>

function chat_loop :: "int \<Rightarrow> (nat \<Rightarrow> chat_reply) \<Rightarrow> nat \<Rightarrow> int \<Rightarrow> chat_server \<Rightarrow> (chat_server \<times> sys_call list) result" where
  "chat_loop sock rs t i s =
     (if i < user_cnt s + 1 then
        (if i < 0 \<or> 6 \<le> i then Inl (Bad_Load i)
         else bindR (chat_step sock i (rs t) s) (\<lambda>(s1, k1, i1).
                bindR (chat_loop sock rs (Suc t) i1 s1) (\<lambda>(s2, k2). Inr (s2, k1 @ k2))))
      else Inr (s, []))"
  by pat_completeness auto
termination
  by (relation "measures [\<lambda>(sock, rs, t, i, s). nat (6 - i), \<lambda>(sock, rs, t, i, s). nat (user_cnt s + 1)]")
     (auto dest!: chat_step_progress)

declare chat_loop.simps [simp del]

text \<open>\<open>poll\<close> fills in the events that occurred, and the loop runs; \<open>None\<close> is an error.\<close>

definition chat_turn :: "int \<Rightarrow> 16 word list option \<Rightarrow> (nat \<Rightarrow> chat_reply) \<Rightarrow> chat_server
    \<Rightarrow> (chat_server \<times> sys_call list \<times> bool) result" where
  "chat_turn sock evs rs s =
     (case evs of
        None \<Rightarrow> Inr (s, [], False)
      | Some vs \<Rightarrow>
          let n = nat (user_cnt s + 1) in
          bindR (chat_loop sock rs 0 0
                   (s\<lparr>fds := map2 (\<lambda>p v. p\<lparr>poll_revents := v\<rparr>) (take n (fds s)) (take n vs) @ drop n (fds s)\<rparr>))
            (\<lambda>(s', k). Inr (s', k, True)))"

subsection \<open>Who is in the room\<close>

definition wants_write :: "pollfd \<Rightarrow> pollfd" where
  "wants_write p = p\<lparr>poll_events := (poll_events p OR NOT POLLIN) OR POLLOUT\<rparr>"

lemma wants_write_simps [simp]:
  "poll_fd (wants_write p) = poll_fd p" "poll_revents (wants_write p) = poll_revents p"
  "poll_events (wants_write p) AND POLLOUT = POLLOUT"
proof -
  show "poll_events (wants_write p) AND POLLOUT = POLLOUT"
    by (rule bit_word_eqI) (auto simp: wants_write_def bit_simps)
qed (simp_all add: wants_write_def)

lemma notify_spec:
  assumes "distinct js" and "\<forall>j \<in> set js. 0 \<le> j \<and> j < int (length (fds s))"
  shows "length (fds (notify fd js s)) = length (fds s)
    \<and> (\<forall>k < length (fds s). fds (notify fd js s) ! k =
         (if int k \<in> set js \<and> poll_fd (fds s ! k) \<noteq> fd then wants_write (fds s ! k) else fds s ! k))
    \<and> (\<forall>g. chat_users (notify fd js s) g =
         (if g \<noteq> fd \<and> (\<exists>j \<in> set js. poll_fd (fd_at s j) = g)
          then (chat_users s g)\<lparr>write_buf := Buf_Of fd\<rparr> else chat_users s g))"
  using assms
proof (induction fd js s rule: notify.induct)
  case (1 fd s)
  then show ?case by simp
next
  case (2 fd j js s)
  let ?p = "fd_at s j"
  have j: "0 \<le> j" "j < int (length (fds s))" "j \<notin> set js" "nat j < length (fds s)" using 2(3,4) by auto
  show ?case
  proof (cases "poll_fd ?p = fd")
    case True
    have IH: "length (fds (notify fd js s)) = length (fds s)
      \<and> (\<forall>k < length (fds s). fds (notify fd js s) ! k =
         (if int k \<in> set js \<and> poll_fd (fds s ! k) \<noteq> fd then wants_write (fds s ! k) else fds s ! k))
      \<and> (\<forall>g. chat_users (notify fd js s) g =
         (if g \<noteq> fd \<and> (\<exists>j \<in> set js. poll_fd (fd_at s j) = g)
          then (chat_users s g)\<lparr>write_buf := Buf_Of fd\<rparr> else chat_users s g))"
      using 2(1)[OF refl True] 2(3,4) by simp
    have n: "notify fd (j # js) s = notify fd js s" using True by simp
    have "poll_fd (fds s ! k) = fd" if "int k = j" for k using that True by (auto simp: fd_at_def)
    then show ?thesis using IH True unfolding n by auto
  next
    case False
    let ?s = "set_user (poll_fd ?p) ((chat_users s (poll_fd ?p))\<lparr>write_buf := Buf_Of fd\<rparr>) (set_fd j (wants_write ?p) s)"
    have n: "notify fd (j # js) s = notify fd js ?s" using False by (simp add: Let_def wants_write_def)
    have len: "length (fds ?s) = length (fds s)" by (simp add: set_user_def set_fd_def)
    have at: "fds ?s ! k = (if int k = j then wants_write ?p else fds s ! k)" if "k < length (fds s)" for k
      using j that by (auto simp: set_user_def set_fd_def nth_list_update)
    have ath: "poll_fd (fd_at ?s m) = poll_fd (fd_at s m)" if "0 \<le> m" "m < int (length (fds s))" for m
      using at[of "nat m"] that by (auto simp: fd_at_def)
    have us: "chat_users ?s g = (if g = poll_fd ?p then (chat_users s g)\<lparr>write_buf := Buf_Of fd\<rparr> else chat_users s g)" for g
      by (simp add: set_user_def set_fd_def)
    have IH: "length (fds (notify fd js ?s)) = length (fds ?s)
      \<and> (\<forall>k < length (fds ?s). fds (notify fd js ?s) ! k =
         (if int k \<in> set js \<and> poll_fd (fds ?s ! k) \<noteq> fd then wants_write (fds ?s ! k) else fds ?s ! k))
      \<and> (\<forall>g. chat_users (notify fd js ?s) g =
         (if g \<noteq> fd \<and> (\<exists>j \<in> set js. poll_fd (fd_at ?s j) = g)
          then (chat_users ?s g)\<lparr>write_buf := Buf_Of fd\<rparr> else chat_users ?s g))"
      using 2(2)[OF refl False] 2(3,4) len by (simp add: wants_write_def)
    have fdsc: "fds (notify fd js ?s) ! k =
         (if int k \<in> set (j # js) \<and> poll_fd (fds s ! k) \<noteq> fd then wants_write (fds s ! k) else fds s ! k)"
      if k: "k < length (fds s)" for k
    proof (cases "int k = j")
      case True
      then have "fds s ! k = ?p" by (auto simp: fd_at_def)
      then show ?thesis using IH k len at[OF k] True j(3) False by simp
    next
      case False
      then show ?thesis using IH k len at[OF k] by simp
    qed
    have same: "(\<exists>m \<in> set js. poll_fd (fd_at ?s m) = g) \<longleftrightarrow> (\<exists>m \<in> set js. poll_fd (fd_at s m) = g)" for g
      using ath 2(4) by auto
    have "chat_users (notify fd js ?s) g = (if g \<noteq> fd \<and> (\<exists>m \<in> set (j # js). poll_fd (fd_at s m) = g)
          then (chat_users s g)\<lparr>write_buf := Buf_Of fd\<rparr> else chat_users s g)" for g
      using IH same[of g] us[of g] False by auto
    then show ?thesis using IH fdsc len unfolding n by simp
  qed
qed

definition slot_ok :: "(int \<Rightarrow> chat_user) \<Rightarrow> pollfd \<Rightarrow> bool" where
  "slot_ok us p \<longleftrightarrow> 0 \<le> poll_fd p \<and> poll_fd p < 65535
     \<and> (poll_events p AND POLLOUT \<noteq> 0 \<longrightarrow> write_buf (us (poll_fd p)) \<noteq> Unset)
     \<and> (poll_revents p AND POLLOUT \<noteq> 0 \<longrightarrow> poll_events p AND POLLOUT \<noteq> 0)"

definition chat_inv :: "int \<Rightarrow> chat_server \<Rightarrow> bool" where
  "chat_inv sock s \<longleftrightarrow> length (fds s) = 6 \<and> 0 \<le> user_cnt s \<and> user_cnt s \<le> 5
     \<and> poll_fd (fds s ! 0) = sock
     \<and> poll_revents (fds s ! 0) AND POLLRDHUP = 0 \<and> poll_revents (fds s ! 0) AND POLLOUT = 0
     \<and> inj_on (\<lambda>j. poll_fd (fds s ! j)) {0..nat (user_cnt s)}
     \<and> (\<forall>j. 1 \<le> j \<and> j \<le> nat (user_cnt s) \<longrightarrow> slot_ok (chat_users s) (fds s ! j))"

lemma slot_ok_user: "slot_ok us p \<Longrightarrow> g \<noteq> poll_fd p \<Longrightarrow> slot_ok (us(g := u)) p"
  by (auto simp: slot_ok_def)

lemma slot_ok_same_ptr: "slot_ok us p \<Longrightarrow> write_buf (us' (poll_fd p)) \<noteq> Unset \<Longrightarrow> slot_ok us' p"
  by (auto simp: slot_ok_def)

lemma remove_user_inv:
  assumes "chat_inv sock s" and "1 \<le> i" and "i \<le> user_cnt s"
  shows "chat_inv sock (remove_user i s)"
    and "user_cnt (remove_user i s) = user_cnt s - 1"
proof -
  let ?n = "nat (user_cnt s)" and ?i = "nat i"
  let ?s = "remove_user i s"
  have c: "length (fds s) = 6" "0 \<le> user_cnt s" "user_cnt s \<le> 5" "poll_fd (fds s ! 0) = sock"
    "inj_on (\<lambda>j. poll_fd (fds s ! j)) {0..?n}"
    "\<And>j. 1 \<le> j \<Longrightarrow> j \<le> ?n \<Longrightarrow> slot_ok (chat_users s) (fds s ! j)"
    using assms(1) by (auto simp: chat_inv_def)
  have i: "1 \<le> ?i" "?i \<le> ?n" "?i < 6" using assms(2,3) c(3) by auto
  show cnt: "user_cnt ?s = user_cnt s - 1" by (simp add: remove_user_def set_fd_def set_user_def)
  then have n: "nat (user_cnt ?s) = ?n - 1" by (simp add: nat_diff_distrib')
  have fdsj: "fds ?s ! j = (if j = ?i then fds s ! ?n else fds s ! j)" for j
    using i c(1) by (simp add: remove_user_def set_fd_def set_user_def fd_at_def nth_list_update)
  have us: "chat_users ?s = (chat_users s)(poll_fd (fds s ! ?i) := chat_users s (poll_fd (fds s ! ?n)))"
    by (simp add: remove_user_def set_fd_def set_user_def fd_at_def)
  have len: "length (fds ?s) = 6" using c(1) by (simp add: remove_user_def set_fd_def set_user_def)
  have "inj_on (\<lambda>j. poll_fd (fds ?s ! j)) {0..?n - 1}"
  proof (rule inj_onI)
    fix j k assume jk: "j \<in> {0..?n - 1}" "k \<in> {0..?n - 1}" "poll_fd (fds ?s ! j) = poll_fd (fds ?s ! k)"
    define f where "f = (\<lambda>j. if j = ?i then ?n else j)"
    have "poll_fd (fds s ! f j) = poll_fd (fds s ! f k)" using jk(3) by (auto simp: fdsj f_def split: if_splits)
    moreover have "f j \<in> {0..?n}" "f k \<in> {0..?n}" using jk(1,2) by (auto simp: f_def)
    ultimately have "f j = f k" using c(5) by (auto dest: inj_onD)
    then show "j = k" using jk(1,2) i by (auto simp: f_def split: if_splits)
  qed
  moreover have "slot_ok (chat_users ?s) (fds ?s ! j)" if j: "1 \<le> j" "j \<le> ?n - 1" for j
  proof -
    define m where "m = (if j = ?i then ?n else j)"
    have m: "1 \<le> m" "m \<le> ?n" "m \<noteq> ?i" using j i by (auto simp: m_def split: if_splits)
    have "poll_fd (fds s ! ?i) \<noteq> poll_fd (fds s ! m)"
      using inj_onD[OF c(5), of ?i m] m i by auto
    then show ?thesis using slot_ok_user[OF c(6)[OF m(1,2)]] by (auto simp: us fdsj m_def)
  qed
  moreover have "fds ?s ! 0 = fds s ! 0" using i by (simp add: fdsj)
  ultimately show "chat_inv sock ?s"
    using len c cnt assms unfolding chat_inv_def n by auto
qed

lemma POLLOUT_nz: "POLLOUT \<noteq> 0"
  by (simp add: POLLOUT_def)

lemma out_bits: "((e OR NOT POLLOUT) OR POLLIN) AND POLLOUT = e AND POLLOUT"
proof -
  have "POLLIN AND POLLOUT = 0" by (simp add: POLLIN_def POLLOUT_def)
  then show ?thesis by (simp add: bit.conj_disj_distrib2)
qed

lemma POLLOUT_bits: "poll_events (new_pollfd c) AND POLLOUT = 0" "poll_revents (new_pollfd c) AND POLLOUT = 0"
  "poll_fd (new_pollfd c) = c" "poll_revents (new_pollfd c) = 0"
  by (simp_all add: new_pollfd_def poll_defs)

lemma accept_inv:
  assumes "chat_inv sock s" and "user_cnt s < 5" and "0 \<le> cfd" and "cfd < 65535"
    and "\<forall>j \<le> nat (user_cnt s). poll_fd (fds s ! j) \<noteq> cfd"
  shows "chat_inv sock (set_fd (user_cnt s + 1) (new_pollfd cfd) (s\<lparr>user_cnt := user_cnt s + 1\<rparr>))"
proof -
  let ?n = "nat (user_cnt s)"
  let ?s = "set_fd (user_cnt s + 1) (new_pollfd cfd) (s\<lparr>user_cnt := user_cnt s + 1\<rparr>)"
  have c: "length (fds s) = 6" "0 \<le> user_cnt s" "poll_fd (fds s ! 0) = sock"
    "inj_on (\<lambda>j. poll_fd (fds s ! j)) {0..?n}"
    "\<And>j. 1 \<le> j \<Longrightarrow> j \<le> ?n \<Longrightarrow> slot_ok (chat_users s) (fds s ! j)"
    using assms(1) by (auto simp: chat_inv_def)
  have n: "nat (user_cnt ?s) = Suc ?n" "nat (user_cnt s + 1) = Suc ?n" using c(2) by (simp_all add: set_fd_def nat_add_distrib)
  have fdsj: "fds ?s ! j = (if j = Suc ?n then new_pollfd cfd else fds s ! j)" for j
    using c(1) assms(2) n(2) by (simp add: set_fd_def nth_list_update)
  have "inj_on (\<lambda>j. poll_fd (fds ?s ! j)) {0..Suc ?n}"
  proof (rule inj_onI)
    fix j k assume jk: "j \<in> {0..Suc ?n}" "k \<in> {0..Suc ?n}" "poll_fd (fds ?s ! j) = poll_fd (fds ?s ! k)"
    show "j = k"
    proof (cases "j = Suc ?n \<or> k = Suc ?n")
      case True
      then show ?thesis using jk assms(5) by (auto simp: fdsj POLLOUT_bits le_Suc_eq split: if_splits)
    next
      case False
      then have "j \<in> {0..?n}" "k \<in> {0..?n}" using jk(1,2) by auto
      then show ?thesis using jk(3) False inj_onD[OF c(4)] by (auto simp: fdsj)
    qed
  qed
  moreover have us: "chat_users ?s = chat_users s" by (simp add: set_fd_def)
  moreover have "slot_ok (chat_users s) (new_pollfd cfd)" using assms(3,4) by (simp add: slot_ok_def POLLOUT_bits)
  then have "slot_ok (chat_users ?s) (fds ?s ! j)" if "1 \<le> j" "j \<le> Suc ?n" for j
    using c(5)[of j] that by (auto simp: fdsj us)
  moreover have "fds ?s ! 0 = fds s ! 0" by (simp add: fdsj)
  moreover have "length (fds ?s) = 6" "user_cnt ?s = user_cnt s + 1" using c(1) by (simp_all add: set_fd_def)
  ultimately show ?thesis using assms(1,2) unfolding chat_inv_def n by auto
qed

lemma set_user_inv:
  assumes "chat_inv sock s" and "write_buf u \<noteq> Unset \<or> write_buf u = write_buf (chat_users s fd)"
  shows "chat_inv sock (set_user fd u s)"
proof -
  have "slot_ok ((chat_users s)(fd := u)) p" if "slot_ok (chat_users s) p" for p
    using that assms(2) by (auto simp: slot_ok_def)
  then show ?thesis using assms(1) by (auto simp: chat_inv_def set_user_def)
qed

lemma set_fd_inv:
  assumes "chat_inv sock s" and "1 \<le> i" and "i \<le> user_cnt s"
    and "poll_fd p = poll_fd (fd_at s i)" and "slot_ok (chat_users s) p"
  shows "chat_inv sock (set_fd i p s)"
proof -
  have len: "length (fds s) = 6" "user_cnt s \<le> 5" using assms(1) by (auto simp: chat_inv_def)
  have fdsj: "fds (set_fd i p s) ! j = (if j = nat i then p else fds s ! j)" for j
    using len assms(3) by (simp add: set_fd_def nth_list_update)
  have same: "poll_fd (fds (set_fd i p s) ! j) = poll_fd (fds s ! j)" for j
    using assms(4) by (simp add: fdsj fd_at_def)
  have z: "fds (set_fd i p s) ! 0 = fds s ! 0" using assms(2) by (simp add: fdsj)
  have u: "user_cnt (set_fd i p s) = user_cnt s" "chat_users (set_fd i p s) = chat_users s"
    "length (fds (set_fd i p s)) = length (fds s)" by (simp_all add: set_fd_def)
  show ?thesis using assms(1,5) unfolding chat_inv_def same z u by (auto simp: fdsj)
qed

lemma notify_inv:
  assumes "chat_inv sock s"
  shows "chat_inv sock (notify fd [1..user_cnt s] s)"
proof -
  let ?n = "nat (user_cnt s)" and ?s = "notify fd [1..user_cnt s] s"
  have c: "length (fds s) = 6" "0 \<le> user_cnt s" "user_cnt s \<le> 5"
    "\<And>j. 1 \<le> j \<Longrightarrow> j \<le> ?n \<Longrightarrow> slot_ok (chat_users s) (fds s ! j)"
    using assms by (auto simp: chat_inv_def)
  have N: "length (fds ?s) = length (fds s)"
    "\<And>k. k < length (fds s) \<Longrightarrow> fds ?s ! k =
         (if int k \<in> set [1..user_cnt s] \<and> poll_fd (fds s ! k) \<noteq> fd then wants_write (fds s ! k) else fds s ! k)"
    "\<And>g. chat_users ?s g =
         (if g \<noteq> fd \<and> (\<exists>j \<in> set [1..user_cnt s]. poll_fd (fd_at s j) = g)
          then (chat_users s g)\<lparr>write_buf := Buf_Of fd\<rparr> else chat_users s g)"
    using notify_spec[of "[1..user_cnt s]" s fd] c(1,3) by auto
  have same: "poll_fd (fds ?s ! k) = poll_fd (fds s ! k)" if "k < 6" for k using N(2)[of k] that c(1) by simp
  have "slot_ok (chat_users ?s) (fds ?s ! j)" if j: "1 \<le> j" "j \<le> ?n" for j
  proof -
    have j6: "j < length (fds s)" "int j \<in> set [1..user_cnt s]" using j c by auto
    have ok: "slot_ok (chat_users s) (fds s ! j)" by (rule c(4)[OF j])
    have at: "poll_fd (fd_at s (int j)) = poll_fd (fds s ! j)" by (simp add: fd_at_def)
    show ?thesis
    proof (cases "poll_fd (fds s ! j) = fd")
      case True
      then show ?thesis using ok N(2)[OF j6(1)] N(3) by (simp add: slot_ok_def)
    next
      case False
      then have "write_buf (chat_users ?s (poll_fd (fds s ! j))) = Buf_Of fd"
        using N(3)[of "poll_fd (fds s ! j)"] j6(2) at by auto
      then show ?thesis using ok N(2)[OF j6(1)] False j6(2) by (simp add: slot_ok_def POLLOUT_nz)
    qed
  qed
  moreover have "inj_on (\<lambda>j. poll_fd (fds ?s ! j)) {0..?n}"
  proof -
    have "inj_on (\<lambda>j. poll_fd (fds s ! j)) {0..?n}" using assms by (simp add: chat_inv_def)
    moreover have "poll_fd (fds ?s ! j) = poll_fd (fds s ! j)" if "j \<in> {0..?n}" for j using same[of j] that c(3) by auto
    ultimately show ?thesis by (simp add: inj_on_def)
  qed
  moreover have "fds ?s ! 0 = fds s ! 0" using N(2)[of 0] c(1) by simp
  ultimately show ?thesis using assms N(1) unfolding chat_inv_def by simp
qed

lemma chat_step_inv:
  assumes "chat_inv sock s" and "0 \<le> i" and "i \<le> user_cnt s"
    and "i = 0 \<Longrightarrow> rp_accept r < 65535 \<and> (\<forall>j \<le> nat (user_cnt s). poll_fd (fds s ! j) \<noteq> rp_accept r)"
  shows "\<exists>s' k i'. chat_step sock i r s = Inr (s', k, i') \<and> chat_inv sock s' \<and> 1 \<le> i'"
proof -
  let ?p = "fd_at s i" and ?fd = "poll_fd (fd_at s i)"
  have c: "length (fds s) = 6" "0 \<le> user_cnt s" "user_cnt s \<le> 5" "poll_fd (fds s ! 0) = sock"
    using assms(1) by (auto simp: chat_inv_def)
  show ?thesis
  proof (cases "i = 0")
    case True
    then have p: "?fd = sock" "poll_revents ?p AND POLLRDHUP = 0" "poll_revents ?p AND POLLOUT = 0"
      using assms(1) by (auto simp: chat_inv_def fd_at_def)
    have "chat_inv sock (set_fd (user_cnt s + 1) (new_pollfd (rp_accept r)) (s\<lparr>user_cnt := user_cnt s + 1\<rparr>))"
      if "0 \<le> rp_accept r" "user_cnt s < 5"
      by (rule accept_inv[OF assms(1) that(2,1)]) (use assms(4) True in auto)
    then show ?thesis using True p assms(1,4) by (auto simp: chat_step_def Let_def not_le not_less)
  next
    case False
    then have i: "1 \<le> i" using assms(2) by simp
    then have ni: "1 \<le> nat i" "nat i \<le> nat (user_cnt s)" using assms(3) by auto
    have "?fd \<noteq> sock"
    proof -
      have "inj_on (\<lambda>j. poll_fd (fds s ! j)) {0..nat (user_cnt s)}" using assms(1) by (simp add: chat_inv_def)
      from inj_onD[OF this, of "nat i" 0] ni c(4) show ?thesis by (auto simp: fd_at_def)
    qed
    moreover have ok: "slot_ok (chat_users s) ?p" using assms(1) ni by (auto simp: chat_inv_def fd_at_def)
    ultimately consider (c1) "poll_revents ?p AND POLLERR \<noteq> 0"
      | (c2) "poll_revents ?p AND POLLERR = 0" "poll_revents ?p AND POLLRDHUP \<noteq> 0"
      | (c3) "poll_revents ?p AND POLLERR = 0" "poll_revents ?p AND POLLRDHUP = 0" "poll_revents ?p AND POLLIN \<noteq> 0"
      | (c4) "poll_revents ?p AND POLLERR = 0" "poll_revents ?p AND POLLRDHUP = 0" "poll_revents ?p AND POLLIN = 0" by blast
    then show ?thesis
    proof cases
      case c1
      then show ?thesis using \<open>?fd \<noteq> sock\<close> assms(1) i by (simp add: chat_step_def Let_def)
    next
      case c2
      then show ?thesis using \<open>?fd \<noteq> sock\<close> remove_user_inv(1)[OF assms(1) i assms(3)] i by (simp add: chat_step_def Let_def)
    next
      case c3
      have u: "chat_inv sock (set_user ?fd ((chat_users s ?fd)\<lparr>chat_buf := d\<rparr>) s)" for d
        by (rule set_user_inv[OF assms(1)]) simp
      have cn: "user_cnt (set_user g v s) = user_cnt s" for g v by (simp add: set_user_def)
      show ?thesis
      proof (cases "rp_recv r")
        case (Bytes d)
        then show ?thesis using c3 \<open>?fd \<noteq> sock\<close> notify_inv[OF u[of d], of ?fd] i by (simp add: chat_step_def Let_def cn)
      next
        case Closed
        then show ?thesis using c3 \<open>?fd \<noteq> sock\<close> u i by (simp add: chat_step_def Let_def)
      next
        case (Failed e)
        then show ?thesis using c3 \<open>?fd \<noteq> sock\<close> u remove_user_inv(1)[OF u i, of "[]"] assms(3) i
          by (simp add: chat_step_def Let_def cn)
      qed
    next
      case c4
      show ?thesis
      proof (cases "poll_revents ?p AND POLLOUT = 0")
        case True
        then show ?thesis using c4 \<open>?fd \<noteq> sock\<close> assms(1) i by (simp add: chat_step_def Let_def)
      next
        case out: False
        then have w: "write_buf (chat_users s ?fd) \<noteq> Unset" using ok by (simp add: slot_ok_def)
        have u: "chat_inv sock (set_user ?fd ((chat_users s ?fd)\<lparr>write_buf := Null\<rparr>) s)"
          by (rule set_user_inv[OF assms(1)]) simp
        let ?q = "?p\<lparr>poll_events := (poll_events ?p OR NOT POLLOUT) OR POLLIN\<rparr>"
        have "poll_events ?p AND POLLOUT \<noteq> 0" using ok out by (simp add: slot_ok_def)
        then have "((poll_events ?p OR NOT POLLOUT) OR POLLIN) AND POLLOUT \<noteq> 0"
          by (simp add: out_bits)
        then have "slot_ok (chat_users (set_user ?fd ((chat_users s ?fd)\<lparr>write_buf := Null\<rparr>) s)) ?q"
          using ok by (auto simp: slot_ok_def set_user_def)
        then have "chat_inv sock (set_fd i ?q (set_user ?fd ((chat_users s ?fd)\<lparr>write_buf := Null\<rparr>) s))"
          using set_fd_inv[OF u i, of ?q] assms(3) by (simp add: set_user_def fd_at_def)
        then show ?thesis using c4 out w \<open>?fd \<noteq> sock\<close> assms(1) i
          by (cases "write_buf (chat_users s ?fd)") (simp_all add: chat_step_def Let_def)
      qed
    qed
  qed
qed

subsection \<open>A pass and a turn\<close>

lemma chat_loop_from:
  assumes "chat_inv sock s" and "1 \<le> i"
  shows "\<exists>s' k. chat_loop sock rs t i s = Inr (s', k) \<and> chat_inv sock s'"
  using assms
proof (induction sock rs t i s rule: chat_loop.induct)
  case (1 sock rs t i s)
  show ?case
  proof (cases "i < user_cnt s + 1")
    case False
    then show ?thesis using 1(2) by (simp add: chat_loop.simps)
  next
    case True
    then have i: "0 \<le> i" "i \<le> user_cnt s" "\<not> (i < 0 \<or> 6 \<le> i)" using 1(2,3) by (auto simp: chat_inv_def)
    obtain s1 k1 i1 where st: "chat_step sock i (rs t) s = Inr (s1, k1, i1)" "chat_inv sock s1" "1 \<le> i1"
      using chat_step_inv[OF 1(2) i(1,2), of "rs t"] 1(3) by auto
    obtain s2 k2 where "chat_loop sock rs (Suc t) i1 s1 = Inr (s2, k2)" "chat_inv sock s2"
      using 1(1)[OF True i(3) st(1) refl refl st(2,3)] by blast
    then show ?thesis using True i(3) st(1) by (subst chat_loop.simps) simp
  qed
qed

text \<open>What \<open>poll\<close> may report: to write only where writing was asked for, on the listening socket
  no more than was asked for.\<close>

definition poll_reports :: "chat_server \<Rightarrow> 16 word list \<Rightarrow> bool" where
  "poll_reports s vs \<longleftrightarrow> length vs = 6 \<and> vs ! 0 AND POLLRDHUP = 0 \<and> vs ! 0 AND POLLOUT = 0
     \<and> (\<forall>j \<le> nat (user_cnt s). vs ! j AND POLLOUT \<noteq> 0 \<longrightarrow> poll_events (fds s ! j) AND POLLOUT \<noteq> 0)"

definition polled :: "16 word list \<Rightarrow> chat_server \<Rightarrow> chat_server" where
  "polled vs s = (let n = nat (user_cnt s + 1) in
     s\<lparr>fds := map2 (\<lambda>p v. p\<lparr>poll_revents := v\<rparr>) (take n (fds s)) (take n vs) @ drop n (fds s)\<rparr>)"

lemma polled_simps [simp]: "user_cnt (polled vs s) = user_cnt s" "chat_users (polled vs s) = chat_users s"
  by (simp_all add: polled_def Let_def)

lemma polled_fds:
  assumes "length (fds s) = 6" and "length vs = 6" and "0 \<le> user_cnt s" and "user_cnt s \<le> 5"
  shows "length (fds (polled vs s)) = 6"
    and "j < 6 \<Longrightarrow> fds (polled vs s) ! j = (if j \<le> nat (user_cnt s) then (fds s ! j)\<lparr>poll_revents := vs ! j\<rparr> else fds s ! j)"
  using assms by (auto simp: polled_def Let_def nth_append nat_add_distrib min_def)

lemma polled_inv:
  assumes "chat_inv sock s" and "poll_reports s vs"
  shows "chat_inv sock (polled vs s)"
proof -
  have c: "length (fds s) = 6" "length vs = 6" "0 \<le> user_cnt s" "user_cnt s \<le> 5"
    using assms by (auto simp: chat_inv_def poll_reports_def)
  note at = polled_fds(2)[OF c]
  have "poll_fd (fds (polled vs s) ! j) = poll_fd (fds s ! j)" if "j \<le> nat (user_cnt s)" for j
    using at[of j] that c(4) by simp
  then have "inj_on (\<lambda>j. poll_fd (fds (polled vs s) ! j)) {0..nat (user_cnt s)}"
    using assms(1) by (simp add: chat_inv_def inj_on_def)
  moreover have "slot_ok (chat_users s) (fds (polled vs s) ! j)" if j: "1 \<le> j" "j \<le> nat (user_cnt s)" for j
  proof -
    have "slot_ok (chat_users s) (fds s ! j)" using assms(1) j by (simp add: chat_inv_def)
    then show ?thesis using at[of j] j c(4) assms(2) by (simp add: slot_ok_def poll_reports_def)
  qed
  moreover have "fds (polled vs s) ! 0 = (fds s ! 0)\<lparr>poll_revents := vs ! 0\<rparr>" using at[of 0] by simp
  ultimately show ?thesis
    using assms polled_fds(1)[OF c] c unfolding chat_inv_def poll_reports_def by simp
qed

lemma chat_start_inv: "chat_inv sock (chat_start sock us)"
  by (simp add: chat_inv_def chat_start_def POLLOUT_def POLLRDHUP_def)

text \<open>
  A turn of the chat room keeps its invariant and never faults: the array of six entries is not
  left, every entry has its own descriptor, and a pointer to a buffer is only followed after it was
  set. This needs of \<open>accept\<close> that it returns a descriptor below 65535 that the room does not hold,
  and of \<open>poll\<close> that it reports writing only where it was asked for.
\<close>

theorem chat_turn_safe:
  assumes "chat_inv sock s" and "poll_reports s vs"
    and "rp_accept (rs 0) < 65535" and "\<forall>j \<le> nat (user_cnt s). poll_fd (fds s ! j) \<noteq> rp_accept (rs 0)"
  shows "\<exists>s' k. chat_turn sock (Some vs) rs s = Inr (s', k, True) \<and> chat_inv sock s'"
proof -
  let ?s = "polled vs s"
  have inv: "chat_inv sock ?s" by (rule polled_inv[OF assms(1,2)])
  have c: "length (fds s) = 6" "length vs = 6" "0 \<le> user_cnt s" "user_cnt s \<le> 5"
    using assms(1,2) by (auto simp: chat_inv_def poll_reports_def)
  have "\<forall>j \<le> nat (user_cnt ?s). poll_fd (fds ?s ! j) \<noteq> rp_accept (rs 0)"
    using assms(4) polled_fds(2)[OF c] c(4) by auto
  then obtain s1 k1 i1 where st: "chat_step sock 0 (rs 0) ?s = Inr (s1, k1, i1)" "chat_inv sock s1" "1 \<le> i1"
    using chat_step_inv[OF inv, of 0 "rs 0"] assms(3) c(3) by auto
  obtain s2 k2 where "chat_loop sock rs (Suc 0) i1 s1 = Inr (s2, k2)" "chat_inv sock s2"
    using chat_loop_from[OF st(2,3)] by blast
  then have "chat_loop sock rs 0 0 ?s = Inr (s2, k1 @ k2)"
    using st(1) c(3) by (subst chat_loop.simps) simp
  then show ?thesis using \<open>chat_inv sock s2\<close> by (simp add: chat_turn_def Let_def polled_def)
qed

theorem chat_turn_safe_witness:
  "\<exists>s' k. chat_turn 3 (Some [POLLIN, 0, 0, 0, 0, 0]) (\<lambda>_. \<lparr>rp_accept = 4, rp_recv = Closed\<rparr>)
       (chat_start 3 (\<lambda>_. \<lparr>chat_buf = [], write_buf = Unset\<rparr>)) = Inr (s', k, True) \<and> chat_inv 3 s'"
  by (rule chat_turn_safe) (simp_all add: chat_start_inv, simp_all add: poll_reports_def chat_start_def poll_defs)

subsection \<open>What is said reaches the others\<close>

lemma chat_step_data:
  assumes "poll_fd (fd_at s i) \<noteq> sock"
    and "poll_revents (fd_at s i) AND POLLERR = 0" and "poll_revents (fd_at s i) AND POLLRDHUP = 0"
    and "poll_revents (fd_at s i) AND POLLIN \<noteq> 0" and "rp_recv r = Bytes d"
  shows "chat_step sock i r s = Inr (notify (poll_fd (fd_at s i)) [1..user_cnt s]
           (set_user (poll_fd (fd_at s i)) ((chat_users s (poll_fd (fd_at s i)))\<lparr>chat_buf := d\<rparr>) s), [], i + 1)"
  using assms by (simp add: chat_step_def Let_def)

lemma chat_step_write:
  assumes "poll_fd (fd_at s i) \<noteq> sock"
    and "poll_revents (fd_at s i) AND POLLERR = 0" and "poll_revents (fd_at s i) AND POLLRDHUP = 0"
    and "poll_revents (fd_at s i) AND POLLIN = 0" and "poll_revents (fd_at s i) AND POLLOUT \<noteq> 0"
  shows "chat_step sock i r s =
     (case write_buf (chat_users s (poll_fd (fd_at s i))) of
        Unset \<Rightarrow> Inl (Bad_Load (poll_fd (fd_at s i)))
      | Null \<Rightarrow> Inr (s, [], i + 1)
      | Buf_Of g \<Rightarrow>
          Inr (set_fd i ((fd_at s i)\<lparr>poll_events := (poll_events (fd_at s i) OR NOT POLLOUT) OR POLLIN\<rparr>)
                 (set_user (poll_fd (fd_at s i)) ((chat_users s (poll_fd (fd_at s i)))\<lparr>write_buf := Null\<rparr>) s),
               [Send (poll_fd (fd_at s i)) (takeWhile (\<lambda>c. c \<noteq> NUL) (chat_buf (chat_users s g)))], i + 1))"
  using assms by (simp add: chat_step_def Let_def)


definition chat_of_two :: chat_server where
  "chat_of_two = \<lparr>fds = [new_pollfd 3, (new_pollfd 4)\<lparr>poll_revents := POLLIN\<rparr>, new_pollfd 5, new_pollfd 0, new_pollfd 0, new_pollfd 0],
     user_cnt = 2, chat_users = (\<lambda>_. \<lparr>chat_buf = [], write_buf = Unset\<rparr>)\<rparr>"

lemma chat_of_two_inv: "chat_inv 3 chat_of_two"
proof -
  have "slot_ok (chat_users chat_of_two) (fds chat_of_two ! 1)" "slot_ok (chat_users chat_of_two) (fds chat_of_two ! 2)"
    by (simp_all add: chat_of_two_def slot_ok_def new_pollfd_def poll_defs)
  moreover have "j = 1 \<or> j = 2" if "1 \<le> j" "j \<le> nat (user_cnt chat_of_two)" for j
    using that by (auto simp: chat_of_two_def)
  ultimately have "\<forall>j. 1 \<le> j \<and> j \<le> nat (user_cnt chat_of_two) \<longrightarrow> slot_ok (chat_users chat_of_two) (fds chat_of_two ! j)"
    by blast
  moreover have "inj_on (\<lambda>j. poll_fd (fds chat_of_two ! j)) {0..nat (user_cnt chat_of_two)}"
    by (simp add: chat_of_two_def eval_nat_numeral atLeastAtMostSuc_conv new_pollfd_def)
  ultimately show ?thesis unfolding chat_inv_def by (simp add: chat_of_two_def new_pollfd_def)
qed


text \<open>
  The bits of \<open>events\<close> are only ever set: \<open>|= ~POLLOUT\<close> was meant to clear the request for
  writing. Once its message is written the entry still asks for writing, so \<open>poll\<close> goes on to
  report it, and the turns that follow do nothing: the server spins.
\<close>

theorem chat_never_stops_polling_out:
  assumes "1 \<le> i" and "i \<le> user_cnt s" and "user_cnt s \<le> 5" and "length (fds s) = 6"
    and "poll_fd (fd_at s i) \<noteq> sock" and "poll_revents (fd_at s i) = POLLOUT"
    and "poll_events (fd_at s i) AND POLLOUT \<noteq> 0" and "write_buf (chat_users s (poll_fd (fd_at s i))) = Buf_Of g"
  shows "\<exists>s' k. chat_step sock i r s = Inr (s', k, i + 1)
    \<and> poll_events (fd_at s' i) AND POLLOUT \<noteq> 0 \<and> chat_step sock i r' s' = Inr (s', [], i + 1)"
proof -
  let ?p = "fd_at s i"
  let ?s = "set_fd i (?p\<lparr>poll_events := (poll_events ?p OR NOT POLLOUT) OR POLLIN\<rparr>)
              (set_user (poll_fd ?p) ((chat_users s (poll_fd ?p))\<lparr>write_buf := Null\<rparr>) s)"
  have b: "POLLOUT AND POLLERR = 0" "POLLOUT AND POLLRDHUP = 0" "POLLOUT AND POLLIN = 0" by (simp_all add: poll_defs)
  have at: "fd_at ?s i = ?p\<lparr>poll_events := (poll_events ?p OR NOT POLLOUT) OR POLLIN\<rparr>"
    "write_buf (chat_users ?s (poll_fd ?p)) = Null"
    using assms(1-4) by (auto simp: set_fd_def set_user_def fd_at_def)
  have "\<exists>k. chat_step sock i r s = Inr (?s, k, i + 1)"
    using chat_step_write[of s i sock r] assms(5,6,8) b POLLOUT_nz by simp
  moreover have "chat_step sock i r' ?s = Inr (?s, [], i + 1)"
    using chat_step_write[of ?s i sock r'] assms(5,6) b at POLLOUT_nz by simp
  moreover have "poll_events (fd_at ?s i) AND POLLOUT \<noteq> 0" using assms(7) at(1) by (simp add: out_bits)
  ultimately show ?thesis by blast
qed

definition chat_told :: chat_server where
  "chat_told = \<lparr>fds = [new_pollfd 3, (new_pollfd 4)\<lparr>poll_events := POLLIN OR POLLOUT, poll_revents := POLLOUT\<rparr>,
       new_pollfd 5, new_pollfd 0, new_pollfd 0, new_pollfd 0],
     user_cnt = 2, chat_users = (\<lambda>_. \<lparr>chat_buf = ''hi'', write_buf = Buf_Of 5\<rparr>)\<rparr>"

theorem chat_never_stops_polling_out_witness:
  "\<exists>s' k. chat_step 3 1 \<lparr>rp_accept = -1, rp_recv = Closed\<rparr> chat_told = Inr (s', k, 1 + 1)
    \<and> poll_events (fd_at s' 1) AND POLLOUT \<noteq> 0
    \<and> chat_step 3 1 \<lparr>rp_accept = -1, rp_recv = Closed\<rparr> s' = Inr (s', [], 1 + 1)"
  by (rule chat_never_stops_polling_out[where g = 5])
    (simp_all add: chat_told_def fd_at_def new_pollfd_def poll_defs)

end
