(* ===== verification/Line_Server.thy ===== *)
theory Line_Server
  imports Http_Request C_Io
begin

text \<open>
  The server of 78\_server\_framework/main.cpp: a request parser that is fed with what arrives and
  keeps its position between the calls. It is the ancestor of the parser of \<open>http_conn\<close>; its
  specification reads the whole input at once.
\<close>

subsection \<open>The parser\<close>

datatype CHECK_STATE = CHECK_STATE_REQUEST_LINE | CHECK_STATE_HEADER

datatype LINE_STATUS = LINE_OK | LINE_BAD | LINE_OPEN

datatype HTTP_CODE =
    NO_REQUEST | GET_REQUEST | BAD_REQUEST | FORBIDDEN_REQUEST | INTERNAL_ERROR | CLOSED_CONNECTION

definition str_ret :: "string list" where
  "str_ret = [''i get a correct result'' @ [LF], ''something wrong'' @ [LF]]"

text \<open>The indices are reference parameters, so the new ones are results.\<close>

function line_parse :: "char list \<Rightarrow> nat \<Rightarrow> nat \<Rightarrow> (char list \<times> nat \<times> LINE_STATUS) result" where
  "line_parse buf chk read =
     (if chk < read then
        (if length buf \<le> chk then Inl (Bad_Load (int chk))
         else if buf ! chk = CR then
           (if chk + 1 = read then Inr (buf, chk, LINE_OPEN)
            else if length buf \<le> chk + 1 then Inl (Bad_Load (int chk + 1))
            else if buf ! (chk + 1) = LF then
              bindR (store buf (int chk) NUL) (\<lambda>b.
              bindR (store b (int (chk + 1)) NUL) (\<lambda>b'. Inr (b', chk + 2, LINE_OK)))
            else Inr (buf, chk, LINE_BAD))
         else if buf ! chk = LF then
           (if 1 < chk \<and> buf ! (chk - 1) = CR then
              bindR (store buf (int (chk - 1)) NUL) (\<lambda>b.
              bindR (store b (int chk) NUL) (\<lambda>b'. Inr (b', chk + 1, LINE_OK)))
            else Inr (buf, chk, LINE_BAD))
         else line_parse buf (chk + 1) read)
      else Inr (buf, chk, LINE_OPEN))"
  by pat_completeness auto
termination
  by (relation "measure (\<lambda>(buf, chk, read). read - chk)") auto

declare line_parse.simps [simp del]

text \<open>The end of \<open>request_line_parse\<close>, from the comparison of the version on.\<close>

definition url_parse :: "char list \<Rightarrow> nat \<Rightarrow> nat \<Rightarrow> CHECK_STATE \<Rightarrow> (char list \<times> CHECK_STATE \<times> HTTP_CODE) result" where
  "url_parse b u v st =
     bindR (strcaseeq b v ''HTTP/1.1'') (\<lambda>ok.
     if \<not> ok then Inr (b, st, BAD_REQUEST) else
     bindR (strncaseeq b u ''http://'') (\<lambda>abs.
     bindR (if abs then strchr b (u + 7) CHR ''/'' else Inr (Some u)) (\<lambda>p.
     case p of
       None \<Rightarrow> Inr (b, st, BAD_REQUEST)
     | Some q \<Rightarrow>
         if length b \<le> q then Inl (Bad_Load (int q))
         else if b ! q \<noteq> CHR ''/'' then Inr (b, st, BAD_REQUEST)
         else Inr (b, CHECK_STATE_HEADER, NO_REQUEST))))"

definition request_line_parse :: "char list \<Rightarrow> nat \<Rightarrow> CHECK_STATE \<Rightarrow> (char list \<times> CHECK_STATE \<times> HTTP_CODE) result" where
  "request_line_parse buf tmp st =
     bindR (strpbrk buf tmp blanks) (\<lambda>p.
     case p of
       None \<Rightarrow> Inr (buf, st, BAD_REQUEST)
     | Some sp \<Rightarrow>
       bindR (store buf (int sp) NUL) (\<lambda>b.
       bindR (strcaseeq b tmp ''GET'') (\<lambda>get.
       if \<not> get then Inr (b, st, BAD_REQUEST) else
       bindR (strspn b (sp + 1) blanks) (\<lambda>n.
       bindR (strpbrk b (sp + 1 + n) blanks) (\<lambda>q.
       case q of
         None \<Rightarrow> Inr (b, st, BAD_REQUEST)
       | Some sp2 \<Rightarrow>
         bindR (store b (int sp2) NUL) (\<lambda>b2.
         bindR (strspn b2 (sp2 + 1) blanks) (\<lambda>m. url_parse b2 (sp + 1 + n) (sp2 + 1 + m) st)))))))"

definition headers_parse :: "char list \<Rightarrow> nat \<Rightarrow> HTTP_CODE result" where
  "headers_parse buf tmp =
     (if length buf \<le> tmp then Inl (Bad_Load (int tmp))
      else if buf ! tmp = NUL then Inr GET_REQUEST
      else bindR (strncaseeq buf tmp ''Host:'') (\<lambda>host.
        if host then bindR (strspn buf (tmp + 5) blanks) (\<lambda>n.
                     bindR (cstr buf (tmp + 5 + n)) (\<lambda>_. Inr NO_REQUEST))
        else Inr NO_REQUEST))"

lemma line_parse_progress:
  "line_parse buf chk read = Inr (b, chk', LINE_OK) \<Longrightarrow> chk < chk' \<and> chk' \<le> read"
proof (induction buf chk read rule: line_parse.induct)
  case (1 buf chk read)
  show ?case using 1(2) 1(1)
    by (subst (asm) (1) line_parse.simps) (auto split: if_splits elim!: bindR_InrE)
qed

function content_parse :: "char list \<Rightarrow> nat \<Rightarrow> CHECK_STATE \<Rightarrow> nat \<Rightarrow> nat
    \<Rightarrow> (char list \<times> nat \<times> CHECK_STATE \<times> nat \<times> HTTP_CODE) result" where
  "content_parse buf chk st read start =
     (case line_parse buf chk read of
        Inl e \<Rightarrow> Inl e
      | Inr (b, chk', line_status) \<Rightarrow>
          if line_status = LINE_OK then
            (case st of
               CHECK_STATE_REQUEST_LINE \<Rightarrow>
                 bindR (request_line_parse b start st) (\<lambda>(b', st', ret).
                   if ret = BAD_REQUEST then Inr (b', chk', st', chk', BAD_REQUEST)
                   else content_parse b' chk' st' read chk')
             | CHECK_STATE_HEADER \<Rightarrow>
                 bindR (headers_parse b start) (\<lambda>ret.
                   if ret = BAD_REQUEST then Inr (b, chk', st, chk', BAD_REQUEST)
                   else if ret = GET_REQUEST then Inr (b, chk', st, chk', GET_REQUEST)
                   else content_parse b chk' st read chk'))
          else Inr (b, chk', st, start, if line_status = LINE_OPEN then NO_REQUEST else BAD_REQUEST))"
  by pat_completeness auto
termination
  by (relation "measure (\<lambda>(buf, chk, st, read, start). read - chk)") (auto dest!: line_parse_progress)

declare content_parse.simps [simp del]

subsection \<open>The server\<close>

function server_loop :: "int \<Rightarrow> recv_event list \<Rightarrow> char list \<Rightarrow> nat \<Rightarrow> nat \<Rightarrow> nat \<Rightarrow> CHECK_STATE
    \<Rightarrow> (sys_call list \<times> bool) result" where
  "server_loop cfd es buf read chk start st =
     (case brecv (length buf - read) es of
        (Blocks, _) \<Rightarrow> Inr ([], False)
      | (Fails e, _) \<Rightarrow> Inr ([], True)
      | (Shut, _) \<Rightarrow> Inr ([], True)
      | (Got d, es') \<Rightarrow>
          if d = [] then Inr ([], True)
          else bindR (blit buf read d) (\<lambda>b.
            bindR (content_parse b chk st (read + length d) start) (\<lambda>(b', chk', st', start', ret).
              if ret = NO_REQUEST then server_loop cfd es' b' (read + length d) chk' start' st'
              else if ret = GET_REQUEST then Inr ([Send cfd (str_ret ! 0)], True)
              else Inr ([Send cfd (str_ret ! 1)], True))))"
  by pat_completeness auto
termination
  by (relation "measure (\<lambda>(cfd, es, buf, read, chk, start, st). script_size es)")
     (auto dest!: brecv_Got_size[OF sym])

declare server_loop.simps [simp del]

definition server_test :: "int \<Rightarrow> int \<Rightarrow> recv_event list \<Rightarrow> (sys_call list \<times> bool) result" where
  "server_test sock cfd es =
     bindR (server_loop cfd es (replicate 4096 NUL) 0 0 0 CHECK_STATE_REQUEST_LINE) (\<lambda>(k, ended).
       Inr (if ended then k @ [Close cfd, Close sock] else k, ended))"

subsection \<open>The text read at once\<close>

text \<open>
  The reference: lines end in CR LF; the first has to be a valid request line, an empty one ends the
  request, and a CR or LF elsewhere is an error. A line is what comes before its first NUL.
\<close>

function scan_request :: "CHECK_STATE \<Rightarrow> string \<Rightarrow> HTTP_CODE" where
  "scan_request st t =
     (let k = length (takeWhile plain t) in
      if k = length t \<or> t ! k = CR \<and> k + 1 = length t then NO_REQUEST
      else if t ! k = CR \<and> t ! (k + 1) = LF then
        (let l = takeWhile (\<lambda>c. c \<noteq> NUL) (take k t) in
         case st of
           CHECK_STATE_REQUEST_LINE \<Rightarrow>
             if valid_request_line l then scan_request CHECK_STATE_HEADER (drop (k + 2) t) else BAD_REQUEST
         | CHECK_STATE_HEADER \<Rightarrow>
             if l = [] then GET_REQUEST else scan_request CHECK_STATE_HEADER (drop (k + 2) t))
      else BAD_REQUEST)"
  by pat_completeness auto
termination
proof (relation "measure (\<lambda>(st, t). length t)", goal_cases)
  case 1 show ?case by simp
qed (auto intro!: diff_less)

declare scan_request.simps [simp del]

lemma scan_open:
  "length (takeWhile plain t) = length t \<or> t ! length (takeWhile plain t) = CR \<and> length (takeWhile plain t) + 1 = length t
     \<Longrightarrow> scan_request st t = NO_REQUEST"
  by (subst scan_request.simps) (simp add: Let_def)

lemma scan_line:
  assumes "\<forall>c \<in> set p. plain c"
  shows "scan_request st (p @ CR # LF # r) =
    (case st of
       CHECK_STATE_REQUEST_LINE \<Rightarrow>
         if valid_request_line (takeWhile (\<lambda>c. c \<noteq> NUL) p) then scan_request CHECK_STATE_HEADER r else BAD_REQUEST
     | CHECK_STATE_HEADER \<Rightarrow>
         if takeWhile (\<lambda>c. c \<noteq> NUL) p = [] then GET_REQUEST else scan_request CHECK_STATE_HEADER r)"
proof -
  have k: "takeWhile plain (p @ CR # LF # r) = p" using assms by (simp add: takeWhile_append plain_def)
  show ?thesis unfolding scan_request.simps[of st "p @ CR # LF # r"] k Let_def
    by (cases st) (auto simp: nth_append)
qed

lemma scan_bad:
  assumes "\<forall>c \<in> set p. plain c" and "\<not> plain x" and "x = CR \<Longrightarrow> r \<noteq> [] \<and> hd r \<noteq> LF"
  shows "scan_request st (p @ x # r) = BAD_REQUEST"
proof -
  have k: "takeWhile plain (p @ x # r) = p" using assms by (simp add: takeWhile_append)
  show ?thesis unfolding scan_request.simps[of st "p @ x # r"] k Let_def
    using assms(2,3) by (cases r) (auto simp: nth_append plain_def)
qed

text \<open>The three ways a text can go on.\<close>

lemma text_cases:
  obtains (open_end) "\<forall>c \<in> set t. plain c"
  | (open_cr) p where "t = p @ [CR]" "\<forall>c \<in> set p. plain c"
  | (line) p r where "t = p @ CR # LF # r" "\<forall>c \<in> set p. plain c"
  | (bad) p x r where "t = p @ x # r" "\<forall>c \<in> set p. plain c" "\<not> plain x" "x = CR \<Longrightarrow> r \<noteq> [] \<and> hd r \<noteq> LF"
proof -
  let ?p = "takeWhile plain t" and ?r = "dropWhile plain t"
  have t: "t = ?p @ ?r" and p: "\<forall>c \<in> set ?p. plain c" by (auto dest: set_takeWhileD)
  show ?thesis
  proof (cases ?r)
    case Nil
    then show ?thesis using open_end p t by simp
  next
    case (Cons x r)
    then have "\<not> plain x" by (metis hd_dropWhile list.distinct(1) list.sel(1))
    moreover have "t = ?p @ x # r" using t Cons by simp
    ultimately show ?thesis using open_cr[of ?p] line[of ?p] bad[OF _ p, of x r] p
      by (cases r; cases "x = CR"; cases "hd r = LF") (metis list.sel(1))+
  qed
qed

lemma scan_request_mono:
  "scan_request st t \<noteq> NO_REQUEST \<Longrightarrow> scan_request st (t @ w) = scan_request st t"
proof (induction st t rule: scan_request.induct)
  case (1 st t)
  show ?case
  proof (cases t rule: text_cases)
    case open_end
    then show ?thesis using 1(3) scan_open[of t st] by (simp add: takeWhile_eq_all_conv[THEN iffD2])
  next
    case (open_cr p)
    then have "takeWhile plain t = p" by (simp add: takeWhile_append plain_def)
    then show ?thesis using 1(3) scan_open[of t st] open_cr(1) by simp
  next
    case (line p r)
    then have k: "takeWhile plain t = p" by (simp add: takeWhile_append plain_def)
    have step: "scan_request CHECK_STATE_HEADER (r @ w) = scan_request CHECK_STATE_HEADER r"
      if "scan_request CHECK_STATE_HEADER r \<noteq> NO_REQUEST"
        "st = CHECK_STATE_REQUEST_LINE \<and> valid_request_line (takeWhile (\<lambda>c. c \<noteq> NUL) p)
           \<or> st = CHECK_STATE_HEADER \<and> takeWhile (\<lambda>c. c \<noteq> NUL) p \<noteq> []"
      using that 1(1)[OF refl, unfolded k] 1(2)[OF refl, unfolded k] line(1) by (auto simp: nth_append)
    show ?thesis
      using step 1(3) scan_line[OF line(2), of st r] scan_line[OF line(2), of st "r @ w"] line(1)
      by (cases st) (auto split: if_splits)
  next
    case (bad p x r)
    then have "scan_request st t = BAD_REQUEST" using scan_bad[OF bad(2-4), of st] by simp
    moreover have "scan_request st (p @ x # (r @ w)) = BAD_REQUEST"
      by (rule scan_bad[OF bad(2,3)]) (use bad(4) in auto)
    ultimately show ?thesis using bad(1) by simp
  qed
qed

subsection \<open>The parser reads the same\<close>

definition code_of :: "Http_Parse.HTTP_CODE \<Rightarrow> HTTP_CODE" where
  "code_of ret = (if ret = Http_Parse.NO_REQUEST then NO_REQUEST else BAD_REQUEST)"

text \<open>The request line is parsed as in \<open>http_conn\<close>, whose specification carries over.\<close>

lemma url_parse_http:
  "url_parse (read_buf c) u v st = bindR (check_version_url c u v) (\<lambda>(c', ret).
     Inr (read_buf c', if ret = Http_Parse.NO_REQUEST then CHECK_STATE_HEADER else st, code_of ret))"
proof (cases "strcaseeq (read_buf c) v ''HTTP/1.1''")
  case (Inr ok)
  then show ?thesis
  proof (cases "strncaseeq (read_buf c) u ''http://''")
    case (Inr ab)
    then show ?thesis using \<open>strcaseeq (read_buf c) v ''HTTP/1.1'' = Inr ok\<close>
      by (cases "if ab then strchr (read_buf c) (u + 7) CHR ''/'' else Inr (Some u)")
        (auto simp: url_parse_def check_version_url_def code_of_def split: option.split)
  qed (auto simp: url_parse_def check_version_url_def code_of_def)
qed (simp add: url_parse_def check_version_url_def)

lemma request_line_parse_http:
  "request_line_parse (read_buf c) tmp st = bindR (parse_request_line c tmp) (\<lambda>(c', ret).
     Inr (read_buf c', if ret = Http_Parse.NO_REQUEST then CHECK_STATE_HEADER else st, code_of ret))"
proof (cases "strpbrk (read_buf c) tmp blanks")
  case (Inr p)
  then show ?thesis
  proof (cases p)
    case (Some sp)
    show ?thesis
    proof (cases "store (read_buf c) (int sp) NUL")
      case b: (Inr b)
      have u: "url_parse b2 u v st = bindR (check_version_url (c\<lparr>conn_method := GET, url := Some u, read_buf := b2, version := Some v\<rparr>) u v) (\<lambda>(c', ret).
     Inr (read_buf c', if ret = Http_Parse.NO_REQUEST then CHECK_STATE_HEADER else st, code_of ret))" for b2 u v
        using url_parse_http[of "c\<lparr>conn_method := GET, url := Some u, read_buf := b2, version := Some v\<rparr>" u v st] by simp
      show ?thesis using Inr Some b u
        by (auto simp: request_line_parse_def parse_request_line_def code_of_def Let_def bindR_def
            split: sum.splits option.splits)
    qed (use Inr Some in \<open>simp add: request_line_parse_def parse_request_line_def\<close>)
  qed (simp add: request_line_parse_def parse_request_line_def code_of_def)
qed (simp add: request_line_parse_def parse_request_line_def)

lemma request_line_parse_text:
  assumes "cstr b tmp = Inr s"
  shows "\<exists>b'. request_line_parse b tmp st =
      Inr (b', if valid_request_line s then CHECK_STATE_HEADER else st, if valid_request_line s then NO_REQUEST else BAD_REQUEST)
    \<and> length b' = length b \<and> (\<forall>i. i < tmp \<or> tmp + length s \<le> i \<longrightarrow> b' ! i = b ! i)"
proof -
  let ?c = "(sample_conn [])\<lparr>read_buf := b\<rparr>"
  have "cstr (read_buf ?c) tmp = Inr s" using assms by simp
  from parse_request_line_spec_aux[OF this] obtain c' where
    "parse_request_line ?c tmp = Inr (c', if valid_request_line s then Http_Parse.NO_REQUEST else Http_Parse.BAD_REQUEST)"
    "\<forall>i. i < tmp \<or> tmp + length s \<le> i \<longrightarrow> read_buf c' ! i = b ! i" "length (read_buf c') = length b"
    by auto
  then show ?thesis using request_line_parse_http[of ?c tmp st] by (auto simp: code_of_def)
qed

lemma headers_parse_text:
  assumes "cstr b tmp = Inr s"
  shows "headers_parse b tmp = Inr (if s = [] then GET_REQUEST else NO_REQUEST)"
proof -
  have len: "tmp < length b" using cstr_bound[OF assms] by simp
  show ?thesis
  proof (cases "s = []")
    case True
    then show ?thesis using cstr_end[OF assms] len by (simp add: headers_parse_def)
  next
    case False
    then have "b ! tmp \<noteq> NUL" using cstr_nth[OF assms, of 0] cstr_no_nul[OF assms] by (metis add_0_right length_greater_0_conv nth_mem)
    moreover have "\<exists>n. strspn b (tmp + 5) blanks = Inr n \<and> is_ok (cstr b (tmp + 5 + n))"
      if "same_case (take 5 s) ''Host:''"
    proof -
      have "length (map to_lower (take 5 s)) = length (map to_lower ''Host:'')"
        using that unfolding same_case_def by (rule arg_cong)
      then have "5 \<le> length s" by simp
      note c = cstr_drop[OF assms this]
      moreover have "length (takeWhile (\<lambda>c. c \<in> set blanks) (drop 5 s)) \<le> length (drop 5 s)" by (rule length_takeWhile_le)
      from cstr_drop[OF c this] show ?thesis using c by (auto simp: strspn_def)
    qed
    ultimately show ?thesis using assms len False
      by (auto simp: headers_parse_def strncaseeq_def is_ok_iff eval_nat_numeral split: if_splits)
  qed
qed

definition lines_ok :: "char list \<Rightarrow> nat \<Rightarrow> nat \<Rightarrow> nat \<Rightarrow> bool" where
  "lines_ok b chk read start \<longleftrightarrow> start \<le> chk \<and> chk \<le> read \<and> read \<le> length b
     \<and> (\<forall>i. start \<le> i \<and> i < chk \<longrightarrow> plain (b ! i)) \<and> (chk = 0 \<or> b ! (chk - 1) \<noteq> CR)"

definition unread :: "char list \<Rightarrow> nat \<Rightarrow> nat \<Rightarrow> string" where
  "unread b start read = take (read - start) (drop start b)"

lemma unread_nth: "start + k < read \<Longrightarrow> read \<le> length b \<Longrightarrow> unread b start read ! k = b ! (start + k)"
  by (simp add: unread_def)

lemma length_unread: "read \<le> length b \<Longrightarrow> length (unread b start read) = read - start"
  by (simp add: unread_def)

lemma line_parse_skip:
  assumes "chk \<le> m" and "m \<le> read" and "read \<le> length b" and "\<forall>i. chk \<le> i \<and> i < m \<longrightarrow> plain (b ! i)"
  shows "line_parse b chk read = line_parse b m read"
  using assms
proof (induction "m - chk" arbitrary: chk)
  case 0
  then show ?case by simp
next
  case (Suc n)
  then have c: "chk < m" "plain (b ! chk)" by auto
  then have "line_parse b chk read = line_parse b (chk + 1) read"
    using Suc(4,5) by (subst line_parse.simps) (auto simp: plain_def)
  also have "\<dots> = line_parse b m read" using Suc(2-6) c by (intro Suc(1)) auto
  finally show ?case .
qed

text \<open>The first character that is not plain is where \<open>line_parse\<close> stops, wherever it began.\<close>

lemma line_parse_to:
  assumes ok: "lines_ok b chk read start" and t: "unread b start read = p @ r" and p: "\<forall>c \<in> set p. plain c"
    and r: "r = [] \<or> \<not> plain (hd r)"
  shows "line_parse b chk read = line_parse b (start + length p) read"
    and "chk \<le> start + length p" and "start + length p + length r = read"
    and "\<And>k. k < length r \<Longrightarrow> b ! (start + length p + k) = r ! k"
    and "start + length p = 0 \<or> b ! (start + length p - 1) \<noteq> CR"
proof -
  have o: "start \<le> chk" "chk \<le> read" "read \<le> length b" using ok by (auto simp: lines_ok_def)
  show len: "start + length p + length r = read" using length_unread[OF o(3), of start] t o by simp
  show rk: "b ! (start + length p + k) = r ! k" if "k < length r" for k
    using unread_nth[of start "length p + k" read b] that len o t by (simp add: nth_append add.assoc)
  have pk: "plain (b ! (start + k))" if "k < length p" for k
    using unread_nth[of start k read b] that len o t p nth_mem[OF that] by (simp add: nth_append)
  show le: "chk \<le> start + length p"
  proof (rule ccontr)
    assume n: "\<not> chk \<le> start + length p"
    then have "r \<noteq> []" using len o by auto
    then have "\<not> plain (b ! (start + length p))" using r rk[of 0] by (simp add: hd_conv_nth)
    then show False using ok n by (auto simp: lines_ok_def)
  qed
  show "line_parse b chk read = line_parse b (start + length p) read"
  proof (rule line_parse_skip[OF le _ o(3)])
    show "\<forall>i. chk \<le> i \<and> i < start + length p \<longrightarrow> plain (b ! i)"
      using pk[of "i - start" for i] o(1) by (metis add_diff_inverse_nat le_trans linorder_not_less nat_add_left_cancel_less)
  qed (use len in simp)
  show "start + length p = 0 \<or> b ! (start + length p - 1) \<noteq> CR"
  proof (cases "p = []")
    case True
    then show ?thesis using le o ok by (auto simp: lines_ok_def)
  next
    case False
    then have "plain (b ! (start + (length p - 1)))" using pk[of "length p - 1"] by simp
    then show ?thesis using False by (simp add: plain_def Suc_leI add_diff_assoc)
  qed
qed

lemma lines_ok_after:
  assumes "i + 2 \<le> read" and "read \<le> length b" and "b ! (i + 1) = NUL"
  shows "lines_ok b (i + 2) read (i + 2)"
  using assms by (auto simp: lines_ok_def)

lemma line_parse_line:
  assumes ok: "lines_ok b chk read start" and t: "unread b start read = p @ CR # LF # r" and p: "\<forall>c \<in> set p. plain c"
  shows "line_parse b chk read = Inr (cut2 b (start + length p), start + length p + 2, LINE_OK)"
    and "start + length p + 2 \<le> read" and "drop (start + length p + 2) (take read b) = r"
    and "cstr (cut2 b (start + length p)) start = Inr (takeWhile (\<lambda>c. c \<noteq> NUL) p)"
proof -
  let ?i = "start + length p"
  have o: "start \<le> chk" "chk \<le> read" "read \<le> length b" using ok by (auto simp: lines_ok_def)
  note to = line_parse_to[OF ok t p]
  have n: "?i + 2 + length r = read" using to(3) by (simp add: plain_def)
  then show i2: "?i + 2 \<le> read" by simp
  have at: "b ! ?i = CR" "b ! (?i + 1) = LF" using to(4)[of 0] to(4)[of 1] by (simp_all add: plain_def)
  have "line_parse b ?i read = Inr (cut2 b ?i, ?i + 2, LINE_OK)"
  proof -
    have "store b (int ?i) NUL = Inr (b[?i := NUL])" by (rule store_nat) (use i2 o in simp)
    moreover have "store (b[?i := NUL]) (int (?i + 1)) NUL = Inr (cut2 b ?i)"
      unfolding cut2_def by (rule store_nat) (use i2 o in simp)
    ultimately show ?thesis using at i2 o by (subst line_parse.simps) simp
  qed
  then show "line_parse b chk read = Inr (cut2 b ?i, ?i + 2, LINE_OK)" using to(1) by (simp add: plain_def)
  have u: "unread b start read = drop start (take read b)" by (simp add: unread_def drop_take)
  have "drop (?i + 2) (take read b) = drop (length p + 2) (unread b start read)" by (simp add: u add.commute add.left_commute)
  then show "drop (?i + 2) (take read b) = r" by (simp add: t)
  have tk: "take (length p) (drop start b) = p"
  proof -
    have "take (length p) (unread b start read) = take (length p) (drop start b)" using n by (simp add: unread_def)
    then show ?thesis by (simp add: t)
  qed
  have "drop start (cut2 b ?i) = p @ NUL # drop (?i + 1) (b[?i + 1 := NUL])"
  proof (rule nth_equalityI, goal_cases)
    case 1
    then show ?case using i2 o by (simp add: cut2_def)
  next
    case (2 j)
    have "p ! j = b ! (start + j)" if "j < length p" using nth_take[of j "length p" "drop start b"] that i2 o by (simp add: tk)
    then show ?case using i2 o 2 by (auto simp: cut2_def nth_append nth_list_update nth_Cons' intro!: arg_cong[where f = "(!) b"])
  qed
  then show "cstr (cut2 b ?i) start = Inr (takeWhile (\<lambda>c. c \<noteq> NUL) p)" by (rule cstr_of_drop)
qed

lemma line_parse_no_line:
  assumes ok: "lines_ok b chk read start"
    and t: "(\<forall>c \<in> set (unread b start read). plain c) \<or> (\<exists>p. unread b start read = p @ [CR] \<and> (\<forall>c \<in> set p. plain c))"
  shows "\<exists>chk'. line_parse b chk read = Inr (b, chk', LINE_OPEN) \<and> lines_ok b chk' read start"
proof -
  have o: "start \<le> chk" "chk \<le> read" "read \<le> length b" using ok by (auto simp: lines_ok_def)
  from t obtain p r where pr: "unread b start read = p @ r" "\<forall>c \<in> set p. plain c" "r = [] \<or> r = [CR]"
  proof
    assume "\<forall>c \<in> set (unread b start read). plain c"
    then show ?thesis using that[of "unread b start read" "[]"] by simp
  next
    assume "\<exists>p. unread b start read = p @ [CR] \<and> (\<forall>c \<in> set p. plain c)"
    then obtain p where "unread b start read = p @ [CR]" "\<forall>c \<in> set p. plain c" by (elim exE conjE)
    then show ?thesis by (intro that[of p "[CR]"]) simp_all
  qed
  from pr(3) have r: "r = [] \<or> \<not> plain (hd r)" by (auto simp: plain_def)
  note to = line_parse_to[OF ok pr(1,2) r]
  have "line_parse b (start + length p) read = Inr (b, start + length p, LINE_OPEN)"
  proof (cases "r = []")
    case True
    then show ?thesis using to(3) by (subst line_parse.simps) simp
  next
    case False
    then have "b ! (start + length p) = CR" "start + length p + 1 = read" using pr(3) to(3) to(4)[of 0] by auto
    then show ?thesis using o by (subst line_parse.simps) simp
  qed
  moreover have "lines_ok b (start + length p) read start"
  proof -
    have "plain (b ! i)" if i: "start \<le> i" "i < start + length p" for i
    proof -
      have k: "i - start < length p" "start + (i - start) = i" using i by auto
      then have "b ! i = p ! (i - start)"
        using unread_nth[of start "i - start" read b] to(3) o(3) unfolding pr(1) by (simp add: nth_append)
      then show ?thesis using pr(2) nth_mem[OF k(1)] by simp
    qed
    moreover have "start \<le> start + length p" "start + length p \<le> read" using to(3) by auto
    ultimately show ?thesis using to(5) o(3) unfolding lines_ok_def by blast
  qed
  ultimately show ?thesis using to(1) by auto
qed

lemma line_parse_bad:
  assumes ok: "lines_ok b chk read start" and t: "unread b start read = p @ x # r" and p: "\<forall>c \<in> set p. plain c"
    and x: "\<not> plain x" "x = CR \<Longrightarrow> r \<noteq> [] \<and> hd r \<noteq> LF"
  shows "\<exists>chk'. line_parse b chk read = Inr (b, chk', LINE_BAD)"
proof -
  have o: "start \<le> chk" "chk \<le> read" "read \<le> length b" using ok by (auto simp: lines_ok_def)
  have hd: "x # r = [] \<or> \<not> plain (hd (x # r))" using x(1) by simp
  note to = line_parse_to[OF ok t p hd]
  have "b ! (start + length p) = x" "start + length p < read" using to(3) to(4)[of 0] by simp_all
  moreover have "b ! (start + length p + 1) = hd r" "start + length p + 1 < read" if "r \<noteq> []"
    using that to(3) to(4)[of 1] by (cases r; simp)+
  ultimately have "\<exists>chk'. line_parse b (start + length p) read = Inr (b, chk', LINE_BAD)"
    using x to(5) o by (subst line_parse.simps) (auto simp: plain_def)
  then show ?thesis using to(1) by simp
qed

lemma after_line:
  assumes ok: "lines_ok b chk read start" and t: "unread b start read = p @ CR # LF # r" and p: "\<forall>c \<in> set p. plain c"
    and l: "length b' = length b" and same: "\<forall>j. start + length p \<le> j \<longrightarrow> b' ! j = cut2 b (start + length p) ! j"
  shows "lines_ok b' (start + length p + 2) read (start + length p + 2)"
    and "unread b' (start + length p + 2) read = r"
proof -
  let ?i = "start + length p"
  note lp = line_parse_line[OF ok t p]
  have o: "read \<le> length b" using ok by (simp add: lines_ok_def)
  have "b' ! (?i + 1) = NUL" using same lp(2) o by (simp add: cut2_def)
  then show "lines_ok b' (?i + 2) read (?i + 2)" using lines_ok_after[OF lp(2), of b'] l o by simp
  have "unread b' (?i + 2) read = drop (?i + 2) (take read b)"
  proof (rule nth_equalityI)
    fix k assume "k < length (unread b' (?i + 2) read)"
    then have k: "?i + 2 + k < read" using l o by (simp add: unread_def)
    then have "b' ! (?i + 2 + k) = b ! (?i + 2 + k)" using same by (simp add: cut2_def)
    then show "unread b' (?i + 2) read ! k = drop (?i + 2) (take read b) ! k"
      using k o l by (simp add: unread_nth)
  qed (use l o in \<open>simp add: unread_def\<close>)
  then show "unread b' (?i + 2) read = r" using lp(3) by simp
qed

text \<open>
  What \<open>content_parse\<close> returns for the unread text \<open>t\<close>: the code of the reference, and when the request
  is not complete a state that reads any continuation as the reference reads the whole.
\<close>

definition parsed :: "char list \<Rightarrow> nat \<Rightarrow> CHECK_STATE \<Rightarrow> nat \<Rightarrow> nat \<Rightarrow> string \<Rightarrow> bool" where
  "parsed b chk st read start t \<longleftrightarrow> (\<exists>b' chk' st' start'.
     content_parse b chk st read start = Inr (b', chk', st', start', scan_request st t) \<and> length b' = length b
     \<and> (scan_request st t = NO_REQUEST \<longrightarrow> lines_ok b' chk' read start'
       \<and> (\<forall>w. scan_request st (t @ w) = scan_request st' (unread b' start' read @ w)) \<and> drop read b' = drop read b))"

lemma parsed_step:
  assumes "content_parse b chk st read start = content_parse b2 chk2 st2 read start2" and "length b2 = length b"
    and "\<And>w. scan_request st (t @ w) = scan_request st2 (t2 @ w)" and "drop read b2 = drop read b"
    and "parsed b2 chk2 st2 read start2 t2"
  shows "parsed b chk st read start t"
proof -
  have "scan_request st t = scan_request st2 t2" using assms(3)[of "[]"] by simp
  then show ?thesis using assms(5) unfolding parsed_def assms(1,2,4) by (simp add: assms(3))
qed

lemma parsed_code:
  assumes "content_parse b chk st read start = Inr (b', chk', st', start', c)" and "length b' = length b"
    and "scan_request st t = c" and "c \<noteq> NO_REQUEST"
  shows "parsed b chk st read start t"
  using assms unfolding parsed_def by simp

lemma content_parse_text: "lines_ok b chk read start \<Longrightarrow> parsed b chk st read start (unread b start read)"
proof (induction b chk st read start rule: content_parse.induct)
  case (1 b chk st read start)
  let ?t = "unread b start read"
  have o: "read \<le> length b" using 1(3) by (simp add: lines_ok_def)
  show ?case
  proof (cases ?t rule: text_cases)
    case open_end
    then obtain chk' where c: "line_parse b chk read = Inr (b, chk', LINE_OPEN)" "lines_ok b chk' read start"
      using line_parse_no_line[OF 1(3)] by blast
    have "scan_request st ?t = NO_REQUEST" using open_end scan_open[of ?t st] by (simp add: takeWhile_eq_all_conv[THEN iffD2])
    then show ?thesis using c by (subst parsed_def, subst content_parse.simps) simp
  next
    case (open_cr p)
    then obtain chk' where c: "line_parse b chk read = Inr (b, chk', LINE_OPEN)" "lines_ok b chk' read start"
      using line_parse_no_line[OF 1(3)] by blast
    have "takeWhile plain ?t = p" using open_cr by (simp add: takeWhile_append plain_def)
    then have "scan_request st ?t = NO_REQUEST" using open_cr(1) scan_open[of ?t st] by simp
    then show ?thesis using c by (subst parsed_def, subst content_parse.simps) simp
  next
    case (bad p x r)
    then obtain chk' where "line_parse b chk read = Inr (b, chk', LINE_BAD)" using line_parse_bad[OF 1(3) bad] by blast
    then have "content_parse b chk st read start = Inr (b, chk', st, start, BAD_REQUEST)"
      by (subst content_parse.simps) simp
    then show ?thesis by (rule parsed_code) (use scan_bad[OF bad(2-4)] bad(1) in simp_all)
  next
    case (line p r)
    let ?i = "start + length p" and ?l = "takeWhile (\<lambda>c. c \<noteq> NUL) p"
    let ?b = "cut2 b ?i"
    note lp = line_parse_line[OF 1(3) line]
    have len: "length ?b = length b" by (simp add: cut2_def)
    have drp: "drop read ?b = drop read b" using lp(2) by (simp add: cut2_def)
    have ll: "length ?l \<le> length p" by (rule length_takeWhile_le)
    have sc: "scan_request st (?t @ w) = (case st of
       CHECK_STATE_REQUEST_LINE \<Rightarrow> if valid_request_line ?l then scan_request CHECK_STATE_HEADER (r @ w) else BAD_REQUEST
     | CHECK_STATE_HEADER \<Rightarrow> if ?l = [] then GET_REQUEST else scan_request CHECK_STATE_HEADER (r @ w))" for w
      using scan_line[OF line(2), of st "r @ w"] line(1) by simp
    show ?thesis
    proof (cases st)
      case CHECK_STATE_REQUEST_LINE
      obtain b' where b': "request_line_parse ?b start st = Inr (b', if valid_request_line ?l then CHECK_STATE_HEADER else st,
          if valid_request_line ?l then NO_REQUEST else BAD_REQUEST)" "length b' = length ?b"
        "\<forall>i. i < start \<or> start + length ?l \<le> i \<longrightarrow> b' ! i = ?b ! i"
        using request_line_parse_text[OF lp(4), of st] by blast
      have same: "\<forall>j. ?i \<le> j \<longrightarrow> b' ! j = ?b ! j" using b'(3) ll by simp
      note nx = after_line[OF 1(3) line, of b', OF _ same, unfolded b'(2) len, OF refl]
      show ?thesis
      proof (cases "valid_request_line ?l")
        case True
        have "parsed b' (?i + 2) CHECK_STATE_HEADER read (?i + 2) r"
          using 1(1)[OF lp(1) refl refl refl CHECK_STATE_REQUEST_LINE, of _ b' _ CHECK_STATE_HEADER NO_REQUEST]
            b'(1) True nx CHECK_STATE_REQUEST_LINE by simp
        moreover have "content_parse b chk st read start = content_parse b' (?i + 2) CHECK_STATE_HEADER read (?i + 2)"
          using lp(1) b'(1) True CHECK_STATE_REQUEST_LINE by (subst content_parse.simps) simp
        moreover have "drop read b' = drop read b"
        proof (rule nth_equalityI)
          fix k assume "k < length (drop read b')"
          then have k: "read + k < length b" using b'(2) len by simp
          have "b' ! (read + k) = ?b ! (read + k)" using same lp(2) by simp
          then show "drop read b' ! k = drop read b ! k" using k b'(2) len lp(2) by (simp add: cut2_def)
        qed (use b'(2) len in simp)
        ultimately show ?thesis using parsed_step[of b chk st read start b'] sc True CHECK_STATE_REQUEST_LINE b'(2) len by simp
      next
        case False
        then have "content_parse b chk st read start = Inr (b', ?i + 2, st, ?i + 2, BAD_REQUEST)"
          using lp(1) b'(1) CHECK_STATE_REQUEST_LINE by (subst content_parse.simps) simp
        then show ?thesis by (rule parsed_code) (use False sc[of "[]"] CHECK_STATE_REQUEST_LINE b'(2) len in simp_all)
      qed
    next
      case CHECK_STATE_HEADER
      note nx = after_line[OF 1(3) line, of ?b, OF len] and h = headers_parse_text[OF lp(4)]
      show ?thesis
      proof (cases "?l = []")
        case True
        then have "content_parse b chk st read start = Inr (?b, ?i + 2, st, ?i + 2, GET_REQUEST)"
          using lp(1) h CHECK_STATE_HEADER by (subst content_parse.simps) simp
        then show ?thesis by (rule parsed_code) (use True sc[of "[]"] CHECK_STATE_HEADER len in simp_all)
      next
        case False
        have "parsed ?b (?i + 2) CHECK_STATE_HEADER read (?i + 2) r"
          using 1(2)[OF lp(1) refl refl refl CHECK_STATE_HEADER, of NO_REQUEST] h False nx CHECK_STATE_HEADER by simp
        moreover have "content_parse b chk st read start = content_parse ?b (?i + 2) CHECK_STATE_HEADER read (?i + 2)"
          using lp(1) h False CHECK_STATE_HEADER by (subst content_parse.simps) simp
        ultimately show ?thesis using parsed_step[of b chk st read start ?b] sc False CHECK_STATE_HEADER len drp by simp
      qed
    qed
  qed
qed

subsection \<open>The answer\<close>

definition answer :: "HTTP_CODE \<Rightarrow> string" where
  "answer c = (if c = GET_REQUEST then str_ret ! 0 else str_ret ! 1)"

lemma server_loop_text:
  assumes "lines_ok b chk read start" and "read + length (concat ds) < length b"
    and "scan_request st (unread b start read) = NO_REQUEST"
  shows "server_loop cfd (map Data ds) b read chk start st =
    (let c = scan_request st (unread b start read @ concat ds)
     in if c = NO_REQUEST then Inr ([], False) else Inr ([Send cfd (answer c)], True))"
  using assms
proof (induction "script_size (map Data ds)" arbitrary: ds b chk read start st rule: less_induct)
  case less
  have n: "0 < length b - read" using less.prems(2) by simp
  from brecv_map_Data[OF this, of ds] consider
    (waits) "concat ds = []" "brecv (length b - read) (map Data ds) = (Blocks, [])"
    | (got) d ds' where "brecv (length b - read) (map Data ds) = (Got d, map Data ds')" "d \<noteq> []" "concat ds = d @ concat ds'"
    by blast
  then show ?case
  proof cases
    case waits
    have "server_loop cfd (map Data ds) b read chk start st = Inr ([], False)"
      using waits(2) by (subst server_loop.simps) simp
    then show ?thesis using less.prems(3) unfolding waits(1) by simp
  next
    case got
    have rd: "read + length d \<le> length b" "start \<le> read"
      using less.prems(1,2) unfolding got(3) by (auto simp: lines_ok_def)
    define b1 where "b1 = take read b @ d @ drop (read + length d) b"
    have bl: "blit b read d = Inr b1" using rd by (simp add: b1_def blit_ok)
    have len: "length b1 = length b" using rd by (simp add: b1_def)
    have pre: "b1 ! i = b ! i" if "i < read" for i using that rd by (simp add: b1_def nth_append)
    have ok: "lines_ok b1 chk (read + length d) start"
      using less.prems(1) pre rd len by (auto simp: lines_ok_def)
    have un: "unread b1 start (read + length d) = unread b start read @ d"
      using rd by (simp add: unread_def b1_def drop_take)
    have p: "parsed b1 chk st (read + length d) start (unread b start read @ d)"
      using content_parse_text[OF ok, of st] unfolding un .
    let ?c = "scan_request st (unread b start read @ d)"
    obtain b' chk' st' start' where c: "content_parse b1 chk st (read + length d) start = Inr (b', chk', st', start', ?c)"
      "length b' = length b1" and more: "?c = NO_REQUEST \<longrightarrow> lines_ok b' chk' (read + length d) start'
       \<and> (\<forall>w. scan_request st ((unread b start read @ d) @ w) = scan_request st' (unread b' start' (read + length d) @ w))"
      using p unfolding parsed_def by blast
    have step: "server_loop cfd (map Data ds) b read chk start st =
      (if ?c = NO_REQUEST then server_loop cfd (map Data ds') b' (read + length d) chk' start' st'
       else Inr ([Send cfd (answer ?c)], True))"
      using got(1,2) bl c(1) by (subst server_loop.simps) (simp add: answer_def)
    show ?thesis
    proof (cases "?c = NO_REQUEST")
      case True
      note m = more[rule_format, OF True]
      have "scan_request st' (unread b' start' (read + length d)) = NO_REQUEST"
        using m True by (metis append_Nil2)
      moreover have "script_size (map Data ds') < script_size (map Data ds)"
        using brecv_Got_size[OF got(1,2)] .
      moreover have "read + length d + length (concat ds') < length b'"
        using less.prems(2) len c(2) unfolding got(3) by simp
      ultimately have "server_loop cfd (map Data ds') b' (read + length d) chk' start' st' =
        (let c = scan_request st' (unread b' start' (read + length d) @ concat ds')
         in if c = NO_REQUEST then Inr ([], False) else Inr ([Send cfd (answer c)], True))"
        using less.hyps m by blast
      then show ?thesis using step True m unfolding got(3) by simp
    next
      case False
      then have "scan_request st (unread b start read @ concat ds) = ?c"
        using scan_request_mono[OF False, of "concat ds'"] unfolding got(3) by simp
      then show ?thesis using step False by simp
    qed
  qed
qed

text \<open>
  C10. The server answers a request that fits into its buffer as the reference reads the whole text,
  however the bytes are cut into segments: it sends one answer and closes both sockets when the text
  holds a complete request or an error, and waits for more otherwise.
\<close>

theorem server_answers:
  assumes "length (concat ds) < 4096"
  shows "server_test sock cfd (map Data ds) =
    (let c = scan_request CHECK_STATE_REQUEST_LINE (concat ds)
     in if c = NO_REQUEST then Inr ([], False) else Inr ([Send cfd (answer c), Close cfd, Close sock], True))"
proof -
  let ?b = "replicate 4096 NUL"
  have ok: "lines_ok ?b 0 0 0" by (simp add: lines_ok_def)
  have un: "unread ?b 0 0 = []" by (simp add: unread_def)
  have "scan_request CHECK_STATE_REQUEST_LINE [] = NO_REQUEST" by (simp add: scan_open)
  then show ?thesis
    using server_loop_text[OF ok, of ds CHECK_STATE_REQUEST_LINE cfd] assms unfolding un
    by (simp add: server_test_def Let_def)
qed

theorem server_answers_witness:
  "server_test 3 4 (map Data [''GET / HT'', ''TP/1.1'' @ [CR], [LF] @ ''Host: a'' @ CRLF @ CRLF])
     = Inr ([Send 4 (str_ret ! 0), Close 4, Close 3], True)"
proof -
  let ?ds = "[''GET / HT'', ''TP/1.1'' @ [CR], [LF] @ ''Host: a'' @ CRLF @ CRLF]"
  have v: "valid_request_line ''GET / HTTP/1.1''" by code_simp
  let ?t2 = "[] @ CR # LF # []" and ?t1 = "''Host: a'' @ CR # LF # [] @ CR # LF # []"
  have "scan_request CHECK_STATE_HEADER ?t2 = GET_REQUEST" by (subst scan_line) simp_all
  then have "scan_request CHECK_STATE_HEADER ?t1 = GET_REQUEST" by (subst scan_line) (simp_all add: plain_def)
  then have "scan_request CHECK_STATE_REQUEST_LINE (''GET / HTTP/1.1'' @ CR # LF # ?t1) = GET_REQUEST"
    using v by (subst scan_line) (simp_all add: plain_def)
  then show ?thesis using server_answers[of ?ds 3 4] by (simp add: answer_def)
qed

end
