(* ===== verification/Shm_Chat.thy ===== *)
theory Shm_Chat
  imports C_Io "HOL-Library.Multiset"
begin

text \<open>
  The chat server of 83\_multi\_process/main.cpp: the parent accepts and forks one child for each
  user. A child puts what its user says into its own part of the shared memory and writes its index
  to the parent, who passes the index on to the other children, and they send that part to their
  users.
\<close>

subsection \<open>The parent\<close>

definition BUFFER_SIZE :: nat where "BUFFER_SIZE = 1024"
definition USER_LIMIT :: int where "USER_LIMIT = 5"
definition PROCESS_LIMIT :: int where "PROCESS_LIMIT = 4194304"

record shm_user =
  su_sock :: int
  su_pid :: int
  su_pipe :: "int \<times> int"

record shm_server =
  sm_users :: "shm_user list"
  sub_map_idx :: "int \<Rightarrow> int"
  sm_cnt :: int
  sm_stop :: bool
  sm_terminate :: bool
  sm_epfd :: int
  sm_listen :: int
  sm_sig :: "int \<times> int"

datatype fork_ret = Fork_Failed | In_Child | In_Parent int

text \<open>What the system gives an event of the parent.\<close>

record shm_reply =
  r_accept :: int
  r_pair :: "int \<times> int"
  r_fork :: fork_ret
  r_recv :: recv_ret
  r_reaped :: "int list list"

definition shm_addfd :: "int \<Rightarrow> sys_call list" where
  "shm_addfd fd = [Epoll_Add fd (EPOLLIN OR EPOLLET), Set_Nonblock fd]"

definition shm_start :: "int \<Rightarrow> int \<Rightarrow> int \<times> int \<Rightarrow> shm_user \<Rightarrow> shm_server \<times> sys_call list" where
  "shm_start listen epfd sig u =
     (\<lparr>sm_users = replicate (nat USER_LIMIT + 1) u, sub_map_idx = (\<lambda>_. -1), sm_cnt = 0, sm_stop = False,
       sm_terminate = False, sm_epfd = epfd, sm_listen = listen, sm_sig = sig\<rparr>,
      shm_addfd listen @ [Set_Nonblock (snd sig)] @ shm_addfd (fst sig))"

text \<open>A new connection. In the child the result is the index with which it runs, before it exits.\<close>

definition shm_accept :: "shm_reply \<Rightarrow> shm_server \<Rightarrow> (shm_server \<times> sys_call list \<times> int option) result" where
  "shm_accept r s =
     (let cfd = r_accept r; pp = r_pair r; i = nat (sm_cnt s) in
      if cfd < 0 then Inr (s, [], None)
      else if USER_LIMIT \<le> sm_cnt s then Inr (s, [Send cfd (''too many users'' @ [LF]), Close cfd], None)
      else
        let u = (sm_users s ! i)\<lparr>su_sock := cfd, su_pipe := pp\<rparr>; s1 = s\<lparr>sm_users := (sm_users s)[i := u]\<rparr> in
        case r_fork r of
          Fork_Failed \<Rightarrow> Inr (s1, [Close cfd], None)
        | In_Child \<Rightarrow>
            Inr (s1, [Close (sm_epfd s), Close (sm_listen s), Close (fst pp), Close (fst (sm_sig s)), Close (snd (sm_sig s))],
                 Some (sm_cnt s))
        | In_Parent pid \<Rightarrow>
            if PROCESS_LIMIT \<le> pid then Inl (Bad_Store pid)
            else Inr (s1\<lparr>sm_users := (sm_users s)[i := u\<lparr>su_pid := pid\<rparr>], sub_map_idx := (sub_map_idx s)(pid := sm_cnt s),
                         sm_cnt := sm_cnt s + 1\<rparr>,
                      [Close cfd, Close (snd pp)] @ shm_addfd (fst pp), None))"

text \<open>One child that has ended: the last user takes its place.\<close>

definition shm_reap :: "int \<Rightarrow> shm_server \<Rightarrow> (shm_server \<times> sys_call list) result" where
  "shm_reap pid s =
     (if PROCESS_LIMIT \<le> pid then Inl (Bad_Load pid)
      else
        let del = sub_map_idx s pid; s1 = s\<lparr>sub_map_idx := (sub_map_idx s)(pid := -1)\<rparr> in
        if del < 0 \<or> USER_LIMIT < del then Inr (s1, [])
        else
          let fd = fst (su_pipe (sm_users s ! nat del)); n = sm_cnt s - 1 in
          if n < 0 then Inl (Bad_Load n)
          else
            let u = sm_users s ! nat n in
            Inr (s1\<lparr>sm_users := (sm_users s)[nat del := u], sm_cnt := n,
                    sub_map_idx := (sub_map_idx s1)(su_pid u := del)\<rparr>, [Epoll_Del fd, Close fd]))"

fun shm_reap_all :: "int list \<Rightarrow> shm_server \<Rightarrow> (shm_server \<times> sys_call list) result" where
  "shm_reap_all [] s = Inr (s, [])"
| "shm_reap_all (pid # pids) s =
     bindR (shm_reap pid s) (\<lambda>(s1, k1). bindR (shm_reap_all pids s1) (\<lambda>(s2, k2). Inr (s2, k1 @ k2)))"

definition shm_sigchld :: "int list \<Rightarrow> shm_server \<Rightarrow> (shm_server \<times> sys_call list) result" where
  "shm_sigchld pids s = bindR (shm_reap_all pids s) (\<lambda>(s1, k).
     Inr (if sm_terminate s1 \<and> sm_cnt s1 = 0 then s1\<lparr>sm_stop := True\<rparr> else s1, k))"

definition shm_sigterm :: "shm_server \<Rightarrow> shm_server \<times> sys_call list" where
  "shm_sigterm s =
     (if sm_cnt s = 0 then (s\<lparr>sm_stop := True\<rparr>, [])
      else (s\<lparr>sm_terminate := True\<rparr>, map (\<lambda>u. Kill (su_pid u) SIGTERM) (take (nat (sm_cnt s)) (sm_users s))))"

text \<open>The bytes that were read from the pipe of signals, with what each SIGCHLD reaps.\<close>

fun shm_signals :: "char list \<Rightarrow> int list list \<Rightarrow> shm_server \<Rightarrow> (shm_server \<times> sys_call list) result" where
  "shm_signals [] rs s = Inr (s, [])"
| "shm_signals (c # cs) rs s =
     bindR (if c = char_of SIGCHLD then shm_sigchld (if rs = [] then [] else hd rs) s
            else if c = char_of SIGTERM \<or> c = char_of SIGINT then Inr (shm_sigterm s)
            else Inr (s, [])) (\<lambda>(s1, k1).
       bindR (shm_signals cs (if c = char_of SIGCHLD then tl rs else rs) s1) (\<lambda>(s2, k2). Inr (s2, k1 @ k2)))"

text \<open>The index that a child wrote goes to the other children.\<close>

definition shm_forward :: "int \<Rightarrow> string \<Rightarrow> shm_server \<Rightarrow> sys_call list" where
  "shm_forward fd d s =
     map (\<lambda>u. Send (fst (su_pipe u)) (int_bytes (bytes_int d)))
       (filter (\<lambda>u. fst (su_pipe u) \<noteq> fd) (take (nat (sm_cnt s)) (sm_users s)))"

text \<open>
  An event, with \<open>ret\<close>, which is the bound of the loop over the events and the result of \<open>recv\<close>.
\<close>

definition shm_event :: "int \<Rightarrow> 32 word \<Rightarrow> shm_reply \<Rightarrow> int \<Rightarrow> shm_server
    \<Rightarrow> (shm_server \<times> sys_call list \<times> int option \<times> int) result" where
  "shm_event fd ev r ret s =
     (if fd = sm_listen s then bindR (shm_accept r s) (\<lambda>(s1, k, role). Inr (s1, k, role, ret))
      else if fd = fst (sm_sig s) \<and> ev AND EPOLLIN \<noteq> 0 then
        (case r_recv r of
           Failed e \<Rightarrow> Inr (s, [], None, -1)
         | Closed \<Rightarrow> Inr (s, [], None, 0)
         | Bytes d \<Rightarrow> bindR (shm_signals d (r_reaped r) s) (\<lambda>(s1, k). Inr (s1, k, None, int (length d))))
      else if ev AND EPOLLIN \<noteq> 0 then
        (case r_recv r of
           Failed e \<Rightarrow> Inr (s, [], None, -1)
         | Closed \<Rightarrow> Inr (s, [], None, 0)
         | Bytes d \<Rightarrow> Inr (s, shm_forward fd d s, None, int (length d)))
      else Inr (s, [], None, ret))"

function shm_loop :: "(nat \<Rightarrow> (int \<times> 32 word \<times> shm_reply) option) \<Rightarrow> nat \<Rightarrow> int \<Rightarrow> shm_server
    \<Rightarrow> (shm_server \<times> sys_call list \<times> int option) result" where
  "shm_loop evs i ret s =
     (if int i < ret then
        (if 1024 \<le> i then Inl (Bad_Load (int i))
         else case evs i of
           None \<Rightarrow> Inl (Bad_Load (int i))
         | Some (fd, ev, r) \<Rightarrow>
             bindR (shm_event fd ev r ret s) (\<lambda>(s1, k1, role, ret').
               if role \<noteq> None then Inr (s1, k1, role)
               else bindR (shm_loop evs (Suc i) ret' s1) (\<lambda>(s2, k2, role'). Inr (s2, k1 @ k2, role'))))
      else Inr (s, [], None))"
  by pat_completeness auto
termination
  by (relation "measure (\<lambda>(evs, i, ret, s). 1024 - i)") auto

declare shm_loop.simps [simp del]

definition del_resource :: "shm_server \<Rightarrow> sys_call list" where
  "del_resource s = [Close (snd (sm_sig s)), Close (fst (sm_sig s)), Close (sm_listen s), Close (sm_epfd s)]"

text \<open>
  The loop of the server over what \<open>epoll_wait\<close> gives it: an error, or the number of events. The last
  component is the index of the child when this process is one, and whether the loop was left.
\<close>

fun shm_serve :: "(errno + int \<times> (nat \<Rightarrow> (int \<times> 32 word \<times> shm_reply) option)) list \<Rightarrow> shm_server
    \<Rightarrow> (shm_server \<times> sys_call list \<times> int option \<times> bool) result" where
  "shm_serve ws s =
     (if sm_stop s then Inr (s, del_resource s, None, True)
      else case ws of
        [] \<Rightarrow> Inr (s, [], None, False)
      | Inl e # ws' \<Rightarrow>
          if e \<noteq> EINTR then Inr (s, del_resource s, None, True) else shm_serve ws' s
      | Inr (n, evs) # ws' \<Rightarrow>
          bindR (shm_loop evs 0 n s) (\<lambda>(s1, k1, role).
            if role \<noteq> None then Inr (s1, k1, role, True)
            else bindR (shm_serve ws' s1) (\<lambda>(s2, k2, r). Inr (s2, k1 @ k2, r))))"

declare shm_serve.simps [simp del]

subsection \<open>The child\<close>

record shm_child =
  ch_idx :: int
  ch_sock :: int
  ch_pipe :: int
  ch_stop :: bool

definition segment :: "char list \<Rightarrow> int \<Rightarrow> string" where
  "segment mem i = take BUFFER_SIZE (drop (nat i * BUFFER_SIZE) mem)"

definition set_segment :: "int \<Rightarrow> string \<Rightarrow> char list \<Rightarrow> char list" where
  "set_segment i d mem =
     take (nat i * BUFFER_SIZE) mem @ d @ replicate (BUFFER_SIZE - length d) NUL @ drop (nat i * BUFFER_SIZE + BUFFER_SIZE) mem"

definition in_shm :: "char list \<Rightarrow> int \<Rightarrow> bool" where
  "in_shm mem i \<longleftrightarrow> 0 \<le> i \<and> nat i * BUFFER_SIZE + BUFFER_SIZE \<le> length mem"

definition child_of :: "int \<Rightarrow> shm_server \<Rightarrow> shm_child \<times> sys_call list" where
  "child_of idx s =
     (let u = sm_users s ! nat idx in
      (\<lparr>ch_idx = idx, ch_sock = su_sock u, ch_pipe = snd (su_pipe u), ch_stop = False\<rparr>,
       shm_addfd (su_sock u) @ shm_addfd (snd (su_pipe u))))"

text \<open>
  \<open>recv\<close> is given 1023 bytes for the user and 4 for the pipe; what it returns is an argument.
\<close>

definition shm_child_event :: "int \<Rightarrow> 32 word \<Rightarrow> recv_ret \<Rightarrow> int \<Rightarrow> char list \<Rightarrow> shm_child
    \<Rightarrow> (char list \<times> shm_child \<times> sys_call list \<times> int) result" where
  "shm_child_event fd ev r ret mem c =
     (if fd = ch_sock c \<and> ev AND EPOLLIN \<noteq> 0 then
        (if \<not> in_shm mem (ch_idx c) then Inl (Bad_Store (ch_idx c))
         else case r of
           Failed e \<Rightarrow> Inr (set_segment (ch_idx c) [] mem, if e \<noteq> EAGAIN then c\<lparr>ch_stop := True\<rparr> else c, [], -1)
         | Closed \<Rightarrow> Inr (set_segment (ch_idx c) [] mem, c\<lparr>ch_stop := True\<rparr>, [], 0)
         | Bytes d \<Rightarrow> Inr (set_segment (ch_idx c) d mem, c, [Send (ch_pipe c) (int_bytes (ch_idx c))], int (length d)))
      else if fd = ch_pipe c \<and> ev AND EPOLLIN \<noteq> 0 then
        (case r of
           Failed e \<Rightarrow> Inr (mem, if e \<noteq> EAGAIN then c\<lparr>ch_stop := True\<rparr> else c, [], -1)
         | Closed \<Rightarrow> Inr (mem, c\<lparr>ch_stop := True\<rparr>, [], 0)
         | Bytes d \<Rightarrow>
             if \<not> in_shm mem (bytes_int d) then Inl (Bad_Load (bytes_int d))
             else Inr (mem, c, [Send (ch_sock c) (segment mem (bytes_int d))], int (length d)))
      else Inr (mem, c, [], ret))"

function shm_child_loop :: "(nat \<Rightarrow> (int \<times> 32 word \<times> recv_ret) option) \<Rightarrow> nat \<Rightarrow> int \<Rightarrow> char list \<Rightarrow> shm_child
    \<Rightarrow> (char list \<times> shm_child \<times> sys_call list) result" where
  "shm_child_loop evs i ret mem c =
     (if int i < ret then
        (if 1024 \<le> i then Inl (Bad_Load (int i))
         else case evs i of
           None \<Rightarrow> Inl (Bad_Load (int i))
         | Some (fd, ev, r) \<Rightarrow>
             bindR (shm_child_event fd ev r ret mem c) (\<lambda>(mem1, c1, k1, ret').
               bindR (shm_child_loop evs (Suc i) ret' mem1 c1) (\<lambda>(mem2, c2, k2). Inr (mem2, c2, k1 @ k2))))
      else Inr (mem, c, []))"
  by pat_completeness auto
termination
  by (relation "measure (\<lambda>(evs, i, ret, mem, c). 1024 - i)") auto

declare shm_child_loop.simps [simp del]

text \<open>
  \<open>child_run\<close> over what \<open>epoll_wait\<close> gives it; before each wait the memory is what the other processes
  have made of it. The handler of SIGTERM, which interrupts the wait, sets \<open>child_stop\<close>.
\<close>

datatype child_wait = Wait_Error errno | Wait_Term | Wait_Events int "nat \<Rightarrow> (int \<times> 32 word \<times> recv_ret) option"

fun child_run :: "(child_wait \<times> char list) list \<Rightarrow> shm_child \<Rightarrow> (shm_child \<times> sys_call list \<times> bool) result" where
  "child_run ws c =
     (if ch_stop c then Inr (c, [Close (ch_sock c), Close (ch_pipe c)], True)
      else case ws of
        [] \<Rightarrow> Inr (c, [], False)
      | (Wait_Error e, mem) # ws' \<Rightarrow>
          if e \<noteq> EINTR then Inr (c, [Close (ch_sock c), Close (ch_pipe c)], True) else child_run ws' c
      | (Wait_Term, mem) # ws' \<Rightarrow> child_run ws' (c\<lparr>ch_stop := True\<rparr>)
      | (Wait_Events n evs, mem) # ws' \<Rightarrow>
          bindR (shm_child_loop evs 0 n mem c) (\<lambda>(mem', c1, k1).
            bindR (child_run ws' c1) (\<lambda>(c2, k2, b). Inr (c2, k1 @ k2, b))))"

declare child_run.simps [simp del]

subsection \<open>The table of users\<close>

definition live :: "shm_server \<Rightarrow> shm_user list" where
  "live s = take (nat (sm_cnt s)) (sm_users s)"

definition shm_inv :: "shm_server \<Rightarrow> bool" where
  "shm_inv s \<longleftrightarrow> length (sm_users s) = 6 \<and> 0 \<le> sm_cnt s \<and> sm_cnt s \<le> USER_LIMIT
     \<and> distinct (map su_pid (live s)) \<and> distinct (map (fst \<circ> su_pipe) (live s))
     \<and> (\<forall>k < length (live s). sub_map_idx s (su_pid (live s ! k)) = int k
          \<and> 0 < su_pid (live s ! k) \<and> su_pid (live s ! k) < PROCESS_LIMIT)"

lemma length_live: "shm_inv s \<Longrightarrow> length (live s) = nat (sm_cnt s)"
  by (auto simp: shm_inv_def live_def USER_LIMIT_def)

text \<open>Removing an entry by putting the last one in its place.\<close>

lemma mset_fill_from_last:
  assumes "k < length xs"
  shows "mset (take (length xs - 1) (xs[k := last xs])) = mset xs - {#xs ! k#}"
proof -
  let ?y = "xs[k := last xs]"
  have ne: "xs \<noteq> []" "?y \<noteq> []" using assms by auto
  have "last ?y = last xs" using ne assms by (simp add: last_conv_nth nth_list_update)
  moreover have "take (length xs - 1) ?y = butlast ?y" by (simp add: butlast_conv_take)
  moreover have "mset ?y = add_mset (last ?y) (mset (butlast ?y))"
    using arg_cong[OF append_butlast_last_id[OF ne(2)], of mset] by simp
  moreover have "mset ?y = add_mset (last xs) (mset xs - {#xs ! k#})" using assms by (rule mset_update)
  ultimately show ?thesis by simp
qed

lemma distinct_map_submset:
  assumes "mset ys \<subseteq># mset xs" and "distinct (map g xs)"
  shows "distinct (map g ys)"
proof -
  have "count (mset (map g ys)) a \<le> count (mset (map g xs)) a" for a
    using image_mset_subseteq_mono[OF assms(1), of g] by (simp add: mset_subset_eq_count)
  then have "count (mset (map g ys)) a \<le> 1" for a
    using assms(2) by (metis distinct_count_atmost_1 le_trans le_numeral_extra(4) zero_le)
  then show ?thesis
    unfolding distinct_count_atmost_1 by (metis One_nat_def Suc_leI count_mset_0_iff le_antisym not_gr_zero)
qed

lemma live_nth: "k < length (live s) \<Longrightarrow> live s ! k = sm_users s ! k"
  by (simp add: live_def)

lemma shm_start_inv: "shm_inv (fst (shm_start l e g u))"
  by (simp add: shm_inv_def shm_start_def live_def USER_LIMIT_def)

definition new_user :: "shm_reply \<Rightarrow> int \<Rightarrow> shm_server \<Rightarrow> shm_user" where
  "new_user r pid s = (sm_users s ! nat (sm_cnt s))\<lparr>su_sock := r_accept r, su_pipe := r_pair r, su_pid := pid\<rparr>"

lemma shm_accept_parent:
  assumes inv: "shm_inv s" and "0 \<le> r_accept r" and "sm_cnt s < USER_LIMIT" and "r_fork r = In_Parent pid"
    and "0 < pid" and "pid < PROCESS_LIMIT"
    and "pid \<notin> su_pid ` set (live s)" and "fst (r_pair r) \<notin> (fst \<circ> su_pipe) ` set (live s)"
  shows "\<exists>s'. shm_accept r s = Inr (s', [Close (r_accept r), Close (snd (r_pair r))] @ shm_addfd (fst (r_pair r)), None)
    \<and> shm_inv s' \<and> live s' = live s @ [new_user r pid s] \<and> sm_cnt s' = sm_cnt s + 1
    \<and> sm_listen s' = sm_listen s \<and> sm_sig s' = sm_sig s"
proof -
  let ?n = "nat (sm_cnt s)" and ?u = "new_user r pid s"
  define s' where "s' = s\<lparr>sm_users := (sm_users s)[?n := ?u], sub_map_idx := (sub_map_idx s)(pid := sm_cnt s), sm_cnt := sm_cnt s + 1\<rparr>"
  have c: "length (sm_users s) = 6" "0 \<le> sm_cnt s" using inv by (auto simp: shm_inv_def)
  have n: "?n < 6" "nat (sm_cnt s + 1) = Suc ?n" using assms(3) c(2) by (auto simp: USER_LIMIT_def nat_add_distrib)
  have l: "live s' = live s @ [?u]"
    using n c(1) by (simp add: live_def s'_def take_Suc_conv_app_nth)
  have f: "sub_map_idx s' = (sub_map_idx s)(pid := sm_cnt s)" "length (sm_users s') = 6" "sm_cnt s' = sm_cnt s + 1"
    "sm_listen s' = sm_listen s" "sm_sig s' = sm_sig s" using c(1) by (simp_all add: s'_def)
  have u: "su_pid ?u = pid" "su_pipe ?u = r_pair r" by (simp_all add: new_user_def)
  have "shm_accept r s = Inr (s', [Close (r_accept r), Close (snd (r_pair r))] @ shm_addfd (fst (r_pair r)), None)"
    using assms(2,3,4,6) by (simp add: shm_accept_def Let_def s'_def new_user_def)
  moreover have "shm_inv s'"
  proof -
    have "sub_map_idx s' (su_pid (live s' ! k)) = int k \<and> 0 < su_pid (live s' ! k) \<and> su_pid (live s' ! k) < PROCESS_LIMIT"
      if k: "k < length (live s')" for k
    proof (cases "k < length (live s)")
      case True
      then have "su_pid (live s ! k) \<noteq> pid" using assms(7) nth_mem[OF True] by auto
      then show ?thesis using inv True by (simp add: shm_inv_def l nth_append f)
    next
      case False
      then have "k = length (live s)" using k by (simp add: l)
      then show ?thesis using assms(5,6) length_live[OF inv] c(2) u by (simp add: l nth_append f)
    qed
    then show ?thesis using inv assms(3,7,8) u unfolding shm_inv_def f l by auto
  qed
  ultimately show ?thesis using l f by blast
qed

lemma shm_reap_live:
  assumes inv: "shm_inv s" and k: "k < length (live s)"
  defines "f \<equiv> fst (su_pipe (live s ! k))"
  shows "\<exists>s'. shm_reap (su_pid (live s ! k)) s = Inr (s', [Epoll_Del f, Close f])
    \<and> shm_inv s' \<and> mset (live s') = mset (live s) - {#live s ! k#} \<and> sm_cnt s' = sm_cnt s - 1
    \<and> sm_stop s' = sm_stop s \<and> sm_terminate s' = sm_terminate s"
proof -
  let ?L = "live s" and ?pid = "su_pid (live s ! k)"
  define m where "m = length ?L - 1"
  have c: "length (sm_users s) = 6" "0 \<le> sm_cnt s" "sm_cnt s \<le> 5" using inv by (auto simp: shm_inv_def USER_LIMIT_def)
  note ln = length_live[OF inv]
  have m: "m < length ?L" "nat (sm_cnt s - 1) = m" "sm_cnt s = int m + 1" using k ln c(2) by (auto simp: m_def)
  have pid: "sub_map_idx s ?pid = int k" "?pid < PROCESS_LIMIT" using inv k by (auto simp: shm_inv_def)
  have d: "distinct (map su_pid ?L)" using inv by (simp add: shm_inv_def)
  let ?u = "?L ! m"
  define s' where "s' = s\<lparr>sm_users := (sm_users s)[k := ?u], sm_cnt := sm_cnt s - 1,
      sub_map_idx := (sub_map_idx s)(?pid := -1, su_pid ?u := int k)\<rparr>"
  have "shm_reap ?pid s = Inr (s', [Epoll_Del f, Close f])"
  proof -
    have "\<not> (int k < 0 \<or> USER_LIMIT < int k)" "\<not> sm_cnt s - 1 < 0" using k c(3) m(1,3) by (auto simp: USER_LIMIT_def m_def)
    moreover have "sm_users s ! m = ?u" "sm_users s ! k = ?L ! k" using live_nth[OF k] live_nth[OF m(1)] by simp_all
    ultimately show ?thesis using pid m(2) by (simp add: shm_reap_def Let_def f_def s'_def del: of_nat_less_0_iff)
  qed
  moreover have l: "live s' = take m (?L[k := last ?L])"
  proof -
    have "last ?L = ?u" using k by (subst last_conv_nth) (auto simp: m_def)
    moreover have "?L[k := ?u] = take (length ?L) ((sm_users s)[k := ?u])"
      using k ln by (simp add: live_def take_update_swap)
    moreover have "nat (sm_cnt s') = m" "sm_users s' = (sm_users s)[k := ?u]" using m(2) by (simp_all add: s'_def)
    then have "live s' = take m ((sm_users s)[k := ?u])" by (simp add: live_def[of s'])
    ultimately show ?thesis using m(1) by (simp add: min_absorb1)
  qed
  have f: "sub_map_idx s' = (sub_map_idx s)(?pid := -1, su_pid ?u := int k)" "length (sm_users s') = 6"
    "sm_cnt s' = sm_cnt s - 1" "sm_stop s' = sm_stop s" "sm_terminate s' = sm_terminate s"
    using c(1) by (simp_all add: s'_def)
  have ll: "length (live s') = m" by (simp add: l m_def)
  have lk: "live s' ! j = (if j = k then ?u else ?L ! j)" if "j < m" for j
    using that k by (subst l, subst last_conv_nth) (auto simp: nth_list_update m_def)
  have ms: "mset (live s') = mset ?L - {#?L ! k#}" unfolding l m_def by (rule mset_fill_from_last[OF k])
  have "shm_inv s'"
  proof -
    have inj: "i = j" if "i < length ?L" "j < length ?L" "su_pid (?L ! i) = su_pid (?L ! j)" for i j
      using nth_eq_iff_index_eq[OF d, of i j] that by simp
    have "sub_map_idx s' (su_pid (live s' ! j)) = int j \<and> 0 < su_pid (live s' ! j) \<and> su_pid (live s' ! j) < PROCESS_LIMIT"
      if j: "j < length (live s')" for j
    proof (cases "j = k")
      case True
      then show ?thesis using j ll lk[of j] inv m(1) by (simp add: shm_inv_def f)
    next
      case False
      have jL: "j < m" "j < length ?L" using j ll m by auto
      have "su_pid (?L ! j) \<noteq> ?pid" "su_pid (?L ! j) \<noteq> su_pid ?u"
        using inj[OF jL(2) k] inj[OF jL(2) m(1)] False jL(1) by auto
      then show ?thesis using lk[OF jL(1)] False inv jL(2) by (simp add: shm_inv_def f)
    qed
    moreover have "mset (live s') \<subseteq># mset ?L" by (simp add: ms)
    note distinct_map_submset[OF this]
    moreover have "0 \<le> sm_cnt s - 1" "sm_cnt s - 1 \<le> USER_LIMIT" using m(3) c(3) by (simp_all add: USER_LIMIT_def)
    ultimately show ?thesis using inv unfolding shm_inv_def f by blast
  qed
  ultimately show ?thesis using ms f by blast
qed

subsection \<open>Children that end\<close>

lemma shm_reap_all_live:
  assumes "shm_inv s" and "distinct pids" and "set pids \<subseteq> su_pid ` set (live s)"
  shows "\<exists>s' k. shm_reap_all pids s = Inr (s', k) \<and> shm_inv s'
    \<and> mset (live s') = filter_mset (\<lambda>u. su_pid u \<notin> set pids) (mset (live s))
    \<and> (\<forall>u \<in> set (live s). su_pid u \<in> set pids \<longrightarrow> Close (fst (su_pipe u)) \<in> set k)
    \<and> sm_stop s' = sm_stop s \<and> sm_terminate s' = sm_terminate s"
  using assms
proof (induction pids arbitrary: s)
  case Nil
  then show ?case by simp
next
  case (Cons p ps)
  from Cons(4) have "p \<in> su_pid ` set (live s)" by simp
  then obtain k where k: "k < length (live s)" "p = su_pid (live s ! k)" by (auto simp: in_set_conv_nth)
  let ?u = "live s ! k"
  have only: "u = ?u" if "u \<in> set (live s)" "su_pid u = p" for u
  proof -
    have "distinct (map su_pid (live s))" using Cons(2) by (simp add: shm_inv_def)
    then have "inj_on su_pid (set (live s))" by (simp add: distinct_map)
    then show ?thesis using that k nth_mem[OF k(1)] by (auto dest: inj_onD)
  qed
  obtain s1 where s1: "shm_reap p s = Inr (s1, [Epoll_Del (fst (su_pipe ?u)), Close (fst (su_pipe ?u))])" "shm_inv s1"
    "mset (live s1) = mset (live s) - {#?u#}" "sm_stop s1 = sm_stop s" "sm_terminate s1 = sm_terminate s"
    using shm_reap_live[OF Cons(2) k(1), folded k(2)] by (elim exE conjE)
  have dl: "distinct (live s)" using Cons(2) by (simp add: shm_inv_def distinct_map)
  have ul: "?u \<in># mset (live s)" using nth_mem[OF k(1)] by simp
  have rest: "mset (live s) = add_mset ?u (mset (live s1))" using s1(3) ul by simp
  have sets: "set (live s) = insert ?u (set (live s1))" using arg_cong[OF rest, of set_mset] by simp
  have "distinct (?u # live s1)" using mset_eq_imp_distinct_iff[of "?u # live s1" "live s"] rest dl by simp
  then have nu: "?u \<notin> set (live s1)" by simp
  have np: "su_pid u \<noteq> p" if u: "u \<in> set (live s1)" for u
  proof
    assume "su_pid u = p"
    then have "u = ?u" using only[of u] u sets by blast
    then show False using nu u by simp
  qed
  have "set ps \<subseteq> su_pid ` set (live s1)"
  proof
    fix q assume q: "q \<in> set ps"
    then have "q \<noteq> p" "q \<in> su_pid ` set (live s)" using Cons(3,4) by auto
    then show "q \<in> su_pid ` set (live s1)" unfolding sets k(2) by blast
  qed
  obtain s2 k2 where s2: "shm_reap_all ps s1 = Inr (s2, k2)" "shm_inv s2"
    "mset (live s2) = filter_mset (\<lambda>u. su_pid u \<notin> set ps) (mset (live s1))"
    "\<forall>u \<in> set (live s1). su_pid u \<in> set ps \<longrightarrow> Close (fst (su_pipe u)) \<in> set k2"
    "sm_stop s2 = sm_stop s1" "sm_terminate s2 = sm_terminate s1"
    using Cons(1)[OF s1(2) _ \<open>set ps \<subseteq> _\<close>] Cons(3) by (auto simp del: mset_filter)
  have "filter_mset (\<lambda>u. su_pid u \<notin> set ps) (mset (live s1)) = filter_mset (\<lambda>u. su_pid u \<notin> set (p # ps)) (mset (live s1))"
    by (rule filter_mset_cong) (use np in auto)
  then have "mset (live s2) = filter_mset (\<lambda>u. su_pid u \<notin> set (p # ps)) (mset (live s))"
    unfolding s2(3) rest using k(2) by simp
  moreover have "Close (fst (su_pipe u)) \<in> set ([Epoll_Del (fst (su_pipe ?u)), Close (fst (su_pipe ?u))] @ k2)"
    if "u \<in> set (live s)" "su_pid u \<in> set (p # ps)" for u
  proof (cases "u = ?u")
    case False
    then have "u \<in> set (live s1)" "su_pid u \<in> set ps" using that sets np by auto
    then show ?thesis using s2(4) by simp
  qed simp
  moreover have "shm_reap_all (p # ps) s = Inr (s2, [Epoll_Del (fst (su_pipe ?u)), Close (fst (su_pipe ?u))] @ k2)"
    using s1(1) s2(1) by simp
  ultimately show ?case using s1(4,5) s2(2,5,6) by blast
qed

text \<open>
  Children that have ended leave the table together with their connections: after SIGCHLD exactly
  the users of the other children are left, each still found by its process, every pipe of an ended
  child is closed, and the server stops when it was told to and nobody is left.
\<close>

theorem shm_children_leave:
  assumes "shm_inv s" and "distinct pids" and "set pids \<subseteq> su_pid ` set (live s)"
  shows "\<exists>s' k. shm_sigchld pids s = Inr (s', k) \<and> shm_inv s'
    \<and> mset (live s') = filter_mset (\<lambda>u. su_pid u \<notin> set pids) (mset (live s))
    \<and> (\<forall>u \<in> set (live s). su_pid u \<in> set pids \<longrightarrow> Close (fst (su_pipe u)) \<in> set k)
    \<and> sm_stop s' = (sm_stop s \<or> sm_terminate s \<and> live s' = [])"
proof -
  obtain s1 k where s1: "shm_reap_all pids s = Inr (s1, k)" "shm_inv s1"
    "mset (live s1) = filter_mset (\<lambda>u. su_pid u \<notin> set pids) (mset (live s))"
    "\<forall>u \<in> set (live s). su_pid u \<in> set pids \<longrightarrow> Close (fst (su_pipe u)) \<in> set k"
    "sm_stop s1 = sm_stop s" "sm_terminate s1 = sm_terminate s"
    using shm_reap_all_live[OF assms] by blast
  let ?s = "if sm_terminate s1 \<and> sm_cnt s1 = 0 then s1\<lparr>sm_stop := True\<rparr> else s1"
  have "live ?s = live s1" "shm_inv ?s" using s1(2) by (auto simp: live_def shm_inv_def)
  moreover have "live s1 = [] \<longleftrightarrow> sm_cnt s1 = 0"
    using length_live[OF s1(2)] s1(2) by (auto simp: shm_inv_def)
  ultimately show ?thesis using s1 by (auto simp: shm_sigchld_def)
qed

definition demo_room :: shm_server where
  "demo_room = \<lparr>sm_users = [\<lparr>su_sock = 7, su_pid = 101, su_pipe = (8, 9)\<rparr>, \<lparr>su_sock = 7, su_pid = 102, su_pipe = (9, 10)\<rparr>]
       @ replicate 4 \<lparr>su_sock = 0, su_pid = 0, su_pipe = (0, 0)\<rparr>,
     sub_map_idx = (\<lambda>_. -1)(101 := 0, 102 := 1), sm_cnt = 2, sm_stop = False, sm_terminate = False,
     sm_epfd = 4, sm_listen = 3, sm_sig = (5, 6)\<rparr>"

lemma live_demo: "live demo_room = [\<lparr>su_sock = 7, su_pid = 101, su_pipe = (8, 9)\<rparr>, \<lparr>su_sock = 7, su_pid = 102, su_pipe = (9, 10)\<rparr>]"
  by (simp add: live_def demo_room_def)

lemma demo_room_inv: "shm_inv demo_room"
proof -
  have "sub_map_idx demo_room 101 = 0" "sub_map_idx demo_room 102 = 1" "length (sm_users demo_room) = 6" "sm_cnt demo_room = 2"
    by (simp_all add: demo_room_def)
  then show ?thesis unfolding shm_inv_def live_demo by (auto simp: less_Suc_eq USER_LIMIT_def PROCESS_LIMIT_def)
qed

theorem shm_children_leave_witness:
  "\<exists>s' k. shm_sigchld [101] demo_room = Inr (s', k) \<and> mset (live s') = {#\<lparr>su_sock = 7, su_pid = 102, su_pipe = (9, 10)\<rparr>#}
     \<and> Close 8 \<in> set k"
  using shm_children_leave[OF demo_room_inv, of "[101]"] by (auto simp: live_demo)

text \<open>
  C38. The server can be ended: SIGTERM is passed on to every child, and when SIGCHLD then reports
  that they have all ended, in whatever order, the server stops with every pipe closed.
\<close>

theorem shm_shutdown:
  assumes "shm_inv s" and "live s \<noteq> []" and "distinct pids" and "set pids = su_pid ` set (live s)"
  shows "\<exists>s' k. shm_signals [char_of SIGTERM, char_of SIGCHLD] [pids] s = Inr (s', k)
    \<and> sm_stop s' \<and> live s' = []
    \<and> (\<forall>u \<in> set (live s). Kill (su_pid u) SIGTERM \<in> set k \<and> Close (fst (su_pipe u)) \<in> set k)"
proof -
  let ?s = "s\<lparr>sm_terminate := True\<rparr>"
  have c: "sm_cnt s \<noteq> 0" using assms(2) by (auto simp: live_def)
  have l: "live ?s = live s" by (simp add: live_def)
  have "shm_inv ?s" using assms(1) by (auto simp: shm_inv_def l)
  then obtain s1 k where s1: "shm_reap_all pids ?s = Inr (s1, k)" "shm_inv s1"
    "mset (live s1) = filter_mset (\<lambda>u. su_pid u \<notin> set pids) (mset (live s))"
    "\<forall>u \<in> set (live s). su_pid u \<in> set pids \<longrightarrow> Close (fst (su_pipe u)) \<in> set k" "sm_terminate s1"
    using shm_reap_all_live[of ?s pids] assms(3,4) l by auto
  have "set_mset (mset (live s1)) = {}" unfolding s1(3) using assms(4) by auto
  then have e: "live s1 = []" by simp
  then have "sm_cnt s1 = 0" using length_live[OF s1(2)] s1(2) by (simp add: shm_inv_def)
  then have ch: "shm_sigchld pids ?s = Inr (s1\<lparr>sm_stop := True\<rparr>, k)" using s1(1,5) by (simp add: shm_sigchld_def)
  have t: "shm_sigterm s = (?s, map (\<lambda>u. Kill (su_pid u) SIGTERM) (live s))" using c by (simp add: shm_sigterm_def live_def)
  have "char_of SIGTERM \<noteq> (char_of SIGCHLD :: char)" by (simp add: signal_defs)
  then have "shm_signals [char_of SIGTERM, char_of SIGCHLD] [pids] s
      = Inr (s1\<lparr>sm_stop := True\<rparr>, map (\<lambda>u. Kill (su_pid u) SIGTERM) (live s) @ k)"
    using t ch by simp
  moreover have "live (s1\<lparr>sm_stop := True\<rparr>) = []" using e by (simp add: live_def)
  ultimately show ?thesis using s1(4) assms(4) by auto
qed

theorem shm_shutdown_witness:
  "\<exists>s' k. shm_signals [char_of SIGTERM, char_of SIGCHLD] [[102, 101]] demo_room = Inr (s', k) \<and> sm_stop s' \<and> live s' = []"
proof -
  have "set [102, 101] = su_pid ` set (live demo_room)" by (auto simp: live_demo)
  from shm_shutdown[OF demo_room_inv _ _ this] show ?thesis by (auto simp: live_demo simp del: shm_signals.simps)
qed


subsection \<open>Messages\<close>

lemma length_set_segment:
  "in_shm mem i \<Longrightarrow> length d \<le> BUFFER_SIZE \<Longrightarrow> length (set_segment i d mem) = length mem"
  by (simp add: set_segment_def in_shm_def)

lemma segment_set_segment:
  "in_shm mem i \<Longrightarrow> length d \<le> BUFFER_SIZE \<Longrightarrow> segment (set_segment i d mem) i = d @ replicate (BUFFER_SIZE - length d) NUL"
  by (simp add: set_segment_def segment_def in_shm_def)



text \<open>
  Two children can share one part of the memory. The index of a child is the place of its user in
  the table when it was forked, but the places are filled up again when a child ends: after a user
  other than the last has left, the next child runs with the index of the last one, which is still
  there, and they overwrite each other's messages.
\<close>

theorem shm_segment_shared:
  assumes inv: "shm_inv s" and acc: "0 \<le> r_accept r" "sm_cnt s < USER_LIMIT" "0 < pid" "pid < PROCESS_LIMIT"
    and fresh: "pid \<notin> su_pid ` set (live s)" "fst (r_pair r) \<notin> (fst \<circ> su_pipe) ` set (live s)"
    and k: "k < length (live s)" and acc': "0 \<le> r_accept r'"
  shows "\<exists>c c' s1 s2 c1 c2 k1. shm_accept (r\<lparr>r_fork := In_Child\<rparr>) s = Inr (c, c1, Some (sm_cnt s))
    \<and> shm_accept (r\<lparr>r_fork := In_Parent pid\<rparr>) s = Inr (s1, k1, None)
    \<and> shm_reap (su_pid (live s ! k)) s1 = Inr (s2, c2) \<and> pid \<in> su_pid ` set (live s2)
    \<and> (\<exists>k'. shm_accept (r'\<lparr>r_fork := In_Child\<rparr>) s2 = Inr (c', k', Some (sm_cnt s)))"
proof -
  let ?r = "r\<lparr>r_fork := In_Parent pid\<rparr>"
  obtain s1 where s1: "\<exists>k1. shm_accept ?r s = Inr (s1, k1, None)" "shm_inv s1"
    "live s1 = live s @ [new_user ?r pid s]" "sm_cnt s1 = sm_cnt s + 1"
    using shm_accept_parent[OF inv, of ?r pid] acc fresh by auto
  have kk: "k < length (live s1)" "live s1 ! k = live s ! k" using k by (simp_all add: s1(3) nth_append)
  obtain s2 c2 where s2: "shm_reap (su_pid (live s ! k)) s1 = Inr (s2, c2)"
    "mset (live s2) = mset (live s1) - {#live s ! k#}" "sm_cnt s2 = sm_cnt s1 - 1"
    using shm_reap_live[OF s1(2) kk(1)] kk(2) by auto
  let ?u = "new_user ?r pid s"
  have pu: "su_pid ?u = pid" by (simp add: new_user_def)
  have "mset (live s2) = mset (live s) - {#live s ! k#} + {#?u#}"
    using s2(2) nth_mem[OF k] by (simp add: s1(3))
  then have "?u \<in> set (live s2)" by (metis add_mset_add_single set_mset_mset union_single_eq_member)
  then have "pid \<in> su_pid ` set (live s2)" using pu by force
  moreover have "\<exists>c c1. shm_accept (r\<lparr>r_fork := In_Child\<rparr>) s = Inr (c, c1, Some (sm_cnt s))"
    using acc by (simp add: shm_accept_def Let_def)
  moreover have "\<exists>c' k'. shm_accept (r'\<lparr>r_fork := In_Child\<rparr>) s2 = Inr (c', k', Some (sm_cnt s))"
    using acc(2) acc' s1(4) s2(3) by (simp add: shm_accept_def Let_def)
  ultimately show ?thesis using s1(1) s2(1) by blast
qed

theorem shm_segment_shared_witness:
  "\<exists>s1 s2 k1 c2 c' k'. shm_accept \<lparr>r_accept = 11, r_pair = (12, 13), r_fork = In_Parent 103, r_recv = Closed, r_reaped = []\<rparr> demo_room
      = Inr (s1, k1, None)
    \<and> shm_reap 101 s1 = Inr (s2, c2)
    \<and> shm_accept \<lparr>r_accept = 14, r_pair = (15, 16), r_fork = In_Child, r_recv = Closed, r_reaped = []\<rparr> s2 = Inr (c', k', Some 2)"
  using shm_segment_shared[OF demo_room_inv, of "\<lparr>r_accept = 11, r_pair = (12, 13), r_fork = In_Child, r_recv = Closed, r_reaped = []\<rparr>" 103 0
      "\<lparr>r_accept = 14, r_pair = (15, 16), r_fork = In_Child, r_recv = Closed, r_reaped = []\<rparr>"]
  by (simp add: live_demo USER_LIMIT_def PROCESS_LIMIT_def) (auto simp: demo_room_def)

end
