(* ===== verification/Thread_Chat.thy ===== *)
theory Thread_Chat
  imports C_Io
begin

text \<open>
  The chat server of 48\_multi\_thread\_server/main.cpp, with a thread for each client and the table of
  sockets behind a mutex, and its client. What happens under the mutex is one step.
\<close>

subsection \<open>The table of sockets\<close>

record sock_table =
  socks :: "int list"
  sock_index :: int

definition table :: "sock_table \<Rightarrow> int list" where
  "table t = take (nat (sock_index t)) (socks t)"

definition send_msg :: "string \<Rightarrow> sock_table \<Rightarrow> sys_call list" where
  "send_msg msg t = map (\<lambda>s. Send s msg) (table t)"

definition enter_sock :: "int \<Rightarrow> sock_table \<Rightarrow> sock_table result" where
  "enter_sock s t =
     (if sock_index t < 0 \<or> 1024 \<le> sock_index t then Inl (Bad_Store (sock_index t))
      else Inr (t\<lparr>socks := (socks t)[nat (sock_index t) := s], sock_index := sock_index t + 1\<rparr>))"

text \<open>\<open>while (i++ < sock_index - 1) socks[i] = socks[i + 1]\<close>: \<open>i\<close> has been increased in the body.\<close>

function shift_socks :: "int list \<Rightarrow> nat \<Rightarrow> int \<Rightarrow> int list result" where
  "shift_socks xs i n =
     (if int i < n - 1 then
        (if length xs \<le> i + 2 then Inl (Bad_Load (int i + 2))
         else shift_socks (xs[i + 1 := xs ! (i + 2)]) (i + 1) n)
      else Inr xs)"
  by pat_completeness auto
termination
  by (relation "measure (\<lambda>(xs, i, n). nat (n - int i))") auto

declare shift_socks.simps [simp del]

fun find_sock :: "int \<Rightarrow> int list \<Rightarrow> nat option" where
  "find_sock s [] = None"
| "find_sock s (x # xs) = (if s = x then Some 0 else map_option Suc (find_sock s xs))"

definition remove_sock :: "int \<Rightarrow> sock_table \<Rightarrow> sock_table result" where
  "remove_sock s t =
     (case find_sock s (table t) of
        None \<Rightarrow> Inr (t\<lparr>sock_index := sock_index t - 1\<rparr>)
      | Some i \<Rightarrow> bindR (shift_socks (socks t) i (sock_index t)) (\<lambda>xs.
          Inr (t\<lparr>socks := xs, sock_index := sock_index t - 1\<rparr>)))"

subsection \<open>The threads\<close>

text \<open>
  A handler gets the address of the variable \<open>clt_sock\<close> of the main thread, and reads it when it
  starts to run.
\<close>

datatype handler = Fresh | Running int | Ended

record chat_sys =
  ct_table :: sock_table
  clt_sock :: int
  accepted :: bool
  handlers :: "handler list"

datatype chat_act = Accepts int | Enters | Starts nat | Reads nat string | Leaves nat

definition chat_init :: "int list \<Rightarrow> chat_sys" where
  "chat_init xs = \<lparr>ct_table = \<lparr>socks = xs, sock_index = 0\<rparr>, clt_sock = 0, accepted = False, handlers = []\<rparr>"

text \<open>
  One step: the main thread accepts, then enters the socket into the table and starts a thread; a
  handler reads its argument, forwards what it reads, or ends. \<open>None\<close> when the thread cannot do that.
\<close>

definition chat_act :: "chat_act \<Rightarrow> chat_sys \<Rightarrow> (chat_sys \<times> sys_call list) result option" where
  "chat_act a c = (case a of
     Accepts s \<Rightarrow> if accepted c then None else Some (Inr (c\<lparr>clt_sock := s, accepted := True\<rparr>, []))
   | Enters \<Rightarrow> if \<not> accepted c then None
       else Some (bindR (enter_sock (clt_sock c) (ct_table c)) (\<lambda>t.
         Inr (c\<lparr>ct_table := t, accepted := False, handlers := handlers c @ [Fresh]\<rparr>, [])))
   | Starts h \<Rightarrow> if h < length (handlers c) \<and> handlers c ! h = Fresh
       then Some (Inr (c\<lparr>handlers := (handlers c)[h := Running (clt_sock c)]\<rparr>, [])) else None
   | Reads h d \<Rightarrow> if h < length (handlers c) \<and> d \<noteq> [] \<and> length d \<le> 256
       then (case handlers c ! h of Running s \<Rightarrow> Some (Inr (c, send_msg d (ct_table c))) | _ \<Rightarrow> None) else None
   | Leaves h \<Rightarrow> if h < length (handlers c)
       then (case handlers c ! h of
           Running s \<Rightarrow> Some (bindR (remove_sock s (ct_table c)) (\<lambda>t.
             Inr (c\<lparr>ct_table := t, handlers := (handlers c)[h := Ended]\<rparr>, [Close s])))
         | _ \<Rightarrow> None)
       else None)"

fun chat_run :: "chat_act list \<Rightarrow> chat_sys \<Rightarrow> (chat_sys \<times> sys_call list) result option" where
  "chat_run [] c = Some (Inr (c, []))"
| "chat_run (a # as) c =
     (case chat_act a c of
        None \<Rightarrow> None
      | Some (Inl e) \<Rightarrow> Some (Inl e)
      | Some (Inr (c1, k1)) \<Rightarrow>
          (case chat_run as c1 of
             Some (Inr (c2, k2)) \<Rightarrow> Some (Inr (c2, k1 @ k2))
           | r \<Rightarrow> r))"

subsection \<open>The client\<close>

text \<open>
  \<open>read_msg\<close>: what is printed, and whether the thread ended; \<open>None\<close> when it runs for ever. The end of
  the stream is no reason to stop.
\<close>

partial_function (option) read_msg :: "char list \<Rightarrow> recv_event list \<Rightarrow> (string list \<times> bool) result option" where
  "read_msg b es =
     (case brecv 256 es of
        (Blocks, _) \<Rightarrow> Some (Inr ([], False))
      | (Fails e, _) \<Rightarrow> Some (Inr ([], True))
      | (Shut, es') \<Rightarrow> (case store b 0 NUL of
            Inl e \<Rightarrow> Some (Inl e)
          | Inr b1 \<Rightarrow> Option.bind (read_msg b1 es') (\<lambda>r. Some (bindR r (\<lambda>(ps, x). Inr ([] # ps, x)))))
      | (Got d, es') \<Rightarrow> (case bindR (blit b 0 d) (\<lambda>b1. store b1 (int (length d)) NUL) of
            Inl e \<Rightarrow> Some (Inl e)
          | Inr b2 \<Rightarrow> (case cstr b2 0 of
                Inl e \<Rightarrow> Some (Inl e)
              | Inr p \<Rightarrow> Option.bind (read_msg b2 es') (\<lambda>r. Some (bindR r (\<lambda>(ps, x). Inr (p # ps, x)))))))"

text \<open>\<open>sprintf(client_name, "[%s]", name)\<close>, and the message that is composed for a line.\<close>

definition make_name :: "string \<Rightarrow> char list result" where
  "make_name name = strcpy (replicate 32 NUL) 0 (''['' @ name @ '']'')"

definition compose :: "char list \<Rightarrow> char list \<Rightarrow> string result" where
  "compose name buf = bindR (cstr name 0) (\<lambda>n. bindR (cstr buf 0) (\<lambda>l.
     bindR (strcpy (replicate 289 NUL) 0 (n @ '' '' @ l)) (\<lambda>msg. cstr msg 0)))"

text \<open>\<open>write_msg\<close>: what is sent until a line begins with q or Q.\<close>

partial_function (option) write_msg :: "char list \<Rightarrow> char list \<Rightarrow> string \<Rightarrow> string list result option" where
  "write_msg name buf inp =
     (case fgets buf 256 inp of
        Inl e \<Rightarrow> Some (Inl e)
      | Inr (b, inp') \<Rightarrow> (case bindR (strneq b 0 ''q'') (\<lambda>q. bindR (strneq b 0 ''Q'') (\<lambda>q'. Inr (q \<or> q'))) of
            Inl e \<Rightarrow> Some (Inl e)
          | Inr quit \<Rightarrow> if quit then Some (Inr [])
              else (case compose name b of
                Inl e \<Rightarrow> Some (Inl e)
              | Inr m \<Rightarrow> Option.bind (write_msg name b inp') (\<lambda>r. Some (bindR r (\<lambda>ms. Inr (m # ms)))))))"

subsection \<open>Leaving\<close>

lemma shift_socks_spec:
  assumes "n < int (length xs)"
  shows "\<exists>ys. shift_socks xs i n = Inr ys \<and> length ys = length xs
    \<and> (\<forall>j. ys ! j = (if i < j \<and> int j < n then xs ! (j + 1) else xs ! j))"
  using assms
proof (induction xs i n rule: shift_socks.induct)
  case (1 xs i n)
  show ?case
  proof (cases "int i < n - 1")
    case False
    then show ?thesis by (subst shift_socks.simps) auto
  next
    case True
    then have len: "\<not> length xs \<le> i + 2" using 1(2) by simp
    let ?xs = "xs[i + 1 := xs ! (i + 2)]"
    obtain ys where ys: "shift_socks ?xs (i + 1) n = Inr ys" "length ys = length ?xs"
      "\<forall>j. ys ! j = (if i + 1 < j \<and> int j < n then ?xs ! (j + 1) else ?xs ! j)"
      using 1(1)[OF True len] 1(2) by auto
    have "ys ! j = (if i < j \<and> int j < n then xs ! (j + 1) else xs ! j)" for j
      using ys(3)[rule_format, of j] True len by (auto simp: nth_list_update)
    moreover have "shift_socks xs i n = Inr ys" using ys(1) True len by (subst shift_socks.simps) simp
    ultimately show ?thesis using ys(2) by simp
  qed
qed

lemma find_sock_nth: "distinct xs \<Longrightarrow> p < length xs \<Longrightarrow> find_sock (xs ! p) xs = Some p"
proof (induction xs arbitrary: p)
  case Nil
  then show ?case by simp
next
  case (Cons x xs)
  then show ?case by (cases p) auto
qed

text \<open>
  Leaving takes the wrong socket out of the table. Only the client that came last is removed
  itself; when another one leaves, its socket, which is closed then, stays in the table, and the
  client that came after it is dropped and hears nothing any more.
\<close>

theorem leaving_drops_the_next:
  assumes "length (socks t) = 1024" and "0 \<le> sock_index t" and "sock_index t < 1024"
    and "distinct (table t)" and "p < length (table t)"
  shows "\<exists>t'. remove_sock (table t ! p) t = Inr t'
    \<and> table t' = (if p + 1 = length (table t) then butlast (table t) else take (p + 1) (table t) @ drop (p + 2) (table t))"
proof -
  let ?n = "nat (sock_index t)"
  have n: "length (table t) = ?n" "p < ?n" "?n < 1024" using assms by (auto simp: table_def)
  have at: "table t ! j = socks t ! j" if "j < ?n" for j using that by (simp add: table_def)
  obtain ys where ys: "shift_socks (socks t) p (sock_index t) = Inr ys" "length ys = 1024"
    "\<forall>j. ys ! j = (if p < j \<and> int j < sock_index t then socks t ! (j + 1) else socks t ! j)"
    using shift_socks_spec[of "sock_index t" "socks t" p] assms(1,3) by auto
  let ?t = "t\<lparr>socks := ys, sock_index := sock_index t - 1\<rparr>"
  have "remove_sock (table t ! p) t = Inr ?t"
    using find_sock_nth[OF assms(4,5)] ys(1) by (simp add: remove_sock_def)
  moreover have "table ?t = (if p + 1 = length (table t) then butlast (table t) else take (p + 1) (table t) @ drop (p + 2) (table t))"
  proof (rule nth_equalityI, goal_cases)
    case 1
    then show ?case using n ys(2) by (auto simp: table_def)
  next
    case (2 j)
    have j: "j < ?n - 1" using 2 ys(2) by (auto simp: table_def)
    then have "int j < sock_index t" by simp
    then have "table ?t ! j = (if p < j then socks t ! (j + 1) else socks t ! j)"
      using j ys(3) by (simp add: table_def nat_diff_distrib')
    also have "\<dots> = (if p < j then table t ! (j + 1) else table t ! j)" using at[of j] at[of "j + 1"] j by simp
    finally show ?case using j n by (auto simp: nth_append nth_butlast)
  qed
  ultimately show ?thesis by blast
qed

theorem leaving_drops_the_next_witness:
  "\<exists>t'. remove_sock 11 \<lparr>socks = [10, 11, 12, 13] @ replicate 1020 0, sock_index = 4\<rparr> = Inr t' \<and> table t' = [10, 11, 13]"
proof -
  let ?t = "\<lparr>socks = [10, 11, 12, 13] @ replicate 1020 0, sock_index = 4\<rparr>"
  have t: "table ?t = [10, 11, 12, 13]" by (simp add: table_def)
  then show ?thesis using leaving_drops_the_next[of ?t 1] by (simp add: eval_nat_numeral)
qed

subsection \<open>Talking\<close>

definition newcomers :: "chat_act list \<Rightarrow> int list" where
  "newcomers as = concat (map (\<lambda>a. case a of Accepts s \<Rightarrow> [s] | _ \<Rightarrow> []) as)"

definition arrivals :: "chat_sys \<Rightarrow> int list" where
  "arrivals c = table (ct_table c) @ (if accepted c then [clt_sock c] else [])"

definition table_ok :: "chat_sys \<Rightarrow> bool" where
  "table_ok c \<longleftrightarrow> length (socks (ct_table c)) = 1024 \<and> 0 \<le> sock_index (ct_table c) \<and> sock_index (ct_table c) \<le> 1024"

lemma enter_sock_ok:
  assumes "enter_sock s t = Inr t'" and "length (socks t) = 1024"
  shows "table t' = table t @ [s]" and "length (socks t') = 1024" and "0 \<le> sock_index t'" and "sock_index t' \<le> 1024"
proof -
  have i: "0 \<le> sock_index t" "sock_index t < 1024"
    and t': "t' = t\<lparr>socks := (socks t)[nat (sock_index t) := s], sock_index := sock_index t + 1\<rparr>"
    using assms(1) by (auto simp: enter_sock_def split: if_splits)
  show "table t' = table t @ [s]"
    using i assms(2) by (simp add: table_def t' nat_add_distrib take_Suc_conv_app_nth)
  show "length (socks t') = 1024" "0 \<le> sock_index t'" "sock_index t' \<le> 1024" using i assms(2) by (simp_all add: t')
qed

lemma chat_act_arrivals:
  assumes "chat_act a c = Some (Inr (c', k))" and "table_ok c" and "\<And>h. a \<noteq> Leaves h"
  shows "table_ok c' \<and> arrivals c' = arrivals c @ newcomers [a]"
proof (cases a)
  case (Accepts s)
  then show ?thesis using assms(1,2) by (auto simp: chat_act_def table_ok_def arrivals_def newcomers_def split: if_splits)
next
  case Enters
  then obtain t where t: "enter_sock (clt_sock c) (ct_table c) = Inr t" "accepted c"
    "c' = c\<lparr>ct_table := t, accepted := False, handlers := handlers c @ [Fresh]\<rparr>"
    using assms(1) by (auto simp: chat_act_def split: if_splits elim: bindR_InrE)
  then show ?thesis using enter_sock_ok[OF t(1)] assms(2) Enters
    by (simp add: table_ok_def arrivals_def newcomers_def)
next
  case (Starts h)
  then show ?thesis using assms(1,2) by (auto simp: chat_act_def table_ok_def arrivals_def newcomers_def split: if_splits)
next
  case (Reads h d)
  then show ?thesis using assms(1,2)
    by (auto simp: chat_act_def table_ok_def arrivals_def newcomers_def split: if_splits handler.splits)
qed (use assms(3) in simp)

lemma chat_run_arrivals:
  assumes "chat_run as c = Some (Inr (c', k))" and "table_ok c" and "\<forall>h. Leaves h \<notin> set as"
  shows "table_ok c' \<and> arrivals c' = arrivals c @ newcomers as"
  using assms
proof (induction as arbitrary: c k)
  case Nil
  then show ?case by (simp add: newcomers_def)
next
  case (Cons a as)
  obtain c1 k1 k2 where c1: "chat_act a c = Some (Inr (c1, k1))" "chat_run as c1 = Some (Inr (c', k2))"
    using Cons(2) by (auto split: option.splits sum.splits)
  have "table_ok c1 \<and> arrivals c1 = arrivals c @ newcomers [a]"
    using chat_act_arrivals[OF c1(1) Cons(3)] Cons(4) by auto
  moreover have "table_ok c' \<and> arrivals c' = arrivals c1 @ newcomers as"
    using Cons(1)[OF c1(2)] Cons(4) calculation by simp
  ultimately show ?case by (simp add: newcomers_def)
qed

text \<open>
  As long as nobody has left, everyone hears everything: what a handler reads is written, in one
  piece under the mutex, to all clients in the order of their arrival, whatever steps of the threads
  came before.
\<close>

theorem everyone_hears:
  assumes "chat_run as (chat_init xs) = Some (Inr (c, k))" and "length xs = 1024"
    and "\<forall>h. Leaves h \<notin> set as" and "\<not> accepted c"
    and "h < length (handlers c)" and "handlers c ! h = Running s" and "d \<noteq> []" and "length d \<le> 256"
  shows "chat_act (Reads h d) c = Some (Inr (c, map (\<lambda>s. Send s d) (newcomers as)))"
proof -
  have "table_ok (chat_init xs)" using assms(2) by (simp add: table_ok_def chat_init_def)
  then have "arrivals c = newcomers as"
    using chat_run_arrivals[OF assms(1) _ assms(3)] by (simp add: arrivals_def chat_init_def table_def)
  then have "table (ct_table c) = newcomers as" using assms(4) by (simp add: arrivals_def)
  then show ?thesis using assms(5-8) by (simp add: chat_act_def send_msg_def)
qed

theorem everyone_hears_witness:
  "\<exists>c k. chat_run [Accepts 5, Enters, Starts 0, Accepts 6, Enters] (chat_init (replicate 1024 0)) = Some (Inr (c, k))
     \<and> chat_act (Reads 0 ''hi'') c = Some (Inr (c, [Send 5 ''hi'', Send 6 ''hi'']))"
proof -
  let ?as = "[Accepts 5, Enters, Starts 0, Accepts 6, Enters]"
  obtain c k where c: "chat_run ?as (chat_init (replicate 1024 0)) = Some (Inr (c, k))" "\<not> accepted c"
    "handlers c = [Running 5, Fresh]"
    by (simp add: chat_act_def chat_init_def enter_sock_def)
  show ?thesis using everyone_hears[OF c(1) _ _ c(2), of 0 5 "''hi''"] c(1,3) by (simp add: newcomers_def)
qed

text \<open>Two connections before the first thread has run: both threads serve the second one.\<close>

lemma handlers_share_socket:
  assumes "length xs = 1024"
  shows "\<exists>c. chat_run [Accepts a, Enters, Accepts b, Enters, Starts 0, Starts 1] (chat_init xs) = Some (Inr (c, []))
     \<and> handlers c = [Running b, Running b]"
  using assms by (simp add: chat_act_def chat_init_def enter_sock_def)

subsection \<open>The client ends or does not end\<close>

lemma read_msg_after_eof:
  assumes "0 < length b"
  shows "read_msg b (Eof # es) = None"
proof -
  have "0 < length b0 \<longrightarrow> (\<forall>es'. es0 \<noteq> Eof # es')" if "read_msg b0 es0 = Some y0" for b0 es0 y0
  proof (rule read_msg.raw_induct[where P = "\<lambda>b0 es0 y0. 0 < length b0 \<longrightarrow> (\<forall>es'. es0 \<noteq> Eof # es')", OF _ that], goal_cases)
    case (1 f b0 es0 y0)
    show ?case
    proof (intro impI allI notI)
      fix es' assume b: "0 < length b0" and e: "es0 = Eof # es'"
      have "store b0 0 NUL = Inr (b0[0 := NUL])" using store_nat[of 0 b0 NUL] b by simp
      then obtain r where "f (b0[0 := NUL]) (Eof # es') = Some r"
        using 1(2) e by (auto simp: bind_eq_Some_conv)
      then show False using 1(1) b by fastforce
    qed
  qed
  then show ?thesis using assms by (cases "read_msg b (Eof # es)") auto
qed

lemma read_msg_got:
  assumes "brecv 256 es = (Got d, es')" and "length b = 256" and "length d < 256"
  shows "\<exists>b' p. length b' = 256 \<and> read_msg b es = Option.bind (read_msg b' es') (\<lambda>r. Some (bindR r (\<lambda>(ps, x). Inr (p # ps, x))))"
proof -
  have bl: "blit b 0 d = Inr (d @ drop (length d) b)" using assms(2,3) by (simp add: blit_ok)
  have "(d @ drop (length d) b)[length d := NUL] = d @ NUL # drop (Suc (length d)) b"
    using assms(2,3) by (simp add: list_update_append upd_conv_take_nth_drop)
  then have st: "store (d @ drop (length d) b) (int (length d)) NUL = Inr (d @ NUL # drop (Suc (length d)) b)"
    using assms(2,3) by simp
  have "cstr (d @ NUL # drop (Suc (length d)) b) 0 = Inr (takeWhile (\<lambda>c. c \<noteq> NUL) d)" by (rule cstr_of_drop) simp
  then have "read_msg b es = Option.bind (read_msg (d @ NUL # drop (Suc (length d)) b) es')
      (\<lambda>r. Some (bindR r (\<lambda>(ps, x). Inr (takeWhile (\<lambda>c. c \<noteq> NUL) d # ps, x))))"
    using assms(1) bl st by (subst read_msg.simps) simp
  moreover have "length (d @ NUL # drop (Suc (length d)) b) = 256" using assms(2,3) by simp
  ultimately show ?thesis by blast
qed

lemma read_msg_until_eof:
  assumes "length b = 256" and "\<forall>d \<in> set ds. length d < 256"
  shows "read_msg b (map Data ds @ Eof # es) = None"
  using assms
proof (induction ds arbitrary: b)
  case Nil
  then show ?case by (simp add: read_msg_after_eof)
next
  case (Cons d ds)
  show ?case
  proof (cases "d = []")
    case True
    have "brecv 256 (Data [] # es') = brecv 256 es'" for es' by simp
    then have "read_msg b (Data [] # es') = read_msg b es'" for es'
      by (subst (1 2) read_msg.simps) simp
    then show ?thesis using Cons True by simp
  next
    case False
    then have "brecv 256 (map Data (d # ds) @ Eof # es) = (Got d, map Data ds @ Eof # es)" using Cons(3) by simp
    from read_msg_got[OF this Cons(2)] obtain b' p where "length b' = 256"
      "read_msg b (map Data (d # ds) @ Eof # es)
        = Option.bind (read_msg b' (map Data ds @ Eof # es)) (\<lambda>r. Some (bindR r (\<lambda>(ps, x). Inr (p # ps, x))))"
      using Cons(3) by auto
    then show ?thesis using Cons(1)[of b'] Cons(3) by simp
  qed
qed

text \<open>
  The reading thread of the client does not notice that the server is gone: whatever was received
  before, in pieces of fewer than 256 bytes, at the end of the stream it prints empty lines for ever
  and \<open>read_msg\<close> does not return.
\<close>

theorem read_msg_never_returns:
  assumes "\<forall>d \<in> set ds. length d < 256"
  shows "read_msg (replicate 256 NUL) (map Data ds @ Eof # es) = None"
  by (rule read_msg_until_eof[OF _ assms]) simp

theorem read_msg_never_returns_witness: "read_msg (replicate 256 NUL) (map Data [''hi'', ''you''] @ [Eof]) = None"
  by (rule read_msg_never_returns) simp

definition quits :: "string \<Rightarrow> bool" where
  "quits l \<longleftrightarrow> take 1 l = ''q'' \<or> take 1 l = ''Q''"

definition typed_line :: "string \<Rightarrow> bool" where
  "typed_line l \<longleftrightarrow> LF \<notin> set l \<and> NUL \<notin> set l \<and> length l \<le> 254"

lemma quit_test:
  "cstr b 0 = Inr s \<Longrightarrow> bindR (strneq b 0 ''q'') (\<lambda>q. bindR (strneq b 0 ''Q'') (\<lambda>q'. Inr (q \<or> q'))) = Inr (quits s)"
  by (simp add: strneq_def quits_def)

lemma compose_ok:
  assumes "cstr name 0 = Inr n" and "cstr b 0 = Inr s" and "length n \<le> 31" and "length b = 256"
  shows "compose name b = Inr (n @ SP # s)"
proof -
  have "length s < 256" using cstr_bound[OF assms(2)] assms(4) by simp
  then have "strcpy (replicate 289 NUL) 0 (n @ '' '' @ s) = Inr ((n @ SP # s) @ NUL # replicate (289 - (length n + length s + 2)) NUL)"
    using assms(3) by (simp add: strcpy_def blit_ok)
  moreover have "cstr ((n @ SP # s) @ NUL # replicate (289 - (length n + length s + 2)) NUL) 0 = Inr (n @ SP # s)"
    using cstr_no_nul[OF assms(1)] cstr_no_nul[OF assms(2)] unfolding cstr_iff by auto
  ultimately show ?thesis using assms(1,2) by (simp add: compose_def)
qed

lemma write_msg_line:
  assumes "typed_line l" and "length b = 256" and n: "cstr name 0 = Inr n" "length n \<le> 31"
  shows "\<exists>b'. length b' = 256 \<and> cstr b' 0 = Inr (l @ [LF])
    \<and> write_msg name b (l @ LF # rest) = (if quits (l @ [LF]) then Some (Inr [])
        else Option.bind (write_msg name b' rest) (\<lambda>r. Some (bindR r (\<lambda>ms. Inr ((n @ SP # l @ [LF]) # ms)))))"
proof -
  obtain b' where b': "fgets b 256 (l @ LF # rest) = Inr (b', rest)" "length b' = length b" "cstr b' 0 = Inr (l @ [LF])"
    using fgets_line[of l 256 b rest] assms(1,2) by (auto simp: typed_line_def)
  have "compose name b' = Inr (n @ SP # l @ [LF])" using compose_ok[OF n(1) b'(3) n(2)] b'(2) assms(2) by simp
  then have "write_msg name b (l @ LF # rest) = (if quits (l @ [LF]) then Some (Inr [])
        else Option.bind (write_msg name b' rest) (\<lambda>r. Some (bindR r (\<lambda>ms. Inr ((n @ SP # l @ [LF]) # ms)))))"
    using b'(1) quit_test[OF b'(3)] by (subst write_msg.simps) simp
  then show ?thesis using b' assms(2) by auto
qed

text \<open>At the end of the input \<open>fgets\<close> leaves the array alone, and its last line is sent again and again.\<close>

lemma write_msg_at_end:
  assumes "cstr b 0 = Inr s" and "\<not> quits s" and "length b = 256" and n: "cstr name 0 = Inr n" "length n \<le> 31"
  shows "write_msg name b [] = None"
proof -
  have "\<not> (name0 = name \<and> b0 = b \<and> inp0 = [])" if "write_msg name0 b0 inp0 = Some y0" for name0 b0 inp0 y0
  proof (rule write_msg.raw_induct[where P = "\<lambda>name0 b0 inp0 y0. \<not> (name0 = name \<and> b0 = b \<and> inp0 = [])", OF _ that], goal_cases)
    case (1 f name0 b0 inp0 y0)
    show ?case
    proof
      assume e: "name0 = name \<and> b0 = b \<and> inp0 = []"
      have "fgets b 256 [] = Inr (b, [])" by (simp add: fgets_def)
      then obtain r where "f name b [] = Some r"
        using 1(2) e quit_test[OF assms(1)] assms(2) compose_ok[OF n(1) assms(1) n(2) assms(3)]
        by (auto simp: bind_eq_Some_conv)
      then show False using 1(1) by blast
    qed
  qed
  then show ?thesis by (cases "write_msg name b []") auto
qed

lemma write_msg_lines:
  assumes "\<forall>l \<in> set ls. typed_line l" and "length b = 256" and "cstr b 0 = Inr s" and "\<not> quits s"
    and n: "cstr name 0 = Inr n" "length n \<le> 31"
  shows "write_msg name b (concat (map (\<lambda>l. l @ [LF]) ls)) =
     (if \<exists>l \<in> set ls. quits (l @ [LF])
      then Some (Inr (map (\<lambda>l. n @ SP # l @ [LF]) (takeWhile (\<lambda>l. \<not> quits (l @ [LF])) ls))) else None)"
  using assms(1-4)
proof (induction ls arbitrary: b s)
  case Nil
  then show ?case using write_msg_at_end[OF Nil(3,4,2) n] by simp
next
  case (Cons l ls)
  have "typed_line l" using Cons(2) by simp
  from write_msg_line[OF this Cons(3) n, of "concat (map (\<lambda>l. l @ [LF]) ls)"] obtain b' where b': "length b' = 256"
    "cstr b' 0 = Inr (l @ [LF])"
    "write_msg name b (concat (map (\<lambda>l. l @ [LF]) (l # ls))) = (if quits (l @ [LF]) then Some (Inr [])
        else Option.bind (write_msg name b' (concat (map (\<lambda>l. l @ [LF]) ls))) (\<lambda>r. Some (bindR r (\<lambda>ms. Inr ((n @ SP # l @ [LF]) # ms)))))"
    by auto
  show ?case
  proof (cases "quits (l @ [LF])")
    case True
    then show ?thesis using b'(3) by simp
  next
    case False
    have "\<forall>l \<in> set ls. typed_line l" using Cons(2) by simp
    note ih = Cons(1)[OF this b'(1,2) False]
    show ?thesis unfolding b'(3) ih using False by simp
  qed
qed

text \<open>
  The writing thread of the client sends every line that is typed, with the name in front, up to a
  line that begins with q or Q, and then returns; when the input ends without such a line it does
  not return, but sends the last line for ever.
\<close>

theorem write_msg_outcome:
  assumes "\<forall>l \<in> set ls. typed_line l" and "cstr name 0 = Inr n" and "length n \<le> 31"
  shows "write_msg name (replicate 256 NUL) (concat (map (\<lambda>l. l @ [LF]) ls)) =
     (if \<exists>l \<in> set ls. quits (l @ [LF])
      then Some (Inr (map (\<lambda>l. n @ SP # l @ [LF]) (takeWhile (\<lambda>l. \<not> quits (l @ [LF])) ls))) else None)"
proof -
  have "replicate 256 NUL = NUL # replicate 255 NUL" by (simp flip: replicate_Suc)
  then have "cstr (replicate 256 NUL) 0 = Inr []" by (auto simp: cstr_iff)
  moreover have "\<not> quits []" by (simp add: quits_def)
  ultimately show ?thesis by (intro write_msg_lines[OF assms(1)] assms(2,3)) simp_all
qed

theorem write_msg_outcome_witness:
  "write_msg (''[bob]'' @ replicate 27 NUL) (replicate 256 NUL) (concat (map (\<lambda>l. l @ [LF]) [''hi'', ''quit'', ''x'']))
     = Some (Inr [''[bob] hi'' @ [LF]])"
proof -
  have "cstr (''[bob]'' @ replicate 27 NUL) 0 = Inr ''[bob]''" by (rule cstr_of_drop[of 0 _ "''[bob]''" "replicate 26 NUL", THEN trans]) (simp_all add: eval_nat_numeral)
  from write_msg_outcome[OF _ this, of "[''hi'', ''quit'', ''x'']"] show ?thesis
    by (simp add: quits_def typed_line_def)
qed

end
