(* ===== verification/Thread_Sync.thy ===== *)
theory Thread_Sync
  imports Locks
begin

text \<open>
  The synchronisation programs of 48\_multi\_thread\_server/main.cpp: a hundred threads that change a
  counter, without a mutex and with one, and two threads that pass numbers to each other by two
  semaphores. \<open>num++\<close> is a load and a store.
\<close>

subsection \<open>Programs of counting threads\<close>

datatype instr = Load | Store int | Lock | Unlock

definition thread_add :: "instr list" where
  "thread_add = concat (replicate 1000 [Load, Store 1])"

definition thread_sub :: "instr list" where
  "thread_sub = concat (replicate 1000 [Load, Store (-1)])"

definition thread_add2 :: "instr list" where
  "thread_add2 = Lock # concat (replicate 1000 [Load, Store 1]) @ [Unlock]"

definition thread_sub2 :: "instr list" where
  "thread_sub2 = concat (replicate 1000 [Lock, Load, Store (-1), Unlock])"

text \<open>\<open>thread_sum\<close> adds the numbers of its range to the shared sum, one by one.\<close>

definition thread_sum :: "int \<Rightarrow> int \<Rightarrow> instr list" where
  "thread_sum a b = concat (map (\<lambda>k. [Load, Store k]) [a..b])"

record counting =
  num :: int
  owner :: mutex
  codes :: "instr list list"
  regs :: "int list"

definition start_threads :: "instr list list \<Rightarrow> counting" where
  "start_threads cs = \<lparr>num = 0, owner = mutex_init, codes = cs, regs = replicate (length cs) 0\<rparr>"

definition thread_test3 :: counting where
  "thread_test3 = start_threads [thread_sum 1 5, thread_sum 6 10]"

text \<open>The loops that create the threads: odd numbers add, even numbers subtract.\<close>

definition thread_test4 :: counting where
  "thread_test4 = start_threads (map (\<lambda>i. if odd i then thread_add else thread_sub) [0..<100])"

definition thread_test5 :: counting where
  "thread_test5 = start_threads (map (\<lambda>i. if odd i then thread_add2 else thread_sub2) [0..<100])"

text \<open>One instruction of thread \<open>i\<close>; \<open>None\<close> when it has ended or has to wait for the mutex.\<close>

definition thread_step :: "nat \<Rightarrow> counting \<Rightarrow> counting option" where
  "thread_step i s =
     (if length (codes s) \<le> i then None
      else case codes s ! i of
        [] \<Rightarrow> None
      | c # cs \<Rightarrow>
          let s' = s\<lparr>codes := (codes s)[i := cs]\<rparr> in
          (case c of
             Load \<Rightarrow> Some (s'\<lparr>regs := (regs s)[i := num s]\<rparr>)
           | Store k \<Rightarrow> Some (s'\<lparr>num := regs s ! i + k\<rparr>)
           | Lock \<Rightarrow> map_option (\<lambda>m. s'\<lparr>owner := m\<rparr>) (mutex_lock i (owner s))
           | Unlock \<Rightarrow> map_option (\<lambda>m. s'\<lparr>owner := m\<rparr>) (mutex_unlock i (owner s))))"

fun thread_run :: "nat list \<Rightarrow> counting \<Rightarrow> counting option" where
  "thread_run [] s = Some s"
| "thread_run (i # is) s = Option.bind (thread_step i s) (thread_run is)"

definition all_joined :: "counting \<Rightarrow> bool" where
  "all_joined s \<longleftrightarrow> (\<forall>c \<in> set (codes s). c = [])"

definition moves :: "counting \<Rightarrow> counting \<Rightarrow> bool" where
  "moves s s' \<longleftrightarrow> (\<exists>i. thread_step i s = Some s')"

lemma thread_run_append: "thread_run (is @ js) s = Option.bind (thread_run is s) (thread_run js)"
  by (induction "is" arbitrary: s) (auto split: bind_split)

subsection \<open>What the threads have left to add\<close>

fun effect :: "instr list \<Rightarrow> int" where
  "effect [] = 0"
| "effect (Store k # cs) = k + effect cs"
| "effect (_ # cs) = effect cs"

lemma effect_append [simp]: "effect (xs @ ys) = effect xs + effect ys"
  by (induction xs rule: effect.induct) auto

lemma effect_repeat [simp]: "effect (concat (replicate n xs)) = int n * effect xs"
  by (induction n) (auto simp: algebra_simps)

text \<open>Where a thread is: outside the mutex, inside, or inside with the counter in its register.\<close>

datatype place = Outside | Inside | Loaded

fun disciplined :: "place \<Rightarrow> instr list \<Rightarrow> bool" where
  "disciplined Outside [] = True"
| "disciplined Outside (Lock # cs) = disciplined Inside cs"
| "disciplined Inside (Unlock # cs) = disciplined Outside cs"
| "disciplined Inside (Load # cs) = disciplined Loaded cs"
| "disciplined Loaded (Store k # cs) = disciplined Inside cs"
| "disciplined _ _ = False"

fun place_of :: "instr list \<Rightarrow> place" where
  "place_of [] = Outside"
| "place_of (Lock # _) = Outside"
| "place_of (Store k # _) = Loaded"
| "place_of _ = Inside"

lemma disciplined_place: "disciplined p cs \<Longrightarrow> p = place_of cs"
  by (cases p; cases cs; auto) (metis disciplined.simps instr.exhaust place_of.simps)+

definition sync_inv :: "counting \<Rightarrow> bool" where
  "sync_inv s \<longleftrightarrow> length (regs s) = length (codes s)
     \<and> (\<forall>i < length (codes s). disciplined (place_of (codes s ! i)) (codes s ! i)
          \<and> (place_of (codes s ! i) \<noteq> Outside \<longleftrightarrow> owner s = Some i)
          \<and> (place_of (codes s ! i) = Loaded \<longrightarrow> regs s ! i = num s))
     \<and> (\<forall>i. owner s = Some i \<longrightarrow> i < length (codes s))"

definition total :: "counting \<Rightarrow> int" where
  "total s = num s + sum_list (map effect (codes s))"

lemma thread_step_cases:
  assumes "thread_step i s = Some s'"
  obtains (load) cs where "i < length (codes s)" "codes s ! i = Load # cs"
      "s' = s\<lparr>codes := (codes s)[i := cs], regs := (regs s)[i := num s]\<rparr>"
  | (stor) k cs where "i < length (codes s)" "codes s ! i = Store k # cs"
      "s' = s\<lparr>codes := (codes s)[i := cs], num := regs s ! i + k\<rparr>"
  | (lock) cs where "i < length (codes s)" "codes s ! i = Lock # cs" "owner s = None"
      "s' = s\<lparr>codes := (codes s)[i := cs], owner := Some i\<rparr>"
  | (unlock) cs where "i < length (codes s)" "codes s ! i = Unlock # cs" "owner s = Some i"
      "s' = s\<lparr>codes := (codes s)[i := cs], owner := None\<rparr>"
proof -
  have i: "i < length (codes s)" using assms by (auto simp: thread_step_def split: if_splits)
  obtain c cs where c: "codes s ! i = c # cs" using assms i by (cases "codes s ! i") (auto simp: thread_step_def)
  show ?thesis using assms i c that by (cases c) (auto simp: thread_step_def Let_def)
qed

lemma sync_step:
  assumes inv: "sync_inv s" and st: "thread_step i s = Some s'"
  shows "sync_inv s'" and "total s' = total s"
proof -
  have reg: "length (regs s) = length (codes s)" and own: "\<And>j. owner s = Some j \<Longrightarrow> j < length (codes s)"
    and th: "\<And>j. j < length (codes s) \<Longrightarrow> disciplined (place_of (codes s ! j)) (codes s ! j)"
      "\<And>j. j < length (codes s) \<Longrightarrow> place_of (codes s ! j) \<noteq> Outside \<longleftrightarrow> owner s = Some j"
      "\<And>j. j < length (codes s) \<Longrightarrow> place_of (codes s ! j) = Loaded \<Longrightarrow> regs s ! j = num s"
    using inv by (auto simp: sync_inv_def)
  have sum: "sum_list (map effect ((codes s)[i := cs])) + effect (codes s ! i) = sum_list (map effect (codes s)) + effect cs"
    if "i < length (codes s)" for cs by (rule sum_list_map_update[OF that])
  have "sync_inv s' \<and> total s' = total s"
    using st
  proof (cases rule: thread_step_cases)
    case (load cs)
    have d: "disciplined Loaded cs" "owner s = Some i" using th(1,2)[OF load(1)] load(2) by auto
    then have p: "place_of cs = Loaded" using disciplined_place by metis
    have "total s' = total s" using sum[OF load(1), of cs] load(2,3) by (simp add: total_def)
    moreover have "sync_inv s'" using th d p reg own load by (auto simp: sync_inv_def nth_list_update)
    ultimately show ?thesis by simp
  next
    case (stor k cs)
    have d: "disciplined Inside cs" "owner s = Some i" "regs s ! i = num s"
      using th[OF stor(1)] stor(2) by auto
    then have p: "place_of cs = Inside" using disciplined_place by metis
    have "total s' = total s" using sum[OF stor(1), of cs] stor(2,3) d(3) by (simp add: total_def)
    moreover have "place_of (codes s ! j) = Outside \<and> disciplined Outside (codes s ! j)" if "j < length (codes s)" "j \<noteq> i" for j
      using th(1,2)[OF that(1)] that(2) d(2) by (cases "place_of (codes s ! j) = Outside") auto
    then have "sync_inv s'" using th d p reg own stor by (auto simp: sync_inv_def nth_list_update)
    ultimately show ?thesis by simp
  next
    case (lock cs)
    have d: "disciplined Inside cs" using th(1)[OF lock(1)] lock(2) by auto
    then have p: "place_of cs = Inside" using disciplined_place by metis
    have "total s' = total s" using sum[OF lock(1), of cs] lock(2,4) by (simp add: total_def)
    moreover have "place_of (codes s ! j) = Outside \<and> disciplined Outside (codes s ! j)" if "j < length (codes s)" for j
      using th(1,2)[OF that] lock(3) by (cases "place_of (codes s ! j) = Outside") auto
    then have "sync_inv s'" using th d p reg own lock by (auto simp: sync_inv_def nth_list_update)
    ultimately show ?thesis by simp
  next
    case (unlock cs)
    have d: "disciplined Outside cs" using th(1)[OF unlock(1)] unlock(2) by auto
    then have p: "place_of cs = Outside" using disciplined_place by metis
    have "total s' = total s" using sum[OF unlock(1), of cs] unlock(2,4) by (simp add: total_def)
    moreover have "place_of (codes s ! j) = Outside \<and> disciplined Outside (codes s ! j)" if "j < length (codes s)" "j \<noteq> i" for j
      using th(1,2)[OF that(1)] that(2) unlock(3) by (cases "place_of (codes s ! j) = Outside") auto
    then have "sync_inv s'" using th d p reg own unlock by (auto simp: sync_inv_def nth_list_update)
    ultimately show ?thesis by simp
  qed
  then show "sync_inv s'" "total s' = total s" by simp_all
qed

lemma sync_run: "thread_run is s = Some s' \<Longrightarrow> sync_inv s \<Longrightarrow> sync_inv s' \<and> total s' = total s"
proof (induction "is" arbitrary: s)
  case Nil
  then show ?case by simp
next
  case (Cons i "is")
  then obtain s1 where "thread_step i s = Some s1" "thread_run is s1 = Some s'" by (auto simp: bind_eq_Some_conv)
  then show ?case using Cons(1)[of s1] sync_step[OF Cons(3)] by metis
qed

text \<open>The threads of \<open>thread_test5\<close> keep the discipline of the mutex.\<close>

lemma disciplined_loop:
  "disciplined Inside (concat (replicate n [Load, Store k]) @ cs) = disciplined Inside cs"
  by (induction n) auto

lemma disciplined_locked_loop: "disciplined Outside (concat (replicate n [Lock, Load, Store k, Unlock]))"
  by (induction n) auto

lemma sync_start:
  assumes "\<forall>c \<in> set cs. disciplined Outside c"
  shows "sync_inv (start_threads cs)"
proof -
  have "place_of (cs ! i) = Outside" if "i < length cs" for i
    using disciplined_place[of Outside "cs ! i"] assms nth_mem[OF that] by metis
  then show ?thesis using assms by (auto simp: sync_inv_def start_threads_def mutex_init_def)
qed

lemma test5_inv: "sync_inv thread_test5" and test5_total: "total thread_test5 = 0"
proof -
  have "disciplined Outside thread_add2" "disciplined Outside thread_sub2"
    by (simp_all add: thread_add2_def thread_sub2_def disciplined_loop disciplined_locked_loop)
  then show "sync_inv thread_test5" unfolding thread_test5_def by (intro sync_start) auto
  have e: "effect thread_add2 = 1000" "effect thread_sub2 = -1000" by (simp_all add: thread_add2_def thread_sub2_def)
  have "sum_list (map (\<lambda>i. effect (if odd i then thread_add2 else thread_sub2)) [0..<2 * n]) = 0" for n
    by (induction n) (simp_all add: e)
  from this[of 50] show "total thread_test5 = 0"
    by (simp add: total_def thread_test5_def start_threads_def comp_def)
qed

text \<open>
  With the mutex the counter is right: whenever the hundred threads of \<open>thread_test5\<close> have all
  ended, in whatever order their instructions were run, it is 0. And until then some thread can
  move, so that the threads are always joined in the end.
\<close>

theorem mutex_counter_exact:
  assumes "thread_run is thread_test5 = Some s"
  shows "(all_joined s \<longrightarrow> num s = 0) \<and> (\<not> all_joined s \<longrightarrow> (\<exists>i. thread_step i s \<noteq> None))"
proof -
  have inv: "sync_inv s" and t: "total s = 0"
    using sync_run[OF assms test5_inv] test5_total by auto
  have "num s = 0" if "all_joined s"
  proof -
    have "sum_list (map effect (codes s)) = 0"
      by (rule sum_list_map_zero) (use that in \<open>auto simp: all_joined_def\<close>)
    then show ?thesis using t by (simp add: total_def)
  qed
  moreover have "\<exists>i. thread_step i s \<noteq> None" if n: "\<not> all_joined s"
  proof (cases "owner s")
    case None
    obtain i where i: "i < length (codes s)" "codes s ! i \<noteq> []" using n by (auto simp: all_joined_def in_set_conv_nth)
    then have "place_of (codes s ! i) = Outside" using inv None by (auto simp: sync_inv_def)
    then obtain cs where "codes s ! i = Lock # cs"
      using i(2) by (cases "codes s ! i" rule: place_of.cases) auto
    then show ?thesis using i(1) None by (intro exI[of _ i]) (simp add: thread_step_def Let_def)
  next
    case (Some i)
    then have i: "i < length (codes s)" "place_of (codes s ! i) \<noteq> Outside" using inv by (auto simp: sync_inv_def)
    then show ?thesis using Some
      by (intro exI[of _ i], cases "codes s ! i" rule: place_of.cases) (auto simp: thread_step_def Let_def)
  qed
  ultimately show ?thesis by blast
qed

theorem mutex_counter_exact_witness:
  "\<exists>s. thread_run [1, 1, 1] thread_test5 = Some s \<and> num s = 1 \<and> (\<exists>i. thread_step i s \<noteq> None)"
proof -
  define cs where "cs = map (\<lambda>i. if odd i then thread_add2 else thread_sub2) [0..<100::nat]"
  have "1 < length cs" "cs ! 1 = Lock # Load # Store 1 # concat (replicate 999 [Load, Store 1]) @ [Unlock]"
    using replicate_Suc[of 999 "[Load, Store 1]"] by (simp_all add: cs_def thread_add2_def nth_append)
  then obtain s where s: "thread_run [1, 1, 1] thread_test5 = Some s" "num s = 1"
    "codes s ! 1 = concat (replicate 999 [Load, Store 1]) @ [Unlock]" "1 < length (codes s)"
    by (simp add: thread_test5_def cs_def[symmetric] start_threads_def thread_step_def Let_def mutex_init_def mutex_lock_def)
  then have "\<not> all_joined s" by (metis Nil_is_append_conv all_joined_def list.distinct(1) nth_mem)
  then show ?thesis using mutex_counter_exact[OF s(1)] s(1,2) by blast
qed

subsection \<open>Without the mutex\<close>

lemma run_alone:
  assumes "i < length (codes s)" and "length (regs s) = length (codes s)"
    and "codes s ! i = concat (replicate n [Load, Store k]) @ cs"
  shows "\<exists>s'. thread_run (replicate (2 * n) i) s = Some s' \<and> num s' = num s + int n * k
    \<and> codes s' = (codes s)[i := cs] \<and> length (regs s') = length (regs s) \<and> (\<forall>j. j \<noteq> i \<longrightarrow> regs s' ! j = regs s ! j)"
  using assms
proof (induction n arbitrary: s)
  case 0
  then have "(codes s)[i := cs] = codes s" by (metis append_Nil concat.simps(1) list_update_id replicate_0)
  then show ?case by simp
next
  case (Suc n)
  let ?c = "concat (replicate n [Load, Store k]) @ cs"
  define s2 where "s2 = s\<lparr>codes := (codes s)[i := ?c], regs := (regs s)[i := num s], num := num s + k\<rparr>"
  have "thread_run [i, i] s = Some s2"
    using Suc(2-4) by (simp add: thread_step_def Let_def s2_def)
  moreover obtain s' where s': "thread_run (replicate (2 * n) i) s2 = Some s'" "num s' = num s2 + int n * k"
    "codes s' = (codes s2)[i := cs]" "length (regs s') = length (regs s2)" "\<forall>j. j \<noteq> i \<longrightarrow> regs s' ! j = regs s2 ! j"
    using Suc(1)[of s2] Suc(2,3) by (auto simp: s2_def)
  moreover have "replicate (2 * Suc n) i = [i, i] @ replicate (2 * n) i" by simp
  ultimately have "thread_run (replicate (2 * Suc n) i) s = Some s'" by (simp only: thread_run_append) simp
  then show ?case using s'(2-5) by (auto simp: s2_def algebra_simps)
qed

lemma run_all:
  assumes "distinct js" and "length (regs s) = length (codes s)"
    and "\<forall>j \<in> set js. j < length (codes s) \<and> codes s ! j = concat (replicate n [Load, Store (f j)])"
  shows "\<exists>is s'. thread_run is s = Some s' \<and> num s' = num s + int n * sum_list (map f js)
    \<and> length (codes s') = length (codes s) \<and> length (regs s') = length (regs s)
    \<and> (\<forall>j. codes s' ! j = (if j \<in> set js \<and> j < length (codes s) then [] else codes s ! j))
    \<and> (\<forall>j. j \<notin> set js \<longrightarrow> regs s' ! j = regs s ! j)"
  using assms
proof (induction js arbitrary: s)
  case Nil
  show ?case by (intro exI[of _ "[]"] exI[of _ s]) simp
next
  case (Cons i js)
  then obtain s1 where s1: "thread_run (replicate (2 * n) i) s = Some s1" "num s1 = num s + int n * f i"
    "codes s1 = (codes s)[i := []]" "length (regs s1) = length (regs s)" "\<forall>j. j \<noteq> i \<longrightarrow> regs s1 ! j = regs s ! j"
    using run_alone[of i s n "f i" "[]"] by auto
  have "\<forall>j \<in> set js. j < length (codes s1) \<and> codes s1 ! j = concat (replicate n [Load, Store (f j)])"
    using Cons(2,4) s1(3) by (auto simp: nth_list_update)
  then obtain "is" s' where s': "thread_run is s1 = Some s'" "num s' = num s1 + int n * sum_list (map f js)"
    "length (codes s') = length (codes s1)" "length (regs s') = length (regs s1)"
    "\<forall>j. codes s' ! j = (if j \<in> set js \<and> j < length (codes s1) then [] else codes s1 ! j)"
    "\<forall>j. j \<notin> set js \<longrightarrow> regs s' ! j = regs s1 ! j"
    using Cons(1)[of s1] Cons(2,3) s1(3,4) by auto
  have "thread_run (replicate (2 * n) i @ is) s = Some s'" using s1(1) s'(1) by (simp add: thread_run_append)
  moreover have "num s' = num s + int n * sum_list (map f (i # js))" using s1(2) s'(2) by (simp add: algebra_simps)
  moreover have "\<forall>j. codes s' ! j = (if j \<in> set (i # js) \<and> j < length (codes s) then [] else codes s ! j)"
    using s'(5) s1(3) Cons(4) by (auto simp: nth_list_update)
  moreover have "\<forall>j. j \<notin> set (i # js) \<longrightarrow> regs s' ! j = regs s ! j" using s'(6) s1(5) by auto
  ultimately show ?case using s1(3,4) s'(3,4) by (intro exI[of _ "replicate (2 * n) i @ is"] exI[of _ s']) simp
qed

text \<open>
  Without the mutex updates are lost: the threads of \<open>thread_test4\<close> can be run so that all of them
  end and the counter is not 0. The first thread loads the counter, all the others run, and then it
  stores what it has computed from the old value.
\<close>

theorem unlocked_counter_loses:
  "\<exists>is s. thread_run is thread_test4 = Some s \<and> all_joined s \<and> num s = -1000"
proof -
  define f where "f = (\<lambda>i::nat. if odd i then 1 else -1 :: int)"
  define cs where "cs = map (\<lambda>i. concat (replicate 1000 [Load, Store (f i)])) [0..<100]"
  have t4: "thread_test4 = start_threads cs"
    unfolding thread_test4_def cs_def f_def by (intro arg_cong[of _ _ start_threads]) (auto simp: thread_add_def thread_sub_def)
  have cs: "length cs = 100" "\<And>j. j < 100 \<Longrightarrow> cs ! j = concat (replicate 1000 [Load, Store (f j)])"
    by (simp_all add: cs_def)
  have c0: "cs ! 0 = Load # Store (-1) # concat (replicate 999 [Load, Store (-1)]) @ []"
    using cs(2)[of 0] replicate_Suc[of 999 "[Load, Store (-1)]"] by (simp add: f_def)
  let ?r = "concat (replicate 999 [Load, Store (-1)]) @ []"
  define s1 where "s1 = (start_threads cs)\<lparr>codes := cs[0 := Store (-1) # ?r]\<rparr>"
  have s1: "thread_run [0] thread_test4 = Some s1"
    using c0 cs(1) by (simp add: t4 thread_step_def Let_def start_threads_def s1_def replicate_Suc[of 99, simplified])
  have l1: "length (codes s1) = 100" "length (regs s1) = 100" "num s1 = 0" "regs s1 ! 0 = 0"
    "codes s1 ! 0 = Store (-1) # ?r" using cs(1) by (simp_all add: s1_def start_threads_def)
  have "\<forall>j \<in> set [1..<100]. j < length (codes s1) \<and> codes s1 ! j = concat (replicate 1000 [Load, Store (f j)])"
    using cs by (auto simp: s1_def start_threads_def nth_list_update)
  then obtain "is" s2 where s2: "thread_run is s1 = Some s2" "num s2 = int 1000 * sum_list (map f [1..<100])"
    "length (codes s2) = 100" "length (regs s2) = 100"
    "\<forall>j. codes s2 ! j = (if j \<in> set [1..<100] \<and> j < 100 then [] else codes s1 ! j)" "\<forall>j. j \<notin> set [1..<100] \<longrightarrow> regs s2 ! j = regs s1 ! j"
    using run_all[of "[1..<100]" s1 1000 f] l1 by auto
  define s3 where "s3 = s2\<lparr>codes := (codes s2)[0 := ?r], num := -1\<rparr>"
  have "codes s2 ! 0 = Store (-1) # ?r" "regs s2 ! 0 = 0" using s2(5,6) l1 by auto
  then have s3: "thread_run [0] s2 = Some s3" using s2(3) by (simp add: thread_step_def Let_def s3_def)
  have l3: "0 < length (codes s3)" "length (regs s3) = length (codes s3)" "codes s3 ! 0 = ?r" "num s3 = -1"
    using s2(3,4) by (simp_all add: s3_def)
  obtain s4 where s4: "thread_run (replicate (2 * 999) 0) s3 = Some s4" "num s4 = num s3 + int 999 * -1"
    "codes s4 = (codes s3)[0 := []]"
    using run_alone[OF l3(1-3)] by auto
  have "thread_run ([0] @ is @ [0] @ replicate (2 * 999) 0) thread_test4 = Some s4"
    unfolding thread_run_append s1 using s2(1) s3 s4(1) by (simp del: thread_run.simps)
  moreover have "all_joined s4"
  proof -
    have "codes s4 ! j = []" if "j < 100" for j
      using s2(3,5) that by (cases "j = 0") (auto simp: s4(3) s3_def)
    then show ?thesis using s2(3) by (auto simp: all_joined_def s4(3) s3_def in_set_conv_nth)
  qed
  moreover have "num s4 = -1000" using s4(2) l3(4) by simp
  ultimately show ?thesis by blast
qed

subsection \<open>Passing numbers by two semaphores\<close>

text \<open>
  Each thread does five rounds of three calls; a counter of calls is its position. \<open>sum\<close> is the local
  variable of \<open>accu\<close>.
\<close>

record sem_pair =
  sem1 :: nat
  sem2 :: nat
  num3 :: int
  read_pos :: nat
  accu_pos :: nat
  accu_sum :: int

definition sem_test :: sem_pair where
  "sem_test = \<lparr>sem1 = 0, sem2 = 1, num3 = 0, read_pos = 0, accu_pos = 0, accu_sum = 0\<rparr>"

text \<open>\<open>scanf\<close> reads the number of the round from the input.\<close>

definition read_step :: "(nat \<Rightarrow> int) \<Rightarrow> sem_pair \<Rightarrow> sem_pair option" where
  "read_step inp s =
     (if 15 \<le> read_pos s then None
      else if read_pos s mod 3 = 0 then map_option (\<lambda>k. s\<lparr>sem2 := k, read_pos := read_pos s + 1\<rparr>) (sem_wait (sem2 s))
      else if read_pos s mod 3 = 1 then Some (s\<lparr>num3 := inp (read_pos s div 3), read_pos := read_pos s + 1\<rparr>)
      else Some (s\<lparr>sem1 := sem_post (sem1 s), read_pos := read_pos s + 1\<rparr>))"

definition accu_step :: "sem_pair \<Rightarrow> sem_pair option" where
  "accu_step s =
     (if 15 \<le> accu_pos s then None
      else if accu_pos s mod 3 = 0 then map_option (\<lambda>k. s\<lparr>sem1 := k, accu_pos := accu_pos s + 1\<rparr>) (sem_wait (sem1 s))
      else if accu_pos s mod 3 = 1 then Some (s\<lparr>accu_sum := accu_sum s + num3 s, accu_pos := accu_pos s + 1\<rparr>)
      else Some (s\<lparr>sem2 := sem_post (sem2 s), accu_pos := accu_pos s + 1\<rparr>))"

inductive sem_steps :: "(nat \<Rightarrow> int) \<Rightarrow> sem_pair \<Rightarrow> bool" for inp where
  sem_start: "sem_steps inp sem_test"
| sem_read: "sem_steps inp s \<Longrightarrow> read_step inp s = Some s' \<Longrightarrow> sem_steps inp s'"
| sem_accu: "sem_steps inp s \<Longrightarrow> accu_step s = Some s' \<Longrightarrow> sem_steps inp s'"

text \<open>
  The semaphores count the rounds: the reader is never more than one round ahead, and the number in
  the shared variable is that of the round the accumulator is in.
\<close>

definition sem_inv :: "(nat \<Rightarrow> int) \<Rightarrow> sem_pair \<Rightarrow> bool" where
  "sem_inv inp s \<longleftrightarrow> read_pos s \<le> 15 \<and> accu_pos s \<le> 15
     \<and> sem1 s + (accu_pos s + 2) div 3 = read_pos s div 3
     \<and> sem2 s + (read_pos s + 2) div 3 = 1 + accu_pos s div 3
     \<and> (\<forall>k. (read_pos s + 1) div 3 = Suc k \<longrightarrow> num3 s = inp k)
     \<and> accu_sum s = sum_list (map inp [0..<(accu_pos s + 1) div 3])"

lemma third_cases:
  obtains (m0) k where "n = 3 * k" | (m1) k where "n = 3 * k + 1" | (m2) k where "n = 3 * k + (2::nat)"
proof -
  have "n = 3 * (n div 3) + n mod 3" "n mod 3 < 3" by simp_all
  then show ?thesis using that by (metis One_nat_def Suc_1 add_0_right less_Suc_eq less_one numeral_3_eq_3)
qed

lemma thirds [simp]:
  "Suc (3 * k) div 3 = k" "Suc (Suc (3 * k)) div 3 = k" "Suc (Suc (Suc (3 * k))) div 3 = Suc k"
  "Suc (Suc (Suc (Suc (3 * k)))) div 3 = Suc k" "Suc (Suc (Suc (Suc (Suc (3 * k))))) div 3 = Suc k"
  "Suc (3 * k) mod 3 = 1" "Suc (Suc (3 * k)) mod 3 = 2"
  by (presburger)+

text \<open>The invariant at the three places of a round of the reader, and of the accumulator.\<close>

lemma sem_inv_read:
  "read_pos s = 3 * k \<Longrightarrow> sem_inv inp s \<longleftrightarrow> k \<le> 5 \<and> accu_pos s \<le> 15 \<and> sem1 s + (accu_pos s + 2) div 3 = k
     \<and> sem2 s + k = 1 + accu_pos s div 3 \<and> (\<forall>j. k = Suc j \<longrightarrow> num3 s = inp j)
     \<and> accu_sum s = sum_list (map inp [0..<(accu_pos s + 1) div 3])"
  "read_pos s = 3 * k + 1 \<Longrightarrow> sem_inv inp s \<longleftrightarrow> k < 5 \<and> accu_pos s \<le> 15 \<and> sem1 s + (accu_pos s + 2) div 3 = k
     \<and> sem2 s + Suc k = 1 + accu_pos s div 3 \<and> (\<forall>j. k = Suc j \<longrightarrow> num3 s = inp j)
     \<and> accu_sum s = sum_list (map inp [0..<(accu_pos s + 1) div 3])"
  "read_pos s = 3 * k + 2 \<Longrightarrow> sem_inv inp s \<longleftrightarrow> k < 5 \<and> accu_pos s \<le> 15 \<and> sem1 s + (accu_pos s + 2) div 3 = k
     \<and> sem2 s + Suc k = 1 + accu_pos s div 3 \<and> num3 s = inp k
     \<and> accu_sum s = sum_list (map inp [0..<(accu_pos s + 1) div 3])"
  unfolding sem_inv_def by auto

lemma sem_inv_accu:
  "accu_pos s = 3 * k \<Longrightarrow> sem_inv inp s \<longleftrightarrow> k \<le> 5 \<and> read_pos s \<le> 15 \<and> sem1 s + k = read_pos s div 3
     \<and> sem2 s + (read_pos s + 2) div 3 = 1 + k \<and> (\<forall>j. (read_pos s + 1) div 3 = Suc j \<longrightarrow> num3 s = inp j)
     \<and> accu_sum s = sum_list (map inp [0..<k])"
  "accu_pos s = 3 * k + 1 \<Longrightarrow> sem_inv inp s \<longleftrightarrow> k < 5 \<and> read_pos s \<le> 15 \<and> sem1 s + Suc k = read_pos s div 3
     \<and> sem2 s + (read_pos s + 2) div 3 = 1 + k \<and> (\<forall>j. (read_pos s + 1) div 3 = Suc j \<longrightarrow> num3 s = inp j)
     \<and> accu_sum s = sum_list (map inp [0..<k])"
  "accu_pos s = 3 * k + 2 \<Longrightarrow> sem_inv inp s \<longleftrightarrow> k < 5 \<and> read_pos s \<le> 15 \<and> sem1 s + Suc k = read_pos s div 3
     \<and> sem2 s + (read_pos s + 2) div 3 = 1 + k \<and> (\<forall>j. (read_pos s + 1) div 3 = Suc j \<longrightarrow> num3 s = inp j)
     \<and> accu_sum s = sum_list (map inp [0..<Suc k])"
  unfolding sem_inv_def by auto

lemma read_step_inv:
  assumes "sem_inv inp s" and "read_step inp s = Some s'"
  shows "sem_inv inp s'"
proof (cases "read_pos s" rule: third_cases)
  case (m0 k)
  then obtain z where z: "sem2 s = Suc z" "s' = s\<lparr>sem2 := z, read_pos := 3 * k + 1\<rparr>"
    using assms(2) by (auto simp: read_step_def split: if_splits)
  then have "k < 5" using assms(2) m0 by (auto simp: read_step_def split: if_splits)
  then show ?thesis using assms(1) m0 z sem_inv_read(1)[OF m0] sem_inv_read(2)[of s' k] by simp
next
  case (m1 k)
  then have "s' = s\<lparr>num3 := inp k, read_pos := 3 * k + 2\<rparr>" using assms(2) by (auto simp: read_step_def split: if_splits)
  then show ?thesis using assms(1) sem_inv_read(2)[OF m1] sem_inv_read(3)[of s' k] by simp
next
  case (m2 k)
  then have "s' = s\<lparr>sem1 := Suc (sem1 s), read_pos := 3 * Suc k\<rparr>"
    using assms(2) by (auto simp: read_step_def sem_post_def split: if_splits)
  then show ?thesis using assms(1) sem_inv_read(3)[OF m2] sem_inv_read(1)[of s' "Suc k"] by simp
qed

lemma accu_step_inv:
  assumes "sem_inv inp s" and "accu_step s = Some s'"
  shows "sem_inv inp s'"
proof (cases "accu_pos s" rule: third_cases)
  case (m0 k)
  then obtain z where z: "sem1 s = Suc z" "s' = s\<lparr>sem1 := z, accu_pos := 3 * k + 1\<rparr>"
    using assms(2) by (auto simp: accu_step_def split: if_splits)
  then have "k < 5" using assms(2) m0 by (auto simp: accu_step_def split: if_splits)
  then show ?thesis using assms(1) m0 z sem_inv_accu(1)[OF m0] sem_inv_accu(2)[of s' k] by simp
next
  case (m1 k)
  have i: "sem1 s + Suc k = read_pos s div 3" "sem2 s + (read_pos s + 2) div 3 = 1 + k"
    "\<forall>j. (read_pos s + 1) div 3 = Suc j \<longrightarrow> num3 s = inp j"
    using assms(1) sem_inv_accu(2)[OF m1] by auto
  have "(read_pos s + 1) div 3 = Suc k"
    using i(1,2) by (cases "read_pos s" rule: third_cases) auto
  then have "num3 s = inp k" using i(3) by blast
  moreover have "s' = s\<lparr>accu_sum := accu_sum s + num3 s, accu_pos := 3 * k + 2\<rparr>"
    using assms(2) m1 by (auto simp: accu_step_def split: if_splits)
  ultimately show ?thesis using assms(1) sem_inv_accu(2)[OF m1] sem_inv_accu(3)[of s' k] by simp
next
  case (m2 k)
  then have "s' = s\<lparr>sem2 := Suc (sem2 s), accu_pos := 3 * Suc k\<rparr>"
    using assms(2) by (auto simp: accu_step_def sem_post_def split: if_splits)
  then show ?thesis using assms(1) sem_inv_accu(3)[OF m2] sem_inv_accu(1)[of s' "Suc k"] by simp
qed

lemma sem_steps_inv: "sem_steps inp s \<Longrightarrow> sem_inv inp s"
proof (induction rule: sem_steps.induct)
  case sem_start
  then show ?case by (simp add: sem_inv_def sem_test_def)
qed (auto intro: read_step_inv accu_step_inv)

text \<open>
  The two threads of \<open>sem_test\<close> take turns: in every state that can be reached, if the accumulator
  has ended its sum is that of all five numbers, and as long as one of the threads has not ended
  one of them can go on.
\<close>

theorem sem_pair_exact:
  assumes "sem_steps inp s"
  shows "(accu_pos s = 15 \<longrightarrow> accu_sum s = sum_list (map inp [0..<5]))
    \<and> (read_pos s < 15 \<or> accu_pos s < 15 \<longrightarrow> read_step inp s \<noteq> None \<or> accu_step s \<noteq> None)"
proof -
  note inv = sem_steps_inv[OF assms]
  have "read_step inp s \<noteq> None \<or> accu_step s \<noteq> None" if n: "read_pos s < 15 \<or> accu_pos s < 15"
  proof (rule ccontr)
    assume "\<not> ?thesis"
    then have stuck: "read_step inp s = None" "accu_step s = None" by auto
    have r: "read_pos s = 15 \<or> sem2 s = 0 \<and> read_pos s mod 3 = 0"
      using stuck(1) inv by (auto simp: read_step_def sem_inv_def split: if_splits)
    have a: "accu_pos s = 15 \<or> sem1 s = 0 \<and> accu_pos s mod 3 = 0"
      using stuck(2) inv by (auto simp: accu_step_def sem_inv_def split: if_splits)
    from r have r3: "read_pos s mod 3 = 0" by auto
    from a have a3: "accu_pos s mod 3 = 0" by auto
    obtain k where k: "read_pos s = 3 * k" using r3 by (auto simp: mod_eq_0_iff_dvd)
    obtain m where m: "accu_pos s = 3 * m" using a3 by (auto simp: mod_eq_0_iff_dvd)
    have e: "sem1 s + m = k" "sem2 s + k = 1 + m" "k \<le> 5" "m \<le> 5" using inv k m by (auto simp: sem_inv_def)
    show False using r a n e k m by auto
  qed
  moreover have "accu_sum s = sum_list (map inp [0..<5])" if "accu_pos s = 15"
    using inv that by (simp add: sem_inv_def)
  ultimately show ?thesis by blast
qed

theorem sem_pair_exact_witness: "\<exists>s. sem_steps (\<lambda>i. int i) s \<and> read_pos s = 1
    \<and> (read_step (\<lambda>i. int i) s \<noteq> None \<or> accu_step s \<noteq> None)"
proof -
  have "read_step (\<lambda>i. int i) sem_test = Some (sem_test\<lparr>sem2 := 0, read_pos := 1\<rparr>)"
    by (simp add: read_step_def sem_test_def sem_wait_def)
  then have s: "sem_steps (\<lambda>i. int i) (sem_test\<lparr>sem2 := 0, read_pos := 1\<rparr>)"
    by (rule sem_read[OF sem_start])
  show ?thesis using sem_pair_exact[OF s] s by (intro exI[of _ "sem_test\<lparr>sem2 := 0, read_pos := 1\<rparr>"]) simp
qed

text \<open>
  The sum of two ranges depends on the schedule: one thread after the other gives 55, but a
  thread that loads the sum and stores it after the other has run wipes out all the other has added.
\<close>

lemma thread_test3_runs:
  "map_option (\<lambda>s. (num s, codes s)) (thread_run (replicate 10 0 @ replicate 10 1) thread_test3) = Some (55, [[], []])"
  "map_option (\<lambda>s. (num s, codes s)) (thread_run (0 # replicate 10 1 @ replicate 9 0) thread_test3) = Some (15, [[], []])"
  by code_simp+

theorem thread_sum_races:
  "(\<exists>is s. thread_run is thread_test3 = Some s \<and> all_joined s \<and> num s = 55)
   \<and> (\<exists>is s. thread_run is thread_test3 = Some s \<and> all_joined s \<and> num s = 15)"
proof -
  from thread_test3_runs obtain s1 s2 where
      "thread_run (replicate 10 0 @ replicate 10 1) thread_test3 = Some s1" "num s1 = 55" "codes s1 = [[], []]"
      "thread_run (0 # replicate 10 1 @ replicate 9 0) thread_test3 = Some s2" "num s2 = 15" "codes s2 = [[], []]"
    by auto
  then show ?thesis unfolding all_joined_def by (metis empty_iff empty_set set_ConsD)
qed

end
