(* ===== verification/Packets.thy ===== *)
theory Packets
  imports C_Io
begin

text \<open>
  Link-layer frames of src/10_network_advanced/main.cpp: the packet dump \<open>mac_packet_test\<close> and the
  two versions of the ARP query, \<open>arp_get_mac\<close> with the request written out byte by byte and
  \<open>arp_get_mac2\<close> with the same request stored through the header structs. A frame is a list of
  8-bit words, a field of a header is a load from or a store into the array at its offset, in the
  byte order of the little-endian host, so that \<open>htons\<close> and \<open>ntohs\<close> are the byte swaps they are.
\<close>

type_synonym byte = "8 word"

subsection \<open>Fields of a frame\<close>

definition FRAME_MAX :: nat where "FRAME_MAX = 1600"

text \<open>\<open>recvfrom\<close> into the zeroed array; what does not fit is dropped, an error leaves the zeroes.\<close>

datatype frame_event = Frame "byte list" | Frame_Error

definition frame_load :: "frame_event \<Rightarrow> byte list" where
  "frame_load e =
     (case e of
        Frame_Error \<Rightarrow> replicate FRAME_MAX 0
      | Frame f \<Rightarrow> take FRAME_MAX f @ replicate (FRAME_MAX - length f) 0)"

definition load_u16 :: "byte list \<Rightarrow> nat \<Rightarrow> 16 word" where
  "load_u16 b i = ucast (b ! i) OR push_bit 8 (ucast (b ! Suc i))"

definition htons :: "16 word \<Rightarrow> 16 word" where
  "htons w = push_bit 8 w OR drop_bit 8 w"

abbreviation ntohs :: "16 word \<Rightarrow> 16 word" where "ntohs \<equiv> htons"

definition put_bytes :: "byte list \<Rightarrow> nat \<Rightarrow> byte list \<Rightarrow> byte list result" where
  "put_bytes b i bs =
     (if i + length bs \<le> length b then Inr (take i b @ bs @ drop (i + length bs) b)
      else Inl (Bad_Store (int (length b))))"

definition store_u16 :: "byte list \<Rightarrow> nat \<Rightarrow> 16 word \<Rightarrow> byte list result" where
  "store_u16 b i w = put_bytes b i [ucast w, ucast (drop_bit 8 w)]"

definition store_u32 :: "byte list \<Rightarrow> nat \<Rightarrow> 32 word \<Rightarrow> byte list result" where
  "store_u32 b i w =
     put_bytes b i [ucast w, ucast (drop_bit 8 w), ucast (drop_bit 16 w), ucast (drop_bit 24 w)]"

text \<open>
  \<open>inet_addr\<close> of a dotted quad: the four numbers in network order, so that the host's store writes
  them in the order of the text; \<open>INADDR_NONE\<close> for a text that is not four numbers below 256.
\<close>

definition INADDR_NONE :: "32 word" where "INADDR_NONE = 0xFFFFFFFF"

fun split_on :: "char \<Rightarrow> string \<Rightarrow> string list" where
  "split_on sep [] = [[]]"
| "split_on sep (c # cs) =
     (if c = sep then [] # split_on sep cs
      else (case split_on sep cs of f # fs \<Rightarrow> (c # f) # fs | [] \<Rightarrow> [[c]]))"

definition octet :: "string \<Rightarrow> nat option" where
  "octet s =
     (if s \<noteq> [] \<and> list_all is_digit s \<and> digits_val 0 s < 256 then Some (nat (digits_val 0 s)) else None)"

definition inet_addr :: "string \<Rightarrow> 32 word" where
  "inet_addr s =
     (case List.map octet (split_on (CHR ''.'') s) of
        [Some a, Some b, Some c, Some d] \<Rightarrow>
          of_nat a OR push_bit 8 (of_nat b) OR push_bit 16 (of_nat c) OR push_bit 24 (of_nat d)
      | _ \<Rightarrow> INADDR_NONE)"

subsection \<open>Text of an address\<close>

definition hex_digit :: "nat \<Rightarrow> char" where
  "hex_digit n = ''0123456789abcdef'' ! n"

text \<open>The conversion \<open>%x\<close> of a non-negative value.\<close>

fun hex :: "nat \<Rightarrow> string" where
  "hex n = (if n < 16 then [hex_digit n] else hex (n div 16) @ [hex_digit (n mod 16)])"

declare hex.simps [simp del]

fun hex_join :: "byte list \<Rightarrow> string" where
  "hex_join [] = []"
| "hex_join [b] = hex (unat b)"
| "hex_join (b # bs) = hex (unat b) @ CHR '':'' # hex_join bs"

text \<open>
  \<open>sprintf(mac, "%x:%x:%x:%x:%x:%x", buf[i], ..., buf[i + 5])\<close> into the 18 zeroed characters.
\<close>

definition mac_text :: "byte list \<Rightarrow> nat \<Rightarrow> string" where
  "mac_text buf i = hex_join [buf ! i, buf ! (i + 1), buf ! (i + 2), buf ! (i + 3), buf ! (i + 4), buf ! (i + 5)]"

definition mac_sprintf :: "byte list \<Rightarrow> nat \<Rightarrow> char list result" where
  "mac_sprintf buf i = blit (replicate 18 NUL) 0 (mac_text buf i @ [NUL])"

subsection \<open>The packet dump\<close>

datatype transport = ICMP | IGMP | TCP | UDP

datatype frame_kind =
    IP_Packet nat nat "transport option"
  | ARP_Packet
  | RARP_Packet
  | Other_Packet

record frame_report =
  src_mac :: string
  dst_mac :: string
  mac_type :: "16 word"
  kind :: frame_kind

definition transport_of :: "byte \<Rightarrow> transport option" where
  "transport_of ip_type =
     (if ip_type = 1 then Some ICMP
      else if ip_type = 2 then Some IGMP
      else if ip_type = 6 then Some TCP
      else if ip_type = 17 then Some UDP
      else None)"

definition ip_head_len :: "byte list \<Rightarrow> nat" where
  "ip_head_len buf = unat (buf ! 14 AND 0x0f) * 4"

definition frame_kind_of :: "byte list \<Rightarrow> 16 word \<Rightarrow> frame_kind" where
  "frame_kind_of buf ty =
     (if ty = 0x800 then
        IP_Packet (ip_head_len buf) (unat (ntohs (load_u16 buf (14 + 2))))
          (transport_of (ucast (load_u16 buf (14 + 9))))
      else if ty = 0x0806 then ARP_Packet
      else if ty = 0x8035 then RARP_Packet
      else Other_Packet)"

definition mac_packet_step :: "frame_event \<Rightarrow> frame_report result" where
  "mac_packet_step e =
     (let buf = frame_load e in
      bindR (mac_sprintf buf 0) (\<lambda>src.
      bindR (mac_sprintf buf 6) (\<lambda>dst.
      bindR (cstr src 0) (\<lambda>s.
      bindR (cstr dst 0) (\<lambda>d.
        let ty = ntohs (load_u16 buf 12) in
        Inr \<lparr>src_mac = s, dst_mac = d, mac_type = ty, kind = frame_kind_of buf ty\<rparr>)))))"

text \<open>The loop has no exit: the reports of the frames that have come, in their order.\<close>

fun mac_packet_test :: "frame_event list \<Rightarrow> frame_report list result" where
  "mac_packet_test [] = Inr []"
| "mac_packet_test (e # es) =
     bindR (mac_packet_step e) (\<lambda>r. bindR (mac_packet_test es) (\<lambda>rs. Inr (r # rs)))"

subsection \<open>The ARP query\<close>

text \<open>
  What a run of the query leaves: it gives up when the socket or the interface lookup fails;
  otherwise the request has been sent, and the address is printed once a reply has come.
\<close>

datatype arp_run =
    Socket_Error
  | Ioctl_Error
  | Queried "byte list" "string option"

fun arp_wait :: "string \<Rightarrow> frame_event list \<Rightarrow> string option result" where
  "arp_wait arrow [] = Inr None"
| "arp_wait arrow (e # es) =
     (let buf = frame_load e in
      if ntohs (load_u16 buf 12) = 0x0806 \<and> htons (load_u16 buf 20) = 0x02
      then bindR (mac_sprintf buf 6) (\<lambda>mac.
           bindR (cstr mac 0) (\<lambda>t. Inr (Some (''192.168.1.4 '' @ arrow @ '' '' @ t @ [LF]))))
      else arp_wait arrow es)"

definition arp_msg :: "byte list" where
  "arp_msg =
    [0xff, 0xff, 0xff, 0xff, 0xff, 0xff,
     0x00, 0x0c, 0x29, 0x07, 0x2f, 0xd3,
     0x08, 0x06,
     0x00, 0x01,
     0x08, 0x00,
     0x06, 0x04,
     0x00, 0x01,
     0x00, 0x0c, 0x29, 0x07, 0x2f, 0xd3,
     192, 168, 1, 222,
     0x00, 0x00, 0x00, 0x00, 0x00, 0x00,
     192, 168, 1, 4] @ replicate (FRAME_MAX - 42) 0"

definition arp_get_mac :: "bool \<Rightarrow> bool \<Rightarrow> frame_event list \<Rightarrow> arp_run result" where
  "arp_get_mac socket_ok ioctl_ok es =
     (if \<not> socket_ok then Inr Socket_Error
      else if \<not> ioctl_ok then Inr Ioctl_Error
      else bindR (arp_wait ''==>'' es) (\<lambda>t. Inr (Queried (take 42 arp_msg) t)))"

text \<open>The same request, field by field: \<open>ether_header\<close> at 0, \<open>arphdr\<close> at 14.\<close>

definition eth_fill :: "byte list \<Rightarrow> byte list \<Rightarrow> byte list result" where
  "eth_fill src msg =
     bindR (put_bytes msg 0 (replicate 6 0xff)) (\<lambda>msg.
     bindR (put_bytes msg 6 src) (\<lambda>msg.
       store_u16 msg 12 (htons 0x0806)))"

definition arp_fill :: "byte list \<Rightarrow> string \<Rightarrow> string \<Rightarrow> byte list \<Rightarrow> byte list result" where
  "arp_fill src sip tip msg =
     bindR (store_u16 msg 14 (htons 1)) (\<lambda>msg.
     bindR (store_u16 msg 16 (htons 0x0800)) (\<lambda>msg.
     bindR (put_bytes msg 18 [6]) (\<lambda>msg.
     bindR (put_bytes msg 19 [4]) (\<lambda>msg.
     bindR (store_u16 msg 20 (htons 1)) (\<lambda>msg.
     bindR (put_bytes msg 22 src) (\<lambda>msg.
     bindR (store_u32 msg 28 (inet_addr sip)) (\<lambda>msg.
     bindR (put_bytes msg 32 (replicate 6 0)) (\<lambda>msg.
       store_u32 msg 38 (inet_addr tip)))))))))"

definition arp_request :: "byte list \<Rightarrow> string \<Rightarrow> string \<Rightarrow> byte list result" where
  "arp_request src sip tip =
     bindR (eth_fill src (replicate FRAME_MAX 0)) (\<lambda>msg. arp_fill src sip tip msg)"

definition arp_get_mac2 :: "bool \<Rightarrow> bool \<Rightarrow> frame_event list \<Rightarrow> arp_run result" where
  "arp_get_mac2 socket_ok ioctl_ok es =
     (if \<not> socket_ok then Inr Socket_Error
      else
        bindR (arp_request [0x00, 0x0c, 0x29, 0x07, 0x2f, 0xd3] ''192.168.1.222'' ''192.168.1.4'') (\<lambda>msg.
        if \<not> ioctl_ok then Inr Ioctl_Error
        else bindR (arp_wait ''===>'' es) (\<lambda>t. Inr (Queried (take 42 msg) t))))"

subsection \<open>Loads and stores\<close>

lemma length_frame_load [simp]: "length (frame_load e) = FRAME_MAX"
  by (auto simp: frame_load_def split: frame_event.splits)

lemma htons_htons [simp]: "htons (htons w) = w"
  unfolding htons_def by (rule bit_word_eqI) (auto simp: bit_simps)

lemma put_bytes_length: "put_bytes b i bs = Inr b' \<Longrightarrow> length b' = length b"
  by (auto simp: put_bytes_def split: if_splits)

lemma put_bytes_ok: "i + length bs \<le> length b \<Longrightarrow> put_bytes b i bs = Inr (take i b @ bs @ drop (i + length bs) b)"
  by (simp add: put_bytes_def)

lemma put_bytes_at: "put_bytes b i bs = Inr b' \<Longrightarrow> k < length bs \<Longrightarrow> b' ! (i + k) = bs ! k"
  by (auto simp: put_bytes_def nth_append min_def split: if_splits)

lemma put_bytes_other:
  assumes "put_bytes b i bs = Inr b'" and "j < i \<or> i + length bs \<le> j"
  shows "b' ! j = b ! j"
  using assms by (auto simp: put_bytes_def nth_append split: if_splits)

lemma two_bytes:
  fixes h l :: byte
  shows "htons (ucast h OR push_bit 8 (ucast l)) = push_bit 8 (ucast h) OR ucast l"
    and "ucast (drop_bit 8 (push_bit 8 (ucast h) OR ucast l :: 16 word)) = h"
    and "ucast (push_bit 8 (ucast h) OR ucast l :: 16 word) = l"
  unfolding htons_def by (rule bit_word_eqI; auto simp: bit_simps dest: bit_imp_le_length)+

lemma two_bytes_of:
  fixes w :: "16 word"
  shows "push_bit 8 (ucast (ucast (drop_bit 8 w) :: byte)) OR ucast (ucast w :: byte) = w"
    and "ucast (ucast w :: byte) OR push_bit 8 (ucast (ucast (drop_bit 8 w) :: byte)) = w"
  by (rule bit_word_eqI; auto simp: bit_simps dest: bit_imp_le_length)+

lemma load_store_u16:
  assumes "store_u16 b i w = Inr b'"
  shows "load_u16 b' i = w"
proof -
  have "b' ! i = ucast w" "b' ! Suc i = ucast (drop_bit 8 w)"
    using put_bytes_at[OF assms[unfolded store_u16_def], of 0]
      put_bytes_at[OF assms[unfolded store_u16_def], of 1] by simp_all
  then show ?thesis by (simp add: load_u16_def two_bytes_of)
qed

text \<open>A field in network order: the value is its two bytes, the high one first.\<close>

lemma ntohs_load: "ntohs (load_u16 b i) = push_bit 8 (ucast (b ! i)) OR ucast (b ! Suc i)"
  by (simp add: load_u16_def two_bytes)

lemma ntohs_load_eq:
  "ntohs (load_u16 b i) = w \<longleftrightarrow> b ! i = ucast (drop_bit 8 w) \<and> b ! Suc i = ucast w"
  unfolding ntohs_load using two_bytes(2,3)[of "b ! i" "b ! Suc i"] two_bytes_of(1)[of w] by metis

lemma ntohs_load_val: "ntohs (load_u16 b i) = word_of_nat (256 * unat (b ! i) + unat (b ! Suc i))"
proof -
  have "push_bit 8 (ucast (b ! i)) OR ucast (b ! Suc i) = (push_bit 8 (ucast (b ! i)) + ucast (b ! Suc i) :: 16 word)"
    by (intro disjunctive_add [symmetric]) (auto simp: bit_simps dest: bit_imp_le_length)
  then show ?thesis by (simp add: ntohs_load push_bit_eq_mult)
qed

lemma unat_byte [simp]: "unat (b :: byte) < 256"
  using unsigned_less[of b] by simp

lemma unat_ntohs_load: "unat (ntohs (load_u16 b i)) = 256 * unat (b ! i) + unat (b ! Suc i)"
proof -
  have "unat (b ! i) < 256" "unat (b ! Suc i) < 256"
    by simp_all
  then have "256 * unat (b ! i) + unat (b ! Suc i) < 65536" by linarith
  then show ?thesis unfolding ntohs_load_val by (subst unat_of_nat) simp
qed

subsection \<open>Hexadecimal text\<close>

lemma hex_digit_chars: "n < 16 \<Longrightarrow> hex_digit n \<noteq> NUL \<and> hex_digit n \<noteq> CHR '':''"
proof -
  assume "n < 16"
  then have "hex_digit n \<in> set ''0123456789abcdef''" unfolding hex_digit_def by (intro nth_mem) simp
  then show ?thesis by auto
qed

lemma hex_digit_inj:
  assumes "hex_digit m = hex_digit n" and "m < 16" and "n < 16"
  shows "m = n"
proof -
  have "distinct ''0123456789abcdef''" by simp
  from nth_eq_iff_index_eq[OF this, of m n] show ?thesis using assms by (simp add: hex_digit_def)
qed

lemma hex_byte: "n < 256 \<Longrightarrow> hex n = (if n < 16 then [hex_digit n] else [hex_digit (n div 16), hex_digit (n mod 16)])"
  by (simp add: hex.simps[of n] hex.simps[of "n div 16"])

lemma length_hex: "n < 256 \<Longrightarrow> length (hex n) \<le> 2 \<and> hex n \<noteq> []"
  by (simp add: hex_byte)

lemma hex_chars: "n < 256 \<Longrightarrow> NUL \<notin> set (hex n) \<and> CHR '':'' \<notin> set (hex n)"
  using hex_digit_chars[of n] hex_digit_chars[of "n div 16"] hex_digit_chars[of "n mod 16"]
    less_mult_imp_div_less[of n 16 16]
  by (auto simp: hex_byte)

lemma hex_inj:
  assumes "hex m = hex n" and "m < 256" and "n < 256"
  shows "m = n"
proof (cases "m < 16 \<or> n < 16")
  case True
  then show ?thesis using assms hex_digit_inj[of m n] by (auto simp: hex_byte split: if_splits)
next
  case False
  then have "m div 16 = n div 16" "m mod 16 = n mod 16"
    using assms hex_digit_inj[of "m div 16" "n div 16"] hex_digit_inj[of "m mod 16" "n mod 16"]
    by (simp_all add: hex_byte)
  then show ?thesis by (metis div_mult_mod_eq)
qed

lemma split_on_none: "c \<notin> set s \<Longrightarrow> split_on c s = [s]"
  by (induction s) auto

lemma split_on_step: "c \<notin> set s \<Longrightarrow> split_on c (s @ c # t) = s # split_on c t"
  by (induction s) auto

lemma hex_join_chars: "NUL \<notin> set (hex_join bs)"
  using hex_chars[OF unat_byte] by (induction bs rule: hex_join.induct) auto

lemma length_hex_join: "bs \<noteq> [] \<Longrightarrow> Suc (length (hex_join bs)) \<le> 3 * length bs"
proof (induction bs rule: hex_join.induct)
  case (3 b b' bs)
  then show ?case using length_hex[of "unat b"] by simp
next
  case (2 b)
  then show ?case using length_hex[of "unat b"] by simp
qed simp

lemma split_on_hex_join: "bs \<noteq> [] \<Longrightarrow> split_on (CHR '':'') (hex_join bs) = List.map (\<lambda>b. hex (unat b)) bs"
  by (induction bs rule: hex_join.induct) (simp_all add: split_on_none split_on_step hex_chars)

lemma hex_join_inj:
  assumes "hex_join bs = hex_join cs" and "bs \<noteq> []" and "cs \<noteq> []"
  shows "bs = cs"
proof -
  have "List.map (\<lambda>b. hex (unat b)) bs = List.map (\<lambda>b. hex (unat b)) cs"
    using assms split_on_hex_join[of bs] split_on_hex_join[of cs] by simp
  moreover have "inj (\<lambda>b :: byte. hex (unat b))"
    by (rule injI) (metis hex_inj unat_byte word_unat_eq_iff)
  ultimately show ?thesis by (metis inj_map_eq_map)
qed

text \<open>The address always fits its 18 characters, and reads back as written.\<close>

lemma length_mac_text: "length (mac_text buf i) \<le> 17"
  unfolding mac_text_def
  using length_hex_join[of "[buf ! i, buf ! (i + 1), buf ! (i + 2), buf ! (i + 3), buf ! (i + 4), buf ! (i + 5)]"]
  by simp

lemma mac_sprintf_cstr: "\<exists>b. mac_sprintf buf i = Inr b \<and> cstr b 0 = Inr (mac_text buf i)"
proof -
  have "blit (replicate 18 NUL) 0 (mac_text buf i @ [NUL])
      = Inr (mac_text buf i @ NUL # drop (length (mac_text buf i) + 1) (replicate 18 NUL))"
    using length_mac_text[of buf i] by (simp add: blit_ok)
  moreover have "NUL \<notin> set (mac_text buf i)" unfolding mac_text_def by (rule hex_join_chars)
  ultimately show ?thesis by (auto simp: mac_sprintf_def cstr_iff)
qed

lemma mac_text_take: "i + 6 \<le> length b \<Longrightarrow> mac_text b i = hex_join (take 6 (drop i b))"
proof -
  assume "i + 6 \<le> length b"
  then have "take 6 (drop i b) = [b ! i, b ! (i + 1), b ! (i + 2), b ! (i + 3), b ! (i + 4), b ! (i + 5)]"
    by (intro nth_equalityI) (auto simp: less_Suc_eq eval_nat_numeral)
  then show ?thesis by (simp add: mac_text_def)
qed

lemma mac_text_inj:
  assumes "mac_text b i = mac_text c j" and "i + 6 \<le> length b" and "j + 6 \<le> length c"
  shows "take 6 (drop i b) = take 6 (drop j c)"
proof (rule hex_join_inj)
  show "hex_join (take 6 (drop i b)) = hex_join (take 6 (drop j c))"
    using assms by (simp add: mac_text_take)
qed (use assms in auto)

subsection \<open>The dump\<close>

lemma unat_u16 [simp]: "unat (w :: 16 word) < 65536"
  using unsigned_less[of w] by simp

text \<open>What a report may hold, and that every frame gives one.\<close>

definition report_ok :: "frame_report \<Rightarrow> bool" where
  "report_ok r \<longleftrightarrow> length (src_mac r) \<le> 17 \<and> length (dst_mac r) \<le> 17 \<and> NUL \<notin> set (src_mac r @ dst_mac r)
    \<and> (case kind r of IP_Packet h n t \<Rightarrow> h \<le> 60 \<and> 4 dvd h \<and> n < 65536 | _ \<Rightarrow> True)"

lemma mac_text_no_nul: "NUL \<notin> set (mac_text buf i)"
  unfolding mac_text_def by (rule hex_join_chars)

lemma ip_head_len_bound: "ip_head_len buf \<le> 60 \<and> 4 dvd ip_head_len buf"
proof -
  have "unat (buf ! 14 AND 0x0f) \<le> unat (0x0f :: byte)"
    by (rule word_le_nat_alt [THEN iffD1]) (rule word_and_le1)
  then show ?thesis by (simp add: ip_head_len_def)
qed

lemma mac_packet_step_eq:
  "mac_packet_step e =
     (let buf = frame_load e; ty = ntohs (load_u16 buf 12) in
      Inr \<lparr>src_mac = mac_text buf 0, dst_mac = mac_text buf 6, mac_type = ty, kind = frame_kind_of buf ty\<rparr>)"
  using mac_sprintf_cstr[of "frame_load e" 0] mac_sprintf_cstr[of "frame_load e" 6]
  by (auto simp: mac_packet_step_def Let_def)

lemma mac_packet_step_ok: "\<exists>r. mac_packet_step e = Inr r \<and> report_ok r"
  using length_mac_text[of "frame_load e"] mac_text_no_nul[of "frame_load e"] ip_head_len_bound[of "frame_load e"]
  by (auto simp: mac_packet_step_eq Let_def report_ok_def frame_kind_of_def)


text \<open>The fields of a frame as the Ethernet header orders them: destination, source, type.\<close>

definition ethernet :: "byte list \<Rightarrow> byte list \<Rightarrow> 16 word \<Rightarrow> byte list \<Rightarrow> byte list" where
  "ethernet dst src ty payload = dst @ src @ [ucast (drop_bit 8 ty), ucast ty] @ payload"

lemma ethernet_load:
  assumes "length dst = 6" and "length src = 6"
  shows "\<exists>r. frame_load (Frame (ethernet dst src ty p)) = ethernet dst src ty r"
  using assms by (simp add: frame_load_def ethernet_def FRAME_MAX_def)

lemma ethernet_report:
  assumes "length dst = 6" and "length src = 6"
  shows "mac_text (frame_load (Frame (ethernet dst src ty p))) 0 = hex_join dst"
    and "mac_text (frame_load (Frame (ethernet dst src ty p))) 6 = hex_join src"
    and "ntohs (load_u16 (frame_load (Frame (ethernet dst src ty p))) 12) = ty"
proof -
  obtain r where r: "frame_load (Frame (ethernet dst src ty p)) = ethernet dst src ty r"
    using ethernet_load[OF assms] by blast
  then show "mac_text (frame_load (Frame (ethernet dst src ty p))) 0 = hex_join dst"
    and "mac_text (frame_load (Frame (ethernet dst src ty p))) 6 = hex_join src"
    using assms by (simp_all add: ethernet_def mac_text_take)
  have "ethernet dst src ty r ! 12 = ucast (drop_bit 8 ty)" "ethernet dst src ty r ! Suc 12 = ucast ty"
    using assms by (simp_all add: ethernet_def nth_append)
  then show "ntohs (load_u16 (frame_load (Frame (ethernet dst src ty p))) 12) = ty"
    using r by (simp only: ntohs_load_eq)
qed

text \<open>
  The dump labels the two addresses the wrong way round: of a frame from \<open>src\<close> to \<open>dst\<close> it
  prints the destination as the source and the source as the destination; the type is the one sent.
\<close>

theorem addresses_swapped:
  assumes "length dst = 6" and "length src = 6"
    and "mac_packet_step (Frame (ethernet dst src ty payload)) = Inr r"
  shows "src_mac r = hex_join dst \<and> dst_mac r = hex_join src \<and> mac_type r = ty"
  using assms(3) ethernet_report[OF assms(1,2), of ty payload] by (auto simp: mac_packet_step_eq Let_def)

theorem addresses_swapped_witness:
  "mac_packet_step (Frame (ethernet [1, 2, 3, 4, 5, 6] [0xaa, 0xbb, 0xcc, 0xdd, 0xee, 0xff] 0x0806 [])) =
     Inr \<lparr>src_mac = ''1:2:3:4:5:6'', dst_mac = ''aa:bb:cc:dd:ee:ff'', mac_type = 0x0806, kind = ARP_Packet\<rparr>"
proof -
  let ?f = "ethernet [1, 2, 3, 4, 5, 6] [0xaa, 0xbb, 0xcc, 0xdd, 0xee, 0xff] 0x0806 []"
  obtain r where r: "mac_packet_step (Frame ?f) = Inr r" using mac_packet_step_ok by blast
  have "src_mac r = ''1:2:3:4:5:6'' \<and> dst_mac r = ''aa:bb:cc:dd:ee:ff'' \<and> mac_type r = 0x0806"
    using addresses_swapped[OF _ _ r] by (simp add: hex.simps hex_digit_def)
  moreover have "kind r = ARP_Packet"
    using r ethernet_report(3)[of "[1, 2, 3, 4, 5, 6]" "[0xaa, 0xbb, 0xcc, 0xdd, 0xee, 0xff]" "0x0806" "[]"]
    by (auto simp: mac_packet_step_eq Let_def frame_kind_of_def)
  ultimately show ?thesis using r by simp
qed

subsection \<open>The request\<close>

text \<open>Dotted quads: the text of four numbers, read back by \<open>inet_addr\<close> and stored in their order.\<close>

definition quad :: "nat list \<Rightarrow> string" where
  "quad ns = (case ns of [a, b, c, d] \<Rightarrow>
     dec_nat a @ ''.'' @ dec_nat b @ ''.'' @ dec_nat c @ ''.'' @ dec_nat d | _ \<Rightarrow> [])"

definition is_quad :: "nat list \<Rightarrow> bool" where
  "is_quad ns \<longleftrightarrow> length ns = 4 \<and> list_all (\<lambda>n. n < 256) ns"

lemma is_quadE:
  assumes "is_quad ns"
  obtains a b c d where "ns = [a, b, c, d]" "a < 256" "b < 256" "c < 256" "d < 256"
  using assms by (auto simp: is_quad_def eval_nat_numeral length_Suc_conv)

lemma octet_dec_nat: "n < 256 \<Longrightarrow> octet (dec_nat n) = Some n"
  using dec_nat_digits[of _ n] by (auto simp: octet_def digits_val_dec_nat list_all_iff)

lemma dot_dec_nat: "CHR ''.'' \<notin> set (dec_nat n)"
  using dec_nat_digits[of "CHR ''.''" n] by auto

lemma inet_addr_quad:
  assumes "a < 256" "b < 256" "c < 256" "d < 256"
  shows "inet_addr (quad [a, b, c, d]) =
    of_nat a OR push_bit 8 (of_nat b) OR push_bit 16 (of_nat c) OR push_bit 24 (of_nat d)"
  using assms by (simp add: inet_addr_def quad_def split_on_step split_on_none dot_dec_nat octet_dec_nat)

lemma of_nat_byte: "n < 256 \<Longrightarrow> (of_nat n :: 32 word) = ucast (of_nat n :: byte)"
  by (simp add: word_eq_iff_unsigned unsigned_of_nat take_bit_nat_eq_self)

lemma four_bytes:
  fixes a b c d :: byte
  defines "w \<equiv> ucast a OR push_bit 8 (ucast b) OR push_bit 16 (ucast c) OR push_bit 24 (ucast d) :: 32 word"
  shows "ucast w = a" and "ucast (drop_bit 8 w) = b" and "ucast (drop_bit 16 w) = c" and "ucast (drop_bit 24 w) = d"
  unfolding w_def by (rule bit_word_eqI; auto simp: bit_simps dest: bit_imp_le_length)+

lemma store_quad:
  assumes "is_quad ns"
  shows "store_u32 msg i (inet_addr (quad ns)) = put_bytes msg i (List.map of_nat ns)"
proof -
  obtain a b c d where "ns = [a, b, c, d]" "a < 256" "b < 256" "c < 256" "d < 256"
    using assms by (rule is_quadE)
  moreover have "put_bytes msg i [of_nat a, of_nat b, of_nat c, of_nat d] = store_u32 msg i
      (ucast (of_nat a :: byte) OR push_bit 8 (ucast (of_nat b :: byte)) OR push_bit 16 (ucast (of_nat c :: byte))
        OR push_bit 24 (ucast (of_nat d :: byte)))"
    by (simp only: store_u32_def four_bytes)
  ultimately show ?thesis by (simp only: inet_addr_quad of_nat_byte list.map)
qed

text \<open>Each field is stored right after the ones before it, over what is still zero.\<close>

lemma put_next:
  "length p = i \<Longrightarrow> length bs \<le> n \<Longrightarrow>
   put_bytes (p @ replicate n 0) i bs = Inr ((p @ bs) @ replicate (n - length bs) 0)"
  by (simp add: put_bytes_def)

definition arp_layout :: "byte list \<Rightarrow> nat list \<Rightarrow> nat list \<Rightarrow> byte list" where
  "arp_layout src sip tip = replicate 6 0xff @ src @ [8, 6, 0, 1, 8, 0, 6, 4, 0, 1] @ src @ List.map of_nat sip
     @ replicate 6 0 @ List.map of_nat tip"

lemma store_htons:
  "store_u16 msg i (htons w) = put_bytes msg i [ucast (drop_bit 8 w), ucast w]"
proof -
  have "ucast (htons w) = (ucast (drop_bit 8 w) :: byte)" "ucast (drop_bit 8 (htons w)) = (ucast w :: byte)"
    unfolding htons_def by (rule bit_word_eqI; auto simp: bit_simps)+
  then show ?thesis by (simp add: store_u16_def)
qed

lemma arp_request_layout:
  assumes "length src = 6" and "is_quad sip" and "is_quad tip"
  shows "arp_request src (quad sip) (quad tip) = Inr (arp_layout src sip tip @ replicate (FRAME_MAX - 42) 0)"
proof -
  have l: "length sip = 4" "length tip = 4" using assms(2,3) by (auto simp: is_quad_def)
  have "put_bytes (replicate FRAME_MAX 0) 0 (replicate 6 0xff) = Inr (replicate 6 0xff @ replicate 1594 0)"
    using put_next[of "[]" 0 "replicate 6 0xff" 1600] by (simp add: FRAME_MAX_def)
  moreover have "put_bytes (replicate 6 0xff @ replicate 1594 0) 6 src = Inr ((replicate 6 0xff @ src) @ replicate 1588 0)"
    using put_next[of "replicate 6 0xff" 6 src 1594] assms(1) by simp
  moreover have "put_bytes ((replicate 6 0xff @ src) @ replicate 1588 0) 12 [8, 6]
      = Inr ((replicate 6 0xff @ src @ [8, 6]) @ replicate 1586 0)"
    using put_next[of "replicate 6 0xff @ src" 12 "[8, 6]" 1588] assms(1) by simp
  moreover have "[ucast (drop_bit 8 (0x0806 :: 16 word)), ucast (0x0806 :: 16 word)] = [8, 6 :: byte]" by simp
  ultimately have "eth_fill src (replicate FRAME_MAX 0) = Inr ((replicate 6 0xff @ src @ [8, 6]) @ replicate 1586 0)"
    by (simp only: eth_fill_def store_htons bindR_Inr)
  moreover have "arp_fill src (quad sip) (quad tip) ((replicate 6 0xff @ src @ [8, 6]) @ replicate 1586 0)
      = Inr (arp_layout src sip tip @ replicate (FRAME_MAX - 42) 0)"
    unfolding arp_fill_def store_htons store_quad[OF assms(2)] store_quad[OF assms(3)] arp_layout_def
    using assms(1) l by (simp add: put_next FRAME_MAX_def del: append_assoc)
  ultimately show ?thesis by (simp add: arp_request_def)
qed

subsection \<open>The reply\<close>

text \<open>What counts as a reply: the type and the operation code; no address is looked at.\<close>

definition is_arp_reply :: "frame_event \<Rightarrow> bool" where
  "is_arp_reply e \<longleftrightarrow> frame_load e ! 12 = 8 \<and> frame_load e ! 13 = 6
     \<and> frame_load e ! 20 = 0 \<and> frame_load e ! 21 = 2"

lemma byte_2054: "(2054 :: byte) = 6"
  by simp

lemma arp_wait_first:
  "arp_wait arrow es = Inr (map_option (\<lambda>e. ''192.168.1.4 '' @ arrow @ '' '' @ mac_text (frame_load e) 6 @ [LF])
     (find is_arp_reply es))"
proof (induction es)
  case Nil
  then show ?case by simp
next
  case (Cons e es)
  have test: "(ntohs (load_u16 (frame_load e) 12) = 0x0806 \<and> htons (load_u16 (frame_load e) 20) = 0x02) = is_arp_reply e"
    unfolding is_arp_reply_def ntohs_load_eq by (simp add: byte_2054)
  obtain b where "mac_sprintf (frame_load e) 6 = Inr b" "cstr b 0 = Inr (mac_text (frame_load e) 6)"
    using mac_sprintf_cstr by blast
  then show ?case using Cons.IH by (simp only: arp_wait.simps Let_def test) simp
qed

text \<open>
  What both functions promise: give up when a call fails, otherwise send the one request and print
  the sender of the first reply.
\<close>

definition arp_query :: "string \<Rightarrow> bool \<Rightarrow> bool \<Rightarrow> frame_event list \<Rightarrow> arp_run" where
  "arp_query arrow socket_ok ioctl_ok es =
     (if \<not> socket_ok then Socket_Error
      else if \<not> ioctl_ok then Ioctl_Error
      else Queried (arp_layout [0x00, 0x0c, 0x29, 0x07, 0x2f, 0xd3] [192, 168, 1, 222] [192, 168, 1, 4])
             (map_option (\<lambda>e. ''192.168.1.4 '' @ arrow @ '' '' @ mac_text (frame_load e) 6 @ [LF]) (find is_arp_reply es)))"

lemma arp_msg_layout:
  "take 42 arp_msg = arp_layout [0x00, 0x0c, 0x29, 0x07, 0x2f, 0xd3] [192, 168, 1, 222] [192, 168, 1, 4]"
  by (simp add: arp_msg_def arp_layout_def eval_nat_numeral)

lemma quad_literals: "''192.168.1.222'' = quad [192, 168, 1, 222]" "''192.168.1.4'' = quad [192, 168, 1, 4]"
  by code_simp+

text \<open>
  C8. The two ARP queries are the same program: built byte by byte or through the header structs,
  the request is the same 42 bytes, both refine the one specification and differ in the arrow of
  the line they print.
\<close>

theorem arp_versions_agree:
  "arp_get_mac socket_ok ioctl_ok es = Inr (arp_query ''==>'' socket_ok ioctl_ok es)
   \<and> arp_get_mac2 socket_ok ioctl_ok es = Inr (arp_query ''===>'' socket_ok ioctl_ok es)"
proof -
  let ?src = "[0x00, 0x0c, 0x29, 0x07, 0x2f, 0xd3] :: byte list"
  have q: "is_quad [192, 168, 1, 222]" "is_quad [192, 168, 1, 4]" by (simp_all add: is_quad_def)
  have "length ?src = 6" by simp
  note r = arp_request_layout[OF this q, folded quad_literals]
  have "length (arp_layout ?src [192, 168, 1, 222] [192, 168, 1, 4]) = 42" by (simp add: arp_layout_def)
  then show ?thesis
    by (simp add: arp_get_mac_def arp_get_mac2_def arp_query_def arp_wait_first arp_msg_layout r)
qed

text \<open>
  A request is never taken for its own answer: while only requests arrive, whoever sends them
  and whatever they ask, the query keeps waiting.
\<close>

theorem requests_not_replies:
  assumes "\<forall>e \<in> set es. \<exists>src sip tip msg. length src = 6 \<and> is_quad sip \<and> is_quad tip
    \<and> arp_request src (quad sip) (quad tip) = Inr msg \<and> e = Frame (take 42 msg)"
  shows "arp_get_mac True True es = Inr (Queried (take 42 arp_msg) None)"
proof -
  have "\<not> is_arp_reply e" if e: "e \<in> set es" for e
  proof -
    obtain src sip tip msg where *: "length src = 6" "is_quad sip" "is_quad tip"
      "arp_request src (quad sip) (quad tip) = Inr msg" "e = Frame (take 42 msg)"
      using assms e by blast
    then have m: "msg = arp_layout src sip tip @ replicate (FRAME_MAX - 42) 0" by (simp add: arp_request_layout)
    have "take 22 (frame_load e) = replicate 6 0xff @ src @ [8, 6, 0, 1, 8, 0, 6, 4, 0, 1]"
      using *(1) unfolding *(5) m by (simp add: frame_load_def arp_layout_def FRAME_MAX_def min_def)
    then have "take 22 (frame_load e) ! 21 = 1" using *(1) by (simp add: nth_append)
    then show ?thesis by (simp add: is_arp_reply_def)
  qed
  then have "find is_arp_reply es = None" by (simp add: find_None_iff)
  then show ?thesis by (simp add: arp_get_mac_def arp_wait_first)
qed

theorem requests_not_replies_witness:
  "arp_get_mac True True [Frame (take 42 (arp_layout [1, 2, 3, 4, 5, 6] [10, 0, 0, 1] [10, 0, 0, 2]
      @ replicate (FRAME_MAX - 42) 0))] = Inr (Queried (take 42 arp_msg) None)"
proof (rule requests_not_replies, rule ballI)
  fix e assume "e \<in> set [Frame (take 42 (arp_layout [1, 2, 3, 4, 5, 6] [10, 0, 0, 1] [10, 0, 0, 2]
      @ replicate (FRAME_MAX - 42) 0))]"
  moreover have q: "is_quad [10, 0, 0, 1]" "is_quad [10, 0, 0, 2]" by (simp_all add: is_quad_def)
  moreover have "arp_request [1, 2, 3, 4, 5, 6] (quad [10, 0, 0, 1]) (quad [10, 0, 0, 2])
      = Inr (arp_layout [1, 2, 3, 4, 5, 6] [10, 0, 0, 1] [10, 0, 0, 2] @ replicate (FRAME_MAX - 42) 0)"
    by (rule arp_request_layout) (simp_all add: is_quad_def)
  ultimately show "\<exists>src sip tip msg. length src = 6 \<and> is_quad sip \<and> is_quad tip
    \<and> arp_request src (quad sip) (quad tip) = Inr msg \<and> e = Frame (take 42 msg)"
    by - (rule exI[of _ "[1, 2, 3, 4, 5, 6]"], rule exI[of _ "[10, 0, 0, 1]"], rule exI[of _ "[10, 0, 0, 2]"], auto)
qed

text \<open>
  Any reply ends the query: a reply about some other address, from whoever sent it first, is
  printed as the address of 192.168.1.4.
\<close>

theorem any_reply_accepted:
  assumes "length rest = 12" and "length dst = 6" and "length src = 6"
  shows "arp_get_mac True True (Frame (ethernet dst src 0x0806 ([0, 1, 8, 0, 6, 4, 0, 2] @ rest)) # es)
    = Inr (Queried (take 42 arp_msg) (Some (''192.168.1.4 ==> '' @ hex_join src @ [LF])))"
proof -
  let ?e = "Frame (ethernet dst src 0x0806 ([0, 1, 8, 0, 6, 4, 0, 2] @ rest))"
  have "take 22 (frame_load ?e) = dst @ src @ [8, 6] @ [0, 1, 8, 0, 6, 4, 0, 2]"
    using assms by (simp add: frame_load_def ethernet_def FRAME_MAX_def)
  then have "\<forall>k < 22. frame_load ?e ! k = (dst @ src @ [8, 6] @ [0, 1, 8, 0, 6, 4, 0, 2]) ! k"
    by (metis nth_take)
  then have "is_arp_reply ?e" using assms(2,3) by (simp add: is_arp_reply_def nth_append)
  then show ?thesis
    using ethernet_report(2)[OF assms(2,3)] by (simp add: arp_get_mac_def arp_wait_first)
qed

theorem any_reply_accepted_witness:
  "arp_get_mac True True [Frame (ethernet [1, 2, 3, 4, 5, 6] [7, 8, 9, 10, 11, 12] 0x0806
      ([0, 1, 8, 0, 6, 4, 0, 2] @ replicate 12 0))]
    = Inr (Queried (take 42 arp_msg) (Some (''192.168.1.4 ==> 7:8:9:a:b:c'' @ [LF])))"
  using any_reply_accepted[of "replicate 12 0" "[1, 2, 3, 4, 5, 6]" "[7, 8, 9, 10, 11, 12]" "[]"]
  by (simp add: hex.simps hex_digit_def)

end
