(* ===== verification/Op_Server.thy ===== *)
theory Op_Server
  imports C_Io "HOL-Library.Signed_Division"
begin

text \<open>
  The calculator of src/35_tcp_server_client_2/main.cpp: \<open>op_client_test\<close> sends a count, so many
  \<open>int\<close>s and an operator, \<open>op_server_test\<close> collects the message, \<open>calc\<close> folds the operator over the
  numbers and the result goes back. The arrays have 256 bytes and the count is one signed byte, and
  the comparison of the \<open>int\<close> received so far with a \<open>size_t\<close> is done on 64 unsigned bits.
\<close>

definition OP_BUF :: nat where "OP_BUF = 256"

subsection \<open>The client\<close>

text \<open>
  \<open>scanf("%d", &op_msg[i * sizeof(int) + 1])\<close> for every operand, then the operator right after
  them. The operands are what the conversions yield; one past the last fits of the array faults.
\<close>

fun op_fill :: "char list \<Rightarrow> nat \<Rightarrow> int list \<Rightarrow> char list result" where
  "op_fill msg i [] = Inr msg"
| "op_fill msg i (x # xs) = bindR (blit msg (i * 4 + 1) (int_bytes x)) (\<lambda>msg. op_fill msg (Suc i) xs)"

definition signed_char :: "int \<Rightarrow> int" where
  "signed_char n = (if n mod 256 < 128 then n mod 256 else n mod 256 - 256)"

definition op_client :: "int \<Rightarrow> int list \<Rightarrow> char \<Rightarrow> string result" where
  "op_client op_cnt xs op =
     bindR (store (replicate OP_BUF NUL) 0 (char_of (nat (op_cnt mod 256)))) (\<lambda>msg.
     bindR (op_fill msg 0 (take (nat op_cnt) xs)) (\<lambda>msg.
     bindR (store msg (op_cnt * 4 + 1) op) (\<lambda>msg.
       Inr (take (nat (op_cnt * 4 + 2)) msg))))"

text \<open>What the client makes of the reply: the four bytes as an \<open>int\<close>.\<close>

definition op_result :: "string \<Rightarrow> int" where
  "op_result reply = bytes_sint reply"

subsection \<open>The calculation\<close>

definition int_val :: "int \<Rightarrow> int result" where
  "int_val x = (if int_range x then Inr x else Inl (Int_Overflow x))"

text \<open>One step of the four loops; the quotient is rounded towards 0.\<close>

definition calc_step :: "char \<Rightarrow> int \<Rightarrow> int \<Rightarrow> int result" where
  "calc_step op r x =
     (if op = CHR ''+'' then int_val (r + x)
      else if op = CHR ''-'' then int_val (r - x)
      else if op = CHR ''*'' then int_val (r * x)
      else if op = CHR ''/'' then (if x = 0 then Inl Div_By_Zero else int_val (r sdiv x))
      else Inr r)"

text \<open>\<open>opnds[i]\<close> with \<open>opnds\<close> the start of the byte array.\<close>

definition opnd :: "char list \<Rightarrow> nat \<Rightarrow> int result" where
  "opnd msg i = (if 4 * i + 4 \<le> length msg then Inr (bytes_sint (take 4 (drop (4 * i) msg)))
                 else Inl (Bad_Load (int (4 * i))))"

fun calc_loop :: "char list \<Rightarrow> char \<Rightarrow> nat \<Rightarrow> nat \<Rightarrow> int \<Rightarrow> int result" where
  "calc_loop msg op i 0 ret = Inr ret"
| "calc_loop msg op i (Suc k) ret =
     bindR (opnd msg i) (\<lambda>x. bindR (calc_step op ret x) (\<lambda>r. calc_loop msg op (Suc i) k r))"

definition is_operator :: "char \<Rightarrow> bool" where
  "is_operator op \<longleftrightarrow> op \<in> {CHR ''+'', CHR ''-'', CHR ''*'', CHR ''/''}"

definition calc :: "int \<Rightarrow> char list \<Rightarrow> char \<Rightarrow> int result" where
  "calc op_cnt msg op =
     bindR (opnd msg 0) (\<lambda>ret.
       if is_operator op then calc_loop msg op 1 (nat (op_cnt - 1)) ret else Inr ret)"

subsection \<open>The server\<close>

definition SIZE_MAX1 :: int where "SIZE_MAX1 = 2 ^ 64"

text \<open>\<open>recv_len < (op_cnt * sizeof(int) + 1)\<close>, both sides converted to \<open>size_t\<close>.\<close>

definition op_more :: "int \<Rightarrow> int \<Rightarrow> bool" where
  "op_more recv_len op_cnt \<longleftrightarrow> recv_len mod SIZE_MAX1 < (op_cnt * 4 + 1) mod SIZE_MAX1"

datatype op_end =
    Op_Read int "char list" "recv_event list"
  | Op_Blocked

text \<open>
  The reading loop. An error counts as a length of -1, the end of the stream as 0: then the loop
  comes back to the same place, and it may not return at all (\<open>None\<close>).
\<close>

partial_function (option) op_read :: "int \<Rightarrow> int \<Rightarrow> char list \<Rightarrow> recv_event list \<Rightarrow> op_end result option" where
  "op_read op_cnt recv_len msg es =
     (if \<not> op_more recv_len op_cnt then Some (Inr (Op_Read recv_len msg es))
      else case brecv OP_BUF es of
        (Blocks, es') \<Rightarrow> Some (Inr Op_Blocked)
      | (Shut, es') \<Rightarrow> op_read op_cnt (recv_len + 0) msg es'
      | (Fails e, es') \<Rightarrow> op_read op_cnt (recv_len - 1) msg es'
      | (Got d, es') \<Rightarrow>
          (if recv_len < 0 then Some (Inl (Bad_Store recv_len))
           else if OP_BUF < nat recv_len + length d then Some (Inl (Bad_Store (int OP_BUF)))
           else op_read op_cnt (recv_len + int (length d))
                  (take (nat recv_len) msg @ d @ drop (nat recv_len + length d) msg) es'))"

datatype op_served = Served string int "char list" | Not_Served

text \<open>
  One client: the count byte (the variable keeps its value when nothing is read), the rest of the
  message, the calculation on it and the reply.
\<close>

definition op_count :: "int \<Rightarrow> recv_event list \<Rightarrow> (int \<times> recv_event list) option" where
  "op_count op_cnt es =
     (case brecv 1 es of
        (Got d, es') \<Rightarrow> Some (signed_char (int (of_char (hd d))), es')
      | (Shut, es') \<Rightarrow> Some (op_cnt, es')
      | (Fails e, es') \<Rightarrow> Some (op_cnt, es')
      | (Blocks, es') \<Rightarrow> None)"

definition op_reply :: "int \<Rightarrow> int \<Rightarrow> char list \<Rightarrow> op_served result" where
  "op_reply op_cnt recv_len msg =
     (if recv_len < 1 \<or> int (length msg) < recv_len then Inl (Bad_Load (recv_len - 1))
      else bindR (calc op_cnt msg (msg ! nat (recv_len - 1))) (\<lambda>ret.
        Inr (Served (int_bytes ret) op_cnt msg)))"

definition op_client_served :: "int \<Rightarrow> char list \<Rightarrow> recv_event list \<Rightarrow> op_served result option" where
  "op_client_served op_cnt msg es =
     (case op_count op_cnt es of
        None \<Rightarrow> Some (Inr Not_Served)
      | Some (cnt, es') \<Rightarrow>
          (case op_read cnt 0 msg es' of
             None \<Rightarrow> None
           | Some (Inl f) \<Rightarrow> Some (Inl f)
           | Some (Inr Op_Blocked) \<Rightarrow> Some (Inr Not_Served)
           | Some (Inr (Op_Read recv_len msg' es'')) \<Rightarrow> Some (op_reply cnt recv_len msg')))"

text \<open>
  The server: five rounds, \<open>accept\<close> giving a connection or an error. The variables \<open>op_cnt\<close> and
  \<open>op_msg\<close> live across the rounds. The replies are those sent so far; a round that blocks for ever
  is the last.
\<close>

fun op_rounds :: "nat \<Rightarrow> recv_event list option list \<Rightarrow> int \<Rightarrow> char list \<Rightarrow> string list result option" where
  "op_rounds 0 cs op_cnt msg = Some (Inr [])"
| "op_rounds (Suc k) [] op_cnt msg = Some (Inr [])"
| "op_rounds (Suc k) (None # cs) op_cnt msg = op_rounds k cs op_cnt msg"
| "op_rounds (Suc k) (Some es # cs) op_cnt msg =
     (case op_client_served op_cnt msg es of
        None \<Rightarrow> None
      | Some (Inl f) \<Rightarrow> Some (Inl f)
      | Some (Inr Not_Served) \<Rightarrow> Some (Inr [])
      | Some (Inr (Served r cnt msg')) \<Rightarrow>
          map_option (map_sum id ((#) r)) (op_rounds k cs cnt msg'))"

definition op_server_test :: "recv_event list option list \<Rightarrow> int \<Rightarrow> string list result option" where
  "op_server_test cs op_cnt0 = op_rounds 5 cs op_cnt0 (replicate OP_BUF NUL)"

subsection \<open>The calculation as a fold\<close>

primrec fold_op :: "char \<Rightarrow> int \<Rightarrow> int list \<Rightarrow> int result" where
  "fold_op op r [] = Inr r"
| "fold_op op r (x # xs) = bindR (calc_step op r x) (\<lambda>r'. fold_op op r' xs)"

definition operands :: "int list \<Rightarrow> string" where
  "operands xs = concat (List.map int_bytes xs)"

lemma length_operands [simp]: "length (operands xs) = 4 * length xs"
  by (induction xs) (simp_all add: operands_def)

lemma operands_simps [simp]:
  "operands [] = []"
  "operands (x # xs) = int_bytes x @ operands xs"
  "operands (xs @ ys) = operands xs @ operands ys"
  by (simp_all add: operands_def)

lemma take_operand: "i < length xs \<Longrightarrow> take 4 (drop (4 * i) (operands xs @ t)) = int_bytes (xs ! i)"
proof (induction xs arbitrary: i)
  case (Cons x xs)
  then show ?case by (cases i) simp_all
qed simp

lemma opnd_operands:
  assumes "i < length xs" and "list_all int_range xs"
  shows "opnd (operands xs @ t) i = Inr (xs ! i)"
  using assms take_operand[OF assms(1), of t] by (simp add: opnd_def list_all_length bytes_sint_bytes)

lemma calc_loop_fold:
  assumes "i + k = length xs" and "list_all int_range xs"
  shows "calc_loop (operands xs @ t) op i k r = fold_op op r (drop i xs)"
  using assms(1)
proof (induction k arbitrary: i r)
  case 0
  then show ?case by simp
next
  case (Suc k)
  then have "drop i xs = xs ! i # drop (Suc i) xs" by (simp add: Cons_nth_drop_Suc)
  moreover have "calc_loop (operands xs @ t) op (Suc i) k = (\<lambda>r'. fold_op op r' (drop (Suc i) xs))"
    using Suc by (intro ext) simp
  ultimately show ?case using Suc.prems assms(2) by (simp add: opnd_operands)
qed

lemma fold_op_other: "\<not> is_operator op \<Longrightarrow> fold_op op r xs = Inr r"
  by (induction xs) (auto simp: calc_step_def is_operator_def)

text \<open>
  \<open>calc\<close> on the bytes of a message is the fold of the operator over the numbers in it, first
  operand first, with every overflow and division by zero of the C program a fault; an unknown
  operator gives the first operand.
\<close>

theorem calc_is_fold:
  assumes "list_all int_range (x # xs)"
  shows "calc (int (length (x # xs))) (operands (x # xs) @ t) op = fold_op op x xs"
proof -
  have "calc_loop (operands (x # xs) @ t) op 1 (length xs) x = fold_op op x (drop 1 (x # xs))"
    using assms by (intro calc_loop_fold) simp_all
  moreover have "opnd (operands (x # xs) @ t) 0 = Inr x" using opnd_operands[OF _ assms, of 0] by simp
  ultimately show ?thesis by (simp add: calc_def fold_op_other del: operands_simps)
qed

theorem calc_is_fold_witness:
  "calc 3 (operands [7, -2, 5] @ ''*'') (CHR ''*'') = Inr (-70)"
  using calc_is_fold[of 7 "[-2, 5]" "''*''" "CHR ''*''"]
  by (simp add: int_range_def calc_step_def int_val_def del: operands_simps)

lemma calc_step_range: "calc_step op r x = Inr v \<Longrightarrow> int_range r \<Longrightarrow> int_range v"
  by (auto simp: calc_step_def int_val_def split: if_splits)

lemma fold_op_range: "fold_op op r xs = Inr v \<Longrightarrow> int_range r \<Longrightarrow> int_range v"
  by (induction xs arbitrary: r) (auto simp: bindR_eq_Inr dest: calc_step_range)

text \<open>
  A result is the arithmetic one: sum, difference and product over the integers whenever
  \<open>calc\<close> does not fault, and a sum that stays within \<open>int\<close> at every prefix does not.
\<close>

lemma fold_op_value:
  "fold_op (CHR ''+'') r xs = Inr v \<Longrightarrow> v = r + sum_list xs"
  "fold_op (CHR ''-'') r xs = Inr v \<Longrightarrow> v = r - sum_list xs"
  "fold_op (CHR ''*'') r xs = Inr v \<Longrightarrow> v = r * prod_list xs"
proof -
  have step: "calc_step op r x = Inr v \<Longrightarrow>
      (op = CHR ''+'' \<longrightarrow> v = r + x) \<and> (op = CHR ''-'' \<longrightarrow> v = r - x) \<and> (op = CHR ''*'' \<longrightarrow> v = r * x)" for op r x v
    by (auto simp: calc_step_def int_val_def split: if_splits)
  show "fold_op (CHR ''+'') r xs = Inr v \<Longrightarrow> v = r + sum_list xs"
    by (induction xs arbitrary: r) (fastforce simp: bindR_eq_Inr dest: step)+
  show "fold_op (CHR ''-'') r xs = Inr v \<Longrightarrow> v = r - sum_list xs"
    by (induction xs arbitrary: r) (fastforce simp: bindR_eq_Inr dest: step)+
  show "fold_op (CHR ''*'') r xs = Inr v \<Longrightarrow> v = r * prod_list xs"
    by (induction xs arbitrary: r) (fastforce simp: bindR_eq_Inr dest: step)+
qed

lemma fold_plus_ok:
  "\<forall>k \<le> length xs. int_range (r + sum_list (take k xs)) \<Longrightarrow> fold_op (CHR ''+'') r xs = Inr (r + sum_list xs)"
proof (induction xs arbitrary: r)
  case (Cons x xs)
  have "int_range (r + x + sum_list (take k xs))" if "k \<le> length xs" for k
    using Cons.prems[rule_format, of "Suc k"] that by (simp add: add.assoc)
  then have "fold_op (CHR ''+'') (r + x) xs = Inr (r + x + sum_list xs)" by (intro Cons.IH) simp
  moreover have "int_range (r + x)" using Cons.prems[rule_format, of 1] by simp
  ultimately show ?case by (simp add: calc_step_def int_val_def)
qed simp

subsection \<open>The client's message\<close>

definition op_message :: "int list \<Rightarrow> char \<Rightarrow> string" where
  "op_message xs op = char_of (length xs) # operands xs @ [op]"

lemma op_fill_operands:
  assumes "length p = 4 * i + 1" and "4 * length xs \<le> n"
  shows "op_fill (p @ replicate n NUL) i xs = Inr (p @ operands xs @ replicate (n - 4 * length xs) NUL)"
  using assms
proof (induction xs arbitrary: i p n)
  case Nil
  then show ?case by simp
next
  case (Cons x xs)
  have "blit (p @ replicate n NUL) (i * 4 + 1) (int_bytes x) = Inr ((p @ int_bytes x) @ replicate (n - 4) NUL)"
    using Cons.prems by (simp add: blit_def)
  moreover have "op_fill ((p @ int_bytes x) @ replicate (n - 4) NUL) (Suc i) xs
      = Inr ((p @ int_bytes x) @ operands xs @ replicate (n - 4 - 4 * length xs) NUL)"
    using Cons.prems by (intro Cons.IH) simp_all
  ultimately show ?case by simp
qed

lemma op_client_message:
  assumes "length xs \<le> 63"
  shows "op_client (int (length xs)) xs op = Inr (op_message xs op)"
proof -
  let ?c = "char_of (length xs) :: char"
  have "nat (int (length xs) mod 256) = length xs" using assms by simp
  then have "store (replicate OP_BUF NUL) 0 (char_of (nat (int (length xs) mod 256))) = Inr ([?c] @ replicate 255 NUL)"
    by (simp add: store_def OP_BUF_def replicate_Suc[of 255, simplified])
  moreover have "op_fill ([?c] @ replicate 255 NUL) 0 xs = Inr ([?c] @ operands xs @ replicate (255 - 4 * length xs) NUL)"
    using assms by (intro op_fill_operands) simp_all
  moreover have "store ([?c] @ operands xs @ replicate (255 - 4 * length xs) NUL) (int (length xs) * 4 + 1) op
      = Inr ((?c # operands xs) @ (replicate (255 - 4 * length xs) NUL)[0 := op])"
    using assms by (simp add: store_def nat_add_distrib nat_mult_distrib list_update_append)
  moreover have "(replicate (255 - 4 * length xs) NUL)[0 := op] = op # replicate (254 - 4 * length xs) NUL"
    using assms by (cases "255 - 4 * length xs") auto
  ultimately show ?thesis by (simp add: op_client_def op_message_def nat_add_distrib nat_mult_distrib)
qed

lemma op_fill_overrun:
  assumes "length msg = 256" and "i \<le> 63" and "63 < i + length xs"
  shows "op_fill msg i xs = Inl (Bad_Store 256)"
  using assms
proof (induction xs arbitrary: msg i)
  case Nil
  then show ?case by simp
next
  case (Cons x xs)
  show ?case
  proof (cases "i = 63")
    case True
    then show ?thesis using Cons.prems(1) by (simp add: blit_def)
  next
    case False
    then have "i \<le> 62" using Cons.prems(2) by simp
    then obtain msg' where m: "blit msg (i * 4 + 1) (int_bytes x) = Inr msg'" using Cons.prems(1) by (simp add: blit_def)
    then have "length msg' = 256" using Cons.prems(1) length_blit by fastforce
    then have "op_fill msg' (Suc i) xs = Inl (Bad_Store 256)"
      using Cons.prems(3) \<open>i \<le> 62\<close> by (intro Cons.IH) simp_all
    then show ?thesis using m by simp
  qed
qed

text \<open>
  The client holds 63 operands and no more: for every longer list it writes past its array.
\<close>

theorem op_client_capacity:
  "op_client (int (length xs)) xs op =
     (if length xs \<le> 63 then Inr (op_message xs op) else Inl (Bad_Store 256))"
proof (cases "length xs \<le> 63")
  case True
  then show ?thesis by (simp add: op_client_message)
next
  case False
  obtain msg where m: "store (replicate OP_BUF NUL) 0 (char_of (nat (int (length xs) mod 256))) = Inr msg" "length msg = 256"
    by (simp add: store_def OP_BUF_def)
  then have "op_fill msg 0 xs = Inl (Bad_Store 256)" using False by (intro op_fill_overrun) simp_all
  then show ?thesis using False m(1) by (simp add: op_client_def)
qed

subsection \<open>Collecting the message\<close>

lemma op_more_iff:
  assumes "0 \<le> r" and "r \<le> 1024" and "0 \<le> n" and "n < 128"
  shows "op_more r n \<longleftrightarrow> r < 4 * n + 1"
  using assms by (simp add: op_more_def SIZE_MAX1_def algebra_simps)

lemma op_more_neg:
  assumes "0 \<le> r" and "r \<le> 1024" and "n < 0" and "- 128 \<le> n"
  shows "op_more r n"
proof -
  have "(n * 4 + 1) mod 2 ^ 64 = n * 4 + 1 + 2 ^ 64"
    using assms by (intro int_mod_pos_eq[of _ _ "- 1"]) simp_all
  then show ?thesis using assms by (simp add: op_more_def SIZE_MAX1_def)
qed

lemma op_read_message:
  assumes "0 \<le> n" "n < 64" "0 \<le> r" "length msg = OP_BUF" "int (length (concat ds)) + r = 4 * n + 1"
  shows "\<exists>es'. op_read n r msg (List.map Data ds)
    = Some (Inr (Op_Read (4 * n + 1) (take (nat r) msg @ concat ds @ drop (nat (4 * n + 1)) msg) es'))"
  using assms(3-)
proof (induction "script_size (List.map Data ds)" arbitrary: ds r msg rule: less_induct)
  case less
  have "r \<le> 4 * n + 1" using less.prems(3) by simp
  then have "op_more r n \<longleftrightarrow> 0 < length (concat ds)"
    using op_more_iff[of r n] assms(1,2) less.prems by linarith
  then have more: "op_more r n \<longleftrightarrow> concat ds \<noteq> []" by (simp only: length_greater_0_conv)
  have "0 < OP_BUF" by (simp add: OP_BUF_def)
  from brecv_map_Data[OF this, of ds] consider
      (no_more) "concat ds = []"
    | (got) d ds' where "brecv OP_BUF (List.map Data ds) = (Got d, List.map Data ds')" "d \<noteq> []" "concat ds = d @ concat ds'"
    by blast
  then show ?case
  proof cases
    case no_more
    then have "\<not> op_more r n" "r = 4 * n + 1" using more less.prems(3) by (simp_all del: concat_eq_Nil_conv)
    then show ?thesis using no_more by (subst op_read.simps) (simp del: concat_eq_Nil_conv)
  next
    case got
    let ?msg = "take (nat r) msg @ d @ drop (nat r + length d) msg" and ?r = "r + int (length d)"
    have fits: "nat r + length d \<le> OP_BUF" using got(3) less.prems(1,3) assms(2) by (simp add: OP_BUF_def)
    have "op_read n r msg (List.map Data ds) = op_read n ?r ?msg (List.map Data ds')"
      using more got fits less.prems(1) by (subst op_read.simps) simp
    moreover have "script_size (List.map Data ds') < script_size (List.map Data ds)"
      using brecv_Got_size[OF got(1,2)] .
    moreover have "length ?msg = OP_BUF" using less.prems(2) fits by simp
    moreover have "int (length (concat ds')) + ?r = 4 * n + 1" using less.prems(3) got(3) by simp
    moreover have "take (nat ?r) ?msg = take (nat r) msg @ d" "nat ?r = nat r + length d"
      using less.prems(1,2) fits by (simp_all add: nat_add_distrib)
    moreover have "drop (nat (4 * n + 1)) ?msg = drop (nat (4 * n + 1)) msg"
      using less.prems got(3) fits by (simp add: nat_le_iff)
    ultimately show ?thesis using less.hyps[of ds' ?r ?msg] less.prems(1) got(3) by simp
  qed
qed

text \<open>A bound no message can reach: the loop reads until the array is full, then writes past it.\<close>

lemma op_read_unbounded:
  assumes "\<And>r. 0 \<le> r \<Longrightarrow> r \<le> int OP_BUF \<Longrightarrow> op_more r n" and "0 \<le> r" "r \<le> int OP_BUF" "length msg = OP_BUF"
  shows "op_read n r msg (List.map Data ds) =
    Some (if r + int (length (concat ds)) \<le> int OP_BUF then Inr Op_Blocked else Inl (Bad_Store (int OP_BUF)))"
  using assms(2-)
proof (induction "script_size (List.map Data ds)" arbitrary: ds r msg rule: less_induct)
  case less
  have more: "op_more r n" using assms(1) less.prems by simp
  have "0 < OP_BUF" by (simp add: OP_BUF_def)
  from brecv_map_Data[OF this, of ds] consider
      (no_more) "concat ds = []" "brecv OP_BUF (List.map Data ds) = (Blocks, [])"
    | (got) d ds' where "brecv OP_BUF (List.map Data ds) = (Got d, List.map Data ds')" "d \<noteq> []" "concat ds = d @ concat ds'"
    by blast
  then show ?case
  proof cases
    case no_more
    then show ?thesis using more less.prems(2) by (subst op_read.simps) (simp del: concat_eq_Nil_conv)
  next
    case got
    let ?msg = "take (nat r) msg @ d @ drop (nat r + length d) msg" and ?r = "r + int (length d)"
    show ?thesis
    proof (cases "OP_BUF < nat r + length d")
      case True
      moreover from this have "int OP_BUF < r + int (length (concat ds))" using got(3) less.prems(1) by simp
      ultimately show ?thesis using more got less.prems(1) by (subst op_read.simps) simp
    next
      case False
      then have "op_read n r msg (List.map Data ds) = op_read n ?r ?msg (List.map Data ds')"
        using more got less.prems(1) by (subst op_read.simps) simp
      moreover have "length ?msg = OP_BUF" using less.prems(3) False by simp
      ultimately show ?thesis
        using less.hyps[of ds' ?r ?msg] brecv_Got_size[OF got(1,2)] less.prems(1) False got(3) by simp
    qed
  qed
qed

text \<open>A loop that comes back to the same place does not return.\<close>

lemma op_read_eof:
  assumes "op_more r n"
  shows "op_read n r msg (Eof # es) = None"
proof (rule ccontr)
  assume "op_read n r msg (Eof # es) \<noteq> None"
  then obtain y where y: "op_read n r msg (Eof # es) = Some y" by blast
  have "s \<noteq> Eof # es \<or> \<not> op_more r n" if "op_read n r msg s = Some y" for n r msg s y
  proof (rule op_read.raw_induct[where P = "\<lambda>n r msg s y. s \<noteq> Eof # es \<or> \<not> op_more r n", OF _ that], goal_cases)
    case (1 f n r msg s y)
    then show ?case by (auto split: if_splits)
  qed
  from this[OF y] show False using assms by simp
qed

lemma op_count_data:
  assumes "concat ds = c # rest"
  shows "\<exists>ds'. op_count cnt (List.map Data ds) = Some (signed_char (int (of_char c)), List.map Data ds') \<and> concat ds' = rest"
proof -
  from brecv_map_Data[of 1 ds] obtain d ds' where b: "brecv 1 (List.map Data ds) = (Got d, List.map Data ds')"
    "d \<noteq> []" "concat ds = d @ concat ds'"
    using assms by auto
  have "length d \<le> 1" using brecv_Got[OF b(1)] by simp
  then have "d = [hd d]" using b(2) by (cases d) simp_all
  then have "hd d = c" "concat ds' = rest" using b(3) assms by (metis append_Cons append_Nil list.inject)+
  then show ?thesis using b(1) by (intro exI[of _ ds']) (simp add: op_count_def)
qed

subsection \<open>Serving\<close>

lemma signed_char_bound: "- 128 \<le> signed_char n" "signed_char n < 128"
  unfolding signed_char_def by presburger+

lemma signed_char_small: "n < 128 \<Longrightarrow> signed_char (int (of_char (char_of n :: char))) = int n"
  by (simp add: signed_char_def)

lemma length_op_message [simp]: "length (op_message xs op) = 4 * length xs + 2"
  by (simp add: op_message_def)

lemma op_client_served_message:
  assumes "xs \<noteq> []" "length xs \<le> 63" "list_all int_range xs" "length msg = OP_BUF"
    and "concat ds = op_message xs op"
  shows "op_client_served cnt msg (List.map Data ds) =
    Some (map_sum id (\<lambda>r. Served (int_bytes r) (int (length xs)) (operands xs @ op # drop (4 * length xs + 1) msg))
      (fold_op op (hd xs) (tl xs)))"
proof -
  let ?n = "int (length xs)" and ?msg = "operands xs @ op # drop (4 * length xs + 1) msg"
  obtain ds' where c: "op_count cnt (List.map Data ds) = Some (?n, List.map Data ds')" "concat ds' = operands xs @ [op]"
    using op_count_data[of ds "char_of (length xs)" "operands xs @ [op]" cnt] assms(2,5)
      signed_char_small[of "length xs"] by (auto simp: op_message_def)
  have "nat (4 * ?n + 1) = 4 * length xs + 1" by (simp add: nat_add_distrib nat_mult_distrib)
  then obtain es' where r: "op_read ?n 0 msg (List.map Data ds') = Some (Inr (Op_Read (4 * ?n + 1) ?msg es'))"
    using op_read_message[of ?n 0 msg ds'] assms(2,4) c(2) by auto
  have "calc ?n ?msg op = fold_op op (hd xs) (tl xs)"
    using calc_is_fold[of "hd xs" "tl xs" "op # drop (4 * length xs + 1) msg" op] assms(1,3)
    by (simp del: operands_simps)
  moreover have "?msg ! nat (4 * ?n + 1 - 1) = op" "4 * ?n + 1 \<le> int (length ?msg)"
    using assms(2,4) by (simp_all add: nth_append nat_mult_distrib OP_BUF_def)
  ultimately have "op_reply ?n (4 * ?n + 1) ?msg
      = map_sum id (\<lambda>r. Served (int_bytes r) ?n ?msg) (fold_op op (hd xs) (tl xs))"
    by (cases "fold_op op (hd xs) (tl xs)") (simp_all add: op_reply_def)
  then show ?thesis using c(1) r by (simp add: op_client_served_def)
qed

text \<open>
  C7. Client and server agree: whatever the socket makes of the client's message on the way, the
  number the client reads back is the value of the operator folded over its operands.
\<close>

theorem calculator_roundtrip:
  assumes "xs \<noteq> []" "length xs \<le> 63" "list_all int_range xs" "length msg = OP_BUF"
    and "op_client (int (length xs)) xs op = Inr sent" "concat ds = sent"
    and "fold_op op (hd xs) (tl xs) = Inr v"
  shows "\<exists>reply msg'. op_client_served cnt msg (List.map Data ds) = Some (Inr (Served reply (int (length xs)) msg'))
    \<and> op_result reply = v \<and> length msg' = OP_BUF"
proof -
  have "concat ds = op_message xs op" using assms(2,5,6) by (simp add: op_client_message)
  then have "op_client_served cnt msg (List.map Data ds)
      = Some (Inr (Served (int_bytes v) (int (length xs)) (operands xs @ op # drop (4 * length xs + 1) msg)))"
    using op_client_served_message[OF assms(1-4)] assms(7) by simp
  moreover have "int_range (hd xs)" using assms(1,3) by (cases xs) simp_all
  then have "op_result (int_bytes v) = v"
    using fold_op_range[OF assms(7)] by (simp add: op_result_def bytes_sint_bytes)
  ultimately show ?thesis using assms(2,4) by (simp add: OP_BUF_def)
qed

theorem calculator_roundtrip_witness:
  "\<exists>sent. op_client 3 [20, -6, 4] (CHR ''/'') = Inr sent \<and>
    (\<exists>reply msg'. op_client_served 0 (replicate OP_BUF NUL) (List.map Data [take 5 sent, drop 5 sent])
      = Some (Inr (Served reply 3 msg')) \<and> op_result reply = 0)"
proof -
  have c: "op_client (int (length [20 :: int, -6, 4])) [20, -6, 4] (CHR ''/'') = Inr (op_message [20, -6, 4] (CHR ''/''))"
    by (rule op_client_message) simp
  have "fold_op (CHR ''/'') (hd [20, -6, 4]) (tl [20, -6, 4]) = Inr 0"
    by (simp add: calc_step_def int_val_def int_range_def signed_divide_int_def)
  from calculator_roundtrip[OF _ _ _ _ c _ this, of "replicate OP_BUF NUL"
      "[take 5 (op_message [20, -6, 4] (CHR ''/'')), drop 5 (op_message [20, -6, 4] (CHR ''/''))]" 0]
  show ?thesis using c by (auto simp: int_range_def)
qed

text \<open>A client that follows the protocol, with what it asks and the value it is owed.\<close>

definition op_honest :: "int list \<times> char \<times> int \<Rightarrow> string list \<Rightarrow> bool" where
  "op_honest q ds = (case q of (xs, op, v) \<Rightarrow>
     xs \<noteq> [] \<and> length xs \<le> 63 \<and> list_all int_range xs \<and> concat ds = op_message xs op
     \<and> fold_op op (hd xs) (tl xs) = Inr v)"

lemma op_rounds_honest:
  assumes "list_all2 op_honest qs dss" and "length msg = OP_BUF"
  shows "op_rounds k (List.map (\<lambda>ds. Some (List.map Data ds)) dss) cnt msg =
    Some (Inr (List.map (\<lambda>(xs, op, v). int_bytes v) (take k qs)))"
  using assms
proof (induction k arbitrary: qs dss cnt msg)
  case 0
  then show ?case by simp
next
  case (Suc k)
  show ?case
  proof (cases dss)
    case Nil
    then show ?thesis using Suc.prems(1) by simp
  next
    case (Cons ds dss')
    then obtain xs op v qs' where q: "qs = (xs, op, v) # qs'" "op_honest (xs, op, v) ds" "list_all2 op_honest qs' dss'"
      using Suc.prems(1) by (auto simp: list_all2_Cons2)
    let ?msg = "operands xs @ op # drop (4 * length xs + 1) msg"
    have "length ?msg = OP_BUF" using q(2) Suc.prems(2) by (simp add: op_honest_def OP_BUF_def)
    moreover have "op_client_served cnt msg (List.map Data ds) = Some (Inr (Served (int_bytes v) (int (length xs)) ?msg))"
      using op_client_served_message[of xs msg ds op cnt] q(2) Suc.prems(2) by (simp add: op_honest_def)
    ultimately show ?thesis
      using Suc.IH[OF q(3), of ?msg "int (length xs)"] unfolding Cons q(1) by simp
  qed
qed

text \<open>
  The five rounds: clients that follow the protocol are answered in the order they are
  accepted, each with its own value, and after five the server is done.
\<close>

theorem op_server_answers:
  assumes "list_all2 op_honest qs dss"
  shows "op_server_test (List.map (\<lambda>ds. Some (List.map Data ds)) dss) cnt0
    = Some (Inr (List.map (\<lambda>(xs, op, v). int_bytes v) (take 5 qs)))"
  unfolding op_server_test_def by (rule op_rounds_honest[OF assms]) simp

theorem op_server_answers_witness:
  "op_server_test [Some [Data (op_message [40, 2] (CHR ''+''))], Some [Data (op_message [7] (CHR ''?''))]] 0
    = Some (Inr [int_bytes 42, int_bytes 7])"
  using op_server_answers[of "[([40, 2], CHR ''+'', 42), ([7], CHR ''?'', 7)]"
      "[[op_message [40, 2] (CHR ''+'')], [op_message [7] (CHR ''?'')]]" 0]
  by (simp add: op_honest_def int_range_def calc_step_def int_val_def)

text \<open>
  A count byte the array has no room for (64 and above, or negative as a \<open>char\<close>) never gets an
  answer: up to 256 further bytes the server waits for more, beyond them it writes past its array.
\<close>

theorem op_count_unchecked:
  assumes "signed_char (int (of_char c)) < 0 \<or> 64 \<le> signed_char (int (of_char c))"
    and "length msg = OP_BUF" and "concat ds = c # rest"
  shows "op_client_served cnt msg (List.map Data ds) =
    Some (if length rest \<le> OP_BUF then Inr Not_Served else Inl (Bad_Store (int OP_BUF)))"
proof -
  let ?n = "signed_char (int (of_char c))"
  note n = signed_char_bound[of "int (of_char c)"]
  have "op_more r ?n" if "0 \<le> r" "r \<le> int OP_BUF" for r
    using assms(1) op_more_neg[of r ?n] op_more_iff[of r ?n] that n by (auto simp: OP_BUF_def)
  moreover obtain ds' where "op_count cnt (List.map Data ds) = Some (?n, List.map Data ds')" "concat ds' = rest"
    using op_count_data[OF assms(3)] by blast
  ultimately show ?thesis
    using op_read_unbounded[of ?n 0 msg ds'] assms(2) by (auto simp: op_client_served_def OP_BUF_def)
qed

theorem op_count_unchecked_witness:
  "op_client_served 0 (replicate OP_BUF NUL) [Data [CHR 0xFF], Data ''abc''] = Some (Inr Not_Served)"
  using op_count_unchecked[of "CHR 0xFF" "replicate OP_BUF NUL" "[[CHR 0xFF], ''abc'']" "''abc''" 0]
  by (simp add: signed_char_def OP_BUF_def)

text \<open>
  Two ways a peer stops the server: closing the connection in the middle of a message leaves the
  reading loop turning for ever, and an error before the first byte of it makes the received length
  negative, which the unsigned comparison takes for enough, so that the operator is read from
  before the array.
\<close>

theorem op_server_stuck:
  assumes "0 \<le> signed_char (int (of_char c))"
  shows "op_client_served cnt msg [Data [c], Eof] = None
    \<and> op_client_served cnt msg [Data [c], Err e] = Some (Inl (Bad_Load (- 2)))"
proof -
  let ?n = "signed_char (int (of_char c))"
  note n = signed_char_bound(2)[of "int (of_char c)"]
  have count: "op_count cnt (Data [c] # es) = Some (?n, es)" for es by (simp add: op_count_def)
  have more: "op_more 0 ?n" using op_more_iff[of 0 ?n] assms n by simp
  have "\<not> op_more (- 1) ?n" using assms n by (simp add: op_more_def SIZE_MAX1_def)
  then have "op_read ?n (- 1) msg [] = Some (Inr (Op_Read (- 1) msg []))" by (subst op_read.simps) simp
  then have "op_read ?n 0 msg [Err e] = Some (Inr (Op_Read (- 1) msg []))"
    using more by (subst op_read.simps) simp
  then have "op_client_served cnt msg [Data [c], Err e] = Some (Inl (Bad_Load (- 2)))"
    using count[of "[Err e]"] by (simp add: op_client_served_def op_reply_def)
  moreover have "op_client_served cnt msg [Data [c], Eof] = None"
    using count[of "[Eof]"] op_read_eof[OF more, of msg "[]"] by (simp add: op_client_served_def)
  ultimately show ?thesis by simp
qed

theorem op_server_stuck_witness:
  "op_client_served 0 (replicate OP_BUF NUL) [Data [CHR 0x02], Eof] = None"
  using op_server_stuck[of "CHR 0x02" 0 "replicate OP_BUF NUL"] by (simp add: signed_char_def)

end
