(* ===== verification/Echo.thy ===== *)
theory Echo
  imports C_Io
begin

text \<open>
  The echo programs. Over TCP: the server and the first client of src/34_tcp_server_client_1/main.cpp
  and the client of src/35_tcp_server_client_2/main.cpp that collects as many bytes as it sent. Over
  UDP: the programs of src/36_udp_server_client/main.cpp. Standard input and what arrives on the
  socket are scripts; what a program writes and prints is its result.
\<close>

definition ECHO_BUF :: nat where "ECHO_BUF = 256"

subsection \<open>The TCP server\<close>

text \<open>
  \<open>while (len = read(...)) write(...)\<close>: an error is not 0, and the write of -1 bytes that follows
  it fails without a trace. The flag says whether the loop ended.
\<close>

function echo_conn :: "recv_event list \<Rightarrow> string list \<times> bool" where
  "echo_conn es =
     (case brecv ECHO_BUF es of
        (Blocks, es') \<Rightarrow> ([], False)
      | (Shut, es') \<Rightarrow> ([], True)
      | (Fails e, es') \<Rightarrow> echo_conn es'
      | (Got d, es') \<Rightarrow> (if d = [] then ([], True) else (let (ws, fin) = echo_conn es' in (d # ws, fin))))"
  by pat_completeness auto
termination
  by (relation "measure script_size") (auto dest: brecv_Got_size[OF sym] brecv_Fails[OF sym])

declare echo_conn.simps [simp del]

text \<open>Five rounds; a connection that never ends keeps the ones after it waiting.\<close>

fun echo_rounds :: "nat \<Rightarrow> recv_event list option list \<Rightarrow> string list list" where
  "echo_rounds 0 cs = []"
| "echo_rounds (Suc k) [] = []"
| "echo_rounds (Suc k) (None # cs) = echo_rounds k cs"
| "echo_rounds (Suc k) (Some es # cs) =
     (let (ws, fin) = echo_conn es in if fin then ws # echo_rounds k cs else [ws])"

definition echo_server_test :: "recv_event list option list \<Rightarrow> string list list" where
  "echo_server_test cs = echo_rounds 5 cs"

subsection \<open>The TCP clients\<close>

record echo_client =
  ec_in :: string
  ec_msg :: "char list"
  ec_sock :: "recv_event list"

definition echo_start :: "string \<Rightarrow> recv_event list \<Rightarrow> echo_client" where
  "echo_start inp es = \<lparr>ec_in = inp, ec_msg = replicate ECHO_BUF NUL, ec_sock = es\<rparr>"

text \<open>A turn of the loop: what was sent, what was printed, or that the program left or waits.\<close>

datatype echo_turn =
    Quits
  | Waits string
  | Turn string string echo_client

definition is_quit :: "char list \<Rightarrow> bool" where
  "is_quit msg \<longleftrightarrow> msg ! 0 = CHR ''q'' \<or> msg ! 0 = CHR ''Q''"

definition echo_print :: "string \<Rightarrow> char list \<Rightarrow> int \<Rightarrow> string \<Rightarrow> recv_event list \<Rightarrow> echo_turn result" where
  "echo_print sent msg len inp es =
     bindR (store msg len NUL) (\<lambda>msg.
     bindR (cstr msg 0) (\<lambda>t.
       Inr (Turn sent (''msg from server '' @ t @ [LF]) \<lparr>ec_in = inp, ec_msg = msg, ec_sock = es\<rparr>)))"

text \<open>One \<open>read\<close> for every line (src/34).\<close>

definition echo_client_turn :: "echo_client \<Rightarrow> echo_turn result" where
  "echo_client_turn c =
     bindR (fgets (ec_msg c) ECHO_BUF (ec_in c)) (\<lambda>(msg, inp).
       if is_quit msg then Inr Quits
       else bindR (cstr msg 0) (\<lambda>sent.
         case brecv ECHO_BUF (ec_sock c) of
           (Blocks, es) \<Rightarrow> Inr (Waits sent)
         | (Shut, es) \<Rightarrow> echo_print sent msg 0 inp es
         | (Fails e, es) \<Rightarrow> echo_print sent msg (- 1) inp es
         | (Got d, es) \<Rightarrow> bindR (blit msg 0 d) (\<lambda>msg. echo_print sent msg (int (length d)) inp es)))"

text \<open>
  As many bytes as were sent (src/35). An error breaks the loop, the end of the stream does not: then
  the loop does not return.
\<close>

datatype collected =
    Collected nat "char list" "recv_event list"
  | Collect_Waits

partial_function (option) echo_collect :: "nat \<Rightarrow> nat \<Rightarrow> char list \<Rightarrow> recv_event list \<Rightarrow> collected result option" where
  "echo_collect str_len recv_len msg es =
     (if str_len \<le> recv_len then Some (Inr (Collected recv_len msg es))
      else case brecv ECHO_BUF es of
        (Blocks, es') \<Rightarrow> Some (Inr Collect_Waits)
      | (Shut, es') \<Rightarrow> echo_collect str_len recv_len msg es'
      | (Fails e, es') \<Rightarrow> Some (Inr (Collected recv_len msg es'))
      | (Got d, es') \<Rightarrow>
          (if length msg < recv_len + length d then Some (Inl (Bad_Store (int (length msg))))
           else echo_collect str_len (recv_len + length d)
                  (take recv_len msg @ d @ drop (recv_len + length d) msg) es'))"

definition echo_client2_turn :: "echo_client \<Rightarrow> echo_turn result option" where
  "echo_client2_turn c =
     (case fgets (ec_msg c) ECHO_BUF (ec_in c) of
        Inl f \<Rightarrow> Some (Inl f)
      | Inr (msg, inp) \<Rightarrow>
          if is_quit msg then Some (Inr Quits)
          else (case cstr msg 0 of
             Inl f \<Rightarrow> Some (Inl f)
           | Inr sent \<Rightarrow>
               map_option
                 (\<lambda>r. bindR r (\<lambda>k. case k of
                    Collect_Waits \<Rightarrow> Inr (Waits sent)
                  | Collected n msg es \<Rightarrow> echo_print sent msg (int n) inp es))
                 (echo_collect (length sent) 0 msg (ec_sock c))))"

subsection \<open>Datagrams\<close>

text \<open>
  A datagram has a sender and a text; \<open>recvfrom\<close> takes the next one and drops what does not fit, so
  that one call is one datagram.
\<close>

datatype dgram_event = Dgram nat string | Dgram_Err

definition dgram_take :: "string \<Rightarrow> string" where
  "dgram_take d = take ECHO_BUF d"

text \<open>
  The server's endless loop: the replies, each to the sender of the datagram. After an error the
  \<open>sendto\<close> of -1 bytes fails.
\<close>

fun udp_echo_server :: "dgram_event list \<Rightarrow> (nat \<times> string) list" where
  "udp_echo_server [] = []"
| "udp_echo_server (Dgram_Err # es) = udp_echo_server es"
| "udp_echo_server (Dgram a d # es) = (a, dgram_take d) # udp_echo_server es"

record udp_client =
  uc_in :: string
  uc_buf :: "char list"
  uc_sock :: "dgram_event list"

datatype udp_turn =
    U_Quits
  | U_Waits string
  | U_Turn string "nat option" string udp_client

definition udp_print :: "string \<Rightarrow> nat option \<Rightarrow> char list \<Rightarrow> int \<Rightarrow> string \<Rightarrow> dgram_event list \<Rightarrow> udp_turn result" where
  "udp_print sent from buf len inp es =
     bindR (store buf len NUL) (\<lambda>buf.
     bindR (cstr buf 0) (\<lambda>t.
       Inr (U_Turn sent from (''msg from server: '' @ t @ [LF]) \<lparr>uc_in = inp, uc_buf = buf, uc_sock = es\<rparr>)))"

definition udp_client_turn :: "udp_client \<Rightarrow> udp_turn result" where
  "udp_client_turn c =
     bindR (fgets (uc_buf c) ECHO_BUF (uc_in c)) (\<lambda>(buf, inp).
       if is_quit buf then Inr U_Quits
       else bindR (cstr buf 0) (\<lambda>sent.
         case uc_sock c of
           [] \<Rightarrow> Inr (U_Waits sent)
         | Dgram_Err # es \<Rightarrow> udp_print sent None buf (- 1) inp es
         | Dgram a d # es \<Rightarrow>
             bindR (blit buf 0 (dgram_take d)) (\<lambda>buf.
               udp_print sent (Some a) buf (int (length (dgram_take d))) inp es)))"

text \<open>
  The connected client forgets to take the length \<open>read\<close> returns: the terminator goes to the place
  its uninitialised variable names, here a parameter. The kernel delivers only datagrams of the
  server, number 0.
\<close>

fun connected :: "dgram_event list \<Rightarrow> dgram_event list" where
  "connected [] = []"
| "connected (Dgram_Err # es) = Dgram_Err # es"
| "connected (Dgram a d # es) = (if a = 0 then Dgram a d # es else connected es)"

definition udp_connect_turn :: "int \<Rightarrow> udp_client \<Rightarrow> udp_turn result" where
  "udp_connect_turn len c =
     bindR (fgets (uc_buf c) ECHO_BUF (uc_in c)) (\<lambda>(buf, inp).
       if is_quit buf then Inr U_Quits
       else bindR (cstr buf 0) (\<lambda>sent.
         case connected (uc_sock c) of
           [] \<Rightarrow> Inr (U_Waits sent)
         | Dgram_Err # es \<Rightarrow> udp_print sent None buf len inp es
         | Dgram a d # es \<Rightarrow>
             bindR (blit buf 0 (dgram_take d)) (\<lambda>buf. udp_print sent None buf len inp es)))"

text \<open>The server that reads three datagrams, and the client that sends them.\<close>

fun udp_bound_loop :: "nat \<Rightarrow> char list \<Rightarrow> dgram_event list \<Rightarrow> string list result" where
  "udp_bound_loop 0 buf es = Inr []"
| "udp_bound_loop (Suc k) buf [] = Inr []"
| "udp_bound_loop (Suc k) buf (Dgram_Err # es) = Inl (Bad_Store (- 1))"
| "udp_bound_loop (Suc k) buf (Dgram a d # es) =
     bindR (blit buf 0 (dgram_take d)) (\<lambda>buf.
     bindR (store buf (int (length (dgram_take d))) NUL) (\<lambda>buf.
     bindR (cstr buf 0) (\<lambda>t.
     bindR (udp_bound_loop k buf es) (\<lambda>ts. Inr (t # ts)))))"

definition udp_bound_server :: "dgram_event list \<Rightarrow> string list result" where
  "udp_bound_server es = udp_bound_loop 3 (replicate ECHO_BUF NUL) es"

definition udp_bound_client :: "string list" where
  "udp_bound_client = [''hello'' @ [NUL], ''world'' @ [NUL], ''!!!'' @ [NUL]]"

subsection \<open>What the server sends back\<close>

fun stream_data :: "recv_event list \<Rightarrow> string" where
  "stream_data [] = []"
| "stream_data (Data d # es) = d @ stream_data es"
| "stream_data (Err e # es) = stream_data es"
| "stream_data (Eof # es) = []"

lemma brecv_stream:
  "brecv n es = (r, es') \<Longrightarrow> 0 < n \<Longrightarrow>
   (case r of
      Got d \<Rightarrow> d \<noteq> [] \<and> length d \<le> n \<and> stream_data es = d @ stream_data es' \<and> (Eof \<in> set es \<longleftrightarrow> Eof \<in> set es')
    | Fails e \<Rightarrow> stream_data es = stream_data es' \<and> (Eof \<in> set es \<longleftrightarrow> Eof \<in> set es')
    | Shut \<Rightarrow> stream_data es = [] \<and> Eof \<in> set es
    | Blocks \<Rightarrow> stream_data es = [] \<and> Eof \<notin> set es)"
proof (induction n es rule: brecv.induct)
  case (4 n d es)
  then show ?case by (cases "d = []") (auto split: if_splits brecv_ret.splits)
qed auto

lemma echo_conn_stream:
  "concat (fst (echo_conn es)) = stream_data es \<and> (snd (echo_conn es) \<longleftrightarrow> Eof \<in> set es)
   \<and> (\<forall>w \<in> set (fst (echo_conn es)). w \<noteq> [] \<and> length w \<le> ECHO_BUF)"
proof (induction es rule: echo_conn.induct)
  case (1 es)
  obtain r es' where r: "brecv ECHO_BUF es = (r, es')" by fastforce
  have n: "0 < ECHO_BUF" by (simp add: ECHO_BUF_def)
  note s = brecv_stream[OF r n]
  show ?case
  proof (cases r)
    case (Got d)
    then have "d \<noteq> []" using s by simp
    then have "echo_conn es = (d # fst (echo_conn es'), snd (echo_conn es'))"
      using r Got by (subst echo_conn.simps) (simp add: Let_def split: prod.split)
    then show ?thesis using 1(1)[OF r[symmetric] Got \<open>d \<noteq> []\<close>] s Got by simp
  next
    case Shut
    then show ?thesis using r s by (subst (1 2 3) echo_conn.simps) simp
  next
    case (Fails e)
    then have "echo_conn es = echo_conn es'" using r by (subst echo_conn.simps) simp
    then show ?thesis using 1(2)[OF r[symmetric] Fails] s Fails by simp
  next
    case Blocks
    then show ?thesis using r s by (subst (1 2 3) echo_conn.simps) simp
  qed
qed

lemma echo_rounds_all:
  "\<forall>es. Some es \<in> set cs \<longrightarrow> Eof \<in> set es \<Longrightarrow>
   List.map concat (echo_rounds k cs) = List.map stream_data (List.map the (filter (\<lambda>c. c \<noteq> None) (take k cs)))"
proof (induction k cs rule: echo_rounds.induct)
  case (4 k es cs)
  obtain ws fin where c: "echo_conn es = (ws, fin)" by fastforce
  have "fin" "concat ws = stream_data es" using echo_conn_stream[of es] 4(2) c by auto
  then show ?case using c 4(1)[OF c[symmetric] refl] 4(2) by auto
qed auto

text \<open>
  The echo server gives every client back the bytes it sent, in their order, whatever the reads
  made of them: when the connections it accepts are all closed in the end, the answers of the five
  rounds are the data of the connections accepted in them.
\<close>

theorem echo_server_echoes:
  assumes "\<forall>es. Some es \<in> set cs \<longrightarrow> Eof \<in> set es"
  shows "List.map concat (echo_server_test cs) = List.map stream_data (List.map the (filter (\<lambda>c. c \<noteq> None) (take 5 cs)))"
  unfolding echo_server_test_def by (rule echo_rounds_all[OF assms])

theorem echo_server_echoes_witness:
  "List.map concat (echo_server_test [Some [Data ''ab'', Data ''c'', Eof], None, Some [Data ''x'', Eof]]) = [''abc'', ''x'']"
  by (subst echo_server_echoes) auto

subsection \<open>The clients against the server\<close>

definition line_ok :: "string \<Rightarrow> bool" where
  "line_ok l \<longleftrightarrow> LF \<notin> set l \<and> NUL \<notin> set l \<and> length l + 2 \<le> ECHO_BUF \<and> \<not> is_quit (l @ [LF])"

lemma line_fgets:
  assumes "line_ok l" and "length b = ECHO_BUF"
  shows "\<exists>b'. fgets b ECHO_BUF (l @ LF # rest) = Inr (b', rest) \<and> length b' = ECHO_BUF
    \<and> cstr b' 0 = Inr (l @ [LF]) \<and> \<not> is_quit b'"
proof -
  obtain b' where b': "fgets b ECHO_BUF (l @ LF # rest) = Inr (b', rest)" "length b' = ECHO_BUF" "cstr b' 0 = Inr (l @ [LF])"
    using fgets_line[of l ECHO_BUF b rest] assms by (auto simp: line_ok_def)
  moreover have "b' ! 0 = (l @ [LF]) ! 0" using cstr_nth[OF b'(3), of 0] by simp
  ultimately show ?thesis using assms(1) by (auto simp: line_ok_def is_quit_def)
qed

lemma quit_fgets:
  assumes "l \<in> {''q'', ''Q''}" and "length b = ECHO_BUF"
  shows "\<exists>b'. fgets b ECHO_BUF (l @ LF # rest) = Inr (b', rest) \<and> is_quit b'"
proof -
  obtain b' where b': "fgets b ECHO_BUF (l @ LF # rest) = Inr (b', rest)" "cstr b' 0 = Inr (l @ [LF])"
    using fgets_line[of l ECHO_BUF b rest] assms by (auto simp: ECHO_BUF_def)
  moreover have "b' ! 0 = (l @ [LF]) ! 0" using cstr_nth[OF b'(2), of 0] by simp
  ultimately show ?thesis using assms(1) by (auto simp: is_quit_def)
qed

lemma echo_collect_chunks:
  assumes "[] \<notin> set ds" "recv_len + length (concat ds) = str_len" "str_len \<le> ECHO_BUF" "length msg = ECHO_BUF"
  shows "echo_collect str_len recv_len msg (List.map Data ds @ es)
    = Some (Inr (Collected str_len (take recv_len msg @ concat ds @ drop str_len msg) es))"
  using assms
proof (induction ds arbitrary: recv_len msg)
  case Nil
  then show ?case by (subst echo_collect.simps) simp
next
  case (Cons d ds)
  let ?msg = "take recv_len msg @ d @ drop (recv_len + length d) msg"
  have d: "d \<noteq> []" "length d \<le> ECHO_BUF" "recv_len < str_len" "recv_len + length d \<le> length msg"
    using Cons.prems by auto
  have "echo_collect str_len recv_len msg (List.map Data (d # ds) @ es)
      = echo_collect str_len (recv_len + length d) ?msg (List.map Data ds @ es)"
    using d by (subst echo_collect.simps) (simp add: ECHO_BUF_def)
  also have "\<dots> = Some (Inr (Collected str_len (take (recv_len + length d) ?msg @ concat ds @ drop str_len ?msg) es))"
    using Cons.prems d by (intro Cons.IH) simp_all
  also have "take (recv_len + length d) ?msg = take recv_len msg @ d" using d(4) by simp
  also have "drop str_len ?msg = drop str_len msg" using Cons.prems d by simp
  finally show ?case by simp
qed

lemma echo_print_text:
  assumes "length t < length msg" and "NUL \<notin> set t" and "take (length t) msg = t"
  shows "\<exists>msg'. echo_print sent msg (int (length t)) inp es =
      Inr (Turn sent (''msg from server '' @ t @ [LF]) \<lparr>ec_in = inp, ec_msg = msg', ec_sock = es\<rparr>)
    \<and> length msg' = length msg"
proof -
  have "msg[length t := NUL] = t @ NUL # drop (Suc (length t)) msg"
    using assms(1,3) by (simp add: upd_conv_take_nth_drop)
  then have "cstr (msg[length t := NUL]) 0 = Inr t" using assms(2) by (auto simp: cstr_iff)
  then show ?thesis using assms(1) by (simp add: echo_print_def)
qed

lemma echo_client2_line:
  assumes "line_ok l" "length (ec_msg c) = ECHO_BUF" "ec_in c = l @ LF # rest"
    and "ec_sock c = List.map Data ds @ es" "[] \<notin> set ds" "concat ds = l @ [LF]"
  shows "\<exists>msg'. echo_client2_turn c = Some (Inr (Turn (l @ [LF]) (''msg from server '' @ l @ [LF, LF])
      \<lparr>ec_in = rest, ec_msg = msg', ec_sock = es\<rparr>)) \<and> length msg' = ECHO_BUF"
proof -
  obtain b where b: "fgets (ec_msg c) ECHO_BUF (ec_in c) = Inr (b, rest)" "length b = ECHO_BUF"
    "cstr b 0 = Inr (l @ [LF])" "\<not> is_quit b"
    using line_fgets[OF assms(1,2)] assms(3) by auto
  have n: "length (l @ [LF]) < ECHO_BUF" "NUL \<notin> set (l @ [LF])" using assms(1) by (auto simp: line_ok_def)
  let ?m = "(l @ [LF]) @ drop (length (l @ [LF])) b"
  have "echo_collect (length (l @ [LF])) 0 b (ec_sock c) = Some (Inr (Collected (length (l @ [LF])) ?m es))"
    using echo_collect_chunks[of ds 0 "length (l @ [LF])" b es] assms(4-6) n b(2) by simp
  moreover obtain msg' where "echo_print (l @ [LF]) ?m (int (length (l @ [LF]))) rest es =
      Inr (Turn (l @ [LF]) (''msg from server '' @ (l @ [LF]) @ [LF]) \<lparr>ec_in = rest, ec_msg = msg', ec_sock = es\<rparr>)"
    "length msg' = length ?m"
    using echo_print_text[of "l @ [LF]" ?m "l @ [LF]" rest es] n b(2) by auto
  ultimately show ?thesis using b n by (auto simp: echo_client2_turn_def)
qed

text \<open>The first turns of a session: what is printed, and whether the user has left.\<close>

fun echo2_run :: "nat \<Rightarrow> echo_client \<Rightarrow> (string list \<times> bool) result option" where
  "echo2_run 0 c = Some (Inr ([], False))"
| "echo2_run (Suc k) c =
     (case echo_client2_turn c of
        None \<Rightarrow> None
      | Some (Inl f) \<Rightarrow> Some (Inl f)
      | Some (Inr Quits) \<Rightarrow> Some (Inr ([], True))
      | Some (Inr (Waits s)) \<Rightarrow> Some (Inr ([], False))
      | Some (Inr (Turn s t c')) \<Rightarrow> map_option (map_sum id (\<lambda>(ts, q). (t # ts, q))) (echo2_run k c'))"

text \<open>
  C19. The client that collects what it sent is right over a stream: for lines that fit, and for any
  way the echoes are cut into pieces, it prints every line as it was typed, and leaves at \<open>q\<close>.
\<close>

theorem echo_session:
  assumes "list_all2 (\<lambda>l ds. line_ok l \<and> [] \<notin> set ds \<and> concat ds = l @ [LF]) ls dss"
  shows "echo2_run (Suc (length ls)) (echo_start (concat (List.map (\<lambda>l. l @ [LF]) ls) @ ''q'' @ [LF]) (List.map Data (concat dss)))
    = Some (Inr (List.map (\<lambda>l. ''msg from server '' @ l @ [LF, LF]) ls, True))"
proof -
  have "echo2_run (Suc (length ls)) \<lparr>ec_in = concat (List.map (\<lambda>l. l @ [LF]) ls) @ ''q'' @ [LF], ec_msg = msg,
      ec_sock = List.map Data (concat dss)\<rparr>
    = Some (Inr (List.map (\<lambda>l. ''msg from server '' @ l @ [LF, LF]) ls, True))"
    if "length msg = ECHO_BUF" for msg
    using assms that
  proof (induction arbitrary: msg rule: list_all2_induct)
    case Nil
    then show ?case using quit_fgets[of "''q''" msg "[]"] by (auto simp: echo_client2_turn_def)
  next
    case (Cons l ls ds dss)
    let ?rest = "concat (List.map (\<lambda>l. l @ [LF]) ls) @ ''q'' @ [LF]"
    let ?c = "\<lparr>ec_in = l @ LF # ?rest, ec_msg = msg, ec_sock = List.map Data ds @ List.map Data (concat dss)\<rparr>"
    obtain msg' where "echo_client2_turn ?c = Some (Inr (Turn (l @ [LF]) (''msg from server '' @ l @ [LF, LF])
        \<lparr>ec_in = ?rest, ec_msg = msg', ec_sock = List.map Data (concat dss)\<rparr>))" "length msg' = ECHO_BUF"
      using echo_client2_line[of l ?c ?rest ds "List.map Data (concat dss)"] Cons.hyps(1) Cons.prems by auto
    then show ?case using Cons.IH[of msg'] by simp
  qed
  from this[of "replicate ECHO_BUF NUL"] show ?thesis by (simp add: echo_start_def)
qed

theorem echo_session_witness:
  "echo2_run 2 (echo_start (''hi'' @ [LF] @ ''q'' @ [LF]) [Data ''h'', Data ''i'', Data [LF]])
    = Some (Inr ([''msg from server hi'' @ [LF, LF]], True))"
proof -
  have "Suc (length [''hi'']) = 2" by simp
  then show ?thesis
    using echo_session[of "[''hi'']" "[[''h'', ''i'', [LF]]]"] by (simp add: line_ok_def is_quit_def ECHO_BUF_def numeral_2_eq_2)
qed

text \<open>A collecting client whose server closes before the echo is complete does not come back.\<close>

lemma echo_collect_eof:
  assumes "recv_len < str_len"
  shows "echo_collect str_len recv_len msg (Eof # es) = None"
proof (rule ccontr)
  assume "echo_collect str_len recv_len msg (Eof # es) \<noteq> None"
  then obtain y where y: "echo_collect str_len recv_len msg (Eof # es) = Some y" by blast
  have "s \<noteq> Eof # es \<or> str_len \<le> recv_len" if "echo_collect str_len recv_len msg s = Some y" for str_len recv_len msg s y
  proof (rule echo_collect.raw_induct[where P = "\<lambda>n r msg s y. s \<noteq> Eof # es \<or> n \<le> r", OF _ that], goal_cases)
    case (1 f n r msg s y)
    then show ?case by (auto split: if_splits)
  qed
  from this[OF y] show False using assms by simp
qed

lemma echo_client_line:
  assumes "line_ok l" "length (ec_msg c) = ECHO_BUF" "ec_in c = l @ LF # rest"
  shows "\<exists>b. length b = ECHO_BUF \<and> echo_client_turn c =
    (case brecv ECHO_BUF (ec_sock c) of
       (Blocks, es) \<Rightarrow> Inr (Waits (l @ [LF]))
     | (Shut, es) \<Rightarrow> echo_print (l @ [LF]) b 0 rest es
     | (Fails e, es) \<Rightarrow> echo_print (l @ [LF]) b (- 1) rest es
     | (Got d, es) \<Rightarrow> bindR (blit b 0 d) (\<lambda>msg. echo_print (l @ [LF]) msg (int (length d)) rest es))"
  using line_fgets[OF assms(1,2), of rest] assms(3) by (auto simp: echo_client_turn_def)

lemma echo_client_chunk:
  assumes "line_ok l" "length (ec_msg c) = ECHO_BUF" "ec_in c = l @ LF # rest"
    and "ec_sock c = Data d # es" "d \<noteq> []" "length d < ECHO_BUF" "NUL \<notin> set d"
  shows "\<exists>msg'. echo_client_turn c = Inr (Turn (l @ [LF]) (''msg from server '' @ d @ [LF])
      \<lparr>ec_in = rest, ec_msg = msg', ec_sock = es\<rparr>) \<and> length msg' = ECHO_BUF"
proof -
  obtain b where b: "length b = ECHO_BUF" "echo_client_turn c = bindR (blit b 0 d)
      (\<lambda>msg. echo_print (l @ [LF]) msg (int (length d)) rest es)"
    using echo_client_line[OF assms(1-3)] assms(4-6) by (auto simp: ECHO_BUF_def)
  moreover have "blit b 0 d = Inr (d @ drop (length d) b)" using b(1) assms(6) by (simp add: blit_def)
  ultimately show ?thesis
    using echo_print_text[of d "d @ drop (length d) b" "l @ [LF]" rest es] assms(6,7) by auto
qed

text \<open>
  The client with one \<open>read\<close> for every line gets out of step as soon as an echo comes in two
  pieces: it prints the first piece for the first line and the second piece for the second, and
  the echo of the second line is still to come.
\<close>

theorem echo_client_out_of_step:
  assumes "line_ok l1" "line_ok l2" "l1 @ [LF] = d1 @ d2" "d1 \<noteq> []" "d2 \<noteq> []"
  shows "\<exists>c1 c2. echo_client_turn (echo_start (l1 @ LF # l2 @ LF # rest) [Data d1, Data d2, Data (l2 @ [LF])])
      = Inr (Turn (l1 @ [LF]) (''msg from server '' @ d1 @ [LF]) c1)
    \<and> echo_client_turn c1 = Inr (Turn (l2 @ [LF]) (''msg from server '' @ d2 @ [LF]) c2)
    \<and> ec_sock c2 = [Data (l2 @ [LF])]"
proof -
  have len: "length d1 + length d2 < ECHO_BUF" using arg_cong[OF assms(3), of length] assms(1) by (simp add: line_ok_def)
  have "NUL \<notin> set (d1 @ d2)" using assms(1) unfolding assms(3)[symmetric] by (auto simp: line_ok_def)
  then have n: "NUL \<notin> set d1" "NUL \<notin> set d2" by simp_all
  let ?c = "echo_start (l1 @ LF # l2 @ LF # rest) [Data d1, Data d2, Data (l2 @ [LF])]"
  obtain m1 where c1: "echo_client_turn ?c = Inr (Turn (l1 @ [LF]) (''msg from server '' @ d1 @ [LF])
      \<lparr>ec_in = l2 @ LF # rest, ec_msg = m1, ec_sock = [Data d2, Data (l2 @ [LF])]\<rparr>)" "length m1 = ECHO_BUF"
    using echo_client_chunk[of l1 ?c "l2 @ LF # rest" d1 "[Data d2, Data (l2 @ [LF])]"] assms(1,4) len n(1)
    by (auto simp: echo_start_def)
  let ?c1 = "\<lparr>ec_in = l2 @ LF # rest, ec_msg = m1, ec_sock = [Data d2, Data (l2 @ [LF])]\<rparr>"
  obtain m2 where "echo_client_turn ?c1 = Inr (Turn (l2 @ [LF]) (''msg from server '' @ d2 @ [LF])
      \<lparr>ec_in = rest, ec_msg = m2, ec_sock = [Data (l2 @ [LF])]\<rparr>)"
    using echo_client_chunk[of l2 ?c1 rest d2 "[Data (l2 @ [LF])]"] assms(2,5) len n(2) c1(2) by auto
  then show ?thesis using c1(1) by auto
qed

theorem echo_client_out_of_step_witness:
  "\<exists>c1 c2. echo_client_turn (echo_start (''one'' @ LF # ''two'' @ LF # []) [Data ''on'', Data (''e'' @ [LF]), Data (''two'' @ [LF])])
      = Inr (Turn (''one'' @ [LF]) (''msg from server on'' @ [LF]) c1)
    \<and> echo_client_turn c1 = Inr (Turn (''two'' @ [LF]) (''msg from server e'' @ [LF, LF]) c2)
    \<and> ec_sock c2 = [Data (''two'' @ [LF])]"
  using echo_client_out_of_step[of "''one''" "''two''" "''on''" "''e'' @ [LF]" "[]"]
  by (simp add: line_ok_def is_quit_def ECHO_BUF_def)

lemma echo_client_replies:
  assumes "line_ok l" and "c = echo_start (l @ LF # rest) es"
  shows "es = Data d # es' \<Longrightarrow> length d = ECHO_BUF \<Longrightarrow> echo_client_turn c = Inl (Bad_Store (int ECHO_BUF))"
    and "es = Err e # es' \<Longrightarrow> echo_client_turn c = Inl (Bad_Store (- 1))"
    and "es = Eof # es' \<Longrightarrow> \<exists>c'. echo_client_turn c = Inr (Turn (l @ [LF]) (''msg from server '' @ [LF]) c')"
    and "es = Eof # es' \<Longrightarrow> echo_client2_turn c = None"
proof -
  have len: "length (ec_msg c) = ECHO_BUF" and inp: "ec_in c = l @ LF # rest" and sock: "ec_sock c = es"
    by (simp_all add: assms(2) echo_start_def)
  note turn = echo_client_line[OF assms(1) len inp, unfolded sock]
  show "echo_client_turn c = Inl (Bad_Store (int ECHO_BUF))" if "es = Data d # es'" "length d = ECHO_BUF"
  proof -
    have "d \<noteq> []" using that(2) by (auto simp: ECHO_BUF_def)
    then show ?thesis using turn that by (auto simp: blit_def echo_print_def store_def)
  qed
  show "echo_client_turn c = Inl (Bad_Store (- 1))" if "es = Err e # es'"
    using turn that by (auto simp: echo_print_def store_def)
  show "\<exists>c'. echo_client_turn c = Inr (Turn (l @ [LF]) (''msg from server '' @ [LF]) c')" if e: "es = Eof # es'"
  proof -
    obtain b where "length b = ECHO_BUF" "echo_client_turn c = echo_print (l @ [LF]) b 0 rest (Eof # es')"
      using turn[unfolded e] by auto
    then show ?thesis
      using echo_print_text[of "[]" b "l @ [LF]" rest "Eof # es'"] by (auto simp: ECHO_BUF_def)
  qed
  show "echo_client2_turn c = None" if "es = Eof # es'"
  proof -
    obtain b where "fgets (ec_msg c) ECHO_BUF (ec_in c) = Inr (b, rest)" "cstr b 0 = Inr (l @ [LF])" "\<not> is_quit b"
      using line_fgets[OF assms(1) len] inp by auto
    then show ?thesis
      using echo_collect_eof[of 0 "length (l @ [LF])" b es'] sock that by (simp add: echo_client2_turn_def)
  qed
qed

text \<open>
  Three replies the clients are not ready for: 256 bytes at once put the terminator one past the
  array, an error puts it before the array, and the client that collects waits for ever on a server
  that has closed, where the other one goes on with an empty text.
\<close>

theorem echo_client_faults:
  assumes "line_ok l" and "length d = ECHO_BUF"
  shows "echo_client_turn (echo_start (l @ LF # rest) (Data d # es)) = Inl (Bad_Store 256)
    \<and> echo_client_turn (echo_start (l @ LF # rest) (Err e # es)) = Inl (Bad_Store (- 1))
    \<and> echo_client2_turn (echo_start (l @ LF # rest) (Eof # es)) = None
    \<and> (\<exists>c. echo_client_turn (echo_start (l @ LF # rest) (Eof # es)) = Inr (Turn (l @ [LF]) (''msg from server '' @ [LF]) c))"
  using echo_client_replies(1)[OF assms(1) refl refl assms(2)] echo_client_replies(2-4)[OF assms(1) refl refl]
  by (simp add: ECHO_BUF_def)

theorem echo_client_faults_witness:
  "echo_client2_turn (echo_start (''hi'' @ LF # []) [Eof]) = None"
  using echo_client_faults[of "''hi''" "replicate ECHO_BUF (CHR ''x'')" "[]" "[]" EAGAIN]
  by (simp add: line_ok_def is_quit_def ECHO_BUF_def)

subsection \<open>Datagrams keep their boundaries\<close>

lemma udp_bound_loop_texts:
  assumes "\<forall>t \<in> set ts. NUL \<notin> set t \<and> length t + 2 \<le> ECHO_BUF" and "length buf = ECHO_BUF"
  shows "udp_bound_loop k buf (List.map (\<lambda>t. Dgram a (t @ [NUL])) ts) = Inr (take k ts)"
  using assms
proof (induction k arbitrary: ts buf)
  case 0
  then show ?case by simp
next
  case (Suc k)
  show ?case
  proof (cases ts)
    case Nil
    then show ?thesis by simp
  next
    case (Cons t us)
    have t: "NUL \<notin> set t" "length t + 2 \<le> ECHO_BUF" using Suc.prems(1) Cons by simp_all
    then have tk: "dgram_take (t @ [NUL]) = t @ [NUL]" by (simp add: dgram_take_def)
    let ?b = "(t @ [NUL]) @ drop (Suc (length t)) buf"
    have b: "blit buf 0 (t @ [NUL]) = Inr ?b" using t(2) Suc.prems(2) by (simp add: blit_def)
    define b2 where "b2 = ?b[length (t @ [NUL]) := NUL]"
    have b2: "store ?b (int (length (t @ [NUL]))) NUL = Inr b2"
      unfolding b2_def using t(2) Suc.prems(2) by (intro store_nat) simp
    have "length b2 = ECHO_BUF" using Suc.prems(2) t(2) by (simp add: b2_def)
    moreover have "cstr b2 0 = Inr t" unfolding b2_def using t(1) by (auto simp: cstr_iff list_update_append)
    ultimately show ?thesis
      using Suc.IH[of us b2] Suc.prems(1) b b2 unfolding Cons by (simp add: tk)
  qed
qed

text \<open>
  Three datagrams are three messages: the server prints the texts the client sent, one for each
  call, although all of them had arrived before the first; a fourth is not read.
\<close>

theorem udp_boundaries:
  assumes "\<forall>t \<in> set ts. NUL \<notin> set t \<and> length t + 2 \<le> ECHO_BUF"
  shows "udp_bound_server (List.map (\<lambda>t. Dgram a (t @ [NUL])) ts) = Inr (take 3 ts)"
  unfolding udp_bound_server_def by (rule udp_bound_loop_texts[OF assms]) simp

theorem udp_boundaries_witness:
  "udp_bound_server (List.map (Dgram 0) udp_bound_client) = Inr [''hello'', ''world'', ''!!!'']"
  using udp_boundaries[of "[''hello'', ''world'', ''!!!'']" 0] by (simp add: udp_bound_client_def ECHO_BUF_def)

lemma udp_print_text:
  assumes "length t < length buf" and "NUL \<notin> set t" and "take (length t) buf = t"
  shows "\<exists>buf'. udp_print sent from buf (int (length t)) inp es =
      Inr (U_Turn sent from (''msg from server: '' @ t @ [LF]) \<lparr>uc_in = inp, uc_buf = buf', uc_sock = es\<rparr>)
    \<and> length buf' = length buf"
proof -
  have "buf[length t := NUL] = t @ NUL # drop (Suc (length t)) buf"
    using assms(1,3) by (simp add: upd_conv_take_nth_drop)
  then have "cstr (buf[length t := NUL]) 0 = Inr t" using assms(2) by (auto simp: cstr_iff)
  then show ?thesis using assms(1) by (simp add: udp_print_def)
qed

text \<open>
  The unconnected client prints whatever datagram is first, from anyone: the server's echo of its
  line if that is the first to come, a stranger's text if not.
\<close>

theorem udp_client_first_datagram:
  assumes "line_ok l" "length buf = ECHO_BUF" "NUL \<notin> set d" "length d < ECHO_BUF"
  shows "\<exists>c'. udp_client_turn \<lparr>uc_in = l @ LF # rest, uc_buf = buf, uc_sock = Dgram a d # es\<rparr>
      = Inr (U_Turn (l @ [LF]) (Some a) (''msg from server: '' @ d @ [LF]) c') \<and> uc_sock c' = es"
proof -
  obtain b where b: "fgets buf ECHO_BUF (l @ LF # rest) = Inr (b, rest)" "length b = ECHO_BUF"
    "cstr b 0 = Inr (l @ [LF])" "\<not> is_quit b"
    using line_fgets[OF assms(1,2)] by blast
  have d: "dgram_take d = d" "blit b 0 d = Inr (d @ drop (length d) b)" using assms(4) b(2) by (simp_all add: dgram_take_def blit_def)
  obtain b' where "udp_print (l @ [LF]) (Some a) (d @ drop (length d) b) (int (length d)) rest es =
      Inr (U_Turn (l @ [LF]) (Some a) (''msg from server: '' @ d @ [LF]) \<lparr>uc_in = rest, uc_buf = b', uc_sock = es\<rparr>)"
    using udp_print_text[of d "d @ drop (length d) b" "l @ [LF]" "Some a" rest es] assms(3,4) b(2) by auto
  then show ?thesis using b d by (simp add: udp_client_turn_def)
qed

theorem udp_client_first_datagram_witness:
  "\<exists>c'. udp_client_turn \<lparr>uc_in = ''hi'' @ LF # [], uc_buf = replicate ECHO_BUF NUL,
      uc_sock = [Dgram 7 ''spam'', Dgram 0 (''hi'' @ [LF])]\<rparr>
    = Inr (U_Turn (''hi'' @ [LF]) (Some 7) (''msg from server: spam'' @ [LF]) c') \<and> uc_sock c' = [Dgram 0 (''hi'' @ [LF])]"
  using udp_client_first_datagram[of "''hi''" "replicate ECHO_BUF NUL" "''spam''" "[]" 7 "[Dgram 0 (''hi'' @ [LF])]"]
  by (simp add: line_ok_def is_quit_def ECHO_BUF_def)

text \<open>
  The connected client is at the mercy of a variable it never sets: outside 0..255 its value makes
  the terminator a store out of bounds, whatever the server answers.
\<close>

theorem udp_connect_unset_length:
  assumes "line_ok l" "length buf = ECHO_BUF" "connected es = Dgram a d # es'" "len < 0 \<or> int ECHO_BUF \<le> len"
  shows "udp_connect_turn len \<lparr>uc_in = l @ LF # rest, uc_buf = buf, uc_sock = es\<rparr> = Inl (Bad_Store len)"
proof -
  obtain b where b: "fgets buf ECHO_BUF (l @ LF # rest) = Inr (b, rest)" "length b = ECHO_BUF"
    "cstr b 0 = Inr (l @ [LF])" "\<not> is_quit b"
    using line_fgets[OF assms(1,2)] by blast
  then show ?thesis using assms(3,4) by (auto simp: udp_connect_turn_def blit_def dgram_take_def udp_print_def store_def)
qed

theorem udp_connect_unset_length_witness:
  "udp_connect_turn 32767 \<lparr>uc_in = ''hi'' @ LF # [], uc_buf = replicate ECHO_BUF NUL, uc_sock = [Dgram 3 ''x'', Dgram 0 ''hi'']\<rparr>
    = Inl (Bad_Store 32767)"
  using udp_connect_unset_length[of "''hi''" "replicate ECHO_BUF NUL" "[Dgram 3 ''x'', Dgram 0 ''hi'']" 0 "''hi''" "[]" 32767 "[]"]
  by (simp add: line_ok_def is_quit_def ECHO_BUF_def)

end
