(* ===== verification/Half_Close.thy ===== *)
theory Half_Close
  imports Echo
begin

text \<open>
  The file transfer of src/37_elegant_close_connect/main.cpp: the server sends the file in pieces of
  32 bytes, closes its side of the connection and reads the client's thanks; the client writes what
  it reads until the stream ends.
\<close>

definition HALF_BUF :: nat where "HALF_BUF = 32"

subsection \<open>The programs\<close>

text \<open>The server's loop over the file: what it writes, and the buffer it leaves.\<close>

function half_send :: "string \<Rightarrow> char list \<Rightarrow> string list \<times> char list" where
  "half_send content buf =
     (let k = take HALF_BUF content; buf' = k @ drop (length k) buf in
      if length k < HALF_BUF then ([k], buf')
      else (let (ws, b) = half_send (drop HALF_BUF content) buf' in (k # ws, b)))"
  by pat_completeness auto
termination
  by (relation "measure (\<lambda>(content, buf). length content)") (auto simp: HALF_BUF_def)

declare half_send.simps [simp del]

definition half_thanks :: "char list \<Rightarrow> recv_event list \<Rightarrow> string option result" where
  "half_thanks buf es =
     (case fst (brecv HALF_BUF es) of
        Blocks \<Rightarrow> Inr None
      | Shut \<Rightarrow> bindR (store buf 0 NUL) (\<lambda>buf. bindR (cstr buf 0) (\<lambda>t. Inr (Some t)))
      | Fails e \<Rightarrow> bindR (store buf (- 1) NUL) (\<lambda>buf. bindR (cstr buf 0) (\<lambda>t. Inr (Some t)))
      | Got d \<Rightarrow> bindR (blit buf 0 d) (\<lambda>buf. bindR (store buf (int (length d)) NUL) (\<lambda>buf.
          bindR (cstr buf 0) (\<lambda>t. Inr (Some t)))))"

text \<open>The pieces sent before the half close, and the text printed for the client's answer.\<close>

definition half_file_server :: "string \<Rightarrow> recv_event list \<Rightarrow> (string list \<times> string option) result" where
  "half_file_server content es =
     (let (ws, buf) = half_send content (replicate HALF_BUF NUL) in
      bindR (half_thanks buf es) (\<lambda>t. Inr (ws, t)))"

text \<open>The client's loop: the file it writes, and whether the loop has ended, after which it says ok.\<close>

function half_recv :: "recv_event list \<Rightarrow> string \<times> bool" where
  "half_recv es =
     (case brecv HALF_BUF es of
        (Got d, es') \<Rightarrow> (if d = [] then ([], True) else (let (f, fin) = half_recv es' in (d @ f, fin)))
      | (Blocks, es') \<Rightarrow> ([], False)
      | (Shut, es') \<Rightarrow> ([], True)
      | (Fails e, es') \<Rightarrow> ([], True))"
  by pat_completeness auto
termination
  by (relation "measure script_size") (auto dest: brecv_Got_size[OF sym])

declare half_recv.simps [simp del]

definition half_file_client :: "recv_event list \<Rightarrow> string \<times> string option" where
  "half_file_client es = (let (f, fin) = half_recv es in (f, if fin then Some ''ok'' else None))"

subsection \<open>The transfer\<close>

lemma half_send_concat:
  assumes "length buf = HALF_BUF"
  shows "concat (fst (half_send content buf)) = content \<and> length (snd (half_send content buf)) = HALF_BUF
    \<and> length (fst (half_send content buf)) = Suc (length content div HALF_BUF)
    \<and> (\<forall>w \<in> set (butlast (fst (half_send content buf))). length w = HALF_BUF)
    \<and> length (last (fst (half_send content buf))) < HALF_BUF"
  using assms
proof (induction content buf rule: half_send.induct)
  case (1 content buf)
  define k where "k = take HALF_BUF content"
  define buf' where "buf' = k @ drop (length k) buf"
  have buf': "length buf' = HALF_BUF" using 1(2) by (simp add: k_def buf'_def)
  show ?case
  proof (cases "length k < HALF_BUF")
    case True
    then have "k = content" "length content < HALF_BUF" by (auto simp: k_def min_def split: if_splits)
    moreover have "half_send content buf = ([k], buf')" unfolding half_send.simps[of content buf] Let_def k_def[symmetric] buf'_def[symmetric] using True by simp
    ultimately show ?thesis using buf' True by simp
  next
    case False
    let ?r = "half_send (drop HALF_BUF content) buf'"
    have s: "half_send content buf = (k # fst ?r, snd ?r)"
      unfolding half_send.simps[of content buf] Let_def k_def[symmetric] buf'_def[symmetric] using False by (simp split: prod.split)
    have l: "length k = HALF_BUF" "HALF_BUF \<le> length content" using False by (auto simp: k_def)
    have r: "concat (fst ?r) = drop HALF_BUF content" "length (snd ?r) = HALF_BUF"
      "length (fst ?r) = Suc (length (drop HALF_BUF content) div HALF_BUF)"
      "\<forall>w \<in> set (butlast (fst ?r)). length w = HALF_BUF" "length (last (fst ?r)) < HALF_BUF"
      using 1(1)[OF k_def buf'_def False buf'] by blast+
    then have ne: "fst ?r \<noteq> []" by auto
    have "Suc ((length content - HALF_BUF) div HALF_BUF) = length content div HALF_BUF"
      using l(2) by (simp add: HALF_BUF_def le_div_geq)
    then have "length (k # fst ?r) = Suc (length content div HALF_BUF)" using r(3) by simp
    moreover have "concat (k # fst ?r) = content" using r(1) by (simp add: k_def)
    moreover have "\<forall>w \<in> set (butlast (k # fst ?r)). length w = HALF_BUF" using ne r(4) l(1) by simp
    moreover have "length (last (k # fst ?r)) < HALF_BUF" using ne r(5) by simp
    ultimately show ?thesis unfolding s fst_conv snd_conv using r(2) by blast
  qed
qed

lemma half_recv_data: "[] \<notin> set ds \<Longrightarrow> half_recv (List.map Data ds @ es) = (concat ds @ fst (half_recv es), snd (half_recv es))"
proof (induction "length (concat ds)" arbitrary: ds rule: less_induct)
  case less
  show ?case
  proof (cases ds)
    case Nil
    then show ?thesis by simp
  next
    case (Cons d ds')
    then have d: "d \<noteq> []" "[] \<notin> set ds'" using less.prems by auto
    define ds2 where "ds2 = (if length d \<le> HALF_BUF then ds' else drop HALF_BUF d # ds')"
    have "brecv HALF_BUF (List.map Data ds @ es) = (Got (take HALF_BUF d), List.map Data ds2 @ es)"
      using d Cons by (simp add: ds2_def HALF_BUF_def)
    moreover have "take HALF_BUF d \<noteq> []" using d(1) by (simp add: HALF_BUF_def)
    moreover have "half_recv (List.map Data ds2 @ es) = (concat ds2 @ fst (half_recv es), snd (half_recv es))"
      using d Cons by (intro less.hyps) (auto simp: ds2_def HALF_BUF_def)
    moreover have "take HALF_BUF d @ concat ds2 = concat ds" using Cons by (simp add: ds2_def)
    ultimately show ?thesis by (subst half_recv.simps) simp
  qed
qed



text \<open>
  The client thanks for a torn file too: an error on the way ends its loop like the end of the
  stream does, and the server prints the same ok.
\<close>

theorem torn_file_thanked:
  assumes "[] \<notin> set ds"
  shows "half_file_client (List.map Data ds @ Err e # es) = (concat ds, Some ''ok'')"
  using half_recv_data[OF assms, of "Err e # es"] by (simp add: half_recv.simps[of "Err e # es"] half_file_client_def)

theorem torn_file_thanked_witness: "half_file_client [Data ''half of'', Err ECONNRESET] = (''half of'', Some ''ok'')"
  using torn_file_thanked[of "[''half of'']" ECONNRESET "[]"] by simp

end
