(* ===== verification/Fork_Echo.thy ===== *)
theory Fork_Echo
  imports Echo
begin

text \<open>
  The server of src/40_multi_process_server/main.cpp forks a child for every connection and collects
  the children that have ended in its SIGCHLD handler; one of its clients splits reading and writing
  between two processes.
\<close>

subsection \<open>The server and its children\<close>

text \<open>
  A child serves its connection until the stream ends or a read fails; then it is a zombie until the
  parent waits for it.
\<close>

datatype child_proc =
    Serving "recv_event list" "string list"
  | Zombie "string list"
  | Reaped "string list"

record fork_server =
  procs :: "child_proc list"
  sigchld :: bool

definition fork_start :: fork_server where
  "fork_start = \<lparr>procs = [], sigchld = False\<rparr>"

datatype fork_event =
    Connect "recv_event list"
  | Refused
  | Child nat
  | Deliver

text \<open>One \<open>read\<close> of the child, with the \<open>write\<close> or the \<open>exit\<close> that follows; \<open>None\<close> while it blocks.\<close>

definition child_turn :: "recv_event list \<Rightarrow> string list \<Rightarrow> child_proc option" where
  "child_turn es out =
     (case brecv ECHO_BUF es of
        (Blocks, es') \<Rightarrow> None
      | (Shut, es') \<Rightarrow> Some (Zombie out)
      | (Fails e, es') \<Rightarrow> Some (Zombie out)
      | (Got d, es') \<Rightarrow> Some (Serving es' (out @ [d])))"

fun is_zombie :: "child_proc \<Rightarrow> bool" where
  "is_zombie (Zombie out) = True"
| "is_zombie _ = False"

fun reap :: "child_proc \<Rightarrow> child_proc" where
  "reap (Zombie out) = Reaped out"
| "reap p = p"

text \<open>\<open>child_exit\<close>: one \<open>waitpid(-1, ..., WNOHANG)\<close> for one signal.\<close>

fun wait_any :: "child_proc list \<Rightarrow> child_proc list" where
  "wait_any [] = []"
| "wait_any (p # ps) = (if is_zombie p then reap p # ps else p # wait_any ps)"

definition child_exit :: "fork_server \<Rightarrow> fork_server" where
  "child_exit s = s\<lparr>procs := wait_any (procs s), sigchld := False\<rparr>"

text \<open>
  The events: a connection that is accepted and gets its child, one that is not (\<open>accept\<close> or \<open>fork\<close>
  fails), a turn of a child, the delivery of a pending SIGCHLD. A child that ends makes the signal
  pending; it stays one signal however many children end before it is delivered.
\<close>

fun fork_step :: "fork_event \<Rightarrow> fork_server \<Rightarrow> fork_server option" where
  "fork_step (Connect es) s = Some (s\<lparr>procs := procs s @ [Serving es []]\<rparr>)"
| "fork_step Refused s = Some s"
| "fork_step (Child i) s =
     (if i < length (procs s) then
        (case procs s ! i of
           Serving es out \<Rightarrow>
             (case child_turn es out of
                None \<Rightarrow> None
              | Some p \<Rightarrow> Some (s\<lparr>procs := (procs s)[i := p], sigchld := (sigchld s \<or> is_zombie p)\<rparr>))
         | _ \<Rightarrow> None)
      else None)"
| "fork_step Deliver s = (if sigchld s then Some (child_exit s) else None)"

fun fork_run :: "fork_event list \<Rightarrow> fork_server \<Rightarrow> fork_server option" where
  "fork_run [] s = Some s"
| "fork_run (e # es) s = Option.bind (fork_step e s) (fork_run es)"

subsection \<open>The client in two processes\<close>

text \<open>The reader: what one turn of its loop prints; after an error it returns.\<close>

datatype read_turn_end =
    R_Returns
  | R_Waits
  | R_Prints string "char list" "recv_event list"

definition read_print :: "char list \<Rightarrow> nat \<Rightarrow> recv_event list \<Rightarrow> read_turn_end result" where
  "read_print buf len es =
     bindR (store buf (int len) NUL) (\<lambda>buf. bindR (cstr buf 0) (\<lambda>t. Inr (R_Prints t buf es)))"

definition read_turn :: "char list \<Rightarrow> recv_event list \<Rightarrow> read_turn_end result" where
  "read_turn buf es =
     (case brecv ECHO_BUF es of
        (Blocks, es') \<Rightarrow> Inr R_Waits
      | (Fails e, es') \<Rightarrow> Inr R_Returns
      | (Shut, es') \<Rightarrow> read_print buf 0 es'
      | (Got d, es') \<Rightarrow> bindR (blit buf 0 d) (\<lambda>buf. read_print buf (length d) es'))"

text \<open>The whole loop: \<open>None\<close> when it goes on for ever, else whether it has returned (or waits).\<close>

partial_function (option) read_routine :: "char list \<Rightarrow> recv_event list \<Rightarrow> (string list \<times> bool) result option" where
  "read_routine buf es =
     (case read_turn buf es of
        Inl f \<Rightarrow> Some (Inl f)
      | Inr R_Returns \<Rightarrow> Some (Inr ([], True))
      | Inr R_Waits \<Rightarrow> Some (Inr ([], False))
      | Inr (R_Prints t buf' es') \<Rightarrow> Option.bind (read_routine buf' es') (\<lambda>r. Some (map_sum id (\<lambda>(ts, q). (t # ts, q)) r)))"

text \<open>The writer: what it sends before it shuts its side down; at the end of the input it loops.\<close>

partial_function (option) write_routine :: "char list \<Rightarrow> string \<Rightarrow> string list result option" where
  "write_routine buf inp =
     (case fgets buf ECHO_BUF inp of
        Inl f \<Rightarrow> Some (Inl f)
      | Inr (buf', inp') \<Rightarrow>
          if is_quit buf' then Some (Inr [])
          else (case cstr buf' 0 of
             Inl f \<Rightarrow> Some (Inl f)
           | Inr s \<Rightarrow> Option.bind (write_routine buf' inp') (\<lambda>r. Some (map_sum id ((#) s) r))))"

text \<open>The first client: one \<open>read\<close> for every line, an error skips the line.\<close>

datatype fork_turn =
    F_Quits
  | F_Waits string
  | F_Error string echo_client
  | F_Turn string string echo_client

definition fork_print :: "string \<Rightarrow> char list \<Rightarrow> nat \<Rightarrow> string \<Rightarrow> recv_event list \<Rightarrow> fork_turn result" where
  "fork_print sent buf len inp es =
     bindR (store buf (int len) NUL) (\<lambda>buf.
     bindR (cstr buf 0) (\<lambda>t.
       Inr (F_Turn sent (''msg from server : '' @ t @ [LF]) \<lparr>ec_in = inp, ec_msg = buf, ec_sock = es\<rparr>)))"

definition multi_process_client_turn :: "echo_client \<Rightarrow> fork_turn result" where
  "multi_process_client_turn c =
     bindR (fgets (ec_msg c) ECHO_BUF (ec_in c)) (\<lambda>(buf, inp).
       if is_quit buf then Inr F_Quits
       else bindR (cstr buf 0) (\<lambda>sent.
         case brecv ECHO_BUF (ec_sock c) of
           (Blocks, es) \<Rightarrow> Inr (F_Waits sent)
         | (Fails e, es) \<Rightarrow> Inr (F_Error sent \<lparr>ec_in = inp, ec_msg = buf, ec_sock = es\<rparr>)
         | (Shut, es) \<Rightarrow> fork_print sent buf 0 inp es
         | (Got d, es) \<Rightarrow> bindR (blit buf 0 d) (\<lambda>buf. fork_print sent buf (length d) inp es)))"

subsection \<open>Every child echoes its own connection\<close>

fun until_end :: "recv_event list \<Rightarrow> string" where
  "until_end (Data d # es) = d @ until_end es"
| "until_end _ = []"

fun serves :: "recv_event list \<Rightarrow> child_proc \<Rightarrow> bool" where
  "serves c (Serving es out) \<longleftrightarrow> concat out @ until_end es = until_end c"
| "serves c (Zombie out) \<longleftrightarrow> concat out = until_end c"
| "serves c (Reaped out) \<longleftrightarrow> concat out = until_end c"

fun connections :: "fork_event list \<Rightarrow> recv_event list list" where
  "connections [] = []"
| "connections (Connect es # evs) = es # connections evs"
| "connections (_ # evs) = connections evs"

lemma brecv_until:
  "brecv n es = (r, es') \<Longrightarrow> 0 < n \<Longrightarrow>
   (case r of Got d \<Rightarrow> until_end es = d @ until_end es' | _ \<Rightarrow> until_end es = [])"
proof (induction n es rule: brecv.induct)
  case (4 n d es)
  then show ?case by (cases "d = []") (auto split: if_splits brecv_ret.splits)
qed auto

lemma child_turn_serves: "child_turn es out = Some p \<Longrightarrow> serves c (Serving es out) \<Longrightarrow> serves c p"
  using brecv_until[of ECHO_BUF es "fst (brecv ECHO_BUF es)" "snd (brecv ECHO_BUF es)"]
  by (auto simp: child_turn_def ECHO_BUF_def split: prod.splits brecv_ret.splits)

lemma serves_reap [simp]: "serves c (reap p) = serves c p"
  by (cases p) auto

lemma wait_any_serves: "list_all2 serves cs ps \<Longrightarrow> list_all2 serves cs (wait_any ps)"
  by (induction rule: list_all2_induct) auto

lemma fork_step_serves:
  assumes "fork_step e s = Some s'" and "list_all2 serves cs (procs s)"
  shows "list_all2 serves (cs @ connections [e]) (procs s')"
proof (cases e)
  case (Connect es)
  then show ?thesis using assms by (auto intro!: list_all2_appendI)
next
  case (Child i)
  then obtain es out p where i: "i < length (procs s)" "procs s ! i = Serving es out" "child_turn es out = Some p"
    "procs s' = (procs s)[i := p]"
    using assms(1) by (auto split: if_splits child_proc.splits option.splits)
  have "serves (cs ! i) p"
    using child_turn_serves[OF i(3)] list_all2_nthD2[OF assms(2) i(1)] i(2) by simp
  then have "list_all2 serves (cs[i := cs ! i]) (procs s')" unfolding i(4) by (rule list_all2_update_cong[OF assms(2)])
  then show ?thesis using Child by simp
qed (use assms wait_any_serves in \<open>auto simp: child_exit_def split: if_splits\<close>)

text \<open>
  C18. Whatever the order of events, every child has sent back what its own connection delivered, in
  its order: all of it once it has ended, all it has read while it serves; no failed accept or fork
  and no signal gets in the way.
\<close>

theorem fork_children_echo:
  assumes "fork_run evs fork_start = Some s"
  shows "list_all2 serves (connections evs) (procs s)"
proof -
  have "list_all2 serves (cs @ connections evs) (procs s)"
    if "fork_run evs s0 = Some s" "list_all2 serves cs (procs s0)" for cs s0
    using that
  proof (induction evs arbitrary: cs s0)
    case Nil
    then show ?case by simp
  next
    case (Cons e evs)
    then obtain s1 where s1: "fork_step e s0 = Some s1" "fork_run evs s1 = Some s" by (auto simp: bind_eq_Some_conv)
    have "connections (e # evs) = connections [e] @ connections evs" by (cases e) auto
    then show ?case using Cons.IH[OF s1(2) fork_step_serves[OF s1(1) Cons.prems(2)]] by simp
  qed
  from this[of fork_start "[]"] assms show ?thesis by (simp add: fork_start_def)
qed

theorem fork_children_echo_witness:
  "\<exists>s. fork_run [Connect [Data ''a'', Eof], Connect [Data ''b''], Child 1, Child 0, Child 0, Deliver] fork_start = Some s
    \<and> list_all2 serves [[Data ''a'', Eof], [Data ''b'']] (procs s)"
proof -
  have "\<exists>s. fork_run [Connect [Data ''a'', Eof], Connect [Data ''b''], Child 1, Child 0, Child 0, Deliver] fork_start = Some s"
    by (simp add: fork_start_def child_turn_def ECHO_BUF_def child_exit_def)
  then show ?thesis using fork_children_echo[of "[Connect [Data ''a'', Eof], Connect [Data ''b''], Child 1, Child 0, Child 0, Deliver]"] by auto
qed

subsection \<open>Zombies\<close>

definition zombies :: "fork_server \<Rightarrow> nat" where
  "zombies s = length (filter is_zombie (procs s))"

text \<open>The zombies no pending signal will collect.\<close>

definition stranded_zombies :: "fork_server \<Rightarrow> nat" where
  "stranded_zombies s = (if sigchld s then zombies s - 1 else zombies s)"

definition fork_wf :: "fork_server \<Rightarrow> bool" where
  "fork_wf s \<longleftrightarrow> (sigchld s \<longrightarrow> 0 < zombies s)"

lemma wait_any_count: "length (filter is_zombie (wait_any ps)) = length (filter is_zombie ps) - 1"
proof (induction ps)
  case (Cons p ps)
  then show ?case by (cases p) auto
qed simp

lemma update_count:
  "i < length ps \<Longrightarrow> \<not> is_zombie (ps ! i) \<Longrightarrow>
   length (filter is_zombie (ps[i := p])) = length (filter is_zombie ps) + (if is_zombie p then 1 else 0)"
proof (induction ps arbitrary: i)
  case (Cons q ps)
  then show ?case by (cases i) auto
qed simp

lemma fork_step_zombies:
  assumes "fork_step e s = Some s'" and "fork_wf s"
  shows "fork_wf s' \<and> stranded_zombies s \<le> stranded_zombies s'"
proof (cases e)
  case (Child i)
  then obtain es out p where i: "i < length (procs s)" "procs s ! i = Serving es out"
    "s' = s\<lparr>procs := (procs s)[i := p], sigchld := (sigchld s \<or> is_zombie p)\<rparr>"
    using assms(1) by (auto split: if_splits child_proc.splits option.splits)
  then have "zombies s' = zombies s + (if is_zombie p then 1 else 0)" by (simp add: zombies_def update_count)
  then show ?thesis using i(3) assms(2) by (auto simp: fork_wf_def stranded_zombies_def)
next
  case Deliver
  then have "s' = child_exit s" "sigchld s" using assms(1) by (auto split: if_splits)
  then show ?thesis by (simp add: fork_wf_def stranded_zombies_def zombies_def child_exit_def wait_any_count)
qed (use assms in \<open>auto simp: fork_wf_def stranded_zombies_def zombies_def\<close>)

lemma fork_run_zombies: "fork_run evs s = Some s' \<Longrightarrow> fork_wf s \<Longrightarrow> fork_wf s' \<and> stranded_zombies s \<le> stranded_zombies s'"
proof (induction evs arbitrary: s)
  case (Cons e evs)
  then obtain s1 where "fork_step e s = Some s1" "fork_run evs s1 = Some s'" by (auto simp: bind_eq_Some_conv)
  then show ?case using fork_step_zombies[of e s s1] Cons by fastforce
qed simp

lemma fork_run_append: "fork_run (xs @ ys) s = Option.bind (fork_run xs s) (fork_run ys)"
  by (induction xs arbitrary: s) (auto split: bind_split)

text \<open>
  Signals that come together are one signal and the handler waits once: a zombie that no pending
  signal accounts for is never made up for, whatever happens later; two clients that hang up before
  the signal is delivered leave one for good.
\<close>

theorem zombies_stranded:
  assumes "fork_run ([Connect [Eof], Connect [Eof], Child 0, Child 1, Deliver] @ evs) fork_start = Some s"
  shows "0 < zombies s"
proof -
  obtain s1 where s1: "fork_run [Connect [Eof], Connect [Eof], Child 0, Child 1, Deliver] fork_start = Some s1"
    "fork_run evs s1 = Some s"
    using assms unfolding fork_run_append by (auto simp: bind_eq_Some_conv)
  have "procs s1 = [Reaped [], Zombie []]" "sigchld s1 = False"
    using s1(1) by (auto simp: fork_start_def child_turn_def child_exit_def)
  then have "fork_wf s1" "stranded_zombies s1 = 1" by (simp_all add: fork_wf_def stranded_zombies_def zombies_def)
  then have "1 \<le> stranded_zombies s" using fork_run_zombies[OF s1(2)] by simp
  then show ?thesis by (simp add: stranded_zombies_def split: if_splits)
qed

theorem zombies_stranded_witness:
  "\<exists>s. fork_run ([Connect [Eof], Connect [Eof], Child 0, Child 1, Deliver] @ [Connect [Eof], Child 2, Deliver]) fork_start = Some s
    \<and> 0 < zombies s"
proof -
  have "\<exists>s. fork_run ([Connect [Eof], Connect [Eof], Child 0, Child 1, Deliver] @ [Connect [Eof], Child 2, Deliver]) fork_start = Some s"
    by (simp add: fork_start_def child_turn_def child_exit_def)
  then show ?thesis using zombies_stranded[of "[Connect [Eof], Child 2, Deliver]"] by blast
qed

subsection \<open>The split client\<close>

lemma read_turn_data:
  assumes "length buf = ECHO_BUF" "d \<noteq> []" "length d < ECHO_BUF" "NUL \<notin> set d"
  shows "\<exists>buf'. read_turn buf (Data d # es) = Inr (R_Prints d buf' es) \<and> length buf' = ECHO_BUF"
proof -
  obtain b1 b2 where b: "blit buf 0 d = Inr b1" "store b1 (int (length d)) NUL = Inr b2" "length b2 = length buf" "cstr b2 0 = Inr d"
    using recv_terminate[of d buf] assms by auto
  have "brecv ECHO_BUF (Data d # es) = (Got d, es)" using assms(2,3) by (simp add: ECHO_BUF_def)
  then show ?thesis using b assms(1) by (simp add: read_turn_def read_print_def)
qed

lemma read_routine_eof:
  assumes "length buf = ECHO_BUF"
  shows "read_routine buf (Eof # es) = None"
proof (rule ccontr)
  assume "read_routine buf (Eof # es) \<noteq> None"
  then obtain y where y: "read_routine buf (Eof # es) = Some y" by blast
  have turn: "\<exists>t b'. read_turn b (Eof # es) = Inr (R_Prints t b' (Eof # es)) \<and> length b' = ECHO_BUF"
    if "length b = ECHO_BUF" for b
    using that by (simp add: read_turn_def read_print_def store_def cstr_def ECHO_BUF_def set_update_memI)
  have "length b = ECHO_BUF \<longrightarrow> xs \<noteq> Eof # es" if "read_routine b xs = Some y" for b xs y
  proof (rule read_routine.raw_induct[where P = "\<lambda>b xs y. length b = ECHO_BUF \<longrightarrow> xs \<noteq> Eof # es", OF _ that], goal_cases)
    case (1 f b xs y)
    show ?case
    proof (intro impI notI)
      assume "length b = ECHO_BUF" "xs = Eof # es"
      then obtain t b' where "read_turn b xs = Inr (R_Prints t b' (Eof # es))" "length b' = ECHO_BUF" using turn[of b] by blast
      then show False using 1 by (auto simp: bind_eq_Some_conv)
    qed
  qed
  from this[OF y] show False using assms by simp
qed

text \<open>The first turns of the reader, to see what it has printed by then.\<close>

fun read_prints :: "nat \<Rightarrow> char list \<Rightarrow> recv_event list \<Rightarrow> string list" where
  "read_prints 0 buf es = []"
| "read_prints (Suc k) buf es =
     (case read_turn buf es of
        Inr (R_Prints t buf' es') \<Rightarrow> t # read_prints k buf' es'
      | _ \<Rightarrow> [])"

lemma read_routine_spins:
  assumes "length buf = ECHO_BUF" and "\<forall>d \<in> set ds. d \<noteq> [] \<and> length d < ECHO_BUF \<and> NUL \<notin> set d"
  shows "read_routine buf (List.map Data ds @ Eof # es) = None
    \<and> read_prints (length ds) buf (List.map Data ds @ Eof # es) = ds"
  using assms
proof (induction ds arbitrary: buf)
  case Nil
  then show ?case using read_routine_eof by simp
next
  case (Cons d ds)
  then obtain buf' where t: "read_turn buf (Data d # List.map Data ds @ Eof # es) = Inr (R_Prints d buf' (List.map Data ds @ Eof # es))"
    "length buf' = ECHO_BUF"
    using read_turn_data[of buf d "List.map Data ds @ Eof # es"] by auto
  moreover have "read_routine buf' (List.map Data ds @ Eof # es) = None
      \<and> read_prints (length ds) buf' (List.map Data ds @ Eof # es) = ds"
    using Cons t(2) by simp
  ultimately show ?case by (subst read_routine.simps) simp
qed

lemma write_routine_lines:
  assumes "list_all line_ok ls" and "length buf = ECHO_BUF"
  shows "write_routine buf (concat (List.map (\<lambda>l. l @ [LF]) ls) @ ''q'' @ LF # rest) = Some (Inr (List.map (\<lambda>l. l @ [LF]) ls))"
  using assms
proof (induction ls arbitrary: buf)
  case Nil
  then show ?case using quit_fgets[of "''q''" buf rest] by (subst write_routine.simps) auto
next
  case (Cons l ls)
  let ?rest = "concat (List.map (\<lambda>l. l @ [LF]) ls) @ ''q'' @ LF # rest"
  obtain b where "fgets buf ECHO_BUF (l @ LF # ?rest) = Inr (b, ?rest)" "length b = ECHO_BUF" "cstr b 0 = Inr (l @ [LF])" "\<not> is_quit b"
    using line_fgets[of l buf ?rest] Cons.prems by auto
  then show ?case using Cons by (subst write_routine.simps) simp
qed

text \<open>
  A whole session of the client in two processes with its child of the server: the reader prints
  every byte that was typed, in order; but when the writer has shut its side down and the child has
  closed the connection, the reader takes the end of the stream for an empty message and goes on
  printing it: it never returns.
\<close>

theorem split_client_session:
  assumes "list_all line_ok ls" and "length buf = ECHO_BUF"
    and "write_routine buf (concat (List.map (\<lambda>l. l @ [LF]) ls) @ ''q'' @ LF # rest) = Some (Inr ws)"
    and "serves (List.map Data ds @ [Eof]) (Zombie out)" and "concat ds = concat ws"
    and "concat rs = concat out" and "\<forall>r \<in> set rs. r \<noteq> [] \<and> length r < ECHO_BUF"
  shows "concat (read_prints (length rs) buf (List.map Data rs @ [Eof])) = concat (List.map (\<lambda>l. l @ [LF]) ls)
    \<and> read_routine buf (List.map Data rs @ [Eof]) = None"
proof -
  have ws: "concat ws = concat (List.map (\<lambda>l. l @ [LF]) ls)" using write_routine_lines[OF assms(1,2)] assms(3) by simp
  have "until_end (List.map Data ds @ [Eof]) = concat ds" by (induction ds) simp_all
  then have rs: "concat rs = concat (List.map (\<lambda>l. l @ [LF]) ls)" using assms(4-6) ws by simp
  have "NUL \<notin> set (concat (List.map (\<lambda>l. l @ [LF]) ls))" using assms(1) by (induction ls) (auto simp: line_ok_def)
  then have "\<forall>r \<in> set rs. NUL \<notin> set r" unfolding rs[symmetric] by auto
  then show ?thesis using read_routine_spins[OF assms(2), of rs "[]"] assms(7) rs by auto
qed

theorem split_client_session_witness:
  "read_routine (replicate ECHO_BUF NUL) (List.map Data [''h'', ''i'' @ [LF]] @ [Eof]) = None"
proof -
  have q: "list_all line_ok [''hi'']" by (simp add: line_ok_def is_quit_def ECHO_BUF_def)
  note w = write_routine_lines[OF q, of "replicate ECHO_BUF NUL" "[]", simplified]
  show ?thesis
    using split_client_session[OF q, of "replicate ECHO_BUF NUL" "[]" "[''hi'' @ [LF]]" "[''hi'' @ [LF]]" "[''hi'' @ [LF]]" "[''h'', ''i'' @ [LF]]"] w
    by (simp add: ECHO_BUF_def)
qed

end
