(* ===== verification/Suffix_Server.thy ===== *)
theory Suffix_Server
  imports C_Io
begin

text \<open>
  The servers that answer a message with the message and \<open>-server\<close> and stop at \<open>exit\<close>: the datagram
  servers of src/08_tcp/main.cpp and, with three kinds of time limit, of
  src/10_network_advanced/main.cpp; the iterative server, the child of the forking server and the
  select server of src/09_server_model/main.cpp, and the Unix-domain stream server. They share the
  handling of one message in a buffer that is never cleared.
\<close>

definition MSG_BUF :: nat where "MSG_BUF = 1024"

subsection \<open>One message\<close>

datatype handled =
    Exits "char list"
  | Replies string "char list"

text \<open>
  The received bytes are in the buffer; \<open>strncmp(buf, "exit", 4)\<close> comes before the terminator is
  stored, so it sees what an earlier message has left behind a short one.
\<close>

definition handle_msg :: "char list \<Rightarrow> string \<Rightarrow> handled result" where
  "handle_msg buf d =
     bindR (blit buf 0 d) (\<lambda>buf.
       if take 4 buf = ''exit'' then Inr (Exits buf)
       else bindR (store buf (int (length d)) NUL) (\<lambda>buf.
            bindR (strcat buf ''-server'') (\<lambda>buf.
            bindR (cstr buf 0) (\<lambda>r. Inr (Replies r buf)))))"

subsection \<open>Datagram servers with a time limit\<close>

datatype timed_event =
    Timed_Out
  | Recv_Error
  | Gram nat string

text \<open>The replies with their receivers, and whether the loop was left by \<open>exit\<close>.\<close>

type_synonym served = "(nat \<times> string) list \<times> bool"

definition then_serve :: "nat \<Rightarrow> string \<Rightarrow> served result \<Rightarrow> served result" where
  "then_serve a r k = bindR k (\<lambda>(rs, q). Inr ((a, r) # rs, q))"

text \<open>\<open>SO_RCVTIMEO\<close>: a timeout is an error of \<open>recvfrom\<close>, and the loop goes on.\<close>

fun timeout_test :: "char list \<Rightarrow> timed_event list \<Rightarrow> served result" where
  "timeout_test buf [] = Inr ([], False)"
| "timeout_test buf (Timed_Out # es) = timeout_test buf es"
| "timeout_test buf (Recv_Error # es) = timeout_test buf es"
| "timeout_test buf (Gram a d # es) =
     bindR (handle_msg buf (take MSG_BUF d)) (\<lambda>h. case h of
        Exits buf' \<Rightarrow> Inr ([], True)
      | Replies r buf' \<Rightarrow> then_serve a r (timeout_test buf' es))"

text \<open>
  \<open>select\<close>: the set of descriptors is filled once, before the loop. A timeout leaves it empty, and
  from then on every \<open>select\<close> waits for nothing but the next timeout; an error leaves it alone.
\<close>

fun select_loop :: "bool \<Rightarrow> char list \<Rightarrow> timed_event list \<Rightarrow> served result" where
  "select_loop watched buf [] = Inr ([], False)"
| "select_loop watched buf (Timed_Out # es) = select_loop False buf es"
| "select_loop watched buf (Recv_Error # es) = select_loop watched buf es"
| "select_loop watched buf (Gram a d # es) =
     (if \<not> watched then select_loop watched buf es
      else bindR (handle_msg buf (take MSG_BUF d)) (\<lambda>h. case h of
        Exits buf' \<Rightarrow> Inr ([], True)
      | Replies r buf' \<Rightarrow> then_serve a r (select_loop watched buf' es)))"

definition select_timeout_test :: "char list \<Rightarrow> timed_event list \<Rightarrow> served result" where
  "select_timeout_test buf es = select_loop True buf es"

text \<open>
  \<open>alarm\<close>: armed before \<open>recvfrom\<close>, cleared after a turn; the signal interrupts the call. A timeout
  cannot come while no alarm is armed.
\<close>

fun alarm_turn :: "bool \<Rightarrow> char list \<Rightarrow> timed_event list \<Rightarrow> served result" where
  "alarm_turn armed buf [] = Inr ([], False)"
| "alarm_turn armed buf (Timed_Out # es) = (if armed then alarm_turn True buf es else Inr ([], False))"
| "alarm_turn armed buf (Recv_Error # es) = alarm_turn True buf es"
| "alarm_turn armed buf (Gram a d # es) =
     bindR (handle_msg buf (take MSG_BUF d)) (\<lambda>h. case h of
        Exits buf' \<Rightarrow> Inr ([], True)
      | Replies r buf' \<Rightarrow> then_serve a r (alarm_turn True buf' es))"

definition signal_timeout_test :: "char list \<Rightarrow> timed_event list \<Rightarrow> served result" where
  "signal_timeout_test buf es = alarm_turn True buf es"

subsection \<open>Stream servers\<close>

datatype conn_end =
    Conn_Exit
  | Conn_Waits
  | Conn_Dies

text \<open>
  One connection of the iterative server, and of the child of the forking server: neither an error
  nor the end of the stream leaves the loop. \<open>None\<close>: it turns for ever.
\<close>

partial_function (option) conn_loop :: "char list \<Rightarrow> recv_event list \<Rightarrow> (string list \<times> conn_end \<times> char list) result option" where
  "conn_loop buf es =
     (case brecv MSG_BUF es of
        (Blocks, es') \<Rightarrow> Some (Inr ([], Conn_Waits, buf))
      | (Shut, es') \<Rightarrow> conn_loop buf es'
      | (Fails e, es') \<Rightarrow> conn_loop buf es'
      | (Got d, es') \<Rightarrow>
          (case handle_msg buf d of
             Inl f \<Rightarrow> Some (Inl f)
           | Inr (Exits buf') \<Rightarrow> Some (Inr ([], Conn_Exit, buf'))
           | Inr (Replies r buf') \<Rightarrow>
               Option.bind (conn_loop buf' es') (\<lambda>k. Some (map_sum id (\<lambda>(rs, q). (r # rs, q)) k))))"

text \<open>The iterative server: the next client is accepted when the one before has said \<open>exit\<close>.\<close>

fun loop_server_test :: "char list \<Rightarrow> recv_event list list \<Rightarrow> string list list result option" where
  "loop_server_test buf [] = Some (Inr [])"
| "loop_server_test buf (c # cs) =
     (case conn_loop buf c of
        None \<Rightarrow> None
      | Some (Inl f) \<Rightarrow> Some (Inl f)
      | Some (Inr (rs, Conn_Exit, buf')) \<Rightarrow>
          Option.bind (loop_server_test buf' cs) (\<lambda>k. Some (map_sum id ((#) rs) k))
      | Some (Inr (rs, _, buf')) \<Rightarrow> Some (Inr [rs]))"

text \<open>The forking server: a child for every client, each with the array as the parent left it.\<close>

definition fork_server_test :: "recv_event list list \<Rightarrow> (string list \<times> conn_end \<times> char list) result option list" where
  "fork_server_test cs = map (conn_loop (replicate MSG_BUF NUL)) cs"

text \<open>The Unix-domain server gives up the whole process when the stream ends.\<close>

function unix_server_test :: "char list \<Rightarrow> recv_event list \<Rightarrow> (string list \<times> conn_end) result" where
  "unix_server_test buf es =
     (case brecv MSG_BUF es of
        (Blocks, es') \<Rightarrow> Inr ([], Conn_Waits)
      | (Shut, es') \<Rightarrow> Inr ([], Conn_Dies)
      | (Fails e, es') \<Rightarrow> unix_server_test buf es'
      | (Got d, es') \<Rightarrow>
          (if d = [] then Inr ([], Conn_Dies)
           else bindR (handle_msg buf d) (\<lambda>h. case h of
               Exits buf' \<Rightarrow> Inr ([], Conn_Exit)
             | Replies r buf' \<Rightarrow> bindR (unix_server_test buf' es') (\<lambda>(rs, q). Inr (r # rs, q)))))"
  by pat_completeness auto
termination
  by (relation "measure (\<lambda>(buf, es). script_size es)") (auto dest: brecv_Got_size[OF sym] brecv_Fails[OF sym])

declare unix_server_test.simps [simp del]

subsection \<open>The select server\<close>

text \<open>
  \<open>select_server_test2\<close>: the set of watched descriptors, the largest one, one buffer for all of them.
  \<open>FD_SET\<close> with a descriptor the set has no bit for is a store out of bounds.
\<close>

record select_server =
  read_fds :: "int list"
  max_fd :: int
  sel_buf :: "char list"

definition FD_SETSIZE :: int where "FD_SETSIZE = 1024"

definition select_start :: "int \<Rightarrow> select_server" where
  "select_start server_fd = \<lparr>read_fds = [server_fd], max_fd = server_fd, sel_buf = replicate MSG_BUF NUL\<rparr>"

datatype fd_event =
    Accepts int
  | Says int string
  | Hangs_Up int
  | Read_Error int

definition FD_CLR :: "int \<Rightarrow> int list \<Rightarrow> int list" where
  "FD_CLR i fds = filter (\<lambda>j. j \<noteq> i) fds"

text \<open>
  One ready descriptor: the listening one when a client is accepted (or the call fails with -1), else
  the connection itself. What is not in the set, or above the largest, is not looked at.
\<close>

definition sees :: "select_server \<Rightarrow> int \<Rightarrow> bool" where
  "sees s i \<longleftrightarrow> i \<in> set (read_fds s) \<and> 0 \<le> i \<and> i < max_fd s + 1"

fun select_event :: "int \<Rightarrow> fd_event \<Rightarrow> select_server \<Rightarrow> (select_server \<times> sys_call list) result" where
  "select_event server_fd (Accepts fd) s =
     (if \<not> sees s server_fd then Inr (s, [])
      else if fd < 0 \<or> FD_SETSIZE \<le> fd then Inl (Bad_Store fd)
      else Inr (s\<lparr>read_fds := read_fds s @ [fd], max_fd := (if fd > max_fd s then fd else max_fd s)\<rparr>, []))"
| "select_event server_fd (Read_Error i) s = Inr (s, [])"
| "select_event server_fd (Hangs_Up i) s =
     (if i = server_fd \<or> \<not> sees s i then Inr (s, [])
      else Inr (s\<lparr>read_fds := FD_CLR i (read_fds s)\<rparr>, [Close i]))"
| "select_event server_fd (Says i d) s =
     (if i = server_fd \<or> \<not> sees s i then Inr (s, [])
      else bindR (handle_msg (sel_buf s) (take MSG_BUF d)) (\<lambda>h. case h of
          Exits buf \<Rightarrow> Inr (s\<lparr>read_fds := FD_CLR i (read_fds s), sel_buf := buf\<rparr>, [Close i])
        | Replies r buf \<Rightarrow> Inr (s\<lparr>sel_buf := buf\<rparr>, [Send i r])))"

fun select_run :: "int \<Rightarrow> fd_event list \<Rightarrow> select_server \<Rightarrow> (select_server \<times> sys_call list) result" where
  "select_run server_fd [] s = Inr (s, [])"
| "select_run server_fd (e # es) s =
     bindR (select_event server_fd e s) (\<lambda>(s1, cs1).
     bindR (select_run server_fd es s1) (\<lambda>(s2, cs2). Inr (s2, cs1 @ cs2)))"

subsection \<open>The client\<close>

record msg_client =
  mc_in :: string
  mc_buf :: "char list"

datatype client_turn =
    C_Leaves string
  | C_Prints string string msg_client

text \<open>
  A turn of the datagram client (src/08) whose server's answer is a function of what it sends;
  \<open>None\<close> is a failed \<open>recvfrom\<close>.
\<close>

definition udp_client_test :: "(string \<Rightarrow> string option) \<Rightarrow> msg_client \<Rightarrow> client_turn result" where
  "udp_client_test net c =
     bindR (fgets (mc_buf c) MSG_BUF (mc_in c)) (\<lambda>(buf, inp).
     bindR (chop_newline buf) (\<lambda>buf.
     bindR (cstr buf 0) (\<lambda>sent.
       if take 4 buf = ''exit'' then Inr (C_Leaves sent)
       else (case net sent of
          None \<Rightarrow> bindR (store buf (- 1) NUL) (\<lambda>buf. bindR (cstr buf 0) (\<lambda>t.
            Inr (C_Prints sent (''server '' @ t @ [LF]) \<lparr>mc_in = inp, mc_buf = buf\<rparr>)))
        | Some d \<Rightarrow>
            bindR (blit buf 0 (take MSG_BUF d)) (\<lambda>buf.
            bindR (store buf (int (length (take MSG_BUF d))) NUL) (\<lambda>buf.
            bindR (cstr buf 0) (\<lambda>t.
              Inr (C_Prints sent (''server '' @ t @ [LF]) \<lparr>mc_in = inp, mc_buf = buf\<rparr>))))))))"

subsection \<open>One message\<close>

definition SUFFIX :: string where "SUFFIX = ''-server''"

lemma blit_msg: "length buf = MSG_BUF \<Longrightarrow> length d \<le> MSG_BUF \<Longrightarrow> blit buf 0 d = Inr (d @ drop (length d) buf)"
  by (simp add: blit_def)

lemma handle_ok:
  assumes "length buf = MSG_BUF" "NUL \<notin> set d" "length d + length SUFFIX < MSG_BUF" "take 4 (d @ drop (length d) buf) \<noteq> ''exit''"
  shows "\<exists>buf'. handle_msg buf d = Inr (Replies (d @ SUFFIX) buf') \<and> length buf' = MSG_BUF \<and> cstr buf' 0 = Inr (d @ SUFFIX)"
proof -
  obtain b1 b2 where b: "blit buf 0 d = Inr b1" "store b1 (int (length d)) NUL = Inr b2" "length b2 = MSG_BUF" "cstr b2 0 = Inr d"
    using recv_terminate[of d buf] assms(1-3) by auto
  moreover have "take 4 b1 \<noteq> ''exit''" using b(1) assms(1,3,4) by (simp add: blit_msg)
  moreover have "NUL \<notin> set SUFFIX" by (simp add: SUFFIX_def)
  then obtain b3 where "strcat b2 SUFFIX = Inr b3" "length b3 = MSG_BUF" "cstr b3 0 = Inr (d @ SUFFIX)"
    using strcat_ok[OF b(4), of SUFFIX] assms(3) b(3) by auto
  ultimately show ?thesis by (simp add: handle_msg_def SUFFIX_def)
qed

text \<open>
  Handling a message is safe exactly up to 1016 bytes: shorter texts are answered with the suffix
  appended, 1017 to 1024 bytes make \<open>strcat\<close> or the terminator write past the buffer.
\<close>

theorem handle_msg_bound:
  assumes "length buf = MSG_BUF" "NUL \<notin> set d" "length d \<le> MSG_BUF" "take 4 (d @ drop (length d) buf) \<noteq> ''exit''"
  shows "if length d + length SUFFIX < MSG_BUF
    then \<exists>buf'. handle_msg buf d = Inr (Replies (d @ SUFFIX) buf') \<and> length buf' = MSG_BUF \<and> cstr buf' 0 = Inr (d @ SUFFIX)
    else handle_msg buf d = Inl (Bad_Store (int MSG_BUF))"
proof (cases "length d < MSG_BUF")
  case False
  then have "length d = MSG_BUF" using assms(3) by simp
  then show ?thesis using assms(1,4) by (simp add: handle_msg_def blit_msg store_def SUFFIX_def)
next
  case True
  show ?thesis
  proof (cases "length d + length SUFFIX < MSG_BUF")
    case False
    obtain b1 b2 where b: "blit buf 0 d = Inr b1" "store b1 (int (length d)) NUL = Inr b2" "length b2 = MSG_BUF" "cstr b2 0 = Inr d"
      using recv_terminate[of d buf] True assms(1,2) by auto
    have "take 4 b1 \<noteq> ''exit''" using b(1) assms(1,3,4) by (simp add: blit_msg)
    moreover have "strcat b2 ''-server'' = Inl (Bad_Store (int MSG_BUF))"
      using b(3,4) False by (simp add: strcat_def blit_def SUFFIX_def)
    ultimately show ?thesis using b False by (simp add: handle_msg_def)
  qed (use handle_ok[OF assms(1,2) _ assms(4)] in simp)
qed

theorem handle_msg_bound_witness:
  "handle_msg (replicate MSG_BUF NUL) (replicate 1017 (CHR ''x'')) = Inl (Bad_Store 1024)"
proof -
  have "take 4 (replicate 1017 (CHR ''x'') @ drop 1017 (replicate MSG_BUF NUL)) \<noteq> ''exit''"
    by (simp add: MSG_BUF_def eval_nat_numeral)
  then show ?thesis
    using handle_msg_bound[of "replicate MSG_BUF NUL" "replicate 1017 (CHR ''x'')"] by (simp add: MSG_BUF_def SUFFIX_def)
qed

text \<open>Messages of at least four bytes hide what is left in the buffer.\<close>

definition plain_msg :: "string \<Rightarrow> bool" where
  "plain_msg d \<longleftrightarrow> NUL \<notin> set d \<and> 4 \<le> length d \<and> length d + length SUFFIX < MSG_BUF"

lemma take_short: "4 \<le> length d \<Longrightarrow> take 4 (d @ xs) = take 4 d"
  by simp

lemma handle_plain:
  assumes "plain_msg d" "length buf = MSG_BUF" "take 4 d \<noteq> ''exit''"
  shows "\<exists>buf'. handle_msg buf d = Inr (Replies (d @ SUFFIX) buf') \<and> length buf' = MSG_BUF \<and> cstr buf' 0 = Inr (d @ SUFFIX)"
  using assms take_short[of d] by (intro handle_ok) (simp_all add: plain_msg_def)

lemma handle_exit:
  assumes "plain_msg d" "length buf = MSG_BUF" "take 4 d = ''exit''"
  shows "\<exists>buf'. handle_msg buf d = Inr (Exits buf') \<and> length buf' = MSG_BUF"
  using assms by (simp add: handle_msg_def blit_msg plain_msg_def take_short)

lemma plain_fits: "plain_msg d \<Longrightarrow> take MSG_BUF d = d"
  by (simp add: plain_msg_def)

subsection \<open>The three time limits\<close>

text \<open>What a client may expect: answers in order, up to the first \<open>exit\<close>.\<close>

fun answers :: "timed_event list \<Rightarrow> (nat \<times> string) list \<times> bool" where
  "answers [] = ([], False)"
| "answers (Gram a d # es) =
     (if take 4 d = ''exit'' then ([], True) else (let (rs, q) = answers es in ((a, d @ SUFFIX) # rs, q)))"
| "answers (_ # es) = answers es"

definition plain_events :: "timed_event list \<Rightarrow> bool" where
  "plain_events es \<longleftrightarrow> (\<forall>a d. Gram a d \<in> set es \<longrightarrow> plain_msg d)"

lemma timeout_answers:
  "plain_events es \<Longrightarrow> length buf = MSG_BUF \<Longrightarrow> timeout_test buf es = Inr (answers es)"
proof (induction es arbitrary: buf)
  case Nil
  then show ?case by simp
next
  case (Cons e es)
  then have IH: "\<And>b. length b = MSG_BUF \<Longrightarrow> timeout_test b es = Inr (answers es)" by (simp add: plain_events_def)
  show ?case
  proof (cases e)
    case (Gram a d)
    then have p: "plain_msg d" using Cons.prems(1) by (auto simp: plain_events_def)
    show ?thesis
    proof (cases "take 4 d = ''exit''")
      case True
      then show ?thesis using Gram handle_exit[OF p Cons.prems(2)] p by (auto simp: plain_fits)
    next
      case False
      then show ?thesis using Gram handle_plain[OF p Cons.prems(2)] p IH
        by (auto simp: plain_fits then_serve_def split: prod.split)
    qed
  qed (use IH Cons.prems(2) in auto)
qed

lemma alarm_same: "alarm_turn True buf es = timeout_test buf es"
  by (induction buf es rule: timeout_test.induct)
    (auto simp: then_serve_def bindR_def split: sum.split handled.split)

lemma select_dead: "select_loop False buf es = Inr ([], False)"
  by (induction "False" buf es rule: select_loop.induct) auto

lemma select_prefix: "select_loop True buf es = timeout_test buf (takeWhile (\<lambda>e. e \<noteq> Timed_Out) es)"
  by (induction buf es rule: timeout_test.induct)
    (auto simp: select_dead then_serve_def bindR_def split: sum.split handled.split)

text \<open>
  C36. The three time limits compared: the socket option and the alarm serve the same answers on every
  sequence of messages, errors and timeouts; the \<open>select\<close> version serves only what came before its
  first timeout, and nothing ever after.
\<close>

theorem time_limits_compared:
  "signal_timeout_test buf es = timeout_test buf es
   \<and> select_timeout_test buf es = timeout_test buf (takeWhile (\<lambda>e. e \<noteq> Timed_Out) es)"
  by (simp add: signal_timeout_test_def select_timeout_test_def alarm_same select_prefix)

text \<open>
  The server with the socket option answers every message of four to 1016 bytes to its sender,
  whatever timeouts and errors come between, until a message begins with \<open>exit\<close>.
\<close>

theorem timeout_test_answers:
  assumes "plain_events es"
  shows "timeout_test (replicate MSG_BUF NUL) es = Inr (answers es)"
  by (rule timeout_answers[OF assms]) simp

theorem timeout_test_answers_witness:
  "timeout_test (replicate MSG_BUF NUL) [Gram 1 ''hello'', Timed_Out, Gram 2 ''again'', Recv_Error, Gram 1 ''exit!'', Gram 2 ''late'']
    = Inr ([(1, ''hello-server''), (2, ''again-server'')], True)"
  by (subst timeout_test_answers) (simp_all add: plain_events_def plain_msg_def SUFFIX_def MSG_BUF_def eval_nat_numeral)

text \<open>
  A short message can stop the server: the rest of the word is taken from the answer to the
  message before. After an answer whose first four bytes end like \<open>exit\<close>, a beginning of \<open>exit\<close> from
  anyone is an exit.
\<close>

theorem stale_exit:
  assumes "plain_msg d1" "take 4 d1 \<noteq> ''exit''" "length d2 < 4" "d2 @ drop (length d2) (take 4 d1) = ''exit''"
    and "length buf = MSG_BUF"
  shows "timeout_test buf (Gram a d1 # Gram b d2 # es) = Inr ([(a, d1 @ SUFFIX)], True)"
proof -
  obtain buf' where h: "handle_msg buf d1 = Inr (Replies (d1 @ SUFFIX) buf')" "length buf' = MSG_BUF" "cstr buf' 0 = Inr (d1 @ SUFFIX)"
    using handle_plain[OF assms(1,5,2)] by blast
  obtain r where "buf' = (d1 @ SUFFIX) @ NUL # r" using h(3) by (auto simp: cstr_iff)
  then have "take 4 (d2 @ drop (length d2) buf') = d2 @ drop (length d2) (take 4 d1)"
    using assms(1,3) by (simp add: plain_msg_def drop_take)
  then have "handle_msg buf' d2 = Inr (Exits (d2 @ drop (length d2) buf'))"
    using assms(3,4) h(2) by (simp add: handle_msg_def blit_msg MSG_BUF_def)
  moreover have "take MSG_BUF d2 = d2" using assms(3) by (simp add: MSG_BUF_def)
  ultimately show ?thesis using h(1) assms(1) by (simp add: plain_fits then_serve_def)
qed

theorem stale_exit_witness:
  "timeout_test (replicate MSG_BUF NUL) [Gram 1 ''quit'', Gram 2 ''ex'', Gram 1 ''still there''] = Inr ([(1, ''quit-server'')], True)"
  using stale_exit[of "''quit''" "''ex''" "replicate MSG_BUF NUL" 1 2 "[Gram 1 ''still there'']"]
  by (simp add: plain_msg_def SUFFIX_def MSG_BUF_def)

subsection \<open>Streams\<close>

definition suffixed :: "string list \<Rightarrow> string list" where
  "suffixed ds = List.map (\<lambda>d. d @ SUFFIX) ds"

definition talk :: "string list \<Rightarrow> bool" where
  "talk ds \<longleftrightarrow> (\<forall>d \<in> set ds. plain_msg d \<and> take 4 d \<noteq> ''exit'')"

lemma brecv_plain: "plain_msg d \<Longrightarrow> brecv MSG_BUF (Data d # es) = (Got d, es)"
  by (auto simp: plain_msg_def MSG_BUF_def)

lemma conn_loop_eof: "conn_loop buf (Eof # es) = None"
proof (rule ccontr)
  assume "conn_loop buf (Eof # es) \<noteq> None"
  then obtain y where y: "conn_loop buf (Eof # es) = Some y" by blast
  have "xs \<noteq> Eof # es" if "conn_loop b xs = Some y" for b xs y
  proof (rule conn_loop.raw_induct[where P = "\<lambda>b xs y. xs \<noteq> Eof # es", OF _ that], goal_cases)
    case (1 f b xs y)
    show ?case
    proof
      assume xs: "xs = Eof # es"
      then have "f b xs = Some y" using 1(2) by simp
      then show False using 1(1) xs by blast
    qed
  qed
  from this[OF y] show False by simp
qed

lemma conn_loop_talk:
  assumes "talk ds" "length buf = MSG_BUF"
  shows "\<exists>buf'. length buf' = MSG_BUF \<and> conn_loop buf (List.map Data ds @ es) =
    Option.bind (conn_loop buf' es) (\<lambda>k. Some (map_sum id (\<lambda>(rs, q). (suffixed ds @ rs, q)) k))"
  using assms
proof (induction ds arbitrary: buf)
  case Nil
  have id: "(\<lambda>k :: (string list \<times> conn_end \<times> char list) result. Some (map_sum id (\<lambda>(rs, q). (suffixed [] @ rs, q)) k)) = Some"
    by (auto simp: suffixed_def fun_eq_iff map_sum.id[unfolded id_def] id_def split_beta)
  show ?case using Nil.prems(2) by (intro exI[of _ buf]) (simp add: id[unfolded id_def])
next
  case (Cons d ds)
  then have p: "plain_msg d" "take 4 d \<noteq> ''exit''" "talk ds" by (simp_all add: talk_def)
  obtain b1 where b1: "handle_msg buf d = Inr (Replies (d @ SUFFIX) b1)" "length b1 = MSG_BUF"
    using handle_plain[OF p(1) Cons.prems(2) p(2)] by blast
  then obtain b2 where b2: "length b2 = MSG_BUF" "conn_loop b1 (List.map Data ds @ es) =
      Option.bind (conn_loop b2 es) (\<lambda>k. Some (map_sum id (\<lambda>(rs, q). (suffixed ds @ rs, q)) k))"
    using Cons.IH[OF p(3)] by blast
  have "conn_loop buf (List.map Data (d # ds) @ es) =
      Option.bind (conn_loop b1 (List.map Data ds @ es)) (\<lambda>k. Some (map_sum id (\<lambda>(rs, q). ((d @ SUFFIX) # rs, q)) k))"
    using b1(1) by (subst conn_loop.simps) (simp add: brecv_plain[OF p(1)] del: brecv.simps)
  also have "\<dots> = Option.bind (conn_loop b2 es) (\<lambda>k. Some (map_sum id (\<lambda>(rs, q). (suffixed (d # ds) @ rs, q)) k))"
    unfolding b2(2) by (cases "conn_loop b2 es") (auto simp: suffixed_def sum.map_comp comp_def id_def case_prod_unfold)
  finally show ?case using b2(1) by blast
qed

lemma conn_loop_exit:
  assumes "talk ds" "length buf = MSG_BUF" "plain_msg x" "take 4 x = ''exit''"
  shows "\<exists>buf'. conn_loop buf (List.map Data ds @ Data x # es) = Some (Inr (suffixed ds, Conn_Exit, buf')) \<and> length buf' = MSG_BUF"
proof -
  obtain b1 where b1: "length b1 = MSG_BUF" "conn_loop buf (List.map Data ds @ Data x # es) =
      Option.bind (conn_loop b1 (Data x # es)) (\<lambda>k. Some (map_sum id (\<lambda>(rs, q). (suffixed ds @ rs, q)) k))"
    using conn_loop_talk[OF assms(1,2)] by blast
  obtain b2 where "handle_msg b1 x = Inr (Exits b2)" "length b2 = MSG_BUF" using handle_exit[OF assms(3) b1(1) assms(4)] by blast
  moreover from this have "conn_loop b1 (Data x # es) = Some (Inr ([], Conn_Exit, b2))"
    by (subst conn_loop.simps) (simp add: brecv_plain[OF assms(3)] del: brecv.simps)
  ultimately show ?thesis using b1(2) by simp
qed

text \<open>
  The iterative server needs every client's \<open>exit\<close>: clients that say it are answered one after the
  other, but the first one that closes its connection without it keeps the server for ever, and the
  clients behind it are never served.
\<close>

theorem loop_server_clients:
  assumes "\<forall>ds \<in> set dss. talk ds" "length buf = MSG_BUF" "talk left"
  shows "loop_server_test buf (List.map (\<lambda>ds. List.map Data ds @ [Data ''exit'']) dss) = Some (Inr (List.map suffixed dss))
    \<and> loop_server_test buf (List.map (\<lambda>ds. List.map Data ds @ [Data ''exit'']) dss @ (List.map Data left @ [Eof]) # cs) = None"
  using assms(1,2)
proof (induction dss arbitrary: buf)
  case Nil
  then show ?case using conn_loop_talk[OF assms(3) Nil(2), of "[Eof]"] by (auto simp: conn_loop_eof)
next
  case (Cons ds dss)
  have "plain_msg ''exit''" by (simp add: plain_msg_def SUFFIX_def MSG_BUF_def)
  then obtain buf' where "conn_loop buf (List.map Data ds @ [Data ''exit'']) = Some (Inr (suffixed ds, Conn_Exit, buf'))"
    "length buf' = MSG_BUF"
    using conn_loop_exit[of ds buf "''exit''" "[]"] Cons.prems by auto
  then show ?case using Cons.IH[of buf'] Cons.prems(1) by simp
qed

theorem loop_server_clients_witness:
  "loop_server_test (replicate MSG_BUF NUL) [[Data ''hello'', Data ''exit''], [Data ''again'', Eof], [Data ''never'']] = None"
  using loop_server_clients[of "[[''hello'']]" "replicate MSG_BUF NUL" "[''again'']" "[[Data ''never'']]"]
  by (simp add: talk_def plain_msg_def SUFFIX_def MSG_BUF_def)

text \<open>
  With a process for each client nobody waits for another: a client that says \<open>exit\<close> is answered whatever the
  others do, while the child of one that closes its connection without it turns for ever.
\<close>

theorem fork_server_clients:
  assumes "i < length cs" "talk ds"
  shows "(cs ! i = map Data ds @ [Data ''exit''] \<longrightarrow> (\<exists>b. fork_server_test cs ! i = Some (Inr (suffixed ds, Conn_Exit, b))))
    \<and> (cs ! i = map Data ds @ [Eof] \<longrightarrow> fork_server_test cs ! i = None)"
proof -
  have p: "plain_msg ''exit''" by (simp add: plain_msg_def SUFFIX_def MSG_BUF_def)
  have l: "length (replicate MSG_BUF NUL) = MSG_BUF" by simp
  have "\<exists>b. conn_loop (replicate MSG_BUF NUL) (map Data ds @ [Data ''exit'']) = Some (Inr (suffixed ds, Conn_Exit, b))"
    using conn_loop_exit[OF assms(2) l p, of "[]"] by auto
  moreover have "conn_loop (replicate MSG_BUF NUL) (map Data ds @ [Eof]) = None"
    using conn_loop_talk[OF assms(2) l, of "[Eof]"] by (auto simp: conn_loop_eof)
  ultimately show ?thesis using assms(1) by (simp add: fork_server_test_def)
qed

theorem fork_server_clients_witness:
  "fork_server_test [[Data ''again'', Eof], [Data ''hello'', Data ''exit'']] ! 0 = None"
  using fork_server_clients[of 0 "[[Data ''again'', Eof], [Data ''hello'', Data ''exit'']]" "[''again'']"]
  by (simp add: talk_def plain_msg_def SUFFIX_def MSG_BUF_def)

text \<open>The Unix-domain server, by contrast, ends with the stream.\<close>

lemma unix_server_ends:
  assumes "talk ds" "length buf = MSG_BUF"
  shows "unix_server_test buf (List.map Data ds @ Eof # es) = Inr (suffixed ds, Conn_Dies)"
  using assms
proof (induction ds arbitrary: buf)
  case Nil
  then show ?case by (subst unix_server_test.simps) (simp add: suffixed_def)
next
  case (Cons d ds)
  then have p: "plain_msg d" "take 4 d \<noteq> ''exit''" "talk ds" by (simp_all add: talk_def)
  moreover from p(1) have "d \<noteq> []" by (auto simp: plain_msg_def)
  ultimately show ?case
    using handle_plain[OF p(1) Cons.prems(2) p(2)] Cons.IH[OF p(3)]
    by (subst unix_server_test.simps) (auto simp: brecv_plain suffixed_def simp del: brecv.simps)
qed

subsection \<open>One buffer for all\<close>

text \<open>
  What the select loop keeps: the listening descriptor stays in the set, every watched descriptor is
  within the range the loop runs over and has a bit in the set, the buffer has its size.
\<close>

definition select_inv :: "int \<Rightarrow> select_server \<Rightarrow> bool" where
  "select_inv server_fd s \<longleftrightarrow> server_fd \<in> set (read_fds s) \<and> (\<forall>i \<in> set (read_fds s). 0 \<le> i \<and> i \<le> max_fd s)
     \<and> max_fd s < FD_SETSIZE \<and> length (sel_buf s) = MSG_BUF"

lemma handle_length:
  "handle_msg buf d = Inr h \<Longrightarrow> length buf = MSG_BUF \<Longrightarrow> (case h of Exits b \<Rightarrow> length b = MSG_BUF | Replies r b \<Rightarrow> length b = MSG_BUF)"
  by (auto simp: handle_msg_def bindR_eq_Inr strcat_def dest!: length_blit length_store split: if_splits)

lemma select_event_inv:
  assumes "select_event server_fd e s = Inr (s', cs)" "select_inv server_fd s"
  shows "select_inv server_fd s'"
proof (cases e)
  case (Accepts fd)
  then show ?thesis using assms by (fastforce simp: select_inv_def split: if_splits)
next
  case (Says i d)
  show ?thesis
  proof (cases "i = server_fd \<or> \<not> sees s i")
    case False
    then obtain h where h: "handle_msg (sel_buf s) (take MSG_BUF d) = Inr h"
      using assms(1) Says by (auto simp: bindR_eq_Inr)
    show ?thesis
      using handle_length[OF h] assms False Says h by (cases h) (auto simp: select_inv_def FD_CLR_def)
  qed (use assms Says in auto)
next
  case (Hangs_Up i)
  then show ?thesis using assms by (auto simp: select_inv_def FD_CLR_def split: if_splits)
next
  case (Read_Error i)
  then show ?thesis using assms by auto
qed

lemma select_run_inv: "select_run server_fd es s = Inr (s', cs) \<Longrightarrow> select_inv server_fd s \<Longrightarrow> select_inv server_fd s'"
proof (induction es arbitrary: s cs)
  case (Cons e es)
  then obtain s1 cs1 cs2 where "select_event server_fd e s = Inr (s1, cs1)" "select_run server_fd es s1 = Inr (s', cs2)"
    by (auto simp: bindR_eq_Inr)
  then show ?case using select_event_inv Cons by blast
qed simp

text \<open>
  Every state the select server reaches is well-formed: it keeps listening, looks at every
  descriptor it watches, and watches only descriptors that fit the set.
\<close>

theorem select_server_inv:
  assumes "select_run server_fd es (select_start server_fd) = Inr (s, cs)" "0 \<le> server_fd" "server_fd < FD_SETSIZE"
  shows "select_inv server_fd s \<and> (\<forall>i \<in> set (read_fds s). sees s i)"
proof -
  have "select_inv server_fd (select_start server_fd)" using assms(2,3) by (simp add: select_inv_def select_start_def)
  then have "select_inv server_fd s" using select_run_inv[OF assms(1)] by blast
  then show ?thesis by (auto simp: select_inv_def sees_def)
qed

theorem select_server_inv_witness:
  "\<exists>s cs. select_run 3 [Accepts 4, Accepts 5, Hangs_Up 4] (select_start 3) = Inr (s, cs) \<and> select_inv 3 s"
proof -
  obtain s cs where r: "select_run 3 [Accepts 4, Accepts 5, Hangs_Up 4] (select_start 3) = Inr (s, cs)"
    by (simp add: select_start_def sees_def FD_SETSIZE_def)
  then show ?thesis using select_server_inv[OF r] by (simp add: FD_SETSIZE_def)
qed

text \<open>
  The clients of the select server share a buffer, and not only in the source: a client's short
  message is read together with the rest of the answer to another client, so that one client's words
  can make the other one be hung up on.
\<close>

theorem select_cross_client:
  assumes "select_inv server_fd s" "sees s i" "sees s j" "i \<noteq> server_fd" "j \<noteq> server_fd"
    and "plain_msg d1" "take 4 d1 \<noteq> ''exit''" "length d2 < 4" "d2 @ drop (length d2) (take 4 d1) = ''exit''"
  shows "\<exists>s'. select_run server_fd [Says i d1, Says j d2] s = Inr (s', [Send i (d1 @ SUFFIX), Close j])
    \<and> j \<notin> set (read_fds s')"
proof -
  have buf: "length (sel_buf s) = MSG_BUF" using assms(1) by (simp add: select_inv_def)
  obtain buf' where h: "handle_msg (sel_buf s) d1 = Inr (Replies (d1 @ SUFFIX) buf')" "length buf' = MSG_BUF" "cstr buf' 0 = Inr (d1 @ SUFFIX)"
    using handle_plain[OF assms(6) buf assms(7)] by blast
  obtain r where "buf' = (d1 @ SUFFIX) @ NUL # r" using h(3) by (auto simp: cstr_iff)
  then have "take 4 (d2 @ drop (length d2) buf') = d2 @ drop (length d2) (take 4 d1)"
    using assms(6,8) by (simp add: plain_msg_def drop_take)
  then have "handle_msg buf' d2 = Inr (Exits (d2 @ drop (length d2) buf'))"
    using assms(8,9) h(2) by (simp add: handle_msg_def blit_msg MSG_BUF_def)
  moreover have "take MSG_BUF d2 = d2" using assms(8) by (simp add: MSG_BUF_def)
  ultimately show ?thesis using h(1) assms(2-6) by (auto simp: plain_fits sees_def FD_CLR_def)
qed

theorem select_cross_client_witness:
  "\<exists>s'. select_run 3 [Says 4 ''quit'', Says 5 ''ex''] \<lparr>read_fds = [3, 4, 5], max_fd = 5, sel_buf = replicate MSG_BUF NUL\<rparr>
      = Inr (s', [Send 4 ''quit-server'', Close 5]) \<and> 5 \<notin> set (read_fds s')"
proof -
  let ?s = "\<lparr>read_fds = [3, 4, 5], max_fd = 5, sel_buf = replicate MSG_BUF NUL\<rparr>"
  have "select_inv 3 ?s" "sees ?s 4" "sees ?s 5" by (simp_all add: select_inv_def sees_def FD_SETSIZE_def)
  from select_cross_client[OF this, of "''quit''" "''ex''"] show ?thesis
    by (simp add: plain_msg_def SUFFIX_def MSG_BUF_def)
qed

subsection \<open>A client and its server\<close>

text \<open>What the datagram server makes of one message, as the client sees it.\<close>

definition server_net :: "char list \<Rightarrow> string \<Rightarrow> string option" where
  "server_net buf sent = (case handle_msg buf (take MSG_BUF sent) of Inr (Replies r b) \<Rightarrow> Some r | _ \<Rightarrow> None)"

text \<open>
  Client and server together: a line of 4 to 1016 bytes is printed with the server's suffix, a line
  that begins with \<open>exit\<close> is sent and ends the client.
\<close>

theorem client_server_turn:
  assumes "plain_msg l" "LF \<notin> set l" "length buf = MSG_BUF" "length sbuf = MSG_BUF"
  shows "if take 4 l = ''exit''
    then udp_client_test (server_net sbuf) \<lparr>mc_in = l @ LF # rest, mc_buf = buf\<rparr> = Inr (C_Leaves l)
    else \<exists>c. udp_client_test (server_net sbuf) \<lparr>mc_in = l @ LF # rest, mc_buf = buf\<rparr>
      = Inr (C_Prints l (''server '' @ l @ SUFFIX @ [LF]) c) \<and> mc_in c = rest \<and> length (mc_buf c) = MSG_BUF"
proof -
  have n: "NUL \<notin> set l" "length l + 2 \<le> MSG_BUF" using assms(1) by (auto simp: plain_msg_def SUFFIX_def)
  obtain b1 where b1: "fgets buf MSG_BUF (l @ LF # rest) = Inr (b1, rest)" "length b1 = MSG_BUF" "cstr b1 0 = Inr (l @ [LF])"
    using fgets_line[OF assms(2) n(1,2), of buf rest] assms(3) by auto
  obtain b2 where b2: "chop_newline b1 = Inr b2" "length b2 = MSG_BUF" "cstr b2 0 = Inr l"
    using chop_newline_line[OF b1(3)] b1(2) by auto
  have t: "take 4 b2 = take 4 l" using b2(3) assms(1) by (auto simp: cstr_iff plain_msg_def)
  show ?thesis
  proof (cases "take 4 l = ''exit''")
    case True
    then show ?thesis using b1 b2 t by (simp add: udp_client_test_def)
  next
    case False
    then have r: "server_net sbuf l = Some (l @ SUFFIX)"
      using handle_plain[OF assms(1,4)] by (auto simp: server_net_def plain_fits[OF assms(1)])
    have s: "length (l @ SUFFIX) < MSG_BUF" "NUL \<notin> set (l @ SUFFIX)" using assms(1) by (auto simp: plain_msg_def SUFFIX_def)
    then obtain b3 b4 where "blit b2 0 (l @ SUFFIX) = Inr b3" "store b3 (int (length (l @ SUFFIX))) NUL = Inr b4"
      "length b4 = MSG_BUF" "cstr b4 0 = Inr (l @ SUFFIX)"
      using recv_terminate[of "l @ SUFFIX" b2] b2(2) by auto
    then show ?thesis using b1 b2 t r s False by (simp add: udp_client_test_def)
  qed
qed

theorem client_server_turn_witness:
  "\<exists>c. udp_client_test (server_net (replicate MSG_BUF NUL)) \<lparr>mc_in = ''hello'' @ LF # [], mc_buf = replicate MSG_BUF NUL\<rparr>
      = Inr (C_Prints ''hello'' (''server hello-server'' @ [LF]) c)"
  using client_server_turn[of "''hello''" "replicate MSG_BUF NUL" "replicate MSG_BUF NUL" "[]"]
  by (auto simp: plain_msg_def SUFFIX_def MSG_BUF_def)

end
