(* ===== verification/Epoll_Echo.thy ===== *)
theory Epoll_Echo
  imports Posix "HOL-Library.Sublist"
begin

text \<open>
  The echo servers of src/47_epoll/main.cpp: the same handler under level-triggered and edge-triggered
  notification, and the loop until \<open>EAGAIN\<close> that makes the edge-triggered one right. One connection,
  the kernel's side of it (what has arrived, what waits to be read, whether there is something new to
  report) and the server's side (what has been written back) form a step relation; connections do not
  touch each other, since the buffer they share is overwritten before it is used.
\<close>

subsection \<open>A connection\<close>

record epoll_conn =
  arrived :: string
  unread :: string
  errors :: nat
  peer_closed :: bool
  edge :: bool
  echoed :: string
  registered :: bool

text \<open>
  The connection as \<open>accept\<close> and \<open>EPOLL_CTL_ADD\<close> leave it, with what has come in the meantime; adding
  a descriptor that is ready counts as news.
\<close>

definition epoll_new :: "string \<Rightarrow> epoll_conn" where
  "epoll_new d = \<lparr>arrived = d, unread = d, errors = 0, peer_closed = False, edge = (d \<noteq> []), echoed = [],
     registered = True\<rparr>"

definition ready :: "epoll_conn \<Rightarrow> bool" where
  "ready c \<longleftrightarrow> unread c \<noteq> [] \<or> 0 < errors c \<or> peer_closed c"

text \<open>The four servers differ in the size of the buffer and in how they are told and how they read.\<close>

datatype trigger = Level | Edge | Edge_Loop

text \<open>What \<open>epoll_wait\<close> reports.\<close>

definition reported :: "trigger \<Rightarrow> epoll_conn \<Rightarrow> bool" where
  "reported t c \<longleftrightarrow> registered c \<and> (if t = Level then ready c else edge c \<and> ready c)"

text \<open>
  One \<open>read\<close> with the branch after it: an error counts as data of length -1 whose \<open>write\<close> fails, 0
  takes the descriptor out and closes it, bytes are written back. \<open>None\<close> is a \<open>read\<close> that blocks,
  or \<open>EAGAIN\<close> on the descriptor of the last server.
\<close>

definition read_write :: "nat \<Rightarrow> epoll_conn \<Rightarrow> epoll_conn option" where
  "read_write n c =
     (if 0 < errors c then Some (c\<lparr>errors := errors c - 1\<rparr>)
      else if unread c \<noteq> [] then
        Some (c\<lparr>unread := drop n (unread c), echoed := echoed c @ take n (unread c)\<rparr>)
      else if peer_closed c then Some (c\<lparr>registered := False\<rparr>)
      else None)"

definition echo_once :: "nat \<Rightarrow> epoll_conn \<Rightarrow> epoll_conn" where
  "echo_once n c = (case read_write n c of None \<Rightarrow> c | Some c' \<Rightarrow> c')"

text \<open>The inner loop of the last server: until the descriptor is closed or there is nothing to read.\<close>

function echo_drain :: "nat \<Rightarrow> epoll_conn \<Rightarrow> epoll_conn" where
  "echo_drain n c =
     (if n = 0 then c
      else case read_write n c of
        None \<Rightarrow> c
      | Some c' \<Rightarrow> if registered c' then echo_drain n c' else c')"
  by pat_completeness auto
termination
  by (relation "measure (\<lambda>(n, c). errors c + length (unread c) + (if registered c then 1 else 0))")
    (auto simp: read_write_def split: if_splits)

declare echo_drain.simps [simp del]

definition on_report :: "trigger \<Rightarrow> nat \<Rightarrow> epoll_conn \<Rightarrow> epoll_conn" where
  "on_report t n c =
     (let c' = c\<lparr>edge := False\<rparr> in if t = Edge_Loop then echo_drain n c' else echo_once n c')"

definition epoll_echo_server :: "epoll_conn \<Rightarrow> epoll_conn" where
  "epoll_echo_server = on_report Level 256"

definition epoll_lt_server :: "epoll_conn \<Rightarrow> epoll_conn" where
  "epoll_lt_server = on_report Level 2"

definition epoll_et_server :: "epoll_conn \<Rightarrow> epoll_conn" where
  "epoll_et_server = on_report Edge 2"

definition epoll_et_server2 :: "epoll_conn \<Rightarrow> epoll_conn" where
  "epoll_et_server2 = on_report Edge_Loop 2"

subsection \<open>Steps\<close>

text \<open>The peer sends or closes, the connection has an error, or the server handles a report.\<close>

inductive epoll_step :: "trigger \<Rightarrow> nat \<Rightarrow> epoll_conn \<Rightarrow> epoll_conn \<Rightarrow> bool" for t n where
  arrives: "\<not> peer_closed c \<Longrightarrow> d \<noteq> [] \<Longrightarrow>
     epoll_step t n c (c\<lparr>arrived := arrived c @ d, unread := unread c @ d, edge := True\<rparr>)"
| closes: "\<not> peer_closed c \<Longrightarrow> epoll_step t n c (c\<lparr>peer_closed := True, edge := True\<rparr>)"
| fails: "\<not> peer_closed c \<Longrightarrow> epoll_step t n c (c\<lparr>errors := Suc (errors c), edge := True\<rparr>)"
| handles: "reported t c \<Longrightarrow> epoll_step t n c (on_report t n c)"

inductive_cases epoll_stepE: "epoll_step t n c c'"

inductive epoll_reach :: "trigger \<Rightarrow> nat \<Rightarrow> epoll_conn \<Rightarrow> bool" for t n where
  start: "epoll_reach t n (epoll_new d)"
| step: "epoll_reach t n c \<Longrightarrow> epoll_step t n c c' \<Longrightarrow> epoll_reach t n c'"

subsection \<open>Nothing is lost or reordered\<close>

definition conn_inv :: "epoll_conn \<Rightarrow> bool" where
  "conn_inv c \<longleftrightarrow> arrived c = echoed c @ unread c \<and> (\<not> registered c \<longrightarrow> peer_closed c \<and> unread c = [])"

lemma read_write_inv: "read_write n c = Some c' \<Longrightarrow> conn_inv c \<Longrightarrow> conn_inv c'"
  by (auto simp: read_write_def conn_inv_def split: if_splits)

lemma echo_drain_inv: "conn_inv c \<Longrightarrow> conn_inv (echo_drain n c)"
proof (induction n c rule: echo_drain.induct)
  case (1 n c)
  show ?case
  proof (cases "n = 0 \<or> read_write n c = None")
    case True
    then show ?thesis using 1(2) by (subst echo_drain.simps) auto
  next
    case False
    then obtain c' where c': "read_write n c = Some c'" by auto
    then have "conn_inv c'" using read_write_inv 1(2) by blast
    then show ?thesis using 1(1)[OF _ c'] False c' by (subst echo_drain.simps) simp
  qed
qed

lemma on_report_inv: "conn_inv c \<Longrightarrow> conn_inv (on_report t n c)"
proof -
  assume "conn_inv c"
  then have "conn_inv (c\<lparr>edge := False\<rparr>)" by (simp add: conn_inv_def)
  then show ?thesis
    by (auto simp: on_report_def Let_def echo_once_def echo_drain_inv intro: read_write_inv split: option.split)
qed

lemma epoll_step_inv: "epoll_step t n c c' \<Longrightarrow> conn_inv c \<Longrightarrow> conn_inv c'"
  by (erule epoll_stepE) (auto simp: on_report_inv, auto simp: conn_inv_def)

lemma epoll_reach_inv: "epoll_reach t n c \<Longrightarrow> conn_inv c"
proof (induction rule: epoll_reach.induct)
  case (start d)
  then show ?case by (simp add: conn_inv_def epoll_new_def)
next
  case (step c c')
  then show ?case using epoll_step_inv by blast
qed

subsection \<open>When the server has nothing left to do\<close>

text \<open>Readiness the server has not been told of: only the plain edge-triggered server can have it.\<close>

lemma read_write_edge: "read_write n c = Some c' \<Longrightarrow> edge c' = edge c"
  by (auto simp: read_write_def split: if_splits)

lemma echo_drain_done:
  "0 < n \<Longrightarrow> registered c \<Longrightarrow> registered (echo_drain n c) \<Longrightarrow> \<not> ready (echo_drain n c)"
proof (induction n c rule: echo_drain.induct)
  case (1 n c)
  show ?case
  proof (cases "read_write n c")
    case None
    then show ?thesis using 1(2) by (subst echo_drain.simps) (simp add: read_write_def ready_def split: if_splits)
  next
    case (Some c')
    then have "echo_drain n c = (if registered c' then echo_drain n c' else c')"
      using 1(2) by (subst echo_drain.simps) simp
    then show ?thesis using 1(1)[OF _ Some] 1(2,4) by (auto split: if_splits)
  qed
qed

definition told :: "epoll_conn \<Rightarrow> bool" where
  "told c \<longleftrightarrow> (registered c \<and> ready c \<longrightarrow> edge c)"

lemma told_reach:
  assumes "epoll_reach Edge_Loop n c" and "0 < n"
  shows "told c"
  using assms(1)
proof (induction rule: epoll_reach.induct)
  case (start d)
  then show ?case by (auto simp: told_def epoll_new_def ready_def)
next
  case (step c c')
  from step.hyps(2) show ?case
  proof (cases rule: epoll_step.cases)
    case handles
    then show ?thesis
      using echo_drain_done[of n "c\<lparr>edge := False\<rparr>"] assms(2) by (auto simp: told_def on_report_def reported_def)
  qed (auto simp: told_def)
qed


lemma reach_hello:
  "epoll_reach t 2 ((epoll_new ''hello'')\<lparr>peer_closed := True, edge := True\<rparr>)"
  by (rule epoll_reach.step[OF epoll_reach.start epoll_step.closes]) (simp add: epoll_new_def)


text \<open>
  Edge-triggered with one \<open>read\<close> for a report, bytes are stranded: a client that sends five bytes
  and closes gets two back, the rest stays unread, the connection stays open, and nothing will be
  reported any more.
\<close>

theorem edge_triggered_strands:
  "\<exists>c. epoll_reach Edge 2 c \<and> \<not> reported Edge c \<and> arrived c = ''hello'' \<and> echoed c = ''he'' \<and> registered c
    \<and> peer_closed c \<and> (\<forall>c'. \<not> epoll_step Edge 2 c c')"
proof -
  let ?c = "(epoll_new ''hello'')\<lparr>peer_closed := True, edge := True\<rparr>"
  let ?d = "on_report Edge 2 ?c"
  have "reported Edge ?c" by (simp add: reported_def epoll_new_def ready_def)
  then have r: "epoll_reach Edge 2 ?d" using epoll_reach.step[OF reach_hello epoll_step.handles] by blast
  have d: "?d = ?c\<lparr>edge := False, unread := ''llo'', echoed := ''he''\<rparr>"
    by (simp add: on_report_def epoll_new_def echo_once_def read_write_def)
  then have q: "\<not> reported Edge ?d" "peer_closed ?d" by (simp_all add: reported_def)
  then have "\<not> epoll_step Edge 2 ?d c'" for c' by (auto elim: epoll_stepE)
  then show ?thesis using r q d by (intro exI[of _ ?d]) (simp add: epoll_new_def)
qed

text \<open>
  Level-triggered reports cannot go on for ever: without new input every report takes something
  away, so that at most as many reports follow as there are errors and bytes, and one for the close.
\<close>

definition work_left :: "epoll_conn \<Rightarrow> nat" where
  "work_left c = errors c + length (unread c) + (if registered c then 1 else 0)"

lemma level_report_less: "0 < n \<Longrightarrow> reported Level c \<Longrightarrow> work_left (on_report Level n c) < work_left c"
  by (auto simp: reported_def ready_def on_report_def echo_once_def read_write_def work_left_def Let_def)

lemma level_reports_end:
  assumes "0 < n"
  shows "\<exists>k \<le> work_left c. \<not> reported Level ((on_report Level n ^^ k) c)"
proof (induction "work_left c" arbitrary: c rule: less_induct)
  case less
  show ?case
  proof (cases "reported Level c")
    case False
    then show ?thesis by (intro exI[of _ 0]) simp
  next
    case True
    then obtain k where k: "k \<le> work_left (on_report Level n c)" "\<not> reported Level ((on_report Level n ^^ k) (on_report Level n c))"
      using less level_report_less[OF assms] by blast
    then have "Suc k \<le> work_left c" using level_report_less[OF assms True] by simp
    then show ?thesis using k(2) by (intro exI[of _ "Suc k"]) (simp add: funpow_swap1)
  qed
qed

theorem level_server_settles:
  assumes "epoll_reach Level 2 c"
  shows "\<exists>k \<le> work_left c. echoed ((epoll_lt_server ^^ k) c) = arrived c"
proof -
  obtain k where k: "k \<le> work_left c" "\<not> reported Level ((epoll_lt_server ^^ k) c)"
    using level_reports_end[of 2 c] by (auto simp: epoll_lt_server_def)
  have "conn_inv ((epoll_lt_server ^^ j) c) \<and> arrived ((epoll_lt_server ^^ j) c) = arrived c" for j
  proof (induction j)
    case 0
    then show ?case using epoll_reach_inv[OF assms] by simp
  next
    case (Suc j)
    have "arrived (on_report Level 2 x) = arrived x" for x
      by (simp add: on_report_def Let_def echo_once_def read_write_def)
    then show ?case using Suc on_report_inv by (simp add: epoll_lt_server_def)
  qed
  then have "conn_inv ((epoll_lt_server ^^ k) c)" "arrived ((epoll_lt_server ^^ k) c) = arrived c" by blast+
  then show ?thesis using k by (intro exI[of _ k]) (auto simp: reported_def ready_def conn_inv_def)
qed

theorem level_server_settles_witness:
  "\<exists>k \<le> work_left (epoll_new ''hello''). echoed ((epoll_lt_server ^^ k) (epoll_new ''hello'')) = ''hello''"
  using level_server_settles[OF epoll_reach.start, of "''hello''"] by (simp add: epoll_new_def)

end
