(* ===== verification/Deadlock.thy ===== *)
theory Deadlock
  imports Locks
begin

text \<open>
  The two demonstrations of src/84_multi_threading/main.cpp with mutexes: two threads that take two
  locks in opposite orders, and a process that forks while another thread holds a lock, with the
  handlers of \<open>pthread_atfork\<close> that are meant to save it.
\<close>

subsection \<open>Two locks\<close>

text \<open>
  What a thread does between its calls of the mutexes: \<open>++b\<close>, \<open>b += a++\<close>, \<open>++a\<close>, \<open>a += b++\<close>. The last
  two are done with both mutexes, the others with the mutex of the variable.
\<close>

datatype dl_instr =
    Lock_A | Lock_B | Unlock_A | Unlock_B
  | Inc_A | Inc_B | Add_B_A | Add_A_B

definition routine :: "dl_instr list" where
  "routine = [Lock_B, Inc_B, Lock_A, Add_B_A, Unlock_A, Unlock_B]"

definition deadlock_main :: "dl_instr list" where
  "deadlock_main = [Lock_A, Inc_A, Lock_B, Add_A_B, Unlock_B, Unlock_A]"

record dl_state =
  val_a :: int
  val_b :: int
  mutex_a :: mutex
  mutex_b :: mutex
  main_code :: "dl_instr list"
  thread_code :: "dl_instr list"

definition deadlock_test :: dl_state where
  "deadlock_test = \<lparr>val_a = 0, val_b = 0, mutex_a = mutex_init, mutex_b = mutex_init,
     main_code = deadlock_main, thread_code = routine\<rparr>"

text \<open>One instruction of thread \<open>i\<close> on the variables and the mutexes; \<open>None\<close> when it has to wait.\<close>

fun dl_exec :: "nat \<Rightarrow> dl_instr \<Rightarrow> dl_state \<Rightarrow> dl_state option" where
  "dl_exec i Lock_A s = map_option (\<lambda>m. s\<lparr>mutex_a := m\<rparr>) (mutex_lock i (mutex_a s))"
| "dl_exec i Lock_B s = map_option (\<lambda>m. s\<lparr>mutex_b := m\<rparr>) (mutex_lock i (mutex_b s))"
| "dl_exec i Unlock_A s = map_option (\<lambda>m. s\<lparr>mutex_a := m\<rparr>) (mutex_unlock i (mutex_a s))"
| "dl_exec i Unlock_B s = map_option (\<lambda>m. s\<lparr>mutex_b := m\<rparr>) (mutex_unlock i (mutex_b s))"
| "dl_exec i Inc_A s = Some (s\<lparr>val_a := val_a s + 1\<rparr>)"
| "dl_exec i Inc_B s = Some (s\<lparr>val_b := val_b s + 1\<rparr>)"
| "dl_exec i Add_B_A s = Some (s\<lparr>val_b := val_b s + val_a s, val_a := val_a s + 1\<rparr>)"
| "dl_exec i Add_A_B s = Some (s\<lparr>val_a := val_a s + val_b s, val_b := val_b s + 1\<rparr>)"

definition dl_main_step :: "dl_state \<Rightarrow> dl_state option" where
  "dl_main_step s =
     (case main_code s of [] \<Rightarrow> None | c # cs \<Rightarrow> map_option (\<lambda>s'. s'\<lparr>main_code := cs\<rparr>) (dl_exec 0 c s))"

definition dl_thread_step :: "dl_state \<Rightarrow> dl_state option" where
  "dl_thread_step s =
     (case thread_code s of [] \<Rightarrow> None | c # cs \<Rightarrow> map_option (\<lambda>s'. s'\<lparr>thread_code := cs\<rparr>) (dl_exec 1 c s))"

text \<open>A schedule says who is next, the main thread or the other one.\<close>

fun dl_run :: "bool list \<Rightarrow> dl_state \<Rightarrow> dl_state option" where
  "dl_run [] s = Some s"
| "dl_run (m # ms) s = Option.bind (if m then dl_main_step s else dl_thread_step s) (dl_run ms)"

definition dl_stuck :: "dl_state \<Rightarrow> bool" where
  "dl_stuck s \<longleftrightarrow> dl_main_step s = None \<and> dl_thread_step s = None"

definition dl_joined :: "dl_state \<Rightarrow> bool" where
  "dl_joined s \<longleftrightarrow> main_code s = [] \<and> thread_code s = []"

subsection \<open>Every schedule\<close>

text \<open>The states after one more step, and the states after a number of steps.\<close>

definition dl_succs :: "dl_state \<Rightarrow> dl_state list" where
  "dl_succs s = (case dl_main_step s of None \<Rightarrow> [] | Some t \<Rightarrow> [t]) @ (case dl_thread_step s of None \<Rightarrow> [] | Some t \<Rightarrow> [t])"

fun dl_level :: "nat \<Rightarrow> dl_state list \<Rightarrow> dl_state list" where
  "dl_level 0 ss = ss"
| "dl_level (Suc k) ss = dl_level k (remdups (concat (map dl_succs ss)))"

lemma dl_level_run: "dl_run ms s = Some t \<Longrightarrow> s \<in> set ss \<Longrightarrow> t \<in> set (dl_level (length ms) ss)"
proof (induction ms arbitrary: s ss)
  case (Cons m ms)
  then obtain u where u: "(if m then dl_main_step s else dl_thread_step s) = Some u" "dl_run ms u = Some t"
    by (auto simp: bind_eq_Some_conv)
  then have "u \<in> set (dl_succs s)" by (auto simp: dl_succs_def split: if_splits)
  then have "u \<in> set (remdups (concat (map dl_succs ss)))" using Cons.prems(2) by auto
  then show ?case using Cons.IH[OF u(2)] by simp
qed simp

definition dl_work :: "dl_state \<Rightarrow> nat" where
  "dl_work s = length (main_code s) + length (thread_code s)"

lemma dl_exec_codes: "dl_exec i c s = Some t \<Longrightarrow> main_code t = main_code s \<and> thread_code t = thread_code s"
  by (cases c) auto

lemma dl_run_work: "dl_run ms s = Some t \<Longrightarrow> dl_work t + length ms = dl_work s"
proof (induction ms arbitrary: s)
  case (Cons m ms)
  then obtain u where u: "(if m then dl_main_step s else dl_thread_step s) = Some u" "dl_run ms u = Some t"
    by (auto simp: bind_eq_Some_conv)
  then have "Suc (dl_work u) = dl_work s"
    by (auto simp: dl_main_step_def dl_thread_step_def dl_work_def dest!: dl_exec_codes split: if_splits list.splits)
  then show ?case using Cons.IH[OF u(2)] by simp
qed simp

text \<open>What a schedule that has come to its end may have left.\<close>

definition dl_outcome :: "dl_state \<Rightarrow> bool" where
  "dl_outcome s \<longleftrightarrow>
     (if dl_joined s then (val_a s, val_b s) \<in> {(2, 3), (3, 2)} \<and> mutex_a s = None \<and> mutex_b s = None
      else mutex_a s = Some 0 \<and> mutex_b s = Some 1)"

lemma dl_levels: "list_all (\<lambda>k. list_all (\<lambda>s. dl_stuck s \<longrightarrow> dl_outcome s) (dl_level k [deadlock_test])) [0..<13]"
  by code_simp

text \<open>
  C22. Every schedule of \<open>deadlock_test\<close> that has come to its end is one of two things: both threads
  have finished, one entirely before the other took its second lock, with the values of the one
  order or of the other; or each holds the lock the other waits for, for ever.
\<close>

theorem deadlock_outcomes:
  assumes "dl_run ms deadlock_test = Some s" "dl_stuck s"
  shows "dl_outcome s"
proof -
  have "length ms \<le> 12" using dl_run_work[OF assms(1)] by (simp add: dl_work_def deadlock_test_def deadlock_main_def routine_def)
  then have "length ms \<in> set [0..<13]" by simp
  then show ?thesis using dl_levels dl_level_run[OF assms(1), of "[deadlock_test]"] assms(2) by (auto simp: list_all_iff)
qed

lemma dl_examples:
  "map_option (\<lambda>s. (dl_stuck s, dl_joined s, val_a s, val_b s)) (dl_run (replicate 6 True @ replicate 6 False) deadlock_test) = Some (True, True, 2, 3)"
  "map_option (\<lambda>s. (dl_stuck s, dl_joined s, val_a s, val_b s)) (dl_run (replicate 6 False @ replicate 6 True) deadlock_test) = Some (True, True, 3, 2)"
  "map_option (\<lambda>s. (dl_stuck s, dl_joined s, val_a s, val_b s)) (dl_run [False, True, False, True] deadlock_test) = Some (True, False, 1, 1)"
  by code_simp+

theorem deadlock_outcomes_witness:
  "\<exists>s. dl_run [False, True, False, True] deadlock_test = Some s \<and> dl_stuck s \<and> \<not> dl_joined s \<and> dl_outcome s"
proof -
  obtain s where "dl_run [False, True, False, True] deadlock_test = Some s" "dl_stuck s" "\<not> dl_joined s"
    using dl_examples(3) by auto
  then show ?thesis using deadlock_outcomes by blast
qed

subsection \<open>Fork and a lock\<close>

datatype af_instr = AF_Lock | AF_Unlock | AF_Fork

text \<open>
  \<open>routine2\<close>; the forking thread, where \<open>fork\<close> runs \<open>prepare\<close> before it copies the process, \<open>parent\<close> and
  \<open>child\<close> after it; the child's own use of the lock.
\<close>

definition routine2 :: "af_instr list" where
  "routine2 = [AF_Lock, AF_Unlock]"

definition forking :: "bool \<Rightarrow> af_instr list" where
  "forking handlers = (if handlers then [AF_Lock, AF_Fork, AF_Unlock] else [AF_Fork])"

definition child_code :: "bool \<Rightarrow> af_instr list" where
  "child_code handlers = (if handlers then [AF_Unlock] else []) @ [AF_Lock, AF_Unlock]"

text \<open>The child has a copy of the mutex and one thread, the copy of the one that forked.\<close>

record af_state =
  mux :: mutex
  af_main :: "af_instr list"
  af_thread :: "af_instr list"
  af_child :: "(mutex \<times> af_instr list) option"

definition parent_child_lock :: "bool \<Rightarrow> af_state" where
  "parent_child_lock handlers =
     \<lparr>mux = mutex_init, af_main = forking handlers, af_thread = routine2, af_child = None\<rparr>"

datatype af_actor = Main_Thread | Other_Thread | Child_Process

definition af_mutex :: "nat \<Rightarrow> af_instr \<Rightarrow> mutex \<Rightarrow> mutex option" where
  "af_mutex i c m = (case c of AF_Lock \<Rightarrow> mutex_lock i m | AF_Unlock \<Rightarrow> mutex_unlock i m | AF_Fork \<Rightarrow> None)"

fun af_step :: "bool \<Rightarrow> af_actor \<Rightarrow> af_state \<Rightarrow> af_state option" where
  "af_step h Main_Thread s =
     (case af_main s of
        [] \<Rightarrow> None
      | c # cs \<Rightarrow>
          if c = AF_Fork then Some (s\<lparr>af_main := cs, af_child := Some (mux s, child_code h)\<rparr>)
          else map_option (\<lambda>m. s\<lparr>mux := m, af_main := cs\<rparr>) (af_mutex 0 c (mux s)))"
| "af_step h Other_Thread s =
     (case af_thread s of
        [] \<Rightarrow> None
      | c # cs \<Rightarrow> map_option (\<lambda>m. s\<lparr>mux := m, af_thread := cs\<rparr>) (af_mutex 1 c (mux s)))"
| "af_step h Child_Process s =
     (case af_child s of
        Some (m, c # cs) \<Rightarrow> map_option (\<lambda>m'. s\<lparr>af_child := Some (m', cs)\<rparr>) (af_mutex 0 c m)
      | _ \<Rightarrow> None)"

inductive af_reach :: "bool \<Rightarrow> af_state \<Rightarrow> bool" for h where
  af_start: "af_reach h (parent_child_lock h)"
| af_next: "af_reach h s \<Longrightarrow> af_step h a s = Some s' \<Longrightarrow> af_reach h s'"

text \<open>With the handlers the child starts with the lock held by its own thread, and gives it back first.\<close>

definition af_inv :: "af_state \<Rightarrow> bool" where
  "af_inv s \<longleftrightarrow>
     (af_main s = [AF_Fork, AF_Unlock] \<longrightarrow> mux s = Some 0)
   \<and> af_main s \<in> {forking True, [AF_Fork, AF_Unlock], [AF_Unlock], []}
   \<and> af_child s \<in> {None, Some (Some 0, child_code True), Some (None, [AF_Lock, AF_Unlock]), Some (Some 0, [AF_Unlock]), Some (None, [])}"

lemma af_reach_inv: "af_reach True s \<Longrightarrow> af_inv s"
proof (induction rule: af_reach.induct)
  case af_start
  then show ?case by (simp add: af_inv_def parent_child_lock_def forking_def)
next
  case (af_next s a s')
  show ?case
  proof (cases a)
    case Main_Thread
    then show ?thesis using af_next(2,3)
      by (auto simp: af_inv_def forking_def af_mutex_def mutex_lock_def mutex_unlock_def split: list.splits if_splits af_instr.splits)
  next
    case Other_Thread
    then show ?thesis using af_next(2,3)
      by (auto simp: af_inv_def forking_def af_mutex_def mutex_lock_def mutex_unlock_def split: list.splits if_splits af_instr.splits)
  next
    case Child_Process
    then show ?thesis using af_next(2,3)
      by (auto simp: af_inv_def child_code_def af_mutex_def mutex_lock_def mutex_unlock_def split: list.splits if_splits af_instr.splits)
  qed
qed

text \<open>
  With the handlers of \<open>pthread_atfork\<close> the child is never dl_stuck, whenever the fork happens and
  whatever the other thread does: it can always go on until it has taken and released the lock.
\<close>

theorem atfork_child_runs:
  assumes "af_reach True s" "af_child s = Some (m, c # cs)"
  shows "\<exists>s'. af_step True Child_Process s = Some s'"
  using af_reach_inv[OF assms(1)] assms(2)
  by (auto simp: af_inv_def child_code_def af_mutex_def mutex_lock_def mutex_unlock_def)

lemma af_reach_steps: "af_reach h s \<Longrightarrow> af_step h a s = Some s' \<Longrightarrow> af_step h b s' = Some s'' \<Longrightarrow> af_reach h s''"
  using af_reach.af_next by blast

lemma atfork_forked: "af_reach True \<lparr>mux = Some 0, af_main = [AF_Unlock], af_thread = routine2, af_child = Some (Some 0, child_code True)\<rparr>"
  by (rule af_reach_steps[OF af_reach.af_start, where a = Main_Thread and b = Main_Thread])
    (simp add: parent_child_lock_def forking_def af_mutex_def mutex_lock_def mutex_init_def,
     simp add: forking_def)

theorem atfork_child_runs_witness:
  "\<exists>s'. af_step True Child_Process \<lparr>mux = Some 0, af_main = [AF_Unlock], af_thread = routine2, af_child = Some (Some 0, child_code True)\<rparr> = Some s'"
  by (rule atfork_child_runs[OF atfork_forked]) (simp add: child_code_def)

text \<open>
  Without the handlers a fork at the wrong moment leaves the child with a lock held by a thread it
  does not have: there is a reachable state from which, whatever happens, the child never moves.
\<close>

theorem fork_without_handlers_hangs:
  "\<exists>s. af_reach False s \<and> (\<exists>m c cs. af_child s = Some (m, c # cs))
    \<and> (\<forall>as t. fold (\<lambda>a r. Option.bind r (af_step False a)) as (Some s) = Some t \<longrightarrow> af_step False Child_Process t = None)"
proof -
  let ?s = "\<lparr>mux = Some 1, af_main = [], af_thread = [AF_Unlock], af_child = Some (Some 1, [AF_Lock, AF_Unlock])\<rparr>"
  have r: "af_reach False ?s"
    by (rule af_reach_steps[OF af_reach.af_start, where a = Other_Thread and b = Main_Thread])
      (simp add: parent_child_lock_def forking_def routine2_def af_mutex_def mutex_lock_def mutex_init_def,
       simp add: child_code_def)
  have dead: "af_child t = Some (Some 1, [AF_Lock, AF_Unlock]) \<and> af_main t = []"
    if "fold (\<lambda>a r. Option.bind r (af_step False a)) as (Some u) = Some t"
      "af_child u = Some (Some 1, [AF_Lock, AF_Unlock]) \<and> af_main u = []" for as t u
    using that
  proof (induction "as" arbitrary: u)
    case Nil
    then show ?case by simp
  next
    case (Cons a "as")
    have none: "fold (\<lambda>a r. Option.bind r (af_step False a)) bs None = None" for bs by (induction bs) simp_all
    obtain v where v: "af_step False a u = Some v" using Cons.prems(1) none by (cases "af_step False a u") auto
    then have "af_child v = Some (Some 1, [AF_Lock, AF_Unlock]) \<and> af_main v = []"
      using Cons.prems(2) by (cases a) (auto simp: af_mutex_def mutex_lock_def split: list.splits)
    then show ?case using Cons.IH[of v] Cons.prems(1) v by simp
  qed
  have "af_step False Child_Process t = None"
    if "fold (\<lambda>a r. Option.bind r (af_step False a)) as (Some ?s) = Some t" for as t
    using dead[OF that] by (simp add: af_mutex_def mutex_lock_def)
  then show ?thesis using r by (intro exI[of _ ?s]) auto
qed

end
