(* ===== verification/Stress_Client.thy ===== *)
theory Stress_Client
  imports Posix
begin

text \<open>
  The load generator of src/86_server_modulate_debug_test/main.cpp: it opens connections, sends the
  same request over each of them whenever it can be written, reads once when there is an answer and
  asks to be told of the other direction.
\<close>

subsection \<open>Writing and reading\<close>

text \<open>
  \<open>write_bytes\<close>: the results of \<open>send\<close> are a script, a script that is used up is an error of the
  non-blocking socket. The value returned, what has gone out, and the rest of the script.
\<close>

fun write_bytes :: "string \<Rightarrow> send_event list \<Rightarrow> bool \<times> string \<times> send_event list" where
  "write_bytes buf [] = (False, [], [])"
| "write_bytes buf (Send_Err e # es) = (False, [], es)"
| "write_bytes buf (Sent n # es) =
     (let k = min n (length buf) in
      if k = 0 then (False, [], es)
      else if length buf - k = 0 then (True, take k buf, es)
      else (let (r, out, es') = write_bytes (drop k buf) es in (r, take k buf @ out, es')))"

definition READ_BUF :: nat where "READ_BUF = 2048"

text \<open>\<open>read_once\<close> prints what it has read as a string, out of a buffer it has cleared.\<close>

definition read_once :: "recv_event list \<Rightarrow> (string option \<times> recv_event list) result" where
  "read_once es =
     (case recv READ_BUF es of
        (Failed e, es') \<Rightarrow> Inr (None, es')
      | (Closed, es') \<Rightarrow> Inr (None, es')
      | (Bytes d, es') \<Rightarrow>
          bindR (blit (replicate READ_BUF NUL) 0 d) (\<lambda>buf.
          bindR (cstr buf 0) (\<lambda>t. Inr (Some t, es'))))"

subsection \<open>Connections\<close>

definition stress_request :: string where
  "stress_request = ''GET / HTTP/1.1'' @ CRLF @ ''Connection: keep-alive'' @ CRLF @ CRLF @ ''xxxxxxxxxxxxxxxxxxx''"

definition WAIT_OUT :: "32 word" where "WAIT_OUT = EPOLLOUT OR EPOLLET OR EPOLLERR"
definition WAIT_IN :: "32 word" where "WAIT_IN = EPOLLIN OR EPOLLET OR EPOLLERR"

definition addfd_out :: "int \<Rightarrow> sys_call list" where
  "addfd_out fd = [Epoll_Add fd WAIT_OUT, Set_Nonblock fd]"

text \<open>\<open>start_conn\<close>: what \<open>socket\<close> and \<open>connect\<close> give for every attempt; a descriptor whose \<open>connect\<close> fails is left.\<close>

fun start_conn :: "(int \<times> bool) list \<Rightarrow> sys_call list" where
  "start_conn [] = []"
| "start_conn ((fd, connected) # cs) =
     (if fd < 0 then start_conn cs
      else if connected then addfd_out fd @ start_conn cs
      else start_conn cs)"

definition stress_close :: "int \<Rightarrow> sys_call list" where
  "stress_close fd = [Epoll_Del fd, Close fd]"

text \<open>A connection's two scripts; one event with the calls it makes.\<close>

record stress_conn =
  from_server :: "recv_event list"
  to_server :: "send_event list"
  delivered :: string

definition stress_event :: "int \<Rightarrow> 32 word \<Rightarrow> stress_conn \<Rightarrow> (stress_conn \<times> sys_call list) result" where
  "stress_event fd ev c =
     (if ev AND EPOLLIN \<noteq> 0 then
        bindR (read_once (from_server c)) (\<lambda>(t, es).
          Inr (c\<lparr>from_server := es\<rparr>, (if t = None then stress_close fd else []) @ [Epoll_Mod fd WAIT_OUT]))
      else if ev AND EPOLLOUT \<noteq> 0 then
        (let (r, out, es) = write_bytes stress_request (to_server c) in
         Inr (c\<lparr>to_server := es, delivered := delivered c @ out\<rparr>, (if r then [] else stress_close fd) @ [Epoll_Mod fd WAIT_IN]))
      else if ev AND EPOLLERR \<noteq> 0 then Inr (c, stress_close fd)
      else Inr (c, []))"

subsection \<open>Partial writes\<close>

text \<open>
  \<open>write_bytes\<close> tells the truth about partial writes: it returns true exactly when every byte has
  gone out, in order, and when it returns false what has gone out is a proper beginning.
\<close>

theorem write_bytes_all:
  assumes "buf \<noteq> []"
  shows "case write_bytes buf es of (r, out, es') \<Rightarrow>
    if r then out = buf else length out < length buf \<and> out = take (length out) buf"
  using assms
proof (induction buf es rule: write_bytes.induct)
  case (3 buf n es)
  let ?k = "min n (length buf)"
  show ?case
  proof (cases "?k = 0 \<or> length buf - ?k = 0")
    case True
    then show ?thesis using 3(2) by (auto simp: Let_def min_def split: if_splits)
  next
    case False
    then have k: "?k = n" "0 < n" "n < length buf" by auto
    obtain r out es' where w: "write_bytes (drop n buf) es = (r, out, es')" by (cases "write_bytes (drop n buf) es")
    have IH: "if r then out = drop n buf else length out < length (drop n buf) \<and> out = take (length out) (drop n buf)"
      using 3(1)[OF refl] False w k(2,3) unfolding k(1) by simp
    have "write_bytes buf (Sent n # es) = (r, take n buf @ out, es')" using k w False by (simp add: Let_def)
    moreover have "take n buf @ take (length out) (drop n buf) = take (n + length out) buf" by (simp add: take_add)
    ultimately show ?thesis using IH k by (auto split: if_splits)
  qed
qed auto

theorem write_bytes_all_witness:
  "write_bytes ''abcde'' [Sent 2, Sent 9] = (True, ''abcde'', []) \<and> write_bytes ''abcde'' [Sent 2, Send_Err EAGAIN] = (False, ''ab'', [])"
  using write_bytes_all[of "''abcde''" "[Sent 2, Sent 9]"] by simp

subsection \<open>One direction at a time\<close>

lemma kernel_mod: "kernel_call (Epoll_Mod fd ev) k fd = (if k fd = None then None else Some ev)"
  by simp

text \<open>
  A connection waits for one direction at a time and never after it has been closed: after an event
  the kernel has it registered for the other direction, or not at all; no other connection is touched.
\<close>

theorem stress_alternates:
  assumes "stress_event fd ev c = Inr (c', calls)" "k fd \<in> {None, Some WAIT_IN, Some WAIT_OUT}"
  shows "kernel_calls calls k fd \<in> {None, Some WAIT_IN, Some WAIT_OUT}
    \<and> (ev AND EPOLLIN \<noteq> 0 \<longrightarrow> kernel_calls calls k fd \<noteq> Some WAIT_IN)
    \<and> (Close fd \<in> set calls \<longrightarrow> kernel_calls calls k fd = None)
    \<and> (\<forall>fd'. fd' \<noteq> fd \<longrightarrow> kernel_calls calls k fd' = k fd')"
proof -
  have ne: "WAIT_OUT \<noteq> WAIT_IN" by (simp add: WAIT_OUT_def WAIT_IN_def epoll_defs)
  show ?thesis
    using assms ne
    by (auto simp: stress_event_def bindR_eq_Inr stress_close_def split: if_splits prod.splits)
qed

theorem stress_alternates_witness:
  "\<exists>c' calls. stress_event 5 EPOLLIN \<lparr>from_server = [Eof], to_server = [], delivered = []\<rparr> = Inr (c', calls)
    \<and> kernel_calls calls [5 \<mapsto> WAIT_IN] 5 = None"
proof -
  have r: "stress_event 5 EPOLLIN \<lparr>from_server = [Eof], to_server = [], delivered = []\<rparr>
      = Inr (\<lparr>from_server = [Eof], to_server = [], delivered = []\<rparr>, stress_close 5 @ [Epoll_Mod 5 WAIT_OUT])"
    by (simp add: stress_event_def read_once_def EPOLLIN_def)
  then show ?thesis using stress_alternates[OF r, of "[5 \<mapsto> WAIT_IN]"] by (simp add: stress_close_def)
qed

text \<open>
  The buffer is cleared but not longer than what is read into it: an answer of 2048 bytes leaves no
  terminator for the \<open>printf\<close>.
\<close>

theorem read_once_full:
  assumes "length d = READ_BUF" "NUL \<notin> set d"
  shows "read_once (Data d # es) = Inl (Bad_String 0)"
proof -
  have "d \<noteq> []" "0 < READ_BUF" using assms(1) by (auto simp: READ_BUF_def)
  then show ?thesis using assms by (simp add: read_once_def blit_def cstr_def)
qed

theorem read_once_full_witness: "read_once [Data (replicate 2048 (CHR ''x''))] = Inl (Bad_String 0)"
  using read_once_full[of "replicate 2048 (CHR ''x'')" "[]"] by (simp add: READ_BUF_def)

end
