(* ===== verification/Unified_Events.thy ===== *)
theory Unified_Events
  imports Posix
begin

text \<open>
  The unified event source of src/80_signal/main.cpp: signal handlers write the number of the signal
  into a socket pair, and the event loop reads it like any other descriptor. The loop over the reported
  events and the \<open>recv\<close> inside it use the same variable \<open>ret\<close>; the array of events keeps its old entries
  behind the new ones.
\<close>

definition SIGHUP :: nat where "SIGHUP = 1"
definition EVS_LEN :: nat where "EVS_LEN = 1024"

subsection \<open>The signal pipe\<close>

text \<open>
  \<open>sig_handler\<close>: the first byte of the number, into a pipe that does not block: a byte that does not fit
  is dropped.
\<close>

definition sig_send :: "nat \<Rightarrow> nat \<Rightarrow> string \<Rightarrow> string" where
  "sig_send capacity sig pipe = (if length pipe < capacity then pipe @ [char_of (sig mod 256)] else pipe)"

text \<open>The switch: hang-ups and children are ignored, termination and interrupt stop the loop.\<close>

definition sig_stops :: "char \<Rightarrow> bool" where
  "sig_stops c \<longleftrightarrow> of_char c = SIGTERM \<or> of_char c = SIGINT"

definition scan_signals :: "string \<Rightarrow> bool \<Rightarrow> bool" where
  "scan_signals signals stop = fold (\<lambda>c s. if sig_stops c then True else s) signals stop"

subsection \<open>The event loop\<close>

datatype unified_event =
    Ev_Listen
  | Ev_Pipe "32 word"
  | Ev_Client int

record unified =
  pipe :: string
  backlog :: "int list"
  evs :: "unified_event list"
  stopped :: bool

text \<open>\<open>accept\<close> gives the next waiting connection, -1 when there is none; \<open>addfd\<close> does not look.\<close>

definition unified_accept :: "unified \<Rightarrow> unified \<times> sys_call list" where
  "unified_accept s =
     (let cfd = (case backlog s of [] \<Rightarrow> -1 | c # cs \<Rightarrow> c) in
      (s\<lparr>backlog := tl (backlog s)\<rparr>, [Epoll_Add cfd (EPOLLIN OR EPOLLET), Set_Nonblock cfd]))"

text \<open>
  \<open>recv(sig_pipefd[0], signals, 1024, 0)\<close>, its result in \<open>ret\<close>: -1 when the pipe is empty, else what
  fits into the array.
\<close>

definition unified_signals :: "unified \<Rightarrow> int \<times> unified" where
  "unified_signals s =
     (if pipe s = [] then (-1, s)
      else (let d = take EVS_LEN (pipe s) in
        (int (length d), s\<lparr>pipe := drop EVS_LEN (pipe s), stopped := scan_signals d (stopped s)\<rparr>)))"

function event_loop :: "nat \<Rightarrow> int \<Rightarrow> unified \<Rightarrow> (unified \<times> sys_call list) result" where
  "event_loop i ret s =
     (if ret \<le> int i then Inr (s, [])
      else if length (evs s) \<le> i then Inl (Bad_Load (int i))
      else case evs s ! i of
        Ev_Listen \<Rightarrow>
          bindR (event_loop (Suc i) ret (fst (unified_accept s))) (\<lambda>(s', cs). Inr (s', snd (unified_accept s) @ cs))
      | Ev_Pipe ev \<Rightarrow>
          if ev AND EPOLLIN \<noteq> 0 then event_loop (Suc i) (fst (unified_signals s)) (snd (unified_signals s))
          else event_loop (Suc i) ret s
      | Ev_Client fd \<Rightarrow> event_loop (Suc i) ret s)"
  by pat_completeness auto
termination
  by (relation "measure (\<lambda>(i, ret, s). length (evs s) - i)") (auto simp: unified_accept_def unified_signals_def Let_def)

declare event_loop.simps [simp del]

text \<open>One turn: \<open>epoll_wait\<close> stores the new events at the front of the array; an error ends the loop.\<close>

definition unified_turn :: "unified_event list option \<Rightarrow> unified \<Rightarrow> (unified \<times> sys_call list) result option" where
  "unified_turn reported s =
     (case reported of
        None \<Rightarrow> None
      | Some es \<Rightarrow> Some (event_loop 0 (int (length es)) (s\<lparr>evs := es @ drop (length es) (evs s)\<rparr>)))"

fun unified_event_handler :: "unified_event list option list \<Rightarrow> unified \<Rightarrow> (unified \<times> sys_call list) result" where
  "unified_event_handler [] s = Inr (s, [])"
| "unified_event_handler (r # rs) s =
     (if stopped s then Inr (s, [])
      else case unified_turn r s of
        None \<Rightarrow> Inr (s, [])
      | Some t \<Rightarrow> bindR t (\<lambda>(s1, cs1). bindR (unified_event_handler rs s1) (\<lambda>(s2, cs2). Inr (s2, cs1 @ cs2))))"

subsection \<open>The loop stays in the array\<close>

lemma unified_signals_ret: "fst (unified_signals s) \<le> int EVS_LEN"
  by (simp add: unified_signals_def Let_def EVS_LEN_def)

lemma unified_evs [simp]: "evs (snd (unified_signals s)) = evs s" "evs (fst (unified_accept s)) = evs s"
  by (simp_all add: unified_signals_def unified_accept_def Let_def)

lemma event_loop_ok:
  "ret \<le> int (length (evs s)) \<Longrightarrow> length (evs s) = EVS_LEN \<Longrightarrow>
   \<exists>s' cs. event_loop i ret s = Inr (s', cs) \<and> evs s' = evs s"
proof (induction i ret s rule: event_loop.induct)
  case (1 i ret s)
  show ?case
  proof (cases "ret \<le> int i")
    case True
    then show ?thesis by (subst event_loop.simps) simp
  next
    case False
    then have i: "\<not> length (evs s) \<le> i" using 1(5) by linarith
    show ?thesis
    proof (cases "evs s ! i")
      case Ev_Listen
      then show ?thesis using 1(1)[OF False i Ev_Listen] 1(5,6) False i by (subst event_loop.simps) auto
    next
      case (Ev_Pipe ev)
      show ?thesis
      proof (cases "ev AND EPOLLIN \<noteq> 0")
        case True
        then show ?thesis
          using 1(2)[OF False i Ev_Pipe True] unified_signals_ret[of s] 1(6) Ev_Pipe False i
          by (subst event_loop.simps) simp
      next
        case no: False
        then show ?thesis using 1(3)[OF False i Ev_Pipe no] 1(5,6) Ev_Pipe False i by (subst event_loop.simps) simp
      qed
    next
      case (Ev_Client fd)
      then show ?thesis using 1(4)[OF False i Ev_Client] 1(5,6) False i by (subst event_loop.simps) auto
    qed
  qed
qed

text \<open>
  The loop never reads outside the array of events, although its bound is overwritten inside it:
  no more signals are taken at a time than the array has entries.
\<close>

theorem unified_in_bounds:
  assumes "length es \<le> EVS_LEN" "length (evs s) = EVS_LEN"
  shows "\<exists>s' cs. unified_turn (Some es) s = Some (Inr (s', cs)) \<and> length (evs s') = EVS_LEN"
  using assms event_loop_ok[of "int (length es)" "s\<lparr>evs := es @ drop (length es) (evs s)\<rparr>" 0]
  by (auto simp: unified_turn_def)

theorem unified_in_bounds_witness:
  "\<exists>s' cs. unified_turn (Some [Ev_Listen])
      \<lparr>pipe = [], backlog = [7], evs = replicate EVS_LEN (Ev_Client 0), stopped = False\<rparr> = Some (Inr (s', cs))"
  using unified_in_bounds[of "[Ev_Listen]" "\<lparr>pipe = [], backlog = [7], evs = replicate EVS_LEN (Ev_Client 0), stopped = False\<rparr>"]
  by (simp add: EVS_LEN_def) blast

subsection \<open>The bound is overwritten\<close>

lemma event_loop_end: "ret \<le> int i \<Longrightarrow> event_loop i ret s = Inr (s, [])"
  by (subst event_loop.simps) simp

text \<open>
  A signal can cost a connection: when the pipe is reported first and holds one signal, the events
  behind it are not handled, however many \<open>epoll_wait\<close> reported; a client that was reported with it is
  not accepted.
\<close>

theorem signal_hides_events:
  assumes "length (evs s) = EVS_LEN" "length es < EVS_LEN" "pipe s = [c]" "ev AND EPOLLIN \<noteq> 0"
  shows "\<exists>s'. unified_turn (Some (Ev_Pipe ev # es)) s = Some (Inr (s', [])) \<and> backlog s' = backlog s
    \<and> stopped s' = (stopped s \<or> sig_stops c)"
proof -
  let ?s = "s\<lparr>evs := (Ev_Pipe ev # es) @ drop (length (Ev_Pipe ev # es)) (evs s)\<rparr>"
  have sig: "unified_signals ?s = (1, ?s\<lparr>pipe := [], stopped := stopped s \<or> sig_stops c\<rparr>)"
    using assms(3) by (simp add: unified_signals_def EVS_LEN_def scan_signals_def)
  have "event_loop 0 (int (length (Ev_Pipe ev # es))) ?s = event_loop (Suc 0) 1 (?s\<lparr>pipe := [], stopped := stopped s \<or> sig_stops c\<rparr>)"
    using assms(4) sig by (subst event_loop.simps) simp
  then show ?thesis by (simp add: unified_turn_def event_loop_end)
qed

theorem signal_hides_events_witness:
  "\<exists>s'. unified_turn (Some [Ev_Pipe EPOLLIN, Ev_Listen])
      \<lparr>pipe = [char_of SIGHUP], backlog = [7], evs = replicate EVS_LEN (Ev_Client 0), stopped = False\<rparr>
    = Some (Inr (s', [])) \<and> backlog s' = [7]"
  using signal_hides_events[of "\<lparr>pipe = [char_of SIGHUP], backlog = [7], evs = replicate EVS_LEN (Ev_Client 0), stopped = False\<rparr>"
      "[Ev_Listen]" "char_of SIGHUP" EPOLLIN]
  by (auto simp: EVS_LEN_def EPOLLIN_def)

text \<open>
  And signals can make old events happen again: two signals read at once make the loop look at the
  entry behind the pipe's, which is of an earlier turn; if it was the listening socket, -1 is added to
  the interest list.
\<close>

theorem signals_repeat_old_event:
  assumes "length (evs s) = EVS_LEN" "evs s ! 1 = Ev_Listen" "pipe s = [c, d]" "backlog s = []" "ev AND EPOLLIN \<noteq> 0"
  shows "\<exists>s'. unified_turn (Some [Ev_Pipe ev]) s = Some (Inr (s', [Epoll_Add (- 1) (EPOLLIN OR EPOLLET), Set_Nonblock (- 1)]))"
proof -
  let ?s = "s\<lparr>evs := [Ev_Pipe ev] @ drop 1 (evs s)\<rparr>"
  let ?t = "?s\<lparr>pipe := [], stopped := scan_signals [c, d] (stopped s)\<rparr>"
  have sig: "unified_signals ?s = (2, ?t)"
    using assms(3) by (simp add: unified_signals_def EVS_LEN_def)
  have "evs ?t ! 1 = Ev_Listen" "\<not> length (evs ?t) \<le> 1"
    using assms(1,2) by (simp_all add: nth_Cons' EVS_LEN_def)
  then have "event_loop 1 2 ?t = Inr (?t, [Epoll_Add (- 1) (EPOLLIN OR EPOLLET), Set_Nonblock (- 1)])"
    using assms(4) by (subst event_loop.simps) (simp add: event_loop_end unified_accept_def Let_def)
  moreover have "event_loop 0 1 ?s = event_loop 1 2 ?t"
    using assms(5) sig by (subst event_loop.simps) simp
  ultimately show ?thesis by (simp add: unified_turn_def)
qed

theorem signals_repeat_old_event_witness:
  "\<exists>s'. unified_turn (Some [Ev_Pipe EPOLLIN])
      \<lparr>pipe = [char_of SIGCHLD, char_of SIGCHLD], backlog = [], evs = replicate EVS_LEN Ev_Listen, stopped = False\<rparr>
    = Some (Inr (s', [Epoll_Add (- 1) (EPOLLIN OR EPOLLET), Set_Nonblock (- 1)]))"
  by (rule signals_repeat_old_event[of _ "char_of SIGCHLD" "char_of SIGCHLD"]) (simp_all add: EVS_LEN_def EPOLLIN_def)

lemma scan_signals_iff: "scan_signals xs b \<longleftrightarrow> b \<or> (\<exists>x \<in> set xs. sig_stops x)"
  by (induction xs arbitrary: b) (auto simp: scan_signals_def)

lemma event_loop_stopped: "event_loop i ret s = Inr (s', cs) \<Longrightarrow> stopped s \<Longrightarrow> stopped s'"
proof (induction i ret s arbitrary: s' cs rule: event_loop.induct)
  case (1 i ret s)
  show ?case
  proof (cases "ret \<le> int i \<or> length (evs s) \<le> i")
    case True
    then show ?thesis using 1(5,6) by (subst (asm) event_loop.simps) (auto split: if_splits)
  next
    case False
    then have b: "\<not> ret \<le> int i" "\<not> length (evs s) \<le> i" by simp_all
    note e = 1(5)[unfolded event_loop.simps[of i ret s] if_not_P[OF b(1)] if_not_P[OF b(2)]]
    show ?thesis
    proof (cases "evs s ! i")
      case Ev_Listen
      obtain cs' where "event_loop (Suc i) ret (fst (unified_accept s)) = Inr (s', cs')"
        using e unfolding Ev_Listen by (auto simp: bindR_eq_Inr)
      moreover have "stopped (fst (unified_accept s))" using 1(6) by (simp add: unified_accept_def Let_def)
      ultimately show ?thesis using 1(1)[OF b Ev_Listen] by blast
    next
      case (Ev_Pipe ev)
      have "stopped (snd (unified_signals s))" using 1(6) by (simp add: unified_signals_def scan_signals_iff Let_def)
      then show ?thesis using e 1(2)[OF b Ev_Pipe] 1(3)[OF b Ev_Pipe] 1(6) unfolding Ev_Pipe
        by (cases "ev AND EPOLLIN \<noteq> 0") auto
    next
      case (Ev_Client fd)
      then show ?thesis using e 1(4)[OF b Ev_Client] 1(6) by simp
    qed
  qed
qed

text \<open>
  A termination signal that is in the pipe ends the program at the latest with the turn that reports
  the pipe first.
\<close>

theorem term_stops:
  assumes "length (evs s) = EVS_LEN" "length es < EVS_LEN" "ev AND EPOLLIN \<noteq> 0" "length (pipe s) \<le> EVS_LEN"
    and "c \<in> set (pipe s)" "sig_stops c"
  shows "\<exists>s' cs. unified_turn (Some (Ev_Pipe ev # es)) s = Some (Inr (s', cs)) \<and> stopped s'
    \<and> unified_event_handler rs s' = Inr (s', [])"
proof -
  let ?s = "s\<lparr>evs := (Ev_Pipe ev # es) @ drop (length (Ev_Pipe ev # es)) (evs s)\<rparr>"
  have st: "stopped (snd (unified_signals ?s))" using assms(4-6) by (auto simp: unified_signals_def scan_signals_iff Let_def)
  have "length (evs ?s) = EVS_LEN" "int (length (Ev_Pipe ev # es)) \<le> int EVS_LEN" using assms(1,2) by auto
  then obtain s' cs where e: "event_loop 0 (int (length (Ev_Pipe ev # es))) ?s = Inr (s', cs)"
    using event_loop_ok[of "int (length (Ev_Pipe ev # es))" ?s 0] by auto
  then have "event_loop (Suc 0) (fst (unified_signals ?s)) (snd (unified_signals ?s)) = Inr (s', cs)"
    using assms(3) by (subst (asm) event_loop.simps) simp
  then have "stopped s'" using event_loop_stopped st by blast
  moreover from this have "unified_event_handler rs s' = Inr (s', [])" by (cases rs) simp_all
  ultimately show ?thesis using e by (auto simp: unified_turn_def)
qed

theorem term_stops_witness:
  "\<exists>s' cs. unified_turn (Some [Ev_Pipe EPOLLIN])
      \<lparr>pipe = [char_of SIGHUP, char_of SIGTERM], backlog = [], evs = replicate EVS_LEN (Ev_Client 3), stopped = False\<rparr>
    = Some (Inr (s', cs)) \<and> stopped s'"
  using term_stops[of "\<lparr>pipe = [char_of SIGHUP, char_of SIGTERM], backlog = [], evs = replicate EVS_LEN (Ev_Client 3), stopped = False\<rparr>"
      "[]" EPOLLIN "char_of SIGTERM" "[]"]
  by (auto simp: EVS_LEN_def EPOLLIN_def sig_stops_def SIGTERM_def)

end
