(* ===== verification/Line_Count.thy ===== *)
theory Line_Count
  imports C_Io
begin

text \<open>
  The two line counters of src/02_io/main.cpp, one over \<open>fgets\<close> with a buffer of 32 characters, one over
  \<open>fgetc\<close>, and the producer that appends the next letter to a file. A file is its bytes, a file that
  cannot be opened a null pointer.
\<close>

definition LINE_BUF :: nat where "LINE_BUF = 32"

subsection \<open>The counters\<close>

lemma fgets_consumes: "fgets b n inp = Inr (b', rest) \<Longrightarrow> inp \<noteq> [] \<Longrightarrow> 2 \<le> n \<Longrightarrow> length rest < length inp"
  by (cases inp) (auto simp: fgets_def Let_def bindR_eq_Inr line_length_def min_def split: if_splits)

function get_line_f_loop :: "char list \<Rightarrow> string \<Rightarrow> nat \<Rightarrow> nat result" where
  "get_line_f_loop buf inp cnt =
     (if inp = [] then Inr cnt
      else bindR (fgets buf LINE_BUF inp) (\<lambda>p.
           bindR (cstr (fst p) 0) (\<lambda>s.
             if s = [] then Inl (Bad_Load (- 1))
             else get_line_f_loop (fst p) (snd p) (if last s = LF then Suc cnt else cnt))))"
  by pat_completeness auto
termination
  by (relation "measure (\<lambda>(buf, inp, cnt). length inp)") (auto dest!: fgets_consumes simp: LINE_BUF_def)

declare get_line_f_loop.simps [simp del]

definition get_line_f :: "string option \<Rightarrow> nat result" where
  "get_line_f file =
     (case file of None \<Rightarrow> Inl Null_Deref | Some f \<Rightarrow> get_line_f_loop (replicate LINE_BUF NUL) f 0)"

text \<open>
  \<open>fgetc\<close> into a \<open>char\<close>: the byte 255 becomes -1 and is taken for \<open>EOF\<close>.
\<close>

fun get_line2_loop :: "string \<Rightarrow> nat \<Rightarrow> nat" where
  "get_line2_loop [] cnt = cnt"
| "get_line2_loop (c # cs) cnt =
     (if c = CHR 0xFF then cnt else get_line2_loop cs (if c = LF then Suc cnt else cnt))"

definition get_line2 :: "string option \<Rightarrow> nat result" where
  "get_line2 file = (case file of None \<Rightarrow> Inl Null_Deref | Some f \<Rightarrow> Inr (get_line2_loop f 0))"

subsection \<open>The lock of a file\<close>

text \<open>
  The locks processes hold on the whole file. A read lock conflicts with another process's write lock,
  a write lock with any lock of another process.
\<close>

datatype l_type = F_RDLCK | F_WRLCK | F_UNLCK

type_synonym file_locks = "(nat \<times> l_type) list"

datatype lock_line = Lock_Exists l_type nat | Lock_Set l_type nat

fun conflicts :: "nat \<Rightarrow> l_type \<Rightarrow> nat \<times> l_type \<Rightarrow> bool" where
  "conflicts me t (p, u) = (p \<noteq> me \<and> t \<noteq> F_UNLCK \<and> (t = F_WRLCK \<or> u = F_WRLCK))"

text \<open>\<open>F_GETLK\<close> finds a conflicting lock, \<open>F_SETLKW\<close> waits (\<open>None\<close>) while there is one.\<close>

definition f_getlk :: "nat \<Rightarrow> l_type \<Rightarrow> file_locks \<Rightarrow> (nat \<times> l_type) option" where
  "f_getlk me t ls = List.find (conflicts me t) ls"

definition f_setlkw :: "nat \<Rightarrow> l_type \<Rightarrow> file_locks \<Rightarrow> file_locks option" where
  "f_setlkw me t ls =
     (if f_getlk me t ls \<noteq> None then None
      else let rest = filter (\<lambda>l. fst l \<noteq> me) ls
           in Some (if t = F_UNLCK then rest else (me, t) # rest))"

text \<open>What \<open>lock_fd\<close> prints before it waits, and what it prints, returns and leaves when it gets the lock.\<close>

definition lock_fd :: "nat \<Rightarrow> l_type \<Rightarrow> file_locks \<Rightarrow> lock_line list \<times> (lock_line list \<times> int \<times> file_locks) option" where
  "lock_fd me t ls =
     ((case f_getlk me t ls of None \<Rightarrow> [] | Some (p, u) \<Rightarrow> [Lock_Exists u p]),
      (case f_setlkw me t ls of
         None \<Rightarrow> None
       | Some ls' \<Rightarrow> Some ([Lock_Set t me], if t = F_UNLCK then 1 else 0, ls')))"

subsection \<open>The producer and the consumer\<close>

text \<open>
  The static counter, the file and its locks. The counter moves on before the lock is asked for; closing
  the descriptor drops the locks; after a failed \<open>write\<close> the lock is kept. \<open>None\<close>: it waits for the lock.
\<close>

record producer_state =
  prd_cout :: nat
  prd_file :: string
  prd_locks :: file_locks

definition producer :: "bool \<Rightarrow> bool \<Rightarrow> nat \<Rightarrow> producer_state \<Rightarrow> (int \<times> producer_state) option" where
  "producer opened written me s =
     (if \<not> opened then Some (- 1, s)
      else let buf = [char_of (97 + prd_cout s)];
               s1 = s\<lparr>prd_cout := (prd_cout s + 1) mod 26\<rparr>
           in case snd (lock_fd me F_WRLCK (prd_locks s1)) of
                None \<Rightarrow> None
              | Some (_, _, ls) \<Rightarrow>
                  if \<not> written then Some (- 1, s1\<lparr>prd_locks := ls\<rparr>)
                  else (case snd (lock_fd me F_UNLCK ls) of
                          None \<Rightarrow> None
                        | Some (_, _, ls') \<Rightarrow>
                            Some (0, s1\<lparr>prd_file := prd_file s1 @ buf,
                                        prd_locks := filter (\<lambda>l. fst l \<noteq> me) ls'\<rparr>)))"

text \<open>
  The consumer reads byte after byte without a lock. At the end of the file the outer loop tries again and
  finds what was appended meanwhile (\<open>later\<close>); \<open>None\<close>: it still spins when nothing later is appended.
\<close>

fun consumer_read :: "string \<Rightarrow> nat \<Rightarrow> string \<Rightarrow> string \<times> nat \<times> string" where
  "consumer_read [] i out = ([], i, out)"
| "consumer_read (c # cs) i out = (if i < 10 then consumer_read cs (i + 1) (out @ [c]) else (cs, i, out))"

fun consumer_loop :: "string list \<Rightarrow> string \<Rightarrow> nat \<Rightarrow> string \<Rightarrow> string option" where
  "consumer_loop later file i out =
     (if i < 10
      then (case consumer_read file i out of
              (file', i', out') \<Rightarrow>
                (case later of
                   [] \<Rightarrow> if i' < 10 then None else Some out'
                 | m # later' \<Rightarrow> consumer_loop later' (file' @ m) i' out'))
      else Some out)"

declare consumer_loop.simps [simp del]

definition consumer :: "bool \<Rightarrow> string \<Rightarrow> string list \<Rightarrow> int \<times> string option" where
  "consumer opened file later = (if \<not> opened then (- 1, Some []) else (0, consumer_loop later file 0 []))"

subsection \<open>The same count\<close>

lemma get_line2_count: "get_line2_loop f cnt = cnt + count_list (takeWhile (\<lambda>c. c \<noteq> CHR 0xFF) f) LF"
  by (induction f cnt rule: get_line2_loop.induct) auto

lemma line_length_pos: "inp \<noteq> [] \<Longrightarrow> 0 < line_length inp \<and> line_length inp \<le> length inp"
  using length_takeWhile_le[of "\<lambda>c. c \<noteq> LF" inp]
  by (cases inp) (auto simp: line_length_def Let_def split: if_splits)

text \<open>A piece \<open>fgets\<close> takes has a line feed at most as its last character.\<close>

lemma piece_count:
  assumes "inp \<noteq> []" "0 < k" "k \<le> line_length inp"
  shows "count_list (take k inp) LF = (if last (take k inp) = LF then 1 else 0)"
proof -
  let ?l = "takeWhile (\<lambda>c. c \<noteq> LF) inp"
  have no: "count_list (take j inp) LF = 0" if "j \<le> length ?l" for j
  proof -
    have "take j inp = take j ?l" using that by (metis append_take_drop_id take_append takeWhile_dropWhile_id diff_is_0_eq take0 append_Nil2)
    then have "LF \<notin> set (take j inp)" by (metis in_set_takeD set_takeWhileD)
    then show ?thesis by (simp add: count_notin)
  qed
  show ?thesis
  proof (cases "k \<le> length ?l")
    case True
    have "take k inp \<noteq> []" using assms by simp
    moreover have "LF \<notin> set (take k inp)" using no[OF True] by (simp add: count_list_0_iff)
    ultimately show ?thesis using no[OF True] last_in_set[of "take k inp"] by metis
  next
    case False
    then have k: "k = Suc (length ?l)" "length ?l < length inp"
      using assms(3) by (auto simp: line_length_def Let_def split: if_splits)
    then have "inp ! length ?l = LF" using nth_length_takeWhile[of "\<lambda>c. c \<noteq> LF" inp] by simp
    then have "take k inp = take (length ?l) inp @ [LF]" using k by (simp add: take_Suc_conv_app_nth)
    then show ?thesis using no[of "length ?l"] by simp
  qed
qed

lemma get_line_f_count:
  assumes "NUL \<notin> set f" "length buf = LINE_BUF"
  shows "get_line_f_loop buf f cnt = Inr (cnt + count_list f LF)"
  using assms
proof (induction "length f" arbitrary: f buf cnt rule: less_induct)
  case less
  show ?case
  proof (cases "f = []")
    case True
    then show ?thesis by (subst get_line_f_loop.simps) simp
  next
    case False
    define k where "k = min (LINE_BUF - 1) (line_length f)"
    have k: "0 < k" "k \<le> line_length f" "k \<le> length f" "k + 1 \<le> LINE_BUF"
      using line_length_pos[OF False] by (auto simp: k_def LINE_BUF_def)
    obtain b where b: "blit buf 0 (take k f @ [NUL]) = Inr b" using less.prems(2) k by (simp add: blit_def)
    have nul: "NUL \<notin> set (take k f)" using less.prems(1) by (meson in_set_takeD)
    have s: "cstr b 0 = Inr (take k f)" by (rule cstr_blit[OF b nul])
    have len: "length b = LINE_BUF" using length_blit[OF b] less.prems(2) by simp
    have "NUL \<notin> set (drop k f)" using less.prems(1) by (meson in_set_dropD)
    then have "get_line_f_loop b (drop k f) c = Inr (c + count_list (drop k f) LF)" for c
      using less.hyps[of "drop k f" b c] len False k by simp
    moreover have "fgets buf LINE_BUF f = Inr (b, drop k f)" using False b by (simp add: fgets_def Let_def k_def[symmetric, simplified])
    moreover have "take k f \<noteq> []" using False k by simp
    moreover have "count_list f LF = count_list (take k f) LF + count_list (drop k f) LF"
      by (metis append_take_drop_id count_list_append)
    ultimately show ?thesis
      using s False piece_count[OF False k(1,2)] by (subst get_line_f_loop.simps) simp
  qed
qed

text \<open>
  C28. The two counters agree, and count the line feeds, on every file without the bytes 0 and 255,
  although one of them reads lines in pieces of 31 characters.
\<close>

theorem line_counters_agree:
  assumes "NUL \<notin> set f" "CHR 0xFF \<notin> set f"
  shows "get_line_f (Some f) = Inr (count_list f LF) \<and> get_line2 (Some f) = get_line_f (Some f)"
proof -
  have "takeWhile (\<lambda>c. c \<noteq> CHR 0xFF) f = f" using assms(2) by (auto simp: takeWhile_eq_all_conv)
  then have "get_line2_loop f 0 = count_list f LF" by (simp only: get_line2_count add_0)
  then show ?thesis using get_line_f_count[OF assms(1)] by (simp add: get_line_f_def get_line2_def)
qed

theorem line_counters_agree_witness:
  "get_line_f (Some (replicate 40 (CHR ''x'') @ [LF] @ ''y'' @ [LF] @ ''z'')) = Inr 2"
  using line_counters_agree[of "replicate 40 (CHR ''x'') @ [LF] @ ''y'' @ [LF] @ ''z''"]
  by (simp add: eval_nat_numeral)

text \<open>
  Where they differ from what is meant: the second counter stops at the first byte 255, and the
  first one reads before its buffer when a line begins with a byte 0.
\<close>

theorem line_counters_differ:
  assumes "NUL \<notin> set f" "CHR 0xFF \<notin> set f" "length f < 31" "f = [] \<or> last f = LF" "count_list f LF \<le> 1"
  shows "get_line2 (Some (f @ CHR 0xFF # g)) = Inr (count_list f LF)
    \<and> get_line_f (Some (f @ NUL # g)) = Inl (Bad_Load (- 1))"
proof
  have "takeWhile (\<lambda>c. c \<noteq> CHR 0xFF) (f @ CHR 0xFF # g) = f" using assms(2) by (simp add: takeWhile_append)
  then show "get_line2 (Some (f @ CHR 0xFF # g)) = Inr (count_list f LF)" by (simp add: get_line2_def get_line2_count)
  have bad: "get_line_f_loop buf (NUL # g) cnt = Inl (Bad_Load (- 1))" if lb: "length buf = LINE_BUF" for buf cnt
  proof -
    define k where "k = min (LINE_BUF - 1) (line_length (NUL # g))"
    have k: "0 < k" "k + 1 \<le> LINE_BUF" "k \<le> length (NUL # g)"
      using line_length_pos[of "NUL # g"] by (auto simp: k_def LINE_BUF_def)
    then obtain b where b: "blit buf 0 (take k (NUL # g) @ [NUL]) = Inr b" using lb by (simp add: blit_def)
    then have "b = take k (NUL # g) @ [NUL] @ drop (Suc k) buf" using k by (auto simp: blit_def split: if_splits)
    then have "cstr b 0 = Inr []" using k(1) by (cases k) (simp_all add: cstr_def)
    moreover have "fgets buf LINE_BUF (NUL # g) = Inr (b, drop k (NUL # g))" using b by (simp add: fgets_def Let_def k_def[symmetric, simplified])
    ultimately show ?thesis by (subst get_line_f_loop.simps) simp
  qed
  show "get_line_f (Some (f @ NUL # g)) = Inl (Bad_Load (- 1))"
  proof (cases "f = []")
    case True
    then show ?thesis using bad by (simp add: get_line_f_def)
  next
    case False
    then have l: "last f = LF" using assms(4) by simp
    then have f: "f = butlast f @ [LF]" using False by (metis append_butlast_last_id)
    then have "count_list (butlast f) LF = 0" using assms(5) count_list_append[of "butlast f" "[LF]" LF] by simp
    then have n: "LF \<notin> set (butlast f)" "NUL \<notin> set (butlast f)"
      using assms(1) by (auto simp: count_list_0_iff dest: in_set_butlastD)
    have small: "length (butlast f) + 2 \<le> LINE_BUF" using assms(3) by (simp add: LINE_BUF_def)
    obtain b where b: "fgets (replicate LINE_BUF NUL) LINE_BUF (butlast f @ LF # NUL # g) = Inr (b, NUL # g)"
        "length b = LINE_BUF" "cstr b 0 = Inr (butlast f @ [LF])"
      using fgets_line[OF n, of LINE_BUF "replicate LINE_BUF NUL" "NUL # g"] small by auto
    have eq: "f @ NUL # g = butlast f @ LF # NUL # g" using f by (metis append.assoc append_Cons append_Nil)
    have "cstr b 0 = Inr f" using b(3) f by simp
    then show ?thesis using b(1) bad[OF b(2)] False
      by (simp add: get_line_f_def get_line_f_loop.simps[of "replicate LINE_BUF NUL"] eq[symmetric])
  qed
qed

theorem line_counters_differ_witness:
  "get_line2 (Some (''a'' @ [LF] @ CHR 0xFF # [LF, LF])) = Inr 1 \<and> get_line_f (Some (''a'' @ [LF] @ NUL # [LF, LF])) = Inl (Bad_Load (- 1))"
  using line_counters_differ[of "''a'' @ [LF]" "[LF, LF]"] by simp

subsection \<open>Locks exclude\<close>

definition locks_ok :: "file_locks \<Rightarrow> bool" where
  "locks_ok ls = (distinct (map fst ls) \<and> (\<forall>l \<in> set ls. snd l \<noteq> F_UNLCK)
    \<and> (\<forall>p. (p, F_WRLCK) \<in> set ls \<longrightarrow> (\<forall>l \<in> set ls. fst l = p)))"

lemma locks_ok_filter: "locks_ok ls \<Longrightarrow> locks_ok (filter P ls)"
  by (auto simp: locks_ok_def distinct_map_filter)

text \<open>However processes lock and unlock, a process with a write lock is the only one that holds a lock.\<close>

theorem lock_fd_excludes:
  assumes "locks_ok ls" "snd (lock_fd me t ls) = Some (out, r, ls')"
  shows "locks_ok ls' \<and> (t \<noteq> F_UNLCK \<longrightarrow> (me, t) \<in> set ls') \<and> (r = 1 \<longleftrightarrow> t = F_UNLCK)"
proof -
  have none: "List.find (conflicts me t) ls = None"
    and ls': "ls' = (let rest = filter (\<lambda>l. fst l \<noteq> me) ls in if t = F_UNLCK then rest else (me, t) # rest)"
    and r: "r = (if t = F_UNLCK then 1 else 0)"
    using assms(2) by (auto simp: lock_fd_def f_setlkw_def f_getlk_def Let_def not_Some_eq[symmetric] split: if_splits option.splits)
  from none have "\<forall>l \<in> set ls. \<not> conflicts me t l" by (metis find_None_iff)
  then have "locks_ok ls'"
    using assms(1) locks_ok_filter[OF assms(1), of "\<lambda>l. fst l \<noteq> me"]
    by (cases "t = F_UNLCK") (auto simp: ls' Let_def locks_ok_def)
  then show ?thesis using r by (auto simp: ls' Let_def)
qed

theorem lock_fd_excludes_witness:
  "locks_ok [(7, F_RDLCK), (3, F_RDLCK)] \<and> (7, F_RDLCK) \<in> set [(7::nat, F_RDLCK), (3, F_RDLCK)]"
  using lock_fd_excludes[of "[(3, F_RDLCK)]" 7 F_RDLCK "[Lock_Set F_RDLCK 7]" 0 "[(7, F_RDLCK), (3, F_RDLCK)]"]
  by (simp add: locks_ok_def lock_fd_def f_setlkw_def f_getlk_def)

text \<open>After a failed \<open>write\<close> the producer keeps its lock, and every other process waits.\<close>

theorem producer_keeps_lock:
  assumes "producer True False me s = Some (r, s')" "p \<noteq> me"
  shows "r = - 1 \<and> snd (lock_fd p F_WRLCK (prd_locks s')) = None"
  using assms by (auto simp: producer_def lock_fd_def f_setlkw_def f_getlk_def Let_def split: option.splits if_splits)

theorem producer_keeps_lock_witness:
  "snd (lock_fd 5 F_WRLCK [(3, F_WRLCK)]) = None"
  using producer_keeps_lock[of 3 "\<lparr>prd_cout = 0, prd_file = [], prd_locks = []\<rparr>" "- 1"
      "\<lparr>prd_cout = 1, prd_file = [], prd_locks = [(3, F_WRLCK)]\<rparr>" 5]
  by (simp add: producer_def lock_fd_def f_setlkw_def f_getlk_def)

subsection \<open>What the consumer prints\<close>

definition producer_turns :: "nat \<Rightarrow> nat \<Rightarrow> producer_state option" where
  "producer_turns me n = ((\<lambda>o'. Option.bind o' (\<lambda>s. map_option snd (producer True True me s))) ^^ n)
     (Some \<lparr>prd_cout = 0, prd_file = [], prd_locks = []\<rparr>)"

lemma producer_turns_eq:
  "producer_turns me n = Some \<lparr>prd_cout = n mod 26, prd_file = map (\<lambda>i. char_of (97 + i mod 26)) [0..<n], prd_locks = []\<rparr>"
  by (induction n) (simp_all add: producer_turns_def producer_def lock_fd_def f_setlkw_def f_getlk_def Let_def mod_Suc_eq)

lemma consumer_read_eq:
  "i \<le> 10 \<Longrightarrow> consumer_read f i out = (drop (11 - i) f, i + min (10 - i) (length f), out @ take (10 - i) f)"
proof (induction f i out rule: consumer_read.induct)
  case (2 c cs i out)
  have "11 - i = Suc (10 - i)" "i < 10 \<Longrightarrow> 10 - i = Suc (9 - i)" using 2(2) by auto
  with 2 show ?case by (cases "i = 10") auto
qed simp

text \<open>
  A consumer that finds ten bytes, however many passes they take to arrive, prints the first ten of them;
  with fewer it never returns.
\<close>

lemma consumer_loop_eq:
  "i \<le> 10 \<Longrightarrow> consumer_loop later f i out =
     (if 10 - i \<le> length (f @ concat later) then Some (out @ take (10 - i) (f @ concat later)) else None)"
proof (induction later arbitrary: f i out)
  case Nil
  then show ?case by (subst consumer_loop.simps) (auto simp: consumer_read_eq)
next
  case (Cons m later)
  show ?case
  proof (cases "10 - i \<le> length f")
    case True
    then show ?thesis using Cons
      by (subst consumer_loop.simps) (auto simp: consumer_read_eq)
  next
    case False
    then show ?thesis using Cons
      by (subst consumer_loop.simps) (auto simp: consumer_read_eq min_def)
  qed
qed

theorem consumer_prints:
  "consumer True f later = (0, if 10 \<le> length (f @ concat later) then Some (take 10 (f @ concat later)) else None)"
  by (simp add: consumer_def consumer_loop_eq)

text \<open>The alphabet the producer wrote, as far as the consumer prints it.\<close>

theorem producer_consumer:
  "10 \<le> n \<Longrightarrow> \<exists>s. producer_turns me n = Some s \<and> consumer True (prd_file s) [] = (0, Some ''abcdefghij'')"
proof -
  assume "10 \<le> n"
  then have "[0..<n] = [0..<10] @ [10..<n]" by (metis le_add_diff_inverse upt_add_eq_append zero_le)
  moreover have "[0..<10] = [0,1,2,3,4,5,6,7,8,9]" by (simp add: upt_rec)
  ultimately have "take 10 (map (\<lambda>i. char_of (97 + i mod 26)) [0..<n]) = ''abcdefghij''" by (simp add: char_of_def bit_iff_odd)
  then show ?thesis using \<open>10 \<le> n\<close> by (simp add: producer_turns_eq consumer_def consumer_loop_eq)
qed

theorem producer_consumer_witness:
  "\<exists>s. producer_turns 1 12 = Some s \<and> consumer True (prd_file s) [] = (0, Some ''abcdefghij'')"
  by (rule producer_consumer) simp

end
