(* ===== verification/Sem_Chat.thy ===== *)
theory Sem_Chat
  imports C_Io
begin

text \<open>
  The two programs of src/06_system_v_ipc/main.cpp that pass lines through shared memory under two
  semaphores (\<open>sem_test2\<close> writes, \<open>sem_test3\<close> reads).
\<close>

subsection \<open>Shared memory and two semaphores\<close>

definition SHM_LINE :: nat where "SHM_LINE = 256"

text \<open>
  Where a program is: before \<open>semget\<close>; between the calls that give the two semaphores their values, when
  it was the one to create them; in the loop before the P operation, between P and V, before V, and (the
  writer) before it looks for \<open>exit\<close>, (the reader) before it removes the segment and the semaphores.
\<close>

datatype sem_pc = Sem_Start | Sem_Set0 | Sem_Set1 | Sem_P | Sem_Body | Sem_V | Sem_End | Sem_Gone

record sem_ipc =
  sem_set :: "(nat \<times> nat) option"
  shm_buf :: "char list"
  w_pc :: sem_pc
  w_in :: string
  r_pc :: sem_pc
  r_printed :: "string list"

definition sem_start :: "string \<Rightarrow> sem_ipc" where
  "sem_start inp = \<lparr>sem_set = None, shm_buf = replicate SHM_LINE NUL, w_pc = Sem_Start, w_in = inp,
     r_pc = Sem_Start, r_printed = []\<rparr>"

text \<open>
  Both programs open the set alike: whoever finds that there is none creates it, both values zero, and sets
  them one after the other.
\<close>

fun sem_open :: "sem_pc \<Rightarrow> (nat \<times> nat) option \<Rightarrow> sem_pc \<times> (nat \<times> nat) option" where
  "sem_open Sem_Start None = (Sem_Set0, Some (0, 0))"
| "sem_open Sem_Start (Some v) = (Sem_P, Some v)"
| "sem_open Sem_Set0 v = (Sem_Set1, map_option (\<lambda>p. (0, snd p)) v)"
| "sem_open Sem_Set1 v = (Sem_P, map_option (\<lambda>p. (fst p, 1)) v)"
| "sem_open pc v = (pc, v)"

text \<open>
  P waits (\<open>None\<close>) while the value is 0; on a set that was removed \<open>semop\<close> fails, which nobody looks at.
\<close>

fun sem_p0 :: "(nat \<times> nat) option \<Rightarrow> (nat \<times> nat) option option" where
  "sem_p0 None = Some None"
| "sem_p0 (Some (a, b)) = (if a = 0 then None else Some (Some (a - 1, b)))"

fun sem_p1 :: "(nat \<times> nat) option \<Rightarrow> (nat \<times> nat) option option" where
  "sem_p1 None = Some None"
| "sem_p1 (Some (a, b)) = (if b = 0 then None else Some (Some (a, b - 1)))"

definition shm_exit :: "char list \<Rightarrow> bool result" where
  "shm_exit b = strneq b 0 ''exit''"

definition writer_step :: "sem_ipc \<Rightarrow> sem_ipc option result" where
  "writer_step s =
     (case w_pc s of
        Sem_P \<Rightarrow>
          (case sem_p1 (sem_set s) of
             None \<Rightarrow> Inr None
           | Some v \<Rightarrow> Inr (Some (s\<lparr>sem_set := v, w_pc := Sem_Body\<rparr>)))
      | Sem_Body \<Rightarrow>
          bindR (fgets (shm_buf s) SHM_LINE (w_in s)) (\<lambda>p.
          bindR (chop_newline (fst p)) (\<lambda>b.
            Inr (Some (s\<lparr>shm_buf := b, w_in := snd p, w_pc := Sem_V\<rparr>))))
      | Sem_V \<Rightarrow> Inr (Some (s\<lparr>sem_set := map_option (\<lambda>p. (fst p + 1, snd p)) (sem_set s), w_pc := Sem_End\<rparr>))
      | Sem_End \<Rightarrow>
          bindR (shm_exit (shm_buf s)) (\<lambda>e. Inr (Some (s\<lparr>w_pc := if e then Sem_Gone else Sem_P\<rparr>)))
      | Sem_Gone \<Rightarrow> Inr None
      | pc \<Rightarrow> (case sem_open pc (sem_set s) of (pc', v) \<Rightarrow> Inr (Some (s\<lparr>sem_set := v, w_pc := pc'\<rparr>))))"

definition reader_step :: "sem_ipc \<Rightarrow> sem_ipc option result" where
  "reader_step s =
     (case r_pc s of
        Sem_P \<Rightarrow>
          (case sem_p0 (sem_set s) of
             None \<Rightarrow> Inr None
           | Some v \<Rightarrow> Inr (Some (s\<lparr>sem_set := v, r_pc := Sem_Body\<rparr>)))
      | Sem_Body \<Rightarrow>
          bindR (shm_exit (shm_buf s)) (\<lambda>e.
            if e then Inr (Some (s\<lparr>r_pc := Sem_End\<rparr>))
            else bindR (cstr (shm_buf s) 0) (\<lambda>t.
              Inr (Some (s\<lparr>r_printed := r_printed s @ [t], r_pc := Sem_V\<rparr>))))
      | Sem_V \<Rightarrow> Inr (Some (s\<lparr>sem_set := map_option (\<lambda>p. (fst p, snd p + 1)) (sem_set s), r_pc := Sem_P\<rparr>))
      | Sem_End \<Rightarrow> Inr (Some (s\<lparr>sem_set := None, r_pc := Sem_Gone\<rparr>))
      | Sem_Gone \<Rightarrow> Inr None
      | pc \<Rightarrow> (case sem_open pc (sem_set s) of (pc', v) \<Rightarrow> Inr (Some (s\<lparr>sem_set := v, r_pc := pc'\<rparr>))))"

text \<open>A schedule says who moves next (\<open>True\<close>: the writer); a program that must wait does not move.\<close>

fun sem_run :: "bool list \<Rightarrow> sem_ipc \<Rightarrow> sem_ipc result" where
  "sem_run [] s = Inr s"
| "sem_run (w # ws) s =
     bindR (if w then writer_step s else reader_step s) (\<lambda>r. sem_run ws (case r of None \<Rightarrow> s | Some s' \<Rightarrow> s'))"

definition sem_stuck :: "sem_ipc \<Rightarrow> bool" where
  "sem_stuck s = (writer_step s = Inr None \<and> reader_step s = Inr None)"

subsection \<open>Lines are passed one by one\<close>

definition shm_line :: "string \<Rightarrow> bool" where
  "shm_line l = (LF \<notin> set l \<and> NUL \<notin> set l \<and> length l + 2 \<le> SHM_LINE)"

definition typed :: "string list \<Rightarrow> string" where
  "typed ls = concat (map (\<lambda>l. l @ [LF]) ls)"

text \<open>Who has the turn, from the opening of the set to its removal.\<close>

datatype sem_phase = Opening | W_Turn | W_In | W_Put | R_Turn | R_In | R_Put | R_Err | Over

definition w_after :: "string list \<Rightarrow> nat \<Rightarrow> sem_pc set" where
  "w_after ls n = {Sem_End} \<union> (if n - 1 < length ls then {Sem_P} else {Sem_Gone})"

fun phase_ok :: "string list \<Rightarrow> nat \<Rightarrow> sem_phase \<Rightarrow> sem_ipc \<Rightarrow> bool" where
  "phase_ok ls n Opening s =
     (n = 0 \<and> r_printed s = [] \<and>
      ((sem_set s = None \<and> w_pc s = Sem_Start \<and> r_pc s = Sem_Start)
       \<or> (sem_set s = Some (0, 0) \<and>
          ((w_pc s \<in> {Sem_Set0, Sem_Set1} \<and> r_pc s \<in> {Sem_Start, Sem_P})
           \<or> (r_pc s \<in> {Sem_Set0, Sem_Set1} \<and> w_pc s \<in> {Sem_Start, Sem_P})))))"
| "phase_ok ls n W_Turn s =
     (n \<le> length ls \<and> sem_set s = Some (0, 1) \<and> r_pc s \<in> {Sem_Start, Sem_P} \<and> r_printed s = take n ls
      \<and> (w_pc s \<in> {Sem_Start, Sem_P} \<or> (w_pc s = Sem_End \<and> 0 < n)))"
| "phase_ok ls n W_In s =
     (n \<le> length ls \<and> sem_set s = Some (0, 0) \<and> r_pc s \<in> {Sem_Start, Sem_P} \<and> r_printed s = take n ls
      \<and> w_pc s = Sem_Body)"
| "phase_ok ls n W_Put s =
     (0 < n \<and> sem_set s = Some (0, 0) \<and> r_pc s \<in> {Sem_Start, Sem_P} \<and> r_printed s = take (n - 1) ls
      \<and> w_pc s = Sem_V)"
| "phase_ok ls n R_Turn s =
     (0 < n \<and> sem_set s = Some (1, 0) \<and> r_pc s \<in> {Sem_Start, Sem_P} \<and> r_printed s = take (n - 1) ls
      \<and> w_pc s \<in> w_after ls n)"
| "phase_ok ls n R_In s =
     (0 < n \<and> sem_set s = Some (0, 0) \<and> r_pc s = Sem_Body \<and> r_printed s = take (n - 1) ls
      \<and> w_pc s \<in> w_after ls n)"
| "phase_ok ls n R_Put s =
     (0 < n \<and> n \<le> length ls \<and> sem_set s = Some (0, 0) \<and> r_pc s = Sem_V \<and> r_printed s = take n ls
      \<and> w_pc s \<in> {Sem_End, Sem_P})"
| "phase_ok ls n R_Err s =
     (n = length ls + 1 \<and> sem_set s = Some (0, 0) \<and> r_pc s = Sem_End \<and> r_printed s = ls
      \<and> w_pc s \<in> {Sem_End, Sem_Gone})"
| "phase_ok ls n Over s =
     (n = length ls + 1 \<and> sem_set s = None \<and> r_pc s = Sem_Gone \<and> r_printed s = ls
      \<and> w_pc s \<in> {Sem_End, Sem_Gone})"

text \<open>
  With \<open>n\<close> lines read from the terminal, the last of them is in the segment and the others are printed,
  except the one being passed.
\<close>

definition data_ok :: "string list \<Rightarrow> string \<Rightarrow> nat \<Rightarrow> sem_ipc \<Rightarrow> bool" where
  "data_ok ls q n s =
     (n \<le> length ls + 1 \<and> w_in s = typed (drop n (ls @ [q])) \<and> length (shm_buf s) = SHM_LINE
      \<and> (0 < n \<longrightarrow> cstr (shm_buf s) 0 = Inr ((ls @ [q]) ! (n - 1))))"

definition sem_chat_inv :: "string list \<Rightarrow> string \<Rightarrow> sem_ipc \<Rightarrow> bool" where
  "sem_chat_inv ls q s = (\<exists>n ph. phase_ok ls n ph s \<and> data_ok ls q n s)"

lemma sem_chat_invI: "phase_ok ls n ph s \<Longrightarrow> data_ok ls q n s \<Longrightarrow> sem_chat_inv ls q s"
  by (auto simp: sem_chat_inv_def)

definition chat_ok :: "string list \<Rightarrow> string \<Rightarrow> bool" where
  "chat_ok ls q = ((\<forall>l \<in> set ls. shm_line l \<and> take 4 l \<noteq> ''exit'') \<and> shm_line q \<and> take 4 q = ''exit'')"

lemma shm_exit_line: "cstr b 0 = Inr l \<Longrightarrow> shm_exit b = Inr (take 4 l = ''exit'')"
  by (simp add: shm_exit_def strneq_def eval_nat_numeral)

lemma chat_exit: "chat_ok ls q \<Longrightarrow> 0 < n \<Longrightarrow> n \<le> length ls + 1 \<Longrightarrow>
    take 4 ((ls @ [q]) ! (n - 1)) = ''exit'' \<longleftrightarrow> n = length ls + 1"
  by (cases "n - 1 < length ls") (auto simp: chat_ok_def nth_append)

text \<open>The writer takes the next line.\<close>

lemma shm_take_line:
  assumes "chat_ok ls q" "n \<le> length ls" "length b = SHM_LINE"
  shows "\<exists>b1 b2. fgets b SHM_LINE (typed (drop n (ls @ [q]))) = Inr (b1, typed (drop (Suc n) (ls @ [q])))
    \<and> chop_newline b1 = Inr b2 \<and> length b2 = SHM_LINE \<and> cstr b2 0 = Inr ((ls @ [q]) ! n)"
proof -
  let ?l = "(ls @ [q]) ! n"
  have "?l \<in> set (ls @ [q])" using assms(2) by (intro nth_mem) simp
  then have l: "LF \<notin> set ?l" "NUL \<notin> set ?l" "length ?l + 2 \<le> SHM_LINE"
    using assms(1) by (auto simp: chat_ok_def shm_line_def)
  have d: "typed (drop n (ls @ [q])) = ?l @ LF # typed (drop (Suc n) (ls @ [q]))"
    using assms(2) by (subst Cons_nth_drop_Suc[symmetric]) (simp_all add: typed_def)
  have b: "SHM_LINE \<le> length b" using assms(3) by simp
  obtain b1 where b1: "fgets b SHM_LINE (?l @ LF # typed (drop (Suc n) (ls @ [q]))) = Inr (b1, typed (drop (Suc n) (ls @ [q])))"
      "length b1 = length b" "cstr b1 0 = Inr (?l @ [LF])"
    using fgets_line[OF l(1,2,3) b] by blast
  obtain b2 where "chop_newline b1 = Inr b2" "length b2 = length b1" "cstr b2 0 = Inr ?l"
    using chop_newline_line[OF b1(3)] by auto
  then show ?thesis using b1 d assms(3) by auto
qed

lemma data_ok_keeps [simp]:
  "data_ok ls q n (s\<lparr>sem_set := v\<rparr>) = data_ok ls q n s" "data_ok ls q n (s\<lparr>w_pc := a\<rparr>) = data_ok ls q n s"
  "data_ok ls q n (s\<lparr>r_pc := a\<rparr>) = data_ok ls q n s" "data_ok ls q n (s\<lparr>r_printed := o'\<rparr>) = data_ok ls q n s"
  by (simp_all add: data_ok_def)

lemma data_ok_buf: "data_ok ls q n s \<Longrightarrow> 0 < n \<Longrightarrow> cstr (shm_buf s) 0 = Inr ((ls @ [q]) ! (n - 1)) \<and> n \<le> length ls + 1"
  by (simp add: data_ok_def)

lemma sem_chat_inv_start: "sem_chat_inv ls q (sem_start (typed (ls @ [q])))"
  by (rule sem_chat_invI[of _ 0 Opening]) (simp_all add: sem_start_def data_ok_def)

lemma buf_exit:
  assumes "chat_ok ls q" "data_ok ls q n s" "0 < n"
  shows "shm_exit (shm_buf s) = Inr (n = length ls + 1)"
  using shm_exit_line[of "shm_buf s"] data_ok_buf[OF assms(2,3)] chat_exit[OF assms(1,3)] by auto

definition steps_to :: "(sem_ipc \<Rightarrow> bool) \<Rightarrow> sem_ipc option result \<Rightarrow> bool" where
  "steps_to P r = (case r of Inr None \<Rightarrow> True | Inr (Some s) \<Rightarrow> P s | Inl f \<Rightarrow> False)"

lemma steps_to_simps [simp]:
  "steps_to P (Inr None)" "steps_to P (Inr (Some s)) = P s" "\<not> steps_to P (Inl f)"
  by (simp_all add: steps_to_def)

lemma writer_step_inv:
  assumes ok: "chat_ok ls q" and inv: "sem_chat_inv ls q s"
  shows "steps_to (sem_chat_inv ls q) (writer_step s)"
proof -
  obtain n ph where ph: "phase_ok ls n ph s" and d: "data_ok ls q n s" using inv by (auto simp: sem_chat_inv_def)
  have keep: "phase_ok ls n ph' s' \<Longrightarrow> data_ok ls q n s' = data_ok ls q n s \<Longrightarrow> sem_chat_inv ls q s'" for ph' s'
    using d sem_chat_invI by blast
  note to = keep[of Opening] keep[of W_Turn] keep[of W_In] keep[of R_Turn] keep[of R_In] keep[of R_Put] keep[of R_Err] keep[of Over]
  have e: "0 < n \<Longrightarrow> shm_exit (shm_buf s) = Inr (n = length ls + 1)" by (rule buf_exit[OF ok d])
  have le: "n \<le> length ls + 1" using d by (simp add: data_ok_def)
  show ?thesis
  proof (cases ph)
    case Opening
    then show ?thesis using ph to(1,2) by (auto simp: writer_step_def)
  next
    case W_Turn
    then show ?thesis using ph e le to(2,3) by (auto simp: writer_step_def)
  next
    case W_In
    have n: "n \<le> length ls" using ph W_In by simp
    obtain b1 b2 where b: "fgets (shm_buf s) SHM_LINE (w_in s) = Inr (b1, typed (drop (Suc n) (ls @ [q])))"
        "chop_newline b1 = Inr b2" "length b2 = SHM_LINE" "cstr b2 0 = Inr ((ls @ [q]) ! n)"
      using shm_take_line[OF ok n, of "shm_buf s"] d by (auto simp: data_ok_def)
    let ?s = "s\<lparr>shm_buf := b2, w_in := typed (drop (Suc n) (ls @ [q])), w_pc := Sem_V\<rparr>"
    have "phase_ok ls (Suc n) W_Put ?s" using ph W_In by simp
    moreover have "data_ok ls q (Suc n) ?s" using b(3,4) n by (simp add: data_ok_def)
    ultimately have "sem_chat_inv ls q ?s" by (rule sem_chat_invI)
    then show ?thesis using ph W_In b(1,2) by (simp add: writer_step_def)
  next
    case W_Put
    then show ?thesis using ph le to(4) by (auto simp: writer_step_def w_after_def)
  next
    case R_Turn
    then show ?thesis using ph e le to(4) by (auto simp: writer_step_def w_after_def split: if_splits)
  next
    case R_In
    then show ?thesis using ph e le to(5) by (auto simp: writer_step_def w_after_def split: if_splits)
  next
    case R_Put
    then show ?thesis using ph e le to(6) by (auto simp: writer_step_def)
  next
    case R_Err
    then show ?thesis using ph e le to(7) by (auto simp: writer_step_def)
  next
    case Over
    then show ?thesis using ph e le to(8) by (auto simp: writer_step_def)
  qed
qed

lemma reader_step_inv:
  assumes ok: "chat_ok ls q" and inv: "sem_chat_inv ls q s"
  shows "steps_to (sem_chat_inv ls q) (reader_step s)"
proof -
  obtain n ph where ph: "phase_ok ls n ph s" and d: "data_ok ls q n s" using inv by (auto simp: sem_chat_inv_def)
  have keep: "phase_ok ls n ph' s' \<Longrightarrow> data_ok ls q n s' = data_ok ls q n s \<Longrightarrow> sem_chat_inv ls q s'" for ph' s'
    using d sem_chat_invI by blast
  note to = keep[of Opening] keep[of W_Turn] keep[of W_In] keep[of W_Put] keep[of R_Turn] keep[of R_In] keep[of R_Put] keep[of R_Err] keep[of Over]
  have e: "0 < n \<Longrightarrow> shm_exit (shm_buf s) = Inr (n = length ls + 1)" by (rule buf_exit[OF ok d])
  have le: "n \<le> length ls + 1" using d by (simp add: data_ok_def)
  show ?thesis
  proof (cases ph)
    case Opening
    then show ?thesis using ph to(1,2) by (auto simp: reader_step_def)
  next
    case W_Turn
    then show ?thesis using ph to(2) by (auto simp: reader_step_def)
  next
    case W_In
    then show ?thesis using ph to(3) by (auto simp: reader_step_def)
  next
    case W_Put
    then show ?thesis using ph to(4) by (auto simp: reader_step_def)
  next
    case R_Turn
    then show ?thesis using ph to(5,6) by (auto simp: reader_step_def)
  next
    case R_In
    then have n: "0 < n" and b: "cstr (shm_buf s) 0 = Inr ((ls @ [q]) ! (n - 1))"
      using ph d by (simp_all add: data_ok_def)
    show ?thesis
    proof (cases "n = length ls + 1")
      case True
      then show ?thesis using ph R_In e[OF n] to(8) by (auto simp: reader_step_def w_after_def)
    next
      case False
      then have "n - 1 < length ls" using le n by simp
      then have "take (n - 1) ls @ [(ls @ [q]) ! (n - 1)] = take n ls"
        using n by (metis Suc_diff_1 nth_append take_Suc_conv_app_nth)
      then show ?thesis using ph R_In e[OF n] b n False \<open>n - 1 < length ls\<close> to(7) by (auto simp: reader_step_def w_after_def)
    qed
  next
    case R_Put
    then show ?thesis using ph to(2) by (auto simp: reader_step_def)
  next
    case R_Err
    then show ?thesis using ph to(9) by (auto simp: reader_step_def)
  next
    case Over
    then show ?thesis using ph by (auto simp: reader_step_def)
  qed
qed

lemma sem_run_inv: "chat_ok ls q \<Longrightarrow> sem_chat_inv ls q s \<Longrightarrow> \<exists>s'. sem_run ws s = Inr s' \<and> sem_chat_inv ls q s'"
proof (induction ws arbitrary: s)
  case (Cons w ws)
  have "steps_to (sem_chat_inv ls q) (if w then writer_step s else reader_step s)"
    using writer_step_inv[OF Cons.prems] reader_step_inv[OF Cons.prems] by simp
  then obtain r where r: "(if w then writer_step s else reader_step s) = Inr r"
      "\<And>s'. r = Some s' \<Longrightarrow> sem_chat_inv ls q s'"
    by (auto simp: steps_to_def split: sum.splits option.splits)
  then have "sem_chat_inv ls q (case r of None \<Rightarrow> s | Some s' \<Rightarrow> s')" using Cons.prems(2) by (auto split: option.split)
  then show ?case using Cons.IH[OF Cons.prems(1)] r(1) by simp
qed simp

lemma sem_chat_inv_prefix: "sem_chat_inv ls q s \<Longrightarrow> prefix (r_printed s) ls"
proof -
  assume "sem_chat_inv ls q s"
  then obtain n ph where "phase_ok ls n ph s" by (auto simp: sem_chat_inv_def)
  then show ?thesis by (cases ph) (auto simp: take_is_prefix)
qed

lemma sem_chat_inv_stuck:
  assumes "chat_ok ls q" "sem_chat_inv ls q s" "sem_stuck s"
  shows "r_printed s = ls \<and> w_pc s = Sem_Gone \<and> r_pc s = Sem_Gone \<and> sem_set s = None"
proof -
  obtain n ph where ph: "phase_ok ls n ph s" and d: "data_ok ls q n s" using assms(2) by (auto simp: sem_chat_inv_def)
  have st: "writer_step s = Inr None" "reader_step s = Inr None" using assms(3) by (auto simp: sem_stuck_def)
  have e: "0 < n \<Longrightarrow> shm_exit (shm_buf s) = Inr (n = length ls + 1)" by (rule buf_exit[OF assms(1) d])
  show ?thesis
    using ph st e by (cases ph) (auto simp: writer_step_def reader_step_def w_after_def bindR_eq_Inr split: if_splits)
qed

text \<open>
  C15. However the two programs are started and scheduled, no line is lost, doubled or read while it is being
  typed: what the reader has printed is at every moment a beginning of what was typed, and neither can move
  only when all lines are printed and both have left. The creation of the set needs no lock of its own: both
  values are 0 until the writer's one is set last.
\<close>

theorem sem_lines_passed:
  assumes "chat_ok ls q"
  shows "\<exists>s. sem_run ws (sem_start (typed (ls @ [q]))) = Inr s \<and> prefix (r_printed s) ls
    \<and> (sem_stuck s \<longrightarrow> r_printed s = ls \<and> w_pc s = Sem_Gone \<and> r_pc s = Sem_Gone \<and> sem_set s = None)"
  using sem_run_inv[OF assms sem_chat_inv_start] sem_chat_inv_prefix sem_chat_inv_stuck[OF assms] by blast

theorem sem_lines_passed_witness:
  "\<exists>s. sem_run [False, True, True, False, False, True, True, True] (sem_start (typed ([''hi''] @ [''exit'']))) = Inr s
    \<and> prefix (r_printed s) [''hi'']"
  using sem_lines_passed[of "[''hi'']" "''exit''" "[False, True, True, False, False, True, True, True]"]
  by (auto simp: chat_ok_def shm_line_def SHM_LINE_def)

subsection \<open>The programs can always finish\<close>

fun w_rank :: "sem_pc \<Rightarrow> nat" where
  "w_rank Sem_Start = 4" | "w_rank Sem_Set0 = 3" | "w_rank Sem_Set1 = 2" | "w_rank Sem_P = 0"
| "w_rank Sem_Body = 0" | "w_rank Sem_V = 6" | "w_rank Sem_End = 1" | "w_rank Sem_Gone = 0"

fun r_rank :: "sem_pc \<Rightarrow> nat" where
  "r_rank Sem_Start = 4" | "r_rank Sem_Set0 = 3" | "r_rank Sem_Set1 = 2" | "r_rank Sem_P = 0"
| "r_rank Sem_Body = 3" | "r_rank Sem_V = 2" | "r_rank Sem_End = 1" | "r_rank Sem_Gone = 0"

text \<open>Every move lowers this number: lines to type, tokens, places in the two loops.\<close>

definition sem_rank :: "sem_ipc \<Rightarrow> nat" where
  "sem_rank s = 7 * count_list (w_in s) LF + w_rank (w_pc s) + r_rank (r_pc s)
     + (case sem_set s of None \<Rightarrow> 0 | Some (a, b) \<Rightarrow> 4 * a + b)"

lemma typed_count: "chat_ok ls q \<Longrightarrow> count_list (typed (drop n (ls @ [q]))) LF = length ls + 1 - n"
proof -
  assume ok: "chat_ok ls q"
  have "(\<forall>l \<in> set xs. LF \<notin> set l) \<Longrightarrow> count_list (typed xs) LF = length xs" for xs
    by (induction xs) (simp_all add: typed_def count_notin)
  moreover have "\<forall>l \<in> set (drop n (ls @ [q])). LF \<notin> set l"
    using ok by (auto simp: chat_ok_def shm_line_def dest!: in_set_dropD)
  ultimately show ?thesis by fastforce
qed

lemma writer_step_rank:
  assumes ok: "chat_ok ls q" and inv: "sem_chat_inv ls q s" and st: "writer_step s = Inr (Some s')"
  shows "sem_rank s' < sem_rank s"
proof -
  obtain n ph where ph: "phase_ok ls n ph s" and d: "data_ok ls q n s" using inv by (auto simp: sem_chat_inv_def)
  have e: "0 < n \<Longrightarrow> shm_exit (shm_buf s) = Inr (n = length ls + 1)" by (rule buf_exit[OF ok d])
  show ?thesis
  proof (cases "ph = W_In")
    case True
    have n: "n \<le> length ls" using ph True by simp
    obtain b1 b2 where b: "fgets (shm_buf s) SHM_LINE (w_in s) = Inr (b1, typed (drop (Suc n) (ls @ [q])))"
        "chop_newline b1 = Inr b2"
      using shm_take_line[OF ok n, of "shm_buf s"] d by (auto simp: data_ok_def)
    have "count_list (w_in s) LF = length ls + 1 - n" using d typed_count[OF ok, of n] by (simp add: data_ok_def)
    moreover have "count_list (typed (drop (Suc n) (ls @ [q]))) LF = length ls - n"
      using typed_count[OF ok, of "Suc n"] by simp
    ultimately show ?thesis using st ph True b n by (auto simp: writer_step_def sem_rank_def)
  next
    case False
    then show ?thesis using ph e st
      by (cases ph) (auto simp: writer_step_def sem_rank_def w_after_def split: if_splits)
  qed
qed

lemma reader_step_rank:
  assumes ok: "chat_ok ls q" and inv: "sem_chat_inv ls q s" and st: "reader_step s = Inr (Some s')"
  shows "sem_rank s' < sem_rank s"
proof -
  obtain n ph where ph: "phase_ok ls n ph s" and d: "data_ok ls q n s" using inv by (auto simp: sem_chat_inv_def)
  have e: "0 < n \<Longrightarrow> shm_exit (shm_buf s) = Inr (n = length ls + 1)" by (rule buf_exit[OF ok d])
  show ?thesis
    using ph e st
    by (cases ph) (auto simp: reader_step_def sem_rank_def bindR_eq_Inr split: if_splits)
qed

lemma sem_finish:
  assumes ok: "chat_ok ls q"
  shows "sem_chat_inv ls q s \<Longrightarrow> \<exists>ws s'. length ws \<le> sem_rank s \<and> sem_run ws s = Inr s' \<and> sem_chat_inv ls q s' \<and> sem_stuck s'"
proof (induction "sem_rank s" arbitrary: s rule: less_induct)
  case less
  show ?case
  proof (cases "sem_stuck s")
    case True
    then show ?thesis using less.prems by (intro exI[of _ "[]"] exI[of _ s]) simp
  next
    case False
    have "steps_to (sem_chat_inv ls q) (writer_step s)" "steps_to (sem_chat_inv ls q) (reader_step s)"
      using writer_step_inv[OF ok less.prems] reader_step_inv[OF ok less.prems] .
    then obtain w s1 where s1: "(if w then writer_step s else reader_step s) = Inr (Some s1)" "sem_chat_inv ls q s1"
      using False by (auto simp: steps_to_def sem_stuck_def split: sum.splits option.splits) (metis (full_types))+
    have lt: "sem_rank s1 < sem_rank s"
      using s1 writer_step_rank[OF ok less.prems] reader_step_rank[OF ok less.prems] by (cases w) auto
    obtain ws s' where "length ws \<le> sem_rank s1" "sem_run ws s1 = Inr s'" "sem_chat_inv ls q s'" "sem_stuck s'"
      using less.hyps[OF lt s1(2)] by blast
    then show ?thesis using s1(1) lt by (intro exI[of _ "w # ws"] exI[of _ s']) simp
  qed
qed

lemma sem_run_append: "sem_run (ws @ ws') s = bindR (sem_run ws s) (sem_run ws')"
  by (induction ws arbitrary: s) (simp_all add: bindR_def split: sum.splits)

text \<open>After any schedule there is one that brings both programs to their end, with every line printed.\<close>

theorem sem_chat_finishes:
  assumes "chat_ok ls q"
  shows "\<exists>ws' s. sem_run (ws @ ws') (sem_start (typed (ls @ [q]))) = Inr s
    \<and> w_pc s = Sem_Gone \<and> r_pc s = Sem_Gone \<and> r_printed s = ls"
proof -
  obtain s1 where s1: "sem_run ws (sem_start (typed (ls @ [q]))) = Inr s1" "sem_chat_inv ls q s1"
    using sem_run_inv[OF assms sem_chat_inv_start] by blast
  obtain ws' s where "sem_run ws' s1 = Inr s" "sem_chat_inv ls q s" "sem_stuck s"
    using sem_finish[OF assms s1(2)] by blast
  then show ?thesis using s1(1) sem_chat_inv_stuck[OF assms] by (intro exI[of _ ws'] exI[of _ s]) (simp add: sem_run_append)
qed

theorem sem_chat_finishes_witness:
  "\<exists>ws' s. sem_run ([False, True] @ ws') (sem_start (typed ([''hi''] @ [''exit'']))) = Inr s \<and> r_printed s = [''hi'']"
  using sem_chat_finishes[of "[''hi'']" "''exit''" "[False, True]"]
  by (auto simp: chat_ok_def shm_line_def SHM_LINE_def)

text \<open>
  At the end of the terminal's input \<open>fgets\<close> leaves the segment alone: the writer passes the last line once
  more, each time a character shorter, and when nothing is left it writes before the segment.
\<close>

theorem sem_end_of_input:
  assumes "w_pc s = Sem_Body" "w_in s = []" "cstr (shm_buf s) 0 = Inr l"
  shows "(l = [] \<and> writer_step s = Inl (Bad_Store (- 1)))
    \<or> (l \<noteq> [] \<and> (\<exists>s'. writer_step s = Inr (Some s') \<and> cstr (shm_buf s') 0 = Inr (butlast l) \<and> w_pc s' = Sem_V))"
proof (cases "l = []")
  case True
  then show ?thesis using assms by (simp add: writer_step_def fgets_def chop_newline_def store_def)
next
  case False
  then have b: "length l - 1 < length (shm_buf s)" using cstr_bound[OF assms(3)] by simp
  then have "store (shm_buf s) (int (length l) - 1) NUL = Inr ((shm_buf s)[length l - 1 := NUL])"
    using False store_nat[OF b, of NUL] by (cases l) simp_all
  moreover have "cstr ((shm_buf s)[length l - 1 := NUL]) 0 = Inr (butlast l)"
    using cstr_cut[OF assms(3), of "length l - 1"] by (simp add: butlast_conv_take)
  ultimately show ?thesis using assms False by (simp add: writer_step_def fgets_def chop_newline_def)
qed

theorem sem_end_of_input_witness:
  "writer_step (sem_start []\<lparr>w_pc := Sem_Body\<rparr>) = Inl (Bad_Store (- 1))"
  using sem_end_of_input[of "sem_start []\<lparr>w_pc := Sem_Body\<rparr>" "[]"]
  by (simp add: sem_start_def SHM_LINE_def cstr_def)

end
