(* ===== verification/Msg_Queue.thy ===== *)
theory Msg_Queue
  imports Sem_Chat
begin

text \<open>
  Two terminals that chat over one message queue (\<open>msg_queue_test1\<close> and \<open>msg_queue_test2\<close> of
  src/06_system_v_ipc/main.cpp): in each a child types and sends, its parent receives and prints.
\<close>

subsection \<open>The queue and the two processes of a terminal\<close>

definition MSG_LINE :: nat where "MSG_LINE = 256"
definition MSG_TYPE1 :: int where "MSG_TYPE1 = 111"
definition MSG_TYPE2 :: int where "MSG_TYPE2 = 222"

text \<open>The bytes a queue holds at most; a message counts with its text, 256 bytes.\<close>

definition MSGMNB :: nat where "MSGMNB = 16384"

type_synonym msg_queue = "(int \<times> char list) list"

fun queue_take :: "int \<Rightarrow> msg_queue \<Rightarrow> (char list \<times> msg_queue) option" where
  "queue_take t [] = None"
| "queue_take t ((u, m) # q) =
     (if u = t then Some (m, q) else map_option (\<lambda>(m', q'). (m', (u, m) # q')) (queue_take t q))"

text \<open>
  The child reads a line, sends it, and after \<open>exit\<close> kills its parent and removes the queue; the parent
  receives, and after \<open>exit\<close> kills its child and removes the queue.
\<close>

datatype child_pc = C_Read | C_Send | C_Kill | C_Remove | C_Ended
datatype parent_pc = P_Recv | P_Kill | P_Remove | P_Ended

record mq_side =
  side_in :: string
  send_buf :: "char list"
  child_at :: child_pc
  recv_buf :: "char list"
  parent_at :: parent_pc
  side_out :: "string list"

text \<open>A turn of the child: \<open>None\<close> while it waits for room. On a removed queue \<open>msgsnd\<close> fails unnoticed.\<close>

definition child_moves :: "int \<Rightarrow> msg_queue option \<Rightarrow> mq_side \<Rightarrow> (msg_queue option \<times> mq_side) option result" where
  "child_moves t q s =
     (case child_at s of
        C_Read \<Rightarrow>
          bindR (fgets (send_buf s) MSG_LINE (side_in s)) (\<lambda>p.
          bindR (chop_newline (fst p)) (\<lambda>b.
            Inr (Some (q, s\<lparr>side_in := snd p, send_buf := b, child_at := C_Send\<rparr>))))
      | C_Send \<Rightarrow>
          bindR (strneq (send_buf s) 0 ''exit'') (\<lambda>e.
            let s' = s\<lparr>child_at := if e then C_Kill else C_Read\<rparr>
            in (case q of
                  None \<Rightarrow> Inr (Some (None, s'))
                | Some ms \<Rightarrow>
                    if MSGMNB < MSG_LINE * (length ms + 1) then Inr None
                    else Inr (Some (Some (ms @ [(t, send_buf s)]), s'))))
      | C_Kill \<Rightarrow> Inr (Some (q, s\<lparr>parent_at := P_Ended, child_at := C_Remove\<rparr>))
      | C_Remove \<Rightarrow> Inr (Some (None, s\<lparr>child_at := C_Ended\<rparr>))
      | C_Ended \<Rightarrow> Inr None)"

text \<open>
  What the parent does with its buffer after \<open>msgrcv\<close>. On a removed queue \<open>msgrcv\<close> fails, which is not
  looked at, and the buffer still holds the message before.
\<close>

definition parent_shows :: "msg_queue option \<Rightarrow> mq_side \<Rightarrow> (msg_queue option \<times> mq_side) option result" where
  "parent_shows q s =
     bindR (strneq (recv_buf s) 0 ''exit'') (\<lambda>e.
       if e then Inr (Some (q, s\<lparr>parent_at := P_Kill\<rparr>))
       else bindR (cstr (recv_buf s) 0) (\<lambda>l. Inr (Some (q, s\<lparr>side_out := side_out s @ [l]\<rparr>))))"

definition parent_moves :: "int \<Rightarrow> msg_queue option \<Rightarrow> mq_side \<Rightarrow> (msg_queue option \<times> mq_side) option result" where
  "parent_moves t q s =
     (case parent_at s of
        P_Recv \<Rightarrow>
          (case q of
             None \<Rightarrow> parent_shows None s
           | Some ms \<Rightarrow>
               (case queue_take t ms of
                  None \<Rightarrow> Inr None
                | Some (m, ms') \<Rightarrow> parent_shows (Some ms') (s\<lparr>recv_buf := m\<rparr>)))
      | P_Kill \<Rightarrow> Inr (Some (q, s\<lparr>child_at := C_Ended, parent_at := P_Remove\<rparr>))
      | P_Remove \<Rightarrow> Inr (Some (None, s\<lparr>parent_at := P_Ended\<rparr>))
      | P_Ended \<Rightarrow> Inr None)"

subsection \<open>Both terminals\<close>

record mq_chat =
  mq_queue :: "msg_queue option"
  side1 :: mq_side
  side2 :: mq_side

datatype mq_turn = Child1 | Parent1 | Child2 | Parent2

fun mq_move :: "mq_turn \<Rightarrow> mq_chat \<Rightarrow> mq_chat option result" where
  "mq_move Child1 c = map_sum id (map_option (\<lambda>(q, s). c\<lparr>mq_queue := q, side1 := s\<rparr>)) (child_moves MSG_TYPE1 (mq_queue c) (side1 c))"
| "mq_move Parent1 c = map_sum id (map_option (\<lambda>(q, s). c\<lparr>mq_queue := q, side1 := s\<rparr>)) (parent_moves MSG_TYPE2 (mq_queue c) (side1 c))"
| "mq_move Child2 c = map_sum id (map_option (\<lambda>(q, s). c\<lparr>mq_queue := q, side2 := s\<rparr>)) (child_moves MSG_TYPE2 (mq_queue c) (side2 c))"
| "mq_move Parent2 c = map_sum id (map_option (\<lambda>(q, s). c\<lparr>mq_queue := q, side2 := s\<rparr>)) (parent_moves MSG_TYPE1 (mq_queue c) (side2 c))"

fun mq_run :: "mq_turn list \<Rightarrow> mq_chat \<Rightarrow> mq_chat result" where
  "mq_run [] c = Inr c"
| "mq_run (t # ts) c = bindR (mq_move t c) (\<lambda>r. mq_run ts (case r of None \<Rightarrow> c | Some c' \<Rightarrow> c'))"

definition mq_side_start :: "string \<Rightarrow> char list \<Rightarrow> char list \<Rightarrow> mq_side" where
  "mq_side_start inp sb rb = \<lparr>side_in = inp, send_buf = sb, child_at = C_Read, recv_buf = rb, parent_at = P_Recv, side_out = []\<rparr>"

subsection \<open>Order of the messages while the queue lives\<close>

definition queued :: "int \<Rightarrow> msg_queue \<Rightarrow> char list list" where
  "queued t q = map snd (filter (\<lambda>p. fst p = t) q)"

lemma queue_take_None: "queue_take t q = None \<longleftrightarrow> queued t q = []"
  by (induction t q rule: queue_take.induct) (auto simp: queued_def)

lemma queue_take_Some:
  "queue_take t q = Some (m, q') \<Longrightarrow>
    queued t q = m # queued t q' \<and> (\<forall>u. u \<noteq> t \<longrightarrow> queued u q' = queued u q) \<and> length q = Suc (length q')"
proof (induction t q arbitrary: q' rule: queue_take.induct)
  case (2 t u m0 q)
  then show ?case by (cases "u = t") (auto simp: queued_def)
qed simp

lemma queued_snoc: "queued t (q @ [(u, m)]) = queued t q @ (if u = t then [m] else [])"
  by (simp add: queued_def)

text \<open>
  One direction, from the child of \<open>a\<close> to the parent of \<open>b\<close>: \<open>k\<close> lines read, \<open>j\<close> of them sent, and what is
  printed together with what is in the queue is what was sent.
\<close>

definition dir_ok :: "string list \<Rightarrow> string \<Rightarrow> int \<Rightarrow> msg_queue \<Rightarrow> mq_side \<Rightarrow> mq_side \<Rightarrow> bool" where
  "dir_ok ls q t ms a b =
     (\<exists>k j xs. k \<le> length ls + 1 \<and> j \<le> length ls + 1
       \<and> side_in a = typed (drop k (ls @ [q])) \<and> length (send_buf a) = MSG_LINE
       \<and> (child_at a = C_Read \<longrightarrow> j = k \<and> k \<le> length ls)
       \<and> (child_at a = C_Send \<longrightarrow> Suc j = k \<and> cstr (send_buf a) 0 = Inr ((ls @ [q]) ! j))
       \<and> map (\<lambda>m. cstr m 0) (queued t ms) = map Inr xs
       \<and> (parent_at b = P_Recv \<longrightarrow> side_out b @ xs = take j (ls @ [q]))
       \<and> prefix (side_out b) ls)"

lemma dir_okI:
  assumes "k \<le> length ls + 1" "j \<le> length ls + 1" "side_in a = typed (drop k (ls @ [q]))" "length (send_buf a) = MSG_LINE"
    "child_at a = C_Read \<Longrightarrow> j = k \<and> k \<le> length ls"
    "child_at a = C_Send \<Longrightarrow> Suc j = k \<and> cstr (send_buf a) 0 = Inr ((ls @ [q]) ! j)"
    "map (\<lambda>m. cstr m 0) (queued t ms) = map Inr xs"
    "parent_at b = P_Recv \<Longrightarrow> side_out b @ xs = take j (ls @ [q])" "prefix (side_out b) ls"
  shows "dir_ok ls q t ms a b"
  using assms unfolding dir_ok_def by blast

text \<open>What the moves of the two other processes leave alone.\<close>

lemma dir_ok_cong:
  assumes "dir_ok ls q t ms a b" "queued t ms' = queued t ms"
    "side_in a' = side_in a" "send_buf a' = send_buf a" "child_at a' = child_at a \<or> child_at a' = C_Ended"
    "parent_at b' = parent_at b \<or> parent_at b' \<noteq> P_Recv" "side_out b' = side_out b"
  shows "dir_ok ls q t ms' a' b'"
proof -
  obtain k j xs where "k \<le> length ls + 1" "j \<le> length ls + 1" "side_in a = typed (drop k (ls @ [q]))"
      "length (send_buf a) = MSG_LINE" "child_at a = C_Read \<longrightarrow> j = k \<and> k \<le> length ls"
      "child_at a = C_Send \<longrightarrow> Suc j = k \<and> cstr (send_buf a) 0 = Inr ((ls @ [q]) ! j)"
      "map (\<lambda>m. cstr m 0) (queued t ms) = map Inr xs"
      "parent_at b = P_Recv \<longrightarrow> side_out b @ xs = take j (ls @ [q])" "prefix (side_out b) ls"
    using assms(1) unfolding dir_ok_def by blast
  note d = this
  show ?thesis by (rule dir_okI[of k ls j a' q t ms' xs b']) (use assms(2-) d in auto)
qed

text \<open>The moves of the sender.\<close>

definition moves_to :: "(msg_queue option \<Rightarrow> mq_side \<Rightarrow> bool) \<Rightarrow> (msg_queue option \<times> mq_side) option result \<Rightarrow> bool" where
  "moves_to P r = (case r of Inl f \<Rightarrow> False | Inr None \<Rightarrow> True | Inr (Some p) \<Rightarrow> P (fst p) (snd p))"

lemma moves_to_simps [simp]:
  "moves_to P (Inr None)" "moves_to P (Inr (Some (v, s))) = P v s" "\<not> moves_to P (Inl f)"
  by (simp_all add: moves_to_def)

lemma child_moves_dir:
  assumes ok: "chat_ok ls q" and inv: "dir_ok ls q t ms a b"
  shows "moves_to (\<lambda>v a'. v = None \<or> (\<exists>ms'. v = Some ms' \<and> dir_ok ls q t ms' a' b
      \<and> (\<forall>u. u \<noteq> t \<longrightarrow> queued u ms' = queued u ms) \<and> side_out a' = side_out a
      \<and> (parent_at a' = parent_at a \<or> parent_at a' = P_Ended))) (child_moves t (Some ms) a)"
proof -
  obtain k j xs where d: "k \<le> length ls + 1" "j \<le> length ls + 1" "side_in a = typed (drop k (ls @ [q]))"
      "length (send_buf a) = MSG_LINE" "child_at a = C_Read \<longrightarrow> j = k \<and> k \<le> length ls"
      "child_at a = C_Send \<longrightarrow> Suc j = k \<and> cstr (send_buf a) 0 = Inr ((ls @ [q]) ! j)"
      "map (\<lambda>m. cstr m 0) (queued t ms) = map Inr xs"
      "parent_at b = P_Recv \<longrightarrow> side_out b @ xs = take j (ls @ [q])" "prefix (side_out b) ls"
    using inv unfolding dir_ok_def by blast
  show ?thesis
  proof (cases "child_at a")
    case C_Read
    then have n: "j = k" "k \<le> length ls" using d(5) by auto
    obtain b1 b2 where b: "fgets (send_buf a) MSG_LINE (side_in a) = Inr (b1, typed (drop (Suc k) (ls @ [q])))"
        "chop_newline b1 = Inr b2" "length b2 = MSG_LINE" "cstr b2 0 = Inr ((ls @ [q]) ! k)"
      using shm_take_line[OF ok n(2), of "send_buf a"] d(3,4) by (auto simp: MSG_LINE_def SHM_LINE_def)
    let ?a = "a\<lparr>side_in := typed (drop (Suc k) (ls @ [q])), send_buf := b2, child_at := C_Send\<rparr>"
    have "dir_ok ls q t ms ?a b"
      by (rule dir_okI[of "Suc k" ls k _ q t ms xs b]) (use b n d in simp_all)
    then show ?thesis using C_Read b by (simp add: child_moves_def)
  next
    case C_Send
    let ?l = "(ls @ [q]) ! j"
    have s: "Suc j = k" "cstr (send_buf a) 0 = Inr ?l" using d(6) C_Send by auto
    have "take 4 ?l = ''exit'' \<longleftrightarrow> j = length ls"
      using chat_exit[OF ok, of "Suc j"] d(1) unfolding s(1)[symmetric] by simp
    then have e: "strneq (send_buf a) 0 ''exit'' = Inr (j = length ls)"
      using shm_exit_line[OF s(2)] by (simp add: shm_exit_def)
    let ?a = "a\<lparr>child_at := if j = length ls then C_Kill else C_Read\<rparr>"
    have tk: "take (Suc j) (ls @ [q]) = take j (ls @ [q]) @ [?l]" using s(1) d(1) by (intro take_Suc_conv_app_nth) simp
    have out: "side_out b @ xs @ [?l] = take (Suc j) (ls @ [q])" if "parent_at b = P_Recv"
      unfolding tk using d(8) that by (simp only: simp_thms flip: append_assoc)
    have "dir_ok ls q t (ms @ [(t, send_buf a)]) ?a b"
      by (rule dir_okI[of k ls "Suc j" _ q t _ "xs @ [?l]" b])
        (use s d(1-5,7,9) out in \<open>simp_all add: queued_snoc split: if_splits\<close>)
    then show ?thesis using C_Send e by (auto simp: child_moves_def Let_def queued_snoc)
  next
    case C_Kill
    have "dir_ok ls q t ms (a\<lparr>parent_at := P_Ended, child_at := C_Remove\<rparr>) b"
      by (rule dir_okI[of k ls j _ q t ms xs]) (use d in simp_all)
    then show ?thesis using C_Kill by (simp add: child_moves_def)
  qed (simp_all add: child_moves_def)
qed

text \<open>The moves of the receiver.\<close>

lemma parent_moves_dir:
  assumes ok: "chat_ok ls q" and inv: "dir_ok ls q t ms a b"
  shows "moves_to (\<lambda>v b'. v = None \<or> (\<exists>ms'. v = Some ms' \<and> dir_ok ls q t ms' a b'
      \<and> (\<forall>u. u \<noteq> t \<longrightarrow> queued u ms' = queued u ms) \<and> side_in b' = side_in b \<and> send_buf b' = send_buf b
      \<and> (child_at b' = child_at b \<or> child_at b' = C_Ended))) (parent_moves t (Some ms) b)"
proof -
  obtain k j xs where d: "k \<le> length ls + 1" "j \<le> length ls + 1" "side_in a = typed (drop k (ls @ [q]))"
      "length (send_buf a) = MSG_LINE" "child_at a = C_Read \<longrightarrow> j = k \<and> k \<le> length ls"
      "child_at a = C_Send \<longrightarrow> Suc j = k \<and> cstr (send_buf a) 0 = Inr ((ls @ [q]) ! j)"
      "map (\<lambda>m. cstr m 0) (queued t ms) = map Inr xs"
      "parent_at b = P_Recv \<longrightarrow> side_out b @ xs = take j (ls @ [q])" "prefix (side_out b) ls"
    using inv unfolding dir_ok_def by blast
  show ?thesis
  proof (cases "parent_at b")
    case P_Recv
    show ?thesis
    proof (cases "queue_take t ms")
      case None
      then show ?thesis using P_Recv by (simp add: parent_moves_def)
    next
      case (Some p)
      obtain m ms' where p: "p = (m, ms')" by (cases p)
      have qs: "queued t ms = m # queued t ms'" "\<forall>u. u \<noteq> t \<longrightarrow> queued u ms' = queued u ms"
        using queue_take_Some[of t ms m ms'] Some p by auto
      obtain x xs' where x: "xs = x # xs'" "cstr m 0 = Inr x" "map (\<lambda>m. cstr m 0) (queued t ms') = map Inr xs'"
        using d(7) qs(1) by (cases xs) auto
      have out: "side_out b @ x # xs' = take j (ls @ [q])" using d(8) P_Recv x(1) by simp
      let ?n = "length (side_out b)"
      have len: "?n < j" using arg_cong[OF out, of length] d(2) by simp
      have nth: "x = (ls @ [q]) ! ?n"
        using arg_cong[OF out, of "\<lambda>l. l ! ?n"] len by (simp del: take_append)
      have e: "strneq m 0 ''exit'' = Inr (?n = length ls)"
        using shm_exit_line[OF x(2)] chat_exit[OF ok, of "Suc ?n"] nth len d(2) by (simp add: shm_exit_def)
      show ?thesis
      proof (cases "?n = length ls")
        case True
        have "dir_ok ls q t ms' a (b\<lparr>recv_buf := m, parent_at := P_Kill\<rparr>)"
          by (rule dir_okI[of k ls j a q t ms' xs']) (use d x(3) in simp_all)
        then show ?thesis using P_Recv Some p e True qs(2) by (simp add: parent_moves_def parent_shows_def)
      next
        case False
        then have n: "?n < length ls" using len d(2) by simp
        have "side_out b = take ?n ls" using d(9) by (auto simp: prefix_def)
        moreover have "x = ls ! ?n" using nth n by (simp add: nth_append)
        ultimately have "side_out b @ [x] = take (Suc ?n) ls" using n by (simp add: take_Suc_conv_app_nth)
        then have pre: "prefix (side_out b @ [x]) ls" by (metis take_is_prefix)
        have "dir_ok ls q t ms' a (b\<lparr>recv_buf := m, side_out := side_out b @ [x]\<rparr>)"
          by (rule dir_okI[of k ls j a q t ms' xs']) (use d x(3) out pre in simp_all)
        then show ?thesis using P_Recv Some p e False qs(2) x(2) by (simp add: parent_moves_def parent_shows_def)
      qed
    qed
  next
    case P_Kill
    have "dir_ok ls q t ms a (b\<lparr>child_at := C_Ended, parent_at := P_Remove\<rparr>)"
      by (rule dir_okI[of k ls j _ q t ms xs]) (use d in simp_all)
    then show ?thesis using P_Kill by (simp add: parent_moves_def)
  qed (simp_all add: parent_moves_def)
qed

subsection \<open>The chat\<close>

definition mq_start :: "string \<Rightarrow> string \<Rightarrow> (char list \<times> char list) \<Rightarrow> (char list \<times> char list) \<Rightarrow> mq_chat" where
  "mq_start in1 in2 bufs1 bufs2 = \<lparr>mq_queue = Some [], side1 = mq_side_start in1 (fst bufs1) (snd bufs1),
     side2 = mq_side_start in2 (fst bufs2) (snd bufs2)\<rparr>"

definition mq_inv :: "string list \<Rightarrow> string \<Rightarrow> string list \<Rightarrow> string \<Rightarrow> mq_chat \<Rightarrow> bool" where
  "mq_inv ls1 q1 ls2 q2 c =
     (\<forall>ms. mq_queue c = Some ms \<longrightarrow>
        dir_ok ls1 q1 MSG_TYPE1 ms (side1 c) (side2 c) \<and> dir_ok ls2 q2 MSG_TYPE2 ms (side2 c) (side1 c))"

lemma types_differ [simp]: "MSG_TYPE1 \<noteq> MSG_TYPE2" "MSG_TYPE2 \<noteq> MSG_TYPE1"
  by (simp_all add: MSG_TYPE1_def MSG_TYPE2_def)

lemma mq_move_inv:
  assumes ok: "chat_ok ls1 q1" "chat_ok ls2 q2" and inv: "mq_inv ls1 q1 ls2 q2 c" and ms: "mq_queue c = Some ms"
  shows "\<exists>r. mq_move t c = Inr r \<and> (\<forall>c'. r = Some c' \<longrightarrow> mq_inv ls1 q1 ls2 q2 c')"
proof -
  have d1: "dir_ok ls1 q1 MSG_TYPE1 ms (side1 c) (side2 c)" and d2: "dir_ok ls2 q2 MSG_TYPE2 ms (side2 c) (side1 c)"
    using inv ms by (auto simp: mq_inv_def)
  show ?thesis
  proof (cases t)
    case Child1
    then show ?thesis using child_moves_dir[OF ok(1) d1] dir_ok_cong[OF d2] ms
      by (auto simp: moves_to_def mq_inv_def split: sum.splits option.splits)
  next
    case Parent1
    then show ?thesis using parent_moves_dir[OF ok(2) d2] dir_ok_cong[OF d1] ms
      by (auto simp: moves_to_def mq_inv_def split: sum.splits option.splits)
  next
    case Child2
    then show ?thesis using child_moves_dir[OF ok(2) d2] dir_ok_cong[OF d1] ms
      by (auto simp: moves_to_def mq_inv_def split: sum.splits option.splits) 
  next
    case Parent2
    then show ?thesis using parent_moves_dir[OF ok(1) d1] dir_ok_cong[OF d2] ms
      by (auto simp: moves_to_def mq_inv_def split: sum.splits option.splits)
  qed
qed

lemma mq_move_removed: "mq_queue c = None \<Longrightarrow> mq_move t c = Inr (Some c') \<Longrightarrow> mq_queue c' = None"
  by (cases t) (auto simp: child_moves_def parent_moves_def parent_shows_def bindR_eq_Inr Let_def map_sum_def
      split: child_pc.splits parent_pc.splits sum.splits if_splits)

lemma mq_run_removed: "mq_queue c = None \<Longrightarrow> mq_run ts c = Inr c' \<Longrightarrow> mq_queue c' = None"
proof (induction ts arbitrary: c)
  case (Cons t ts)
  then show ?case using mq_move_removed[of c t] by (auto simp: bindR_eq_Inr split: option.splits)
qed simp

lemma mq_run_inv:
  assumes "chat_ok ls1 q1" "chat_ok ls2 q2"
  shows "mq_inv ls1 q1 ls2 q2 c \<Longrightarrow> mq_run ts c = Inr c' \<Longrightarrow> mq_inv ls1 q1 ls2 q2 c'"
proof (induction ts arbitrary: c)
  case (Cons t ts)
  show ?case
  proof (cases "mq_queue c")
    case None
    then show ?thesis using mq_run_removed[OF None Cons.prems(2)] by (simp add: mq_inv_def)
  next
    case (Some ms)
    then show ?thesis using Cons mq_move_inv[OF assms Cons.prems(1) Some, of t] by (auto split: option.splits)
  qed
qed simp

definition bufs_ok :: "char list \<times> char list \<Rightarrow> bool" where
  "bufs_ok b = (length (fst b) = MSG_LINE)"

lemma mq_inv_start: "bufs_ok b1 \<Longrightarrow> bufs_ok b2 \<Longrightarrow> mq_inv ls1 q1 ls2 q2 (mq_start (typed (ls1 @ [q1])) (typed (ls2 @ [q2])) b1 b2)"
  by (auto simp: mq_inv_def mq_start_def mq_side_start_def bufs_ok_def queued_def
      intro!: dir_okI[of 0 ls1 0 _ q1 _ _ "[]"] dir_okI[of 0 ls2 0 _ q2 _ _ "[]"])

text \<open>
  C17. As long as the queue exists, in every order of the four processes: what a terminal shows is a beginning
  of what was typed at the other one, and no next step goes wrong.
\<close>

theorem mq_in_order:
  assumes "chat_ok ls1 q1" "chat_ok ls2 q2" "bufs_ok b1" "bufs_ok b2"
    "mq_run ts (mq_start (typed (ls1 @ [q1])) (typed (ls2 @ [q2])) b1 b2) = Inr c" "mq_queue c \<noteq> None"
  shows "prefix (side_out (side2 c)) ls1 \<and> prefix (side_out (side1 c)) ls2 \<and> is_ok (mq_move t c)"
proof -
  have inv: "mq_inv ls1 q1 ls2 q2 c" using mq_run_inv[OF assms(1,2) mq_inv_start[OF assms(3,4)] assms(5)] .
  obtain ms where ms: "mq_queue c = Some ms" using assms(6) by blast
  have "is_ok (mq_move t c)" using mq_move_inv[OF assms(1,2) inv ms, of t] by (auto simp: is_ok_iff)
  then show ?thesis using inv ms unfolding mq_inv_def dir_ok_def by blast
qed

lemma mq_take_line:
  assumes "shm_line l" "length b = MSG_LINE"
  obtains b1 b2 where "fgets b MSG_LINE (l @ LF # rest) = Inr (b1, rest)" "chop_newline b1 = Inr b2"
    "length b2 = MSG_LINE" "cstr b2 0 = Inr l"
proof -
  have l: "LF \<notin> set l" "NUL \<notin> set l" "length l + 2 \<le> MSG_LINE" "MSG_LINE \<le> length b"
    using assms by (auto simp: shm_line_def SHM_LINE_def MSG_LINE_def)
  obtain b1 where b1: "fgets b MSG_LINE (l @ LF # rest) = Inr (b1, rest)" "length b1 = length b" "cstr b1 0 = Inr (l @ [LF])"
    using fgets_line[OF l] by blast
  obtain b2 where "chop_newline b1 = Inr b2" "length b2 = length b1" "cstr b2 0 = Inr l"
    using chop_newline_line[OF b1(3)] by auto
  then show ?thesis using that b1 assms(2) by simp
qed

lemma parent_repeats:
  assumes "mq_queue c = None" "parent_at (side2 c) = P_Recv" "cstr (recv_buf (side2 c)) 0 = Inr l" "take 4 l \<noteq> ''exit''"
  shows "\<exists>c'. mq_run (replicate n Parent2) c = Inr c' \<and> side_out (side2 c') = side_out (side2 c) @ replicate n l
    \<and> mq_queue c' = None \<and> parent_at (side2 c') = P_Recv \<and> side1 c' = side1 c"
  using assms
proof (induction n arbitrary: c)
  case (Suc n)
  let ?s = "(side2 c)\<lparr>side_out := side_out (side2 c) @ [l]\<rparr>"
  have "strneq (recv_buf (side2 c)) 0 ''exit'' = Inr False"
    using shm_exit_line[OF Suc.prems(3)] Suc.prems(4) by (simp add: shm_exit_def)
  then have "mq_move Parent2 c = Inr (Some (c\<lparr>mq_queue := None, side2 := ?s\<rparr>))"
    using Suc.prems by (simp add: parent_moves_def parent_shows_def)
  then show ?case using Suc.IH[of "c\<lparr>mq_queue := None, side2 := ?s\<rparr>"] Suc.prems by simp
qed simp

text \<open>
  C26. Terminal 1 leaves with \<open>exit\<close> and removes the queue at once. When terminal 2 has not yet received that
  message it is lost: terminal 2 never learns of it, and prints its last line over and over.
\<close>

theorem mq_exit_lost:
  assumes "shm_line l" "take 4 l \<noteq> ''exit''" "shm_line q" "take 4 q = ''exit''" "bufs_ok b1"
  shows "\<exists>c. mq_run ([Child1, Child1, Parent2, Child1, Child1, Child1, Child1] @ replicate n Parent2)
        (mq_start (typed [l, q]) in2 b1 b2) = Inr c
    \<and> side_out (side2 c) = replicate (Suc n) l \<and> parent_at (side2 c) = P_Recv \<and> mq_queue c = None"
proof -
  let ?ini = "mq_start (typed [l, q]) in2 b1 b2"
  obtain c1 c2 where c: "fgets (fst b1) MSG_LINE (l @ LF # q @ [LF]) = Inr (c1, q @ [LF])" "chop_newline c1 = Inr c2"
      "length c2 = MSG_LINE" "cstr c2 0 = Inr l"
    using mq_take_line[OF assms(1), of "fst b1" "q @ [LF]"] assms(5) by (auto simp: bufs_ok_def)
  obtain d1 d2 where d: "fgets c2 MSG_LINE (q @ [LF]) = Inr (d1, [])" "chop_newline d1 = Inr d2"
      "length d2 = MSG_LINE" "cstr d2 0 = Inr q"
    by (rule mq_take_line[OF assms(3) c(3), of "[]"])
  have e: "strneq c2 0 ''exit'' = Inr False" "strneq d2 0 ''exit'' = Inr True"
    using shm_exit_line[OF c(4)] shm_exit_line[OF d(4)] assms(2,4) by (simp_all add: shm_exit_def)
  let ?r = "mq_side_start in2 (fst b2) (snd b2)"
  let ?s1 = "\<lambda>i b p. \<lparr>side_in = i, send_buf = b, child_at = p, recv_buf = snd b1, parent_at = P_Recv, side_out = []\<rparr>"
  let ?e1 = "\<lambda>p. \<lparr>side_in = [], send_buf = d2, child_at = p, recv_buf = snd b1, parent_at = P_Ended, side_out = []\<rparr>"
  define s2 where "s2 = ?r\<lparr>recv_buf := c2, side_out := [l]\<rparr>"
  let ?c = "\<lparr>mq_queue = None, side1 = ?e1 C_Ended, side2 = s2\<rparr>"
  have s0: "?ini = \<lparr>mq_queue = Some [], side1 = ?s1 (l @ LF # q @ [LF]) (fst b1) C_Read, side2 = ?r\<rparr>"
    by (simp add: mq_start_def mq_side_start_def typed_def)
  have m1: "mq_move Child1 ?ini = Inr (Some \<lparr>mq_queue = Some [], side1 = ?s1 (q @ [LF]) c2 C_Send, side2 = ?r\<rparr>)"
    using c(1,2) unfolding s0 by (simp add: child_moves_def)
  have m2: "mq_move Child1 \<lparr>mq_queue = Some [], side1 = ?s1 (q @ [LF]) c2 C_Send, side2 = ?r\<rparr>
      = Inr (Some \<lparr>mq_queue = Some [(MSG_TYPE1, c2)], side1 = ?s1 (q @ [LF]) c2 C_Read, side2 = ?r\<rparr>)"
    using e(1) by (simp add: child_moves_def MSGMNB_def MSG_LINE_def)
  have m3: "mq_move Parent2 \<lparr>mq_queue = Some [(MSG_TYPE1, c2)], side1 = ?s1 (q @ [LF]) c2 C_Read, side2 = ?r\<rparr>
      = Inr (Some \<lparr>mq_queue = Some [], side1 = ?s1 (q @ [LF]) c2 C_Read, side2 = s2\<rparr>)"
    using e(1) c(4) by (simp add: parent_moves_def parent_shows_def s2_def mq_side_start_def)
  have m4: "mq_move Child1 \<lparr>mq_queue = Some [], side1 = ?s1 (q @ [LF]) c2 C_Read, side2 = s2\<rparr>
      = Inr (Some \<lparr>mq_queue = Some [], side1 = ?s1 [] d2 C_Send, side2 = s2\<rparr>)"
    using d(1,2) by (simp add: child_moves_def)
  have m5: "mq_move Child1 \<lparr>mq_queue = Some [], side1 = ?s1 [] d2 C_Send, side2 = s2\<rparr>
      = Inr (Some \<lparr>mq_queue = Some [(MSG_TYPE1, d2)], side1 = ?s1 [] d2 C_Kill, side2 = s2\<rparr>)"
    using e(2) by (simp add: child_moves_def MSGMNB_def MSG_LINE_def)
  have m6: "mq_run [Child1, Child1] \<lparr>mq_queue = Some [(MSG_TYPE1, d2)], side1 = ?s1 [] d2 C_Kill, side2 = s2\<rparr> = Inr ?c"
    by (simp add: child_moves_def)
  have m: "mq_run [Child1, Child1, Parent2, Child1, Child1, Child1, Child1] ?ini = Inr ?c"
    by (simp only: mq_run.simps m1 m2 m3 m4 m5 bindR_Inr option.case m6[unfolded mq_run.simps])
  obtain c' where "mq_run (replicate n Parent2) ?c = Inr c'" "side_out (side2 c') = [l] @ replicate n l"
      "mq_queue c' = None" "parent_at (side2 c') = P_Recv"
    using parent_repeats[of ?c l n] c(4) assms(2) by (auto simp: s2_def mq_side_start_def)
  moreover have "mq_run (xs @ ys) a = bindR (mq_run xs a) (mq_run ys)" for xs ys a
    by (induction xs arbitrary: a) (simp_all add: bindR_def split: sum.splits)
  ultimately show ?thesis by (intro exI[of _ c']) (simp only: m bindR_Inr replicate.simps list.simps append_Cons[of l "[]"] append_Nil simp_thms)
qed

theorem mq_exit_lost_witness:
  "\<exists>c. mq_run ([Child1, Child1, Parent2, Child1, Child1, Child1, Child1] @ replicate 2 Parent2)
        (mq_start (typed [''hi'', ''exit'']) [] (replicate 256 NUL, []) ([], [])) = Inr c
    \<and> side_out (side2 c) = replicate (Suc 2) ''hi''"
proof -
  have "shm_line ''hi''" "take 4 ''hi'' \<noteq> ''exit''" "shm_line ''exit''" "take 4 ''exit'' = ''exit''" "bufs_ok (replicate 256 NUL, [])"
    by (simp_all add: shm_line_def SHM_LINE_def bufs_ok_def MSG_LINE_def)
  then show ?thesis using mq_exit_lost[of "''hi''" "''exit''" "(replicate 256 NUL, [])" 2 "[]" "([], [])"] by blast
qed

theorem mq_in_order_witness:
  "prefix (side_out (side2 (case mq_run [Child1, Child1, Parent2] (mq_start (typed ([''hi''] @ [''exit''])) (typed ([] @ [''exit'']))
        (replicate 256 NUL, []) (replicate 256 NUL, [])) of Inr c \<Rightarrow> c))) [''hi'']"
proof -
  let ?ini = "mq_start (typed ([''hi''] @ [''exit''])) (typed ([] @ [''exit''])) (replicate 256 NUL, []) (replicate 256 NUL, [])"
  have "(case mq_run [Child1, Child1, Parent2] ?ini of Inr c \<Rightarrow> mq_queue c = Some [] | Inl f \<Rightarrow> False)" by code_simp
  then obtain c where c: "mq_run [Child1, Child1, Parent2] ?ini = Inr c" "mq_queue c = Some []"
    by (simp only: split: sum.splits)
  have "chat_ok [''hi''] ''exit''" "chat_ok [] ''exit''" "bufs_ok (replicate 256 NUL, [])"
    by (simp_all add: chat_ok_def shm_line_def SHM_LINE_def bufs_ok_def MSG_LINE_def)
  then show ?thesis using mq_in_order[OF _ _ _ _ c(1), of Child1] c by simp
qed

end
