(* ===== verification/Pipe_Io.thy ===== *)
theory Pipe_Io
  imports Sem_Chat
begin

text \<open>
  Pipes in src/05_ipc/main.cpp: a file copied through a pipe between parent and child
  (\<open>pipe_comm_test\<close>), and lines sent through a named pipe (\<open>fifo_comm_a\<close>, \<open>fifo_comm_b\<close>).
\<close>

definition PIPE_SIZE :: nat where "PIPE_SIZE = 65536"
definition CHUNK :: nat where "CHUNK = 32"

subsection \<open>Copying a file through a pipe\<close>

text \<open>
  The parent reads the first file and writes to the pipe, the child reads the pipe and writes the second
  file. Both inherit both ends and close none, so the child holds a write end itself; the parent's goes
  when it returns.
\<close>

record pipe_copy =
  src_rest :: string
  pipe_data :: string
  dst_file :: string
  parent_open :: bool
  child_open :: bool
  child_done :: bool

definition pipe_copy_start :: "string \<Rightarrow> pipe_copy" where
  "pipe_copy_start f = \<lparr>src_rest = f, pipe_data = [], dst_file = [], parent_open = True, child_open = True, child_done = False\<rparr>"

definition copy_parent :: "pipe_copy \<Rightarrow> pipe_copy option" where
  "copy_parent s =
     (if \<not> parent_open s then None
      else if src_rest s = [] then Some (s\<lparr>parent_open := False\<rparr>)
      else let d = take CHUNK (src_rest s)
           in if PIPE_SIZE < length (pipe_data s) + length d then None
              else Some (s\<lparr>src_rest := drop CHUNK (src_rest s), pipe_data := pipe_data s @ d\<rparr>))"

text \<open>A \<open>read\<close> of an empty pipe returns 0 when nobody holds a write end; else it waits.\<close>

definition copy_child :: "pipe_copy \<Rightarrow> pipe_copy option" where
  "copy_child s =
     (if child_done s then None
      else if pipe_data s = [] then
        (if parent_open s \<or> child_open s then None else Some (s\<lparr>child_open := False, child_done := True\<rparr>))
      else Some (s\<lparr>pipe_data := drop CHUNK (pipe_data s), dst_file := dst_file s @ take CHUNK (pipe_data s)\<rparr>))"

fun copy_run :: "bool list \<Rightarrow> pipe_copy \<Rightarrow> pipe_copy" where
  "copy_run [] s = s"
| "copy_run (p # ps) s = copy_run ps (case (if p then copy_parent s else copy_child s) of None \<Rightarrow> s | Some s' \<Rightarrow> s')"

definition copy_ok :: "string \<Rightarrow> pipe_copy \<Rightarrow> bool" where
  "copy_ok f s \<longleftrightarrow> dst_file s @ pipe_data s @ src_rest s = f \<and> child_open s \<and> \<not> child_done s
    \<and> length (pipe_data s) \<le> PIPE_SIZE \<and> (\<not> parent_open s \<longrightarrow> src_rest s = [])"

lemma copy_step_ok:
  assumes "copy_ok f s" "(if p then copy_parent s else copy_child s) = Some s'"
  shows "copy_ok f s'"
  using assms by (auto simp: copy_ok_def copy_parent_def copy_child_def Let_def split: if_splits)

lemma copy_run_ok: "copy_ok f s \<Longrightarrow> copy_ok f (copy_run ps s)"
proof (induction ps arbitrary: s)
  case (Cons p ps)
  then show ?case using copy_step_ok[OF Cons.prems, of p] by (auto split: option.split)
qed simp

text \<open>
  In every order of the two processes the copy is a beginning of the file, and they stand still only when
  it is complete and the parent has returned. But then the child still waits: it never ends, because it
  holds a write end of its own pipe.
\<close>

theorem pipe_copy_complete:
  shows "prefix (dst_file (copy_run ps (pipe_copy_start f))) f \<and> \<not> child_done (copy_run ps (pipe_copy_start f))
    \<and> (copy_parent (copy_run ps (pipe_copy_start f)) = None \<and> copy_child (copy_run ps (pipe_copy_start f)) = None
       \<longrightarrow> dst_file (copy_run ps (pipe_copy_start f)) = f \<and> \<not> parent_open (copy_run ps (pipe_copy_start f)))"
proof -
  let ?s = "copy_run ps (pipe_copy_start f)"
  have ok: "copy_ok f ?s" by (rule copy_run_ok) (simp add: copy_ok_def pipe_copy_start_def)
  have "prefix (dst_file ?s) f \<and> \<not> child_done ?s" using ok unfolding copy_ok_def by (metis prefixI)
  moreover have "dst_file ?s = f \<and> \<not> parent_open ?s" if "copy_parent ?s = None" "copy_child ?s = None"
  proof -
    have p: "pipe_data ?s = []" using that(2) ok by (auto simp: copy_child_def copy_ok_def split: if_splits)
    then have "\<not> parent_open ?s"
      using that(1) ok by (auto simp: copy_parent_def Let_def CHUNK_def PIPE_SIZE_def split: if_splits)
    then show ?thesis using ok p by (auto simp: copy_ok_def)
  qed
  ultimately show ?thesis by blast
qed

theorem pipe_copy_complete_witness:
  "prefix (dst_file (copy_run [True, False] (pipe_copy_start ''abc''))) ''abc''"
  using pipe_copy_complete[of "[True, False]" "''abc''"] by blast

subsection \<open>Lines through a named pipe\<close>

record fifo_chat =
  a_in :: string
  a_buf :: "char list"
  a_done :: bool
  fifo :: string
  b_buf :: "char list"
  b_done :: bool
  b_printed :: "string list"

definition fifo_start :: "string \<Rightarrow> fifo_chat" where
  "fifo_start inp = \<lparr>a_in = inp, a_buf = replicate CHUNK NUL, a_done = False, fifo = [], b_buf = replicate CHUNK NUL,
     b_done = False, b_printed = []\<rparr>"

text \<open>
  Both ends are opened for reading and writing, so the reader never sees an end. A turn that must wait
  is \<open>None\<close>.
\<close>

definition fifo_comm_a :: "fifo_chat \<Rightarrow> fifo_chat option result" where
  "fifo_comm_a s =
     (if a_done s then Inr None
      else bindR (fgets (a_buf s) CHUNK (a_in s)) (\<lambda>p.
           bindR (chop_newline (fst p)) (\<lambda>b.
           bindR (cstr b 0) (\<lambda>l.
             if PIPE_SIZE < length (fifo s) + length l then Inr None
             else bindR (strneq b 0 ''exit'') (\<lambda>e.
               Inr (Some (s\<lparr>a_in := snd p, a_buf := b, a_done := e, fifo := fifo s @ l\<rparr>)))))))"

definition fifo_comm_b :: "fifo_chat \<Rightarrow> fifo_chat option result" where
  "fifo_comm_b s =
     (if b_done s \<or> fifo s = [] then Inr None
      else let d = take CHUNK (fifo s); rest = drop CHUNK (fifo s)
           in bindR (blit (b_buf s) 0 d) (\<lambda>b.
              bindR (store b (int (length d)) NUL) (\<lambda>b.
              bindR (strneq b 0 ''exit'') (\<lambda>e.
                if e then Inr (Some (s\<lparr>fifo := rest, b_buf := b, b_done := True\<rparr>))
                else bindR (cstr b 0) (\<lambda>t.
                  Inr (Some (s\<lparr>fifo := rest, b_buf := b, b_printed := b_printed s @ [t]\<rparr>)))))))"

fun fifo_run :: "bool list \<Rightarrow> fifo_chat \<Rightarrow> fifo_chat result" where
  "fifo_run [] s = Inr s"
| "fifo_run (a # as) s =
     bindR (if a then fifo_comm_a s else fifo_comm_b s) (\<lambda>r. fifo_run as (case r of None \<Rightarrow> s | Some s' \<Rightarrow> s'))"

definition fifo_line :: "string \<Rightarrow> bool" where
  "fifo_line l \<longleftrightarrow> LF \<notin> set l \<and> NUL \<notin> set l \<and> l \<noteq> [] \<and> length l + 2 \<le> CHUNK"

lemma fifo_a_line:
  assumes "fifo_line l" "a_in s = l @ LF # rest" "length (a_buf s) = CHUNK" "\<not> a_done s"
    "length (fifo s) \<le> CHUNK"
  shows "\<exists>b. fifo_comm_a s = Inr (Some (s\<lparr>a_in := rest, a_buf := b, a_done := (take 4 l = ''exit''), fifo := fifo s @ l\<rparr>))
    \<and> length b = CHUNK"
proof -
  have l: "LF \<notin> set l" "NUL \<notin> set l" "length l + 2 \<le> CHUNK" "CHUNK \<le> length (a_buf s)"
    using assms(1,3) by (auto simp: fifo_line_def)
  obtain b1 where b1: "fgets (a_buf s) CHUNK (l @ LF # rest) = Inr (b1, rest)" "length b1 = length (a_buf s)" "cstr b1 0 = Inr (l @ [LF])"
    using fgets_line[OF l] by blast
  obtain b2 where b2: "chop_newline b1 = Inr b2" "length b2 = length b1" "cstr b2 0 = Inr l"
    using chop_newline_line[OF b1(3)] by auto
  have "strneq b2 0 ''exit'' = Inr (take 4 l = ''exit'')" using shm_exit_line[OF b2(3)] by (simp add: shm_exit_def)
  moreover have "\<not> PIPE_SIZE < length (fifo s) + length l"
    using assms(1,5) by (simp add: fifo_line_def PIPE_SIZE_def CHUNK_def)
  ultimately show ?thesis using assms b1 b2 by (intro exI[of _ b2]) (simp add: fifo_comm_a_def)
qed

lemma fifo_b_short:
  assumes "fifo s \<noteq> []" "NUL \<notin> set (fifo s)" "length (fifo s) < CHUNK" "length (b_buf s) = CHUNK" "\<not> b_done s"
  shows "\<exists>b. fifo_comm_b s = Inr (Some
      (if take 4 (fifo s) = ''exit'' then s\<lparr>fifo := [], b_buf := b, b_done := True\<rparr>
       else s\<lparr>fifo := [], b_buf := b, b_printed := b_printed s @ [fifo s]\<rparr>)) \<and> length b = CHUNK"
proof -
  obtain b1 b2 where b: "blit (b_buf s) 0 (fifo s) = Inr b1" "store b1 (int (length (fifo s))) NUL = Inr b2"
      "length b2 = length (b_buf s)" "cstr b2 0 = Inr (fifo s)"
    using recv_terminate[of "fifo s" "b_buf s"] assms by auto
  have "strneq b2 0 ''exit'' = Inr (take 4 (fifo s) = ''exit'')" using shm_exit_line[OF b(4)] by (simp add: shm_exit_def)
  then show ?thesis using assms b by (auto simp: fifo_comm_b_def Let_def)
qed

text \<open>When the reader takes its turn after every line, the lines arrive one by one, and \<open>exit\<close> ends both.\<close>

theorem fifo_lines_arrive:
  assumes "\<forall>l \<in> set ls. fifo_line l \<and> take 4 l \<noteq> ''exit''" "fifo_line q" "take 4 q = ''exit''"
  shows "\<exists>s. fifo_run (concat (replicate (Suc (length ls)) [True, False])) (fifo_start (typed (ls @ [q]))) = Inr s
    \<and> b_printed s = ls \<and> a_done s \<and> b_done s"
proof -
  have "\<exists>s'. fifo_run (concat (replicate (Suc (length ls)) [True, False])) s = Inr s'
      \<and> b_printed s' = b_printed s @ ls \<and> a_done s' \<and> b_done s'"
    if "a_in s = typed (ls @ [q])" "length (a_buf s) = CHUNK" "length (b_buf s) = CHUNK" "fifo s = []" "\<not> a_done s" "\<not> b_done s" for s
    using assms(1) that
  proof (induction ls arbitrary: s)
    case Nil
    obtain b where b: "fifo_comm_a s = Inr (Some (s\<lparr>a_in := [], a_buf := b, a_done := True, fifo := q\<rparr>))"
      using fifo_a_line[OF assms(2), of s "[]"] Nil assms(3) by (auto simp: typed_def fifo_line_def)
    show ?case
      using b fifo_b_short[of "s\<lparr>a_in := [], a_buf := b, a_done := True, fifo := q\<rparr>"] Nil assms(2,3)
      by (auto simp: fifo_line_def)
  next
    case (Cons l ls)
    have l: "fifo_line l" "take 4 l \<noteq> ''exit''" using Cons.prems(1) by auto
    obtain b where b: "fifo_comm_a s = Inr (Some (s\<lparr>a_in := typed (ls @ [q]), a_buf := b, a_done := False, fifo := l\<rparr>))"
        "length b = CHUNK"
      using fifo_a_line[OF l(1), of s "typed (ls @ [q])"] Cons.prems l by (auto simp: typed_def)
    let ?s = "s\<lparr>a_in := typed (ls @ [q]), a_buf := b, a_done := False, fifo := l\<rparr>"
    obtain b' where b': "fifo_comm_b ?s = Inr (Some (?s\<lparr>fifo := [], b_buf := b', b_printed := b_printed s @ [l]\<rparr>))"
        "length b' = CHUNK"
      using fifo_b_short[of ?s] Cons.prems l by (auto simp: fifo_line_def)
    have "fifo_run (True # False # ps) s = fifo_run ps (?s\<lparr>fifo := [], b_buf := b', b_printed := b_printed s @ [l]\<rparr>)" for ps
      using b b' by (simp cong: option.case_cong)
    then show ?case
      using Cons.IH[of "?s\<lparr>fifo := [], b_buf := b', b_printed := b_printed s @ [l]\<rparr>"] Cons.prems b(2) b'(2)
      by (simp del: fifo_run.simps)
  qed
  from this[of "fifo_start (typed (ls @ [q]))"] show ?thesis by (simp add: fifo_start_def)
qed

theorem fifo_lines_arrive_witness:
  "\<exists>s. fifo_run (concat (replicate 2 [True, False])) (fifo_start (typed ([''hi''] @ [''exit'']))) = Inr s \<and> b_printed s = [''hi'']"
proof -
  have "fifo_line ''hi''" "fifo_line ''exit''" by (simp_all add: fifo_line_def CHUNK_def)
  then show ?thesis using fifo_lines_arrive[of "[''hi'']" "''exit''"] by (auto simp: numeral_2_eq_2)
qed

text \<open>
  The pipe keeps no boundaries: two lines that are written before the reader's turn come as one. Then an
  \<open>exit\<close> is not recognised and the reader waits for ever; and from 32 bytes on the reader writes its NUL
  behind its array.
\<close>

theorem fifo_lines_merge:
  assumes "fifo_line l" "fifo_line m" "take 4 l \<noteq> ''exit''" "take 4 (l @ m) \<noteq> ''exit''"
  shows "\<exists>r. fifo_run [True, True, False] (fifo_start (typed [l, m])) = r
    \<and> (CHUNK \<le> length (l @ m) \<longrightarrow> r = Inl (Bad_Store (int CHUNK)))
    \<and> (length (l @ m) < CHUNK \<longrightarrow> (\<exists>s. r = Inr s \<and> b_printed s = [l @ m] \<and> fifo s = []
         \<and> a_done s = (take 4 m = ''exit'') \<and> \<not> b_done s \<and> fifo_comm_b s = Inr None))"
proof -
  let ?i = "fifo_start (typed [l, m])"
  obtain b where b: "fifo_comm_a ?i = Inr (Some (?i\<lparr>a_in := m @ [LF], a_buf := b, a_done := False, fifo := l\<rparr>))" "length b = CHUNK"
    using fifo_a_line[OF assms(1), of ?i "m @ [LF]"] assms by (auto simp: fifo_start_def typed_def)
  let ?j = "?i\<lparr>a_in := m @ [LF], a_buf := b, a_done := False, fifo := l\<rparr>"
  obtain b' where b': "fifo_comm_a ?j = Inr (Some (?j\<lparr>a_in := [], a_buf := b', a_done := (take 4 m = ''exit''), fifo := l @ m\<rparr>))"
    using fifo_a_line[OF assms(2), of ?j "[]"] assms b(2) by (auto simp: fifo_line_def CHUNK_def PIPE_SIZE_def)
  let ?k = "?j\<lparr>a_in := [], a_buf := b', a_done := (take 4 m = ''exit''), fifo := l @ m\<rparr>"
  have run: "fifo_run [True, True, False] ?i = bindR (fifo_comm_b ?k) (\<lambda>r. Inr (case r of None \<Rightarrow> ?k | Some s \<Rightarrow> s))"
    using b b' by (simp cong: option.case_cong)
  show ?thesis
  proof (cases "length (l @ m) < CHUNK")
    case True
    then obtain c where "fifo_comm_b ?k = Inr (Some (?k\<lparr>fifo := [], b_buf := c, b_printed := [l @ m]\<rparr>))"
      using fifo_b_short[of ?k] assms by (auto simp: fifo_start_def fifo_line_def)
    then show ?thesis using True run by (auto simp: fifo_start_def fifo_comm_b_def)
  next
    case False
    have "fifo_comm_b ?k = Inl (Bad_Store (int CHUNK))"
      using False assms(1) by (simp add: fifo_comm_b_def fifo_start_def fifo_line_def Let_def blit_def store_def)
    then show ?thesis using False run by simp
  qed
qed

theorem fifo_lines_merge_witness:
  "\<exists>s. fifo_run [True, True, False] (fifo_start (typed [''hi'', ''exit''])) = Inr s \<and> b_printed s = [''hiexit''] \<and> \<not> b_done s"
proof -
  have "fifo_line ''hi''" "fifo_line ''exit''" by (simp_all add: fifo_line_def CHUNK_def)
  then show ?thesis using fifo_lines_merge[of "''hi''" "''exit''"] by (auto simp: CHUNK_def eval_nat_numeral)
qed

end
