(* ===== verification/Std_Io.thy ===== *)
theory Std_Io
  imports Echo Sem_Chat
begin

text \<open>
  Sockets behind the standard I/O library: the echo server and client of src/45_socket_standard_io/main.cpp
  over \<open>fgets\<close>, \<open>fputs\<close> and \<open>feof\<close>, and the two servers of src/46_io_stream_separate/main.cpp that split
  one connection into a stream to read and a stream to write.
\<close>

subsection \<open>A stream to read\<close>

text \<open>What the peer has yet to deliver before it closes, and the end-of-file flag of the stream.\<close>

record in_stream =
  str_rest :: string
  str_eof :: bool

text \<open>
  \<open>fgets\<close> sets the flag when it runs into the end: at once, or after a last line without line feed that
  does not fill the array. At once, it leaves the array alone.
\<close>

definition std_fgets :: "char list \<Rightarrow> nat \<Rightarrow> in_stream \<Rightarrow> (char list \<times> in_stream) result" where
  "std_fgets b n f =
     (let k = min (n - 1) (line_length (str_rest f));
          hit = (k = length (str_rest f) \<and> k < n - 1 \<and> (str_rest f = [] \<or> last (str_rest f) \<noteq> LF))
      in bindR (fgets b n (str_rest f)) (\<lambda>p. Inr (fst p, \<lparr>str_rest = snd p, str_eof = (str_eof f \<or> hit)\<rparr>)))"

subsection \<open>The echo server\<close>

lemma line_length_bounds: "inp \<noteq> [] \<Longrightarrow> 0 < line_length inp \<and> line_length inp \<le> length inp"
  using length_takeWhile_le[of "\<lambda>c. c \<noteq> LF" inp]
  by (cases inp) (auto simp: line_length_def Let_def split: if_splits)

lemma std_fgets_shorter:
  assumes "std_fgets b ECHO_BUF f = Inr (b', f')" "\<not> str_eof f"
  shows "str_eof f' \<and> length (str_rest f') \<le> length (str_rest f) \<or> length (str_rest f') < length (str_rest f)"
proof (cases "str_rest f = []")
  case True
  then show ?thesis using assms by (auto simp: std_fgets_def fgets_def Let_def line_length_def ECHO_BUF_def)
next
  case False
  then show ?thesis using assms line_length_bounds[OF False]
    by (auto simp: std_fgets_def fgets_def Let_def bindR_eq_Inr ECHO_BUF_def min_def)
qed

text \<open>One connection: the loop \<open>while (!feof(rfp))\<close>, what it writes and the array it leaves.\<close>

function std_echo_loop :: "char list \<Rightarrow> in_stream \<Rightarrow> (string \<times> char list) result" where
  "std_echo_loop b f =
     (if str_eof f then Inr ([], b)
      else bindR (std_fgets b ECHO_BUF f) (\<lambda>p.
           bindR (cstr (fst p) 0) (\<lambda>t.
           bindR (std_echo_loop (fst p) (snd p)) (\<lambda>q. Inr (t @ fst q, snd q)))))"
  by pat_completeness auto
termination
proof (relation "measure (\<lambda>(b, f). length (str_rest f) + (if str_eof f then 0 else 1))", simp, goal_cases)
  case (1 b f p t)
  then show ?case using std_fgets_shorter[of b f "fst p" "snd p"] by (auto simp: case_prod_unfold)
qed

declare std_echo_loop.simps [simp del]

text \<open>The server: five connections one after the other, the array shared by all.\<close>

fun std_echo_rounds :: "nat \<Rightarrow> char list \<Rightarrow> string list \<Rightarrow> string list result" where
  "std_echo_rounds 0 b cs = Inr []"
| "std_echo_rounds (Suc k) b [] = Inr []"
| "std_echo_rounds (Suc k) b (c # cs) =
     bindR (std_echo_loop b \<lparr>str_rest = c, str_eof = False\<rparr>) (\<lambda>p.
     bindR (std_echo_rounds k (snd p) cs) (\<lambda>os. Inr (fst p # os)))"

definition std_echo_server :: "string list \<Rightarrow> string list result" where
  "std_echo_server cs = std_echo_rounds 5 (replicate ECHO_BUF NUL) cs"

subsection \<open>The client\<close>

text \<open>
  A turn: what was sent and printed. When the server has closed, \<open>fgets\<close> leaves the array alone and the
  client prints its own line; \<open>None\<close>: it waits for the rest of a line.
\<close>

record std_client =
  sc_in :: string
  sc_buf :: "char list"
  sc_replies :: string
  sc_closed :: bool

datatype std_turn = Std_Quits | Std_Turn string string std_client

definition std_client_turn :: "std_client \<Rightarrow> std_turn option result" where
  "std_client_turn c =
     bindR (fgets (sc_buf c) ECHO_BUF (sc_in c)) (\<lambda>p.
       if is_quit (fst p) then Inr (Some Std_Quits)
       else bindR (cstr (fst p) 0) (\<lambda>sent.
         if \<not> sc_closed c \<and> LF \<notin> set (take (ECHO_BUF - 1) (sc_replies c)) \<and> length (sc_replies c) < ECHO_BUF - 1 then Inr None
         else bindR (fgets (fst p) ECHO_BUF (sc_replies c)) (\<lambda>r.
           bindR (cstr (fst r) 0) (\<lambda>t.
             Inr (Some (Std_Turn sent (''msg from server :'' @ t @ [LF])
               (c\<lparr>sc_in := snd p, sc_buf := fst r, sc_replies := snd r\<rparr>)))))))"

fun std_client_run :: "nat \<Rightarrow> std_client \<Rightarrow> string list option result" where
  "std_client_run 0 c = Inr None"
| "std_client_run (Suc n) c =
     bindR (std_client_turn c) (\<lambda>r.
       case r of
         None \<Rightarrow> Inr None
       | Some Std_Quits \<Rightarrow> Inr (Some [])
       | Some (Std_Turn sent t c') \<Rightarrow> bindR (std_client_run n c') (\<lambda>ts. Inr (map_option (\<lambda>ts. t # ts) ts)))"

subsection \<open>What the server echoes\<close>

definition std_line :: "string \<Rightarrow> bool" where
  "std_line l \<longleftrightarrow> LF \<notin> set l \<and> NUL \<notin> set l \<and> length l + 2 \<le> ECHO_BUF"

lemma std_fgets_line:
  assumes "std_line l" "length b = ECHO_BUF"
  shows "\<exists>b'. std_fgets b ECHO_BUF \<lparr>str_rest = l @ LF # rest, str_eof = False\<rparr> = Inr (b', \<lparr>str_rest = rest, str_eof = False\<rparr>)
    \<and> length b' = ECHO_BUF \<and> cstr b' 0 = Inr (l @ [LF])"
proof -
  have l: "LF \<notin> set l" "NUL \<notin> set l" "length l + 2 \<le> ECHO_BUF" "ECHO_BUF \<le> length b" using assms by (auto simp: std_line_def)
  obtain b' where b': "fgets b ECHO_BUF (l @ LF # rest) = Inr (b', rest)" "length b' = length b" "cstr b' 0 = Inr (l @ [LF])"
    using fgets_line[OF l] by blast
  have "\<not> (min (ECHO_BUF - 1) (line_length (l @ LF # rest)) = length (l @ LF # rest) \<and> last (l @ LF # rest) \<noteq> LF)"
    using line_length_line[OF l(1), of rest] by (cases rest) (auto simp: min_def)
  then show ?thesis using b' assms(2) by (intro exI[of _ b']) (auto simp: std_fgets_def Let_def)
qed

lemma std_echo_lines:
  assumes "\<forall>l \<in> set ls. std_line l" "length b = ECHO_BUF" "cstr b 0 = Inr t"
  shows "\<exists>b'. std_echo_loop b \<lparr>str_rest = typed ls, str_eof = False\<rparr> = Inr (typed ls @ last (t # map (\<lambda>l. l @ [LF]) ls), b')
    \<and> length b' = ECHO_BUF \<and> cstr b' 0 = Inr (last (t # map (\<lambda>l. l @ [LF]) ls))"
  using assms
proof (induction ls arbitrary: b t)
  case Nil
  have "std_fgets b ECHO_BUF \<lparr>str_rest = [], str_eof = False\<rparr> = Inr (b, \<lparr>str_rest = [], str_eof = True\<rparr>)"
    by (simp add: std_fgets_def fgets_def line_length_def ECHO_BUF_def)
  then show ?case using Nil by (simp add: typed_def std_echo_loop.simps)
next
  case (Cons l ls)
  have l: "std_line l" using Cons.prems(1) by simp
  have ty: "typed (l # ls) = l @ LF # typed ls" by (simp add: typed_def)
  obtain b1 where b1: "std_fgets b ECHO_BUF \<lparr>str_rest = typed (l # ls), str_eof = False\<rparr> = Inr (b1, \<lparr>str_rest = typed ls, str_eof = False\<rparr>)"
      "length b1 = ECHO_BUF" "cstr b1 0 = Inr (l @ [LF])"
    using std_fgets_line[OF l Cons.prems(2), of "typed ls"] ty by auto
  obtain b' where "std_echo_loop b1 \<lparr>str_rest = typed ls, str_eof = False\<rparr> = Inr (typed ls @ last ((l @ [LF]) # map (\<lambda>l. l @ [LF]) ls), b')"
      "length b' = ECHO_BUF" "cstr b' 0 = Inr (last ((l @ [LF]) # map (\<lambda>l. l @ [LF]) ls))"
    using Cons.IH[OF _ b1(2,3)] Cons.prems(1) by auto
  then show ?case using b1 ty by (subst std_echo_loop.simps) simp
qed

text \<open>What a client is sent: its own lines, and once more the last line the server has read from anybody.\<close>

fun std_echoed :: "string \<Rightarrow> string list list \<Rightarrow> string list" where
  "std_echoed t [] = []"
| "std_echoed t (ls # lss) =
     (let t' = last (t # map (\<lambda>l. l @ [LF]) ls) in (typed ls @ t') # std_echoed t' lss)"

lemma std_echo_rounds_lines:
  assumes "\<forall>ls \<in> set lss. \<forall>l \<in> set ls. std_line l" "length b = ECHO_BUF" "cstr b 0 = Inr t"
  shows "std_echo_rounds k b (map typed lss) = Inr (std_echoed t (take k lss))"
  using assms
proof (induction lss arbitrary: k b t)
  case Nil
  then show ?case by (cases k) simp_all
next
  case (Cons ls lss)
  show ?case
  proof (cases k)
    case (Suc k')
    let ?t = "last (t # map (\<lambda>l. l @ [LF]) ls)"
    obtain b' where "std_echo_loop b \<lparr>str_rest = typed ls, str_eof = False\<rparr> = Inr (typed ls @ ?t, b')"
        "length b' = ECHO_BUF" "cstr b' 0 = Inr ?t"
      using std_echo_lines[OF _ Cons.prems(2,3), of ls] Cons.prems(1) by auto
    moreover from this have "std_echo_rounds k' b' (map typed lss) = Inr (std_echoed ?t (take k' lss))"
      using Cons.IH[of b' ?t k'] Cons.prems(1) by simp
    ultimately show ?thesis using Suc by (simp add: Let_def)
  qed simp
qed

text \<open>
  C27. The loop tests the end of the file before it reads: every client that ends its input with a line feed gets
  its last line twice, and one that sends nothing gets the last line of the client before it.
\<close>

theorem std_echo_repeats:
  assumes "\<forall>ls \<in> set lss. \<forall>l \<in> set ls. std_line l"
  shows "std_echo_server (map typed lss) = Inr (std_echoed [] (take 5 lss))"
  unfolding std_echo_server_def using assms
  by (rule std_echo_rounds_lines) (simp_all add: ECHO_BUF_def cstr_def)

theorem std_echo_repeats_witness:
  "std_echo_server (map typed [[''a'', ''secret''], []]) =
    Inr [''a'' @ [LF] @ ''secret'' @ [LF] @ ''secret'' @ [LF], ''secret'' @ [LF]]"
  using std_echo_repeats[of "[[''a'', ''secret''], []]"] by (simp add: std_line_def ECHO_BUF_def typed_def Let_def)

text \<open>The client does not notice: it prints its lines in order, whatever follows the replies it has read.\<close>

lemma std_client_line:
  assumes "std_line l" "\<not> is_quit (l @ [LF])" "length (sc_buf c) = ECHO_BUF" "sc_in c = l @ LF # rest" "sc_replies c = l @ LF # rs"
  shows "\<exists>b. std_client_turn c = Inr (Some (Std_Turn (l @ [LF]) (''msg from server :'' @ l @ [LF, LF]) (c\<lparr>sc_in := rest, sc_buf := b, sc_replies := rs\<rparr>)))
    \<and> length b = ECHO_BUF"
proof -
  have lo: "line_ok l" using assms(1,2) by (simp add: line_ok_def std_line_def)
  obtain b1 where b1: "fgets (sc_buf c) ECHO_BUF (l @ LF # rest) = Inr (b1, rest)" "length b1 = ECHO_BUF" "cstr b1 0 = Inr (l @ [LF])" "\<not> is_quit b1"
    using line_fgets[OF lo assms(3)] by blast
  obtain b2 where b2: "fgets b1 ECHO_BUF (l @ LF # rs) = Inr (b2, rs)" "length b2 = ECHO_BUF" "cstr b2 0 = Inr (l @ [LF])"
    using line_fgets[OF lo b1(2)] by blast
  have "length l < ECHO_BUF - 1" using assms(1) unfolding std_line_def by linarith
  then have "LF \<in> set (take (ECHO_BUF - 1) (l @ LF # rs))" by (cases "ECHO_BUF - 1 - length l") auto
  then show ?thesis using assms(4,5) b1 b2 by (intro exI[of _ b2]) (simp add: std_client_turn_def)
qed

theorem std_client_prints:
  assumes "\<forall>l \<in> set ls. std_line l \<and> \<not> is_quit (l @ [LF])" "length (sc_buf c) = ECHO_BUF"
    "sc_in c = typed (ls @ [''q''])" "std_echo_server [typed ls] = Inr [sc_replies c]" "length ls < n"
  shows "std_client_run n c = Inr (Some (map (\<lambda>l. ''msg from server :'' @ l @ [LF, LF]) ls))"
proof -
  have "std_echo_server (map typed [ls]) = Inr (std_echoed [] (take 5 [ls]))"
    using assms(1) by (intro std_echo_rounds_lines[of "[ls]" "replicate ECHO_BUF NUL" "[]" 5, folded std_echo_server_def])
      (simp_all add: ECHO_BUF_def cstr_def)
  then have "sc_replies c = typed ls @ last ([] # map (\<lambda>l. l @ [LF]) ls)" using assms(4) by (simp add: Let_def)
  then obtain rs where "sc_replies c = typed ls @ rs" by blast
  with assms(1-3,5) show ?thesis
  proof (induction ls arbitrary: c n)
    case Nil
    obtain b where "fgets (sc_buf c) ECHO_BUF (''q'' @ LF # []) = Inr (b, []) \<and> is_quit b"
      using quit_fgets[of "''q''" "sc_buf c" "[]"] Nil by auto
    then show ?case using Nil by (cases n) (simp_all add: std_client_turn_def typed_def)
  next
    case (Cons l ls)
    obtain m where m: "n = Suc m" "length ls < m" using Cons.prems(4) by (cases n) auto
    obtain b where b: "std_client_turn c = Inr (Some (Std_Turn (l @ [LF]) (''msg from server :'' @ l @ [LF, LF])
          (c\<lparr>sc_in := typed (ls @ [''q'']), sc_buf := b, sc_replies := typed ls @ rs\<rparr>)))" "length b = ECHO_BUF"
      using std_client_line[of l c "typed (ls @ [''q''])" "typed ls @ rs"] Cons.prems by (auto simp: typed_def)
    then show ?case
      using Cons.IH[of "c\<lparr>sc_in := typed (ls @ [''q'']), sc_buf := b, sc_replies := typed ls @ rs\<rparr>" m] Cons.prems m by simp
  qed
qed

subsection \<open>Two streams on one connection\<close>

text \<open>
  The server's end of the connection: its open descriptors, whether its sending side is shut, what it sent,
  and what the client answers after it has seen the end of that. The end reaches the client when the
  sending side is shut or no descriptor is left; what arrives when none is left is gone.
\<close>

record half_conn =
  hc_fds :: "nat list"
  hc_shut :: bool
  hc_sent :: string
  hc_answer :: string

definition hc_ended :: "half_conn \<Rightarrow> bool" where
  "hc_ended c = (hc_shut c \<or> hc_fds c = [])"

definition hc_close :: "nat \<Rightarrow> half_conn \<Rightarrow> half_conn" where
  "hc_close fd c = c\<lparr>hc_fds := remove1 fd (hc_fds c)\<rparr>"

text \<open>
  \<open>fgets\<close> on a descriptor: closed, \<open>read\<close> fails and the array stays; open, it waits (\<open>None\<close>) unless the
  client has had a reason to answer.
\<close>

definition hc_fgets :: "nat \<Rightarrow> char list \<Rightarrow> half_conn \<Rightarrow> char list option result" where
  "hc_fgets fd b c =
     (if fd \<notin> set (hc_fds c) then Inr (Some b)
      else if \<not> hc_ended c then Inr None
      else map_sum id (\<lambda>p. Some (fst p)) (fgets b ECHO_BUF (hc_answer c)))"

definition sep_lines :: string where
  "sep_lines = typed [''hello world!'', ''test'', ''are you ok'']"

definition sep_accept :: "nat \<Rightarrow> string \<Rightarrow> half_conn" where
  "sep_accept fd ans = \<lparr>hc_fds = [fd], hc_shut = False, hc_sent = [], hc_answer = ans\<rparr>"

text \<open>What is printed at the end, and the connection.\<close>

definition sep_print :: "nat \<Rightarrow> half_conn \<Rightarrow> (string \<times> half_conn) option result" where
  "sep_print fd c =
     bindR (hc_fgets fd (replicate ECHO_BUF NUL) c) (\<lambda>r.
       case r of None \<Rightarrow> Inr None | Some b \<Rightarrow> bindR (cstr b 0) (\<lambda>t. Inr (Some (t, hc_close fd c))))"

definition sep_server :: "nat \<Rightarrow> string \<Rightarrow> (string \<times> half_conn) option result" where
  "sep_server fd ans =
     (let c = (sep_accept fd ans)\<lparr>hc_sent := sep_lines\<rparr>;
          c = hc_close fd c
      in sep_print fd c)"

definition sep_server2 :: "nat \<Rightarrow> nat \<Rightarrow> string \<Rightarrow> (string \<times> half_conn) option result" where
  "sep_server2 fd cp ans =
     (let c = sep_accept fd ans;
          c = c\<lparr>hc_fds := hc_fds c @ [cp]\<rparr>;
          c = c\<lparr>hc_sent := sep_lines\<rparr>;
          c = c\<lparr>hc_shut := True\<rparr>;
          c = hc_close fd c
      in sep_print cp c)"

text \<open>The client prints lines until the end, then answers; it never comes to the answer while the end is out.\<close>

fun sep_client_print :: "nat \<Rightarrow> char list \<Rightarrow> string \<Rightarrow> string result" where
  "sep_client_print 0 b s = Inr []"
| "sep_client_print (Suc n) b s =
     (if s = [] then Inr []
      else bindR (fgets b ECHO_BUF s) (\<lambda>p.
           bindR (cstr (fst p) 0) (\<lambda>t.
           bindR (sep_client_print n (fst p) (snd p)) (\<lambda>r. Inr (t @ r)))))"

definition sep_client :: "half_conn \<Rightarrow> (string \<times> string) result" where
  "sep_client c =
     bindR (sep_client_print (length (hc_sent c)) (replicate ECHO_BUF NUL) (hc_sent c)) (\<lambda>t.
       Inr (t, if hc_ended c then typed [''from client ok''] else []))"

text \<open>
  Closing the writing stream closes the only descriptor: the first server ends the connection and never sees
  the answer. The second keeps a duplicate and shuts the sending side: the client sees the end, and its
  answer arrives. Both times the client prints the three lines.
\<close>

lemma sep_client_lines: "sep_client_print (length sep_lines) (replicate ECHO_BUF NUL) sep_lines = Inr sep_lines"
  by code_simp

lemma sep_answer: "std_line a \<Longrightarrow> \<exists>b. fgets (replicate ECHO_BUF NUL) ECHO_BUF (a @ [LF]) = Inr (b, []) \<and> cstr b 0 = Inr (a @ [LF])"
  using fgets_line[of a ECHO_BUF "replicate ECHO_BUF NUL" "[]"] by (auto simp: std_line_def)

theorem sep_half_close:
  assumes "fd \<noteq> cp" "std_line a"
  shows "\<exists>c1 c2. sep_server fd (a @ [LF]) = Inr (Some ([], c1)) \<and> sep_server2 fd cp (a @ [LF]) = Inr (Some (a @ [LF], c2))
    \<and> sep_client c1 = Inr (sep_lines, typed [''from client ok'']) \<and> sep_client c2 = Inr (sep_lines, typed [''from client ok''])
    \<and> hc_fds c1 = [] \<and> hc_fds c2 = []"
proof -
  obtain b where b: "fgets (replicate ECHO_BUF NUL) ECHO_BUF (a @ [LF]) = Inr (b, [])" "cstr b 0 = Inr (a @ [LF])"
    using sep_answer[OF assms(2)] by blast
  have z: "cstr (replicate ECHO_BUF NUL) 0 = Inr []" by (simp add: ECHO_BUF_def cstr_def)
  let ?c1 = "\<lparr>hc_fds = [], hc_shut = False, hc_sent = sep_lines, hc_answer = a @ [LF]\<rparr>"
  let ?c2 = "\<lparr>hc_fds = [], hc_shut = True, hc_sent = sep_lines, hc_answer = a @ [LF]\<rparr>"
  have "sep_server fd (a @ [LF]) = Inr (Some ([], ?c1))"
    using z by (simp add: sep_server_def sep_accept_def hc_close_def sep_print_def hc_fgets_def Let_def)
  moreover have "sep_server2 fd cp (a @ [LF]) = Inr (Some (a @ [LF], ?c2))"
    using b assms(1) by (simp add: sep_server2_def sep_accept_def hc_close_def sep_print_def hc_fgets_def hc_ended_def Let_def)
  moreover have "sep_client ?c1 = Inr (sep_lines, typed [''from client ok''])" "sep_client ?c2 = Inr (sep_lines, typed [''from client ok''])"
    using sep_client_lines by (simp_all add: sep_client_def hc_ended_def)
  ultimately show ?thesis by (intro exI[of _ ?c1] exI[of _ ?c2]) simp
qed

theorem sep_half_close_witness:
  "\<exists>c1 c2. sep_server 4 (''from client ok'' @ [LF]) = Inr (Some ([], c1))
    \<and> sep_server2 4 5 (''from client ok'' @ [LF]) = Inr (Some (''from client ok'' @ [LF], c2))"
proof -
  have "std_line ''from client ok''" by (simp add: std_line_def ECHO_BUF_def)
  then show ?thesis using sep_half_close[of 4 5 "''from client ok''"] by fastforce
qed

end
