(* ===== verification/Store_Msg.thy ===== *)
theory Store_Msg
  imports Pipe_Io
begin

text \<open>
  The echo server that keeps what it is sent (src/41_inter_process_communication/main.cpp): a child for each
  connection echoes and passes every message on through one pipe; a first child takes ten portions from the
  pipe and writes them to a file.
\<close>

definition STORE_BUF :: nat where "STORE_BUF = 256"

subsection \<open>The processes\<close>

text \<open>A connection's child reads, or holds a message that it has echoed and must yet write to the pipe.\<close>

datatype store_child =
    Reads "recv_event list" "string list"
  | Writes string "recv_event list" "string list"
  | Exited "string list"

text \<open>The logger: how often it has read, what it gave to the file, and the file once it is closed.\<close>

record store_server =
  log_reads :: nat
  log_text :: string
  log_saved :: "string option"
  log_pipe :: string
  children :: "store_child list"

definition store_start :: store_server where
  "store_start = \<lparr>log_reads = 0, log_text = [], log_saved = None, log_pipe = [], children = []\<rparr>"

definition log_turn :: "store_server \<Rightarrow> store_server option" where
  "log_turn s =
     (if log_saved s \<noteq> None then None
      else if log_reads s < 10 then
        (if log_pipe s = [] then None
         else Some (s\<lparr>log_reads := log_reads s + 1, log_text := log_text s @ take STORE_BUF (log_pipe s),
                      log_pipe := drop STORE_BUF (log_pipe s)\<rparr>))
      else Some (s\<lparr>log_saved := Some (log_text s)\<rparr>))"

text \<open>
  A turn of a child with the pipe: the new child and pipe, \<open>None\<close> while it waits. Nobody closes the reading
  end, so writing to the pipe waits for room and never fails.
\<close>

fun store_child_turn :: "store_child \<Rightarrow> string \<Rightarrow> (store_child \<times> string) option" where
  "store_child_turn (Reads es out) p =
     (case brecv STORE_BUF es of
        (Blocks, es') \<Rightarrow> None
      | (Got d, es') \<Rightarrow> Some (Writes d es' (out @ [d]), p)
      | (_, es') \<Rightarrow> Some (Exited out, p))"
| "store_child_turn (Writes d es out) p =
     (if PIPE_SIZE < length p + length d then None else Some (Reads es out, p @ d))"
| "store_child_turn (Exited out) p = None"

datatype store_event = New_Client "recv_event list" | Log_Moves | Child_Moves nat

fun store_step :: "store_event \<Rightarrow> store_server \<Rightarrow> store_server option" where
  "store_step (New_Client es) s = Some (s\<lparr>children := children s @ [Reads es []]\<rparr>)"
| "store_step Log_Moves s = log_turn s"
| "store_step (Child_Moves i) s =
     (if i < length (children s) then
        map_option (\<lambda>(c, p). s\<lparr>children := (children s)[i := c], log_pipe := p\<rparr>) (store_child_turn (children s ! i) (log_pipe s))
      else None)"

fun store_run :: "store_event list \<Rightarrow> store_server \<Rightarrow> store_server" where
  "store_run [] s = s"
| "store_run (e # es) s = store_run es (case store_step e s of None \<Rightarrow> s | Some s' \<Rightarrow> s')"

subsection \<open>What the file holds\<close>

text \<open>The messages in the order in which they went into the pipe.\<close>

fun piped :: "store_event list \<Rightarrow> store_server \<Rightarrow> string list" where
  "piped [] s = []"
| "piped (e # es) s =
     (case store_step e s of
        None \<Rightarrow> piped es s
      | Some s' \<Rightarrow> drop (length (log_text s) + length (log_pipe s)) (log_text s' @ log_pipe s') # piped es s')"

definition log_ok :: "store_server \<Rightarrow> bool" where
  "log_ok s \<longleftrightarrow> log_reads s \<le> 10 \<and> length (log_text s) \<le> STORE_BUF * log_reads s
    \<and> (log_saved s \<noteq> None \<longrightarrow> log_saved s = Some (log_text s) \<and> log_reads s = 10) \<and> length (log_pipe s) \<le> PIPE_SIZE"

lemma child_turn_pipe:
  "store_child_turn c p = Some (c', p') \<Longrightarrow> length p \<le> PIPE_SIZE \<Longrightarrow> prefix p p' \<and> length p' \<le> PIPE_SIZE"
  by (cases "(c, p)" rule: store_child_turn.cases) (auto split: prod.splits brecv_ret.splits if_splits)

lemma store_step_log:
  assumes "store_step e s = Some s'" "log_ok s"
  shows "log_ok s' \<and> prefix (log_text s @ log_pipe s) (log_text s' @ log_pipe s')"
proof (cases e)
  case Log_Moves
  then show ?thesis using assms by (auto simp: log_turn_def log_ok_def split: if_splits)
next
  case (Child_Moves i)
  then obtain c p where "store_child_turn (children s ! i) (log_pipe s) = Some (c, p)"
      "s' = s\<lparr>children := (children s)[i := c], log_pipe := p\<rparr>"
    using assms(1) by (auto split: if_splits)
  then show ?thesis using assms(2) child_turn_pipe[of "children s ! i" "log_pipe s" c p] by (auto simp: log_ok_def)
qed (use assms in \<open>auto simp: log_ok_def\<close>)

lemma store_run_log:
  "log_ok s \<Longrightarrow> log_ok (store_run es s)
    \<and> log_text (store_run es s) @ log_pipe (store_run es s) = log_text s @ log_pipe s @ concat (piped es s)"
proof (induction es arbitrary: s)
  case (Cons e es)
  show ?case
  proof (cases "store_step e s")
    case None
    then show ?thesis using Cons by simp
  next
    case (Some s')
    obtain z where z: "log_text s' @ log_pipe s' = (log_text s @ log_pipe s) @ z" "log_ok s'"
      using store_step_log[OF Some Cons.prems] by (auto simp: prefix_def)
    then have "drop (length (log_text s) + length (log_pipe s)) (log_text s' @ log_pipe s') = z" by simp
    then show ?thesis using Cons.IH[OF z(2)] Some z(1) by simp
  qed
qed simp


text \<open>When every message is taken as it comes, the file is the first ten messages.\<close>

lemma store_rounds:
  assumes "m \<noteq> []" "length m \<le> STORE_BUF"
  shows "children t = [Reads (replicate (k + n) (Data m)) o'] \<Longrightarrow> log_pipe t = [] \<Longrightarrow> log_saved t = None \<Longrightarrow> log_reads t + k \<le> 10 \<Longrightarrow>
    store_run (concat (replicate k [Child_Moves 0, Child_Moves 0, Log_Moves]) @ es) t = store_run es
      (t\<lparr>children := [Reads (replicate n (Data m)) (o' @ replicate k m)], log_text := log_text t @ concat (replicate k m),
         log_reads := log_reads t + k\<rparr>)"
proof (induction k arbitrary: t o')
  case 0
  then show ?case by (cases t) simp
next
  case (Suc k)
  let ?t = "t\<lparr>children := [Reads (replicate (k + n) (Data m)) (o' @ [m])], log_text := log_text t @ m, log_reads := log_reads t + 1\<rparr>"
  have "\<not> PIPE_SIZE < length m" using assms(2) by (simp add: PIPE_SIZE_def STORE_BUF_def)
  then have "store_run (Child_Moves 0 # Child_Moves 0 # Log_Moves # es) t = store_run es ?t" for es
    using Suc.prems assms by (cases t) (simp add: log_turn_def STORE_BUF_def cong: option.case_cong)
  then have "store_run (concat (replicate (Suc k) [Child_Moves 0, Child_Moves 0, Log_Moves]) @ es) t
      = store_run (concat (replicate k [Child_Moves 0, Child_Moves 0, Log_Moves]) @ es) ?t"
    by (simp del: store_run.simps)
  then show ?case using Suc.IH[of ?t "o' @ [m]"] Suc.prems by (simp add: replicate_app_Cons_same)
qed

definition ten_turns :: "string \<Rightarrow> store_event list" where
  "ten_turns m = New_Client (replicate 10 (Data m)) # concat (replicate 10 [Child_Moves 0, Child_Moves 0, Log_Moves]) @ [Log_Moves]"

lemma ten_turns_text:
  assumes "m \<noteq> []" "length m \<le> STORE_BUF"
  shows "log_saved (store_run (ten_turns m) store_start) = Some (concat (replicate 10 m))"
proof -
  let ?s = "store_start\<lparr>children := [Reads (replicate (10 + 0) (Data m)) []]\<rparr>"
  have "store_run (ten_turns m) store_start = store_run (concat (replicate 10 [Child_Moves 0, Child_Moves 0, Log_Moves]) @ [Log_Moves]) ?s"
    by (simp add: ten_turns_def store_start_def)
  also have "\<dots> = store_run [Log_Moves] (?s\<lparr>children := [Reads (replicate 0 (Data m)) ([] @ replicate 10 m)],
      log_text := log_text ?s @ concat (replicate 10 m), log_reads := log_reads ?s + 10\<rparr>)"
    by (rule store_rounds[OF assms]) (simp_all add: store_start_def)
  finally show ?thesis by (simp add: store_start_def log_turn_def)
qed

theorem store_ten_messages:
  assumes "m \<noteq> []" "length m \<le> STORE_BUF"
  shows "log_saved (store_run (ten_turns m) store_start) = Some (concat (replicate 10 m))"
  by (rule ten_turns_text[OF assms])

theorem store_ten_messages_witness:
  "log_saved (store_run (ten_turns ''m'') store_start) = Some (replicate 10 (CHR ''m''))"
  using store_ten_messages[of "''m''"] by (simp add: STORE_BUF_def eval_nat_numeral)


subsection \<open>After the tenth portion\<close>

text \<open>Who waits for room in a pipe nobody reads any more waits for ever.\<close>

definition jammed :: "nat \<Rightarrow> string \<Rightarrow> recv_event list \<Rightarrow> string list \<Rightarrow> store_server \<Rightarrow> bool" where
  "jammed i d es out s \<longleftrightarrow> log_saved s \<noteq> None \<and> i < length (children s) \<and> children s ! i = Writes d es out
    \<and> PIPE_SIZE < length (log_pipe s) + length d"

lemma jammed_step: "jammed i d es out s \<Longrightarrow> store_step e s = Some s' \<Longrightarrow> jammed i d es out s'"
proof (cases e)
  case (Child_Moves j)
  assume j: "jammed i d es out s" and st: "store_step e s = Some s'"
  show ?thesis
  proof (cases "j = i")
    case True
    then show ?thesis using j st Child_Moves by (auto simp: jammed_def)
  next
    case False
    have "length (log_pipe s) \<le> length (log_pipe s')"
      using st Child_Moves by (cases "children s ! j") (auto split: if_splits prod.splits brecv_ret.splits)
    moreover have "log_saved s' = log_saved s" "length (children s') = length (children s)" "children s' ! i = children s ! i"
      using st Child_Moves False by (auto split: if_splits)
    ultimately show ?thesis using j by (auto simp: jammed_def)
  qed
qed (auto simp: jammed_def log_turn_def nth_append split: if_splits)

text \<open>
  The logger stops after ten portions but its pipe stays open: once it is full, a child that has a message to
  pass on hangs, and its client, whatever it sends, gets no further echo.
\<close>

theorem store_server_jams:
  assumes "jammed i d rest out s"
  shows "children (store_run es s) ! i = Writes d rest out \<and> log_text (store_run es s) = log_text s"
proof -
  have "jammed i d rest out (store_run es s) \<and> log_text (store_run es s) = log_text s"
    using assms
  proof (induction es arbitrary: s)
    case (Cons e es)
    show ?case
    proof (cases "store_step e s")
      case None
      then show ?thesis using Cons by simp
    next
      case (Some s')
      have "log_text s' = log_text s" using Some Cons.prems by (cases e) (auto simp: log_turn_def jammed_def split: if_splits)
      then show ?thesis using Cons.IH[OF jammed_step[OF Cons.prems Some]] Some by simp
    qed
  qed simp
  then show ?thesis by (simp add: jammed_def)
qed

theorem store_server_jams_witness:
  "children (store_run [Child_Moves 0, Log_Moves, Child_Moves 0]
      \<lparr>log_reads = 10, log_text = [], log_saved = Some [], log_pipe = replicate PIPE_SIZE (CHR ''x''),
       children = [Writes ''m'' [Data ''n''] [''m'']]\<rparr>) ! 0 = Writes ''m'' [Data ''n''] [''m'']"
  by (rule store_server_jams[THEN conjunct1]) (simp add: jammed_def)

text \<open>
  A client that keeps sending 256-byte messages fills the pipe: after the logger has left, 256 of them fit,
  and with the next one the child hangs.
\<close>

theorem store_server_fills:
  assumes "log_saved s \<noteq> None" "log_pipe s = []" "children s = [Reads (replicate 257 (Data m)) out]" "length m = STORE_BUF"
  shows "jammed 0 m [] (out @ replicate 257 m) (store_run (replicate 513 (Child_Moves 0)) s)"
proof -
  have two: "store_run (Child_Moves 0 # Child_Moves 0 # es) t = store_run es
      (t\<lparr>children := [Reads (replicate n (Data m)) (o' @ [m])], log_pipe := log_pipe t @ m\<rparr>)"
    if "children t = [Reads (replicate (Suc n) (Data m)) o']" "length (log_pipe t) + STORE_BUF \<le> PIPE_SIZE" for t n o' es
    using that assms(4) by (auto simp: STORE_BUF_def cong: option.case_cong)
  have same: "t\<lparr>children := [Reads (replicate n (Data m)) o']\<rparr> = t" if "children t = [Reads (replicate n (Data m)) o']" for t n o'
    using that by (cases t) simp
  have fill: "store_run (replicate (2 * k) (Child_Moves 0) @ es) t = store_run es
      (t\<lparr>children := [Reads (replicate n (Data m)) (o' @ replicate k m)], log_pipe := log_pipe t @ concat (replicate k m)\<rparr>)"
    if "children t = [Reads (replicate (k + n) (Data m)) o']" "length (log_pipe t) + k * STORE_BUF \<le> PIPE_SIZE" for k t n o' es
    using that
  proof (induction k arbitrary: t o')
    case (Suc k)
    let ?t = "t\<lparr>children := [Reads (replicate (k + n) (Data m)) (o' @ [m])], log_pipe := log_pipe t @ m\<rparr>"
    have "store_run (replicate (2 * Suc k) (Child_Moves 0) @ es) t = store_run (replicate (2 * k) (Child_Moves 0) @ es) ?t"
      using two[of t "k + n" o' "replicate (2 * k) (Child_Moves 0) @ es"] Suc.prems by (simp del: store_run.simps)
    then show ?case using Suc.IH[of ?t "o' @ [m]"] Suc.prems assms(4) by (simp add: replicate_app_Cons_same)
  qed (simp add: same)
  have "length (concat (replicate 256 m)) = PIPE_SIZE"
    using assms(4) by (simp add: length_concat sum_list_replicate STORE_BUF_def PIPE_SIZE_def)
  moreover have "store_run (replicate (2 * 256) (Child_Moves 0) @ [Child_Moves 0]) s = store_run [Child_Moves 0]
      (s\<lparr>children := [Reads (replicate 1 (Data m)) (out @ replicate 256 m)], log_pipe := log_pipe s @ concat (replicate 256 m)\<rparr>)"
    by (rule fill) (use assms in \<open>simp_all add: PIPE_SIZE_def STORE_BUF_def\<close>)
  moreover have "replicate 513 (Child_Moves 0) = replicate (2 * 256) (Child_Moves 0) @ [Child_Moves 0]"
    "replicate 257 m = replicate 256 m @ [m]"
    using replicate_append_same[of 512 "Child_Moves 0"] replicate_append_same[of 256 m]
    by (simp_all flip: replicate_Suc)
  ultimately show ?thesis using assms by (auto simp: jammed_def STORE_BUF_def)
qed

end
