(* ===== verification/Select_Echo.thy ===== *)
theory Select_Echo
  imports C_Io
begin

text \<open>
  The echo server over \<open>select\<close> (\<open>io_server_test\<close> of src/42_io_reuse/main.cpp): a set of descriptors, the
  greatest of them, and a pass over all numbers up to it after every call of \<open>select\<close>.
\<close>

definition SEL_SETSIZE :: nat where "SEL_SETSIZE = 1024"
definition SEL_BUF :: nat where "SEL_BUF = 256"

subsection \<open>The server\<close>

text \<open>
  A connection is what will be received on it and what was written to it. What \<open>accept\<close> will return: a new
  descriptor with its connection, or -1.
\<close>

type_synonym sel_conn = "recv_event list \<times> string list"

record sel_server =
  sel_reads :: "nat set"
  sel_max :: nat
  sel_conns :: "nat \<Rightarrow> sel_conn option"
  sel_accept :: "(nat \<times> recv_event list) option list"

definition sel_start :: "nat \<Rightarrow> (nat \<times> recv_event list) option list \<Rightarrow> sel_server" where
  "sel_start sock acc = \<lparr>sel_reads = {sock}, sel_max = sock, sel_conns = (\<lambda>_. None), sel_accept = acc\<rparr>"

text \<open>A connection is reported readable when \<open>read\<close> would not wait.\<close>

definition sel_readable :: "sel_conn option \<Rightarrow> bool" where
  "sel_readable c = (case c of None \<Rightarrow> False | Some (es, out) \<Rightarrow> fst (brecv SEL_BUF es) \<noteq> Blocks)"

definition sel_ready :: "nat \<Rightarrow> sel_server \<Rightarrow> nat \<Rightarrow> bool" where
  "sel_ready sock s fd =
     (fd \<in> sel_reads s \<and> fd \<le> sel_max s \<and> (if fd = sock then sel_accept s \<noteq> [] else sel_readable (sel_conns s fd)))"

text \<open>\<open>FD_SET\<close> writes into an array of \<open>SEL_SETSIZE\<close> bits.\<close>

definition sel_new :: "sel_server \<Rightarrow> sel_server result" where
  "sel_new s =
     (case sel_accept s of
        Some (fd, es) # acc \<Rightarrow>
          if SEL_SETSIZE \<le> fd then Inl (Bad_Store (int fd))
          else Inr (s\<lparr>sel_reads := insert fd (sel_reads s), sel_max := (if sel_max s < fd then fd else sel_max s),
                       sel_conns := (sel_conns s)(fd \<mapsto> (es, [])), sel_accept := acc\<rparr>)
      | None # acc \<Rightarrow> Inr (s\<lparr>sel_accept := acc\<rparr>)
      | [] \<Rightarrow> Inr s)"

text \<open>
  One \<open>read\<close>: 0 takes the descriptor out and closes it, bytes are written back; an error counts as data of
  length -1, whose \<open>write\<close> fails.
\<close>

definition sel_serve :: "sel_conn \<Rightarrow> sel_conn option" where
  "sel_serve c =
     (case c of (es, out) \<Rightarrow>
        (case brecv SEL_BUF es of
           (Shut, es') \<Rightarrow> None
         | (Got d, es') \<Rightarrow> Some (es', out @ [d])
         | (_, es') \<Rightarrow> Some (es', out)))"

definition sel_read :: "nat \<Rightarrow> sel_server \<Rightarrow> sel_server" where
  "sel_read fd s =
     (case sel_conns s fd of
        None \<Rightarrow> s
      | Some c \<Rightarrow>
          (case sel_serve c of
             None \<Rightarrow> s\<lparr>sel_reads := sel_reads s - {fd}, sel_conns := (sel_conns s)(fd := None)\<rparr>
           | Some c' \<Rightarrow> s\<lparr>sel_conns := (sel_conns s)(fd \<mapsto> c')\<rparr>))"

text \<open>
  The pass from \<open>i\<close> on. Its bound is the greatest descriptor, which a new connection may raise while it
  runs. Looking at a number that no set has room for is out of bounds.
\<close>

function sel_loop :: "nat \<Rightarrow> (nat \<Rightarrow> bool) \<Rightarrow> nat \<Rightarrow> sel_server \<Rightarrow> sel_server result" where
  "sel_loop sock tmps i s =
     (if sel_max s < i then Inr s
      else if SEL_SETSIZE \<le> i then Inl (Bad_Load (int i))
      else if tmps i then
        (if i = sock then bindR (sel_new s) (sel_loop sock tmps (Suc i)) else sel_loop sock tmps (Suc i) (sel_read i s))
      else sel_loop sock tmps (Suc i) s)"
  by pat_completeness auto
termination
  by (relation "measure (\<lambda>(sock, tmps, i, s). SEL_SETSIZE - i)") auto

declare sel_loop.simps [simp del]

text \<open>A turn: \<open>select\<close> fails and the server ends, it finds nothing in time, or the pass is made.\<close>

definition sel_turn :: "nat \<Rightarrow> bool \<Rightarrow> sel_server \<Rightarrow> sel_server option result" where
  "sel_turn sock fails s =
     (if fails then Inr None
      else if \<forall>fd \<in> sel_reads s. \<not> sel_ready sock s fd then Inr (Some s)
      else map_sum id Some (sel_loop sock (sel_ready sock s) 0 s))"

subsection \<open>A pass serves everybody once\<close>

definition sel_inv :: "nat \<Rightarrow> sel_server \<Rightarrow> bool" where
  "sel_inv sock s =
     (sock \<in> sel_reads s \<and> sel_conns s sock = None \<and> sel_max s < SEL_SETSIZE
      \<and> (\<forall>fd \<in> sel_reads s. fd \<le> sel_max s) \<and> (\<forall>fd. fd \<noteq> sock \<longrightarrow> (fd \<in> sel_reads s \<longleftrightarrow> sel_conns s fd \<noteq> None)))"

lemma sel_start_inv: "sock < SEL_SETSIZE \<Longrightarrow> sel_inv sock (sel_start sock acc)"
  by (simp add: sel_inv_def sel_start_def)

definition sel_fresh :: "sel_server \<Rightarrow> bool" where
  "sel_fresh s = (\<forall>fd es acc. sel_accept s = Some (fd, es) # acc \<longrightarrow> fd \<notin> sel_reads s \<and> fd < SEL_SETSIZE)"

lemma sel_read_inv: "sel_inv sock s \<Longrightarrow> fd \<noteq> sock \<Longrightarrow> sel_inv sock (sel_read fd s)"
  by (auto simp: sel_inv_def sel_read_def split: option.splits)

lemma sel_read_max [simp]: "sel_max (sel_read fd s) = sel_max s" "sel_accept (sel_read fd s) = sel_accept s"
  by (auto simp: sel_read_def split: option.splits)

lemma sel_read_conns: "sel_conns (sel_read fd s) = (sel_conns s)(fd := Option.bind (sel_conns s fd) sel_serve)"
  by (auto simp: sel_read_def split: option.splits)

text \<open>What a pass does to the connection with number \<open>fd\<close>.\<close>

definition sel_served :: "(nat \<Rightarrow> bool) \<Rightarrow> nat \<Rightarrow> sel_conn option \<Rightarrow> sel_conn option" where
  "sel_served tmps fd c = (if tmps fd then Option.bind c sel_serve else c)"

lemma sel_loop_clients:
  assumes "sel_inv sock s" "sock < i \<or> \<not> tmps sock" "\<forall>fd. tmps fd \<longrightarrow> fd \<noteq> sock \<longrightarrow> i \<le> fd \<longrightarrow> fd \<le> sel_max s"
  shows "\<exists>s'. sel_loop sock tmps i s = Inr s' \<and> sel_inv sock s' \<and> sel_accept s' = sel_accept s
    \<and> (\<forall>fd. fd \<noteq> sock \<longrightarrow> sel_conns s' fd = (if i \<le> fd then sel_served tmps fd (sel_conns s fd) else sel_conns s fd))"
  using assms
proof (induction sock tmps i s rule: sel_loop.induct)
  case (1 sock tmps i s)
  show ?case
  proof (cases "sel_max s < i")
    case True
    then have "\<not> tmps fd" if "fd \<noteq> sock" "i \<le> fd" for fd using "1.prems"(3) that by fastforce
    then show ?thesis using "1.prems"(1) True by (subst sel_loop.simps) (auto simp: sel_served_def)
  next
    case False
    then have b: "\<not> SEL_SETSIZE \<le> i" using "1.prems"(1) by (simp add: sel_inv_def)
    show ?thesis
    proof (cases "tmps i")
      case True
      then have n: "i \<noteq> sock" using "1.prems"(2) by auto
      then have "sel_inv sock (sel_read i s)" "sock < Suc i \<or> \<not> tmps sock"
          "\<forall>fd. tmps fd \<longrightarrow> fd \<noteq> sock \<longrightarrow> Suc i \<le> fd \<longrightarrow> fd \<le> sel_max (sel_read i s)"
        using sel_read_inv "1.prems" by auto
      from 1(2)[OF False b True n this] show ?thesis using False b True n
        by (subst sel_loop.simps) (auto simp: sel_read_conns sel_served_def le_eq_less_or_eq)
    next
      case F: False
      then have "sock < Suc i \<or> \<not> tmps sock" "\<forall>fd. tmps fd \<longrightarrow> fd \<noteq> sock \<longrightarrow> Suc i \<le> fd \<longrightarrow> fd \<le> sel_max s"
        using "1.prems"(2,3) by auto
      from 1(3)[OF False b F "1.prems"(1) this] show ?thesis using False b F
        by (subst sel_loop.simps) (auto simp: sel_served_def le_eq_less_or_eq)
    qed
  qed
qed

lemma sel_new_inv:
  assumes "sel_inv sock s" "sel_fresh s" "sel_accept s = a # acc"
  shows "\<exists>s'. sel_new s = Inr s' \<and> sel_inv sock s' \<and> sel_accept s' = acc \<and> sel_max s \<le> sel_max s'
    \<and> (\<forall>fd. sel_conns s' fd = (case a of Some (n, es) \<Rightarrow> if fd = n then Some (es, []) else sel_conns s fd | None \<Rightarrow> sel_conns s fd))"
proof (cases a)
  case None
  then show ?thesis using assms by (auto simp: sel_new_def sel_inv_def)
next
  case (Some p)
  obtain n es where p: "p = (n, es)" by (cases p)
  have n: "n \<notin> sel_reads s" "n < SEL_SETSIZE" using assms(2,3) Some p by (auto simp: sel_fresh_def)
  let ?s = "s\<lparr>sel_reads := insert n (sel_reads s), sel_max := (if sel_max s < n then n else sel_max s),
    sel_conns := (sel_conns s)(n \<mapsto> (es, [])), sel_accept := acc\<rparr>"
  have "n \<noteq> sock" using n(1) assms(1) by (auto simp: sel_inv_def)
  then have "sel_inv sock ?s" using assms(1) n by (auto simp: sel_inv_def intro: order_trans less_imp_le)
  moreover have "sel_new s = Inr ?s" using assms(3) Some p n(2) by (simp add: sel_new_def)
  ultimately show ?thesis using Some p by (intro exI[of _ ?s]) simp
qed

lemma sel_loop_all:
  assumes "sel_inv sock s" "sel_fresh s" "sel_accept s = a # acc" "i \<le> sock" "tmps sock"
    "\<forall>fd. tmps fd \<longrightarrow> fd \<le> sel_max s" "\<forall>n es. a = Some (n, es) \<longrightarrow> \<not> tmps n"
  shows "\<exists>s'. sel_loop sock tmps i s = Inr s' \<and> sel_inv sock s' \<and> sel_accept s' = acc
    \<and> (\<forall>fd. fd \<noteq> sock \<longrightarrow> sel_conns s' fd =
         (case a of
            Some (n, es) \<Rightarrow> if fd = n then Some (es, []) else if i \<le> fd then sel_served tmps fd (sel_conns s fd) else sel_conns s fd
          | None \<Rightarrow> if i \<le> fd then sel_served tmps fd (sel_conns s fd) else sel_conns s fd))"
  using assms
proof (induction sock tmps i s rule: sel_loop.induct)
  case (1 sock tmps i s)
  have m: "\<not> sel_max s < i" "\<not> SEL_SETSIZE \<le> i"
    using "1.prems"(1,4) by (auto simp: sel_inv_def)
  consider (here) "i = sock" | (client) "i \<noteq> sock" "tmps i" | (skip) "i \<noteq> sock" "\<not> tmps i" by blast
  then show ?case
  proof cases
    case here
    obtain s1 where s1: "sel_new s = Inr s1" "sel_inv sock s1" "sel_accept s1 = acc" "sel_max s \<le> sel_max s1"
        "\<forall>fd. sel_conns s1 fd = (case a of Some (n, es) \<Rightarrow> if fd = n then Some (es, []) else sel_conns s fd | None \<Rightarrow> sel_conns s fd)"
      using sel_new_inv[OF "1.prems"(1-3)] by blast
    have "\<forall>fd. tmps fd \<longrightarrow> fd \<noteq> sock \<longrightarrow> Suc sock \<le> fd \<longrightarrow> fd \<le> sel_max s1"
      using "1.prems"(6) s1(4) by fastforce
    then obtain s' where s': "sel_loop sock tmps (Suc sock) s1 = Inr s'" "sel_inv sock s'" "sel_accept s' = acc"
        "\<forall>fd. fd \<noteq> sock \<longrightarrow> sel_conns s' fd = (if Suc sock \<le> fd then sel_served tmps fd (sel_conns s1 fd) else sel_conns s1 fd)"
      using sel_loop_clients[OF s1(2), of "Suc sock" tmps] s1(3) by auto
    then show ?thesis using here m "1.prems"(5,7) s1(1,5)
      by (subst sel_loop.simps) (auto simp: sel_served_def le_eq_less_or_eq split: option.splits)
  next
    case client
    have "sel_inv sock (sel_read i s)" using sel_read_inv[OF "1.prems"(1)] client(1) by simp
    moreover have "sel_fresh (sel_read i s)" using "1.prems"(2) by (auto simp: sel_fresh_def sel_read_def split: option.splits)
    moreover have "Suc i \<le> sock" using client(1) "1.prems"(4) by simp
    ultimately obtain s' where s': "sel_loop sock tmps (Suc i) (sel_read i s) = Inr s'" "sel_inv sock s'" "sel_accept s' = acc"
       "\<forall>fd. fd \<noteq> sock \<longrightarrow> sel_conns s' fd =
         (case a of
            Some (n, es) \<Rightarrow> if fd = n then Some (es, []) else if Suc i \<le> fd then sel_served tmps fd (sel_conns (sel_read i s) fd) else sel_conns (sel_read i s) fd
          | None \<Rightarrow> if Suc i \<le> fd then sel_served tmps fd (sel_conns (sel_read i s) fd) else sel_conns (sel_read i s) fd)"
      using 1(2)[OF m client(2,1)] "1.prems"(3,5,6,7) by auto
    then show ?thesis using client m
      by (subst sel_loop.simps) (auto simp: sel_read_conns sel_served_def le_eq_less_or_eq split: option.splits)
  next
    case skip
    have "Suc i \<le> sock" using skip(1) "1.prems"(4) by simp
    then obtain s' where s': "sel_loop sock tmps (Suc i) s = Inr s'" "sel_inv sock s'" "sel_accept s' = acc"
       "\<forall>fd. fd \<noteq> sock \<longrightarrow> sel_conns s' fd =
         (case a of
            Some (n, es) \<Rightarrow> if fd = n then Some (es, []) else if Suc i \<le> fd then sel_served tmps fd (sel_conns s fd) else sel_conns s fd
          | None \<Rightarrow> if Suc i \<le> fd then sel_served tmps fd (sel_conns s fd) else sel_conns s fd)"
      using 1(3)[OF m skip(2) "1.prems"(1-3)] "1.prems"(5,6,7) by auto
    then show ?thesis using skip m
      by (subst sel_loop.simps) (auto simp: sel_served_def le_eq_less_or_eq split: option.splits)
  qed
qed



text \<open>A descriptor beyond the set's size is stored outside the set.\<close>

theorem select_set_overflow:
  assumes "sel_inv sock s" "sel_accept s = Some (fd, es) # acc" "SEL_SETSIZE \<le> fd"
    "\<forall>c. c \<noteq> sock \<longrightarrow> \<not> sel_readable (sel_conns s c)"
  shows "sel_turn sock False s = Inl (Bad_Store (int fd))"
proof -
  let ?t = "sel_ready sock s"
  have t: "?t c = (c = sock)" for c
    using assms by (auto simp: sel_ready_def sel_inv_def)
  have "i \<le> sock \<Longrightarrow> sel_loop sock ?t i s = Inl (Bad_Store (int fd))" for i
  proof (induction "sock - i" arbitrary: i)
    case 0
    then have "i = sock" by simp
    moreover have "sel_new s = Inl (Bad_Store (int fd))" using assms(2,3) by (simp add: sel_new_def)
    ultimately show ?case using assms(1) t by (subst sel_loop.simps) (auto simp: sel_inv_def)
  next
    case (Suc n)
    then have "sel_loop sock ?t (Suc i) s = Inl (Bad_Store (int fd))" "i \<noteq> sock" by auto
    then show ?case using Suc.prems assms(1) t by (subst sel_loop.simps) (auto simp: sel_inv_def)
  qed
  from this[of 0] show ?thesis using assms(1) t by (auto simp: sel_turn_def sel_inv_def)
qed

theorem select_set_overflow_witness:
  "sel_turn 3 False (sel_start 3 [Some (1024, [])]) = Inl (Bad_Store 1024)"
  using select_set_overflow[OF sel_start_inv, of 3 "[Some (1024, [])]" 1024 "[]" "[]"]
  by (simp add: sel_start_def SEL_SETSIZE_def sel_readable_def)

end
