(* ===== verification/Stu_Db.thy ===== *)
theory Stu_Db
  imports C_Io
begin

text \<open>
  The menu program over a table of students (src/11_sqlite/main.cpp). The database library is a parameter:
  a function that executes a statement, and two that answer a query, row by row or as one array. The prompts
  are left out of the output.
\<close>

subsection \<open>Reading\<close>

text \<open>
  \<open>scanf\<close> with \<open>%d\<close>: white space, a sign, digits; without digits it stores nothing and what follows the sign
  stays in the input. With \<open>%s\<close>: white space, then everything up to white space, however long the array.
\<close>

definition scanf_int :: "string \<Rightarrow> int option \<times> string" where
  "scanf_int s =
     (let t = dropWhile is_space s;
          neg = (t \<noteq> [] \<and> hd t = CHR ''-'');
          u = (if neg \<or> (t \<noteq> [] \<and> hd t = CHR ''+'') then tl t else t);
          ds = takeWhile (\<lambda>c. is_digit c) u;
          v = digits_val 0 ds
      in (if ds = [] then None else Some (to_int32 (if neg then max (- LONG_MAX - 1) (- v) else min LONG_MAX v)),
          drop (length ds) u))"

definition scanf_word :: "char list \<Rightarrow> string \<Rightarrow> (char list \<times> string) result" where
  "scanf_word b s =
     (let t = dropWhile is_space s; w = takeWhile (\<lambda>c. \<not> is_space c) t
      in if w = [] then Inr (b, t) else bindR (blit b 0 (w @ [NUL])) (\<lambda>b'. Inr (b', drop (length w) t)))"

definition getchar :: "string \<Rightarrow> string" where
  "getchar s = tl s"

subsection \<open>The statements\<close>

definition SQL_SIZE :: nat where "SQL_SIZE = 1024"

text \<open>What a program run shows.\<close>

datatype db_out = Db_Error string | Inserted | Deleted | Updated | Queried | Shows string | Exits | Bad_Choice

text \<open>\<open>sqlite3_exec\<close> without callback: the new database and, unless it succeeds, a message.\<close>

type_synonym 'db exec = "'db \<Rightarrow> string \<Rightarrow> 'db \<times> string option"

text \<open>\<open>sprintf\<close> into the array, then \<open>sqlite3_exec\<close>.\<close>

definition run_sql :: "'db exec \<Rightarrow> db_out \<Rightarrow> string \<Rightarrow> 'db \<Rightarrow> ('db \<times> db_out) result" where
  "run_sql exec ok text db =
     bindR (blit (replicate SQL_SIZE NUL) 0 (text @ [NUL])) (\<lambda>sql.
     bindR (cstr sql 0) (\<lambda>s.
       case exec db s of (db', None) \<Rightarrow> Inr (db', ok) | (db', Some m) \<Rightarrow> Inr (db', Db_Error m)))"

abbreviation QUOTE :: char where "QUOTE \<equiv> CHR 0x27"

definition insert_text :: "int \<Rightarrow> string \<Rightarrow> string \<Rightarrow> int \<Rightarrow> string" where
  "insert_text i n s k = ''insert into stu values('' @ dec_int i @ '', '' @ QUOTE # n @ QUOTE # '', '' @ QUOTE # s @ QUOTE # '', '' @ dec_int k @ '')''"

definition delete_text :: "int \<Rightarrow> string" where
  "delete_text i = ''delete from stu where id = '' @ dec_int i"

definition update_text :: "int \<Rightarrow> string \<Rightarrow> string" where
  "update_text i n = ''update stu set name='' @ QUOTE # n @ QUOTE # '' where id = '' @ dec_int i"

definition NAME_SIZE :: nat where "NAME_SIZE = 32"
definition SEX_SIZE :: nat where "SEX_SIZE = 8"

text \<open>An \<open>int\<close> that \<open>scanf\<close> did not set keeps what the stack held (\<open>junk\<close>).\<close>

definition set_or :: "int \<Rightarrow> int option \<Rightarrow> int" where
  "set_or junk v = (case v of None \<Rightarrow> junk | Some x \<Rightarrow> x)"

definition do_insert :: "'db exec \<Rightarrow> int \<times> int \<Rightarrow> 'db \<Rightarrow> string \<Rightarrow> ('db \<times> string \<times> db_out) result" where
  "do_insert exec junk db inp =
     (let (i, inp) = scanf_int inp in
      bindR (scanf_word (replicate NAME_SIZE NUL) inp) (\<lambda>(name, inp).
      bindR (scanf_word (replicate SEX_SIZE NUL) (getchar inp)) (\<lambda>(sex, inp).
      let (k, inp) = scanf_int (getchar inp) in
      bindR (cstr name 0) (\<lambda>n.
      bindR (cstr sex 0) (\<lambda>s.
      bindR (run_sql exec Inserted (insert_text (set_or (fst junk) i) n s (set_or (snd junk) k)) db) (\<lambda>(db', o').
        Inr (db', inp, o')))))))"

definition do_delete :: "'db exec \<Rightarrow> int \<Rightarrow> 'db \<Rightarrow> string \<Rightarrow> ('db \<times> string \<times> db_out) result" where
  "do_delete exec junk db inp =
     (let (i, inp) = scanf_int inp in
      bindR (run_sql exec Deleted (delete_text (set_or junk i)) db) (\<lambda>(db', o'). Inr (db', inp, o')))"

definition do_update :: "'db exec \<Rightarrow> int \<Rightarrow> 'db \<Rightarrow> string \<Rightarrow> ('db \<times> string \<times> db_out) result" where
  "do_update exec junk db inp =
     (let (i, inp) = scanf_int inp in
      bindR (scanf_word (replicate NAME_SIZE NUL) inp) (\<lambda>(name, inp).
      let inp = getchar inp in
      bindR (cstr name 0) (\<lambda>n.
      bindR (run_sql exec Updated (update_text (set_or junk i) n) db) (\<lambda>(db', o'). Inr (db', inp, o')))))"

subsection \<open>The queries\<close>

text \<open>\<open>printf\<close> with \<open>%-8s\<close>; a value that is null in the database is a null pointer.\<close>

definition pad8 :: "string \<Rightarrow> string" where
  "pad8 s = s @ replicate (8 - length s) SP"

definition cell :: "string option \<Rightarrow> string result" where
  "cell v = (case v of None \<Rightarrow> Inl Null_Deref | Some s \<Rightarrow> Inr (pad8 s))"

fun cells :: "string option list \<Rightarrow> string result" where
  "cells [] = Inr []"
| "cells (v # vs) = bindR (cell v) (\<lambda>c. bindR (cells vs) (\<lambda>t. Inr (c @ t)))"

text \<open>
  \<open>sqlite3_exec\<close> with the callback: names and rows as they come, and a message unless it succeeds. The
  callback prints the names when the flag is still 0.
\<close>

type_synonym 'db rows = "'db \<Rightarrow> string \<Rightarrow> string list \<times> string option list list \<times> string option"

definition callback :: "string list \<Rightarrow> string option list \<Rightarrow> bool \<times> string \<Rightarrow> (bool \<times> string) result" where
  "callback names vals p =
     (case p of (flags, out) \<Rightarrow>
        bindR (if flags then Inr [] else bindR (cells (map Some names)) (\<lambda>h. Inr (h @ [LF]))) (\<lambda>h.
        bindR (cells vals) (\<lambda>r. Inr (True, out @ h @ r @ [LF]))))"

fun callbacks :: "string list \<Rightarrow> string option list list \<Rightarrow> bool \<times> string \<Rightarrow> (bool \<times> string) result" where
  "callbacks names [] p = Inr p"
| "callbacks names (v # vs) p = bindR (callback names v p) (callbacks names vs)"

definition select_all :: string where "select_all = ''select * from stu''"

definition do_query :: "'db rows \<Rightarrow> 'db \<Rightarrow> db_out list result" where
  "do_query rows db =
     (case rows db select_all of (names, vs, err) \<Rightarrow>
        bindR (callbacks names vs (False, [])) (\<lambda>p.
          Inr [Shows (snd p), case err of None \<Rightarrow> Queried | Some m \<Rightarrow> Db_Error m]))"

text \<open>\<open>sqlite3_get_table\<close>: one array, its rows and columns, or a message.\<close>

type_synonym 'db table = "'db \<Rightarrow> string \<Rightarrow> string + (string option list \<times> nat \<times> nat)"

fun table_cells :: "string option list \<Rightarrow> nat list \<Rightarrow> string result" where
  "table_cells ret [] = Inr []"
| "table_cells ret (i # is) =
     bindR (if i < length ret then cell (ret ! i) else Inl (Bad_Load (int i))) (\<lambda>c.
     bindR (table_cells ret is) (\<lambda>t. Inr (c @ t)))"

fun table_lines :: "string option list \<Rightarrow> nat \<Rightarrow> nat list \<Rightarrow> string result" where
  "table_lines ret col [] = Inr []"
| "table_lines ret col (i # is) =
     bindR (table_cells ret (map (\<lambda>j. col + i * col + j) [0..<col])) (\<lambda>l.
     bindR (table_lines ret col is) (\<lambda>t. Inr (l @ LF # t)))"

definition do_query2 :: "'db table \<Rightarrow> 'db \<Rightarrow> db_out list result" where
  "do_query2 table db =
     (case table db select_all of
        Inl m \<Rightarrow> Inr [Db_Error m]
      | Inr (ret, row, col) \<Rightarrow>
          bindR (table_cells ret [0..<col]) (\<lambda>h.
          bindR (table_lines ret col [0..<row]) (\<lambda>t. Inr [Queried, Shows (h @ LF # t)])))"

subsection \<open>The menu\<close>

text \<open>The choice is a variable outside the loop: a failed \<open>scanf\<close> leaves the choice before.\<close>

record 'db stu =
  stu_db :: 'db
  stu_in :: string
  stu_n :: int

definition menu_turn :: "'db exec \<Rightarrow> 'db rows \<Rightarrow> 'db table \<Rightarrow> int \<times> int \<Rightarrow> 'db stu \<Rightarrow> ('db stu option \<times> db_out list) result" where
  "menu_turn exec rows table junk s =
     (let (v, inp) = scanf_int (stu_in s); n = set_or (stu_n s) v; s = s\<lparr>stu_in := inp, stu_n := n\<rparr>;
          edit = (\<lambda>r. bindR r (\<lambda>(db, inp, o'). Inr (Some (s\<lparr>stu_db := db, stu_in := inp\<rparr>), [o'])))
      in if n = 1 then edit (do_insert exec junk (stu_db s) inp)
         else if n = 2 then bindR (do_query rows (stu_db s)) (\<lambda>os. Inr (Some s, os))
         else if n = 3 then bindR (do_query2 table (stu_db s)) (\<lambda>os. Inr (Some s, os))
         else if n = 4 then edit (do_delete exec (fst junk) (stu_db s) inp)
         else if n = 5 then edit (do_update exec (fst junk) (stu_db s) inp)
         else if n = 6 then Inr (None, [Exits])
         else Inr (Some s, [Bad_Choice]))"

fun menu_run :: "nat \<Rightarrow> 'db exec \<Rightarrow> 'db rows \<Rightarrow> 'db table \<Rightarrow> int \<times> int \<Rightarrow> 'db stu \<Rightarrow> ('db stu option \<times> db_out list) result" where
  "menu_run 0 exec rows table junk s = Inr (Some s, [])"
| "menu_run (Suc k) exec rows table junk s =
     bindR (menu_turn exec rows table junk s) (\<lambda>(r, os).
       case r of
         None \<Rightarrow> Inr (None, os)
       | Some s' \<Rightarrow> bindR (menu_run k exec rows table junk s') (\<lambda>(r', os'). Inr (r', os @ os')))"

subsection \<open>What is read and executed\<close>

lemma is_space_LF [simp]: "is_space LF" by (simp add: is_space_def)

lemma dec_nat_not_space: "c \<in> set (dec_nat n) \<Longrightarrow> \<not> is_space c"
  using dec_nat_digits[of c n] by (auto simp: is_space_def)

lemma takeWhile_dec_nat: "takeWhile (\<lambda>c. is_digit c) (dec_nat n @ LF # r) = dec_nat n"
  using dec_nat_digits by (subst takeWhile_append2) auto

lemma dec_nat_Cons: "\<exists>c cs. dec_nat n = c # cs \<and> is_digit c"
  using dec_nat_digits[of _ n] dec_nat_not_Nil[of n] by (cases "dec_nat n") auto

lemma scanf_int_dec:
  assumes "int_range i"
  shows "scanf_int (dec_int i @ LF # r) = (Some i, LF # r)"
proof (cases "i < 0")
  case True
  then have d: "dropWhile is_space (dec_int i @ LF # r) = CHR ''-'' # dec_nat (nat (- i)) @ LF # r"
    by (simp add: dec_int_def is_space_def)
  have "max (- LONG_MAX - 1) i = i" using assms by (simp add: int_range_def LONG_MAX_def)
  moreover have "to_int32 i = i" using assms by (simp add: int_range_def to_int32_id)
  ultimately show ?thesis using True
    by (simp add: scanf_int_def d Let_def takeWhile_dec_nat digits_val_dec_nat)
next
  case False
  obtain c cs where c: "dec_nat (nat i) = c # cs" "is_digit c" using dec_nat_Cons by blast
  have sp: "\<not> is_space c" "c \<noteq> CHR ''-''" "c \<noteq> CHR ''+''" using c(2) by (auto simp: is_space_def)
  have d: "dropWhile is_space (dec_int i @ LF # r) = dec_nat (nat i) @ LF # r" using False c(1) sp by (simp add: dec_int_def)
  have "min LONG_MAX i = i" using assms by (simp add: int_range_def LONG_MAX_def)
  moreover have "to_int32 i = i" using assms by (simp add: int_range_def to_int32_id)
  moreover have "takeWhile (\<lambda>c. is_digit c) (c # cs @ LF # r) = c # cs" "digits_val 0 (c # cs) = i"
    using takeWhile_dec_nat[of "nat i" r] digits_val_dec_nat[of "nat i"] c(1) False by simp_all
  ultimately show ?thesis using sp c(1) by (simp only: scanf_int_def d Let_def) simp
qed

text \<open>A word that fits.\<close>

definition word_ok :: "nat \<Rightarrow> string \<Rightarrow> bool" where
  "word_ok n w = (w \<noteq> [] \<and> NUL \<notin> set w \<and> (\<forall>c \<in> set w. \<not> is_space c) \<and> length w < n)"

lemma word_scanned:
  assumes "w \<noteq> []" "\<forall>c \<in> set w. \<not> is_space c"
  shows "dropWhile is_space (w @ LF # r) = w @ LF # r" "takeWhile (\<lambda>c. \<not> is_space c) (w @ LF # r) = w"
proof -
  show "dropWhile is_space (w @ LF # r) = w @ LF # r" using assms by (cases w) auto
  show "takeWhile (\<lambda>c. \<not> is_space c) (w @ LF # r) = w" using assms(2) by (subst takeWhile_append2) auto
qed

lemma scanf_word_ok:
  assumes "word_ok n w"
  shows "\<exists>b. scanf_word (replicate n NUL) (LF # w @ LF # r) = Inr (b, LF # r) \<and> cstr b 0 = Inr w"
    "\<exists>b. scanf_word (replicate n NUL) (w @ LF # r) = Inr (b, LF # r) \<and> cstr b 0 = Inr w"
proof -
  obtain b where b: "blit (replicate n NUL) 0 (w @ [NUL]) = Inr b" using assms by (simp add: blit_def word_ok_def)
  have "cstr b 0 = Inr w" using cstr_blit[OF b] assms by (simp add: word_ok_def)
  moreover have "w \<noteq> []" "\<forall>c \<in> set w. \<not> is_space c" using assms by (auto simp: word_ok_def)
  ultimately show "\<exists>b. scanf_word (replicate n NUL) (LF # w @ LF # r) = Inr (b, LF # r) \<and> cstr b 0 = Inr w"
    "\<exists>b. scanf_word (replicate n NUL) (w @ LF # r) = Inr (b, LF # r) \<and> cstr b 0 = Inr w"
    using b word_scanned[of w r] by (simp_all add: scanf_word_def Let_def)
qed

lemma run_sql_fits:
  assumes "NUL \<notin> set t" "length t < SQL_SIZE"
  shows "run_sql exec ok t db = (case exec db t of (db', None) \<Rightarrow> Inr (db', ok) | (db', Some m) \<Rightarrow> Inr (db', Db_Error m))"
proof -
  obtain b where b: "blit (replicate SQL_SIZE NUL) 0 (t @ [NUL]) = Inr b" using assms(2) by (simp add: blit_def)
  then show ?thesis using cstr_blit[OF b assms(1)] by (simp add: run_sql_def)
qed



text \<open>A name that does not fit is written beyond its array.\<close>

theorem insert_name_overflow:
  assumes "int_range i" "n \<noteq> []" "\<forall>c \<in> set n. \<not> is_space c" "NAME_SIZE \<le> length n"
  shows "do_insert exec junk db (dec_int i @ LF # n @ LF # rest) = Inl (Bad_Store (int NAME_SIZE))
    \<and> do_update exec j db (dec_int i @ LF # n @ LF # rest) = Inl (Bad_Store (int NAME_SIZE))"
proof -
  have "scanf_word (replicate NAME_SIZE NUL) (LF # n @ LF # rest) = Inl (Bad_Store (int NAME_SIZE))"
    using word_scanned[OF assms(2,3)] assms(2,4) by (simp add: scanf_word_def Let_def blit_def)
  then show ?thesis using scanf_int_dec[OF assms(1)] by (simp add: do_insert_def do_update_def)
qed

theorem insert_name_overflow_witness:
  "do_insert (\<lambda>db q. (db, None)) (0, 0) () (dec_int 7 @ LF # replicate 32 (CHR ''x'') @ LF # []) = Inl (Bad_Store (int NAME_SIZE))"
  using insert_name_overflow[of 7 "replicate 32 (CHR ''x'')" "\<lambda>db q. (db, None)" "(0, 0)" "()" "[]" 0]
  by (simp add: int_range_def NAME_SIZE_def is_space_def)

subsection \<open>The two queries\<close>

text \<open>
  What the library documents: the array holds the names and then the rows, one after the other, each with a
  value for every name; with no rows it is empty.
\<close>

definition answers_alike :: "'db rows \<Rightarrow> 'db table \<Rightarrow> 'db \<Rightarrow> bool" where
  "answers_alike rows table db =
     (case rows db select_all of (names, vs, err) \<Rightarrow>
        (\<forall>v \<in> set vs. length v = length names)
        \<and> table db select_all =
           (case err of
              Some m \<Rightarrow> Inl m
            | None \<Rightarrow> Inr (if vs = [] then ([], 0, 0) else (map Some names @ concat vs, length vs, length names))))"

lemma cells_ok: "None \<notin> set vs \<Longrightarrow> cells vs = Inr (concat (map (\<lambda>v. pad8 (the v)) vs))"
proof (induction vs)
  case (Cons v vs)
  then show ?case by (cases v) (auto simp: cell_def)
qed simp

lemma callbacks_ok:
  assumes "\<forall>v \<in> set vs. None \<notin> set v"
  shows "callbacks names vs (True, out) = Inr (True, out @ concat (map (\<lambda>v. concat (map (\<lambda>x. pad8 (the x)) v) @ [LF]) vs))"
  using assms by (induction vs arbitrary: out) (simp_all add: callback_def cells_ok)

lemma table_cells_segment:
  "ret = a @ v @ b \<Longrightarrow> None \<notin> set v \<Longrightarrow>
    table_cells ret (map (\<lambda>j. length a + j) [0..<length v]) = Inr (concat (map (\<lambda>x. pad8 (the x)) v))"
proof (induction v arbitrary: a)
  case (Cons x v)
  have "map (\<lambda>j. length a + j) [0..<length (x # v)] = length a # map (\<lambda>j. length (a @ [x]) + j) [0..<length v]"
    by (subst length_Cons, subst upt_conv_Cons) (simp_all add: map_Suc_upt[symmetric] del: upt_Suc)
  moreover have "ret ! length a = x" "length a < length ret" using Cons.prems(1) by simp_all
  moreover obtain y where "x = Some y" using Cons.prems(2) by (cases x) auto
  ultimately show ?case using Cons.IH[of "a @ [x]"] Cons.prems by (simp add: cell_def)
qed simp

lemma table_lines_rows:
  assumes "\<forall>v \<in> set vs. length v = col \<and> None \<notin> set v"
  shows "ret = h @ concat ws @ concat vs \<Longrightarrow> length h = col \<Longrightarrow> \<forall>w \<in> set ws. length w = col \<Longrightarrow>
    table_lines ret col [length ws..<length ws + length vs] = Inr (concat (map (\<lambda>v. concat (map (\<lambda>x. pad8 (the x)) v) @ [LF]) vs))"
  using assms
proof (induction vs arbitrary: ws)
  case (Cons v vs)
  have l: "length (concat ws) = length ws * col" using Cons.prems(3) by (induction ws) auto
  have "table_cells ret (map (\<lambda>j. length (h @ concat ws) + j) [0..<length v]) = Inr (concat (map (\<lambda>x. pad8 (the x)) v))"
    using Cons.prems by (intro table_cells_segment[of _ _ v "concat vs"]) auto
  then have "table_cells ret (map (\<lambda>j. col + length ws * col + j) [0..<col]) = Inr (concat (map (\<lambda>x. pad8 (the x)) v))"
    using Cons.prems l by simp
  moreover have "table_lines ret col [length (ws @ [v])..<length (ws @ [v]) + length vs] = Inr (concat (map (\<lambda>v. concat (map (\<lambda>x. pad8 (the x)) v) @ [LF]) vs))"
    using Cons.prems by (intro Cons.IH) auto
  ultimately show ?case by (simp add: upt_conv_Cons del: upt_Suc)
qed simp

text \<open>
  C24. When the library answers alike and no value is null, the two queries show the same table; except when it
  is empty, where one shows nothing and the other an empty line.
\<close>

theorem queries_agree:
  assumes "answers_alike rows table db" "rows db select_all = (names, vs, None)" "\<forall>v \<in> set vs. None \<notin> set v"
  shows "\<exists>t. do_query rows db = Inr [Shows t, Queried]
    \<and> do_query2 table db = Inr [Queried, Shows (if vs = [] then [LF] else t)] \<and> (vs = [] \<longrightarrow> t = [])"
proof (cases vs)
  case Nil
  then show ?thesis using assms by (simp add: answers_alike_def do_query_def do_query2_def)
next
  case (Cons v ws)
  have t: "table db select_all = Inr (map Some names @ concat vs, length vs, length names)"
    and len: "\<forall>v \<in> set vs. length v = length names" using assms(1,2) Cons by (auto simp: answers_alike_def)
  have hd: "cells (map Some names) = Inr (concat (map pad8 names))" using cells_ok[of "map Some names"] by (auto simp: comp_def)
  have "table_cells (map Some names @ concat vs) (map (\<lambda>j. length ([] :: string option list) + j) [0..<length (map Some names)])
      = Inr (concat (map (\<lambda>x. pad8 (the x)) (map Some names)))"
    by (rule table_cells_segment[of _ "[]" "map Some names" "concat vs"]) auto
  then have h: "table_cells (map Some names @ concat vs) [0..<length names] = Inr (concat (map pad8 names))" by (simp add: comp_def)
  have l: "table_lines (map Some names @ concat vs) (length names) [0..<length vs] =
      Inr (concat (map (\<lambda>v. concat (map (\<lambda>x. pad8 (the x)) v) @ [LF]) vs))"
    using table_lines_rows[of vs "length names" "map Some names @ concat vs" "map Some names" "[]"] len assms(3) by simp
  have "callbacks names vs (False, []) = Inr (True, concat (map pad8 names) @ LF # concat (map (\<lambda>v. concat (map (\<lambda>x. pad8 (the x)) v) @ [LF]) vs))"
    using Cons assms(3) hd callbacks_ok[of ws names] by (simp add: callback_def cells_ok)
  then show ?thesis using assms(2) t h l Cons by (simp add: do_query_def do_query2_def)
qed

theorem queries_agree_witness:
  "\<exists>t. do_query (\<lambda>db q. ([''id''], [[Some ''1''], [Some ''2'']], None)) () = Inr [Shows t, Queried]
    \<and> do_query2 (\<lambda>db q. Inr ([Some ''id'', Some ''1'', Some ''2''], 2, 1)) () = Inr [Queried, Shows t]"
  using queries_agree[of "\<lambda>db q. ([''id''], [[Some ''1''], [Some ''2'']], None)" "\<lambda>db q. Inr ([Some ''id'', Some ''1'', Some ''2''], 2, 1)" "()"
    "[''id'']" "[[Some ''1''], [Some ''2'']]"]
  by (simp add: answers_alike_def)

subsection \<open>Input that is not a number\<close>

text \<open>
  The menu never skips what it cannot read: a letter, or the end of the input, and it asks for ever, with the
  choice before. After an insertion that means one insertion after the other.
\<close>

lemma scanf_int_stuck: "(\<forall>c cs. inp = c # cs \<longrightarrow> \<not> is_space c \<and> \<not> is_digit c \<and> c \<noteq> CHR ''-'' \<and> c \<noteq> CHR ''+'') \<Longrightarrow> scanf_int inp = (None, inp)"
  by (cases inp) (auto simp: scanf_int_def Let_def)

theorem menu_asks_for_ever:
  assumes "\<forall>c cs. stu_in s = c # cs \<longrightarrow> \<not> is_space c \<and> \<not> is_digit c \<and> c \<noteq> CHR ''-'' \<and> c \<noteq> CHR ''+''"
    "stu_n s < 1 \<or> 6 < stu_n s"
  shows "menu_run k exec rows table junk s = Inr (Some s, replicate k Bad_Choice)"
proof (induction k)
  case (Suc k)
  have "menu_turn exec rows table junk s = Inr (Some s, [Bad_Choice])"
    using scanf_int_stuck[OF assms(1)] assms(2) by (auto simp: menu_turn_def set_or_def Let_def)
  then show ?case using Suc by simp
qed simp

theorem menu_asks_for_ever_witness:
  "menu_run 3 (\<lambda>db q. (db, None)) (\<lambda>db q. ([], [], None)) (\<lambda>db q. Inl []) (0, 0) \<lparr>stu_db = (), stu_in = ''quit'', stu_n = 0\<rparr> =
    Inr (Some \<lparr>stu_db = (), stu_in = ''quit'', stu_n = 0\<rparr>, replicate 3 Bad_Choice)"
  by (rule menu_asks_for_ever) (simp_all add: is_space_def)

theorem menu_inserts_for_ever:
  assumes "stu_in s = []" "stu_n s = 1" "int_range (fst junk)" "int_range (snd junk)" "\<forall>d q. snd (exec d q) = None"
  shows "menu_run k exec rows table junk s =
    Inr (Some (s\<lparr>stu_db := ((\<lambda>d. fst (exec d (insert_text (fst junk) [] [] (snd junk)))) ^^ k) (stu_db s)\<rparr>), replicate k Inserted)"
  using assms(1,2)
proof (induction k arbitrary: s)
  case (Suc k)
  let ?t = "insert_text (fst junk) [] [] (snd junk)"
  have z: "cstr (replicate n NUL) 0 = Inr []" if "0 < n" for n using that by (cases n) (simp_all add: cstr_def)
  have "NUL \<notin> set ?t" using dec_int_no_nul by (auto simp: insert_text_def)
  moreover have "length ?t < SQL_SIZE"
    using dec_int_length[OF assms(3)] dec_int_length[OF assms(4)] by (simp add: insert_text_def SQL_SIZE_def)
  ultimately have "run_sql exec Inserted ?t (stu_db s) = Inr (fst (exec (stu_db s) ?t), Inserted)"
    using assms(5) by (simp add: run_sql_fits split: prod.split option.split) (metis snd_conv option.distinct(1))
  then have "menu_turn exec rows table junk s = Inr (Some (s\<lparr>stu_db := fst (exec (stu_db s) ?t)\<rparr>), [Inserted])"
    using Suc.prems z scanf_int_stuck[of "[]"]
    by (simp add: menu_turn_def do_insert_def scanf_word_def getchar_def set_or_def NAME_SIZE_def SEX_SIZE_def Let_def)
  then show ?case using Suc.IH[of "s\<lparr>stu_db := fst (exec (stu_db s) ?t)\<rparr>"] Suc.prems
    funpow_swap1[of "\<lambda>d. fst (exec d ?t)" k "stu_db s"] by simp
qed (cases s, simp)

theorem menu_inserts_for_ever_witness:
  "menu_run 2 (\<lambda>db q. (db + 1, None)) (\<lambda>db q. ([], [], None)) (\<lambda>db q. Inl []) (5, 6) \<lparr>stu_db = 0 :: nat, stu_in = [], stu_n = 1\<rparr> =
    Inr (Some \<lparr>stu_db = 2, stu_in = [], stu_n = 1\<rparr>, [Inserted, Inserted])"
  using menu_inserts_for_ever[of "\<lparr>stu_db = 0 :: nat, stu_in = [], stu_n = 1\<rparr>" "(5, 6)" "\<lambda>db q. (db + 1, None)" 2]
  by (simp add: int_range_def eval_nat_numeral)

end
