(* ===== verification/Vector_Io.thy ===== *)
theory Vector_Io
  imports Pipe_Io
begin

text \<open>
  Sending without copying (src/76_advanced_io/main.cpp): a file as an HTTP response with one \<open>writev\<close>, a
  file with \<open>sendfile\<close>, and the echo and the duplication through pipes with \<open>splice\<close> and \<open>tee\<close>.
\<close>

subsection \<open>A file as a response\<close>

definition HEAD_SIZE :: nat where "HEAD_SIZE = 1024"

text \<open>
  \<open>stat\<close>, and what \<open>open\<close> and \<open>read\<close> of the file give, \<open>None\<close> when one of them fails. \<open>file_buf\<close> is a pointer
  that is only set when the file is to be sent.
\<close>

type_synonym stat_of = "string \<Rightarrow> file_stat option"
type_synonym read_of = "string \<Rightarrow> string option"

definition head_append :: "char list \<Rightarrow> nat \<Rightarrow> string \<Rightarrow> (char list \<times> nat) result" where
  "head_append b len t = bindR (vsnprintf b len (HEAD_SIZE - len) t) (\<lambda>(b', ret). Inr (b', len + ret))"

definition file_valid :: "file_stat option \<Rightarrow> bool" where
  "file_valid st = (case st of None \<Rightarrow> False | Some f \<Rightarrow> \<not> S_ISDIR (st_mode f) \<and> st_mode f AND S_IROTH \<noteq> 0)"

text \<open>The array for the contents: as large as the file was, and zero where \<open>read\<close> stored nothing.\<close>

definition file_contents :: "nat \<Rightarrow> string option \<Rightarrow> string" where
  "file_contents n d = (let t = (case d of None \<Rightarrow> [] | Some s \<Rightarrow> take n s) in t @ replicate (n - length t) NUL)"

text \<open>What goes to the client, and whether \<open>delete[]\<close> gets a pointer that was set.\<close>

definition writev_response :: "file_stat \<Rightarrow> string option \<Rightarrow> string result" where
  "writev_response st d =
     (let n = nat (st_size st) in
      bindR (head_append (replicate HEAD_SIZE NUL) 0 (''HTTP/1.1'' @ SP # ''200 OK'' @ CRLF)) (\<lambda>(b, len).
      bindR (head_append b len (''Content-Length: '' @ dec_int (to_int32 (st_size st)) @ CRLF)) (\<lambda>(b, len).
      bindR (head_append b len CRLF) (\<lambda>(b, len).
      bindR (cstr b 0) (\<lambda>h. Inr (h @ file_contents n d))))))"

definition error_head :: "string result" where
  "error_head =
     bindR (head_append (replicate HEAD_SIZE NUL) 0 (''HTTP/1.1'' @ SP # ''500 Internal Server Error'' @ CRLF)) (\<lambda>(b, len).
     bindR (head_append b len CRLF) (\<lambda>(b, len). cstr b 0))"

definition delete_buf :: "bool \<Rightarrow> unit result" where
  "delete_buf was_set = (if was_set then Inr () else Inl Wild_Free)"

definition readv_writev_test :: "stat_of \<Rightarrow> read_of \<Rightarrow> string \<Rightarrow> (string \<times> unit result) result" where
  "readv_writev_test stat rd name =
     (let st = stat name in
      bindR (if file_valid st then writev_response (the st) (rd name) else error_head) (\<lambda>sent.
        Inr (sent, delete_buf (file_valid st))))"

text \<open>\<open>sendfile\<close> sends what there is, up to the size \<open>stat\<close> gave; nothing when the file cannot be opened.\<close>

definition sendfile_test :: "file_stat \<Rightarrow> string option \<Rightarrow> string" where
  "sendfile_test st d = (case d of None \<Rightarrow> [] | Some s \<Rightarrow> take (nat (st_size st)) s)"

subsection \<open>Through pipes\<close>

text \<open>One \<open>splice\<close> moves at most what is there, what is asked for and what the pipe holds.\<close>

definition SPLICE_LEN :: nat where "SPLICE_LEN = 655535"

definition splice_in :: "string \<Rightarrow> string \<Rightarrow> string \<times> string" where
  "splice_in src p = (let k = min SPLICE_LEN (PIPE_SIZE - length p) in (drop k src, p @ take k src))"

definition splice_out :: "string \<Rightarrow> string \<Rightarrow> string \<times> string" where
  "splice_out p dst = (drop SPLICE_LEN p, dst @ take SPLICE_LEN p)"

definition tee_pipe :: "string \<Rightarrow> string \<Rightarrow> string" where
  "tee_pipe p q = q @ take (min SPLICE_LEN (PIPE_SIZE - length q)) p"

text \<open>What is echoed, of what has arrived; and what file and standard output get, of the standard input.\<close>

definition splice_test :: "string \<Rightarrow> string" where
  "splice_test arrived = snd (splice_out (snd (splice_in arrived [])) [])"

definition tee_test :: "string \<Rightarrow> string \<times> string" where
  "tee_test inp =
     (let p = snd (splice_in inp []); q = tee_pipe p []
      in (snd (splice_out q []), snd (splice_out p [])))"

subsection \<open>What is sent\<close>

lemma head_append_ok:
  assumes "cstr b 0 = Inr h" "length b = HEAD_SIZE" "NUL \<notin> set t" "length h + length t < HEAD_SIZE"
  shows "\<exists>b'. head_append b (length h) t = Inr (b', length h + length t) \<and> length b' = HEAD_SIZE \<and> cstr b' 0 = Inr (h @ t)"
proof -
  obtain b' where b': "strcat b t = Inr b'" "length b' = length b" "cstr b' 0 = Inr (h @ t)"
    using strcat_ok[OF assms(1,3)] assms(2,4) by auto
  have "blit b (length h) (t @ [NUL]) = Inr b'" using b'(1) assms(1) by (simp add: strcat_def)
  moreover have "take (HEAD_SIZE - length h - 1) t = t" "HEAD_SIZE - length h \<noteq> 0" using assms(4) by simp_all
  ultimately show ?thesis using b' assms(2) by (simp add: head_append_def vsnprintf_def)
qed

lemma zero_head: "cstr (replicate HEAD_SIZE NUL) 0 = Inr []" "length (replicate HEAD_SIZE NUL) = HEAD_SIZE"
  by (simp_all add: HEAD_SIZE_def cstr_def)

definition ok_head :: "int \<Rightarrow> string" where
  "ok_head n = ''HTTP/1.1'' @ SP # ''200 OK'' @ CRLF @ ''Content-Length: '' @ dec_int n @ CRLF @ CRLF"

lemma writev_response_sends:
  assumes "int_range (to_int32 (st_size st))"
  shows "writev_response st d = Inr (ok_head (to_int32 (st_size st)) @ file_contents (nat (st_size st)) d)"
proof -
  let ?n = "dec_int (to_int32 (st_size st))"
  let ?a = "''HTTP/1.1'' @ SP # ''200 OK'' @ CRLF" and ?b = "''Content-Length: '' @ ?n @ CRLF"
  have n: "length ?n \<le> 11" "NUL \<notin> set ?n" using dec_int_length[OF assms] dec_int_no_nul by auto
  obtain b1 where b1: "head_append (replicate HEAD_SIZE NUL) 0 ?a = Inr (b1, length ?a)" "length b1 = HEAD_SIZE" "cstr b1 0 = Inr ?a"
    using head_append_ok[OF zero_head, of ?a] by (auto simp: HEAD_SIZE_def)
  obtain b2 where b2: "head_append b1 (length ?a) ?b = Inr (b2, length (?a @ ?b))" "length b2 = HEAD_SIZE" "cstr b2 0 = Inr (?a @ ?b)"
    using head_append_ok[OF b1(3,2), of ?b] n by (auto simp: HEAD_SIZE_def)
  obtain b3 where b3: "head_append b2 (length (?a @ ?b)) CRLF = Inr (b3, length (?a @ ?b) + length CRLF)" "cstr b3 0 = Inr ((?a @ ?b) @ CRLF)"
    using head_append_ok[OF b2(3,2), of CRLF] n(1) by (auto simp: HEAD_SIZE_def)
  show ?thesis
    unfolding writev_response_def Let_def b1(1) bindR_Inr prod.case b2(1) b3(1) b3(2) ok_head_def by simp
qed

lemma int_range_to_int32: "int_range (to_int32 x)"
  using to_int32_range[of x] by (simp add: int_range_def)

lemma error_head_eq: "error_head = Inr (''HTTP/1.1'' @ SP # ''500 Internal Server Error'' @ CRLF @ CRLF)"
  by code_simp

text \<open>
  A readable file of less than 2 GiB that is read whole is sent as it is, behind a head with its length; and
  what \<open>sendfile\<close> sends of it is the same body. If the file cannot be opened or read after all, a body of
  zeros is sent under the same head.
\<close>

theorem writev_sends_file:
  assumes "stat name = Some st" "file_valid (Some st)" "st_size st = int (length d)" "int_range (st_size st)"
  shows "(rd name = Some d \<longrightarrow> readv_writev_test stat rd name = Inr (ok_head (int (length d)) @ sendfile_test st (Some d), Inr ()) \<and> sendfile_test st (Some d) = d)
    \<and> (rd name = None \<longrightarrow> readv_writev_test stat rd name = Inr (ok_head (int (length d)) @ replicate (length d) NUL, Inr ()))"
proof -
  have "to_int32 (st_size st) = int (length d)" using assms(3,4) by (simp add: int_range_def to_int32_id)
  then show ?thesis using assms int_range_to_int32 writev_response_sends[of st]
    by (auto simp: readv_writev_test_def delete_buf_def sendfile_test_def file_contents_def Let_def)
qed

theorem writev_sends_file_witness:
  "readv_writev_test (\<lambda>_. Some \<lparr>st_mode = 0x81A4, st_size = 2\<rparr>) (\<lambda>_. Some ''hi'') ''f'' = Inr (ok_head 2 @ ''hi'', Inr ())"
  using writev_sends_file[of "\<lambda>_. Some \<lparr>st_mode = 0x81A4, st_size = 2\<rparr>" "''f''" "\<lparr>st_mode = 0x81A4, st_size = 2\<rparr>" "''hi''" "\<lambda>_. Some ''hi''"]
  by (simp add: file_valid_def S_ISDIR_def S_IFMT_def S_IFDIR_def S_IROTH_def int_range_def)

text \<open>
  Otherwise the client gets the 500 head, and the program frees a pointer that was never set. From 2 GiB on the
  length in the head is not the file's.
\<close>

theorem writev_errors:
  "(\<not> file_valid (stat name) \<longrightarrow> readv_writev_test stat rd name =
       Inr (''HTTP/1.1'' @ SP # ''500 Internal Server Error'' @ CRLF @ CRLF, Inl Wild_Free))
   \<and> (\<forall>st. stat name = Some st \<and> file_valid (Some st) \<and> \<not> int_range (st_size st) \<longrightarrow>
       (\<exists>n b. readv_writev_test stat rd name = Inr (ok_head n @ b, Inr ()) \<and> n \<noteq> st_size st))"
proof (intro conjI allI impI)
  assume "\<not> file_valid (stat name)"
  then show "readv_writev_test stat rd name = Inr (''HTTP/1.1'' @ SP # ''500 Internal Server Error'' @ CRLF @ CRLF, Inl Wild_Free)"
    by (simp add: readv_writev_test_def delete_buf_def error_head_eq Let_def)
next
  fix st
  assume st: "stat name = Some st \<and> file_valid (Some st) \<and> \<not> int_range (st_size st)"
  have "readv_writev_test stat rd name = Inr (ok_head (to_int32 (st_size st)) @ file_contents (nat (st_size st)) (rd name), Inr ())"
    using st writev_response_sends[OF int_range_to_int32] by (simp add: readv_writev_test_def delete_buf_def Let_def)
  moreover have "to_int32 (st_size st) \<noteq> st_size st" using st int_range_to_int32[of "st_size st"] by metis
  ultimately show "\<exists>n b. readv_writev_test stat rd name = Inr (ok_head n @ b, Inr ()) \<and> n \<noteq> st_size st" by blast
qed

theorem writev_errors_witness:
  "readv_writev_test (\<lambda>_. None) (\<lambda>_. None) ''f'' = Inr (''HTTP/1.1'' @ SP # ''500 Internal Server Error'' @ CRLF @ CRLF, Inl Wild_Free)"
  using writev_errors[of "\<lambda>_. None" "''f''" "\<lambda>_. None"] by (simp add: file_valid_def)

text \<open>The echo, and both copies of the standard input, are the first 65536 bytes: what one pipe holds.\<close>

theorem splice_and_tee:
  "splice_test arrived = take PIPE_SIZE arrived \<and> tee_test inp = (take PIPE_SIZE inp, take PIPE_SIZE inp)"
  by (simp add: splice_test_def tee_test_def splice_in_def splice_out_def tee_pipe_def SPLICE_LEN_def PIPE_SIZE_def Let_def min_def)

end
