(* ===== verification/Thread_Demos.thy ===== *)
theory Thread_Demos
  imports Sem_Chat
begin

text \<open>
  The demonstrations of threads in src/04_thread/main.cpp: two variables that should be equal, without a lock
  (\<open>data_test\<close>), with one (\<open>lock_test\<close>), with a thread that is cancelled while it holds it
  (\<open>deadlock_test_04\<close>) and with a clean-up handler (\<open>clean_test\<close>); a line passed under two semaphores
  (\<open>sem_test\<close>); and lines announced through a condition variable (\<open>cond_test\<close>).
\<close>

subsection \<open>Two variables and a lock\<close>

text \<open>
  The bodies of the loops, statement by statement. \<open>Sleep\<close> is where a cancelled thread ends; \<open>Push\<close> and
  \<open>Pop\<close> register and drop the handler that unlocks. \<open>If_Differ\<close> and \<open>If_Equal\<close> are the two tests that print.
\<close>

datatype stmt = Lock | Unlock | Set1 | Set2 | Incr | If_Differ | If_Equal | Sleep | Push | Pop

definition thread8 :: "stmt list" where "thread8 = [Set1, Set2, Incr]"
definition thread9 :: "stmt list" where "thread9 = [If_Differ]"
definition thread10 :: "stmt list" where "thread10 = [Lock, Set1, Set2, Incr, Unlock]"
definition thread11 :: "stmt list" where "thread11 = [Lock, If_Differ, Unlock]"
definition thread12 :: "stmt list" where "thread12 = [Lock, Set1, Set2, Incr, Sleep, Unlock]"
definition thread13 :: "stmt list" where "thread13 = [Sleep, Lock, If_Differ, Unlock]"
definition thread14 :: "stmt list" where "thread14 = [Lock, Push, Set1, Set2, Incr, Sleep, Pop, Unlock]"
definition thread15 :: "stmt list" where "thread15 = [Sleep, Lock, If_Equal, Unlock]"

record two_vars =
  g_int1 :: int
  g_int2 :: int
  g_cnt :: int
  holder :: "bool option"
  at1 :: nat
  at2 :: nat
  handlers :: nat
  cancelled :: bool
  dead :: bool
  shown :: "(int \<times> int) list"

definition vars_start :: two_vars where
  "vars_start = \<lparr>g_int1 = 0, g_int2 = 0, g_cnt = 0, holder = None, at1 = 0, at2 = 0, handlers = 0,
     cancelled = False, dead = False, shown = []\<rparr>"

text \<open>
  One statement of thread \<open>t\<close> (\<open>True\<close>: the first); \<open>None\<close> while it waits for the lock. The first thread may
  be cancelled: it then ends at its next \<open>Sleep\<close>, running its handlers.
\<close>

fun stmt_step :: "bool \<Rightarrow> stmt \<Rightarrow> two_vars \<Rightarrow> two_vars option result" where
  "stmt_step t Lock s = Inr (if holder s = None then Some (s\<lparr>holder := Some t\<rparr>) else None)"
| "stmt_step t Unlock s = Inr (Some (s\<lparr>holder := None\<rparr>))"
| "stmt_step t Set1 s = Inr (Some (s\<lparr>g_int1 := g_cnt s\<rparr>))"
| "stmt_step t Set2 s = Inr (Some (s\<lparr>g_int2 := g_cnt s\<rparr>))"
| "stmt_step t Incr s = (if g_cnt s = INT_MAX then Inl (Int_Overflow (g_cnt s)) else Inr (Some (s\<lparr>g_cnt := g_cnt s + 1\<rparr>)))"
| "stmt_step t If_Differ s = Inr (Some (if g_int1 s \<noteq> g_int2 s then s\<lparr>shown := shown s @ [(g_int1 s, g_int2 s)]\<rparr> else s))"
| "stmt_step t If_Equal s = Inr (Some (if g_int1 s = g_int2 s then s\<lparr>shown := shown s @ [(g_int1 s, g_int2 s)]\<rparr> else s))"
| "stmt_step t Sleep s = Inr (Some (if t \<and> cancelled s
      then s\<lparr>dead := True, holder := (if 0 < handlers s then None else holder s), handlers := 0\<rparr> else s))"
| "stmt_step t Push s = Inr (Some (s\<lparr>handlers := handlers s + 1\<rparr>))"
| "stmt_step t Pop s = Inr (Some (s\<lparr>handlers := handlers s - 1\<rparr>))"

definition next_at :: "stmt list \<Rightarrow> nat \<Rightarrow> nat" where
  "next_at p k = (if Suc k < length p then Suc k else 0)"

datatype who = First | Second | Cancel

fun vars_step :: "stmt list \<Rightarrow> stmt list \<Rightarrow> who \<Rightarrow> two_vars \<Rightarrow> two_vars option result" where
  "vars_step p q First s =
     (if dead s then Inr None
      else map_sum id (map_option (\<lambda>s'. s'\<lparr>at1 := next_at p (at1 s)\<rparr>)) (stmt_step True (p ! at1 s) s))"
| "vars_step p q Second s = map_sum id (map_option (\<lambda>s'. s'\<lparr>at2 := next_at q (at2 s)\<rparr>)) (stmt_step False (q ! at2 s) s)"
| "vars_step p q Cancel s = Inr (Some (s\<lparr>cancelled := True\<rparr>))"

fun vars_run :: "stmt list \<Rightarrow> stmt list \<Rightarrow> who list \<Rightarrow> two_vars \<Rightarrow> two_vars result" where
  "vars_run p q [] s = Inr s"
| "vars_run p q (w # ws) s = bindR (vars_step p q w s) (\<lambda>r. vars_run p q ws (case r of None \<Rightarrow> s | Some s' \<Rightarrow> s'))"

definition data_test :: "who list \<Rightarrow> two_vars result" where "data_test ws = vars_run thread8 thread9 ws vars_start"
definition lock_test :: "who list \<Rightarrow> two_vars result" where "lock_test ws = vars_run thread10 thread11 ws vars_start"
definition deadlock_test_04 :: "who list \<Rightarrow> two_vars result" where "deadlock_test_04 ws = vars_run thread12 thread13 ws vars_start"
definition clean_test :: "who list \<Rightarrow> two_vars result" where "clean_test ws = vars_run thread14 thread15 ws vars_start"

text \<open>Without the lock the second thread can see the two variables differ.\<close>

theorem data_test_differs: "\<exists>ws s. data_test ws = Inr s \<and> shown s = [(1, 0)]"
proof -
  have "case data_test [First, First, First, First, Second] of Inr s \<Rightarrow> shown s = [(1, 0)] | Inl f \<Rightarrow> False" by code_simp
  then show ?thesis by (intro exI[of _ "[First, First, First, First, Second]"]) (simp only: split: sum.splits, blast)
qed

definition lock_inv :: "two_vars \<Rightarrow> bool" where
  "lock_inv s = (at1 s < 5 \<and> at2 s < 3 \<and> shown s = [] \<and> \<not> dead s
     \<and> (holder s = Some True \<longleftrightarrow> 0 < at1 s) \<and> (holder s = Some False \<longleftrightarrow> 0 < at2 s)
     \<and> (at1 s = 2 \<longrightarrow> g_int1 s = g_cnt s) \<and> (at1 s \<noteq> 2 \<longrightarrow> g_int1 s = g_int2 s))"

lemma less5: "n < 5 \<longleftrightarrow> n = 0 \<or> n = 1 \<or> n = 2 \<or> n = 3 \<or> n = (4::nat)" by auto
lemma less3: "n < 3 \<longleftrightarrow> n = 0 \<or> n = 1 \<or> n = (2::nat)" by auto

lemma lock_step_inv:
  assumes "lock_inv s"
  shows "case vars_step thread10 thread11 w s of Inl f \<Rightarrow> f = Int_Overflow INT_MAX | Inr None \<Rightarrow> True | Inr (Some s') \<Rightarrow> lock_inv s'"
proof (cases w)
  case First
  have "at1 s = 0 \<or> at1 s = 1 \<or> at1 s = 2 \<or> at1 s = 3 \<or> at1 s = 4" using assms less5 by (simp add: lock_inv_def)
  then show ?thesis using assms First by (elim disjE) (auto simp: lock_inv_def thread10_def next_at_def)
next
  case Second
  have "at2 s = 0 \<or> at2 s = 1 \<or> at2 s = 2" using assms less3 by (simp add: lock_inv_def)
  then show ?thesis using assms Second by (elim disjE) (auto simp: lock_inv_def thread11_def next_at_def)
next
  case Cancel
  then show ?thesis using assms by (simp add: lock_inv_def)
qed

text \<open>With the lock it never does, in any order of the threads, until the counter overflows.\<close>

theorem lock_test_agrees:
  "case lock_test ws of Inl f \<Rightarrow> f = Int_Overflow INT_MAX | Inr s \<Rightarrow> shown s = []"
proof -
  have "lock_inv s \<Longrightarrow> case vars_run thread10 thread11 ws s of Inl f \<Rightarrow> f = Int_Overflow INT_MAX | Inr s \<Rightarrow> lock_inv s" for s
  proof (induction ws arbitrary: s)
    case (Cons w ws)
    then show ?case using lock_step_inv[OF Cons.prems, of w]
      by (cases "vars_step thread10 thread11 w s") (auto split: option.splits)
  qed simp
  from this[of vars_start] have "case lock_test ws of Inl f \<Rightarrow> f = Int_Overflow INT_MAX | Inr s \<Rightarrow> lock_inv s"
    by (simp add: lock_test_def lock_inv_def vars_start_def)
  then show ?thesis by (auto simp: lock_inv_def split: sum.splits)
qed

text \<open>The first thread ended with the lock: nobody gets it any more.\<close>

definition lock_lost :: "two_vars \<Rightarrow> bool" where
  "lock_lost s = (dead s \<and> holder s = Some True \<and> at2 s < 2)"

lemma lock_lost_step: "lock_lost s \<Longrightarrow> vars_step thread12 thread13 w s = Inr r \<Longrightarrow> r = Some s' \<Longrightarrow> lock_lost s' \<and> shown s' = shown s"
  by (cases w; cases "at2 s = 0") (auto simp: lock_lost_def thread13_def next_at_def less_2_cases_iff)

lemma lock_lost_ok: "lock_lost s \<Longrightarrow> \<exists>r. vars_step thread12 thread13 w s = Inr r"
  by (cases w; cases "at2 s = 0") (auto simp: lock_lost_def thread13_def less_2_cases_iff)

text \<open>
  \<open>deadlock_test_04\<close>: cancelled in its sleep the first thread takes the lock with it, and the second waits for
  ever, whatever happens.
\<close>

theorem cancelled_holder_deadlocks:
  "\<exists>s. deadlock_test_04 ([First, First, First, First, Cancel, First] @ ws) = Inr s
     \<and> dead s \<and> holder s = Some True \<and> shown s = []"
proof -
  have app: "vars_run p q (xs @ ys) a = bindR (vars_run p q xs a) (vars_run p q ys)" for p q xs ys a
    by (induction xs arbitrary: a) (simp_all add: bindR_def split: sum.splits)
  have "lock_lost s \<Longrightarrow> \<exists>s'. vars_run thread12 thread13 ws s = Inr s' \<and> lock_lost s' \<and> shown s' = shown s" for s
  proof (induction ws arbitrary: s)
    case (Cons w ws)
    obtain r where r: "vars_step thread12 thread13 w s = Inr r" using lock_lost_ok[OF Cons.prems] by blast
    then have "lock_lost (case r of None \<Rightarrow> s | Some s' \<Rightarrow> s') \<and> shown (case r of None \<Rightarrow> s | Some s' \<Rightarrow> s') = shown s"
      using lock_lost_step[OF Cons.prems r] Cons.prems by (auto split: option.split)
    then show ?case using Cons.IH r by fastforce
  qed simp
  note keeps = this
  have "case vars_run thread12 thread13 [First, First, First, First, Cancel, First] vars_start of
      Inr s \<Rightarrow> lock_lost s \<and> shown s = [] | Inl f \<Rightarrow> False" by code_simp
  then obtain s0 where s0: "vars_run thread12 thread13 [First, First, First, First, Cancel, First] vars_start = Inr s0"
      "lock_lost s0" "shown s0 = []"
    by (simp only: split: sum.splits)
  obtain s' where "vars_run thread12 thread13 ws s0 = Inr s'" "lock_lost s'" "shown s' = []"
    using keeps[OF s0(2)] s0(3) by auto
  then show ?thesis using s0(1) by (simp only: deadlock_test_04_def app bindR_Inr lock_lost_def) blast
qed

text \<open>
  \<open>clean_test\<close>: the handler unlocks, so the lock is free when the thread has ended, and the second thread
  goes on; the handler is registered exactly while the lock is held with something to sleep over.
\<close>

definition clean_inv :: "two_vars \<Rightarrow> bool" where
  "clean_inv s = (at1 s < 8 \<and> at2 s < 4
     \<and> (holder s = Some False \<longleftrightarrow> 1 < at2 s)
     \<and> (if dead s then holder s \<noteq> Some True
        else (holder s = Some True \<longleftrightarrow> 0 < at1 s) \<and> handlers s = (if 1 < at1 s \<and> at1 s < 7 then 1 else 0)))"

lemma less8: "n < 8 \<longleftrightarrow> n = 0 \<or> n = 1 \<or> n = 2 \<or> n = 3 \<or> n = 4 \<or> n = 5 \<or> n = 6 \<or> n = (7::nat)" by auto
lemma less4: "n < 4 \<longleftrightarrow> n = 0 \<or> n = 1 \<or> n = 2 \<or> n = (3::nat)" by auto

lemma clean_step_inv:
  assumes "clean_inv s"
  shows "case vars_step thread14 thread15 w s of Inl f \<Rightarrow> f = Int_Overflow INT_MAX | Inr None \<Rightarrow> True | Inr (Some s') \<Rightarrow> clean_inv s'"
proof (cases w)
  case First
  have "at1 s = 0 \<or> at1 s = 1 \<or> at1 s = 2 \<or> at1 s = 3 \<or> at1 s = 4 \<or> at1 s = 5 \<or> at1 s = 6 \<or> at1 s = 7"
    using assms less8 by (simp add: clean_inv_def)
  then show ?thesis using assms First by (elim disjE) (auto simp: clean_inv_def thread14_def next_at_def)
next
  case Second
  have "at2 s = 0 \<or> at2 s = 1 \<or> at2 s = 2 \<or> at2 s = 3" using assms less4 by (simp add: clean_inv_def)
  then show ?thesis using assms Second by (elim disjE) (auto simp: clean_inv_def thread15_def next_at_def)
next
  case Cancel
  then show ?thesis using assms by (simp add: clean_inv_def)
qed

theorem clean_test_unlocks:
  assumes "clean_test ws = Inr s" "dead s"
  shows "holder s \<noteq> Some True \<and> (\<exists>r. vars_step thread14 thread15 Second s = Inr (Some r))"
proof -
  have "clean_inv s0 \<Longrightarrow> vars_run thread14 thread15 ws s0 = Inr s \<Longrightarrow> clean_inv s" for s0
  proof (induction ws arbitrary: s0)
    case (Cons w ws)
    then show ?case using clean_step_inv[OF Cons.prems(1), of w]
      by (cases "vars_step thread14 thread15 w s0") (auto split: option.splits)
  qed simp
  from this[of vars_start] have inv: "clean_inv s"
    using assms(1) by (simp add: clean_test_def clean_inv_def vars_start_def)
  then have "holder s \<noteq> Some True" using assms(2) by (simp add: clean_inv_def)
  moreover from inv have "at2 s = 0 \<or> at2 s = 1 \<or> at2 s = 2 \<or> at2 s = 3" using less4 by (simp add: clean_inv_def)
  moreover have "holder s = None \<or> holder s = Some False" using \<open>holder s \<noteq> Some True\<close> by (cases "holder s") auto
  ultimately show ?thesis using inv assms(2)
    by (elim disjE) (auto simp: thread15_def clean_inv_def)
qed

theorem clean_test_unlocks_witness:
  "holder (case clean_test [First, First, First, First, First, Cancel, First] of Inr s \<Rightarrow> s) \<noteq> Some True"
proof -
  have "case clean_test [First, First, First, First, First, Cancel, First] of Inr s \<Rightarrow> dead s | Inl f \<Rightarrow> False" by code_simp
  then obtain s where s: "clean_test [First, First, First, First, First, Cancel, First] = Inr s" "dead s"
    by (simp only: split: sum.splits)
  then show ?thesis using clean_test_unlocks[OF s] by simp
qed

subsection \<open>A line under two semaphores\<close>

definition LINE32 :: nat where "LINE32 = 32"

datatype turn_pc = T_Wait | T_Work | T_Post

text \<open>The terminal waits while nothing is typed.\<close>

record sem_demo =
  sd_sem1 :: nat
  sd_sem2 :: nat
  sd_buf :: "char list"
  sd_in :: string
  sd_16 :: turn_pc
  sd_17 :: turn_pc
  sd_printed :: "string list"

definition sem_demo_start :: "string \<Rightarrow> sem_demo" where
  "sem_demo_start inp = \<lparr>sd_sem1 = 0, sd_sem2 = 1, sd_buf = replicate LINE32 NUL, sd_in = inp, sd_16 = T_Wait, sd_17 = T_Wait, sd_printed = []\<rparr>"

definition thread16 :: "sem_demo \<Rightarrow> sem_demo option result" where
  "thread16 s =
     (case sd_16 s of
        T_Wait \<Rightarrow> Inr (if sd_sem2 s = 0 then None else Some (s\<lparr>sd_sem2 := sd_sem2 s - 1, sd_16 := T_Work\<rparr>))
      | T_Work \<Rightarrow>
          if sd_in s = [] then Inr None
          else bindR (fgets (sd_buf s) LINE32 (sd_in s)) (\<lambda>p.
               bindR (chop_newline (fst p)) (\<lambda>b. Inr (Some (s\<lparr>sd_buf := b, sd_in := snd p, sd_16 := T_Post\<rparr>))))
      | T_Post \<Rightarrow> Inr (Some (s\<lparr>sd_sem1 := sd_sem1 s + 1, sd_16 := T_Wait\<rparr>)))"

definition thread17 :: "sem_demo \<Rightarrow> sem_demo option result" where
  "thread17 s =
     (case sd_17 s of
        T_Wait \<Rightarrow> Inr (if sd_sem1 s = 0 then None else Some (s\<lparr>sd_sem1 := sd_sem1 s - 1, sd_17 := T_Work\<rparr>))
      | T_Work \<Rightarrow> bindR (cstr (sd_buf s) 0) (\<lambda>t. Inr (Some (s\<lparr>sd_printed := sd_printed s @ [t], sd_17 := T_Post\<rparr>)))
      | T_Post \<Rightarrow> Inr (Some (s\<lparr>sd_sem2 := sd_sem2 s + 1, sd_17 := T_Wait\<rparr>)))"

fun sem_demo_run :: "bool list \<Rightarrow> sem_demo \<Rightarrow> sem_demo result" where
  "sem_demo_run [] s = Inr s"
| "sem_demo_run (w # ws) s =
     bindR (if w then thread16 s else thread17 s) (\<lambda>r. sem_demo_run ws (case r of None \<Rightarrow> s | Some s' \<Rightarrow> s'))"

text \<open>The one token is with a semaphore or a thread; \<open>n\<close> lines are read, all but the one in passing printed.\<close>

definition sem_demo_inv :: "string list \<Rightarrow> sem_demo \<Rightarrow> bool" where
  "sem_demo_inv ls s = (\<exists>n \<le> length ls. sd_in s = typed (drop n ls) \<and> length (sd_buf s) = LINE32
     \<and> (0 < n \<longrightarrow> cstr (sd_buf s) 0 = Inr (ls ! (n - 1)))
     \<and> ((sd_sem2 s, sd_sem1 s, sd_16 s, sd_17 s) \<in> {(1, 0, T_Wait, T_Wait), (0, 0, T_Work, T_Wait), (0, 0, T_Wait, T_Post)}
          \<and> sd_printed s = take n ls
        \<or> (sd_sem2 s, sd_sem1 s, sd_16 s, sd_17 s) \<in> {(0, 0, T_Post, T_Wait), (0, 1, T_Wait, T_Wait), (0, 0, T_Wait, T_Work)}
          \<and> 0 < n \<and> sd_printed s = take (n - 1) ls))"

definition line32 :: "string \<Rightarrow> bool" where
  "line32 l = (LF \<notin> set l \<and> NUL \<notin> set l \<and> length l + 2 \<le> LINE32)"

lemma take_line32:
  assumes "line32 l" "length b = LINE32"
  obtains b1 b2 where "fgets b LINE32 (l @ LF # rest) = Inr (b1, rest)" "chop_newline b1 = Inr b2"
    "length b2 = LINE32" "cstr b2 0 = Inr l"
proof -
  have l: "LF \<notin> set l" "NUL \<notin> set l" "length l + 2 \<le> LINE32" "LINE32 \<le> length b"
    using assms by (auto simp: line32_def)
  obtain b1 where b1: "fgets b LINE32 (l @ LF # rest) = Inr (b1, rest)" "length b1 = length b" "cstr b1 0 = Inr (l @ [LF])"
    using fgets_line[OF l] by blast
  obtain b2 where "chop_newline b1 = Inr b2" "length b2 = length b1" "cstr b2 0 = Inr l"
    using chop_newline_line[OF b1(3)] by auto
  then show ?thesis using that b1 assms(2) by simp
qed

definition leads_to :: "('s \<Rightarrow> bool) \<Rightarrow> 's option result \<Rightarrow> bool" where
  "leads_to P r = (case r of Inl f \<Rightarrow> False | Inr None \<Rightarrow> True | Inr (Some s) \<Rightarrow> P s)"

lemma leads_to_simps [simp]:
  "leads_to P (Inr None)" "leads_to P (Inr (Some s)) = P s" "\<not> leads_to P (Inl f)"
  by (simp_all add: leads_to_def)

lemma thread16_inv:
  assumes "\<forall>l \<in> set ls. line32 l" "sem_demo_inv ls s"
  shows "leads_to (sem_demo_inv ls) (thread16 s)"
proof -
  obtain n where n: "n \<le> length ls" "sd_in s = typed (drop n ls)" "length (sd_buf s) = LINE32"
      "0 < n \<longrightarrow> cstr (sd_buf s) 0 = Inr (ls ! (n - 1))"
      "(sd_sem2 s, sd_sem1 s, sd_16 s, sd_17 s) \<in> {(1, 0, T_Wait, T_Wait), (0, 0, T_Work, T_Wait), (0, 0, T_Wait, T_Post)}
          \<and> sd_printed s = take n ls
        \<or> (sd_sem2 s, sd_sem1 s, sd_16 s, sd_17 s) \<in> {(0, 0, T_Post, T_Wait), (0, 1, T_Wait, T_Wait), (0, 0, T_Wait, T_Work)}
          \<and> 0 < n \<and> sd_printed s = take (n - 1) ls"
    using assms(2) unfolding sem_demo_inv_def by blast
  show ?thesis
  proof (cases "sd_16 s")
    case T_Work
    show ?thesis
    proof (cases "n = length ls")
      case True
      then show ?thesis using n(2) T_Work by (simp add: thread16_def typed_def)
    next
      case False
      then have lt: "n < length ls" using n(1) by simp
      have d: "typed (drop n ls) = ls ! n @ LF # typed (drop (Suc n) ls)"
        using lt by (subst Cons_nth_drop_Suc[symmetric]) (simp_all add: typed_def)
      obtain b1 b2 where b: "fgets (sd_buf s) LINE32 (typed (drop n ls)) = Inr (b1, typed (drop (Suc n) ls))" "chop_newline b1 = Inr b2"
          "length b2 = LINE32" "cstr b2 0 = Inr (ls ! n)"
        using take_line32[of "ls ! n" "sd_buf s" "typed (drop (Suc n) ls)"] n(3) assms(1) lt unfolding d by auto
      let ?s = "s\<lparr>sd_buf := b2, sd_in := typed (drop (Suc n) ls), sd_16 := T_Post\<rparr>"
      have "sem_demo_inv ls ?s" unfolding sem_demo_inv_def
        by (rule exI[of _ "Suc n"]) (use n T_Work lt b in auto)
      then show ?thesis using T_Work b(1,2) n(2) d by (simp add: thread16_def)
    qed
  next
    case T_Wait
    then show ?thesis using n unfolding thread16_def by (auto simp: sem_demo_inv_def intro!: exI[of _ n])
  next
    case T_Post
    then show ?thesis using n unfolding thread16_def by (auto simp: sem_demo_inv_def intro!: exI[of _ n])
  qed
qed

lemma thread17_inv:
  assumes "sem_demo_inv ls s"
  shows "leads_to (sem_demo_inv ls) (thread17 s)"
proof -
  obtain n where n: "n \<le> length ls" "sd_in s = typed (drop n ls)" "length (sd_buf s) = LINE32"
      "0 < n \<longrightarrow> cstr (sd_buf s) 0 = Inr (ls ! (n - 1))"
      "(sd_sem2 s, sd_sem1 s, sd_16 s, sd_17 s) \<in> {(1, 0, T_Wait, T_Wait), (0, 0, T_Work, T_Wait), (0, 0, T_Wait, T_Post)}
          \<and> sd_printed s = take n ls
        \<or> (sd_sem2 s, sd_sem1 s, sd_16 s, sd_17 s) \<in> {(0, 0, T_Post, T_Wait), (0, 1, T_Wait, T_Wait), (0, 0, T_Wait, T_Work)}
          \<and> 0 < n \<and> sd_printed s = take (n - 1) ls"
    using assms unfolding sem_demo_inv_def by blast
  have snoc: "0 < n \<Longrightarrow> take (n - 1) ls @ [ls ! (n - 1)] = take n ls"
    using n(1) by (metis Suc_diff_1 less_eq_Suc_le take_Suc_conv_app_nth)
  show ?thesis using n snoc unfolding thread17_def
    by (cases "sd_17 s") (auto simp: sem_demo_inv_def intro!: exI[of _ n])
qed

text \<open>In every order of the two threads the lines are printed one by one, none lost and none twice.\<close>

theorem sem_demo_prints:
  assumes "\<forall>l \<in> set ls. line32 l"
  shows "\<exists>s. sem_demo_run ws (sem_demo_start (typed ls)) = Inr s \<and> prefix (sd_printed s) ls
    \<and> (thread16 s = Inr None \<and> thread17 s = Inr None \<longrightarrow> sd_printed s = ls)"
proof -
  have "sem_demo_inv ls s \<Longrightarrow> \<exists>s'. sem_demo_run ws s = Inr s' \<and> sem_demo_inv ls s'" for s
  proof (induction ws arbitrary: s)
    case (Cons w ws)
    have "leads_to (sem_demo_inv ls) (if w then thread16 s else thread17 s)"
      using thread16_inv[OF assms Cons.prems] thread17_inv[OF Cons.prems] by simp
    then obtain r where r: "(if w then thread16 s else thread17 s) = Inr r" "\<And>s'. r = Some s' \<Longrightarrow> sem_demo_inv ls s'"
      by (auto simp: leads_to_def split: sum.splits option.splits)
    then have "sem_demo_inv ls (case r of None \<Rightarrow> s | Some s' \<Rightarrow> s')" using Cons.prems by (auto split: option.split)
    then show ?case using Cons.IH r(1) by simp
  qed simp
  moreover have "sem_demo_inv ls (sem_demo_start (typed ls))"
    unfolding sem_demo_inv_def by (rule exI[of _ 0]) (simp add: sem_demo_start_def)
  ultimately obtain s where s: "sem_demo_run ws (sem_demo_start (typed ls)) = Inr s" "sem_demo_inv ls s" by blast
  have "prefix (sd_printed s) ls" using s(2) by (auto simp: sem_demo_inv_def take_is_prefix)
  moreover have "sd_printed s = ls" if "thread16 s = Inr None" "thread17 s = Inr None"
  proof -
    obtain n where n: "n \<le> length ls" "sd_in s = typed (drop n ls)"
        "(sd_sem2 s, sd_sem1 s, sd_16 s, sd_17 s) \<in> {(1, 0, T_Wait, T_Wait), (0, 0, T_Work, T_Wait), (0, 0, T_Wait, T_Post)}
            \<and> sd_printed s = take n ls
          \<or> (sd_sem2 s, sd_sem1 s, sd_16 s, sd_17 s) \<in> {(0, 0, T_Post, T_Wait), (0, 1, T_Wait, T_Wait), (0, 0, T_Wait, T_Work)}"
      using s(2) unfolding sem_demo_inv_def by blast
    have "\<not> (sd_sem2 s = 1 \<and> sd_16 s = T_Wait)" "\<not> (sd_sem1 s = 1 \<and> sd_17 s = T_Wait)" "sd_16 s \<noteq> T_Post" "sd_17 s \<noteq> T_Post" "sd_17 s \<noteq> T_Work"
      using that by (auto simp: thread16_def thread17_def bindR_eq_Inr)
    then have w: "sd_16 s = T_Work" "sd_printed s = take n ls" using n(3) by auto
    then have "typed (drop n ls) = []" using that(1) n(2) by (auto simp: thread16_def bindR_eq_Inr split: if_splits)
    then have "length ls \<le> n" by (cases "drop n ls") (auto simp: typed_def)
    then show ?thesis using w(2) by simp
  qed
  ultimately show ?thesis using s(1) by blast
qed

theorem sem_demo_prints_witness:
  "\<exists>s. sem_demo_run [True, True, True, False, False] (sem_demo_start (typed [''hi''])) = Inr s \<and> prefix (sd_printed s) [''hi'']"
  using sem_demo_prints[of "[''hi'']" "[True, True, True, False, False]"] by (auto simp: line32_def LINE32_def)

subsection \<open>Lines announced through a condition variable\<close>

text \<open>
  The waiting threads 19 and 20: before the lock, holding it before \<open>pthread_cond_wait\<close>, asleep, woken and
  in need of the lock, printing with it, before the unlock. \<open>printed\<close> says who printed what.
\<close>

datatype wait_pc = At_Lock | At_Wait | Asleep | Woken | At_Print | At_Unlock

record cond_demo =
  cd_in :: string
  cd_buf :: "char list"
  cd_signal :: bool
  cd_lock :: "bool option"
  cd_pc :: "bool \<Rightarrow> wait_pc"
  cd_printed :: "(bool \<times> string) list"

definition cond_start :: "string \<Rightarrow> cond_demo" where
  "cond_start inp = \<lparr>cd_in = inp, cd_buf = replicate LINE32 NUL, cd_signal = False, cd_lock = None,
     cd_pc = (\<lambda>_. At_Lock), cd_printed = []\<rparr>"

text \<open>
  Thread 18 reads a line without the lock, then signals: of the threads asleep one is woken (\<open>t\<close> if it is
  asleep, else the other); when none is, the signal is lost.
\<close>

definition thread18 :: "bool \<Rightarrow> cond_demo \<Rightarrow> cond_demo option result" where
  "thread18 t s =
     (if \<not> cd_signal s then
        (if cd_in s = [] then Inr None
         else bindR (fgets (cd_buf s) LINE32 (cd_in s)) (\<lambda>p.
              bindR (chop_newline (fst p)) (\<lambda>b. Inr (Some (s\<lparr>cd_buf := b, cd_in := snd p, cd_signal := True\<rparr>)))))
      else let pc = cd_pc s in
           Inr (Some (s\<lparr>cd_signal := False,
             cd_pc := (if pc t = Asleep then pc(t := Woken) else if pc (\<not> t) = Asleep then pc(\<not> t := Woken) else pc)\<rparr>)))"

definition thread19 :: "bool \<Rightarrow> cond_demo \<Rightarrow> cond_demo option result" where
  "thread19 t s =
     (let go = (\<lambda>pc. (cd_pc s)(t := pc)) in
      case cd_pc s t of
        At_Lock \<Rightarrow> Inr (if cd_lock s = None then Some (s\<lparr>cd_lock := Some t, cd_pc := go At_Wait\<rparr>) else None)
      | At_Wait \<Rightarrow> Inr (Some (s\<lparr>cd_lock := None, cd_pc := go Asleep\<rparr>))
      | Asleep \<Rightarrow> Inr None
      | Woken \<Rightarrow> Inr (if cd_lock s = None then Some (s\<lparr>cd_lock := Some t, cd_pc := go At_Print\<rparr>) else None)
      | At_Print \<Rightarrow> bindR (cstr (cd_buf s) 0) (\<lambda>l. Inr (Some (s\<lparr>cd_printed := cd_printed s @ [(t, l)], cd_pc := go At_Unlock\<rparr>)))
      | At_Unlock \<Rightarrow> Inr (Some (s\<lparr>cd_lock := None, cd_pc := go At_Lock\<rparr>)))"

datatype cond_move = Signaller bool | Waiter bool

fun cond_run :: "cond_move list \<Rightarrow> cond_demo \<Rightarrow> cond_demo result" where
  "cond_run [] s = Inr s"
| "cond_run (m # ms) s =
     bindR (case m of Signaller t \<Rightarrow> thread18 t s | Waiter t \<Rightarrow> thread19 t s) (\<lambda>r. cond_run ms (case r of None \<Rightarrow> s | Some s' \<Rightarrow> s'))"

definition due :: "cond_demo \<Rightarrow> bool \<Rightarrow> nat" where
  "due s t = (if cd_pc s t \<in> {Woken, At_Print} then 1 else 0)"

text \<open>
  One thread at most holds the lock; and what is printed or about to be printed is not more than the lines
  that were read and announced.
\<close>

definition cond_inv :: "string list \<Rightarrow> cond_demo \<Rightarrow> bool" where
  "cond_inv ls s = (\<exists>n \<le> length ls. cd_in s = typed (drop n ls) \<and> length (cd_buf s) = LINE32
     \<and> (cstr (cd_buf s) 0 = Inr (if n = 0 then [] else ls ! (n - 1)))
     \<and> (\<forall>t. cd_lock s = Some t \<longleftrightarrow> cd_pc s t \<in> {At_Wait, At_Print, At_Unlock})
     \<and> (cd_signal s \<longrightarrow> 0 < n)
     \<and> length (cd_printed s) + due s True + due s False \<le> n - (if cd_signal s then 1 else 0)
     \<and> (\<forall>p \<in> set (cd_printed s). snd p \<in> set (take n ls)))"

lemma thread18_inv:
  assumes "\<forall>l \<in> set ls. line32 l" "cond_inv ls s"
  shows "leads_to (cond_inv ls) (thread18 t s)"
proof -
  obtain n where n: "n \<le> length ls" "cd_in s = typed (drop n ls)" "length (cd_buf s) = LINE32"
      "cstr (cd_buf s) 0 = Inr (if n = 0 then [] else ls ! (n - 1))"
      "\<forall>t. cd_lock s = Some t \<longleftrightarrow> cd_pc s t \<in> {At_Wait, At_Print, At_Unlock}" "cd_signal s \<longrightarrow> 0 < n"
      "length (cd_printed s) + due s True + due s False \<le> n - (if cd_signal s then 1 else 0)"
      "\<forall>p \<in> set (cd_printed s). snd p \<in> set (take n ls)"
    using assms(2) unfolding cond_inv_def by blast
  show ?thesis
  proof (cases "cd_signal s")
    case True
    let ?pc = "if cd_pc s t = Asleep then (cd_pc s)(t := Woken) else if cd_pc s (\<not> t) = Asleep then (cd_pc s)(\<not> t := Woken) else cd_pc s"
    let ?s = "s\<lparr>cd_signal := False, cd_pc := ?pc\<rparr>"
    have "length (cd_printed s) + due ?s True + due ?s False \<le> n"
      using n(6,7) True by (cases t) (auto simp: due_def)
    then have "cond_inv ls ?s" unfolding cond_inv_def
      by (intro exI[of _ n]) (use n in \<open>cases t; auto\<close>)
    then show ?thesis using True by (simp add: thread18_def Let_def)
  next
    case False
    show ?thesis
    proof (cases "n = length ls")
      case True
      then show ?thesis using n(2) False by (simp add: thread18_def typed_def)
    next
      case lt: False
      then have lt: "n < length ls" using n(1) by simp
      have d: "typed (drop n ls) = ls ! n @ LF # typed (drop (Suc n) ls)"
        using lt by (subst Cons_nth_drop_Suc[symmetric]) (simp_all add: typed_def)
      obtain b1 b2 where b: "fgets (cd_buf s) LINE32 (typed (drop n ls)) = Inr (b1, typed (drop (Suc n) ls))" "chop_newline b1 = Inr b2"
          "length b2 = LINE32" "cstr b2 0 = Inr (ls ! n)"
        using take_line32[of "ls ! n" "cd_buf s" "typed (drop (Suc n) ls)"] n(3) assms(1) lt unfolding d by auto
      let ?s = "s\<lparr>cd_buf := b2, cd_in := typed (drop (Suc n) ls), cd_signal := True\<rparr>"
      have "set (take n ls) \<subseteq> set (take (Suc n) ls)" by (rule set_take_subset_set_take) simp
      then have "cond_inv ls ?s" unfolding cond_inv_def
        by (intro exI[of _ "Suc n"]) (use n False lt b in \<open>auto simp: due_def\<close>)
      then show ?thesis using False b(1,2) n(2) d by (simp add: thread18_def)
    qed
  qed
qed

lemma thread19_inv:
  assumes "cond_inv ls s"
  shows "leads_to (cond_inv ls) (thread19 t s)"
proof -
  obtain n where n: "n \<le> length ls" "cd_in s = typed (drop n ls)" "length (cd_buf s) = LINE32"
      "cstr (cd_buf s) 0 = Inr (if n = 0 then [] else ls ! (n - 1))"
      "\<forall>t. cd_lock s = Some t \<longleftrightarrow> cd_pc s t \<in> {At_Wait, At_Print, At_Unlock}" "cd_signal s \<longrightarrow> 0 < n"
      "length (cd_printed s) + due s True + due s False \<le> n - (if cd_signal s then 1 else 0)"
      "\<forall>p \<in> set (cd_printed s). snd p \<in> set (take n ls)"
    using assms unfolding cond_inv_def by blast
  have own: "cd_pc s u \<in> {At_Wait, At_Print, At_Unlock} \<Longrightarrow> cd_pc s t \<in> {At_Wait, At_Print, At_Unlock} \<Longrightarrow> u = t" for u
    using n(5) by (metis option.inject)
  show ?thesis
  proof (cases "cd_pc s t")
    case At_Print
    then have "0 < n" using n(7) by (cases t) (auto simp: due_def split: if_splits)
    then have "ls ! (n - 1) \<in> set (take n ls)"
      using n(1) nth_mem[of "n - 1" "take n ls"] by simp
    then show ?thesis using n At_Print own unfolding thread19_def
      by (cases t) (auto simp: cond_inv_def due_def Let_def intro!: exI[of _ n] split: if_splits)
  qed (use n own in \<open>cases t; auto simp: thread19_def cond_inv_def due_def Let_def intro!: exI[of _ n] split: if_splits\<close>)+
qed

lemma cond_run_inv:
  assumes "\<forall>l \<in> set ls. line32 l"
  shows "cond_inv ls s \<Longrightarrow> \<exists>s'. cond_run ms s = Inr s' \<and> cond_inv ls s'"
proof (induction ms arbitrary: s)
  case (Cons m ms)
  let ?r = "case m of Signaller t \<Rightarrow> thread18 t s | Waiter t \<Rightarrow> thread19 t s"
  have "leads_to (cond_inv ls) ?r"
    using thread18_inv[OF assms Cons.prems] thread19_inv[OF Cons.prems] by (cases m) simp_all
  then obtain r where r: "?r = Inr r" "\<And>s'. r = Some s' \<Longrightarrow> cond_inv ls s'"
    by (cases ?r) (auto simp: leads_to_def split: option.splits)
  then have "cond_inv ls (case r of None \<Rightarrow> s | Some s' \<Rightarrow> s')" using Cons.prems by (auto split: option.split)
  then show ?case using Cons.IH r(1) by simp
qed simp

text \<open>
  In every order: the two waiting threads never print at the same time, and they print no more lines than
  were typed, and only such lines.
\<close>

theorem cond_test_bounded:
  assumes "\<forall>l \<in> set ls. line32 l"
  shows "\<exists>s. cond_run ms (cond_start (typed ls)) = Inr s \<and> \<not> (cd_pc s True = At_Print \<and> cd_pc s False = At_Print)
    \<and> length (cd_printed s) \<le> length ls \<and> (\<forall>p \<in> set (cd_printed s). snd p \<in> set ls)"
proof -
  have "cond_inv ls (cond_start (typed ls))"
    unfolding cond_inv_def by (rule exI[of _ 0]) (simp add: cond_start_def due_def LINE32_def cstr_def)
  then obtain s where s: "cond_run ms (cond_start (typed ls)) = Inr s" "cond_inv ls s"
    using cond_run_inv[OF assms] by blast
  then obtain n where n: "n \<le> length ls" "\<forall>t. cd_lock s = Some t \<longleftrightarrow> cd_pc s t \<in> {At_Wait, At_Print, At_Unlock}"
      "length (cd_printed s) + due s True + due s False \<le> n - (if cd_signal s then 1 else 0)"
      "\<forall>p \<in> set (cd_printed s). snd p \<in> set (take n ls)"
    unfolding cond_inv_def by blast
  have "\<not> (cd_pc s True = At_Print \<and> cd_pc s False = At_Print)" using n(2) by (metis insertI1 insertI2 option.inject)
  moreover have "\<forall>p \<in> set (cd_printed s). snd p \<in> set ls" using n(4) by (meson in_set_takeD)
  moreover have "length (cd_printed s) \<le> length ls" using n(1,3) by simp
  ultimately show ?thesis using s(1) by blast
qed

theorem cond_test_bounded_witness:
  "\<exists>s. cond_run [Waiter True, Waiter True, Signaller True, Signaller True, Waiter True, Waiter True] (cond_start (typed [''hi''])) = Inr s
    \<and> length (cd_printed s) \<le> 1"
  using cond_test_bounded[of "[''hi'']" "[Waiter True, Waiter True, Signaller True, Signaller True, Waiter True, Waiter True]"]
  by (auto simp: line32_def LINE32_def)

definition nobody_due :: "cond_demo \<Rightarrow> bool" where
  "nobody_due s = (cd_in s = [] \<and> \<not> cd_signal s \<and> (\<forall>t. cd_pc s t \<in> {At_Lock, At_Wait, Asleep}) \<and> cd_printed s = [])"

lemma nobody_due_step: "nobody_due s \<Longrightarrow> leads_to nobody_due (case m of Signaller t \<Rightarrow> thread18 t s | Waiter t \<Rightarrow> thread19 t s)"
proof (cases m)
  case (Signaller t)
  then show "nobody_due s \<Longrightarrow> ?thesis" by (simp add: nobody_due_def thread18_def)
next
  case (Waiter t)
  assume n: "nobody_due s"
  then have "cd_pc s t = At_Lock \<or> cd_pc s t = At_Wait \<or> cd_pc s t = Asleep" by (auto simp: nobody_due_def)
  then show ?thesis using n Waiter by (elim disjE) (auto simp: nobody_due_def thread19_def)
qed

text \<open>
  A line that is announced while nobody sleeps is lost: nothing remembers it, and whatever the threads do
  afterwards it is never printed.
\<close>

theorem cond_signal_lost:
  assumes "line32 l"
  shows "\<exists>s. cond_run ([Signaller t, Signaller t] @ ms) (cond_start (typed [l])) = Inr s \<and> cd_printed s = []"
proof -
  let ?i = "cond_start (typed [l])"
  obtain b1 b2 where b: "fgets (cd_buf ?i) LINE32 (l @ [LF]) = Inr (b1, [])" "chop_newline b1 = Inr b2"
      "length b2 = LINE32" "cstr b2 0 = Inr l"
    using take_line32[OF assms, of "cd_buf ?i" "[]"] by (auto simp: cond_start_def)
  let ?a = "?i\<lparr>cd_buf := b2, cd_in := [], cd_signal := True\<rparr>"
  have a: "thread18 t ?i = Inr (Some ?a)" using b(1,2) by (simp add: thread18_def cond_start_def typed_def)
  have c: "thread18 t ?a = Inr (Some (?a\<lparr>cd_signal := False\<rparr>))" by (simp add: thread18_def cond_start_def)
  have "cond_run ([Signaller t, Signaller t] @ ms) ?i = cond_run ms (?a\<lparr>cd_signal := False\<rparr>)"
    using a c by (simp cong: option.case_cong)
  moreover have "nobody_due s \<Longrightarrow> \<exists>s'. cond_run ms s = Inr s' \<and> nobody_due s'" for s
  proof (induction ms arbitrary: s)
    case (Cons m ms)
    let ?r = "case m of Signaller t \<Rightarrow> thread18 t s | Waiter t \<Rightarrow> thread19 t s"
    obtain r where r: "?r = Inr r" "\<And>s'. r = Some s' \<Longrightarrow> nobody_due s'"
      using nobody_due_step[OF Cons.prems, of m] by (cases ?r) (auto simp: leads_to_def split: option.splits)
    then have "nobody_due (case r of None \<Rightarrow> s | Some s' \<Rightarrow> s')" using Cons.prems by (auto split: option.split)
    then show ?case using Cons.IH r(1) by simp
  qed simp
  moreover have "nobody_due (?a\<lparr>cd_signal := False\<rparr>)" by (simp add: nobody_due_def cond_start_def)
  ultimately obtain s where "cond_run ([Signaller t, Signaller t] @ ms) ?i = Inr s" "nobody_due s" by metis
  then show ?thesis by (auto simp: nobody_due_def)
qed

theorem cond_signal_lost_witness:
  "\<exists>s. cond_run ([Signaller True, Signaller True] @ [Waiter True, Waiter True]) (cond_start (typed [''hi''])) = Inr s \<and> cd_printed s = []"
  by (rule cond_signal_lost) (simp add: line32_def LINE32_def)

end
