(* ===== verification/Pipe_Limits.thy ===== *)
theory Pipe_Limits
  imports Pipe_Io
begin

text \<open>
  How much a pipe takes (src/05_ipc/main.cpp): \<open>pipe_size_test\<close> writes until it blocks, \<open>pipe_size_test2\<close>
  makes room once on the way, and \<open>pipe_size_test3\<close> writes when nobody can read.
\<close>

subsection \<open>Writing to a pipe\<close>

definition BLOCK :: nat where "BLOCK = 1024"

text \<open>
  A pipe is the number of bytes in it. A \<open>write\<close> of at most a page is made whole or waits; without a reader
  it kills the process.
\<close>

datatype pipe_write = Wrote nat | Write_Waits | Sigpipe

definition write_block :: "bool \<Rightarrow> nat \<Rightarrow> pipe_write" where
  "write_block readers n = (if \<not> readers then Sigpipe else if PIPE_SIZE < n + BLOCK then Write_Waits else Wrote (n + BLOCK))"

text \<open>A \<open>read\<close> takes what there is, up to the size of the array; \<open>None\<close>: it waits.\<close>

definition read_block :: "nat \<Rightarrow> nat option" where
  "read_block n = (if n = 0 then None else Some (n - min BLOCK n))"

subsection \<open>The programs\<close>

text \<open>What a run prints until it waits for ever.\<close>

function pipe_size_test :: "nat \<Rightarrow> nat \<Rightarrow> nat list" where
  "pipe_size_test n cnt =
     (case write_block True n of
        Wrote m \<Rightarrow> (cnt + BLOCK) # pipe_size_test m (cnt + BLOCK)
      | _ \<Rightarrow> [])"
  by pat_completeness auto
termination
  by (relation "measure (\<lambda>(n, cnt). PIPE_SIZE + 1 - n)") (auto simp: write_block_def BLOCK_def split: if_splits)

declare pipe_size_test.simps [simp del]

definition read_four :: "nat \<Rightarrow> nat option" where
  "read_four n = Option.bind (Option.bind (Option.bind (read_block n) read_block) read_block) read_block"

lemma read_four_le: "read_four n = Some m \<Longrightarrow> m \<le> n"
  by (auto simp: read_four_def read_block_def Option.bind_eq_Some_conv split: if_splits)

text \<open>The second program counts the writes, and after 64 of them reads four times.\<close>

function pipe_size_test2 :: "nat \<Rightarrow> nat \<Rightarrow> nat list \<times> nat" where
  "pipe_size_test2 n cnt =
     (case write_block True n of
        Wrote m \<Rightarrow>
          (let cnt = cnt + 1 in
           case (if cnt = 64 then read_four m else Some m) of
             None \<Rightarrow> ([cnt], m)
           | Some m' \<Rightarrow> (case pipe_size_test2 m' cnt of (out, k) \<Rightarrow> (cnt # out, k)))
      | _ \<Rightarrow> ([], n))"
  by pat_completeness auto
termination
proof (relation "measure (\<lambda>(n, cnt). (if cnt < 64 then 2 * PIPE_SIZE else 0) + (PIPE_SIZE + 1 - n))", goal_cases)
  case (2 n cnt m x m')
  then show ?case using read_four_le[of m m']
    by (auto simp: write_block_def BLOCK_def PIPE_SIZE_def split: if_splits)
qed simp

declare pipe_size_test2.simps [simp del]

definition pipe_size_test3 :: pipe_write where
  "pipe_size_test3 = write_block False 0"

subsection \<open>The size of a pipe\<close>

lemma pipe_size_from: "k \<le> 64 \<Longrightarrow> pipe_size_test (BLOCK * k) (BLOCK * k) = map (\<lambda>i. BLOCK * (i + 1)) [k..<64]"
proof (induction "64 - k" arbitrary: k)
  case 0
  then show ?case by (subst pipe_size_test.simps) (simp add: write_block_def BLOCK_def PIPE_SIZE_def)
next
  case (Suc d)
  then have k: "k < 64" "d = 64 - Suc k" by simp_all
  then have "write_block True (BLOCK * k) = Wrote (BLOCK * Suc k)" by (simp add: write_block_def BLOCK_def PIPE_SIZE_def)
  then show ?case using Suc(1)[of "Suc k"] k
    by (subst pipe_size_test.simps) (simp add: upt_conv_Cons add.commute)
qed

text \<open>The first program prints 1024, 2048 and so on up to 65536, the size of the pipe, and then waits.\<close>

theorem pipe_size_printed: "pipe_size_test 0 0 = map (\<lambda>i. 1024 * (i + 1)) [0..<64] \<and> last (pipe_size_test 0 0) = PIPE_SIZE"
proof -
  have "pipe_size_test 0 0 = map (\<lambda>i. 1024 * (i + 1)) [0..<64]" using pipe_size_from[of 0] by (simp add: BLOCK_def)
  moreover have "[0..<64] = [0..<63] @ [63]" using upt_Suc_append[of 0 63] by simp
  ultimately show ?thesis by (simp add: PIPE_SIZE_def)
qed

lemma pipe_size2_after: "64 \<le> k \<Longrightarrow> k \<le> 68 \<Longrightarrow> pipe_size_test2 (BLOCK * (k - 4)) k = ([Suc k..<69], PIPE_SIZE)"
proof (induction "68 - k" arbitrary: k)
  case 0
  then have "k = 68" by simp
  then show ?case by (subst pipe_size_test2.simps) (simp add: write_block_def BLOCK_def PIPE_SIZE_def)
next
  case (Suc d)
  then have k: "k < 68" "d = 68 - Suc k" by simp_all
  then have "write_block True (BLOCK * (k - 4)) = Wrote (BLOCK * (Suc k - 4))"
    using Suc(3) by (auto simp: write_block_def BLOCK_def PIPE_SIZE_def)
  then show ?case using Suc(1)[of "Suc k"] k Suc(3)
    by (subst pipe_size_test2.simps) (simp add: upt_conv_Cons)
qed

lemma pipe_size2_before: "k < 64 \<Longrightarrow> pipe_size_test2 (BLOCK * k) k = ([Suc k..<69], PIPE_SIZE)"
proof (induction "63 - k" arbitrary: k)
  case 0
  then have k: "k = 63" by simp
  have r: "write_block True (BLOCK * 63) = Wrote (BLOCK * 64)" "read_four (BLOCK * 64) = Some (BLOCK * (64 - 4))"
    by (simp_all add: write_block_def read_four_def read_block_def BLOCK_def PIPE_SIZE_def)
  show ?case using pipe_size2_after[of 64] unfolding k
    by (subst pipe_size_test2.simps) (simp add: r upt_conv_Cons)
next
  case (Suc d)
  then have k: "k < 63" "d = 63 - Suc k" by simp_all
  then have "write_block True (BLOCK * k) = Wrote (BLOCK * Suc k)" by (simp add: write_block_def BLOCK_def PIPE_SIZE_def)
  then show ?case using Suc(1)[of "Suc k"] k
    by (subst pipe_size_test2.simps) (simp add: upt_conv_Cons)
qed

text \<open>The four blocks that were read make room for four more: the second program counts to 68 and waits at a full pipe.\<close>

theorem pipe_size2_counted: "pipe_size_test2 0 0 = ([1..<69], PIPE_SIZE)"
  using pipe_size2_before[of 0] by simp

text \<open>Without a reader the first write ends the process.\<close>

theorem pipe_size3_killed: "pipe_size_test3 = Sigpipe"
  by (simp add: pipe_size_test3_def write_block_def)

end
