(* ===== verification/Thread_Cancel.thy ===== *)
theory Thread_Cancel
  imports Prelude
begin

text \<open>
  Cancelling a thread (src/04_thread/main.cpp): thread 5 does not let itself be cancelled, thread 6 ends at a
  cancellation point, thread 7 at once. Each main function cancels the thread some time after it was
  created and joins it.
\<close>

subsection \<open>Threads that may be cancelled\<close>

text \<open>
  The statements: \<open>pthread_setcancelstate\<close> and \<open>pthread_setcanceltype\<close> (\<open>True\<close>: asynchronous), output, which the
  library may or may not make a cancellation point (\<open>io\<close>), \<open>sleep\<close> and \<open>pthread_testcancel\<close>, which are points.
\<close>

datatype cancel_stmt = Set_State bool | Set_Type bool | Says string | Naps | Test_Cancel

record cancel_thread =
  ca_enabled :: bool
  ca_async :: bool
  ca_asked :: bool
  ca_ended :: bool
  ca_at :: nat
  ca_said :: "string list"

definition ca_start :: cancel_thread where
  "ca_start = \<lparr>ca_enabled = True, ca_async = False, ca_asked = False, ca_ended = False, ca_at = 0, ca_said = []\<rparr>"

text \<open>A thread function: what it does first, and the body of its endless loop.\<close>

type_synonym thread_fun = "cancel_stmt list \<times> cancel_stmt list"

definition stmt_of :: "thread_fun \<Rightarrow> nat \<Rightarrow> cancel_stmt" where
  "stmt_of p k = (if k < length (fst p) then fst p ! k else snd p ! (k - length (fst p)))"

definition next_stmt :: "thread_fun \<Rightarrow> nat \<Rightarrow> nat" where
  "next_stmt p k = (if Suc k < length (fst p) + length (snd p) then Suc k else length (fst p))"

definition thread5 :: thread_fun where "thread5 = ([Set_State False], [Says ''thread5'', Naps])"
definition thread6 :: thread_fun where "thread6 = ([Set_State True, Set_Type False], [Says ''thread6'', Naps])"
definition thread7 :: thread_fun where
  "thread7 = ([Set_State True, Set_Type True], [Says (''thread7'' @ SP # ''aa''), Test_Cancel, Says (''thread7'' @ SP # ''bb'')])"

text \<open>A request that is allowed ends the thread: an asynchronous one before any statement, else at a point.\<close>

fun says :: "cancel_stmt \<Rightarrow> bool" where
  "says (Says t) = True"
| "says c = False"

definition acts :: "bool \<Rightarrow> cancel_stmt \<Rightarrow> cancel_thread \<Rightarrow> bool" where
  "acts io c s = (ca_asked s \<and> ca_enabled s \<and> (ca_async s \<or> io \<and> says c \<or> c = Naps \<or> c = Test_Cancel))"

fun perform :: "cancel_stmt \<Rightarrow> cancel_thread \<Rightarrow> cancel_thread" where
  "perform (Set_State b) s = s\<lparr>ca_enabled := b\<rparr>"
| "perform (Set_Type b) s = s\<lparr>ca_async := b\<rparr>"
| "perform (Says t) s = s\<lparr>ca_said := ca_said s @ [t]\<rparr>"
| "perform Naps s = s"
| "perform Test_Cancel s = s"

definition ca_step :: "bool \<Rightarrow> thread_fun \<Rightarrow> cancel_thread \<Rightarrow> cancel_thread" where
  "ca_step io p s =
     (if ca_ended s then s
      else let c = stmt_of p (ca_at s) in
           if acts io c s then s\<lparr>ca_ended := True\<rparr>
           else (perform c s)\<lparr>ca_at := next_stmt p (ca_at s)\<rparr>)"

text \<open>The thread makes \<open>n\<close> steps before \<open>pthread_cancel\<close> and \<open>m\<close> after it; \<open>pthread_join\<close> returns when it has ended.\<close>

definition ca_test :: "bool \<Rightarrow> thread_fun \<Rightarrow> nat \<Rightarrow> nat \<Rightarrow> cancel_thread" where
  "ca_test io p n m = (ca_step io p ^^ m) (((ca_step io p ^^ n) ca_start)\<lparr>ca_asked := True\<rparr>)"

definition cancel_test :: "bool \<Rightarrow> nat \<Rightarrow> nat \<Rightarrow> bool" where "cancel_test io n m = ca_ended (ca_test io thread5 n m)"
definition cancel_type_test :: "bool \<Rightarrow> nat \<Rightarrow> nat \<Rightarrow> bool" where "cancel_type_test io n m = ca_ended (ca_test io thread6 n m)"
definition testcancel_test :: "bool \<Rightarrow> nat \<Rightarrow> nat \<Rightarrow> bool" where "testcancel_test io n m = ca_ended (ca_test io thread7 n m)"

subsection \<open>Who ends\<close>

lemma steps_keep: "P s \<Longrightarrow> (\<And>s. P s \<Longrightarrow> P (ca_step io p s)) \<Longrightarrow> P ((ca_step io p ^^ n) s)"
  by (induction n) auto

definition kept5 :: "cancel_thread \<Rightarrow> bool" where
  "kept5 s = (\<not> ca_ended s \<and> \<not> ca_async s \<and> ca_at s < 3 \<and> (ca_at s = 0 \<or> \<not> ca_enabled s))"

lemma less3_cases: "(n::nat) < 3 \<Longrightarrow> n = 0 \<or> n = 1 \<or> n = 2" by linarith

lemma kept5_step: "kept5 s \<Longrightarrow> kept5 (ca_step io thread5 s)"
  using less3_cases[of "ca_at s"]
  by (auto simp: kept5_def ca_step_def thread5_def stmt_of_def next_stmt_def acts_def Let_def)

text \<open>Thread 5 never ends, not even when it is cancelled before its first statement: joining it waits for ever.\<close>

theorem cancel_test_waits: "\<not> cancel_test io n m"
proof -
  have "kept5 ((ca_step io thread5 ^^ n) ca_start)" by (rule steps_keep[of kept5, OF _ kept5_step]) (simp_all add: kept5_def ca_start_def)
  then have "kept5 (((ca_step io thread5 ^^ n) ca_start)\<lparr>ca_asked := True\<rparr>)" by (simp add: kept5_def)
  then have "kept5 (ca_test io thread5 n m)" unfolding ca_test_def by (rule steps_keep[of kept5, OF _ kept5_step])
  then show ?thesis by (simp add: cancel_test_def kept5_def)
qed

definition live6 :: "cancel_thread \<Rightarrow> bool" where
  "live6 s = (ca_enabled s \<and> \<not> ca_async s \<and> ca_at s < 4 \<and> \<not> ca_ended s \<and> (\<not> ca_asked s))"

definition live7 :: "cancel_thread \<Rightarrow> bool" where
  "live7 s = (ca_enabled s \<and> (ca_async s \<longleftrightarrow> 2 \<le> ca_at s) \<and> ca_at s < 5 \<and> \<not> ca_ended s \<and> \<not> ca_asked s)"

lemma less_cases: "(n::nat) < 4 \<Longrightarrow> n = 0 \<or> n = 1 \<or> n = 2 \<or> n = 3"
  "(n::nat) < 5 \<Longrightarrow> n = 0 \<or> n = 1 \<or> n = 2 \<or> n = 3 \<or> n = 4" by linarith+

lemmas cancel_defs = ca_step_def thread6_def thread7_def stmt_of_def next_stmt_def acts_def Let_def

lemma live6_step: "live6 s \<Longrightarrow> live6 (ca_step io thread6 s)"
  using less_cases(1)[of "ca_at s"] by (auto simp: live6_def cancel_defs)

lemma live7_step: "live7 s \<Longrightarrow> live7 (ca_step io thread7 s)"
  using less_cases(2)[of "ca_at s"] by (auto simp: live7_def cancel_defs)

lemma ended_stays: "ca_ended s \<Longrightarrow> ca_ended ((ca_step io p ^^ n) s)"
  by (rule steps_keep) (auto simp: ca_step_def)

lemma ended_later:
  assumes "ca_ended ((ca_step io p ^^ k) s)" "k \<le> m"
  shows "ca_ended ((ca_step io p ^^ m) s)"
proof -
  have "(ca_step io p ^^ m) s = (ca_step io p ^^ (m - k)) ((ca_step io p ^^ k) s)"
    using assms(2) funpow_add[of "m - k" k "ca_step io p"] by (simp add: fun_eq_iff)
  then show ?thesis using ended_stays[OF assms(1)] by simp
qed

lemma live6_ends: "live6 s \<Longrightarrow> ca_ended ((ca_step io thread6 ^^ 4) (s\<lparr>ca_asked := True\<rparr>))"
proof -
  assume l: "live6 s"
  then have "ca_at s = 0 \<or> ca_at s = 1 \<or> ca_at s = 2 \<or> ca_at s = 3" using less_cases(1) by (simp add: live6_def)
  then show ?thesis using l by (elim disjE; cases io) (simp_all add: live6_def cancel_defs eval_nat_numeral)
qed

lemma live7_ends: "live7 s \<Longrightarrow> ca_ended ((ca_step io thread7 ^^ 3) (s\<lparr>ca_asked := True\<rparr>))"
proof -
  assume l: "live7 s"
  then have "ca_at s = 0 \<or> ca_at s = 1 \<or> ca_at s = 2 \<or> ca_at s = 3 \<or> ca_at s = 4" using less_cases(2) by (simp add: live7_def)
  then show ?thesis using l by (elim disjE; cases io) (simp_all add: live7_def cancel_defs eval_nat_numeral)
qed

definition late7 :: "cancel_thread \<Rightarrow> bool" where
  "late7 s = (live7 s \<and> 2 \<le> ca_at s)"

lemma late7_step: "late7 s \<Longrightarrow> late7 (ca_step io thread7 s)"
  using less_cases(2)[of "ca_at s"] by (auto simp: late7_def live7_def cancel_defs)

lemma late7_ends: "late7 s \<Longrightarrow> ca_ended (ca_step io thread7 (s\<lparr>ca_asked := True\<rparr>))"
  using less_cases(2)[of "ca_at s"] by (auto simp: late7_def live7_def cancel_defs)

text \<open>
  Thread 6 ends whenever it was cancelled, within four of its statements, always in \<open>sleep\<close>; thread 7, once its
  type is asynchronous, before its next statement, and within three when it was cancelled earlier.
\<close>

theorem cancelled_threads_end:
  "(4 \<le> m \<longrightarrow> cancel_type_test io n m) \<and> (3 \<le> m \<longrightarrow> testcancel_test io n m) \<and> (2 \<le> n \<longrightarrow> testcancel_test io n 1)"
proof -
  let ?s = "(ca_step io thread6 ^^ n) ca_start" and ?t = "(ca_step io thread7 ^^ n) ca_start"
  have s: "live6 ?s" by (rule steps_keep[of live6, OF _ live6_step]) (simp_all add: live6_def ca_start_def)
  have t: "live7 ?t" by (rule steps_keep[of live7, OF _ live7_step]) (simp_all add: live7_def ca_start_def)
  have "ca_ended ((ca_step io thread7 ^^ 1) (?t\<lparr>ca_asked := True\<rparr>))" if "2 \<le> n"
  proof -
    have k: "n = (n - 2) + 2" using that by simp
    have "late7 ((ca_step io thread7 ^^ 2) ca_start)"
      by (cases io) (simp_all add: late7_def live7_def ca_start_def cancel_defs eval_nat_numeral)
    then have "late7 ((ca_step io thread7 ^^ (n - 2)) ((ca_step io thread7 ^^ 2) ca_start))"
      by (rule steps_keep[of late7, OF _ late7_step])
    then have "late7 ?t" using funpow_add[of "n - 2" 2 "ca_step io thread7"] k by (metis comp_apply)
    then show ?thesis using late7_ends by simp
  qed
  moreover have "ca_ended (ca_test io thread6 n m)" if "4 \<le> m" unfolding ca_test_def by (rule ended_later[OF live6_ends[OF s] that])
  moreover have "ca_ended (ca_test io thread7 n m)" if "3 \<le> m" unfolding ca_test_def by (rule ended_later[OF live7_ends[OF t] that])
  ultimately show ?thesis by (simp add: cancel_type_test_def testcancel_test_def ca_test_def)
qed

end
