(* ===== verification/Cond_Two.thy ===== *)
theory Cond_Two
  imports Thread_Demos Locks
begin

text \<open>
  Three threads, a lock and a condition variable (\<open>cond_test2\<close> of src/04_thread/main.cpp): thread 21 counts,
  writes a word into the shared array under the lock and signals; threads 22 and 23 wait and print the array.
  The word is stored character by character, so that a thread that printed without the lock could see a
  part of it; a waiting thread may also wake without a signal.
\<close>

subsection \<open>The threads\<close>

datatype pc21 = Show21 | Lock21 | Copy21 nat | Unlock21 | Signal21

record cond_two =
  ct_cnt :: int
  ct_shown :: "int list"
  ct_buf :: "char list"
  ct_lock :: mutex
  ct_pc :: pc21
  ct_wait :: "nat \<Rightarrow> wait_pc"
  ct_printed :: "(nat \<times> string) list"

definition ct_start :: cond_two where
  "ct_start = \<lparr>ct_cnt = 0, ct_shown = [], ct_buf = replicate LINE32 NUL, ct_lock = mutex_init, ct_pc = Show21,
     ct_wait = (\<lambda>_. At_Lock), ct_printed = []\<rparr>"

definition HELLO :: string where "HELLO = ''hello''"

text \<open>\<open>pthread_cond_signal\<close> wakes a thread that sleeps: \<open>w\<close> if it does, else the other one.\<close>

definition wake_one :: "nat \<Rightarrow> nat \<Rightarrow> (nat \<Rightarrow> wait_pc) \<Rightarrow> nat \<Rightarrow> wait_pc" where
  "wake_one w v pc = (if pc w = Asleep then pc(w := Woken) else if pc v = Asleep then pc(v := Woken) else pc)"

definition thread21 :: "bool \<Rightarrow> cond_two \<Rightarrow> cond_two option result" where
  "thread21 w s =
     (case ct_pc s of
        Show21 \<Rightarrow>
          if ct_cnt s = INT_MAX then Inl (Int_Overflow (ct_cnt s))
          else Inr (Some (s\<lparr>ct_cnt := ct_cnt s + 1, ct_shown := ct_shown s @ [ct_cnt s + 1], ct_pc := Lock21\<rparr>))
      | Lock21 \<Rightarrow> Inr (map_option (\<lambda>m. s\<lparr>ct_lock := m, ct_pc := Copy21 0\<rparr>) (mutex_lock 21 (ct_lock s)))
      | Copy21 k \<Rightarrow>
          bindR (store (ct_buf s) (int k) ((HELLO @ [NUL]) ! k)) (\<lambda>b.
            Inr (Some (s\<lparr>ct_buf := b, ct_pc := (if k < length HELLO then Copy21 (Suc k) else Unlock21)\<rparr>)))
      | Unlock21 \<Rightarrow> Inr (map_option (\<lambda>m. s\<lparr>ct_lock := m, ct_pc := Signal21\<rparr>) (mutex_unlock 21 (ct_lock s)))
      | Signal21 \<Rightarrow>
          Inr (Some (s\<lparr>ct_wait := (if w then wake_one 22 23 (ct_wait s) else wake_one 23 22 (ct_wait s)), ct_pc := Show21\<rparr>)))"

definition thread22 :: "nat \<Rightarrow> cond_two \<Rightarrow> cond_two option result" where
  "thread22 t s =
     (let go = (\<lambda>pc. (ct_wait s)(t := pc)) in
      case ct_wait s t of
        At_Lock \<Rightarrow> Inr (map_option (\<lambda>m. s\<lparr>ct_lock := m, ct_wait := go At_Wait\<rparr>) (mutex_lock t (ct_lock s)))
      | At_Wait \<Rightarrow> Inr (map_option (\<lambda>m. s\<lparr>ct_lock := m, ct_wait := go Asleep\<rparr>) (mutex_unlock t (ct_lock s)))
      | Asleep \<Rightarrow> Inr None
      | Woken \<Rightarrow> Inr (map_option (\<lambda>m. s\<lparr>ct_lock := m, ct_wait := go At_Print\<rparr>) (mutex_lock t (ct_lock s)))
      | At_Print \<Rightarrow> bindR (cstr (ct_buf s) 0) (\<lambda>l. Inr (Some (s\<lparr>ct_printed := ct_printed s @ [(t, l)], ct_wait := go At_Unlock\<rparr>)))
      | At_Unlock \<Rightarrow> Inr (map_option (\<lambda>m. s\<lparr>ct_lock := m, ct_wait := go At_Lock\<rparr>) (mutex_unlock t (ct_lock s))))"

inductive ct_step :: "cond_two \<Rightarrow> cond_two \<Rightarrow> bool" where
  writes: "thread21 w s = Inr (Some s') \<Longrightarrow> ct_step s s'"
| waits: "t \<in> {22, 23} \<Longrightarrow> thread22 t s = Inr (Some s') \<Longrightarrow> ct_step s s'"
| wakes: "t \<in> {22, 23} \<Longrightarrow> ct_wait s t = Asleep \<Longrightarrow> ct_step s (s\<lparr>ct_wait := (ct_wait s)(t := Woken)\<rparr>)"

inductive_cases ct_stepE: "ct_step s s'"

subsection \<open>One thread at a time has the lock\<close>

fun in21 :: "pc21 \<Rightarrow> bool" where
  "in21 (Copy21 k) = True"
| "in21 Unlock21 = True"
| "in21 pc = False"

fun in_wait :: "wait_pc \<Rightarrow> bool" where
  "in_wait At_Wait = True"
| "in_wait At_Print = True"
| "in_wait At_Unlock = True"
| "in_wait pc = False"

definition ct_inside :: "cond_two \<Rightarrow> nat \<Rightarrow> bool" where
  "ct_inside s t = (if t = 21 then in21 (ct_pc s) else t \<in> {22, 23} \<and> in_wait (ct_wait s t))"

lemma wake_one_in [simp]: "in_wait (wake_one w v pc t) = in_wait (pc t)"
  by (auto simp: wake_one_def)

lemma thread21_inside:
  assumes "thread21 w s = Inr (Some s')" "\<forall>t. ct_inside s t = (ct_lock s = Some t)"
  shows "ct_inside s' t = (ct_lock s' = Some t)"
  using assms(1) assms(2)[rule_format, of t] assms(2)[rule_format, of 21]
  by (cases "ct_pc s"; cases "ct_lock s") (auto simp: thread21_def ct_inside_def bindR_def split: if_splits sum.splits)

lemma thread22_inside:
  assumes "thread22 u s = Inr (Some s')" "u \<in> {22, 23}" "\<forall>t. ct_inside s t = (ct_lock s = Some t)"
  shows "ct_inside s' t = (ct_lock s' = Some t)"
proof (cases "t = u")
  case True
  then show ?thesis using assms(1,2) assms(3)[rule_format, of u]
    by (cases "ct_wait s u"; cases "ct_lock s") (auto simp: thread22_def ct_inside_def bindR_def Let_def split: sum.splits)
next
  case False
  then show ?thesis using assms(1,2) assms(3)[rule_format, of u] assms(3)[rule_format, of t]
    by (cases "ct_wait s u"; cases "ct_lock s") (auto simp: thread22_def ct_inside_def bindR_def Let_def split: sum.splits if_splits)
qed

interpretation ct: mutex_users "\<lambda>s. s = ct_start" ct_step ct_lock ct_inside
proof (unfold_locales, goal_cases)
  case (1 s t)
  then show ?case by (simp add: ct_start_def mutex_init_def ct_inside_def)
next
  case (2 s s')
  note own = 2(2)
  have "ct_inside s' t = (ct_lock s' = Some t)" for t
    using 2(1)
  proof (cases rule: ct_step.cases)
    case (writes w)
    then show ?thesis using thread21_inside[OF _ own] by simp
  next
    case (waits u)
    then show ?thesis using thread22_inside[OF _ _ own] by simp
  next
    case (wakes u)
    then have "ct_inside s' t = ct_inside s t" "ct_lock s' = ct_lock s" by (auto simp: ct_inside_def)
    then show ?thesis using own by simp
  qed
  then show ?case by simp
qed

subsection \<open>The word is printed whole\<close>

text \<open>The array with the first \<open>k\<close> characters of the word.\<close>

definition word_at :: "nat \<Rightarrow> char list" where
  "word_at k = take k HELLO @ replicate (LINE32 - k) NUL"

definition shown_to :: "int list \<Rightarrow> int \<Rightarrow> bool" where
  "shown_to xs c = (\<exists>n. xs = map int [1..<Suc n] \<and> c = int n)"

definition words_ok :: "(nat \<times> string) list \<Rightarrow> bool" where
  "words_ok ps = (snd ` set ps \<subseteq> {[], HELLO})"

lemma shown_to_next [simp]: "shown_to xs c \<Longrightarrow> shown_to (xs @ [c + 1]) (c + 1)"
proof -
  assume "shown_to xs c"
  then obtain n where "xs = map int [1..<Suc n]" "c = int n" by (auto simp: shown_to_def)
  then have "xs @ [c + 1] = map int [1..<Suc (Suc n)] \<and> c + 1 = int (Suc n)" by simp
  then show ?thesis unfolding shown_to_def by blast
qed

lemma shown_to_start [simp]: "shown_to [] 0" by (simp add: shown_to_def)

lemma words_ok_snoc [simp]: "words_ok (ps @ [(t, l)]) \<longleftrightarrow> words_ok ps \<and> (l = [] \<or> l = HELLO)"
  by (auto simp: words_ok_def)

definition ct_data :: "cond_two \<Rightarrow> bool" where
  "ct_data s =
     ((case ct_pc s of Copy21 k \<Rightarrow> k \<le> 5 \<and> ct_buf s \<in> {word_at k, word_at 5} | _ \<Rightarrow> ct_buf s \<in> {word_at 0, word_at 5})
      \<and> shown_to (ct_shown s) (ct_cnt s) \<and> words_ok (ct_printed s))"

lemma word_store: "k \<le> 5 \<Longrightarrow> store (word_at k) (int k) ((HELLO @ [NUL]) ! k) = Inr (word_at (min 5 (Suc k)))"
  "k \<le> 5 \<Longrightarrow> store (word_at 5) (int k) ((HELLO @ [NUL]) ! k) = Inr (word_at 5)"
proof -
  assume "k \<le> 5"
  then have k: "k = 0 \<or> k = 1 \<or> k = 2 \<or> k = 3 \<or> k = 4 \<or> k = 5" by linarith
  have w: "\<forall>k \<in> {0, 1, 2, 3, 4, 5}. store (word_at k) (int k) ((HELLO @ [NUL]) ! k) = Inr (word_at (min 5 (Suc k)))
    \<and> store (word_at 5) (int k) ((HELLO @ [NUL]) ! k) = Inr (word_at 5)"
    by code_simp
  show "store (word_at k) (int k) ((HELLO @ [NUL]) ! k) = Inr (word_at (min 5 (Suc k)))"
    "store (word_at 5) (int k) ((HELLO @ [NUL]) ! k) = Inr (word_at 5)"
    using w k by blast+
qed

lemma word_text: "cstr (word_at 0) 0 = Inr []" "cstr (word_at 5) 0 = Inr HELLO"
  by code_simp+

lemma thread21_data:
  assumes "ct_data s" "thread21 w s = Inr (Some s')"
  shows "ct_data s'"
proof (cases "ct_pc s")
  case Show21
  then show ?thesis using assms by (auto simp: thread21_def ct_data_def split: if_splits)
next
  case (Copy21 k)
  then have k: "k \<le> 5" "ct_buf s \<in> {word_at k, word_at 5}" using assms(1) by (simp_all add: ct_data_def)
  then obtain b where "store (ct_buf s) (int k) ((HELLO @ [NUL]) ! k) = Inr b" "b \<in> {word_at (min 5 (Suc k)), word_at 5}"
    using word_store[of k] by auto
  moreover have "length HELLO = 5" by (simp add: HELLO_def)
  ultimately show ?thesis using assms Copy21 k(1)
    by (cases "k < 5") (auto simp: thread21_def ct_data_def min_def)
qed (use assms in \<open>auto simp: thread21_def ct_data_def\<close>)

lemma thread22_data:
  assumes "ct_data s" "thread22 t s = Inr (Some s')" "t \<in> {22, 23}" "\<forall>t. ct_inside s t = (ct_lock s = Some t)"
  shows "ct_data s'"
proof (cases "ct_wait s t = At_Print")
  case True
  then have "ct_lock s = Some t" using assms(3) assms(4)[rule_format, of t] by (auto simp: ct_inside_def)
  then have "\<not> ct_inside s 21" using assms(3) assms(4)[rule_format, of 21] by auto
  then have "\<And>k. ct_pc s \<noteq> Copy21 k" by (auto simp: ct_inside_def)
  then have "ct_buf s \<in> {word_at 0, word_at 5}" using assms(1) by (auto simp: ct_data_def split: pc21.splits)
  then show ?thesis using True assms(1,2) by (auto simp: thread22_def ct_data_def word_text split: pc21.splits)
next
  case False
  then show ?thesis using assms(1,2)
    by (cases "ct_wait s t") (auto simp: thread22_def ct_data_def Let_def split: pc21.splits)
qed

lemma ct_reachable:
  assumes "ct_step\<^sup>*\<^sup>* ct_start s"
  shows "ct_data s"
  using assms
proof (induction rule: rtranclp_induct)
  case base
  show ?case by (simp add: ct_data_def ct_start_def word_at_def words_ok_def)
next
  case (step s s')
  have own: "\<forall>t. ct_inside s t = (ct_lock s = Some t)" using ct.owner_inside[OF step(1)] by simp
  from step(2) show ?case
  proof (rule ct_stepE, goal_cases)
    case (1 w)
    then show ?case using thread21_data[OF step(3)] by blast
  next
    case (2 t)
    then show ?case using thread22_data[OF step(3) _ _ own] by blast
  next
    case (3 t)
    then show ?case using step(3) by (auto simp: ct_data_def split: pc21.splits)
  qed
qed

text \<open>
  Whatever the order of the threads, and however often one wakes without a signal: every line that is
  printed is the whole word, or empty when nothing was written yet; the numbers shown are 1, 2, 3 and so on;
  and nothing goes wrong until the counter overflows.
\<close>

theorem cond_two_whole:
  assumes "ct_step\<^sup>*\<^sup>* ct_start s"
  shows "snd ` set (ct_printed s) \<subseteq> {[], ''hello''} \<and> ct_shown s = map int [1..<Suc (nat (ct_cnt s))]
    \<and> (\<forall>w f. thread21 w s = Inl f \<longrightarrow> f = Int_Overflow INT_MAX) \<and> (\<forall>t \<in> {22, 23}. is_ok (thread22 t s))"
proof (intro conjI allI ballI impI)
  have d: "ct_data s" using ct_reachable[OF assms] .
  show "snd ` set (ct_printed s) \<subseteq> {[], ''hello''}" using d unfolding ct_data_def words_ok_def HELLO_def by (elim conjE)
  obtain n where "ct_shown s = map int [1..<Suc n]" "ct_cnt s = int n" using d unfolding ct_data_def shown_to_def by blast
  then show "ct_shown s = map int [1..<Suc (nat (ct_cnt s))]" by (simp only: nat_int)
  show "f = Int_Overflow INT_MAX" if "thread21 w s = Inl f" for w f
  proof (cases "ct_pc s")
    case (Copy21 k)
    then have "k \<le> 5" "ct_buf s \<in> {word_at k, word_at 5}" using d by (simp_all add: ct_data_def)
    then show ?thesis using that Copy21 by (auto simp: thread21_def word_store)
  qed (use that in \<open>auto simp: thread21_def split: if_splits\<close>)
  show "is_ok (thread22 t s)" if "t \<in> {22, 23}" for t
  proof (cases "ct_wait s t = At_Print")
    case True
    have own: "\<forall>t. ct_inside s t = (ct_lock s = Some t)" using ct.owner_inside[OF assms] by simp
    have "ct_lock s = Some t" using own[rule_format, of t] that True by (auto simp: ct_inside_def)
    then have "\<not> ct_inside s 21" using own[rule_format, of 21] that by auto
    then have "ct_buf s \<in> {word_at 0, word_at 5}" using d by (auto simp: ct_data_def ct_inside_def split: pc21.splits)
    then show ?thesis using True by (auto simp: thread22_def word_text)
  qed (cases "ct_wait s t"; simp add: thread22_def Let_def)
qed

end
