(* ===== verification/Pipe_Duplex.thy ===== *)
theory Pipe_Duplex
  imports Store_Msg
begin

text \<open>
  Two processes that send each other a text through pipes (src/41_inter_process_communication/main.cpp):
  one pipe for one direction (\<open>pipe_test\<close>), one pipe for both (\<open>pipe_test2\<close>), and a pipe for each
  (\<open>pipe_test3\<close>).
\<close>

subsection \<open>The processes\<close>

definition TXT1 :: string where "TXT1 = ''hello'' @ SP # ''world''"
definition TXT2 :: string where "TXT2 = ''hello'' @ SP # ''world'' @ SP # ''you'' @ SP # ''too''"

text \<open>
  Where a process is: before its first and its second call, before it prints, at its end. The pipes and what
  the two have printed.
\<close>

datatype dx_pc = Dx_First | Dx_Second | Dx_Ended

record duplex =
  dx_pipe :: "nat \<Rightarrow> string"
  dx_child :: dx_pc
  dx_parent :: dx_pc
  dx_child_out :: "string list"
  dx_parent_out :: "string list"

definition dx_start :: duplex where
  "dx_start = \<lparr>dx_pipe = (\<lambda>_. []), dx_child = Dx_First, dx_parent = Dx_First, dx_child_out = [], dx_parent_out = []\<rparr>"

text \<open>
  \<open>read\<close> into the array, the terminator behind it, and what \<open>%s\<close> prints of it, with the rest of the pipe;
  \<open>None\<close>: the pipe is empty, and as both processes hold its writing end \<open>read\<close> waits. \<open>write\<close> is of the whole
  array, with its terminator.
\<close>

definition dx_read :: "string \<Rightarrow> (string \<times> string) option result" where
  "dx_read p =
     (if p = [] then Inr None
      else let d = take STORE_BUF p in
           bindR (blit (replicate STORE_BUF NUL) 0 d) (\<lambda>b.
           bindR (store b (int (length d)) NUL) (\<lambda>b.
           bindR (cstr b 0) (\<lambda>t. Inr (Some (t, drop STORE_BUF p))))))"

definition dx_write :: "nat \<Rightarrow> string \<Rightarrow> duplex \<Rightarrow> duplex" where
  "dx_write i t s = s\<lparr>dx_pipe := (dx_pipe s)(i := dx_pipe s i @ t @ [NUL])\<rparr>"

text \<open>
  The child writes to pipe 0, then reads from pipe \<open>r\<close>; the parent reads from pipe 0, then writes to pipe \<open>r\<close>.
  For \<open>pipe_test2\<close> \<open>r\<close> is 0, for \<open>pipe_test3\<close> it is 1.
\<close>

definition dx_child_step :: "nat \<Rightarrow> duplex \<Rightarrow> duplex option result" where
  "dx_child_step r s =
     (case dx_child s of
        Dx_First \<Rightarrow> Inr (Some ((dx_write 0 TXT1 s)\<lparr>dx_child := Dx_Second\<rparr>))
      | Dx_Second \<Rightarrow>
          bindR (dx_read (dx_pipe s r)) (\<lambda>q. Inr (map_option (\<lambda>(t, p).
            s\<lparr>dx_pipe := (dx_pipe s)(r := p), dx_child_out := dx_child_out s @ [t], dx_child := Dx_Ended\<rparr>) q))
      | Dx_Ended \<Rightarrow> Inr None)"

definition dx_parent_step :: "nat \<Rightarrow> duplex \<Rightarrow> duplex option result" where
  "dx_parent_step r s =
     (case dx_parent s of
        Dx_First \<Rightarrow>
          bindR (dx_read (dx_pipe s 0)) (\<lambda>q. Inr (map_option (\<lambda>(t, p).
            s\<lparr>dx_pipe := (dx_pipe s)(0 := p), dx_parent_out := dx_parent_out s @ [t], dx_parent := Dx_Second\<rparr>) q))
      | Dx_Second \<Rightarrow> Inr (Some ((dx_write r TXT2 s)\<lparr>dx_parent := Dx_Ended\<rparr>))
      | Dx_Ended \<Rightarrow> Inr None)"

text \<open>A schedule: \<open>True\<close> is a turn of the child, a process that waits does not move.\<close>

fun dx_run :: "nat \<Rightarrow> bool list \<Rightarrow> duplex \<Rightarrow> duplex result" where
  "dx_run r [] s = Inr s"
| "dx_run r (w # ws) s =
     bindR (if w then dx_child_step r s else dx_parent_step r s) (\<lambda>q. dx_run r ws (case q of None \<Rightarrow> s | Some s' \<Rightarrow> s'))"

definition pipe_test2 :: "bool list \<Rightarrow> duplex result" where "pipe_test2 ws = dx_run 0 ws dx_start"
definition pipe_test3 :: "bool list \<Rightarrow> duplex result" where "pipe_test3 ws = dx_run 1 ws dx_start"

text \<open>One direction: the child only writes, the parent only reads and prints.\<close>

definition pipe_test :: "string option result" where
  "pipe_test = map_sum id (map_option fst) (dx_read (TXT1 @ [NUL]))"

definition dx_over :: "nat \<Rightarrow> duplex \<Rightarrow> bool" where
  "dx_over r s = (dx_child_step r s = Inr None \<and> dx_parent_step r s = Inr None)"

subsection \<open>Who gets what\<close>

lemma dx_read_empty: "dx_read [] = Inr None" by (simp add: dx_read_def)

lemma dx_read_TXT1: "dx_read (TXT1 @ [NUL]) = Inr (Some (TXT1, []))"
  by (simp add: dx_read_def TXT1_def STORE_BUF_def blit_def store_def cstr_def eval_nat_numeral)

lemma dx_read_TXT2: "dx_read (TXT2 @ [NUL]) = Inr (Some (TXT2, []))"
  by (simp add: dx_read_def TXT2_def STORE_BUF_def blit_def store_def cstr_def eval_nat_numeral)

text \<open>The states a run with one pipe can be in: pipe, child, parent, and what they printed.\<close>

definition dx_view :: "duplex \<Rightarrow> string \<times> string \<times> dx_pc \<times> dx_pc \<times> string list \<times> string list" where
  "dx_view s = (dx_pipe s 0, dx_pipe s 1, dx_child s, dx_parent s, dx_child_out s, dx_parent_out s)"

definition one_pipe :: "(string \<times> string \<times> dx_pc \<times> dx_pc \<times> string list \<times> string list) set" where
  "one_pipe =
     {([], [], Dx_First, Dx_First, [], []), (TXT1 @ [NUL], [], Dx_Second, Dx_First, [], []),
      ([], [], Dx_Second, Dx_Second, [], [TXT1]), (TXT2 @ [NUL], [], Dx_Second, Dx_Ended, [], [TXT1]),
      ([], [], Dx_Ended, Dx_Ended, [TXT2], [TXT1]), ([], [], Dx_Ended, Dx_First, [TXT1], [])}"

definition two_pipes :: "(string \<times> string \<times> dx_pc \<times> dx_pc \<times> string list \<times> string list) set" where
  "two_pipes =
     {([], [], Dx_First, Dx_First, [], []), (TXT1 @ [NUL], [], Dx_Second, Dx_First, [], []),
      ([], [], Dx_Second, Dx_Second, [], [TXT1]), ([], TXT2 @ [NUL], Dx_Second, Dx_Ended, [], [TXT1]),
      ([], [], Dx_Ended, Dx_Ended, [TXT2], [TXT1])}"

definition stays_in :: "(string \<times> string \<times> dx_pc \<times> dx_pc \<times> string list \<times> string list) set \<Rightarrow> duplex option result \<Rightarrow> bool" where
  "stays_in V q = (case q of Inl f \<Rightarrow> False | Inr None \<Rightarrow> True | Inr (Some s) \<Rightarrow> dx_view s \<in> V)"

lemma stays_in_simps [simp]: "\<not> stays_in V (Inl f)" "stays_in V (Inr None)" "stays_in V (Inr (Some s)) \<longleftrightarrow> dx_view s \<in> V"
  by (simp_all add: stays_in_def)

lemmas dx_steps = dx_child_step_def dx_parent_step_def dx_write_def dx_read_empty dx_read_TXT1 dx_read_TXT2 dx_view_def

lemma one_pipe_step: "dx_view s \<in> one_pipe \<Longrightarrow> stays_in one_pipe (dx_child_step 0 s) \<and> stays_in one_pipe (dx_parent_step 0 s)"
  unfolding one_pipe_def by (auto simp: dx_steps)

lemma two_pipes_step: "dx_view s \<in> two_pipes \<Longrightarrow> stays_in two_pipes (dx_child_step 1 s) \<and> stays_in two_pipes (dx_parent_step 1 s)"
  unfolding two_pipes_def by (auto simp: dx_steps)

lemma dx_run_view:
  assumes "\<And>s. dx_view s \<in> V \<Longrightarrow> stays_in V (dx_child_step r s) \<and> stays_in V (dx_parent_step r s)"
  shows "dx_view s \<in> V \<Longrightarrow> \<exists>s'. dx_run r ws s = Inr s' \<and> dx_view s' \<in> V"
proof (induction ws arbitrary: s)
  case (Cons w ws)
  have "stays_in V (if w then dx_child_step r s else dx_parent_step r s)" using assms[OF Cons.prems] by simp
  then obtain q where q: "(if w then dx_child_step r s else dx_parent_step r s) = Inr q" "\<And>s'. q = Some s' \<Longrightarrow> dx_view s' \<in> V"
    unfolding stays_in_def by (auto split: sum.splits option.splits)
  have "dx_view (case q of None \<Rightarrow> s | Some s' \<Rightarrow> s') \<in> V" using Cons.prems q(2) by (cases q) auto
  then show ?case using Cons.IH q(1) by simp
qed simp

text \<open>
  With one pipe for both directions there are two ends, by who reads first: the two exchange their texts,
  or the child reads its own text back and the parent waits for ever. Which one depends on the schedule
  only; the calls of \<open>sleep\<close> make the first likely.
\<close>

theorem pipe_test2_ends:
  "(\<exists>s. pipe_test2 ws = Inr s \<and> (dx_over 0 s \<longrightarrow> (dx_parent_out s, dx_child_out s) \<in> {([TXT1], [TXT2]), ([], [TXT1])}))
   \<and> (\<exists>s. pipe_test2 ([True, True] @ ws) = Inr s \<and> dx_over 0 s \<and> dx_parent s = Dx_First \<and> dx_child_out s = [TXT1])
   \<and> (\<exists>s. pipe_test2 ([True, False, False, True] @ ws) = Inr s \<and> dx_over 0 s \<and> dx_child_out s = [TXT2])"
proof (intro conjI)
  have "dx_view dx_start \<in> one_pipe" by (simp add: dx_view_def dx_start_def one_pipe_def)
  then obtain s where "pipe_test2 ws = Inr s" "dx_view s \<in> one_pipe"
    unfolding pipe_test2_def using dx_run_view[OF one_pipe_step] by blast
  then show "\<exists>s. pipe_test2 ws = Inr s \<and> (dx_over 0 s \<longrightarrow> (dx_parent_out s, dx_child_out s) \<in> {([TXT1], [TXT2]), ([], [TXT1])})"
    unfolding one_pipe_def by (auto simp: dx_over_def dx_steps)
  have over: "dx_over 0 s \<Longrightarrow> dx_run 0 ws s = Inr s" for s by (induction ws) (auto simp: dx_over_def)
  let ?a = "\<lparr>dx_pipe = \<lambda>_. [], dx_child = Dx_Ended, dx_parent = Dx_First, dx_child_out = [TXT1], dx_parent_out = []\<rparr>"
  let ?b = "\<lparr>dx_pipe = \<lambda>_. [], dx_child = Dx_Ended, dx_parent = Dx_Ended, dx_child_out = [TXT2], dx_parent_out = [TXT1]\<rparr>"
  have "dx_over 0 ?a" "dx_over 0 ?b" by (simp_all add: dx_over_def dx_steps)
  moreover have "pipe_test2 ([True, True] @ ws) = dx_run 0 ws ?a"
    by (simp add: pipe_test2_def dx_start_def dx_steps fun_upd_idem)
  moreover have "pipe_test2 ([True, False, False, True] @ ws) = dx_run 0 ws ?b"
    by (simp add: pipe_test2_def dx_start_def dx_steps fun_upd_idem)
  ultimately show "\<exists>s. pipe_test2 ([True, True] @ ws) = Inr s \<and> dx_over 0 s \<and> dx_parent s = Dx_First \<and> dx_child_out s = [TXT1]"
    "\<exists>s. pipe_test2 ([True, False, False, True] @ ws) = Inr s \<and> dx_over 0 s \<and> dx_child_out s = [TXT2]"
    using over by simp_all
qed

text \<open>With a pipe for each direction the texts are exchanged in every order of the processes.\<close>

theorem pipe_test3_exchanges:
  "\<exists>s. pipe_test3 ws = Inr s \<and> (dx_over 1 s \<longrightarrow> dx_parent_out s = [TXT1] \<and> dx_child_out s = [TXT2])"
proof -
  have "dx_view dx_start \<in> two_pipes" by (simp add: dx_view_def dx_start_def two_pipes_def)
  then obtain s where "pipe_test3 ws = Inr s" "dx_view s \<in> two_pipes"
    unfolding pipe_test3_def using dx_run_view[OF two_pipes_step] by blast
  then show ?thesis unfolding two_pipes_def by (auto simp: dx_over_def dx_steps)
qed

theorem pipe_test_prints: "pipe_test = Inr (Some ''hello world'')"
  by (simp add: pipe_test_def dx_read_TXT1) (simp add: TXT1_def)

end
