(* ===== verification/Pv_Sem.thy ===== *)
theory Pv_Sem
  imports Prelude
begin

text \<open>
  A section guarded by one System V semaphore whose operations are undone when a process ends: \<open>pv\<close> and
  \<open>sem_test\<close> of src/83_multi_process/main.cpp.
\<close>

subsection \<open>The semaphore\<close>

text \<open>Where a process is: before P, in the section, after V, gone.\<close>

datatype pv_pc = Pv_Before | Pv_Inside | Pv_After | Pv_Gone

record pv_state =
  pv_val :: int
  pv_undo :: "bool \<Rightarrow> int"
  pv_at :: "bool \<Rightarrow> pv_pc"
  pv_removed :: bool

text \<open>Process \<open>True\<close> is the child. The value is set to 1 before \<open>fork\<close>.\<close>

definition pv_start :: pv_state where
  "pv_start = \<lparr>pv_val = 1, pv_undo = (\<lambda>_. 0), pv_at = (\<lambda>_. Pv_Before), pv_removed = False\<rparr>"

text \<open>
  \<open>semop\<close> with \<open>SEM_UNDO\<close>: it waits (\<open>None\<close>) while the value would become negative, and takes the operation off
  the adjustment that is added when the process ends. On a set that was removed it fails, which \<open>pv\<close> does
  not look at.
\<close>

definition pv :: "bool \<Rightarrow> int \<Rightarrow> pv_state \<Rightarrow> pv_state option" where
  "pv p n s =
     (if pv_removed s then Some s
      else if pv_val s + n < 0 then None
      else Some (s\<lparr>pv_val := pv_val s + n, pv_undo := (pv_undo s)(p := pv_undo s p - n)\<rparr>))"

definition pv_exit :: "bool \<Rightarrow> pv_state \<Rightarrow> pv_state" where
  "pv_exit p s = s\<lparr>pv_val := pv_val s + pv_undo s p, pv_undo := (pv_undo s)(p := 0), pv_at := (pv_at s)(p := Pv_Gone)\<rparr>"

text \<open>A turn: P, V, and the end; the parent waits for its child, removes the set, and ends.\<close>

definition pv_turn :: "bool \<Rightarrow> pv_state \<Rightarrow> pv_state option" where
  "pv_turn p s =
     (case pv_at s p of
        Pv_Before \<Rightarrow> map_option (\<lambda>s. s\<lparr>pv_at := (pv_at s)(p := Pv_Inside)\<rparr>) (pv p (- 1) s)
      | Pv_Inside \<Rightarrow> map_option (\<lambda>s. s\<lparr>pv_at := (pv_at s)(p := Pv_After)\<rparr>) (pv p 1 s)
      | Pv_After \<Rightarrow>
          if p then Some (pv_exit p s)
          else if pv_at s True = Pv_Gone then Some (pv_exit p (s\<lparr>pv_removed := True\<rparr>))
          else None
      | Pv_Gone \<Rightarrow> None)"

text \<open>The steps: a turn of a process, or a signal that kills one.\<close>

inductive pv_step :: "pv_state \<Rightarrow> pv_state \<Rightarrow> bool" where
  moves: "pv_turn p s = Some s' \<Longrightarrow> pv_step s s'"
| killed: "pv_at s p \<noteq> Pv_Gone \<Longrightarrow> pv_step s (pv_exit p s)"

inductive_cases pv_stepE: "pv_step s s'"

subsection \<open>Exclusion, also when a process dies inside\<close>

definition pv_in :: "pv_state \<Rightarrow> bool \<Rightarrow> int" where
  "pv_in s p = (if pv_at s p = Pv_Inside then 1 else 0)"

text \<open>The set is removed by the parent as its last act, when both are gone.\<close>

definition pv_inv :: "pv_state \<Rightarrow> bool" where
  "pv_inv s = (0 \<le> pv_val s \<and> pv_val s + pv_in s True + pv_in s False = 1 \<and> pv_undo s True = pv_in s True \<and> pv_undo s False = pv_in s False
     \<and> (pv_removed s \<longrightarrow> pv_at s True = Pv_Gone \<and> pv_at s False = Pv_Gone))"

lemma pv_turn_inv:
  assumes "pv_inv s" "pv_turn p s = Some s'"
  shows "pv_inv s'"
proof (cases "pv_at s p")
  case Pv_After
  then show ?thesis using assms
    by (cases p) (auto simp: pv_turn_def pv_inv_def pv_in_def pv_exit_def split: if_splits)
qed (use assms in \<open>cases p; auto simp: pv_turn_def pv_inv_def pv_in_def pv_def split: if_splits\<close>)+

lemma pv_exit_inv: "pv_inv s \<Longrightarrow> pv_inv (pv_exit p s)"
  by (cases p) (auto simp: pv_inv_def pv_in_def pv_exit_def)

lemma pv_reachable: "pv_step\<^sup>*\<^sup>* pv_start s \<Longrightarrow> pv_inv s"
proof (induction rule: rtranclp_induct)
  case base
  show ?case by (simp add: pv_inv_def pv_start_def pv_in_def)
next
  case (step s s')
  then show ?case by (auto elim!: pv_stepE intro: pv_turn_inv pv_exit_inv)
qed

text \<open>
  At most one process is in the section, in every order and whichever process is killed where; and a process
  waits only for the other one to leave the section, or the parent for its child: when neither can move,
  both are gone and the value is 1 again, or the parent was the one to be killed.
\<close>

theorem pv_excludes:
  assumes "pv_step\<^sup>*\<^sup>* pv_start s"
  shows "\<not> (pv_at s True = Pv_Inside \<and> pv_at s False = Pv_Inside)
    \<and> (pv_turn True s = None \<and> pv_turn False s = None \<longrightarrow> pv_at s True = Pv_Gone \<and> pv_at s False = Pv_Gone \<and> pv_val s = 1)"
proof -
  have i: "pv_inv s" using pv_reachable[OF assms] .
  have "\<not> (pv_at s True = Pv_Inside \<and> pv_at s False = Pv_Inside)" using i by (auto simp: pv_inv_def pv_in_def)
  moreover have "pv_at s True = Pv_Gone \<and> pv_at s False = Pv_Gone \<and> pv_val s = 1"
    if "pv_turn True s = None" "pv_turn False s = None"
    using i that by (cases "pv_at s True"; cases "pv_at s False") (auto simp: pv_inv_def pv_in_def pv_turn_def pv_def split: if_splits)
  ultimately show ?thesis by blast
qed

text \<open>A process that is killed inside the section leaves it free for the other one.\<close>

theorem pv_killed_inside:
  assumes "pv_step\<^sup>*\<^sup>* pv_start s" "pv_at s p = Pv_Inside" "pv_at s (\<not> p) = Pv_Before"
  shows "pv_turn (\<not> p) s = None \<and> (\<exists>s'. pv_turn (\<not> p) (pv_exit p s) = Some s' \<and> pv_at s' (\<not> p) = Pv_Inside)"
  using pv_reachable[OF assms(1)] assms(2,3)
  by (cases p) (auto simp: pv_inv_def pv_in_def pv_turn_def pv_def pv_exit_def)

end
