(* ===== verification/Line_Clients.thy ===== *)
theory Line_Clients
  imports Fork_Echo Store_Msg Select_Echo
begin

text \<open>
  The clients that go with the servers of src/40, 41 and 42: \<open>multi_process_client\<close> and \<open>store_msg_client\<close>
  are the same statements, \<open>io_client_test\<close> passes over an error in silence. What a session prints, how an
  error puts it out of step, and an answer that is too long.
\<close>

subsection \<open>The clients\<close>

definition store_msg_client_turn :: "echo_client \<Rightarrow> fork_turn result" where
  "store_msg_client_turn c = multi_process_client_turn c"

definition io_client_turn :: "echo_client \<Rightarrow> echo_turn result" where
  "io_client_turn c =
     bindR (fgets (ec_msg c) ECHO_BUF (ec_in c)) (\<lambda>(buf, inp).
       if is_quit buf then Inr Quits
       else bindR (cstr buf 0) (\<lambda>sent.
         case brecv ECHO_BUF (ec_sock c) of
           (Blocks, es) \<Rightarrow> Inr (Waits sent)
         | (Fails e, es) \<Rightarrow> Inr (Turn sent [] \<lparr>ec_in = inp, ec_msg = buf, ec_sock = es\<rparr>)
         | (Shut, es) \<Rightarrow> echo_print sent buf 0 inp es
         | (Got d, es) \<Rightarrow> bindR (blit buf 0 d) (\<lambda>buf. echo_print sent buf (int (length d)) inp es)))"

text \<open>\<open>n\<close> turns: what was sent and printed, and where the client is then, \<open>None\<close> when it has left or waits.\<close>

fun io_client_run :: "nat \<Rightarrow> echo_client \<Rightarrow> ((string \<times> string) list \<times> echo_client option) result" where
  "io_client_run 0 c = Inr ([], Some c)"
| "io_client_run (Suc n) c =
     bindR (io_client_turn c) (\<lambda>t.
       case t of
         Turn sent shown c' \<Rightarrow> bindR (io_client_run n c') (\<lambda>(ts, e). Inr ((sent, shown) # ts, e))
       | _ \<Rightarrow> Inr ([], None))"

fun fork_client_run :: "nat \<Rightarrow> echo_client \<Rightarrow> ((string \<times> string) list \<times> echo_client option) result" where
  "fork_client_run 0 c = Inr ([], Some c)"
| "fork_client_run (Suc n) c =
     bindR (multi_process_client_turn c) (\<lambda>t.
       case t of
         F_Turn sent shown c' \<Rightarrow> bindR (fork_client_run n c') (\<lambda>(ts, e). Inr ((sent, shown) # ts, e))
       | F_Error sent c' \<Rightarrow> bindR (fork_client_run n c') (\<lambda>(ts, e). Inr ((sent, ''read error'' @ [LF]) # ts, e))
       | _ \<Rightarrow> Inr ([], None))"

subsection \<open>Sessions\<close>

text \<open>What a turn does with a line and an answer that fits, the same for both clients but for what they print.\<close>

definition answer_ok :: "string \<Rightarrow> bool" where
  "answer_ok d = (d \<noteq> [] \<and> length d < ECHO_BUF \<and> NUL \<notin> set d)"

lemma io_client_answer:
  assumes "line_ok l" "answer_ok d" "length m = ECHO_BUF"
  shows "\<exists>m'. io_client_turn \<lparr>ec_in = l @ LF # r, ec_msg = m, ec_sock = Data d # es\<rparr>
      = Inr (Turn (l @ [LF]) (''msg from server '' @ d @ [LF]) \<lparr>ec_in = r, ec_msg = m', ec_sock = es\<rparr>) \<and> length m' = ECHO_BUF"
proof -
  obtain b where b: "fgets m ECHO_BUF (l @ LF # r) = Inr (b, r)" "length b = ECHO_BUF" "cstr b 0 = Inr (l @ [LF])" "\<not> is_quit b"
    using line_fgets[OF assms(1,3)] by blast
  obtain b1 b2 where "blit b 0 d = Inr b1" "store b1 (int (length d)) NUL = Inr b2" "length b2 = ECHO_BUF" "cstr b2 0 = Inr d"
    using recv_terminate[of d b] b(2) assms(2) by (auto simp: answer_ok_def)
  then show ?thesis using b assms(2) by (auto simp: io_client_turn_def echo_print_def answer_ok_def)
qed

lemma fork_client_answer:
  assumes "line_ok l" "answer_ok d" "length m = ECHO_BUF"
  shows "\<exists>m'. multi_process_client_turn \<lparr>ec_in = l @ LF # r, ec_msg = m, ec_sock = Data d # es\<rparr>
      = Inr (F_Turn (l @ [LF]) (''msg from server : '' @ d @ [LF]) \<lparr>ec_in = r, ec_msg = m', ec_sock = es\<rparr>) \<and> length m' = ECHO_BUF"
proof -
  obtain b where b: "fgets m ECHO_BUF (l @ LF # r) = Inr (b, r)" "length b = ECHO_BUF" "cstr b 0 = Inr (l @ [LF])" "\<not> is_quit b"
    using line_fgets[OF assms(1,3)] by blast
  obtain b1 b2 where "blit b 0 d = Inr b1" "store b1 (int (length d)) NUL = Inr b2" "length b2 = ECHO_BUF" "cstr b2 0 = Inr d"
    using recv_terminate[of d b] b(2) assms(2) by (auto simp: answer_ok_def)
  then show ?thesis using b assms(2) by (auto simp: multi_process_client_turn_def fork_print_def answer_ok_def)
qed

text \<open>Every line gets the next answer, whatever it is.\<close>

definition session :: "string \<Rightarrow> (string \<times> string) list \<Rightarrow> (string \<times> string) list" where
  "session pre lds = map (\<lambda>(l, d). (l @ [LF], pre @ d @ [LF])) lds"

definition typed_lines :: "(string \<times> string) list \<Rightarrow> string" where
  "typed_lines lds = concat (map (\<lambda>(l, d). l @ [LF]) lds)"

lemma typed_lines_simps [simp]: "typed_lines [] = []" "typed_lines ((l, d) # lds) = l @ LF # typed_lines lds"
  by (simp_all add: typed_lines_def)

theorem client_sessions:
  assumes "\<forall>(l, d) \<in> set lds. line_ok l \<and> answer_ok d" "length m = ECHO_BUF"
  shows "(\<exists>c. io_client_run (length lds) \<lparr>ec_in = typed_lines lds @ r, ec_msg = m, ec_sock = map (\<lambda>q. Data (snd q)) lds @ es\<rparr>
        = Inr (session ''msg from server '' lds, Some c) \<and> ec_in c = r \<and> ec_sock c = es)
    \<and> (\<exists>c. fork_client_run (length lds) \<lparr>ec_in = typed_lines lds @ r, ec_msg = m, ec_sock = map (\<lambda>q. Data (snd q)) lds @ es\<rparr>
        = Inr (session ''msg from server : '' lds, Some c) \<and> ec_in c = r \<and> ec_sock c = es)"
proof (intro conjI)
  show "\<exists>c. io_client_run (length lds) \<lparr>ec_in = typed_lines lds @ r, ec_msg = m, ec_sock = map (\<lambda>q. Data (snd q)) lds @ es\<rparr>
        = Inr (session ''msg from server '' lds, Some c) \<and> ec_in c = r \<and> ec_sock c = es"
    using assms
  proof (induction lds arbitrary: m)
    case (Cons p lds)
    obtain l d where p: "p = (l, d)" by fastforce
    have ok: "line_ok l" "answer_ok d" using Cons.prems(1) p by auto
    obtain m' where "io_client_turn \<lparr>ec_in = l @ LF # typed_lines lds @ r, ec_msg = m, ec_sock = Data d # map (\<lambda>q. Data (snd q)) lds @ es\<rparr>
        = Inr (Turn (l @ [LF]) (''msg from server '' @ d @ [LF]) \<lparr>ec_in = typed_lines lds @ r, ec_msg = m', ec_sock = map (\<lambda>q. Data (snd q)) lds @ es\<rparr>)"
      "length m' = ECHO_BUF" using io_client_answer[OF ok Cons.prems(2)] by blast
    moreover obtain c where "io_client_run (length lds) \<lparr>ec_in = typed_lines lds @ r, ec_msg = m', ec_sock = map (\<lambda>q. Data (snd q)) lds @ es\<rparr>
        = Inr (session ''msg from server '' lds, Some c)" "ec_in c = r" "ec_sock c = es"
      using Cons.IH[OF _ calculation(2)] Cons.prems(1) by auto
    ultimately show ?case by (auto simp: p session_def)
  qed (simp add: session_def)
  show "\<exists>c. fork_client_run (length lds) \<lparr>ec_in = typed_lines lds @ r, ec_msg = m, ec_sock = map (\<lambda>q. Data (snd q)) lds @ es\<rparr>
        = Inr (session ''msg from server : '' lds, Some c) \<and> ec_in c = r \<and> ec_sock c = es"
    using assms
  proof (induction lds arbitrary: m)
    case (Cons p lds)
    obtain l d where p: "p = (l, d)" by fastforce
    have ok: "line_ok l" "answer_ok d" using Cons.prems(1) p by auto
    obtain m' where "multi_process_client_turn \<lparr>ec_in = l @ LF # typed_lines lds @ r, ec_msg = m, ec_sock = Data d # map (\<lambda>q. Data (snd q)) lds @ es\<rparr>
        = Inr (F_Turn (l @ [LF]) (''msg from server : '' @ d @ [LF]) \<lparr>ec_in = typed_lines lds @ r, ec_msg = m', ec_sock = map (\<lambda>q. Data (snd q)) lds @ es\<rparr>)"
      "length m' = ECHO_BUF" using fork_client_answer[OF ok Cons.prems(2)] by blast
    moreover obtain c where "fork_client_run (length lds) \<lparr>ec_in = typed_lines lds @ r, ec_msg = m', ec_sock = map (\<lambda>q. Data (snd q)) lds @ es\<rparr>
        = Inr (session ''msg from server : '' lds, Some c)" "ec_in c = r" "ec_sock c = es"
      using Cons.IH[OF _ calculation(2)] Cons.prems(1) by auto
    ultimately show ?case by (auto simp: p session_def)
  qed (simp add: session_def)
qed

text \<open>
  An error on the first \<open>read\<close> is passed over although its echo is still to come: from then on every line is
  answered with the echo of the one before it.
\<close>

theorem client_out_of_step:
  assumes "line_ok l1" "line_ok l2" "length m = ECHO_BUF"
  shows "\<exists>c. fork_client_run 2 \<lparr>ec_in = l1 @ LF # l2 @ LF # r, ec_msg = m, ec_sock = Err e # Data (l1 @ [LF]) # es\<rparr>
    = Inr ([(l1 @ [LF], ''read error'' @ [LF]), (l2 @ [LF], ''msg from server : '' @ l1 @ [LF, LF])], Some c)"
proof -
  obtain b where b: "fgets m ECHO_BUF (l1 @ LF # l2 @ LF # r) = Inr (b, l2 @ LF # r)" "length b = ECHO_BUF" "cstr b 0 = Inr (l1 @ [LF])" "\<not> is_quit b"
    using line_fgets[OF assms(1,3)] by blast
  have "answer_ok (l1 @ [LF])" using assms(1) by (auto simp: answer_ok_def line_ok_def)
  then obtain m' where m: "multi_process_client_turn \<lparr>ec_in = l2 @ LF # r, ec_msg = b, ec_sock = Data (l1 @ [LF]) # es\<rparr>
      = Inr (F_Turn (l2 @ [LF]) (''msg from server : '' @ (l1 @ [LF]) @ [LF]) \<lparr>ec_in = r, ec_msg = m', ec_sock = es\<rparr>)"
    using fork_client_answer[OF assms(2) _ b(2)] by blast
  have "multi_process_client_turn \<lparr>ec_in = l1 @ LF # l2 @ LF # r, ec_msg = m, ec_sock = Err e # Data (l1 @ [LF]) # es\<rparr>
      = Inr (F_Error (l1 @ [LF]) \<lparr>ec_in = l2 @ LF # r, ec_msg = b, ec_sock = Data (l1 @ [LF]) # es\<rparr>)"
    using b by (simp add: multi_process_client_turn_def)
  then show ?thesis using m by (simp add: eval_nat_numeral)
qed

text \<open>An answer that fills the array: the terminator goes behind it.\<close>

theorem client_answer_too_long:
  assumes "line_ok l" "length m = ECHO_BUF" "length d = ECHO_BUF"
  shows "io_client_turn \<lparr>ec_in = l @ LF # r, ec_msg = m, ec_sock = Data d # es\<rparr> = Inl (Bad_Store 256)
    \<and> store_msg_client_turn \<lparr>ec_in = l @ LF # r, ec_msg = m, ec_sock = Data d # es\<rparr> = Inl (Bad_Store 256)"
proof -
  obtain b where b: "fgets m ECHO_BUF (l @ LF # r) = Inr (b, r)" "length b = ECHO_BUF" "cstr b 0 = Inr (l @ [LF])" "\<not> is_quit b"
    using line_fgets[OF assms(1,2)] by blast
  have "brecv ECHO_BUF (Data d # es) = (Got d, es)" "blit b 0 d = Inr d" "store d 256 NUL = Inl (Bad_Store 256)"
    using assms(3) b(2) by (auto simp: ECHO_BUF_def blit_ok store_def)
  then show ?thesis using b assms(3)
    by (simp add: io_client_turn_def store_msg_client_turn_def multi_process_client_turn_def echo_print_def fork_print_def ECHO_BUF_def)
qed

subsection \<open>A client and the logging server\<close>

text \<open>
  The child of the logging server and its client together: what the child writes back to a client that sends
  lines is what the client then prints, and the pipe gets the lines in this order.
\<close>

fun child_serves :: "string list \<Rightarrow> store_child \<Rightarrow> string \<Rightarrow> (store_child \<times> string) option" where
  "child_serves [] c p = Some (c, p)"
| "child_serves (l # ls) c p =
     Option.bind (store_child_turn c p) (\<lambda>(c, p). Option.bind (store_child_turn c p) (\<lambda>(c, p). child_serves ls c p))"

theorem log_child_answers:
  assumes "\<forall>l \<in> set ls. line_ok l" "length p + length (concat ls) + length ls \<le> PIPE_SIZE"
  shows "child_serves ls (Reads (map (\<lambda>l. Data (l @ [LF])) ls @ es) out) p
    = Some (Reads es (out @ map (\<lambda>l. l @ [LF]) ls), p @ typed ls)"
  using assms
proof (induction ls arbitrary: out p)
  case (Cons l ls)
  have "length l + 1 \<le> STORE_BUF" using Cons.prems(1) by (simp add: line_ok_def ECHO_BUF_def STORE_BUF_def)
  moreover have "\<not> PIPE_SIZE < length p + length (l @ [LF])" using Cons.prems(2) by simp
  ultimately show ?case using Cons.IH[of "p @ l @ [LF]" "out @ [l @ [LF]]"] Cons.prems by (simp add: typed_def)
qed (simp add: typed_def)

end
