(* ===== verification/Suffix_Clients.thy ===== *)
theory Suffix_Clients
  imports Suffix_Server Sem_Chat
begin

text \<open>
  The clients of the servers in Suffix\_Server: \<open>tcp_client_test\<close> (src/08\_tcp), \<open>loop_client_test\<close> and
  \<open>fork_client_test\<close> (src/09\_server\_model) and \<open>unix_client_test\<close> (src/10\_network\_advanced) are one loop that
  differs in what it prints in front of an answer. The servers \<open>tcp_server_test\<close>, \<open>udp_server_test\<close> and
  \<open>unix_udp_server_test\<close>, and the senders and receivers of broadcast and multicast.
\<close>

subsection \<open>The clients of streams\<close>

text \<open>
  A turn: the client leaves after sending \<open>exit\<close>, could not send, waits for an answer, or prints one. An error
  of \<open>recv\<close> is reported, and the terminator stored at -1 all the same.
\<close>

datatype stream_turn =
    Sc_Leaves string
  | Sc_Unsent msg_client
  | Sc_Waits string
  | Sc_Prints string string msg_client "recv_event list"

definition stream_print :: "string \<Rightarrow> string \<Rightarrow> char list \<Rightarrow> int \<Rightarrow> string \<Rightarrow> recv_event list \<Rightarrow> stream_turn result" where
  "stream_print pre sent buf len inp es =
     bindR (store buf len NUL) (\<lambda>buf.
     bindR (cstr buf 0) (\<lambda>t. Inr (Sc_Prints sent (pre @ t @ [LF]) \<lparr>mc_in = inp, mc_buf = buf\<rparr> es)))"

definition stream_client_turn :: "string \<Rightarrow> bool \<Rightarrow> msg_client \<Rightarrow> recv_event list \<Rightarrow> stream_turn result" where
  "stream_client_turn pre sends c es =
     bindR (fgets (mc_buf c) MSG_BUF (mc_in c)) (\<lambda>(buf, inp).
     bindR (chop_newline buf) (\<lambda>buf.
     bindR (cstr buf 0) (\<lambda>sent.
       if \<not> sends then Inr (Sc_Unsent \<lparr>mc_in = inp, mc_buf = buf\<rparr>)
       else bindR (strneq buf 0 ''exit'') (\<lambda>e.
         if e then Inr (Sc_Leaves sent)
         else case brecv MSG_BUF es of
             (Blocks, es') \<Rightarrow> Inr (Sc_Waits sent)
           | (Fails x, es') \<Rightarrow> stream_print pre sent buf (- 1) inp es'
           | (Shut, es') \<Rightarrow> stream_print pre sent buf 0 inp es'
           | (Got d, es') \<Rightarrow> bindR (blit buf 0 d) (\<lambda>buf. stream_print pre sent buf (int (length d)) inp es')))))"

definition SERVER :: string where "SERVER = ''server'' @ [SP]"

definition tcp_client_test :: "bool \<Rightarrow> msg_client \<Rightarrow> recv_event list \<Rightarrow> stream_turn result" where
  "tcp_client_test = stream_client_turn SERVER"

definition loop_client_test :: "bool \<Rightarrow> msg_client \<Rightarrow> recv_event list \<Rightarrow> stream_turn result" where
  "loop_client_test = stream_client_turn SERVER"

definition fork_client_test :: "bool \<Rightarrow> msg_client \<Rightarrow> recv_event list \<Rightarrow> stream_turn result" where
  "fork_client_test = stream_client_turn SERVER"

definition unix_client_test :: "bool \<Rightarrow> msg_client \<Rightarrow> recv_event list \<Rightarrow> stream_turn result" where
  "unix_client_test = stream_client_turn []"

text \<open>\<open>n\<close> turns that can send: what was sent, what was printed, and whether the client has left.\<close>

fun stream_session :: "string \<Rightarrow> nat \<Rightarrow> msg_client \<Rightarrow> recv_event list \<Rightarrow> (string list \<times> string list \<times> bool) result" where
  "stream_session pre 0 c es = Inr ([], [], False)"
| "stream_session pre (Suc n) c es =
     bindR (stream_client_turn pre True c es) (\<lambda>t.
       case t of
         Sc_Leaves sent \<Rightarrow> Inr ([sent], [], True)
       | Sc_Unsent c' \<Rightarrow> stream_session pre n c' es
       | Sc_Waits sent \<Rightarrow> Inr ([sent], [], False)
       | Sc_Prints sent shown c' es' \<Rightarrow>
           bindR (stream_session pre n c' es') (\<lambda>(ss, ps, q). Inr (sent # ss, shown # ps, q)))"

subsection \<open>The servers\<close>

text \<open>One connection, handled as the iterative server handles each of its own.\<close>

definition tcp_server_test :: "recv_event list \<Rightarrow> (string list \<times> conn_end \<times> char list) result option" where
  "tcp_server_test es = conn_loop (replicate MSG_BUF NUL) es"

text \<open>The datagram server: \<open>None\<close> is an error of \<open>recvfrom\<close>.\<close>

fun udp_server_test :: "char list \<Rightarrow> (nat \<times> string) option list \<Rightarrow> served result" where
  "udp_server_test buf [] = Inr ([], False)"
| "udp_server_test buf (None # gs) = udp_server_test buf gs"
| "udp_server_test buf (Some (a, d) # gs) =
     bindR (handle_msg buf (take MSG_BUF d)) (\<lambda>h. case h of
        Exits buf' \<Rightarrow> Inr ([], True)
      | Replies r buf' \<Rightarrow> then_serve a r (udp_server_test buf' gs))"

definition unix_udp_server_test :: "char list \<Rightarrow> (nat \<times> string) option list \<Rightarrow> served result" where
  "unix_udp_server_test = udp_server_test"

subsection \<open>Broadcast and multicast\<close>

text \<open>The sender: a line is one datagram, whether or not \<open>sendto\<close> takes it. The receiver prints every one.\<close>

definition cast_send :: "msg_client \<Rightarrow> (string \<times> msg_client) result" where
  "cast_send c =
     bindR (fgets (mc_buf c) MSG_BUF (mc_in c)) (\<lambda>(buf, inp).
     bindR (chop_newline buf) (\<lambda>buf.
     bindR (cstr buf 0) (\<lambda>sent. Inr (sent, \<lparr>mc_in = inp, mc_buf = buf\<rparr>))))"

fun cast_sends :: "nat \<Rightarrow> msg_client \<Rightarrow> string list result" where
  "cast_sends 0 c = Inr []"
| "cast_sends (Suc n) c = bindR (cast_send c) (\<lambda>(t, c'). bindR (cast_sends n c') (\<lambda>ts. Inr (t # ts)))"

fun cast_recvs :: "string \<Rightarrow> char list \<Rightarrow> string option list \<Rightarrow> string list result" where
  "cast_recvs pre buf [] = Inr []"
| "cast_recvs pre buf (None # gs) = cast_recvs pre buf gs"
| "cast_recvs pre buf (Some d # gs) =
     bindR (blit buf 0 (take MSG_BUF d)) (\<lambda>buf.
     bindR (store buf (int (length (take MSG_BUF d))) NUL) (\<lambda>buf.
     bindR (cstr buf 0) (\<lambda>t.
     bindR (cast_recvs pre buf gs) (\<lambda>ts. Inr ((pre @ t @ [LF]) # ts)))))"

definition broadcast_client_test :: "string option list \<Rightarrow> string list result" where
  "broadcast_client_test gs = cast_recvs (''broadcast'' @ [SP]) (replicate MSG_BUF NUL) gs"

definition multicast_client_test :: "string option list \<Rightarrow> string list result" where
  "multicast_client_test gs = cast_recvs (''multicast'' @ [SP]) (replicate MSG_BUF NUL) gs"

subsection \<open>A client and its server\<close>

definition msg_line :: "string \<Rightarrow> bool" where
  "msg_line l = (plain_msg l \<and> LF \<notin> set l)"

lemma take_msg_line:
  assumes "NUL \<notin> set l" "LF \<notin> set l" "length l + 2 \<le> MSG_BUF" "length b = MSG_BUF"
  shows "\<exists>b1 b2. fgets b MSG_BUF (l @ LF # r) = Inr (b1, r) \<and> chop_newline b1 = Inr b2 \<and> length b2 = MSG_BUF \<and> cstr b2 0 = Inr l"
proof -
  obtain b1 where b1: "fgets b MSG_BUF (l @ LF # r) = Inr (b1, r)" "length b1 = length b" "cstr b1 0 = Inr (l @ [LF])"
    using fgets_line[of l MSG_BUF b r] assms by auto
  obtain b2 where "chop_newline b1 = Inr b2" "length b2 = length b1" "cstr b2 0 = Inr l"
    using chop_newline_line[OF b1(3)] assms(1) by auto
  then show ?thesis using b1 assms(4) by auto
qed

lemma stream_turn_line:
  assumes "msg_line l" "length b = MSG_BUF"
  shows "\<exists>b2. length b2 = MSG_BUF \<and> stream_client_turn pre True \<lparr>mc_in = l @ LF # r, mc_buf = b\<rparr> es =
    (if take 4 l = ''exit'' then Inr (Sc_Leaves l)
     else case brecv MSG_BUF es of
             (Blocks, es') \<Rightarrow> Inr (Sc_Waits l)
           | (Fails x, es') \<Rightarrow> stream_print pre l b2 (- 1) r es'
           | (Shut, es') \<Rightarrow> stream_print pre l b2 0 r es'
           | (Got d, es') \<Rightarrow> bindR (blit b2 0 d) (\<lambda>buf. stream_print pre l buf (int (length d)) r es'))"
proof -
  have l: "NUL \<notin> set l" "LF \<notin> set l" "length l + 2 \<le> MSG_BUF" using assms(1) by (simp_all add: msg_line_def plain_msg_def SUFFIX_def)
  obtain b1 b2 where b: "fgets b MSG_BUF (l @ LF # r) = Inr (b1, r)" "chop_newline b1 = Inr b2" "length b2 = MSG_BUF" "cstr b2 0 = Inr l"
    using take_msg_line[OF l assms(2)] by blast
  have "strneq b2 0 ''exit'' = Inr (take 4 l = ''exit'')" using shm_exit_line[OF b(4)] by (simp add: shm_exit_def)
  then show ?thesis using b by (intro exI[of _ b2]) (simp add: stream_client_turn_def)
qed

lemma stream_turn_answer:
  assumes "msg_line l" "take 4 l \<noteq> ''exit''" "length b = MSG_BUF"
  shows "\<exists>b'. length b' = MSG_BUF \<and> stream_client_turn pre True \<lparr>mc_in = l @ LF # r, mc_buf = b\<rparr> (Data (l @ SUFFIX) # es) =
    Inr (Sc_Prints l (pre @ (l @ SUFFIX) @ [LF]) \<lparr>mc_in = r, mc_buf = b'\<rparr> es)"
proof -
  let ?d = "l @ SUFFIX"
  have d: "length ?d < MSG_BUF" "NUL \<notin> set ?d" "?d \<noteq> []" using assms(1) by (auto simp: msg_line_def plain_msg_def SUFFIX_def)
  obtain b2 where b2: "length b2 = MSG_BUF" "stream_client_turn pre True \<lparr>mc_in = l @ LF # r, mc_buf = b\<rparr> (Data ?d # es) =
      bindR (blit b2 0 ?d) (\<lambda>buf. stream_print pre l buf (int (length ?d)) r es)"
    using stream_turn_line[OF assms(1,3), of pre r "Data ?d # es"] assms(2) d by auto
  obtain c1 c2 where "blit b2 0 ?d = Inr c1" "store c1 (int (length ?d)) NUL = Inr c2" "length c2 = MSG_BUF" "cstr c2 0 = Inr ?d"
    using recv_terminate[OF _ d(2), of b2] d(1) b2(1) by auto
  then show ?thesis using b2(2) by (auto simp: stream_print_def)
qed

text \<open>
  C29. A client and its server over one stream, every message arriving in one piece: what is typed up to \<open>exit\<close> is
  sent, answered with the suffix and printed, and both leave. The prefix is that of any of the four clients.
\<close>

theorem stream_client_and_server:
  assumes "\<forall>l \<in> set ls. msg_line l \<and> take 4 l \<noteq> ''exit''" "msg_line q" "take 4 q = ''exit''" "length b = MSG_BUF"
  shows "stream_session pre (Suc (length ls)) \<lparr>mc_in = typed (ls @ [q]), mc_buf = b\<rparr> (List.map Data (suffixed ls))
      = Inr (ls @ [q], List.map (\<lambda>r. pre @ r @ [LF]) (suffixed ls), True)
    \<and> (\<exists>b'. tcp_server_test (List.map Data (ls @ [q])) = Some (Inr (suffixed ls, Conn_Exit, b')))"
proof (intro conjI)
  show "stream_session pre (Suc (length ls)) \<lparr>mc_in = typed (ls @ [q]), mc_buf = b\<rparr> (List.map Data (suffixed ls))
      = Inr (ls @ [q], List.map (\<lambda>r. pre @ r @ [LF]) (suffixed ls), True)"
    using assms(1,4)
  proof (induction ls arbitrary: b)
    case Nil
    then show ?case using stream_turn_line[OF assms(2) Nil(2), of pre "[]" "[]"] assms(3) by (auto simp: typed_def suffixed_def)
  next
    case (Cons l ls)
    obtain b' where b': "length b' = MSG_BUF" "stream_client_turn pre True \<lparr>mc_in = l @ LF # typed (ls @ [q]), mc_buf = b\<rparr>
        (Data (l @ SUFFIX) # List.map Data (suffixed ls))
        = Inr (Sc_Prints l (pre @ (l @ SUFFIX) @ [LF]) \<lparr>mc_in = typed (ls @ [q]), mc_buf = b'\<rparr> (List.map Data (suffixed ls)))"
      using stream_turn_answer[of l b pre "typed (ls @ [q])" "List.map Data (suffixed ls)"] Cons.prems by auto
    have "stream_session pre (Suc (length ls)) \<lparr>mc_in = typed (ls @ [q]), mc_buf = b'\<rparr> (List.map Data (suffixed ls))
      = Inr (ls @ [q], List.map (\<lambda>r. pre @ r @ [LF]) (suffixed ls), True)" using Cons.IH[OF _ b'(1)] Cons.prems(1) by simp
    moreover have "typed ((l # ls) @ [q]) = l @ LF # typed (ls @ [q])" "suffixed (l # ls) = (l @ SUFFIX) # suffixed ls"
      by (simp_all add: typed_def suffixed_def)
    ultimately show ?case using b'(2) by simp
  qed
  have "talk ls" using assms(1) by (auto simp: talk_def msg_line_def)
  then show "\<exists>b'. tcp_server_test (List.map Data (ls @ [q])) = Some (Inr (suffixed ls, Conn_Exit, b'))"
    using conn_loop_exit[of ls "replicate MSG_BUF NUL" q "[]"] assms(2,3) by (auto simp: tcp_server_test_def msg_line_def)
qed

theorem stream_client_and_server_witness:
  "stream_session SERVER 2 \<lparr>mc_in = typed [''hello'', ''exit''], mc_buf = replicate MSG_BUF NUL\<rparr> [Data ''hello-server'']
    = Inr ([''hello'', ''exit''], [SERVER @ ''hello-server'' @ [LF]], True)"
  using stream_client_and_server[of "[''hello'']" "''exit''" "replicate MSG_BUF NUL" SERVER]
  by (simp add: msg_line_def plain_msg_def SUFFIX_def MSG_BUF_def suffixed_def numeral_2_eq_2)

text \<open>The end of the connection, or an error, in the place of an answer: an empty line, or a store in front of the array.\<close>

theorem stream_client_no_answer:
  assumes "msg_line l" "take 4 l \<noteq> ''exit''" "length b = MSG_BUF"
  shows "(\<exists>c. stream_client_turn pre True \<lparr>mc_in = l @ LF # r, mc_buf = b\<rparr> (Eof # es) = Inr (Sc_Prints l (pre @ [LF]) c (Eof # es)))
    \<and> stream_client_turn pre True \<lparr>mc_in = l @ LF # r, mc_buf = b\<rparr> (Err e # es) = Inl (Bad_Store (- 1))"
proof (intro conjI)
  obtain b2 where b2: "length b2 = MSG_BUF" "stream_client_turn pre True \<lparr>mc_in = l @ LF # r, mc_buf = b\<rparr> (Eof # es) = stream_print pre l b2 0 r (Eof # es)"
    using stream_turn_line[OF assms(1,3), of pre r "Eof # es"] assms(2) by auto
  have "store b2 0 NUL = Inr (b2[0 := NUL])" "cstr (b2[0 := NUL]) 0 = Inr []"
    using b2(1) by (cases b2; simp add: store_def cstr_def MSG_BUF_def)+
  then show "\<exists>c. stream_client_turn pre True \<lparr>mc_in = l @ LF # r, mc_buf = b\<rparr> (Eof # es) = Inr (Sc_Prints l (pre @ [LF]) c (Eof # es))"
    using b2(2) by (simp add: stream_print_def)
  show "stream_client_turn pre True \<lparr>mc_in = l @ LF # r, mc_buf = b\<rparr> (Err e # es) = Inl (Bad_Store (- 1))"
    using stream_turn_line[OF assms(1,3), of pre r "Err e # es"] assms(2) by (auto simp: stream_print_def store_def)
qed

subsection \<open>Datagrams\<close>

fun untimed :: "timed_event list \<Rightarrow> (nat \<times> string) option list" where
  "untimed [] = []"
| "untimed (Timed_Out # es) = untimed es"
| "untimed (Recv_Error # es) = None # untimed es"
| "untimed (Gram a d # es) = Some (a, d) # untimed es"

text \<open>
  The server with a time limit on its socket answers as the plain datagram server does: its timeouts are
  reported and change nothing. The Unix-domain server is the same loop.
\<close>

theorem time_limit_changes_nothing:
  "timeout_test buf es = udp_server_test buf (untimed es) \<and> unix_udp_server_test buf (untimed es) = timeout_test buf es"
proof -
  have "timeout_test buf es = udp_server_test buf (untimed es)"
    by (induction buf es rule: timeout_test.induct) (auto simp: bindR_def split: sum.splits handled.splits)
  then show ?thesis by (simp add: unix_udp_server_test_def)
qed

lemma cast_sends_lines:
  "\<forall>l \<in> set ls. NUL \<notin> set l \<and> LF \<notin> set l \<and> length l + 2 \<le> MSG_BUF \<Longrightarrow> length b = MSG_BUF \<Longrightarrow>
    cast_sends (length ls) \<lparr>mc_in = typed ls @ r, mc_buf = b\<rparr> = Inr ls"
proof (induction ls arbitrary: b)
  case (Cons l ls)
  obtain b1 b2 where b: "fgets b MSG_BUF (l @ LF # typed ls @ r) = Inr (b1, typed ls @ r)" "chop_newline b1 = Inr b2" "length b2 = MSG_BUF" "cstr b2 0 = Inr l"
    using take_msg_line[of l b "typed ls @ r"] Cons.prems by auto
  have "typed (l # ls) = l @ LF # typed ls" by (simp add: typed_def)
  then show ?case using b Cons.IH[OF _ b(3)] Cons.prems(1) by (simp add: cast_send_def)
qed (simp add: typed_def)

lemma cast_recvs_lines:
  "\<forall>l \<in> set ls. NUL \<notin> set l \<and> length l < MSG_BUF \<Longrightarrow> length b = MSG_BUF \<Longrightarrow>
    cast_recvs pre b (List.map Some ls) = Inr (List.map (\<lambda>l. pre @ l @ [LF]) ls)"
proof (induction ls arbitrary: b)
  case (Cons l ls)
  obtain b1 b2 where b: "blit b 0 l = Inr b1" "store b1 (int (length l)) NUL = Inr b2" "length b2 = MSG_BUF" "cstr b2 0 = Inr l"
    using recv_terminate[of l b] Cons.prems by auto
  have "take MSG_BUF l = l" using Cons.prems(1) by simp
  then show ?case using b Cons.IH[OF _ b(3)] Cons.prems(1) by simp
qed simp

text \<open>
  Every receiver that gets the datagrams in order prints the lines that were typed, with its own word in
  front; a datagram of 1024 bytes from somewhere else makes it store behind its array.
\<close>

theorem cast_delivers:
  assumes "\<forall>l \<in> set ls. NUL \<notin> set l \<and> LF \<notin> set l \<and> length l + 2 \<le> MSG_BUF"
  shows "cast_sends (length ls) \<lparr>mc_in = typed ls, mc_buf = replicate MSG_BUF NUL\<rparr> = Inr ls
    \<and> broadcast_client_test (List.map Some ls) = Inr (List.map (\<lambda>l. ''broadcast'' @ SP # l @ [LF]) ls)
    \<and> multicast_client_test (List.map Some ls) = Inr (List.map (\<lambda>l. ''multicast'' @ SP # l @ [LF]) ls)
    \<and> (length d = MSG_BUF \<longrightarrow> broadcast_client_test (Some d # gs) = Inl (Bad_Store 1024))"
proof (intro conjI impI)
  have a: "\<forall>l \<in> set ls. NUL \<notin> set l \<and> length l < MSG_BUF" using assms by auto
  show "cast_sends (length ls) \<lparr>mc_in = typed ls, mc_buf = replicate MSG_BUF NUL\<rparr> = Inr ls"
    using cast_sends_lines[OF assms, of "replicate MSG_BUF NUL" "[]"] by simp
  show "broadcast_client_test (List.map Some ls) = Inr (List.map (\<lambda>l. ''broadcast'' @ SP # l @ [LF]) ls)"
    "multicast_client_test (List.map Some ls) = Inr (List.map (\<lambda>l. ''multicast'' @ SP # l @ [LF]) ls)"
    using cast_recvs_lines[OF a] by (simp_all add: broadcast_client_test_def multicast_client_test_def)
  show "broadcast_client_test (Some d # gs) = Inl (Bad_Store 1024)" if "length d = MSG_BUF"
    using that by (simp add: broadcast_client_test_def blit_msg store_def) (simp add: MSG_BUF_def)
qed

theorem cast_delivers_witness:
  "broadcast_client_test [Some ''news''] = Inr [''broadcast'' @ SP # ''news'' @ [LF]]"
  using cast_delivers[of "[''news'']"] by (simp add: MSG_BUF_def)

end
