(* ===== verification/Struct_Io.thy ===== *)
theory Struct_Io
  imports Msg_Queue
begin

text \<open>
  Structs that are written as they lie in memory and read back: to a file (\<open>write_test\<close> and \<open>read_test\<close> of
  src/02\_io/main.cpp), to a message queue (\<open>msg_test\<close> and \<open>msg_get_test\<close>) and to shared memory (\<open>shm_test\<close> and
  \<open>shm_test2\<close> of src/06\_system\_v\_ipc/main.cpp); and reading ahead in a socket (\<open>peek_recv\<close> of
  src/43\_multi\_io\_function/main.cpp).
\<close>

subsection \<open>The layout\<close>

text \<open>An \<open>int\<close>, a character, an array, and bytes of no meaning that fill it up to a multiple of four.\<close>

record data =
  d_a :: int
  d_b :: char
  d_buf :: "char list"

definition struct_bytes :: "char list \<Rightarrow> data \<Rightarrow> string" where
  "struct_bytes pad d = int_bytes (d_a d) @ [d_b d] @ d_buf d @ pad"

definition struct_of :: "nat \<Rightarrow> string \<Rightarrow> data" where
  "struct_of n m = \<lparr>d_a = bytes_sint (take 4 m), d_b = m ! 4, d_buf = take n (drop 5 m)\<rparr>"

text \<open>What is printed of a struct; and an array that is initialised with a text.\<close>

definition show_data :: "data \<Rightarrow> (int \<times> char \<times> string) result" where
  "show_data d = bindR (cstr (d_buf d) 0) (\<lambda>t. Inr (d_a d, d_b d, t))"

definition text_array :: "nat \<Rightarrow> string \<Rightarrow> char list" where
  "text_array n t = t @ replicate (n - length t) NUL"

subsection \<open>A file\<close>

definition DATA_BUF :: nat where "DATA_BUF = 32"

definition write_test :: "char list \<Rightarrow> string" where
  "write_test pad = struct_bytes pad \<lparr>d_a = 1, d_b = CHR ''a'', d_buf = text_array DATA_BUF ''test''\<rparr>"

text \<open>\<open>fread\<close> of one item; \<open>None\<close>: the file is too short, and what is printed is what the stack held.\<close>

definition read_test :: "string \<Rightarrow> (int \<times> char \<times> string) option result" where
  "read_test f = (if length f < 40 then Inr None else map_sum id Some (show_data (struct_of DATA_BUF (take 40 f))))"

subsection \<open>A message\<close>

definition MYMSG_BUF :: nat where "MYMSG_BUF = 256"

text \<open>\<open>strcpy\<close> into an array that was not set: what lies behind the terminator is what the stack held.\<close>

definition msg_test :: "char list \<Rightarrow> char list \<Rightarrow> msg_queue \<Rightarrow> msg_queue" where
  "msg_test junk pad q = q @ [(111, struct_bytes pad \<lparr>d_a = 22, d_b = CHR ''b'', d_buf = ''hello'' @ [NUL] @ junk\<rparr>)]"

text \<open>Type 0 takes the first message; \<open>None\<close>: there is none and \<open>msgrcv\<close> waits.\<close>

definition msg_get_test :: "msg_queue \<Rightarrow> (int \<times> int \<times> char \<times> string) option result" where
  "msg_get_test q =
     (case q of
        [] \<Rightarrow> Inr None
      | (t, m) # q' \<Rightarrow> bindR (show_data (struct_of MYMSG_BUF m)) (\<lambda>s. Inr (Some (t, s))))"

subsection \<open>Shared memory\<close>

text \<open>The segment, \<open>None\<close> before it is created with zeros; the first program stores, the second prints and removes it.\<close>

definition shm_get :: "string option \<Rightarrow> string" where
  "shm_get seg = (case seg of None \<Rightarrow> replicate 1024 NUL | Some m \<Rightarrow> m)"

definition shm_test :: "string option \<Rightarrow> string option" where
  "shm_test seg = Some ((int_bytes 111 @ drop 4 (shm_get seg))[4 := CHR ''b''])"

definition shm_test2 :: "string option \<Rightarrow> (int \<times> char) \<times> string option" where
  "shm_test2 seg = (let d = struct_of 0 (shm_get seg) in ((d_a d, d_b d), None))"

subsection \<open>What is read back\<close>

lemma struct_roundtrip:
  assumes "int_range (d_a d)" "length (d_buf d) = n"
  shows "struct_of n (struct_bytes pad d) = d"
  using assms bytes_sint_bytes[of "d_a d"] by (simp add: struct_of_def struct_bytes_def nth_append)

lemma cstr_text_array: "NUL \<notin> set t \<Longrightarrow> length t < n \<Longrightarrow> cstr (text_array n t) 0 = Inr t"
  by (auto simp: cstr_iff text_array_def Suc_diff_Suc[symmetric] intro!: exI[of _ "replicate (n - Suc (length t)) NUL"])

text \<open>
  What the second program of each pair prints is what the first one wrote, whatever the padding and what
  lies behind the terminator; run in the other order the second program waits, or prints zeros.
\<close>

theorem structs_read_back:
  assumes "length pad = 3" "length junk = 250"
  shows "read_test (write_test pad @ rest) = Inr (Some (1, CHR ''a'', ''test''))
    \<and> msg_get_test (msg_test junk pad []) = Inr (Some (111, 22, CHR ''b'', ''hello'')) \<and> msg_get_test [] = Inr None
    \<and> fst (shm_test2 (shm_test None)) = (111, CHR ''b'') \<and> fst (shm_test2 None) = (0, NUL)"
proof (intro conjI)
  let ?d = "\<lparr>d_a = 1, d_b = CHR ''a'', d_buf = text_array DATA_BUF ''test''\<rparr>"
  have "length (write_test pad) = 40" using assms(1) by (simp add: write_test_def struct_bytes_def text_array_def DATA_BUF_def)
  moreover have "struct_of DATA_BUF (write_test pad) = ?d"
    unfolding write_test_def by (rule struct_roundtrip) (simp_all add: text_array_def DATA_BUF_def int_range_def)
  moreover have "cstr (text_array DATA_BUF ''test'') 0 = Inr ''test''" by (rule cstr_text_array) (simp_all add: DATA_BUF_def)
  ultimately show "read_test (write_test pad @ rest) = Inr (Some (1, CHR ''a'', ''test''))" by (simp add: read_test_def show_data_def)
  let ?m = "\<lparr>d_a = 22, d_b = CHR ''b'', d_buf = ''hello'' @ [NUL] @ junk\<rparr>"
  have "struct_of MYMSG_BUF (struct_bytes pad ?m) = ?m" using assms(2) by (intro struct_roundtrip) (simp_all add: MYMSG_BUF_def int_range_def)
  moreover have "cstr (''hello'' @ [NUL] @ junk) 0 = Inr ''hello''" by (simp add: cstr_iff)
  ultimately show "msg_get_test (msg_test junk pad []) = Inr (Some (111, 22, CHR ''b'', ''hello''))"
    by (simp add: msg_get_test_def msg_test_def show_data_def)
  have "bytes_sint (int_bytes 111) = 111" by (rule bytes_sint_bytes) (simp add: int_range_def)
  then show "fst (shm_test2 (shm_test None)) = (111, CHR ''b'')"
    by (simp add: shm_test2_def shm_test_def shm_get_def struct_of_def nth_append)
  have "bytes_sint (replicate 4 NUL) = 0" by code_simp
  then show "fst (shm_test2 None) = (0, NUL)" by (simp add: shm_test2_def shm_get_def struct_of_def)
qed (simp add: msg_get_test_def)

subsection \<open>Reading ahead\<close>

definition PEEK_BUF :: nat where "PEEK_BUF = 256"

text \<open>
  The receiver asks without waiting until there is something; \<open>peeks\<close> is what the socket holds at each call,
  \<open>None\<close> when the peer has closed and nothing is left, and at the end the last state stays. It prints what it
  saw, then what it reads with \<open>arrived\<close> more bytes.
\<close>

fun peek_wait :: "string list \<Rightarrow> string option" where
  "peek_wait [] = None"
| "peek_wait (s # ss) = (if take PEEK_BUF s \<noteq> [] then Some s else peek_wait ss)"

definition peek_show :: "char list \<Rightarrow> string \<Rightarrow> ((string \<times> int) \<times> char list) result" where
  "peek_show buf d =
     bindR (blit buf 0 d) (\<lambda>b.
     bindR (store b (int (length d)) NUL) (\<lambda>b.
     bindR (cstr b 0) (\<lambda>t. Inr ((t, int (length d)), b))))"

definition peek_recv :: "string list \<Rightarrow> string \<Rightarrow> ((string \<times> int) \<times> (string \<times> int)) option result" where
  "peek_recv ss arrived =
     (case peek_wait ss of
        None \<Rightarrow> Inr None
      | Some s \<Rightarrow>
          bindR (peek_show (replicate PEEK_BUF NUL) (take PEEK_BUF s)) (\<lambda>(p1, b).
          bindR (peek_show b (take PEEK_BUF (s @ arrived))) (\<lambda>(p2, b). Inr (Some (p1, p2)))))"

lemma peek_show_text:
  "length b = PEEK_BUF \<Longrightarrow> length d < PEEK_BUF \<Longrightarrow> NUL \<notin> set d \<Longrightarrow> \<exists>b'. peek_show b d = Inr ((d, int (length d)), b') \<and> length b' = PEEK_BUF"
  using recv_terminate[of d b] by (auto simp: peek_show_def)

text \<open>
  Reading ahead takes nothing away: the second line begins with the first. A peer that closes without
  sending keeps the receiver asking for ever, and a full array gets its terminator behind it.
\<close>

theorem peek_takes_nothing:
  assumes "\<forall>s \<in> set gaps. s = []" "s \<noteq> []" "NUL \<notin> set (s @ arrived)"
  shows "(length (s @ arrived) < PEEK_BUF \<longrightarrow>
      peek_recv (gaps @ s # ss) arrived = Inr (Some ((s, int (length s)), (s @ arrived, int (length (s @ arrived))))))
    \<and> (PEEK_BUF \<le> length s \<longrightarrow> peek_recv (gaps @ s # ss) arrived = Inl (Bad_Store 256))
    \<and> peek_recv gaps arrived = Inr None"
proof (intro conjI impI)
  have w: "peek_wait (gaps @ s # ss) = Some s" "peek_wait gaps = None"
    using assms(1,2) by (induction gaps) (auto simp: PEEK_BUF_def)
  show "peek_recv gaps arrived = Inr None" by (simp add: peek_recv_def w)
  show "peek_recv (gaps @ s # ss) arrived = Inr (Some ((s, int (length s)), (s @ arrived, int (length (s @ arrived)))))"
    if l: "length (s @ arrived) < PEEK_BUF"
  proof -
    obtain b where b: "peek_show (replicate PEEK_BUF NUL) s = Inr ((s, int (length s)), b)" "length b = PEEK_BUF"
      using peek_show_text[of "replicate PEEK_BUF NUL" s] l assms(3) by auto
    obtain b' where "peek_show b (s @ arrived) = Inr ((s @ arrived, int (length (s @ arrived))), b')"
      using peek_show_text[OF b(2) l assms(3)] by blast
    then show ?thesis using b(1) l by (simp add: peek_recv_def w)
  qed
  show "peek_recv (gaps @ s # ss) arrived = Inl (Bad_Store 256)" if "PEEK_BUF \<le> length s"
    using that by (simp add: peek_recv_def w peek_show_def blit_ok store_def) (simp add: PEEK_BUF_def)
qed

theorem peek_takes_nothing_witness:
  "peek_recv [[], [], ''hello''] [] = Inr (Some ((''hello'', 5), (''hello'', 5)))"
  using peek_takes_nothing[of "[[], []]" "''hello''" "[]" "[]"] by (simp add: PEEK_BUF_def)

end
