(* ===== verification/Console_Loops.thy ===== *)
theory Console_Loops
  imports Sem_Chat
begin

text \<open>
  Programs that read the console: until a certain character (\<open>std_test\<close> of src/02\_io/main.cpp), blocking and
  not blocking (\<open>io_block_test\<close> and \<open>io_noblock_test\<close> of src/09\_server\_model/main.cpp), with a time limit
  (\<open>select_test\<close> of src/42\_io\_reuse/main.cpp), and together with a listening socket (\<open>select_server_test\<close> of
  src/09).
\<close>

subsection \<open>Reading the console\<close>

text \<open>\<open>std_test\<close>: what it writes; it ends behind the first \<open>c\<close>, or with the input.\<close>

fun std_test :: "string \<Rightarrow> string" where
  "std_test [] = []"
| "std_test (ch # inp) = (if ch = CHR ''c'' then [ch] else ch # std_test inp)"

definition LINE_1024 :: nat where "LINE_1024 = 1024"

text \<open>\<open>io_block_test\<close>, \<open>n\<close> turns: a line, with its line feed, and another line feed; nothing ends the loop.\<close>

fun io_block_test :: "nat \<Rightarrow> char list \<Rightarrow> string \<Rightarrow> string list result" where
  "io_block_test 0 buf inp = Inr []"
| "io_block_test (Suc n) buf inp =
     bindR (fgets buf LINE_1024 inp) (\<lambda>(buf, inp).
     bindR (cstr buf 0) (\<lambda>t.
     bindR (io_block_test n buf inp) (\<lambda>ts. Inr ((t @ [LF]) # ts))))"

text \<open>
  What a call finds: nothing yet, bytes, or the end of the input, which stays. For \<open>select_test\<close> finding
  nothing is the timeout, and \<open>select\<close> may fail.
\<close>

datatype con_event = Nothing_Yet | Typed string | Select_Fails

datatype con_line = Count int | Con_Text string | Would_Block | No_Data | Con_Timeout | Con_Failed

text \<open>\<open>read\<close> into an array of \<open>n\<close> characters, the terminator, and what \<open>%s\<close> prints.\<close>

definition con_read :: "nat \<Rightarrow> char list \<Rightarrow> string \<Rightarrow> (string \<times> char list) result" where
  "con_read n buf d =
     bindR (blit buf 0 (take n d)) (\<lambda>b.
     bindR (store b (int (length (take n d))) NUL) (\<lambda>b.
     bindR (cstr b 0) (\<lambda>t. Inr (t, b))))"

text \<open>The not blocking loop; at the end of the script the input has ended, and \<open>n\<close> more turns are made.\<close>

fun io_noblock_test :: "nat \<Rightarrow> char list \<Rightarrow> con_event list \<Rightarrow> con_line list result" where
  "io_noblock_test n buf [] = Inr (concat (replicate n [Count 0, No_Data]))"
| "io_noblock_test n buf (Typed d # es) =
     bindR (con_read LINE_1024 buf d) (\<lambda>(t, b).
     bindR (io_noblock_test n b es) (\<lambda>ls. Inr ([Count (int (length (take LINE_1024 d))), Con_Text t] @ ls)))"
| "io_noblock_test n buf (e # es) = bindR (io_noblock_test n buf es) (\<lambda>ls. Inr ([Count (- 1), Would_Block] @ ls))"

definition CON_BUF :: nat where "CON_BUF = 256"

text \<open>
  The loop with \<open>select\<close>, whose set is copied anew for every call. The end of the input is readable, \<open>read\<close>
  returns 0, and an empty text is printed at every turn.
\<close>

fun select_test :: "nat \<Rightarrow> char list \<Rightarrow> con_event list \<Rightarrow> con_line list result" where
  "select_test n buf [] =
     (if n = 0 then Inr []
      else bindR (con_read CON_BUF buf []) (\<lambda>(t, b). bindR (select_test (n - 1) b []) (\<lambda>ls. Inr (Con_Text t # ls))))"
| "select_test n buf (Nothing_Yet # es) = bindR (select_test n buf es) (\<lambda>ls. Inr (Con_Timeout # ls))"
| "select_test n buf (Select_Fails # es) = Inr [Con_Failed]"
| "select_test n buf (Typed d # es) =
     bindR (con_read CON_BUF buf d) (\<lambda>(t, b). bindR (select_test n b es) (\<lambda>ls. Inr (Con_Text t # ls)))"

subsection \<open>Console and socket\<close>

text \<open>
  A turn of \<open>select_server_test\<close>: the set is filled, \<open>select\<close> leaves what is ready. The descriptor of a new
  connection goes into a variable that the next one overwrites.
\<close>

record con_server =
  cs_in :: string
  cs_buf :: "char list"
  cs_open :: "nat list"
  cs_out :: "string list"

definition select_server_turn :: "bool \<Rightarrow> nat option option \<Rightarrow> con_server \<Rightarrow> con_server result" where
  "select_server_turn typed_ready arrival s =
     bindR (if typed_ready
            then bindR (fgets (cs_buf s) LINE_1024 (cs_in s)) (\<lambda>(buf, inp).
                 bindR (chop_newline buf) (\<lambda>buf.
                 bindR (cstr buf 0) (\<lambda>t. Inr (s\<lparr>cs_buf := buf, cs_in := inp, cs_out := cs_out s @ [t]\<rparr>))))
            else Inr s) (\<lambda>s.
       Inr (case arrival of Some (Some fd) \<Rightarrow> s\<lparr>cs_open := cs_open s @ [fd]\<rparr> | _ \<Rightarrow> s))"

fun select_server_test :: "(bool \<times> nat option option) list \<Rightarrow> con_server \<Rightarrow> con_server result" where
  "select_server_test [] s = Inr s"
| "select_server_test ((t, p) # es) s = bindR (select_server_turn t p s) (select_server_test es)"

subsection \<open>What is printed\<close>

theorem std_test_stops:
  "std_test inp = takeWhile (\<lambda>ch. ch \<noteq> CHR ''c'') inp @ (if CHR ''c'' \<in> set inp then ''c'' else [])"
  by (induction inp) auto

definition con_text :: "nat \<Rightarrow> string \<Rightarrow> bool" where
  "con_text n d = (NUL \<notin> set d \<and> length d < n)"

lemma con_read_text: "con_text n d \<Longrightarrow> length b = n \<Longrightarrow> \<exists>b'. con_read n b d = Inr (d, b') \<and> length b' = n"
  using recv_terminate[of d b] by (auto simp: con_read_def con_text_def)

lemma con_read_full: "n \<le> length d \<Longrightarrow> length b = n \<Longrightarrow> con_read n b d = Inl (Bad_Store (int n))"
  by (simp add: con_read_def blit_ok store_def)

definition select_shows :: "con_event \<Rightarrow> con_line" where
  "select_shows e = (case e of Nothing_Yet \<Rightarrow> Con_Timeout | Typed d \<Rightarrow> Con_Text d | Select_Fails \<Rightarrow> Con_Failed)"

lemma select_at_end: "length b = CON_BUF \<Longrightarrow> select_test n b [] = Inr (replicate n (Con_Text []))"
proof (induction n arbitrary: b)
  case (Suc n)
  obtain b' where "con_read CON_BUF b [] = Inr ([], b')" "length b' = CON_BUF"
    using con_read_text[of CON_BUF "[]" b] Suc.prems by (auto simp: con_text_def CON_BUF_def)
  then show ?case using Suc.IH by simp
qed simp

text \<open>
  The loop shows every text and every timeout in order; when the input has ended it prints an empty text at
  every turn, for ever and without waiting; and a text that fills the array makes it store behind it.
\<close>

theorem select_test_shows:
  assumes "\<forall>e \<in> set es. e \<noteq> Select_Fails \<and> (\<forall>d. e = Typed d \<longrightarrow> con_text CON_BUF d)" "length b = CON_BUF"
  shows "select_test n b es = Inr (map select_shows es @ replicate n (Con_Text []))
    \<and> (CON_BUF \<le> length d \<longrightarrow> select_test n b (es @ Typed d # es') = Inl (Bad_Store 256))"
  using assms
proof (induction es arbitrary: b)
  case Nil
  then show ?case using select_at_end[OF Nil(2)] con_read_full[of CON_BUF d b] by (auto simp: CON_BUF_def)
next
  case (Cons e es)
  show ?case
  proof (cases e)
    case Nothing_Yet
    then show ?thesis using Cons.IH[OF _ Cons.prems(2)] Cons.prems(1) by (simp add: select_shows_def)
  next
    case (Typed t)
    then obtain b' where b': "con_read CON_BUF b t = Inr (t, b')" "length b' = CON_BUF"
      using con_read_text[of CON_BUF t b] Cons.prems by auto
    then show ?thesis using Cons.IH[OF _ b'(2)] Cons.prems(1) Typed by (simp add: select_shows_def)
  next
    case Select_Fails
    then show ?thesis using Cons.prems(1) by simp
  qed
qed

theorem select_test_shows_witness:
  "select_test 2 (replicate CON_BUF NUL) [Nothing_Yet, Typed ''hello'', Nothing_Yet]
    = Inr [Con_Timeout, Con_Text ''hello'', Con_Timeout, Con_Text [], Con_Text []]"
  using select_test_shows[of "[Nothing_Yet, Typed ''hello'', Nothing_Yet]" "replicate CON_BUF NUL" 2]
  by (simp add: con_text_def CON_BUF_def select_shows_def numeral_2_eq_2)

text \<open>The not blocking loop reports every attempt; at the end of the input it goes on reporting 0.\<close>

theorem io_noblock_reports:
  assumes "\<forall>e \<in> set es. e \<noteq> Select_Fails \<and> (\<forall>d. e = Typed d \<longrightarrow> con_text LINE_1024 d)" "length b = LINE_1024"
  shows "io_noblock_test n b es =
    Inr (concat (map (\<lambda>e. case e of Typed d \<Rightarrow> [Count (int (length d)), Con_Text d] | _ \<Rightarrow> [Count (- 1), Would_Block]) es)
         @ concat (replicate n [Count 0, No_Data]))"
  using assms
proof (induction es arbitrary: b)
  case (Cons e es)
  show ?case
  proof (cases e)
    case (Typed t)
    then obtain b' where b': "con_read LINE_1024 b t = Inr (t, b')" "length b' = LINE_1024"
      using con_read_text[of LINE_1024 t b] Cons.prems by auto
    moreover have "length (take LINE_1024 t) = length t" using Cons.prems(1) Typed by (auto simp: con_text_def)
    ultimately show ?thesis using Cons.IH[OF _ b'(2)] Cons.prems(1) Typed by simp
  qed (use Cons in \<open>simp_all\<close>)
qed simp

text \<open>At the end of its input the blocking loop prints the last line for ever.\<close>

theorem io_block_repeats:
  assumes "cstr b 0 = Inr t"
  shows "io_block_test n b [] = Inr (replicate n (t @ [LF]))"
  by (induction n) (simp_all add: fgets_def assms)

subsection \<open>Connections that nobody serves\<close>

definition con_line_ok :: "string \<Rightarrow> bool" where
  "con_line_ok l = (NUL \<notin> set l \<and> LF \<notin> set l \<and> length l + 2 \<le> LINE_1024)"

lemma con_take_line:
  assumes "con_line_ok l" "length b = LINE_1024"
  shows "\<exists>b1 b2. fgets b LINE_1024 (l @ LF # r) = Inr (b1, r) \<and> chop_newline b1 = Inr b2 \<and> length b2 = LINE_1024 \<and> cstr b2 0 = Inr l"
proof -
  obtain b1 where b1: "fgets b LINE_1024 (l @ LF # r) = Inr (b1, r)" "length b1 = length b" "cstr b1 0 = Inr (l @ [LF])"
    using fgets_line[of l LINE_1024 b r] assms by (auto simp: con_line_ok_def)
  obtain b2 where "chop_newline b1 = Inr b2" "length b2 = length b1" "cstr b2 0 = Inr l"
    using chop_newline_line[OF b1(3)] assms(1) by (auto simp: con_line_ok_def)
  then show ?thesis using b1 assms(2) by auto
qed

text \<open>
  As the set is filled before every call, every line for which the console is reported readable is printed
  and every connection that is reported is taken, in any order; but each stays open, and nothing is ever
  read from it.
\<close>

theorem select_server_takes_all:
  assumes "\<forall>l \<in> set ls. con_line_ok l" "length (filter fst es) = length ls" "length (cs_buf s) = LINE_1024"
    "cs_in s = typed ls @ r"
  shows "\<exists>s'. select_server_test es s = Inr s' \<and> cs_out s' = cs_out s @ ls \<and> cs_in s' = r
    \<and> cs_open s' = cs_open s @ [fd. (t, Some (Some fd)) \<leftarrow> es]"
  using assms
proof (induction es arbitrary: s ls)
  case Nil
  then show ?case by (simp add: typed_def)
next
  case (Cons e es)
  obtain t p where e: "e = (t, p)" by fastforce
  let ?add = "\<lambda>s. case p of Some (Some fd) \<Rightarrow> s\<lparr>cs_open := cs_open s @ [fd]\<rparr> | _ \<Rightarrow> s"
  have add: "cs_buf (?add s) = cs_buf s" "cs_in (?add s) = cs_in s" "cs_out (?add s) = cs_out s"
    "cs_open (?add s) @ zs = cs_open s @ (case p of Some (Some fd) \<Rightarrow> fd # zs | _ \<Rightarrow> zs)" for s :: con_server and zs
    by (auto split: option.splits)
  have opens: "[fd. (t, Some (Some fd)) \<leftarrow> e # es] = (case p of Some (Some fd) \<Rightarrow> fd # [fd. (t, Some (Some fd)) \<leftarrow> es] | _ \<Rightarrow> [fd. (t, Some (Some fd)) \<leftarrow> es])"
    by (auto simp: e split: option.splits)
  show ?case
  proof (cases t)
    case False
    then have st: "select_server_turn t p s = Inr (?add s)" by (simp add: select_server_turn_def)
    obtain s' where "select_server_test es (?add s) = Inr s'" "cs_out s' = cs_out s @ ls" "cs_in s' = r"
      "cs_open s' = cs_open (?add s) @ [fd. (t, Some (Some fd)) \<leftarrow> es]"
      using Cons.IH[OF Cons.prems(1), of "?add s"] Cons.prems(2-4) False e by (auto simp: add)
    then show ?thesis using st unfolding opens by (simp add: e add(4))
  next
    case True
    then obtain l ls' where ls: "ls = l # ls'" using Cons.prems(2) e by (cases ls) auto
    obtain b1 b2 where b: "fgets (cs_buf s) LINE_1024 (l @ LF # typed ls' @ r) = Inr (b1, typed ls' @ r)" "chop_newline b1 = Inr b2"
        "length b2 = LINE_1024" "cstr b2 0 = Inr l"
      using con_take_line[of l "cs_buf s" "typed ls' @ r"] Cons.prems(1,3) ls by auto
    let ?s = "s\<lparr>cs_buf := b2, cs_in := typed ls' @ r, cs_out := cs_out s @ [l]\<rparr>"
    have "cs_in s = l @ LF # typed ls' @ r" using Cons.prems(4) ls by (simp add: typed_def)
    then have st: "select_server_turn t p s = Inr (?add ?s)" using True b by (simp add: select_server_turn_def)
    obtain s' where "select_server_test es (?add ?s) = Inr s'" "cs_out s' = (cs_out s @ [l]) @ ls'" "cs_in s' = r"
      "cs_open s' = cs_open (?add ?s) @ [fd. (t, Some (Some fd)) \<leftarrow> es]"
      using Cons.IH[of ls' "?add ?s"] Cons.prems(1,2) True e b(3) ls by (auto simp: add)
    then show ?thesis using st unfolding opens by (simp add: e add(4) ls)
  qed
qed

end
