(* ===== verification/Wait_Demos.thy ===== *)
theory Wait_Demos
  imports Prelude
begin

text \<open>
  Two children and their parent (src/40\_multi\_process\_server/main.cpp): \<open>wait_test\<close> waits for one after the
  other, \<open>remove_zombie\<close> leaves it to the handler of SIGCHLD (\<open>child_end\<close>).
\<close>

subsection \<open>Children\<close>

datatype kid = Kid_Runs int | Kid_Zombie int | Kid_Gone

text \<open>The parent's place, its children, whether a SIGCHLD is pending, and the exit codes it has printed.\<close>

record family =
  fam_pc :: nat
  fam_kids :: "kid list"
  fam_signal :: bool
  fam_out :: "int list"

definition fam_start :: family where
  "fam_start = \<lparr>fam_pc = 0, fam_kids = [], fam_signal = False, fam_out = []\<rparr>"

definition fork_kid :: "int \<Rightarrow> family \<Rightarrow> family" where
  "fork_kid c s = s\<lparr>fam_kids := fam_kids s @ [Kid_Runs c], fam_pc := fam_pc s + 1\<rparr>"

text \<open>A child ends: it is a zombie, and the signal is pending, once, however many are.\<close>

fun kid_exits :: "nat \<Rightarrow> family \<Rightarrow> family option" where
  "kid_exits i s =
     (if i < length (fam_kids s) then
        (case fam_kids s ! i of
           Kid_Runs c \<Rightarrow> Some (s\<lparr>fam_kids := (fam_kids s)[i := Kid_Zombie c], fam_signal := True\<rparr>)
         | _ \<Rightarrow> None)
      else None)"

text \<open>\<open>wait\<close>: the kernel hands out some zombie, its code is printed; \<open>None\<close> if \<open>i\<close> is none.\<close>

fun collect :: "nat \<Rightarrow> family \<Rightarrow> family option" where
  "collect i s =
     (if i < length (fam_kids s) then
        (case fam_kids s ! i of
           Kid_Zombie c \<Rightarrow> Some (s\<lparr>fam_kids := (fam_kids s)[i := Kid_Gone], fam_out := fam_out s @ [c]\<rparr>)
         | _ \<Rightarrow> None)
      else None)"

declare kid_exits.simps [simp del] collect.simps [simp del]

lemma kid_exits_Some:
  "kid_exits i s = Some s' \<longleftrightarrow> i < length (fam_kids s)
    \<and> (\<exists>c. fam_kids s ! i = Kid_Runs c \<and> s' = s\<lparr>fam_kids := (fam_kids s)[i := Kid_Zombie c], fam_signal := True\<rparr>)"
  by (auto simp: kid_exits.simps split: kid.splits)

lemma collect_Some:
  "collect i s = Some s' \<longleftrightarrow> i < length (fam_kids s)
    \<and> (\<exists>c. fam_kids s ! i = Kid_Zombie c \<and> s' = s\<lparr>fam_kids := (fam_kids s)[i := Kid_Gone], fam_out := fam_out s @ [c]\<rparr>)"
  by (auto simp: collect.simps split: kid.splits)

subsection \<open>The programs\<close>

text \<open>\<open>wait_test\<close>: two forks, then two calls of \<open>wait\<close>; the place 4 is the \<open>sleep\<close> at its end.\<close>

inductive wait_test :: "family \<Rightarrow> family \<Rightarrow> bool" where
  fork1: "fam_pc s = 0 \<Longrightarrow> wait_test s (fork_kid 3 s)"
| fork2: "fam_pc s = 1 \<Longrightarrow> wait_test s (fork_kid 7 s)"
| waits: "fam_pc s \<in> {2, 3} \<Longrightarrow> collect i s = Some s' \<Longrightarrow> wait_test s (s'\<lparr>fam_pc := fam_pc s + 1\<rparr>)"
| exits: "kid_exits i s = Some s' \<Longrightarrow> wait_test s s'"

inductive_cases wait_testE: "wait_test s s'"

text \<open>
  \<open>remove_zombie\<close>: the handler, which takes the pending signal away, waits once without blocking.
\<close>

inductive remove_zombie :: "family \<Rightarrow> family \<Rightarrow> bool" where
  fork1: "fam_pc s = 0 \<Longrightarrow> remove_zombie s (fork_kid 22 s)"
| fork2: "fam_pc s = 1 \<Longrightarrow> remove_zombie s (fork_kid 33 s)"
| child_end: "fam_signal s \<Longrightarrow> collect i s = Some s' \<Longrightarrow> remove_zombie s (s'\<lparr>fam_signal := False\<rparr>)"
| exits: "kid_exits i s = Some s' \<Longrightarrow> remove_zombie s s'"

inductive_cases remove_zombieE: "remove_zombie s s'"

definition fam_zombies :: "family \<Rightarrow> nat" where
  "fam_zombies s = length (filter (\<lambda>k. \<exists>c. k = Kid_Zombie c) (fam_kids s))"

subsection \<open>Waiting for both\<close>

definition kid_of :: "int \<Rightarrow> kid set" where
  "kid_of c = {Kid_Runs c, Kid_Zombie c}"

definition wait_inv :: "family \<Rightarrow> bool" where
  "wait_inv s =
     ((fam_pc s = 0 \<and> fam_kids s = [] \<and> fam_out s = [])
      \<or> (fam_pc s = 1 \<and> (\<exists>k \<in> kid_of 3. fam_kids s = [k]) \<and> fam_out s = [])
      \<or> (fam_pc s = 2 \<and> (\<exists>k \<in> kid_of 3. \<exists>l \<in> kid_of 7. fam_kids s = [k, l]) \<and> fam_out s = [])
      \<or> (fam_pc s = 3 \<and> ((\<exists>l \<in> kid_of 7. fam_kids s = [Kid_Gone, l]) \<and> fam_out s = [3]
          \<or> (\<exists>k \<in> kid_of 3. fam_kids s = [k, Kid_Gone]) \<and> fam_out s = [7]))
      \<or> (fam_pc s = 4 \<and> fam_kids s = [Kid_Gone, Kid_Gone] \<and> fam_out s \<in> {[3, 7], [7, 3]}))"

lemma less_two: "i < Suc (Suc 0) \<longleftrightarrow> i = 0 \<or> i = Suc 0" by auto

lemma wait_inv_at:
  "fam_pc s = 0 \<Longrightarrow> wait_inv s = (fam_kids s = [] \<and> fam_out s = [])"
  "fam_pc s = 1 \<Longrightarrow> wait_inv s = ((\<exists>k \<in> kid_of 3. fam_kids s = [k]) \<and> fam_out s = [])"
  "fam_pc s = 2 \<Longrightarrow> wait_inv s = ((\<exists>k \<in> kid_of 3. \<exists>l \<in> kid_of 7. fam_kids s = [k, l]) \<and> fam_out s = [])"
  "fam_pc s = 3 \<Longrightarrow> wait_inv s = ((\<exists>l \<in> kid_of 7. fam_kids s = [Kid_Gone, l]) \<and> fam_out s = [3]
    \<or> (\<exists>k \<in> kid_of 3. fam_kids s = [k, Kid_Gone]) \<and> fam_out s = [7])"
  "fam_pc s = 4 \<Longrightarrow> wait_inv s = (fam_kids s = [Kid_Gone, Kid_Gone] \<and> fam_out s \<in> {[3, 7], [7, 3]})"
  by (simp_all add: wait_inv_def)

lemma wait_inv_pc: "wait_inv s \<Longrightarrow> fam_pc s = 0 \<or> fam_pc s = 1 \<or> fam_pc s = 2 \<or> fam_pc s = 3 \<or> fam_pc s = 4"
  unfolding wait_inv_def by blast

lemmas kid_simps = kid_of_def less_two kid_exits_Some collect_Some

lemma wait_exits_inv:
  assumes "wait_inv s" "kid_exits i s = Some s'"
  shows "wait_inv s'"
proof -
  have pc: "fam_pc s' = fam_pc s" using assms(2) by (auto simp: kid_exits_Some)
  show ?thesis using wait_inv_pc[OF assms(1)]
  proof (elim disjE)
    assume q: "fam_pc s = 0"
    show ?thesis using assms unfolding wait_inv_at(1)[OF q] wait_inv_at(1)[OF pc[unfolded q]] by (auto simp: kid_simps)
  next
    assume q: "fam_pc s = 1"
    show ?thesis using assms unfolding wait_inv_at(2)[OF q] wait_inv_at(2)[OF pc[unfolded q]] by (auto simp: kid_simps)
  next
    assume q: "fam_pc s = 2"
    show ?thesis using assms unfolding wait_inv_at(3)[OF q] wait_inv_at(3)[OF pc[unfolded q]] by (auto simp: kid_simps)
  next
    assume q: "fam_pc s = 3"
    show ?thesis using assms unfolding wait_inv_at(4)[OF q] wait_inv_at(4)[OF pc[unfolded q]] by (auto simp: kid_simps)
  next
    assume q: "fam_pc s = 4"
    show ?thesis using assms unfolding wait_inv_at(5)[OF q] wait_inv_at(5)[OF pc[unfolded q]] by (auto simp: kid_simps)
  qed
qed

lemma wait_collect_inv:
  assumes "wait_inv s" "fam_pc s = 2 \<or> fam_pc s = 3" "collect i s = Some s'"
  shows "wait_inv (s'\<lparr>fam_pc := Suc (fam_pc s)\<rparr>)"
  using assms(2)
proof
  assume pc: "fam_pc s = 2"
  then have q: "fam_pc (s'\<lparr>fam_pc := Suc (fam_pc s)\<rparr>) = 3" by simp
  show ?thesis unfolding wait_inv_at(4)[OF q] using assms(1,3) unfolding wait_inv_at(3)[OF pc]
    by (auto simp: kid_simps)
next
  assume pc: "fam_pc s = 3"
  then have q: "fam_pc (s'\<lparr>fam_pc := Suc (fam_pc s)\<rparr>) = 4" by simp
  show ?thesis unfolding wait_inv_at(5)[OF q] using assms(1,3) unfolding wait_inv_at(4)[OF pc]
    by (auto simp: kid_simps)
qed

text \<open>Before its end a child runs, which can exit, or is a zombie, which can be collected.\<close>

lemma wait_live:
  assumes "wait_inv s" "fam_pc s \<in> {2, 3}"
  shows "\<exists>j s'. kid_exits j s = Some s' \<or> collect j s = Some s'"
proof -
  have "\<exists>j c. j < length (fam_kids s) \<and> (fam_kids s ! j = Kid_Runs c \<or> fam_kids s ! j = Kid_Zombie c)"
    using assms by (fastforce simp: wait_inv_def kid_of_def intro: exI[of _ 0] exI[of _ "Suc 0"])
  then show ?thesis unfolding kid_exits_Some collect_Some by blast
qed

lemma wait_reachable: "wait_test\<^sup>*\<^sup>* fam_start s \<Longrightarrow> wait_inv s"
proof (induction rule: rtranclp_induct)
  case base
  show ?case by (simp add: wait_inv_def fam_start_def)
next
  case (step s s')
  from step(2) show ?case
  proof (rule wait_testE, goal_cases)
    case 1
    then show ?case using step(3) by (auto simp: wait_inv_def fork_kid_def kid_of_def)
  next
    case 2
    then show ?case using step(3) by (auto simp: wait_inv_def fork_kid_def kid_of_def)
  next
    case 3
    then show ?case using wait_collect_inv[OF step(3)] by simp
  next
    case 4
    then show ?case using wait_exits_inv[OF step(3)] by blast
  qed
qed

text \<open>
  In every order the parent prints both codes, the one of the child that is collected first before the
  other, and leaves no zombie; it stops nowhere before.
\<close>

theorem wait_test_collects:
  assumes "wait_test\<^sup>*\<^sup>* fam_start s"
  shows "(fam_pc s = 4 \<longrightarrow> fam_out s \<in> {[3, 7], [7, 3]} \<and> fam_zombies s = 0) \<and> (fam_pc s \<noteq> 4 \<longrightarrow> (\<exists>s'. wait_test s s'))"
proof (intro conjI impI)
  have i: "wait_inv s" using wait_reachable[OF assms] .
  show "fam_out s \<in> {[3, 7], [7, 3]}" "fam_zombies s = 0" if "fam_pc s = 4"
    using i that by (auto simp: wait_inv_def fam_zombies_def)
  show "\<exists>s'. wait_test s s'" if "fam_pc s \<noteq> 4"
  proof (cases "fam_pc s \<in> {0, 1}")
    case True
    then show ?thesis using wait_test.fork1 wait_test.fork2 by blast
  next
    case False
    then have pc: "fam_pc s \<in> {2, 3}" using i that by (auto simp: wait_inv_def)
    then show ?thesis using wait_live[OF i pc] wait_test.waits[OF pc] wait_test.exits by blast
  qed
qed

subsection \<open>Waiting in the handler\<close>

lemma fam_zombies_update:
  "i < length ks \<Longrightarrow> length (filter P (ks[i := k])) + (if P (ks ! i) then 1 else 0) = length (filter P ks) + (if P k then 1 else 0)"
proof (induction ks arbitrary: i)
  case (Cons a ks)
  then show ?case by (cases i) auto
qed simp

lemma exits_zombies: "kid_exits i s = Some s' \<Longrightarrow> fam_zombies s' = fam_zombies s + 1 \<and> fam_signal s' \<and> fam_pc s' = fam_pc s \<and> length (fam_kids s') = length (fam_kids s)"
  using fam_zombies_update[of i "fam_kids s" "\<lambda>k. \<exists>c. k = Kid_Zombie c"]
  by (auto simp: fam_zombies_def kid_exits_Some)

lemma collect_zombies: "collect i s = Some s' \<Longrightarrow> fam_zombies s = fam_zombies s' + 1 \<and> fam_pc s' = fam_pc s \<and> length (fam_kids s') = length (fam_kids s)"
  using fam_zombies_update[of i "fam_kids s" "\<lambda>k. \<exists>c. k = Kid_Zombie c"]
  by (auto simp: fam_zombies_def collect_Some)

text \<open>Once a zombie is there and no signal for it, there is one for good.\<close>

definition fam_stranded :: "family \<Rightarrow> bool" where
  "fam_stranded s = ((if fam_signal s then 1 else 0) < fam_zombies s)"

lemma fam_stranded_step:
  assumes "remove_zombie s s'" "fam_stranded s"
  shows "fam_stranded s'"
  using assms(1)
proof (rule remove_zombieE, goal_cases)
  case 3
  then show ?case using assms(2) collect_zombies by (auto simp: fam_stranded_def fam_zombies_def)
next
  case 4
  then show ?case using assms(2) exits_zombies by (auto simp: fam_stranded_def)
qed (use assms(2) in \<open>auto simp: fam_stranded_def fork_kid_def fam_zombies_def\<close>)

theorem remove_zombie_leaves_one:
  assumes "remove_zombie\<^sup>*\<^sup>* s s'" "fam_kids s = [Kid_Zombie 22, Kid_Zombie 33]"
  shows "0 < fam_zombies s'"
proof -
  have "fam_stranded s" using assms(2) by (simp add: fam_stranded_def fam_zombies_def)
  have "fam_stranded s'" using assms(1) \<open>fam_stranded s\<close>
    by (induction rule: rtranclp_induct) (auto intro: fam_stranded_step)
  then show ?thesis by (simp add: fam_stranded_def split: if_splits)
qed

text \<open>Both children sleep for the same time, and that state is reached when they end before the signal is delivered.\<close>

theorem remove_zombie_leaves_one_witness:
  "\<exists>s. remove_zombie\<^sup>*\<^sup>* fam_start s \<and> fam_kids s = [Kid_Zombie 22, Kid_Zombie 33] \<and> (\<forall>s'. remove_zombie\<^sup>*\<^sup>* s s' \<longrightarrow> 0 < fam_zombies s')"
proof -
  let ?s1 = "fork_kid 22 fam_start"
  let ?s2 = "fork_kid 33 ?s1"
  have s2: "?s2 = \<lparr>fam_pc = 2, fam_kids = [Kid_Runs 22, Kid_Runs 33], fam_signal = False, fam_out = []\<rparr>"
    by (simp add: fork_kid_def fam_start_def numeral_2_eq_2)
  let ?s3 = "\<lparr>fam_pc = 2, fam_kids = [Kid_Zombie 22, Kid_Runs 33], fam_signal = True, fam_out = []\<rparr>"
  let ?s4 = "\<lparr>fam_pc = 2, fam_kids = [Kid_Zombie 22, Kid_Zombie 33], fam_signal = True, fam_out = []\<rparr>"
  have "remove_zombie fam_start ?s1" "remove_zombie ?s1 ?s2"
    by (rule remove_zombie.fork1 remove_zombie.fork2; simp add: fam_start_def fork_kid_def)+
  moreover have "remove_zombie ?s2 ?s3" unfolding s2 by (rule remove_zombie.exits[of 0]) (simp add: kid_exits_Some)
  moreover have "remove_zombie ?s3 ?s4" by (rule remove_zombie.exits[of 1]) (simp add: kid_exits_Some)
  ultimately have "remove_zombie\<^sup>*\<^sup>* fam_start ?s4" by (meson converse_rtranclp_into_rtranclp rtranclp.rtrancl_refl)
  then show ?thesis using remove_zombie_leaves_one[of ?s4] by (intro exI[of _ ?s4]) simp
qed

end
