(* ===== verification/Spec2Isabelle.thy ===== *)
theory Spec2Isabelle
  imports Http_Server Cv_Pool Timer_Heap Time_Wheel Timeout_Server Timeout_Io Udp_Room Process_Pool Epoll_Modes
    Poll_Chat Line_Server Shm_Chat Thread_Chat Thread_Sync Packets Op_Server Echo Half_Close Fork_Echo
    Suffix_Server Epoll_Echo Deadlock Stress_Client Unified_Events Line_Count Sem_Chat
    Msg_Queue Pipe_Io Std_Io Store_Msg Select_Echo Stu_Db Vector_Io Thread_Demos
    Pipe_Limits Thread_Cancel Cond_Two Pipe_Duplex Pv_Sem Line_Clients Suffix_Clients Struct_Io Console_Loops
    Wait_Demos
begin

text \<open>
  A verification library for linux\_program\_study, a collection of C++ programs that study network
  programming under Linux. Every chapter directory under src/ is a small program of its own; the
  library models the programs with a logic of their own, those that parse, keep state, share data
  between threads or processes, or speak a protocol.

  \<^bold>\<open>How code is modelled.\<close> A struct or class is a record, an enum a datatype, an array of characters a
  list of fixed length with the pointers into it as indices. What is undefined in C (a store outside
  an array, a string function on memory without a terminator, a signed overflow, a null or freed
  pointer, a division by zero) is a \<open>fault\<close> and ends the run: \<open>Inl\<close> of the type \<open>'a result\<close> of Prelude.
  Input that arrives on a descriptor is a script of events that \<open>recv\<close> (not blocking, in Posix) or
  \<open>brecv\<close> (blocking, in C\_Io) takes bytes from; the calls a program makes are recorded in order. Loops
  that end are recursive functions with a measure, loops that may not are \<open>partial_function (option)\<close>,
  where \<open>None\<close> is a run that does not end, and the theorems say of both kinds which it is. Threads and
  processes are step relations or schedules over an explicit state. What is outside src/ (the kernel,
  the file system, the programs that are executed) is a parameter or a script. Widths matter where the
  code relies on them: event masks and header fields are words, \<open>int\<close> results are checked against
  their range, the comparison of an \<open>int\<close> with a \<open>size_t\<close> is done modulo 2 to the 64.

  \<^bold>\<open>Foundations.\<close> Prelude: results, their sequencing, lemmas on lists. C\_Strings and C\_Io: the C
  library's string functions on arrays, \<open>fgets\<close>, numbers on a pipe. Posix: descriptors, events, the
  kernel's interest list. Locks: semaphore, mutex and condition variable of locker.h, with the locales
  \<open>mutex_users\<close> (at most one thread inside) and \<open>fifo_queue\<close> (what is taken was put, in order), which
  Thread\_Pool, Cv\_Pool and Cond\_Two interpret.

  \<^bold>\<open>The HTTP server\<close> (85\_process\_pool\_thread\_pool). Http\_Parse to Http\_Process are class
  \<open>http_conn\<close>: the parser on the array (\<open>parse_line\<close>, \<open>parse_request_line\<close>, \<open>parse_headers\<close>,
  \<open>process_read\<close>), its meaning on texts (Http\_Lines, Http\_Request), memory safety for inputs of any
  kind (Http\_Safety), reading, writing and closing (Http\_IO), whole messages (Http\_Message,
  Http\_Reply) and \<open>process\<close> (Http\_Process). Http\_Server is the event loop of \<open>http_conn_test\<close> with the
  workers of Thread\_Pool: the invariant ties the user count, the queue, the connection states and the
  kernel's interest list together, and faults come from a message body only. Cgi\_Conn and Process\_Pool
  are the other half of the directory: the template \<open>process_pool\<close> with its signals and pipes, the
  locale \<open>pool_user\<close> for what it asks of a connection class, interpreted on \<open>cgi_conn\<close>.

  \<^bold>\<open>Timers\<close> (81\_timer). Timer\_Spec states what a container of timers promises (locales
  \<open>deadline_queue\<close>, \<open>tick_counter\<close>); Timer\_List, Timer\_Heap and Time\_Wheel are the three containers with
  their objects on an explicit heap, and interpret them; list and heap fire the same timers under every
  sequence of operations. Timeout\_Server is the server that closes idle connections, Timeout\_Io the
  remaining time of \<open>epoll_wait\<close>.

  \<^bold>\<open>Chat rooms and file servers.\<close> Udp\_Room (refinement of an abstract room) and File\_Transfer (09),
  Poll\_Chat and Epoll\_Modes (79), Shm\_Chat (83: one process per user, messages in shared memory),
  Thread\_Chat (48: one thread per user), Line\_Server (78: the incremental parser equals a reference that
  reads the whole text). Half\_Close (37) is the file transfer that ends with a half close.

  \<^bold>\<open>Small servers and clients.\<close> Echo (34, 35, 36): the TCP echo server, the client that reads once for
  a line and the one that collects what it sent, the UDP programs. Fork\_Echo (40): a child per
  connection, the reaping of zombies, the client in two processes; Wait\_Demos the two programs that collect
  two children. Epoll\_Echo (47): one handler under
  level-triggered and edge-triggered notification as a step relation of kernel and server.
  Suffix\_Server (08, 09, 10): the servers that answer with a suffix, with three kinds of time limit, and
  the select server; Suffix\_Clients their clients, composed with them, the plain datagram servers, and
  broadcast and multicast. Line\_Clients: the clients of 40 to 42. Console\_Loops (02, 09, 42): programs that
  read the console, alone or beside a listening socket. Op\_Server (35): the calculator and its wire format. Packets (10): the packet dump
  and the two ARP queries, refined to one specification. Unified\_Events (80): signals through a socket
  pair. Stress\_Client (86): the load generator. Select\_Echo (42): one pass of a \<open>select\<close> loop over all
  descriptors, the set and its greatest member kept in step. Store\_Msg (41): a child per connection and a
  process that logs what they pass on through a pipe. Std\_Io (45, 46): echo server and client over FILE
  streams, and what \<open>fclose\<close> of one of two streams does to a connection.

  \<^bold>\<open>Between processes, files and tables.\<close> Sem\_Chat (06): lines through shared memory under two System V
  semaphores, from the creation of the set on. Msg\_Queue (06): two terminals, four processes and one
  message queue. Pipe\_Io (05): a file through a pipe, lines through a FIFO. Pipe\_Limits (05): how much a pipe
  takes. Pipe\_Duplex (41): two processes that talk through one pipe or two. Pv\_Sem (83): a section under a
  semaphore whose operations are undone. Struct\_Io (02, 06, 43): structs written and read back, and reading ahead. Line\_Count (02): two counters
  of lines, the lock of a file, producer and consumer. Vector\_Io (76): a file as a response, by \<open>writev\<close> and
  \<open>sendfile\<close>, echo and duplication by \<open>splice\<close> and \<open>tee\<close>. Stu\_Db (11): the menu over a table of students;
  the database library is a parameter, two queries are shown to print the same.

  \<^bold>\<open>Threads.\<close> Thread\_Pool (85), Cv\_Pool (04), Thread\_Sync (48: counters with and without a mutex, a
  pair of semaphores), Deadlock (84: two locks in opposite orders, fork while a lock is held), Thread\_Demos
  (04: two variables with and without a lock, a thread cancelled while it holds it, a condition variable),
  Cond\_Two (04: a word written under the lock, an interpretation of \<open>mutex_users\<close>), Thread\_Cancel (04).

  \<^bold>\<open>What the lemma groups show.\<close> For each component: the invariant of its state and that every operation
  keeps it; what each operation computes on every branch; that a run faults only in the cases that are
  named, or that it does fault in them; round trips of what is encoded, stored or sent; that a
  reference definition or an abstract specification is met; and where a program does not do what it is
  meant to, a theorem that exhibits the run (lost updates, stranded bytes, zombies, connections nobody
  serves, loops at the end of a stream, buffers one byte too short).

  \<^bold>\<open>Bounds and fuel.\<close> Array sizes are those of the sources. Where a run is cut after a number of turns
  (\<open>echo2_run\<close>, \<open>read_prints\<close>, \<open>select_run\<close> over a list of events) the number or the list is
  universally quantified; nothing depends on a default. Deadlock explores all schedules up to 12 steps,
  the length of the two programs together.

  \<^bold>\<open>Not modelled.\<close> Programs that only call the system and print what it says (01, 03, 07, 31 to 33, 38, 39,
  44, 71 to 75, 77, 87, and the demonstrations of that kind at the start of the other chapters), the
  set-up of sockets before a server's loop, the variants for Windows, which repeat the logic of the ones
  modelled, and the libraries in the tree (sqlite3.h, the libevent headers), which the programs only
  include. Urgent data (43, 75) is not modelled. Time passes as an explicit clock or as events; signals are events of the schedule. The
  memory model is sequentially consistent; a data race shows as an interleaving of loads and stores.
\<close>

end
